(* ===== verification/Prelude.thy ===== *)
theory Prelude
  imports Main "HOL-Library.Word"
begin

text \<open>
  Shared vocabulary of the development: the machine integer types of the kernel, the result
  type that makes every panic, failed assertion and unbounded loop a value, and the generic
  lemmas on results, lists and words that the component theories use.

  \<^item> \<open>u8\<close>, \<open>u16\<close>, \<open>u32\<close> are the \<open>uint8_t\<close>, \<open>uint16_t\<close>, \<open>uint32_t\<close> of the source: words
    whose arithmetic wraps around.
  \<^item> \<open>fault\<close> is what ends a kernel operation abnormally: \<open>Panic\<close> for \<open>Debug::panic\<close>,
    \<open>AssertFail\<close> for a failed \<open>ASSERT\<close>, \<open>Undef\<close> for an access that the language leaves undefined
    (freed or out-of-range memory, division by zero), \<open>NoFuel\<close> for a loop that exceeded the bound the model
    gives it (each component proves that this never happens from a well-formed state).
  \<^item> \<open>'a res\<close> is \<open>fault + 'a\<close>; \<open>bindR\<close> sequences two operations and \<open>assertR\<close> is the
    \<open>ASSERT\<close> macro of \<open>debug.h\<close>.
\<close>

unbundle bit_operations_syntax

type_synonym u8 = "8 word"
type_synonym u16 = "16 word"
type_synonym u32 = "32 word"

datatype fault = Panic string | AssertFail string | Undef string | NoFuel

type_synonym 'a res = "fault + 'a"

fun bindR :: "'a res \<Rightarrow> ('a \<Rightarrow> 'b res) \<Rightarrow> 'b res" where
  "bindR (Inl e) f = Inl e"
| "bindR (Inr x) f = f x"

definition assertR :: "bool \<Rightarrow> string \<Rightarrow> unit res" where
  "assertR b msg = (if b then Inr () else Inl (AssertFail msg))"

fun mapR :: "('a \<Rightarrow> 'b) \<Rightarrow> 'a res \<Rightarrow> 'b res" where
  "mapR f (Inl e) = Inl e"
| "mapR f (Inr x) = Inr (f x)"

named_theorems res_simps

subsection \<open>Results\<close>

lemma bindR_Inr_conv: "bindR m f = Inr y \<longleftrightarrow> (\<exists>x. m = Inr x \<and> f x = Inr y)"
  by (cases m) auto

lemma bindR_Inl_conv:
  "bindR m f = Inl e \<longleftrightarrow> m = Inl e \<or> (\<exists>x. m = Inr x \<and> f x = Inl e)"
  by (cases m) auto

lemma bindR_cong:
  "m = m' \<Longrightarrow> (\<And>x. m' = Inr x \<Longrightarrow> f x = g x) \<Longrightarrow> bindR m f = bindR m' g"
  by (cases m') auto

lemma bindR_assoc: "bindR (bindR m f) g = bindR m (\<lambda>x. bindR (f x) g)"
  by (cases m) auto

lemma bindR_Inr_right [simp]: "bindR m Inr = m"
  by (cases m) auto

lemma bindR_if: "bindR (if b then m else m') f = (if b then bindR m f else bindR m' f)"
  by simp

lemma mapR_bindR: "mapR f m = bindR m (\<lambda>x. Inr (f x))"
  by (cases m) auto

lemma assertR_True [simp]: "assertR True msg = Inr ()"
  by (simp add: assertR_def)

lemma assertR_False [simp]: "assertR False msg = Inl (AssertFail msg)"
  by (simp add: assertR_def)

lemma assertR_Inr_conv: "assertR b msg = Inr u \<longleftrightarrow> b"
  by (simp add: assertR_def)

lemma bindR_assertR:
  "bindR (assertR b msg) f = (if b then f () else Inl (AssertFail msg))"
  by (simp add: assertR_def)

lemmas [res_simps] =
  bindR_Inr_conv bindR_Inl_conv bindR_assoc assertR_Inr_conv bindR_assertR mapR_bindR

subsection \<open>Words\<close>

lemma unat_plus_no_wrap:
  "unat a + unat b < 2 ^ 32 \<Longrightarrow> unat (a + b :: u32) = unat a + unat b"
  by (simp add: unat_word_ariths)

lemma unat_times_no_wrap:
  "unat a * unat b < 2 ^ 32 \<Longrightarrow> unat (a * b :: u32) = unat a * unat b"
  by (simp add: unat_word_ariths)

lemma unat_minus_no_wrap:
  "b \<le> a \<Longrightarrow> unat (a - b :: u32) = unat a - unat b"
  by (simp add: unat_sub)

lemma unat_of_nat_u32 [simp]: "n < 2 ^ 32 \<Longrightarrow> unat (of_nat n :: u32) = n"
  by (simp add: unat_of_nat)

lemma unat_u32_less [simp]: "unat (x :: u32) < 2 ^ 32"
  using unsigned_less [of x] by simp

end
