(* ===== verification/KHeap.thy ===== *)
theory KHeap
  imports Prelude
begin

text \<open>
  The kernel heap, \<open>kernel/heap.cc\<close>: boundary tags and a doubly linked free list, both kept
  inside one array of \<open>int\<close>.

  The array is a raw pointer in the source, so the model is a function from index to value: an
  access outside \<open>0..<len\<close> is not an error of the model either, it reads or writes a cell that
  does not belong to the heap, and the theorems show that this never happens. C \<open>int\<close>s are
  HOL integers; a heap has fewer than \<open>2^29\<close> words, and every index and every size stays
  below that. Pointers and byte counts are \<open>u32\<close>, with the wrap-around of \<open>size_t\<close>.
  \<open>theLock\<close> makes \<open>malloc\<close> and \<open>free\<close> atomic, so each is one function of the state.
\<close>

section \<open>State and operations\<close>

record heap =
  h_base :: u32
  h_array :: "int \<Rightarrow> int"
  h_len :: int
  h_safe :: bool
  h_avail :: int

definition hp_abs :: "int \<Rightarrow> int" where
  "hp_abs x = (if x < 0 then - x else x)"

definition hp_size :: "heap \<Rightarrow> int \<Rightarrow> int" where
  "hp_size h i = hp_abs (h_array h i)"

definition headerFromFooter :: "heap \<Rightarrow> int \<Rightarrow> int" where
  "headerFromFooter h i = i - hp_size h i + 1"

definition footerFromHeader :: "heap \<Rightarrow> int \<Rightarrow> int" where
  "footerFromHeader h i = i + hp_size h i - 1"

definition sanity :: "heap \<Rightarrow> int \<Rightarrow> int res" where
  "sanity h i =
     (if h_safe h then
        if i = 0 then Inr 0
        else if i < 0 \<or> i \<ge> h_len h then Inl (Panic ''bad header index'')
        else
          let footer = footerFromHeader h i in
          if footer < 0 \<or> footer \<ge> h_len h then Inl (Panic ''bad footer index'')
          else
            let hv = h_array h i; fv = h_array h footer in
            if hv \<noteq> fv then Inl (Panic ''bad block'') else Inr i
      else Inr i)"

definition hp_left :: "heap \<Rightarrow> int \<Rightarrow> int res" where
  "hp_left h i = sanity h (headerFromFooter h (i - 1))"

definition hp_right :: "heap \<Rightarrow> int \<Rightarrow> int res" where
  "hp_right h i = sanity h (i + hp_size h i)"

definition hp_next :: "heap \<Rightarrow> int \<Rightarrow> int res" where
  "hp_next h i = sanity h (h_array h (i + 1))"

definition hp_prev :: "heap \<Rightarrow> int \<Rightarrow> int res" where
  "hp_prev h i = sanity h (h_array h (i + 2))"

definition setNext :: "heap \<Rightarrow> int \<Rightarrow> int \<Rightarrow> heap" where
  "setNext h i x = h\<lparr>h_array := (h_array h)(i + 1 := x)\<rparr>"

definition setPrev :: "heap \<Rightarrow> int \<Rightarrow> int \<Rightarrow> heap" where
  "setPrev h i x = h\<lparr>h_array := (h_array h)(i + 2 := x)\<rparr>"

definition hp_remove :: "heap \<Rightarrow> int \<Rightarrow> heap res" where
  "hp_remove h i =
     bindR (hp_prev h i) (\<lambda>prevIndex.
     bindR (hp_next h i) (\<lambda>nextIndex.
       let h1 = (if prevIndex = 0 then h\<lparr>h_avail := nextIndex\<rparr>
                 else setNext h prevIndex nextIndex);
           h2 = (if nextIndex \<noteq> 0 then setPrev h1 nextIndex prevIndex else h1)
       in Inr h2))"

definition makeAvail :: "heap \<Rightarrow> int \<Rightarrow> int \<Rightarrow> heap" where
  "makeAvail h i ints =
     (let h1 = h\<lparr>h_array := (h_array h)(i := ints)\<rparr>;
          h2 = h1\<lparr>h_array := (h_array h1)(footerFromHeader h1 i := ints)\<rparr>;
          h3 = setNext h2 i (h_avail h2);
          h4 = setPrev h3 i 0;
          h5 = (if h_avail h4 \<noteq> 0 then setPrev h4 (h_avail h4) i else h4)
      in h5\<lparr>h_avail := i\<rparr>)"

definition makeTaken :: "heap \<Rightarrow> int \<Rightarrow> int \<Rightarrow> heap" where
  "makeTaken h i ints =
     (let h1 = h\<lparr>h_array := (h_array h)(i := - ints)\<rparr>
      in h1\<lparr>h_array := (h_array h1)(footerFromHeader h1 i := - ints)\<rparr>)"

definition isAvail :: "heap \<Rightarrow> int \<Rightarrow> bool" where
  "isAvail h i \<longleftrightarrow> h_array h i > 0"

definition isTaken :: "heap \<Rightarrow> int \<Rightarrow> bool" where
  "isTaken h i \<longleftrightarrow> h_array h i < 0"

text \<open>
  The search loop of \<open>malloc\<close>: the smallest of the first twenty blocks on the free list that
  are large enough. One unit of fuel per iteration; \<open>malloc\<close> provides one more unit than the
  heap has words, and a free list of a well-formed heap is shorter than that.
\<close>

fun fit_loop :: "nat \<Rightarrow> heap \<Rightarrow> int \<Rightarrow> int \<Rightarrow> int \<Rightarrow> int \<Rightarrow> int \<Rightarrow> (int \<times> int) res" where
  "fit_loop 0 h ints countDown p mx it = Inl NoFuel"
| "fit_loop (Suc n) h ints countDown p mx it =
     (if p = 0 then Inr (mx, it)
      else if \<not> isAvail h p then Inl (Panic ''block is not available in malloc'')
      else
        let sz = hp_size h p in
        if sz \<ge> ints then
          let mx' = (if sz < mx then sz else mx);
              it' = (if sz < mx then p else it);
              countDown' = countDown - 1
          in if countDown' = 0 then Inr (mx', it')
             else bindR (hp_next h p) (\<lambda>p'. fit_loop n h ints countDown' p' mx' it')
        else bindR (hp_next h p) (\<lambda>p'. fit_loop n h ints countDown p' mx it))"

text \<open>The number of words \<open>malloc\<close> asks for: \<open>bytes + 3\<close> is \<open>size_t\<close> arithmetic.\<close>

definition malloc_ints :: "u32 \<Rightarrow> int" where
  "malloc_ints bytes =
     (let ints = uint ((bytes + 3) div 4 + 2) in if ints < 4 then 4 else ints)"

definition ptr_of :: "heap \<Rightarrow> int \<Rightarrow> u32" where
  "ptr_of h i = h_base h + word_of_int (4 * (i + 1))"

definition malloc :: "heap \<Rightarrow> u32 \<Rightarrow> (u32 \<times> heap) res" where
  "malloc h bytes =
     (if bytes = 0 then Inr (h_base h, h)
      else
        let ints = malloc_ints bytes in
        bindR (fit_loop (nat (h_len h) + 1) h ints 20 (h_avail h) 0x7FFFFFFF 0) (\<lambda>(mx, it).
          if it \<noteq> 0 then
            bindR (hp_remove h it) (\<lambda>h1.
              let extra = mx - ints;
                  h2 = (if extra \<ge> 4 then makeAvail (makeTaken h1 it ints) (it + ints) extra
                        else makeTaken h1 it mx)
              in Inr (ptr_of h it, h2))
          else Inr (0, h)))"

definition free :: "heap \<Rightarrow> u32 \<Rightarrow> heap res" where
  "free h p =
     (if p = 0 then Inr h
      else if p = h_base h then Inr h
      else
        let idx = uint ((p - h_base h) div 4) - 1 in
        bindR (sanity h idx) (\<lambda>_.
        if \<not> isTaken h idx then Inl (Panic ''freeing free block'')
        else
          let sz = hp_size h idx in
          bindR (hp_left h idx) (\<lambda>leftIndex.
          bindR (hp_right h idx) (\<lambda>rightIndex.
          bindR (if isAvail h leftIndex
                 then bindR (hp_remove h leftIndex)
                        (\<lambda>h1. Inr (h1, leftIndex, sz + hp_size h1 leftIndex))
                 else Inr (h, idx, sz)) (\<lambda>(h1, idx1, sz1).
          bindR (if isAvail h1 rightIndex
                 then bindR (hp_remove h1 rightIndex)
                        (\<lambda>h2. Inr (h2, sz1 + hp_size h2 rightIndex))
                 else Inr (h1, sz1)) (\<lambda>(h2, sz2).
          Inr (makeAvail h2 idx1 sz2)))))))"

text \<open>
  \<open>operator new\<close> panics where \<open>malloc\<close> returns null. \<open>heapInit\<close> builds the two sentinels and
  the one free block and then allocates its own lock; \<open>lockBytes\<close> is \<open>sizeof(BlockingLock)\<close>.
\<close>

definition operator_new :: "heap \<Rightarrow> u32 \<Rightarrow> (u32 \<times> heap) res" where
  "operator_new h bytes =
     bindR (malloc h bytes) (\<lambda>(p, h').
       if p = 0 then Inl (Panic ''out of memory'') else Inr (p, h'))"

definition operator_delete :: "heap \<Rightarrow> u32 \<Rightarrow> heap res" where
  "operator_delete h p = free h p"

definition heapLayout :: "(int \<Rightarrow> int) \<Rightarrow> u32 \<Rightarrow> u32 \<Rightarrow> heap" where
  "heapLayout mem base bytes =
     (let len = uint (bytes div 4);
          h0 = \<lparr>h_base = base, h_array = mem, h_len = len, h_safe = False, h_avail = 0\<rparr>;
          h1 = makeTaken h0 0 2;
          h2 = makeAvail h1 2 (len - 4)
      in makeTaken h2 (len - 2) 2)"

definition heapInit :: "(int \<Rightarrow> int) \<Rightarrow> u32 \<Rightarrow> u32 \<Rightarrow> u32 \<Rightarrow> (u32 \<times> heap) res" where
  "heapInit mem base bytes lockBytes = operator_new (heapLayout mem base bytes) lockBytes"

section \<open>Representation invariant\<close>

text \<open>
  A block is (start, size in words, taken). \<open>tiling i bs j\<close>: the blocks lie end to end from
  \<open>i\<close> to \<open>j\<close>, each large enough for its tags and, when free, for its links.
\<close>

type_synonym block = "int \<times> int \<times> bool"

fun tiling :: "int \<Rightarrow> block list \<Rightarrow> int \<Rightarrow> bool" where
  "tiling i [] j \<longleftrightarrow> i = j"
| "tiling i ((s, n, t) # bs) j \<longleftrightarrow>
     s = i \<and> 2 \<le> n \<and> (\<not> t \<longrightarrow> 4 \<le> n) \<and> tiling (i + n) bs j"

definition tag :: "int \<Rightarrow> bool \<Rightarrow> int" where
  "tag n t = (if t then - n else n)"

definition tagged :: "(int \<Rightarrow> int) \<Rightarrow> block list \<Rightarrow> bool" where
  "tagged a bs \<longleftrightarrow> (\<forall>(s, n, t) \<in> set bs. a s = tag n t \<and> a (s + n - 1) = tag n t)"

fun dll :: "(int \<Rightarrow> int) \<Rightarrow> int \<Rightarrow> int \<Rightarrow> int list \<Rightarrow> bool" where
  "dll a p x [] \<longleftrightarrow> x = 0"
| "dll a p x (f # fs) \<longleftrightarrow> x = f \<and> f \<noteq> 0 \<and> a (f + 2) = p \<and> dll a f (a (f + 1)) fs"

definition free_starts :: "block list \<Rightarrow> int list" where
  "free_starts bs = map fst (filter (\<lambda>(s, n, t). \<not> t) bs)"

definition no_adjacent_free :: "block list \<Rightarrow> bool" where
  "no_adjacent_free bs \<longleftrightarrow> successively (\<lambda>b c. snd (snd b) \<or> snd (snd c)) bs"

text \<open>
  \<open>heap_rep h bs fl\<close>: \<open>bs\<close> are the blocks of \<open>h\<close> in address order and \<open>fl\<close> its free list.
\<close>

definition heap_rep :: "heap \<Rightarrow> block list \<Rightarrow> int list \<Rightarrow> bool" where
  "heap_rep h bs fl \<longleftrightarrow>
     tiling 0 bs (h_len h) \<and> tagged (h_array h) bs \<and>
     dll (h_array h) 0 (h_avail h) fl \<and> distinct fl \<and> set fl = set (free_starts bs) \<and>
     no_adjacent_free bs \<and> (\<forall>(s, n, t) \<in> set bs. s = 0 \<or> s = h_len h - 2 \<or> 4 \<le> n) \<and>
     hd bs = (0, 2, True) \<and> last bs = (h_len h - 2, 2, True) \<and> 4 \<le> h_len h \<and>
     h_len h < 2 ^ 29 \<and> 0 < uint (h_base h) \<and> uint (h_base h) + 4 * h_len h \<le> 2 ^ 32"

section \<open>Tilings, tags and links\<close>

lemma tiling_append: "tiling i (xs @ ys) j \<longleftrightarrow> (\<exists>k. tiling i xs k \<and> tiling k ys j)"
  by (induction i xs j rule: tiling.induct) auto

lemma tiling_le: "tiling i bs j \<Longrightarrow> i \<le> j"
  by (induction i bs j rule: tiling.induct) auto

lemma tiling_mem:
  "tiling i bs j \<Longrightarrow> (s, n, t) \<in> set bs \<Longrightarrow>
     i \<le> s \<and> s + n \<le> j \<and> 2 \<le> n \<and> (\<not> t \<longrightarrow> 4 \<le> n)"
  by (induction i bs j rule: tiling.induct) (fastforce dest: tiling_le)+

lemma tiling_disjoint:
  "tiling i bs j \<Longrightarrow> (s, n, t) \<in> set bs \<Longrightarrow> (s', n', t') \<in> set bs \<Longrightarrow>
     (s = s' \<and> n = n' \<and> t = t') \<or> s + n \<le> s' \<or> s' + n' \<le> s"
proof (induction i bs j rule: tiling.induct)
  case (2 i s0 n0 t0 bs j)
  then show ?case
    using tiling_mem [of "i + n0" bs j s n t] tiling_mem [of "i + n0" bs j s' n' t']
    by auto
qed simp

lemma set_free_starts: "set (free_starts bs) = {s. \<exists>n. (s, n, False) \<in> set bs}"
  by (force simp: free_starts_def)

lemma free_starts_append [simp]: "free_starts (xs @ ys) = free_starts xs @ free_starts ys"
  by (simp add: free_starts_def)

lemma free_starts_Nil [simp]: "free_starts [] = []"
  by (simp add: free_starts_def)

lemma free_starts_Cons [simp]:
  "free_starts ((s, n, t) # bs) = (if t then free_starts bs else s # free_starts bs)"
  by (simp add: free_starts_def)

lemma tagged_append [simp]: "tagged a (xs @ ys) \<longleftrightarrow> tagged a xs \<and> tagged a ys"
  by (simp add: tagged_def ball_Un)

lemma tagged_Nil [simp]: "tagged a []"
  by (simp add: tagged_def)

lemma tagged_Cons [simp]:
  "tagged a ((s, n, t) # bs) \<longleftrightarrow> a s = tag n t \<and> a (s + n - 1) = tag n t \<and> tagged a bs"
  by (auto simp: tagged_def)

lemma taggedD: "tagged a bs \<Longrightarrow> (s, n, t) \<in> set bs \<Longrightarrow> a s = tag n t \<and> a (s + n - 1) = tag n t"
  by (auto simp: tagged_def)

lemma tagged_frame:
  assumes "tagged a bs"
    and "\<And>s n t. (s, n, t) \<in> set bs \<Longrightarrow> a' s = a s \<and> a' (s + n - 1) = a (s + n - 1)"
  shows "tagged a' bs"
  using assms by (fastforce simp: tagged_def)

lemma dll_frame:
  assumes "dll a p x fs" and "\<And>f. f \<in> set fs \<Longrightarrow> a' (f + 1) = a (f + 1) \<and> a' (f + 2) = a (f + 2)"
  shows "dll a' p x fs"
  using assms by (induction a p x fs rule: dll.induct) auto

lemma hp_abs_tag: "2 \<le> n \<Longrightarrow> hp_abs (tag n t) = n"
  by (simp add: hp_abs_def tag_def)

definition spaced :: "int list \<Rightarrow> bool" where
  "spaced fs \<longleftrightarrow> (\<forall>f \<in> set fs. \<forall>g \<in> set fs. f \<noteq> g \<longrightarrow> f + 4 \<le> g \<or> g + 4 \<le> f)"

lemma spacedD: "spaced fs \<Longrightarrow> f \<in> set fs \<Longrightarrow> g \<in> set fs \<Longrightarrow> f \<noteq> g \<Longrightarrow> f + 4 \<le> g \<or> g + 4 \<le> f"
  by (auto simp: spaced_def)

lemma tiling_spaced:
  assumes "tiling i bs j" and "set fl \<subseteq> set (free_starts bs)"
  shows "spaced fl"
  unfolding spaced_def
proof (intro ballI impI)
  fix f g assume "f \<in> set fl" "g \<in> set fl" "f \<noteq> g"
  then obtain n m where "(f, n, False) \<in> set bs" "(g, m, False) \<in> set bs"
    using assms(2) unfolding set_free_starts by blast
  with \<open>f \<noteq> g\<close> show "f + 4 \<le> g \<or> g + 4 \<le> f"
    using tiling_disjoint [OF assms(1), of f n False g m False]
      tiling_mem [OF assms(1), of f n False] tiling_mem [OF assms(1), of g m False] by auto
qed

text \<open>The neighbours of an element of the list, read from its link cells.\<close>

lemma dll_first: "dll a p x fs \<Longrightarrow> x = (if fs = [] then 0 else hd fs)"
  by (cases fs) auto

lemma dll_at:
  "dll a p x (us @ i # vs) \<Longrightarrow>
     i \<noteq> 0 \<and> a (i + 2) = (if us = [] then p else last us) \<and>
     a (i + 1) = (if vs = [] then 0 else hd vs)"
proof (induction us arbitrary: p x)
  case Nil
  then show ?case using dll_first [of a i "a (i + 1)" vs] by simp
next
  case (Cons u us)
  then have "dll a u (a (u + 1)) (us @ i # vs)" by simp
  from Cons.IH [OF this] show ?case by simp
qed

lemma dll_nonzero: "dll a p x fs \<Longrightarrow> 0 \<notin> set fs"
  by (induction a p x fs rule: dll.induct) auto

definition unlink :: "(int \<Rightarrow> int) \<Rightarrow> int list \<Rightarrow> int \<Rightarrow> int list \<Rightarrow> (int \<Rightarrow> int)" where
  "unlink a us p vs =
     (let a1 = (if us = [] then a else a(last us + 1 := (if vs = [] then 0 else hd vs)))
      in if vs = [] then a1 else a1(hd vs + 2 := (if us = [] then p else last us)))"

lemma unlink_other:
  "k \<notin> (\<lambda>f. f + 1) ` set (us @ vs) \<Longrightarrow> k \<notin> (\<lambda>f. f + 2) ` set (us @ vs) \<Longrightarrow> unlink a us p vs k = a k"
  by (cases "us = []"; cases "vs = []") (auto simp: unlink_def Let_def image_iff)

lemma dll_unlink:
  assumes "dll a p x (us @ i # vs)" "distinct (us @ i # vs)" "spaced (us @ i # vs)"
  shows "dll (unlink a us p vs) p (if us = [] then (if vs = [] then 0 else hd vs) else x) (us @ vs)"
  using assms
proof (induction us arbitrary: p x)
  case Nil
  show ?case
  proof (cases vs)
    case (Cons v ws)
    have "dll (a(v + 2 := p)) v (a (v + 1)) ws" if "dll a v (a (v + 1)) ws"
      using that
    proof (rule dll_frame)
      fix f assume "f \<in> set ws"
      then show "(a(v + 2 := p)) (f + 1) = a (f + 1) \<and> (a(v + 2 := p)) (f + 2) = a (f + 2)"
        using Nil.prems(2) spacedD [OF Nil.prems(3), of v f] Cons by auto
    qed
    with Nil.prems Cons show ?thesis by (simp add: unlink_def fun_upd_def)
  qed (use Nil in simp)
next
  case (Cons u us)
  have sp: "u + 4 \<le> g \<or> g + 4 \<le> u" if "g \<in> set (us @ i # vs)" for g
    using that Cons.prems(2) spacedD [OF Cons.prems(3), of u g] by auto
  have sp': "spaced (us @ i # vs)" using Cons.prems(3) by (auto simp: spaced_def)
  have tl: "dll a u (a (u + 1)) (us @ i # vs)" and hd: "x = u" "u \<noteq> 0" "a (u + 2) = p"
    using Cons.prems(1) by auto
  have IH: "dll (unlink a us u vs) u
      (if us = [] then (if vs = [] then 0 else hd vs) else a (u + 1)) (us @ vs)"
    using Cons.IH [OF tl _ sp'] Cons.prems(2) by simp
  let ?b = "unlink a us u vs" and ?c = "unlink a (u # us) p vs"
  have c: "?c = (if us = [] then ?b(u + 1 := (if vs = [] then 0 else hd vs)) else ?b)"
  proof (cases "us = [] \<and> vs \<noteq> []")
    case True
    then have "hd vs + 2 \<noteq> u + 1" using sp [of "hd vs"] by auto
    with True show ?thesis by (simp add: unlink_def fun_upd_twist)
  qed (auto simp: unlink_def Let_def)
  have bu: "?b (u + 1) = a (u + 1)" "?b (u + 2) = a (u + 2)"
    by (rule unlink_other; use sp in force)+
  have "dll ?c u (if us = [] then (if vs = [] then 0 else hd vs) else a (u + 1)) (us @ vs)"
    using IH
  proof (rule dll_frame)
    fix f assume "f \<in> set (us @ vs)"
    then show "?c (f + 1) = ?b (f + 1) \<and> ?c (f + 2) = ?b (f + 2)"
      using sp [of f] by (auto simp: c)
  qed
  then show ?case using hd bu by (auto simp: c)
qed


section \<open>The list and tag operations\<close>

text \<open>
  \<open>keeps h h' bs\<close>: from \<open>h\<close> to \<open>h'\<close> no word of a taken block of \<open>bs\<close> and no word outside the
  heap's array changed. \<open>hole h xs lo hi ys fl\<close>: the blocks \<open>xs\<close> below \<open>lo\<close> and \<open>ys\<close> above
  \<open>hi\<close> are in order, \<open>fl\<close> links free blocks among them, and nothing is said of \<open>lo..<hi\<close>.
\<close>

definition keeps :: "heap \<Rightarrow> heap \<Rightarrow> block list \<Rightarrow> bool" where
  "keeps h h' bs \<longleftrightarrow>
     h_len h' = h_len h \<and> h_base h' = h_base h \<and> h_safe h' = h_safe h \<and>
     (\<forall>(s, n, t) \<in> set bs. t \<longrightarrow> (\<forall>k. s \<le> k \<and> k < s + n \<longrightarrow> h_array h' k = h_array h k)) \<and>
     (\<forall>k. k < 0 \<or> h_len h \<le> k \<longrightarrow> h_array h' k = h_array h k)"

definition hole :: "heap \<Rightarrow> block list \<Rightarrow> int \<Rightarrow> int \<Rightarrow> block list \<Rightarrow> int list \<Rightarrow> bool" where
  "hole h xs lo hi ys fl \<longleftrightarrow>
     tiling 0 xs lo \<and> lo \<le> hi \<and> tiling hi ys (h_len h) \<and>
     tagged (h_array h) xs \<and> tagged (h_array h) ys \<and>
     dll (h_array h) 0 (h_avail h) fl \<and> distinct fl \<and> set fl \<subseteq> set (free_starts (xs @ ys))"

lemma keepsI:
  assumes "h_len h' = h_len h" "h_base h' = h_base h" "h_safe h' = h_safe h"
    and "\<And>s n k. (s, n, True) \<in> set bs \<Longrightarrow> s \<le> k \<Longrightarrow> k < s + n \<Longrightarrow> h_array h' k = h_array h k"
    and "\<And>k. k < 0 \<or> h_len h \<le> k \<Longrightarrow> h_array h' k = h_array h k"
  shows "keeps h h' bs"
proof -
  have "t \<longrightarrow> (\<forall>k. s \<le> k \<and> k < s + n \<longrightarrow> h_array h' k = h_array h k)"
    if "(s, n, t) \<in> set bs" for s n t
    using that assms(4) by (cases t) auto
  then show ?thesis using assms(1-3,5) unfolding keeps_def by blast
qed

lemma keeps_refl: "keeps h h bs"
  by (auto simp: keeps_def)

lemma keepsD:
  "keeps h h' bs \<Longrightarrow> (s, n, True) \<in> set bs \<Longrightarrow> s \<le> k \<Longrightarrow> k < s + n \<Longrightarrow> h_array h' k = h_array h k"
  by (fastforce simp: keeps_def)

lemma keeps_trans:
  assumes "keeps h h1 bs" "keeps h1 h2 bs'" "set bs \<subseteq> set bs'"
  shows "keeps h h2 bs"
proof -
  have "h_array h2 k = h_array h k" if "(s, n, True) \<in> set bs" "s \<le> k" "k < s + n" for s n k
    using keepsD [OF assms(1) that] keepsD [OF assms(2), of s n k] that assms(3) by auto
  moreover have "h_array h2 k = h_array h k" if "k < 0 \<or> h_len h \<le> k" for k
    using assms(1,2) that by (auto simp: keeps_def)
  ultimately show ?thesis using assms(1,2) by (intro keepsI) (auto simp: keeps_def)
qed

lemma keeps_subset:
  assumes "keeps h h' bs" "\<And>s n. (s, n, True) \<in> set cs \<Longrightarrow> (s, n, True) \<in> set bs"
  shows "keeps h h' cs"
proof (rule keepsI)
  show "h_array h' k = h_array h k" if "(s, n, True) \<in> set cs" "s \<le> k" "k < s + n" for s n k
    using keepsD [OF assms(1) assms(2)] that by blast
qed (use assms(1) in \<open>auto simp: keeps_def\<close>)

lemma sanity_zero [simp]: "sanity h 0 = Inr 0"
  by (simp add: sanity_def)

lemma sanity_block:
  assumes "tiling 0 bs (h_len h)" "tagged (h_array h) bs" "(s, n, t) \<in> set bs"
  shows "sanity h s = Inr s"
  using tiling_mem [OF assms(1,3)] taggedD [OF assms(2,3)]
  by (simp add: sanity_def footerFromHeader_def hp_size_def hp_abs_tag Let_def)

lemma hp_size_block:
  "tiling i bs j \<Longrightarrow> tagged (h_array h) bs \<Longrightarrow> (s, n, t) \<in> set bs \<Longrightarrow> hp_size h s = n"
  using tiling_mem [of i bs j s n t] taggedD [of "h_array h" bs s n t]
  by (simp add: hp_size_def hp_abs_tag)

lemma isAvail_block:
  "tiling i bs j \<Longrightarrow> tagged (h_array h) bs \<Longrightarrow> (s, n, t) \<in> set bs \<Longrightarrow> isAvail h s \<longleftrightarrow> \<not> t"
  using tiling_mem [of i bs j s n t] taggedD [of "h_array h" bs s n t]
  by (auto simp: isAvail_def tag_def)

lemma isTaken_block:
  "tiling i bs j \<Longrightarrow> tagged (h_array h) bs \<Longrightarrow> (s, n, t) \<in> set bs \<Longrightarrow> isTaken h s \<longleftrightarrow> t"
  using tiling_mem [of i bs j s n t] taggedD [of "h_array h" bs s n t]
  by (auto simp: isTaken_def tag_def)

text \<open>A change confined to link cells of free blocks keeps the tags and the taken blocks.\<close>

definition links :: "int list \<Rightarrow> int set" where
  "links fl = (\<lambda>f. f + 1) ` set fl \<union> (\<lambda>f. f + 2) ` set fl"

lemma links_disjoint:
  assumes "tiling i bs j" "set fl \<subseteq> set (free_starts bs)" "k \<in> links fl" "(s, n, t) \<in> set bs"
  shows "k \<noteq> s \<and> k \<noteq> s + n - 1 \<and> (t \<longrightarrow> k < s \<or> s + n \<le> k) \<and> i \<le> k \<and> k < j"
proof -
  obtain f m where f: "k = f + 1 \<or> k = f + 2" "(f, m, False) \<in> set bs"
    using assms(2,3) unfolding links_def set_free_starts by blast
  show ?thesis
    using f tiling_disjoint [OF assms(1) f(2) assms(4)] tiling_mem [OF assms(1) f(2)]
      tiling_mem [OF assms(1,4)] by auto
qed

lemma links_frame:
  assumes "tiling 0 bs (h_len h)" "set fl \<subseteq> set (free_starts bs)" "tagged (h_array h) bs"
    and "\<And>k. k \<notin> links fl \<Longrightarrow> h_array h' k = h_array h k"
    and "h_len h' = h_len h" "h_base h' = h_base h" "h_safe h' = h_safe h"
  shows "tagged (h_array h') bs \<and> keeps h h' bs"
proof
  show "tagged (h_array h') bs"
  proof (rule tagged_frame [OF assms(3)])
    fix s n t assume "(s, n, t) \<in> set bs"
    then show "h_array h' s = h_array h s \<and> h_array h' (s + n - 1) = h_array h (s + n - 1)"
      using links_disjoint [OF assms(1,2) _ \<open>(s, n, t) \<in> set bs\<close>] by (blast intro: assms(4))
  qed
  have "h_array h' k = h_array h k" if "(s, n, True) \<in> set bs" "s \<le> k" "k < s + n" for s n k
    using links_disjoint [OF assms(1,2) _ that(1)] that by (intro assms(4)) fastforce
  moreover have "h_array h' k = h_array h k" if k: "k < 0 \<or> h_len h \<le> k" for k
  proof (rule assms(4), rule notI)
    assume "k \<in> links fl"
    moreover from this assms(2) obtain s n where "(s, n, False) \<in> set bs"
      unfolding links_def set_free_starts by blast
    ultimately show False using links_disjoint [OF assms(1,2)] k by fastforce
  qed
  ultimately show "keeps h h' bs" using assms(5-7) by (intro keepsI)
qed

lemma hp_remove_spec:
  assumes til: "tiling 0 bs (h_len h)" and tg: "tagged (h_array h) bs"
    and dl: "dll (h_array h) 0 (h_avail h) (us @ i # vs)" and di: "distinct (us @ i # vs)"
    and sub: "set (us @ i # vs) \<subseteq> set (free_starts bs)"
  shows "\<exists>h'. hp_remove h i = Inr h' \<and> tagged (h_array h') bs \<and>
           dll (h_array h') 0 (h_avail h') (us @ vs) \<and> keeps h h' bs"
proof -
  let ?p = "if us = [] then 0 else last us" and ?n = "if vs = [] then 0 else hd vs"
  have nb: "h_array h (i + 2) = ?p" "h_array h (i + 1) = ?n" "i \<noteq> 0"
    using dll_at [OF dl] by auto
  have mem: "f = 0 \<or> sanity h f = Inr f" if "f = ?p \<or> f = ?n" for f
  proof (cases "f = 0")
    case False
    with that have "f \<in> set (us @ i # vs)" by (auto split: if_splits)
    with sub obtain n where "(f, n, False) \<in> set bs" unfolding set_free_starts by blast
    then show ?thesis using sanity_block [OF til tg] by blast
  qed simp
  have nz: "0 \<notin> set (us @ i # vs)" by (rule dll_nonzero [OF dl])
  have pz: "(?p = 0) = (us = [])" and qz: "(?n = 0) = (vs = [])"
    using nz by (auto simp: last_in_set hd_in_set) (metis last_in_set hd_in_set)+
  let ?h = "h\<lparr>h_avail := if us = [] then ?n else h_avail h,
              h_array := unlink (h_array h) us 0 vs\<rparr>"
  have eq: "hp_remove h i = Inr ?h"
    using mem [of ?p] mem [of ?n] pz qz
    by (auto simp: hp_remove_def hp_prev_def hp_next_def nb Let_def setNext_def setPrev_def
        unlink_def split: if_splits)
  have dl': "dll (h_array ?h) 0 (h_avail ?h) (us @ vs)"
    using dll_unlink [OF dl di tiling_spaced [OF til sub]] dll_first [OF dl] by simp
  have "h_array ?h k = h_array h k" if "k \<notin> links (us @ vs)" for k
    using that by (simp add: links_def unlink_other)
  then have "tagged (h_array ?h) bs \<and> keeps h ?h bs"
    by (intro links_frame [OF til _ tg, of "us @ vs"]) (use sub in auto)
  with eq dl' show ?thesis by blast
qed

lemma hole_free_mem:
  assumes "hole h xs lo hi ys fl" "f \<in> set fl"
  obtains n where "(f, n, False) \<in> set xs \<or> (f, n, False) \<in> set ys" "4 \<le> n" "0 \<le> f"
    "f + n \<le> lo \<or> hi \<le> f" "f + n \<le> h_len h"
proof -
  from assms have "f \<in> set (free_starts (xs @ ys))" by (auto simp: hole_def)
  then obtain n where n: "(f, n, False) \<in> set xs \<or> (f, n, False) \<in> set ys"
    by (auto simp: set_free_starts)
  from assms(1) have t: "tiling 0 xs lo" "lo \<le> hi" "tiling hi ys (h_len h)"
    by (auto simp: hole_def)
  show ?thesis
    using that [OF n] n tiling_mem [OF t(1), of f n False] tiling_mem [OF t(3), of f n False]
      tiling_le [OF t(1)] tiling_le [OF t(3)] t(2) by auto
qed

lemma hole_mem:
  assumes "hole h xs lo hi ys fl" "(s, n, t) \<in> set xs \<or> (s, n, t) \<in> set ys"
  shows "2 \<le> n \<and> 0 \<le> s \<and> (s + n \<le> lo \<or> hi \<le> s) \<and> s + n \<le> h_len h"
  using assms tiling_mem [of 0 xs lo s n t] tiling_mem [of hi ys "h_len h" s n t]
    tiling_le [of 0 xs lo] tiling_le [of hi ys "h_len h"]
  by (auto simp: hole_def)


text \<open>A change confined to the hole and to link cells keeps the rest.\<close>

lemma hole_frame:
  assumes "hole h xs lo hi ys fl" "lo + 2 \<le> hi"
    and same: "\<And>k. k < lo \<or> hi \<le> k \<Longrightarrow> k \<notin> links fl \<Longrightarrow> h_array h' k = h_array h k"
    and "h_len h' = h_len h" "h_base h' = h_base h" "h_safe h' = h_safe h"
  shows "tagged (h_array h') xs \<and> tagged (h_array h') ys \<and> keeps h h' (xs @ ys)"
proof -
  let ?zs = "xs @ (lo, hi - lo, True) # ys"
  have til: "tiling 0 ?zs (h_len h)" and sub: "set fl \<subseteq> set (free_starts ?zs)"
    and tg: "tagged (h_array h) xs" "tagged (h_array h) ys"
    using assms(1,2) by (auto simp: hole_def tiling_append)
  have cell: "h_array h' k = h_array h k"
    if "(s, n, t) \<in> set (xs @ ys)" "k = s \<or> k = s + n - 1 \<or> t \<and> s \<le> k \<and> k < s + n" for s n t k
  proof (rule same)
    show "k < lo \<or> hi \<le> k" using hole_mem [OF assms(1), of s n t] that by auto
    have "(s, n, t) \<in> set ?zs" using that(1) by auto
    from links_disjoint [OF til sub _ this, of k] that(2) show "k \<notin> links fl" by linarith
  qed
  have tags: "h_array h' s = h_array h s \<and> h_array h' (s + n - 1) = h_array h (s + n - 1)"
    if "(s, n, t) \<in> set (xs @ ys)" for s n t
    using cell [OF that] by simp
  have "tagged (h_array h') xs" by (rule tagged_frame [OF tg(1)]) (use tags in fastforce)
  moreover have "tagged (h_array h') ys" by (rule tagged_frame [OF tg(2)]) (use tags in fastforce)
  moreover have "h_array h' k = h_array h k" if "k < 0 \<or> h_len h \<le> k" for k
  proof (rule same)
    show "k < lo \<or> hi \<le> k"
      using that assms(1) tiling_le [of 0 xs lo] tiling_le [of hi ys "h_len h"]
      by (auto simp: hole_def)
    have "(lo, hi - lo, True) \<in> set ?zs" by simp
    from links_disjoint [OF til sub _ this] that show "k \<notin> links fl" by force
  qed
  moreover have "h_array h' k = h_array h k"
    if "(s, n, True) \<in> set (xs @ ys)" "s \<le> k" "k < s + n" for s n k
    using cell [OF that(1), of k] that by simp
  ultimately show ?thesis using assms(4-6) by (intro conjI keepsI)
qed

lemma hole_link_far:
  assumes "hole h xs lo hi ys fl" "f \<in> set fl"
  shows "f + 4 \<le> lo \<or> hi \<le> f"
  using hole_free_mem [OF assms] by (metis add_left_mono order_trans)

lemma hole_spaced: "hole h xs lo hi ys fl \<Longrightarrow> lo + 2 \<le> hi \<Longrightarrow> spaced fl"
  by (rule tiling_spaced [of 0 "xs @ (lo, hi - lo, True) # ys" "h_len h"])
    (auto simp: hole_def tiling_append)

text \<open>Filling the bottom of a hole with a taken or a free block.\<close>

lemma makeTaken_hole:
  assumes "hole h xs lo hi ys fl" "2 \<le> n" "lo + n \<le> hi"
  shows "hole (makeTaken h lo n) (xs @ [(lo, n, True)]) (lo + n) hi ys fl \<and>
         keeps h (makeTaken h lo n) (xs @ ys)"
proof -
  let ?h = "makeTaken h lo n"
  have arr: "h_array ?h = (h_array h)(lo := - n, lo + n - 1 := - n)"
    and rest: "h_len ?h = h_len h" "h_base ?h = h_base h" "h_safe ?h = h_safe h"
      "h_avail ?h = h_avail h"
    using assms(2) by (simp_all add: makeTaken_def footerFromHeader_def hp_size_def hp_abs_def Let_def)
  have same: "h_array ?h k = h_array h k" if "k < lo \<or> hi \<le> k" for k
    using that assms(2,3) by (auto simp: arr)
  have fr: "tagged (h_array ?h) xs \<and> tagged (h_array ?h) ys \<and> keeps h ?h (xs @ ys)"
    using assms rest same by (intro hole_frame) auto
  have "dll (h_array h) 0 (h_avail h) fl" using assms(1) by (simp add: hole_def)
  then have "dll (h_array ?h) 0 (h_avail h) fl"
    by (rule dll_frame) (use hole_link_far [OF assms(1)] same in fastforce)
  with fr show ?thesis
    using assms rest by (auto simp: hole_def arr tag_def tiling_append)
qed

lemma makeAvail_hole:
  assumes "hole h xs lo hi ys fl" "4 \<le> n" "lo + n \<le> hi" "0 < lo"
  shows "hole (makeAvail h lo n) (xs @ [(lo, n, False)]) (lo + n) hi ys (lo # fl) \<and>
         keeps h (makeAvail h lo n) (xs @ ys)"
proof -
  let ?h = "makeAvail h lo n" and ?old = "h_avail h"
  have dl: "dll (h_array h) 0 ?old fl" using assms(1) by (simp add: hole_def)
  have rest: "h_len ?h = h_len h" "h_base ?h = h_base h" "h_safe ?h = h_safe h" "h_avail ?h = lo"
    by (auto simp: makeAvail_def setNext_def setPrev_def Let_def)
  define a1 where "a1 = (h_array h)(lo := n, lo + n - 1 := n, lo + 1 := ?old, lo + 2 := 0)"
  have arr: "h_array ?h = (if ?old \<noteq> 0 then a1(?old + 2 := lo) else a1)"
    using assms(2)
    by (simp add: makeAvail_def footerFromHeader_def hp_size_def hp_abs_def Let_def setNext_def
        setPrev_def a1_def)
  have old: "?old \<noteq> 0 \<Longrightarrow> ?old \<in> set fl" using dll_first [OF dl] by (auto split: if_splits)
  have oldfar: "?old \<noteq> 0 \<Longrightarrow> ?old + 4 \<le> lo \<or> hi \<le> ?old"
    using hole_link_far [OF assms(1) old] by blast
  have same: "h_array ?h k = h_array h k" if "k < lo \<or> hi \<le> k" "?old = 0 \<or> k \<noteq> ?old + 2" for k
  proof -
    have "k \<noteq> lo" "k \<noteq> lo + n - 1" "k \<noteq> lo + 1" "k \<noteq> lo + 2" using that(1) assms(2,3) by linarith+
    then show ?thesis using that(2) by (auto simp: arr a1_def)
  qed
  have fr: "tagged (h_array ?h) xs \<and> tagged (h_array ?h) ys \<and> keeps h ?h (xs @ ys)"
  proof (rule hole_frame [OF assms(1) _ _ rest(1-3)])
    show "lo + 2 \<le> hi" using assms(2,3) by simp
    fix k assume "k < lo \<or> hi \<le> k" "k \<notin> links fl"
    then show "h_array ?h k = h_array h k" using old by (intro same) (auto simp: links_def)
  qed
  have cells: "h_array ?h lo = n" "h_array ?h (lo + n - 1) = n" "h_array ?h (lo + 1) = ?old"
    "h_array ?h (lo + 2) = 0"
    using assms(2,3) oldfar by (cases "?old = 0"; auto simp: arr a1_def)+
  have "dll (h_array ?h) lo ?old fl"
  proof (cases fl)
    case (Cons f fs)
    with dl have f: "f = ?old" "f \<noteq> 0" "dll (h_array h) f (h_array h (f + 1)) fs" by auto
    have "h_array ?h (g + 1) = h_array h (g + 1) \<and> h_array ?h (g + 2) = h_array h (g + 2)"
      if "g \<in> set fs" for g
    proof -
      have "g \<noteq> f" using assms(1) that Cons by (auto simp: hole_def)
      then have "g + 4 \<le> f \<or> f + 4 \<le> g"
        using spacedD [OF hole_spaced [OF assms(1)], of g f] that Cons assms(2,3) by auto
      then show ?thesis
        using hole_link_far [OF assms(1), of g] that Cons f(1) by (intro conjI same) auto
    qed
    then have "dll (h_array ?h) f (h_array h (f + 1)) fs" by (rule dll_frame [OF f(3)])
    moreover have "h_array ?h (f + 1) = h_array h (f + 1)"
      using oldfar f by (intro same) auto
    ultimately show ?thesis using Cons f by (simp add: arr)
  qed (use dl in simp)
  moreover have "lo \<notin> set fl" using hole_link_far [OF assms(1), of lo] assms(2,3) by auto
  ultimately show ?thesis
    using assms rest fr cells by (auto simp: hole_def tag_def tiling_append)
qed

section \<open>The search loop\<close>

text \<open>
  What the loop computes: the smallest of the first twenty blocks of the free list that are
  large enough, the earlier one on a tie.
\<close>

definition best_step :: "(int \<Rightarrow> int) \<Rightarrow> int \<times> int \<Rightarrow> int \<Rightarrow> int \<times> int" where
  "best_step sz = (\<lambda>(mx, it) p. if sz p < mx then (sz p, p) else (mx, it))"

definition candidates :: "(int \<Rightarrow> int) \<Rightarrow> int \<Rightarrow> nat \<Rightarrow> int list \<Rightarrow> int list" where
  "candidates sz ints cnt fl = take cnt (filter (\<lambda>p. ints \<le> sz p) fl)"

lemma fit_loop_eq:
  assumes "dll (h_array h) p x fs" "set fs \<subseteq> set (free_starts bs)"
    and "tiling 0 bs (h_len h)" "tagged (h_array h) bs" "length fs < fuel"
  shows "fit_loop fuel h ints (int (Suc c)) x mx it =
           Inr (foldl (best_step (hp_size h)) (mx, it) (candidates (hp_size h) ints (Suc c) fs))"
  using assms(1,2,5)
proof (induction fs arbitrary: p x fuel c mx it)
  case Nil
  then show ?case by (cases fuel) (auto simp: candidates_def)
next
  case (Cons f fs)
  then obtain fuel' where fuel: "fuel = Suc fuel'" "length fs < fuel'" by (cases fuel) auto
  from Cons.prems have d: "x = f" "f \<noteq> 0" "dll (h_array h) f (h_array h (f + 1)) fs"
    and sub: "set fs \<subseteq> set (free_starts bs)" by auto
  from Cons.prems obtain n where "(f, n, False) \<in> set bs" by (auto simp: set_free_starts)
  then have av: "isAvail h f" using isAvail_block [OF assms(3,4)] by blast
  have nx: "hp_next h f = Inr (h_array h (f + 1))"
  proof (cases fs)
    case (Cons g gs)
    with d sub have "h_array h (f + 1) = g" "g \<in> set (free_starts bs)" by auto
    then obtain m where "(g, m, False) \<in> set bs" by (auto simp: set_free_starts)
    then show ?thesis
      using sanity_block [OF assms(3,4)] \<open>h_array h (f + 1) = g\<close> by (simp add: hp_next_def)
  qed (use d in \<open>simp add: hp_next_def\<close>)
  note IH = Cons.IH [OF d(3) sub fuel(2)]
  show ?case
  proof (cases "ints \<le> hp_size h f")
    case True
    then show ?thesis
    proof (cases c)
      case 0
      with True show ?thesis
        using d av fuel by (simp add: candidates_def best_step_def)
    next
      case (Suc c')
      with True show ?thesis
        using d av fuel nx IH [of c'] by (simp add: candidates_def best_step_def Let_def)
    qed
  next
    case False
    then show ?thesis
      using d av fuel nx IH [of c] by (simp add: candidates_def Let_def)
  qed
qed

lemma foldl_best:
  "foldl (best_step sz) (mx, it) cs = (m, i) \<Longrightarrow>
     (m = mx \<and> i = it \<and> (\<forall>f \<in> set cs. mx \<le> sz f)) \<or>
     (i \<in> set cs \<and> m = sz i \<and> m < mx \<and> (\<forall>f \<in> set cs. m \<le> sz f))"
proof (induction cs arbitrary: mx it)
  case (Cons c cs)
  from Cons.prems Cons.IH [of "sz c" c] Cons.IH [of mx it] show ?case
    by (auto simp: best_step_def split: if_splits)
qed simp

lemma heap_rep_length:
  assumes "heap_rep h bs fl" shows "length fl \<le> nat (h_len h)"
proof -
  have til: "tiling 0 bs (h_len h)" and fl: "distinct fl" "set fl = set (free_starts bs)"
    using assms by (auto simp: heap_rep_def)
  have "set fl \<subseteq> {0..<h_len h}"
    using tiling_mem [OF til] by (fastforce simp: fl(2) set_free_starts)
  from card_mono [OF _ this] fl(1) show ?thesis by (simp add: distinct_card)
qed

lemma heap_rep_mem:
  assumes "heap_rep h bs fl" "(s, n, t) \<in> set bs"
  shows "0 \<le> s \<and> s + n \<le> h_len h \<and> 2 \<le> n \<and> n < 2 ^ 29 \<and> (\<not> t \<longrightarrow> 4 \<le> n) \<and> hp_size h s = n"
proof -
  have til: "tiling 0 bs (h_len h)" and tg: "tagged (h_array h) bs" and "h_len h < 2 ^ 29"
    using assms by (auto simp: heap_rep_def)
  then show ?thesis
    using tiling_mem [OF til assms(2)] hp_size_block [OF til tg assms(2)] by auto
qed

text \<open>The search of \<open>malloc\<close> on a well-formed heap: it fails only when no block fits.\<close>

lemma fit_search:
  assumes "heap_rep h bs fl"
  obtains (none) "fit_loop (nat (h_len h) + 1) h ints 20 (h_avail h) 0x7FFFFFFF 0 = Inr (0x7FFFFFFF, 0)"
      "\<forall>(s, n, t) \<in> set bs. t \<or> n < ints"
    | (some) us it vs m where
      "fit_loop (nat (h_len h) + 1) h ints 20 (h_avail h) 0x7FFFFFFF 0 = Inr (m, it)"
      "fl = us @ it # vs" "(it, m, False) \<in> set bs" "ints \<le> m" "it \<noteq> 0"
      "\<forall>f \<in> set (candidates (hp_size h) ints 20 fl). m \<le> hp_size h f"
proof -
  have r: "dll (h_array h) 0 (h_avail h) fl" "set fl \<subseteq> set (free_starts bs)"
    "tiling 0 bs (h_len h)" "tagged (h_array h) bs" "set (free_starts bs) \<subseteq> set fl"
    using assms by (auto simp: heap_rep_def)
  let ?cs = "candidates (hp_size h) ints 20 fl"
  obtain m it where f: "foldl (best_step (hp_size h)) (0x7FFFFFFF, 0) ?cs = (m, it)"
    by (cases "foldl (best_step (hp_size h)) (0x7FFFFFFF, 0) ?cs") auto
  have eq: "fit_loop (nat (h_len h) + 1) h ints 20 (h_avail h) 0x7FFFFFFF 0 = Inr (m, it)"
    using fit_loop_eq [OF r(1-4), of "nat (h_len h) + 1" ints 19] heap_rep_length [OF assms] f
    by simp
  have sub: "set ?cs \<subseteq> set fl" unfolding candidates_def by (meson filter_is_subset set_take_subset order_trans)
  have small: "hp_size h g < 0x7FFFFFFF" if "g \<in> set fl" for g
  proof -
    from that r(2) obtain n where "(g, n, False) \<in> set bs" by (auto simp: set_free_starts)
    then show ?thesis using heap_rep_mem [OF assms] by fastforce
  qed
  show thesis
  proof (cases "?cs = []")
    case True
    then have "\<forall>g \<in> set fl. hp_size h g < ints"
      by (auto simp: candidates_def filter_empty_conv not_le)
    then have "\<forall>(s, n, t) \<in> set bs. t \<or> n < ints"
      using r(5) heap_rep_mem [OF assms] by (fastforce simp: set_free_starts)
    with True eq f show thesis by (intro none) auto
  next
    case False
    then obtain c where c: "c \<in> set ?cs" by (cases ?cs) auto
    from foldl_best [OF f] c small sub
    have it: "it \<in> set ?cs" "m = hp_size h it" "\<forall>f \<in> set ?cs. m \<le> hp_size h f" by fastforce+
    with sub have "it \<in> set fl" by auto
    then obtain us vs n where "fl = us @ it # vs" "(it, n, False) \<in> set bs"
      using r(2) split_list [of it fl] unfolding set_free_starts by blast
    moreover have "ints \<le> m"
      using it(1,2) by (auto simp: candidates_def dest!: in_set_takeD)
    moreover have "it \<noteq> 0" using dll_nonzero [OF r(1)] \<open>it \<in> set fl\<close> by auto
    ultimately show thesis
      using some [OF eq] it heap_rep_mem [OF assms, of it n False] by auto
  qed
qed

section \<open>Allocation\<close>

text \<open>The blocks that replace the free block \<open>(it, m)\<close> when \<open>ints\<close> of its words are taken.\<close>

definition carve :: "int \<Rightarrow> int \<Rightarrow> int \<Rightarrow> block list" where
  "carve it m ints =
     (if m - ints \<ge> 4 then [(it, ints, True), (it + ints, m - ints, False)] else [(it, m, True)])"

lemma malloc_ints_ge: "4 \<le> malloc_ints bytes"
  by (simp add: malloc_ints_def Let_def)

lemma hole_of_blocks:
  assumes "tiling 0 (xs @ zs @ ys) (h_len h)" "tiling lo zs hi" "tiling 0 xs lo"
    and "tagged (h_array h) (xs @ ys)"
    and "dll (h_array h) 0 (h_avail h) fl" "distinct fl" "set fl \<subseteq> set (free_starts (xs @ ys))"
  shows "hole h xs lo hi ys fl"
proof -
  have inj: "tiling i us j \<Longrightarrow> tiling i us k \<Longrightarrow> j = k" for i us j k
    by (induction i us j rule: tiling.induct) auto
  from assms(1) obtain k l where "tiling 0 xs k" "tiling k zs l" "tiling l ys (h_len h)"
    by (auto simp: tiling_append)
  with inj assms(2,3) have "tiling hi ys (h_len h)" by metis
  then show ?thesis using assms tiling_le [OF assms(2)] by (auto simp: hole_def)
qed

lemma heap_rep_split:
  assumes "heap_rep h bs fl" "bs = xs @ (s, n, t) # ys"
  shows "tiling 0 xs s \<and> tiling (s + n) ys (h_len h) \<and> tagged (h_array h) (xs @ ys) \<and>
         (\<not> t \<longrightarrow> xs \<noteq> [] \<and> ys \<noteq> [] \<and> snd (snd (last xs)) \<and> snd (snd (hd ys)))"
proof -
  have "xs \<noteq> []" "ys \<noteq> []" if "\<not> t" using assms that by (auto simp: heap_rep_def)
  with assms show ?thesis
    by (auto simp: heap_rep_def tiling_append no_adjacent_free_def successively_append_iff
        successively_Cons)
qed

lemma tiling_nonempty: "tiling i bs j \<Longrightarrow> bs \<noteq> [] \<Longrightarrow> i + 2 \<le> j"
  by (cases bs) (fastforce dest: tiling_le)+

lemma free_start_unique:
  assumes "tiling 0 (xs @ (s, n, t) # ys) j"
  shows "s \<notin> set (free_starts xs) \<union> set (free_starts ys)"
proof
  assume "s \<in> set (free_starts xs) \<union> set (free_starts ys)"
  then obtain m where "(s, m, False) \<in> set xs \<or> (s, m, False) \<in> set ys"
    by (auto simp: set_free_starts)
  moreover from assms have "tiling 0 xs s" "tiling (s + n) ys j" "2 \<le> n"
    by (auto simp: tiling_append)
  ultimately show False
    using tiling_mem [of 0 xs s s m False] tiling_mem [of "s + n" ys j s m False] by auto
qed

lemma heap_rep_replace:
  assumes "heap_rep h bs fl" "bs = xs @ zs @ ys" "xs \<noteq> []" "ys \<noteq> []"
    and "hole h' (xs @ ws) k k ys fl'" "keeps h h' cs"
    and "set fl' = set (free_starts (xs @ ws @ ys))" "no_adjacent_free (xs @ ws @ ys)"
    and "\<forall>(s, n, t) \<in> set ws. 4 \<le> n"
  shows "heap_rep h' (xs @ ws @ ys) fl'"
proof -
  have "tiling 0 ((xs @ ws) @ ys) (h_len h')"
    using assms(5) unfolding hole_def tiling_append by blast
  then show ?thesis
    using assms by (auto simp: heap_rep_def hole_def keeps_def ball_Un)
qed

lemma malloc_some:
  assumes rep: "heap_rep h bs fl" and bs: "bs = xs @ (it, m, False) # ys"
    and fl: "fl = us @ it # vs" and le: "ints \<le> m" and ge: "4 \<le> ints"
  shows "\<exists>h1 h2 fl'. hp_remove h it = Inr h1 \<and>
    h2 = (if m - ints \<ge> 4 then makeAvail (makeTaken h1 it ints) (it + ints) (m - ints)
          else makeTaken h1 it m) \<and>
    heap_rep h2 (xs @ carve it m ints @ ys) fl' \<and> keeps h h2 bs"
proof -
  have r: "tiling 0 bs (h_len h)" "tagged (h_array h) bs"
    "dll (h_array h) 0 (h_avail h) (us @ it # vs)" "distinct (us @ it # vs)"
    "set (us @ it # vs) = set (free_starts bs)" "no_adjacent_free bs"
    using rep fl by (auto simp: heap_rep_def)
  obtain h1 where h1: "hp_remove h it = Inr h1" "tagged (h_array h1) bs"
    "dll (h_array h1) 0 (h_avail h1) (us @ vs)" "keeps h h1 bs"
    using hp_remove_spec [OF r(1-4)] r(5) by blast
  have sp: "tiling 0 xs it" "tiling (it + m) ys (h_len h)" "xs \<noteq> []" "ys \<noteq> []"
    "snd (snd (last xs))" "snd (snd (hd ys))"
    using heap_rep_split [OF rep bs] by auto
  have len: "h_len h1 = h_len h" using h1(4) by (simp add: keeps_def)
  have fs: "set (us @ vs) = set (free_starts (xs @ ys))"
    using r(4,5) free_start_unique [OF r(1) [unfolded bs]] unfolding bs by auto
  have m: "2 \<le> m" "0 < it"
    using le ge tiling_nonempty [OF sp(1,3)] by auto
  have hole1: "hole h1 xs it (it + m) ys (us @ vs)"
    by (rule hole_of_blocks [where zs = "[(it, m, False)]"])
      (use r h1 sp len fs m bs le ge in auto)
  have keep1: "keeps h1 h' (xs @ ys) \<Longrightarrow> keeps h h' bs" for h'
    using keeps_trans [of h h1 "xs @ ys" h' "xs @ ys"] h1(4) bs
    by (fastforce simp: keeps_def)
  have na: "no_adjacent_free (xs @ carve it m ints @ ys)"
    using r(6) sp bs
    by (auto simp: no_adjacent_free_def carve_def successively_append_iff successively_Cons)
  show ?thesis
  proof (cases "m - ints \<ge> 4")
    case True
    have h2: "hole (makeTaken h1 it ints) (xs @ [(it, ints, True)]) (it + ints) (it + m) ys (us @ vs)"
      "keeps h1 (makeTaken h1 it ints) (xs @ ys)"
      using makeTaken_hole [OF hole1, of ints] True ge by auto
    let ?h = "makeAvail (makeTaken h1 it ints) (it + ints) (m - ints)"
    have h3: "hole ?h ((xs @ [(it, ints, True)]) @ [(it + ints, m - ints, False)])
        (it + ints + (m - ints)) (it + m) ys ((it + ints) # us @ vs)"
      "keeps (makeTaken h1 it ints) ?h ((xs @ [(it, ints, True)]) @ ys)"
      using makeAvail_hole [OF h2(1), of "m - ints"] True ge m by auto
    have k: "keeps h ?h bs"
      using keep1 keeps_trans [OF h2(2) h3(2)] by auto
    have "heap_rep ?h (xs @ carve it m ints @ ys) ((it + ints) # us @ vs)"
      by (rule heap_rep_replace [OF rep, where zs = "[(it, m, False)]" and k = "it + m"])
        (use h3(1) k sp bs fs na True ge in \<open>auto simp: carve_def\<close>)
    with True h1(1) k show ?thesis by auto
  next
    case False
    have h2: "hole (makeTaken h1 it m) (xs @ [(it, m, True)]) (it + m) (it + m) ys (us @ vs)"
      "keeps h1 (makeTaken h1 it m) (xs @ ys)"
      using makeTaken_hole [OF hole1, of m] m by auto
    have "heap_rep (makeTaken h1 it m) (xs @ carve it m ints @ ys) (us @ vs)"
      by (rule heap_rep_replace [OF rep, where zs = "[(it, m, False)]" and k = "it + m"])
        (use h2 keep1 sp bs fs na False ge le in \<open>auto simp: carve_def\<close>)
    with False h1(1) keep1 [OF h2(2)] show ?thesis by auto
  qed
qed

lemma malloc_spec:
  assumes rep: "heap_rep h bs fl" and "bytes \<noteq> 0"
  shows "(malloc h bytes = Inr (0, h) \<and> (\<forall>(s, n, t) \<in> set bs. t \<or> n < malloc_ints bytes)) \<or>
    (\<exists>xs it m ys h' fl'. malloc h bytes = Inr (ptr_of h it, h') \<and>
       bs = xs @ (it, m, False) # ys \<and> malloc_ints bytes \<le> m \<and>
       (\<forall>f \<in> set (candidates (hp_size h) (malloc_ints bytes) 20 fl). m \<le> hp_size h f) \<and>
       heap_rep h' (xs @ carve it m (malloc_ints bytes) @ ys) fl' \<and> keeps h h' bs)"
proof (cases rule: fit_search [OF rep, of "malloc_ints bytes", case_names none some])
  case none
  then show ?thesis using assms(2) by (simp add: malloc_def)
next
  case (some us it vs m)
  then obtain xs ys where bs: "bs = xs @ (it, m, False) # ys" by (metis split_list)
  from malloc_some [OF rep bs some(2,4) malloc_ints_ge]
  obtain h1 h2 fl' where h: "hp_remove h it = Inr h1"
    "h2 = (if m - malloc_ints bytes \<ge> 4
           then makeAvail (makeTaken h1 it (malloc_ints bytes)) (it + malloc_ints bytes) (m - malloc_ints bytes)
           else makeTaken h1 it m)"
    "heap_rep h2 (xs @ carve it m (malloc_ints bytes) @ ys) fl'" "keeps h h2 bs"
    by blast
  have "malloc h bytes = Inr (ptr_of h it, h2)"
    using assms(2) some(1,5) h(1,2) by (simp add: malloc_def Let_def)
  with bs some h show ?thesis by blast
qed

section \<open>Release\<close>

text \<open>
  The blocks after \<open>free\<close>: the freed block \<open>(i, n)\<close> between \<open>xs\<close> and \<open>ys\<close>, joined with its
  left and its right neighbour when they are free.
\<close>

definition coalesce :: "block list \<Rightarrow> int \<Rightarrow> int \<Rightarrow> block list \<Rightarrow> block list" where
  "coalesce xs i n ys =
     (let (xs', lo, n1) =
            (case last xs of (ls, ln, lt) \<Rightarrow> if lt then (xs, i, n) else (butlast xs, ls, n + ln));
          (ys', n2) =
            (case hd ys of (rs, rn, rt) \<Rightarrow> if rt then (ys, n1) else (tl ys, n1 + rn))
      in xs' @ (lo, n2, False) # ys')"

lemma hp_left_block:
  assumes "tiling 0 bs (h_len h)" "tagged (h_array h) bs" "bs = zs @ (ls, ln, lt) # (i, n, t) # ys"
  shows "hp_left h i = Inr ls"
proof -
  have mem: "(ls, ln, lt) \<in> set bs" and i: "i = ls + ln" using assms by (auto simp: tiling_append)
  have "2 \<le> ln" using tiling_mem [OF assms(1) mem] by simp
  then have "headerFromFooter h (i - 1) = ls"
    using taggedD [OF assms(2) mem] i by (simp add: headerFromFooter_def hp_size_def hp_abs_tag)
  then show ?thesis using sanity_block [OF assms(1,2) mem] by (simp add: hp_left_def)
qed

lemma hp_right_block:
  assumes "tiling 0 bs (h_len h)" "tagged (h_array h) bs" "bs = xs @ (i, n, t) # (rs, rn, rt) # zs"
  shows "hp_right h i = Inr rs"
proof -
  have mem: "(i, n, t) \<in> set bs" "(rs, rn, rt) \<in> set bs" and rs: "rs = i + n"
    using assms by (auto simp: tiling_append)
  from hp_size_block [OF assms(1,2) mem(1)] sanity_block [OF assms(1,2) mem(2)] rs
  show ?thesis by (simp add: hp_right_def)
qed

text \<open>
  Taking a block off the free list if it is on it, as \<open>free\<close> does with each neighbour.
\<close>

definition detach :: "heap \<Rightarrow> int \<Rightarrow> heap res" where
  "detach h i = (if isAvail h i then hp_remove h i else Inr h)"

lemma detach_spec:
  assumes "tiling 0 bs (h_len h)" "tagged (h_array h) bs" "dll (h_array h) 0 (h_avail h) fl"
    "distinct fl" "set fl \<subseteq> set (free_starts bs)" "(s, n, t) \<in> set bs" "\<not> t \<longrightarrow> s \<in> set fl"
  shows "\<exists>h' fl'. detach h s = Inr h' \<and> tagged (h_array h') bs \<and>
    dll (h_array h') 0 (h_avail h') fl' \<and> distinct fl' \<and>
    set fl' = (if t then set fl else set fl - {s}) \<and> keeps h h' bs"
proof (cases t)
  case True
  then show ?thesis
    using assms isAvail_block [OF assms(1,2,6)] by (auto simp: detach_def keeps_refl)
next
  case False
  with assms(7) obtain us vs where fl: "fl = us @ s # vs" by (metis split_list)
  from hp_remove_spec [of bs h us s vs] assms fl obtain h' where
    "hp_remove h s = Inr h'" "tagged (h_array h') bs" "dll (h_array h') 0 (h_avail h') (us @ vs)"
    "keeps h h' bs" by auto
  moreover have "isAvail h s" using isAvail_block [OF assms(1,2,6)] False by simp
  moreover have "set (us @ vs) = set fl - {s}" "distinct (us @ vs)" using assms(4) fl by auto
  ultimately show ?thesis using False by (auto simp: detach_def)
qed

text \<open>The body of \<open>free\<close> after its checks, in terms of \<open>detach\<close>.\<close>

lemma free_unfold:
  assumes "p \<noteq> 0" "p \<noteq> h_base h" "idx = uint ((p - h_base h) div 4) - 1"
    and "sanity h idx = Inr idx" "isTaken h idx" "hp_left h idx = Inr l" "hp_right h idx = Inr r"
    and "detach h l = Inr h1" "detach h1 r = Inr h2"
  shows "free h p = Inr (makeAvail h2 (if isAvail h l then l else idx)
     (hp_size h idx + (if isAvail h l then hp_size h1 l else 0) +
      (if isAvail h1 r then hp_size h2 r else 0)))"
  using assms by (auto simp: free_def detach_def Let_def split: if_splits)

lemma ptr_of_index:
  assumes "0 \<le> i" "i + 1 < h_len h" "h_len h < 2 ^ 29" "0 < uint (h_base h)"
    "uint (h_base h) + 4 * h_len h \<le> 2 ^ 32"
  shows "ptr_of h i \<noteq> 0 \<and> ptr_of h i \<noteq> h_base h \<and> uint ((ptr_of h i - h_base h) div 4) - 1 = i"
proof -
  define x where "x = 4 * (i + 1)"
  let ?w = "word_of_int x :: u32"
  have x: "0 < x" "x < 2 ^ 31" "uint (h_base h) + x < 2 ^ 32" "x div 4 = i + 1"
    using assms by (auto simp: x_def)
  then have w: "uint ?w = x" by (simp add: uint_word_of_int)
  have p: "ptr_of h i = h_base h + ?w" by (simp add: ptr_of_def x_def)
  then have "uint (ptr_of h i) = uint (h_base h) + x" using x w by (simp add: uint_word_ariths)
  moreover have "uint (?w div 4) = i + 1" using w x by (simp add: uint_div)
  ultimately show ?thesis using x p assms by auto
qed

lemma free_detached:
  assumes rep: "heap_rep h bs fl" and bs: "bs = zs @ (ls, ln, lt) # (i, n, True) # (rs, rn, rt) # ws"
  shows "\<exists>h1 h2 fl2. detach h ls = Inr h1 \<and> detach h1 rs = Inr h2 \<and>
    tagged (h_array h2) bs \<and> dll (h_array h2) 0 (h_avail h2) fl2 \<and> distinct fl2 \<and>
    set fl2 = set (free_starts bs) - (if lt then {} else {ls}) - (if rt then {} else {rs}) \<and>
    keeps h h2 bs \<and> tagged (h_array h1) bs \<and> h_len h1 = h_len h"
proof -
  have r: "tiling 0 bs (h_len h)" "tagged (h_array h) bs" "dll (h_array h) 0 (h_avail h) fl"
    "distinct fl" "set fl = set (free_starts bs)"
    using rep by (auto simp: heap_rep_def)
  have mem: "(ls, ln, lt) \<in> set bs" "(rs, rn, rt) \<in> set bs" using bs by auto
  from detach_spec [OF r(1-4) _ mem(1)] r(5) mem(1) obtain h1 fl1 where
    h1: "detach h ls = Inr h1" "tagged (h_array h1) bs" "dll (h_array h1) 0 (h_avail h1) fl1"
      "distinct fl1" "set fl1 = (if lt then set fl else set fl - {ls})" "keeps h h1 bs"
    by (cases lt) (auto simp: set_free_starts)
  have len: "h_len h1 = h_len h" using h1(6) by (simp add: keeps_def)
  have "rs \<noteq> ls"
    using r(1) bs tiling_le by (auto simp: tiling_append)
  then have "\<not> rt \<longrightarrow> rs \<in> set fl1"
    using h1(5) r(5) mem(2) by (cases rt) (auto simp: set_free_starts)
  with detach_spec [of bs h1 fl1 rs rn rt] h1 len r mem(2) obtain h2 fl2 where
    h2: "detach h1 rs = Inr h2" "tagged (h_array h2) bs" "dll (h_array h2) 0 (h_avail h2) fl2"
      "distinct fl2" "set fl2 = (if rt then set fl1 else set fl1 - {rs})" "keeps h1 h2 bs"
    by (auto split: if_splits)
  have "keeps h h2 bs" using keeps_trans [OF h1(6) h2(6)] by simp
  with h1 h2 r(5) len show ?thesis by auto
qed

lemma free_starts_drop:
  assumes "tiling 0 bs j" "bs = zs @ (ls, ln, lt) # (i, n, True) # (rs, rn, rt) # ws"
  shows "set (free_starts bs) - (if lt then {} else {ls}) - (if rt then {} else {rs}) =
    set (free_starts ((if lt then zs @ [(ls, ln, lt)] else zs) @
                      (if rt then (rs, rn, rt) # ws else ws)))"
proof -
  have l: "ls \<notin> set (free_starts zs) \<union> set (free_starts ((i, n, True) # (rs, rn, rt) # ws))"
    using free_start_unique [of zs ls ln lt "(i, n, True) # (rs, rn, rt) # ws" j] assms by simp
  have r: "rs \<notin> set (free_starts (zs @ [(ls, ln, lt), (i, n, True)])) \<union> set (free_starts ws)"
    using free_start_unique [of "zs @ [(ls, ln, lt), (i, n, True)]" rs rn rt ws j] assms by simp
  show ?thesis using l r assms(2) by (auto split: if_splits)
qed

text \<open>The value of \<open>free\<close> on a block that is taken and is not a sentinel.\<close>

lemma free_computes:
  assumes rep: "heap_rep h bs fl" and bs: "bs = zs @ (ls, ln, lt) # (i, n, True) # (rs, rn, rt) # ws"
    and d: "detach h ls = Inr h1" "detach h1 rs = Inr h2"
    and tg: "tagged (h_array h1) bs" "tagged (h_array h2) bs"
  shows "free h (ptr_of h i) = Inr (makeAvail h2 (if lt then i else ls)
           ((if lt then 0 else ln) + n + (if rt then 0 else rn)))"
proof -
  have r: "tiling 0 bs (h_len h)" "tagged (h_array h) bs" "h_len h < 2 ^ 29" "0 < uint (h_base h)"
    "uint (h_base h) + 4 * h_len h \<le> 2 ^ 32"
    using rep by (auto simp: heap_rep_def)
  have mem: "(ls, ln, lt) \<in> set bs" "(i, n, True) \<in> set bs" "(rs, rn, rt) \<in> set bs"
    using bs by auto
  have ix: "ptr_of h i \<noteq> 0" "ptr_of h i \<noteq> h_base h" "i = uint ((ptr_of h i - h_base h) div 4) - 1"
    using ptr_of_index [OF _ _ r(3-5)] tiling_mem [OF r(1) mem(2)] by auto
  have lr: "hp_left h i = Inr ls" "hp_right h i = Inr rs"
    using hp_left_block [OF r(1,2) bs]
      hp_right_block [OF r(1,2), of "zs @ [(ls, ln, lt)]" i n True rs rn rt ws] bs by auto
  have "isAvail h ls \<longleftrightarrow> \<not> lt" "isAvail h1 rs \<longleftrightarrow> \<not> rt" "isTaken h i" "sanity h i = Inr i"
    "hp_size h i = n" "hp_size h1 ls = ln" "hp_size h2 rs = rn"
    using mem by (auto simp: isAvail_block [OF r(1,2)] isAvail_block [OF r(1) tg(1)]
        isTaken_block [OF r(1,2)] sanity_block [OF r(1,2)] hp_size_block [OF r(1,2)]
        hp_size_block [OF r(1) tg(1)] hp_size_block [OF r(1) tg(2)])
  with free_unfold [OF ix(1,2,3) _ _ lr d] show ?thesis by (auto simp: algebra_simps)
qed

lemma free_spec:
  assumes rep: "heap_rep h bs fl" and bs: "bs = xs @ (i, n, True) # ys" "xs \<noteq> []" "ys \<noteq> []"
  shows "\<exists>h' fl'. free h (ptr_of h i) = Inr h' \<and>
           heap_rep h' (coalesce xs i n ys) fl' \<and> keeps h h' (xs @ ys)"
proof -
  obtain zs ls ln lt where xs: "xs = zs @ [(ls, ln, lt)]" using bs(2) by (metis prod_cases3 rev_exhaust)
  obtain rs rn rt ws where ys: "ys = (rs, rn, rt) # ws" using bs(3) by (metis prod_cases3 list.exhaust)
  have bs': "bs = zs @ (ls, ln, lt) # (i, n, True) # (rs, rn, rt) # ws" using bs xs ys by simp
  have r: "tiling 0 bs (h_len h)" "no_adjacent_free bs" "hd bs = (0, 2, True)"
    "last bs = (h_len h - 2, 2, True)" "i = 0 \<or> i = h_len h - 2 \<or> 4 \<le> n"
    using rep bs by (auto simp: heap_rep_def)
  obtain h1 h2 fl2 where d: "detach h ls = Inr h1" "detach h1 rs = Inr h2"
    "tagged (h_array h2) bs" "dll (h_array h2) 0 (h_avail h2) fl2" "distinct fl2"
    "set fl2 = set (free_starts bs) - (if lt then {} else {ls}) - (if rt then {} else {rs})"
    "keeps h h2 bs" "tagged (h_array h1) bs"
    using free_detached [OF rep bs'] by blast
  have len2: "h_len h2 = h_len h" using d(7) by (simp add: keeps_def)
  define xs' ys' where "xs' = (if lt then xs else zs)" and "ys' = (if rt then ys else ws)"
  define lo sz where "lo = (if lt then i else ls)"
    and "sz = (if lt then 0 else ln) + n + (if rt then 0 else rn)"
  note defs = xs'_def ys'_def lo_def sz_def
  have t: "tiling 0 zs ls" "i = ls + ln" "rs = i + n" "tiling (rs + rn) ws (h_len h)"
    "2 \<le> ln" "2 \<le> n" "2 \<le> rn" "4 \<le> ln \<or> lt" "4 \<le> rn \<or> rt"
    using r(1) bs' by (auto simp: tiling_append)
  have sz: "4 \<le> sz" using t r(5) tiling_le [OF t(1)] tiling_le [OF t(4)] by (auto simp: sz_def)
  have ne: "xs' \<noteq> []" "ys' \<noteq> []" "snd (snd (last xs'))" "snd (snd (hd ys'))"
    using r(2-4) bs' xs ys
    by (auto simp: defs no_adjacent_free_def successively_append_iff successively_Cons
        split: if_splits)
  have fs: "set fl2 = set (free_starts (xs' @ ys'))"
    using d(6) free_starts_drop [OF r(1) bs'] xs ys by (simp add: defs)
  have hole2: "hole h2 xs' lo (lo + sz) ys' fl2"
  proof -
    have "tiling 0 xs' lo" using t xs by (cases lt) (auto simp: defs tiling_append)
    moreover have "tiling (lo + sz) ys' (h_len h2)"
      using t ys len2 by (cases lt; cases rt) (auto simp: defs algebra_simps)
    moreover have "tagged (h_array h2) xs' \<and> tagged (h_array h2) ys'"
      using d(3) bs' xs ys by (cases lt; cases rt) (auto simp: defs)
    ultimately show ?thesis using d(4,5) fs sz by (simp add: hole_def)
  qed
  have lopos: "0 < lo" using tiling_nonempty [of 0 xs' lo] hole2 ne(1) by (auto simp: hole_def)
  let ?h = "makeAvail h2 lo sz"
  have mk: "hole ?h (xs' @ [(lo, sz, False)]) (lo + sz) (lo + sz) ys' (lo # fl2)"
    "keeps h2 ?h (xs' @ ys')"
    using makeAvail_hole [OF hole2 sz _ lopos] by auto
  have na: "no_adjacent_free (xs' @ [(lo, sz, False)] @ ys')"
    using r(2) bs' xs ys ne
    by (auto simp: defs no_adjacent_free_def successively_append_iff successively_Cons split: if_splits)
  have "keeps h h2 (xs' @ ys')"
    by (rule keeps_subset [OF d(7)]) (use bs' xs ys in \<open>auto simp: defs split: if_splits\<close>)
  then have k2: "keeps h ?h (xs' @ ys')"
    by (rule keeps_trans [OF _ mk(2)]) simp
  then have kp: "keeps h ?h (xs @ ys)"
    by (rule keeps_subset) (use xs ys in \<open>auto simp: defs split: if_splits\<close>)
  have "heap_rep ?h (xs' @ [(lo, sz, False)] @ ys') (lo # fl2)"
  proof (rule heap_rep_replace [OF rep _ ne(1,2) mk(1) k2 _ na])
    show "bs = xs' @ ((if lt then [] else [(ls, ln, lt)]) @ [(i, n, True)] @
        (if rt then [] else [(rs, rn, rt)])) @ ys'"
      using bs' xs ys by (simp add: defs)
  qed (use fs sz in auto)
  moreover have "coalesce xs i n ys = xs' @ [(lo, sz, False)] @ ys'"
    using t xs ys by (auto simp: coalesce_def defs)
  ultimately show ?thesis
    using free_computes [OF rep bs' d(1,2,8,3)] kp by (auto simp: defs)
qed

section \<open>The initial heap\<close>

lemma heapLayout_rep:
  assumes "8 \<le> uint (bytes div 4)" "uint (bytes div 4) < 2 ^ 29" "0 < uint base"
    "uint base + 4 * uint (bytes div 4) \<le> 2 ^ 32"
  shows "heap_rep (heapLayout mem base bytes)
           [(0, 2, True), (2, uint (bytes div 4) - 4, False), (uint (bytes div 4) - 2, 2, True)] [2]"
proof -
  define len where "len = uint (bytes div 4)"
  define h0 where "h0 = \<lparr>h_base = base, h_array = mem, h_len = len, h_safe = False, h_avail = 0\<rparr>"
  define h1 where "h1 = makeTaken h0 0 2"
  define h2 where "h2 = makeAvail h1 2 (len - 4)"
  define h3 where "h3 = makeTaken h2 (len - 2) 2"
  have "hole h0 [] 0 len [] []"
    using assms by (simp add: hole_def h0_def len_def free_starts_def)
  from makeTaken_hole [OF this, of 2]
  have 1: "hole h1 [(0, 2, True)] 2 len [] []" "keeps h0 h1 []" using assms by (auto simp: h1_def len_def)
  from makeAvail_hole [OF this(1), of "len - 4"]
  have 2: "hole h2 [(0, 2, True), (2, len - 4, False)] (len - 2) len [] [2]" "keeps h1 h2 [(0, 2, True)]"
    using assms by (auto simp: h2_def len_def)
  from makeTaken_hole [OF this(1), of 2]
  have 3: "hole h3 [(0, 2, True), (2, len - 4, False), (len - 2, 2, True)] len len [] [2]"
    "keeps h2 h3 [(0, 2, True), (2, len - 4, False)]"
    by (auto simp: h3_def)
  have "heapLayout mem base bytes = h3"
    by (simp add: heapLayout_def h0_def h1_def h2_def h3_def len_def Let_def)
  moreover have "h_len h3 = len \<and> h_base h3 = base" using 1(2) 2(2) 3(2) by (simp add: keeps_def h0_def)
  ultimately show ?thesis
    using 3(1) assms
    by (auto simp: heap_rep_def hole_def len_def no_adjacent_free_def free_starts_def)
qed

section \<open>Size of the payload\<close>

lemma malloc_ints_payload:
  assumes "unat bytes \<le> 2 ^ 32 - 4" shows "int (unat bytes) \<le> 4 * (malloc_ints bytes - 2)"
proof -
  have s: "unat (bytes + 3) = unat bytes + 3"
    using assms by (intro unat_plus_no_wrap [THEN trans]) auto
  have d: "unat ((bytes + 3) div 4) = (unat bytes + 3) div 4"
    by (simp add: unat_div s)
  have "unat ((bytes + 3) div 4 + 2) = (unat bytes + 3) div 4 + 2"
    using assms d by (subst unat_plus_no_wrap) auto
  then have "uint ((bytes + 3) div 4 + 2) = int ((unat bytes + 3) div 4 + 2)"
    by (simp add: uint_nat)
  then have "int ((unat bytes + 3) div 4) + 2 \<le> malloc_ints bytes"
    by (simp add: malloc_ints_def Let_def)
  moreover have "unat bytes \<le> 4 * ((unat bytes + 3) div 4)" by linarith
  then have "int (unat bytes) \<le> 4 * int ((unat bytes + 3) div 4)" by (metis of_nat_mono of_nat_mult of_nat_numeral)
  moreover have "x \<le> 4 * q \<Longrightarrow> q + 2 \<le> m \<Longrightarrow> x \<le> 4 * (m - 2)" for x q m :: int by presburger
  ultimately show ?thesis by blast
qed

lemma carve_head:
  assumes "ints \<le> m" shows "\<exists>n ws. carve it m ints = (it, n, True) # ws \<and> ints \<le> n \<and> n \<le> m"
  using assms by (auto simp: carve_def)

text \<open>Freeing what was carved gives the free block back.\<close>

lemma coalesce_carve:
  assumes "heap_rep h (xs @ (it, m, False) # ys) fl" "carve it m ints = (it, n, True) # ws"
  shows "coalesce xs it n (ws @ ys) = xs @ (it, m, False) # ys"
proof -
  have "xs \<noteq> []" "ys \<noteq> []" "snd (snd (last xs))" "snd (snd (hd ys))"
    using heap_rep_split [OF assms(1) refl] by auto
  then show ?thesis using assms(2)
    by (auto simp: coalesce_def carve_def hd_append split: prod.splits if_splits)
qed

section \<open>A client of the allocator\<close>

lemma uint_ptr_of:
  assumes "0 \<le> i" "i + 1 < h_len h" "h_len h < 2 ^ 29" "uint (h_base h) + 4 * h_len h \<le> 2 ^ 32"
  shows "uint (ptr_of h i) = uint (h_base h) + 4 * (i + 1)"
proof -
  have "uint (word_of_int (4 * (i + 1)) :: u32) = 4 * (i + 1)"
    using assms by (subst uint_word_of_int) (simp add: take_bit_eq_mod)
  then show ?thesis
    unfolding ptr_of_def using assms uint_add_lem [of "h_base h" "word_of_int (4 * (i + 1))"] by simp
qed

definition live :: "heap \<Rightarrow> block list \<Rightarrow> int set" where
  "live h bs = {s. \<exists>n. (s, n, True) \<in> set bs \<and> s \<noteq> 0 \<and> s \<noteq> h_len h - 2}"

definition owns :: "heap \<Rightarrow> u32 list \<Rightarrow> bool" where
  "owns h ps \<longleftrightarrow> (\<exists>bs fl. heap_rep h bs fl \<and> distinct (filter (\<lambda>p. p \<noteq> h_base h) ps) \<and>
     set ps - {h_base h} = ptr_of h ` live h bs)"

lemma ownsI:
  "heap_rep h bs fl \<Longrightarrow> distinct (filter (\<lambda>p. p \<noteq> h_base h) ps) \<Longrightarrow>
     set ps - {h_base h} = ptr_of h ` live h bs \<Longrightarrow> owns h ps"
  unfolding owns_def by blast

lemma live_split:
  assumes "heap_rep h bs fl" "s \<in> live h bs"
  obtains xs n ys where "bs = xs @ (s, n, True) # ys" "xs \<noteq> []" "ys \<noteq> []" "0 < s" "s + 1 < h_len h" "4 \<le> n"
proof -
  obtain n where n: "(s, n, True) \<in> set bs" "s \<noteq> 0" "s \<noteq> h_len h - 2"
    using assms(2) by (auto simp: live_def)
  then obtain xs ys where bs: "bs = xs @ (s, n, True) # ys" by (metis split_list)
  moreover have "xs \<noteq> []" "ys \<noteq> []" using assms(1) bs n(2,3) by (auto simp: heap_rep_def)
  moreover have "4 \<le> n" using assms(1) n by (auto simp: heap_rep_def)
  ultimately show ?thesis using that heap_rep_mem [OF assms(1) n(1)] n(2) by auto
qed

lemma ptr_of_inj:
  assumes "heap_rep h bs fl" shows "inj_on (ptr_of h) {i. 0 \<le> i \<and> i + 1 < h_len h}"
    and "\<And>i. 0 \<le> i \<Longrightarrow> i + 1 < h_len h \<Longrightarrow> ptr_of h i \<noteq> 0 \<and> ptr_of h i \<noteq> h_base h"
proof -
  have r: "h_len h < 2 ^ 29" "0 < uint (h_base h)" "uint (h_base h) + 4 * h_len h \<le> 2 ^ 32"
    using assms by (auto simp: heap_rep_def)
  show "inj_on (ptr_of h) {i. 0 \<le> i \<and> i + 1 < h_len h}"
    by (rule inj_on_inverseI [where g = "\<lambda>p. uint ((p - h_base h) div 4) - 1"])
       (use ptr_of_index [OF _ _ r] in auto)
  show "ptr_of h i \<noteq> 0 \<and> ptr_of h i \<noteq> h_base h" if "0 \<le> i" "i + 1 < h_len h" for i
    using ptr_of_index [OF that r] by auto
qed

lemma live_range: "heap_rep h bs fl \<Longrightarrow> live h bs \<subseteq> {i. 0 \<le> i \<and> i + 1 < h_len h}"
  by (auto elim: live_split)

lemma start_unique:
  assumes "tiling i (xs @ (s, n, t) # ys) j" "(s, n', t') \<in> set (xs @ ys)" shows False
proof -
  have "tiling i xs s" "tiling (s + n) ys j" "2 \<le> n" using assms(1) by (auto simp: tiling_append)
  then show False using assms(2) tiling_mem [of i xs s s n' t'] tiling_mem [of "s + n" ys j s n' t'] by auto
qed

lemma live_carve:
  assumes "heap_rep h (xs @ (it, m, False) # ys) fl" "h_len h' = h_len h"
  shows "live h' (xs @ carve it m ints @ ys) = insert it (live h (xs @ (it, m, False) # ys))"
    and "it \<notin> live h (xs @ (it, m, False) # ys)"
proof -
  have t: "tiling 0 (xs @ (it, m, False) # ys) (h_len h)" using assms(1) by (simp add: heap_rep_def)
  have "4 \<le> m \<and> it + m \<le> h_len h" using heap_rep_mem [OF assms(1), of it m False] by auto
  moreover have "it \<noteq> 0" using heap_rep_split [OF assms(1) refl] tiling_nonempty [of 0 xs it] by auto
  ultimately show "live h' (xs @ carve it m ints @ ys) = insert it (live h (xs @ (it, m, False) # ys))"
    using assms(2) by (auto simp: live_def carve_def)
  show "it \<notin> live h (xs @ (it, m, False) # ys)"
    using start_unique [OF t] by (auto simp: live_def)
qed

lemma live_coalesce:
  assumes "heap_rep h (xs @ (i, n, True) # ys) fl" "xs \<noteq> []" "ys \<noteq> []" "h_len h' = h_len h"
  shows "live h' (coalesce xs i n ys) = live h (xs @ (i, n, True) # ys) - {i}"
proof -
  obtain zs ls ln lt where xs: "xs = zs @ [(ls, ln, lt)]" using assms(2) by (metis prod_cases3 rev_exhaust)
  obtain rs rn rt ws where ys: "ys = (rs, rn, rt) # ws" using assms(3) by (metis prod_cases3 list.exhaust)
  have t: "tiling 0 (xs @ (i, n, True) # ys) (h_len h)" using assms(1) by (simp add: heap_rep_def)
  have "set (coalesce xs i n ys) \<inter> {b. snd (snd b)} = set (xs @ ys) \<inter> {b. snd (snd b)}"
    using xs ys by (auto simp: coalesce_def)
  then have eq: "(s, k, True) \<in> set (coalesce xs i n ys) \<longleftrightarrow> (s, k, True) \<in> set (xs @ ys)" for s k
    by (auto simp: set_eq_iff)
  show ?thesis using start_unique [OF t] assms(4) by (auto simp: live_def eq)
qed


text \<open>
  What a client may do: allocate, release a pointer it holds, and write a word of the payload of
  a pointer it holds. \<open>ClientFree k\<close> and \<open>ClientStore k\<close> name the pointer by its position among
  the held ones; \<open>run_client\<close> is generic in the allocator.
\<close>

datatype client_op = ClientMalloc u32 | ClientFree nat | ClientStore nat int int

fun run_client ::
  "('h \<Rightarrow> u32 \<Rightarrow> (u32 \<times> 'h) res) \<Rightarrow> ('h \<Rightarrow> u32 \<Rightarrow> 'h res) \<Rightarrow> ('h \<Rightarrow> u32 \<Rightarrow> int) \<Rightarrow>
   ('h \<Rightarrow> u32 \<Rightarrow> int \<Rightarrow> int \<Rightarrow> 'h) \<Rightarrow> client_op list \<Rightarrow> 'h \<Rightarrow> u32 list \<Rightarrow> ('h \<times> u32 list) res" where
  "run_client al de us st [] h ps = Inr (h, ps)"
| "run_client al de us st (ClientMalloc b # ops) h ps =
     bindR (al h b) (\<lambda>(p, h'). run_client al de us st ops h' (if p = 0 then ps else p # ps))"
| "run_client al de us st (ClientFree k # ops) h ps =
     (if k < length ps
      then bindR (de h (ps ! k)) (\<lambda>h'. run_client al de us st ops h' (take k ps @ drop (Suc k) ps))
      else run_client al de us st ops h ps)"
| "run_client al de us st (ClientStore k i v # ops) h ps =
     (if k < length ps \<and> 0 \<le> i \<and> i < us h (ps ! k)
      then run_client al de us st ops (st h (ps ! k) i v) ps
      else run_client al de us st ops h ps)"

locale allocator =
  fixes alloc :: "'h \<Rightarrow> u32 \<Rightarrow> (u32 \<times> 'h) res" and dealloc :: "'h \<Rightarrow> u32 \<Rightarrow> 'h res"
    and usable :: "'h \<Rightarrow> u32 \<Rightarrow> int" and store :: "'h \<Rightarrow> u32 \<Rightarrow> int \<Rightarrow> int \<Rightarrow> 'h"
    and holds :: "'h \<Rightarrow> u32 list \<Rightarrow> bool"
  assumes alloc_law:
      "holds h ps \<Longrightarrow> \<exists>p h'. alloc h b = Inr (p, h') \<and> holds h' (if p = 0 then ps else p # ps)"
    and dealloc_law: "holds h (ps @ p # qs) \<Longrightarrow> \<exists>h'. dealloc h p = Inr h' \<and> holds h' (ps @ qs)"
    and store_law:
      "holds h ps \<Longrightarrow> p \<in> set ps \<Longrightarrow> 0 \<le> i \<Longrightarrow> i < usable h p \<Longrightarrow> holds (store h p i v) ps"
begin

lemma client_safe:
  "holds h ps \<Longrightarrow>
     \<exists>h' ps'. run_client alloc dealloc usable store ops h ps = Inr (h', ps') \<and> holds h' ps'"
proof (induction ops arbitrary: h ps)
  case (Cons op ops)
  show ?case
  proof (cases op)
    case (ClientMalloc b)
    obtain p h' where "alloc h b = Inr (p, h')" "holds h' (if p = 0 then ps else p # ps)"
      using alloc_law [OF Cons.prems] by blast
    then show ?thesis using Cons.IH [of h'] ClientMalloc by simp
  next
    case (ClientFree k)
    show ?thesis
    proof (cases "k < length ps")
      case True
      then have "holds h (take k ps @ ps ! k # drop (Suc k) ps)"
        using Cons.prems by (simp add: id_take_nth_drop [symmetric])
      then obtain h' where "dealloc h (ps ! k) = Inr h'" "holds h' (take k ps @ drop (Suc k) ps)"
        using dealloc_law by blast
      then show ?thesis using Cons.IH [of h'] ClientFree True by simp
    qed (use Cons ClientFree in simp)
  next
    case (ClientStore k i v)
    show ?thesis
    proof (cases "k < length ps \<and> 0 \<le> i \<and> i < usable h (ps ! k)")
      case True
      then have "holds (store h (ps ! k) i v) ps" using store_law [OF Cons.prems] by simp
      then show ?thesis using Cons.IH ClientStore True by simp
    qed (use Cons ClientStore in auto)
  qed
qed auto

end

text \<open>The heap's instance: the payload of the block behind a pointer, and a write into it.\<close>

definition block_index :: "heap \<Rightarrow> u32 \<Rightarrow> int" where
  "block_index h p = uint ((p - h_base h) div 4) - 1"

definition payload_words :: "heap \<Rightarrow> u32 \<Rightarrow> int" where
  "payload_words h p = (if p = h_base h then 0 else hp_size h (block_index h p) - 2)"

definition payload_store :: "heap \<Rightarrow> u32 \<Rightarrow> int \<Rightarrow> int \<Rightarrow> heap" where
  "payload_store h p i v = h\<lparr>h_array := (h_array h)(block_index h p + 1 + i := v)\<rparr>"

lemma ptr_of_base: "h_base h' = h_base h \<Longrightarrow> ptr_of h' = ptr_of h"
  by (rule ext) (simp add: ptr_of_def)

text \<open>Carving a block out of a free one adds its pointer to those the client holds.\<close>

lemma owns_carve:
  assumes "heap_rep h bs fl" "distinct (filter (\<lambda>p. p \<noteq> h_base h) ps)" "set ps - {h_base h} = ptr_of h ` live h bs"
    and m: "bs = xs @ (it, m, False) # ys" "heap_rep h' (xs @ carve it m ints @ ys) fl'" "keeps h h' bs"
  shows "ptr_of h it \<noteq> 0 \<and> ptr_of h it \<noteq> h_base h \<and> ptr_of h it \<notin> set ps \<and> owns h' (ptr_of h it # ps)"
proof -
  have k: "h_len h' = h_len h" "h_base h' = h_base h" using m(3) by (auto simp: keeps_def)
  have lv: "live h' (xs @ carve it m ints @ ys) = insert it (live h bs)" "it \<notin> live h bs"
    using live_carve [of h xs it m ys fl h'] assms(1) m(1) k(1) by auto
  have it: "0 \<le> it \<and> it + 1 < h_len h" using heap_rep_mem [OF assms(1), of it m False] m(1) by auto
  have "ptr_of h it \<notin> ptr_of h ` live h bs"
    using inj_on_image_mem_iff [OF ptr_of_inj(1) [OF assms(1)] _ live_range [OF assms(1)]] it lv(2) by auto
  then have n: "ptr_of h it \<notin> set ps" using assms(3) ptr_of_inj(2) [OF assms(1), of it] it by auto
  then have "owns h' (ptr_of h it # ps)"
    using assms(2,3) lv(1) ptr_of_inj(2) [OF assms(1), of it] it ptr_of_base [OF k(2)] k(2)
    by (intro ownsI [OF m(2)]) (auto simp: insert_Diff_if)
  then show ?thesis using n ptr_of_inj(2) [OF assms(1), of it] it by auto
qed

lemma owns_malloc:
  assumes "owns h ps"
  shows "\<exists>p h'. malloc h b = Inr (p, h') \<and> owns h' (if p = 0 then ps else p # ps)"
proof (cases "b = 0")
  case True
  then show ?thesis using assms by (auto simp: malloc_def owns_def heap_rep_def)
next
  case False
  obtain bs fl where o: "heap_rep h bs fl" "distinct (filter (\<lambda>p. p \<noteq> h_base h) ps)"
    "set ps - {h_base h} = ptr_of h ` live h bs"
    using assms by (auto simp: owns_def)
  from malloc_spec [OF o(1) False] show ?thesis
  proof (elim disjE exE conjE)
    fix xs it m ys h' fl'
    assume m: "malloc h b = Inr (ptr_of h it, h')" "bs = xs @ (it, m, False) # ys"
      "heap_rep h' (xs @ carve it m (malloc_ints b) @ ys) fl'" "keeps h h' bs"
    show ?thesis using owns_carve [OF o m(2-4)] m(1) by auto
  qed (use assms in auto)
qed

lemma owns_free:
  assumes "owns h (ps @ p # qs)"
  shows "\<exists>h'. free h p = Inr h' \<and> owns h' (ps @ qs)"
proof (cases "p = h_base h")
  case True
  have "free h p = Inr h" using True by (simp add: free_def)
  moreover have "set (ps @ p # qs) - {h_base h} = set (ps @ qs) - {h_base h}" using True by auto
  then have "owns h (ps @ qs)" using assms True unfolding owns_def by simp
  ultimately show ?thesis by blast
next
  case False
  obtain bs fl where o: "heap_rep h bs fl" "distinct (filter (\<lambda>p. p \<noteq> h_base h) (ps @ p # qs))"
    "set (ps @ p # qs) - {h_base h} = ptr_of h ` live h bs"
    using assms by (auto simp: owns_def)
  then obtain i where i: "i \<in> live h bs" "p = ptr_of h i" using False by auto
  obtain xs n ys where bs: "bs = xs @ (i, n, True) # ys" "xs \<noteq> []" "ys \<noteq> []"
    using live_split [OF o(1) i(1)] by metis
  obtain h' fl' where f: "free h p = Inr h'" "heap_rep h' (coalesce xs i n ys) fl'" "keeps h h' (xs @ ys)"
    using free_spec [OF o(1) bs] i(2) by blast
  then have k: "h_len h' = h_len h" "h_base h' = h_base h" by (auto simp: keeps_def)
  have "live h' (coalesce xs i n ys) = live h bs - {i}"
    using live_coalesce [of h xs i n ys fl h'] o(1) bs k(1) by simp
  moreover have "ptr_of h ` (live h bs - {i}) = ptr_of h ` live h bs - {p}"
    using inj_on_image_set_diff [OF ptr_of_inj(1) [OF o(1)], of "live h bs" "{i}"] live_range [OF o(1)] i
    by auto
  moreover have "set (ps @ qs) - {h_base h} = (set (ps @ p # qs) - {h_base h}) - {p}"
    using o(2) False by auto
  ultimately have "set (ps @ qs) - {h_base h'} = ptr_of h' ` live h' (coalesce xs i n ys)"
    using o(3) k(2) ptr_of_base [OF k(2)] by simp
  moreover have "distinct (filter (\<lambda>p. p \<noteq> h_base h') (ps @ qs))" using o(2) k(2) False by simp
  ultimately have "owns h' (ps @ qs)" by (intro ownsI [OF f(2)])
  then show ?thesis using f(1) by blast
qed

lemma payload_change_rep:
  assumes rep: "heap_rep h bs fl" and "(s, n, True) \<in> set bs" and eq: "\<And>k. \<not> (s < k \<and> k < s + n - 1) \<Longrightarrow> a k = h_array h k"
  shows "heap_rep (h\<lparr>h_array := a\<rparr>) bs fl"
proof -
  have t: "tiling 0 bs (h_len h)" "tagged (h_array h) bs" "dll (h_array h) 0 (h_avail h) fl"
    "set fl = set (free_starts bs)"
    using rep by (auto simp: heap_rep_def)
  have far: "s + n \<le> s' \<or> s' + n' \<le> s" if "(s', n', t') \<in> set bs" "s' \<noteq> s" for s' n' t'
    using tiling_disjoint [OF t(1) that(1) assms(2)] that(2) by auto
  have same: "n' = n \<and> t'" if "(s, n', t') \<in> set bs" for n' t'
    using tiling_disjoint [OF t(1) that assms(2)] tiling_mem [OF t(1) that] tiling_mem [OF t(1) assms(2)]
    by auto
  have "a s' = h_array h s' \<and> a (s' + n' - 1) = h_array h (s' + n' - 1)" if "(s', n', t') \<in> set bs" for s' n' t'
    using far [OF that] same that tiling_mem [OF t(1) that] by (cases "s' = s") (auto intro!: eq)
  then have "tagged a bs" by (rule tagged_frame [OF t(2)])
  moreover have "a (f + 1) = h_array h (f + 1) \<and> a (f + 2) = h_array h (f + 2)" if "f \<in> set fl" for f
  proof -
    have "\<exists>n'. (f, n', False) \<in> set bs" using that t(4) set_free_starts [of bs] by simp
    then obtain n' where n': "(f, n', False) \<in> set bs" by blast
    then have "f \<noteq> s" using same by blast
    then show ?thesis using far [OF n'] tiling_mem [OF t(1) n'] by (auto intro!: eq)
  qed
  then have "dll a 0 (h_avail h) fl" by (rule dll_frame [OF t(3)])
  ultimately show ?thesis using rep by (simp add: heap_rep_def)
qed

lemma payload_store_rep:
  "heap_rep h bs fl \<Longrightarrow> (s, n, True) \<in> set bs \<Longrightarrow> s < k \<Longrightarrow> k < s + n - 1 \<Longrightarrow>
     heap_rep (h\<lparr>h_array := (h_array h)(k := v)\<rparr>) bs fl"
  by (rule payload_change_rep) auto

lemma owns_store:
  assumes "owns h ps" "p \<in> set ps" "0 \<le> k" "k < payload_words h p"
  shows "owns (payload_store h p k v) ps"
proof -
  obtain bs fl where o: "heap_rep h bs fl" "distinct (filter (\<lambda>p. p \<noteq> h_base h) ps)"
    "set ps - {h_base h} = ptr_of h ` live h bs"
    using assms(1) by (auto simp: owns_def)
  have "p \<noteq> h_base h" using assms(3,4) by (auto simp: payload_words_def)
  then obtain i where i: "i \<in> live h bs" "p = ptr_of h i" using assms(2) o(3) by auto
  obtain xs n ys where bs: "bs = xs @ (i, n, True) # ys" "0 < i" "i + 1 < h_len h"
    using live_split [OF o(1) i(1)] by metis
  have ix: "block_index h p = i" "hp_size h i = n"
    using ptr_of_index [of i h] bs o(1) i(2) heap_rep_mem [OF o(1), of i n True]
    by (auto simp: block_index_def heap_rep_def)
  have "heap_rep (payload_store h p k v) bs fl"
    using payload_store_rep [OF o(1), of i n "i + 1 + k" v] bs(1) assms(3,4) ix
    by (auto simp: payload_store_def payload_words_def split: if_splits)
  moreover have "ptr_of (payload_store h p k v) = ptr_of h"
    by (rule ptr_of_base) (simp add: payload_store_def)
  moreover have "live (payload_store h p k v) bs = live h bs" "h_base (payload_store h p k v) = h_base h"
    by (simp_all add: live_def payload_store_def)
  ultimately show ?thesis using o(2,3) by (intro ownsI [of _ bs fl]) simp_all
qed

interpretation kheap: allocator malloc free payload_words payload_store owns
  by unfold_locales (fact owns_malloc owns_free owns_store)+

section \<open>Properties\<close>

text \<open>The heap used in the witnesses: sixteen words at 1 MB.\<close>

definition demo_heap :: heap where
  "demo_heap = heapLayout (\<lambda>_. 0) 0x100000 64"

lemma demo_rep: "heap_rep demo_heap [(0, 2, True), (2, 12, False), (14, 2, True)] [2]"
  using heapLayout_rep [of 64 "0x100000" "\<lambda>_. 0"] by (simp add: demo_heap_def)

lemma demo_owns: "owns demo_heap []"
  by (rule ownsI [OF demo_rep]) (auto simp: live_def demo_heap_def heapLayout_def makeTaken_def
      makeAvail_def setPrev_def setNext_def Let_def)

lemma demo_taken:
  "\<exists>h' fl'. malloc demo_heap 8 = Inr (ptr_of demo_heap 2, h') \<and> h_base h' = h_base demo_heap \<and>
     heap_rep h' ([(0, 2, True)] @ (2, 4, True) # [(6, 8, False), (14, 2, True)]) fl'"
proof -
  let ?bs = "[(0, 2, True), (2, 12, False), (14, 2, True)]"
  have i: "malloc_ints 8 = 4" by (simp add: malloc_ints_def)
  obtain xs it m ys h' fl' where
    m: "malloc demo_heap 8 = Inr (ptr_of demo_heap it, h')" "keeps demo_heap h' ?bs"
    "?bs = xs @ (it, m, False) # ys" "heap_rep h' (xs @ carve it m 4 @ ys) fl'"
    using malloc_spec [OF demo_rep, of 8] i by fastforce
  from m(3) have "xs = [(0, 2, True)] \<and> it = 2 \<and> m = 12 \<and> ys = [(14, 2, True)]"
    by (auto simp: Cons_eq_append_conv)
  then show ?thesis using m(1,2,4) by (auto simp: carve_def keeps_def)
qed

lemma demo_ptr: "ptr_of demo_heap 2 = 0x10000C"
  by (simp add: ptr_of_def demo_heap_def heapLayout_def makeTaken_def makeAvail_def setPrev_def
      setNext_def Let_def)

lemma demo_malloc: "\<exists>h'. malloc demo_heap 8 = Inr (0x10000C, h')"
  using demo_taken by (auto simp: demo_ptr)



text \<open>
  (malloc_room) A block that \<open>malloc\<close> returns has room for the bytes asked for and lies inside the heap,
  for every request of at most \<open>2^32 - 4\<close> bytes.
\<close>

theorem malloc_room:
  assumes "heap_rep h bs fl" "bytes \<noteq> 0" "unat bytes \<le> 2 ^ 32 - 4"
    and "malloc h bytes = Inr (p, h')" "p \<noteq> 0"
  shows "int (unat bytes) \<le> 4 * payload_words h' p \<and> uint (h_base h) < uint p \<and>
    uint p + 4 * payload_words h' p < uint (h_base h) + 4 * h_len h"
proof -
  obtain xs it m ys fl' where m: "p = ptr_of h it" "bs = xs @ (it, m, False) # ys" "malloc_ints bytes \<le> m"
    "heap_rep h' (xs @ carve it m (malloc_ints bytes) @ ys) fl'" "keeps h h' bs"
    using malloc_spec [OF assms(1,2)] assms(4,5) by auto
  obtain n ws where c: "carve it m (malloc_ints bytes) = (it, n, True) # ws" "malloc_ints bytes \<le> n" "n \<le> m"
    using carve_head [OF m(3)] by blast
  have it: "0 \<le> it" "it + m \<le> h_len h" "4 \<le> m" using heap_rep_mem [OF assms(1), of it m False] m(2) by auto
  have r: "h_len h < 2 ^ 29" "0 < uint (h_base h)" "uint (h_base h) + 4 * h_len h \<le> 2 ^ 32"
    using assms(1) by (auto simp: heap_rep_def)
  have ix: "block_index h' p = it" "p \<noteq> h_base h'"
    using ptr_of_index [OF it(1) _ r] it m(1,5) by (auto simp: block_index_def keeps_def)
  have "hp_size h' it = n" using heap_rep_mem [OF m(4), of it n True] c(1) by auto
  then have pw: "payload_words h' p = n - 2" using ix by (simp add: payload_words_def)
  have "uint p = uint (h_base h) + 4 * (it + 1)"
    unfolding m(1) by (rule uint_ptr_of) (use r it in auto)
  then show ?thesis using pw malloc_ints_payload [OF assms(3)] c it by auto
qed

theorem malloc_room_witness:
  "\<exists>p h'. malloc demo_heap 8 = Inr (p, h') \<and> 8 \<le> 4 * payload_words h' p"
proof -
  obtain h' where m: "malloc demo_heap 8 = Inr (0x10000C, h')" using demo_malloc by blast
  then show ?thesis using malloc_room [OF demo_rep _ _ m] by auto
qed

text \<open>
  (C26:free_correct) \<open>free\<close> of a block that is taken and is no sentinel returns; the block becomes free, merged
  with its free neighbours, the heap stays well-formed and every other taken block keeps its
  contents.
\<close>

theorem free_correct:
  assumes "heap_rep h (xs @ (i, n, True) # ys) fl" "xs \<noteq> []" "ys \<noteq> []"
  shows "\<exists>h' fl'. free h (ptr_of h i) = Inr h' \<and>
           heap_rep h' (coalesce xs i n ys) fl' \<and> keeps h h' (xs @ ys)"
  by (rule free_spec [OF assms(1) refl assms(2,3)])

theorem free_correct_witness:
  "\<exists>h h'. malloc demo_heap 8 = Inr (ptr_of demo_heap 2, h) \<and> free h (ptr_of h 2) = Inr h'"
proof -
  obtain h fl where h: "malloc demo_heap 8 = Inr (ptr_of demo_heap 2, h)"
    "heap_rep h ([(0, 2, True)] @ (2, 4, True) # [(6, 8, False), (14, 2, True)]) fl"
    using demo_taken by blast
  then show ?thesis using free_correct [OF h(2)] by blast
qed

text \<open>
  (malloc_free_roundtrip) Freeing what \<open>malloc\<close> has just returned succeeds and gives back exactly the block structure
  the heap had before.
\<close>

theorem malloc_free_roundtrip:
  assumes "heap_rep h bs fl" "bytes \<noteq> 0" "malloc h bytes = Inr (p, h')" "p \<noteq> 0"
  shows "\<exists>h'' fl''. free h' p = Inr h'' \<and> heap_rep h'' bs fl''"
proof -
  obtain xs it m ys fl' where m: "p = ptr_of h it" "bs = xs @ (it, m, False) # ys" "malloc_ints bytes \<le> m"
    "heap_rep h' (xs @ carve it m (malloc_ints bytes) @ ys) fl'" "keeps h h' bs"
    using malloc_spec [OF assms(1,2)] assms(3,4) by auto
  obtain n ws where c: "carve it m (malloc_ints bytes) = (it, n, True) # ws"
    using carve_head [OF m(3)] by blast
  have "xs \<noteq> []" "ws @ ys \<noteq> []" using heap_rep_split [OF assms(1) m(2)] by auto
  from free_spec [OF m(4) _ this] c obtain h'' fl'' where
    "free h' (ptr_of h' it) = Inr h''" "heap_rep h'' (coalesce xs it n (ws @ ys)) fl''" by auto
  moreover have "ptr_of h' it = p" using m(1,5) ptr_of_base [of h' h] by (simp add: keeps_def)
  ultimately show ?thesis using coalesce_carve [of h xs it m ys fl, OF _ c] assms(1) m(2) by auto
qed

theorem malloc_free_roundtrip_witness:
  "\<exists>h h'' fl. malloc demo_heap 8 = Inr (0x10000C, h) \<and> free h 0x10000C = Inr h'' \<and>
     heap_rep h'' [(0, 2, True), (2, 12, False), (14, 2, True)] fl"
proof -
  obtain h where h: "malloc demo_heap 8 = Inr (0x10000C, h)" using demo_malloc by blast
  then show ?thesis using malloc_free_roundtrip [OF demo_rep _ h] by auto
qed

text \<open>
  (heapInit_correct) \<open>heapInit\<close> on a non-null range of 32 bytes or more that does not wrap builds a
  well-formed heap and allocates the heap's lock in it, which is then its only live block.
\<close>

theorem heapInit_correct:
  assumes "8 \<le> uint (bytes div 4)" "uint (bytes div 4) < 2 ^ 29" "0 < uint base"
    "uint base + 4 * uint (bytes div 4) \<le> 2 ^ 32"
    and "lockBytes \<noteq> 0" "malloc_ints lockBytes \<le> uint (bytes div 4) - 4"
  shows "\<exists>p h. heapInit mem base bytes lockBytes = Inr (p, h) \<and> p \<noteq> 0 \<and> owns h [p]"
proof -
  define h0 where "h0 = heapLayout mem base bytes"
  note rep = heapLayout_rep [OF assms(1-4), of mem, folded h0_def]
  have len: "h_len h0 = uint (bytes div 4)"
    by (simp add: h0_def heapLayout_def makeTaken_def makeAvail_def setPrev_def setNext_def Let_def)
  then have ow: "owns h0 []" by (intro ownsI [OF rep]) (auto simp: live_def)
  from owns_malloc [OF ow] obtain p h where m: "malloc h0 lockBytes = Inr (p, h)"
    "owns h (if p = 0 then [] else [p])" by blast
  have "p \<noteq> 0"
    using malloc_spec [OF rep assms(5)] m(1) assms(6) ptr_of_inj(2) [OF rep, of 2] len assms(1)
    by (auto simp: Cons_eq_append_conv)
  with m show ?thesis by (auto simp: heapInit_def operator_new_def h0_def)
qed

theorem heapInit_correct_witness: "\<exists>p h. heapInit (\<lambda>_. 0) 0x100000 64 12 = Inr (p, h) \<and> owns h [p]"
  using heapInit_correct [of 64 "0x100000" 12 "\<lambda>_. 0"] by (auto simp: malloc_ints_def)

text \<open>
  (C28:heap_client_safe) Whatever sequence of allocations, releases of pointers it holds and writes into payloads it
  holds a client performs, no operation panics, loops or corrupts the heap: the live blocks at
  the end are exactly those of the pointers the client still holds.
\<close>

theorem heap_client_safe:
  assumes "owns h ps"
  shows "\<exists>h' ps'. run_client malloc free payload_words payload_store ops h ps = Inr (h', ps') \<and>
           owns h' ps'"
  by (rule kheap.client_safe [OF assms])

theorem heap_client_safe_witness:
  "\<exists>h' ps'. run_client malloc free payload_words payload_store
     [ClientMalloc 8, ClientMalloc 4, ClientStore 1 0 7, ClientFree 0, ClientMalloc 0] demo_heap [] =
       Inr (h', ps') \<and> owns h' ps'"
  by (rule heap_client_safe [OF demo_owns])

text \<open>
  (malloc_huge_wraps) \<open>bytes + 3\<close> wraps: a request for \<open>2^32 - 1\<close> bytes succeeds on every heap that has a free
  block, with a payload of at most five words.
\<close>

theorem malloc_huge_wraps:
  assumes "heap_rep h bs fl" "(s, n, False) \<in> set bs"
  shows "\<exists>p h'. malloc h 0xFFFFFFFF = Inr (p, h') \<and> p \<noteq> 0 \<and> payload_words h' p \<le> 5"
proof -
  have i: "malloc_ints 0xFFFFFFFF = 4" by (simp add: malloc_ints_def)
  have "4 \<le> n" using heap_rep_mem [OF assms] by simp
  then obtain xs it m ys h' fl' where m: "malloc h 0xFFFFFFFF = Inr (ptr_of h it, h')"
    "bs = xs @ (it, m, False) # ys" "heap_rep h' (xs @ carve it m 4 @ ys) fl'" "keeps h h' bs"
    using malloc_spec [OF assms(1), of "0xFFFFFFFF"] assms(2) i by fastforce
  have it: "0 \<le> it" "it + m \<le> h_len h" "4 \<le> m" using heap_rep_mem [OF assms(1), of it m False] m(2) by auto
  have r: "h_len h < 2 ^ 29" "0 < uint (h_base h)" "uint (h_base h) + 4 * h_len h \<le> 2 ^ 32"
    using assms(1) by (auto simp: heap_rep_def)
  have ix: "block_index h' (ptr_of h it) = it" "ptr_of h it \<noteq> h_base h'" "ptr_of h it \<noteq> 0"
    using ptr_of_index [OF it(1) _ r] it m(4) by (auto simp: block_index_def keeps_def)
  have "\<exists>k. (it, k, True) \<in> set (carve it m 4) \<and> k \<le> 7" using it(3) by (auto simp: carve_def)
  then have "hp_size h' it \<le> 7" using heap_rep_mem [OF m(3)] by fastforce
  then show ?thesis using m(1) ix by (auto simp: payload_words_def)
qed

theorem malloc_huge_wraps_witness:
  "\<exists>p h'. malloc demo_heap 0xFFFFFFFF = Inr (p, h') \<and> p \<noteq> 0"
  using malloc_huge_wraps [OF demo_rep, of 2 12] by auto

end
