(* ===== verification/UserHeap.thy ===== *)
theory UserHeap
  imports KHeap
begin

text \<open>
  The heap of the user programs, \<open>my-test.dir/sbin/heap.c\<close>: the blocks and the free list of the kernel heap, with another search, checks that report nothing, and \<open>realloc\<close>.

  The state is the one of \<open>KHeap\<close>. Functions whose text is the same as in the kernel (\<open>size\<close>, \<open>footerFromHeader\<close>, \<open>makeAvail\<close>, \<open>makeTaken\<close> and others) are
  those of \<open>KHeap\<close>.
\<close>

section \<open>Operations\<close>

definition INTS :: int where "INTS = 0x100000"

text \<open>The panics of the kernel are commented out here: every check returns its argument.\<close>

definition u_sanity :: "heap \<Rightarrow> int \<Rightarrow> int" where
  "u_sanity h i =
     (if h_safe h then
        if i = 0 then 0
        else if i < 0 \<or> i \<ge> h_len h then i
        else
          let footer = footerFromHeader h i in
          if footer < 0 \<or> footer \<ge> h_len h then i
          else
            let hv = h_array h i; fv = h_array h footer in
            if hv \<noteq> fv then i else i
      else i)"

definition u_left :: "heap \<Rightarrow> int \<Rightarrow> int" where
  "u_left h i = u_sanity h (headerFromFooter h (i - 1))"

definition u_right :: "heap \<Rightarrow> int \<Rightarrow> int" where
  "u_right h i = u_sanity h (i + hp_size h i)"

definition next1 :: "heap \<Rightarrow> int \<Rightarrow> int" where
  "next1 h i = u_sanity h (h_array h (i + 1))"

definition prev1 :: "heap \<Rightarrow> int \<Rightarrow> int" where
  "prev1 h i = u_sanity h (h_array h (i + 2))"

definition u_remove :: "heap \<Rightarrow> int \<Rightarrow> heap" where
  "u_remove h i =
     (let prevIndex = prev1 h i; nextIndex = next1 h i;
          h1 = (if prevIndex = 0 then h\<lparr>h_avail := nextIndex\<rparr> else setNext h prevIndex nextIndex)
      in if nextIndex \<noteq> 0 then setPrev h1 nextIndex prevIndex else h1)"

text \<open>The static array is zero at the start; \<open>base\<close> is its address.\<close>

definition heap_init :: "u32 \<Rightarrow> heap" where
  "heap_init base =
     (let h0 = \<lparr>h_base = base, h_array = \<lambda>_. 0, h_len = INTS, h_safe = True, h_avail = 0\<rparr>;
          h1 = makeTaken h0 0 2;
          h2 = makeAvail h1 2 (h_len h1 - 4)
      in makeTaken h2 (h_len h2 - 2) 2)"

text \<open>The block that \<open>malloc\<close> has found, cut to the size it needs.\<close>

definition take_block :: "heap \<Rightarrow> int \<Rightarrow> int \<Rightarrow> heap" where
  "take_block h p ints =
     (let sz = hp_size h p;
          h1 = u_remove h p;
          extra = sz - ints
      in if extra \<ge> 4 then makeAvail (makeTaken h1 p ints) (p + ints) extra else makeTaken h1 p sz)"

text \<open>The loop of \<open>malloc\<close>: it takes the first block that is large enough. One unit of fuel per block.\<close>

fun first_fit :: "nat \<Rightarrow> heap \<Rightarrow> int \<Rightarrow> int \<Rightarrow> (u32 \<times> heap) res" where
  "first_fit fuel h ints p =
     (if p = 0 then Inr (0, h)
      else case fuel of
        0 \<Rightarrow> Inl NoFuel
      | Suc n \<Rightarrow>
          if hp_size h p \<ge> ints then Inr (ptr_of h p, take_block h p ints)
          else first_fit n h ints (next1 h p))"

declare first_fit.simps [simp del]

definition u_malloc :: "heap \<Rightarrow> u32 \<Rightarrow> (u32 \<times> heap) res" where
  "u_malloc h bytes =
     (if bytes = 0 then Inr (h_base h, h)
      else first_fit (nat (h_len h)) h (malloc_ints bytes) (h_avail h))"

text \<open>The index of a pointer: a difference of \<open>long\<close>s, and a division that rounds towards zero.\<close>

definition u_index :: "heap \<Rightarrow> u32 \<Rightarrow> int" where
  "u_index h p = (let d = sint (p - h_base h) in (if d < 0 then - (- d div 4) else d div 4) - 1)"

definition u_free :: "heap \<Rightarrow> u32 \<Rightarrow> heap" where
  "u_free h p =
     (if p = 0 then h
      else if p = h_base h then h
      else
        let idx = u_index h p in
        if \<not> isTaken h idx then h
        else
          let sz = hp_size h idx;
              leftIndex = u_left h idx;
              rightIndex = u_right h idx;
              (h1, idx1, sz1) = (if isAvail h leftIndex then (let h1 = u_remove h leftIndex in (h1, leftIndex, sz + hp_size h1 leftIndex)) else (h, idx, sz));
              (h2, sz2) = (if isAvail h1 rightIndex then (let h2 = u_remove h1 rightIndex in (h2, sz1 + hp_size h2 rightIndex)) else (h1, sz1))
          in makeAvail h2 idx1 sz2)"

text \<open>\<open>memcpy\<close> of \<open>m\<close> bytes between words of the array: whole words, and the low bytes of a last one.\<close>

definition low_bytes :: "nat \<Rightarrow> int \<Rightarrow> int \<Rightarrow> int" where
  "low_bytes r x y = sint ((word_of_int x AND mask (8 * r)) OR (word_of_int y AND NOT (mask (8 * r))) :: u32)"

definition copy_bytes :: "(int \<Rightarrow> int) \<Rightarrow> int \<Rightarrow> int \<Rightarrow> int \<Rightarrow> (int \<Rightarrow> int)" where
  "copy_bytes a dst src m =
     (\<lambda>k. if dst \<le> k \<and> k < dst + m div 4 then a (src + (k - dst))
          else if k = dst + m div 4 \<and> m mod 4 \<noteq> 0 then low_bytes (nat (m mod 4)) (a (src + m div 4)) (a k)
          else a k)"

definition u_realloc :: "heap \<Rightarrow> u32 \<Rightarrow> u32 \<Rightarrow> (u32 \<times> heap) res" where
  "u_realloc h p newSize =
     (if p = 0 then u_malloc h newSize
      else if newSize = 0 then Inr (0, u_free h p)
      else
        let idx = u_index h p in
        if \<not> isTaken h idx then Inr (0, h)
        else
          let sz = hp_size h idx * 4 in
          bindR (u_malloc h newSize) (\<lambda>(newPtr, h1).
          let m = (if uint newSize > sz then sz else uint newSize);
              h2 = (if newPtr \<noteq> 0 then h1\<lparr>h_array := copy_bytes (h_array h1) (u_index h1 newPtr + 1) (u_index h1 p + 1) m\<rparr> else h1)
          in Inr (newPtr, u_free h2 p)))"

section \<open>The same steps as in the kernel\<close>

lemma u_sanity_id [simp]: "u_sanity h i = i"
  by (simp add: u_sanity_def Let_def)

lemma sanity_Inr: "sanity h i = Inr j \<Longrightarrow> j = i"
  by (auto simp: sanity_def Let_def split: if_splits)

lemma hp_left_Inr: "hp_left h i = Inr l \<Longrightarrow> u_left h i = l"
  by (auto simp: hp_left_def u_left_def dest: sanity_Inr)

lemma hp_right_Inr: "hp_right h i = Inr r \<Longrightarrow> u_right h i = r"
  by (auto simp: hp_right_def u_right_def dest: sanity_Inr)

lemma hp_remove_Inr:
  assumes "hp_remove h i = Inr h'"
  shows "u_remove h i = h'"
proof -
  obtain p n where pn: "hp_prev h i = Inr p" "hp_next h i = Inr n"
    "h' = (let h1 = (if p = 0 then h\<lparr>h_avail := n\<rparr> else setNext h p n) in if n \<noteq> 0 then setPrev h1 n p else h1)"
    using assms unfolding hp_remove_def bindR_Inr_conv by (auto simp: Let_def)
  have "prev1 h i = p" using sanity_Inr [OF pn(1) [unfolded hp_prev_def]] by (simp add: prev1_def)
  moreover have "next1 h i = n" using sanity_Inr [OF pn(2) [unfolded hp_next_def]] by (simp add: next1_def)
  ultimately show ?thesis by (simp add: u_remove_def pn(3) Let_def)
qed

text \<open>Where the kernel frees without a panic, the user heap does the same.\<close>

lemma free_Inr:
  assumes "free h p = Inr h'" "u_index h p = block_index h p"
  shows "u_free h p = h'"
proof (cases "p = 0 \<or> p = h_base h")
  case True
  then have "free h p = Inr h" "u_free h p = h" by (auto simp: free_def u_free_def)
  then show ?thesis using assms(1) by simp
next
  case False
  let ?i = "block_index h p"
  have f: "free h p = bindR (sanity h ?i) (\<lambda>_. if \<not> isTaken h ?i then Inl (Panic ''freeing free block'')
      else bindR (hp_left h ?i) (\<lambda>l. bindR (hp_right h ?i) (\<lambda>r.
        bindR (if isAvail h l then bindR (hp_remove h l) (\<lambda>h1. Inr (h1, l, hp_size h ?i + hp_size h1 l)) else Inr (h, ?i, hp_size h ?i)) (\<lambda>(h1, i1, s1).
        bindR (if isAvail h1 r then bindR (hp_remove h1 r) (\<lambda>h2. Inr (h2, s1 + hp_size h2 r)) else Inr (h1, s1)) (\<lambda>(h2, s2).
        Inr (makeAvail h2 i1 s2))))))"
    using False unfolding free_def Let_def block_index_def by (simp only: if_False de_Morgan_disj)
  note conv = bindR_Inr_conv [THEN iffD1]
  have t: "isTaken h ?i" using conv [OF assms(1) [unfolded f]] by (auto split: if_splits)
  obtain l where l: "hp_left h ?i = Inr l" and f1: "bindR (hp_right h ?i) (\<lambda>r.
        bindR (if isAvail h l then bindR (hp_remove h l) (\<lambda>h1. Inr (h1, l, hp_size h ?i + hp_size h1 l)) else Inr (h, ?i, hp_size h ?i)) (\<lambda>(h1, i1, s1).
        bindR (if isAvail h1 r then bindR (hp_remove h1 r) (\<lambda>h2. Inr (h2, s1 + hp_size h2 r)) else Inr (h1, s1)) (\<lambda>(h2, s2).
        Inr (makeAvail h2 i1 s2)))) = Inr h'"
    using conv [OF assms(1) [unfolded f]] t by (auto dest: conv)
  obtain r where r: "hp_right h ?i = Inr r" and f2: "bindR (if isAvail h l then bindR (hp_remove h l) (\<lambda>h1. Inr (h1, l, hp_size h ?i + hp_size h1 l)) else Inr (h, ?i, hp_size h ?i)) (\<lambda>(h1, i1, s1).
        bindR (if isAvail h1 r then bindR (hp_remove h1 r) (\<lambda>h2. Inr (h2, s1 + hp_size h2 r)) else Inr (h1, s1)) (\<lambda>(h2, s2).
        Inr (makeAvail h2 i1 s2))) = Inr h'"
    using conv [OF f1] by blast
  obtain h1 i1 s1 where a: "(if isAvail h l then bindR (hp_remove h l) (\<lambda>h1. Inr (h1, l, hp_size h ?i + hp_size h1 l)) else Inr (h, ?i, hp_size h ?i)) = Inr (h1, i1, s1)"
    and f3: "bindR (if isAvail h1 r then bindR (hp_remove h1 r) (\<lambda>h2. Inr (h2, s1 + hp_size h2 r)) else Inr (h1, s1)) (\<lambda>(h2, s2).
        Inr (makeAvail h2 i1 s2)) = Inr h'"
    using conv [OF f2] by (elim exE conjE) (metis (no_types, lifting) prod.case prod_cases3)
  obtain h2 s2 where b: "(if isAvail h1 r then bindR (hp_remove h1 r) (\<lambda>h2. Inr (h2, s1 + hp_size h2 r)) else Inr (h1, s1)) = Inr (h2, s2)"
    and h': "h' = makeAvail h2 i1 s2"
    using conv [OF f3] by auto
  have "(if isAvail h l then (let h1 = u_remove h l in (h1, l, hp_size h ?i + hp_size h1 l)) else (h, ?i, hp_size h ?i)) = (h1, i1, s1)"
    using a by (auto simp: bindR_Inr_conv Let_def dest!: hp_remove_Inr split: if_splits)
  moreover have "(if isAvail h1 r then (let h2 = u_remove h1 r in (h2, s1 + hp_size h2 r)) else (h1, s1)) = (h2, s2)"
    using b by (auto simp: bindR_Inr_conv Let_def dest!: hp_remove_Inr split: if_splits)
  ultimately show ?thesis
    using False t by (simp add: u_free_def assms(2) hp_left_Inr [OF l] hp_right_Inr [OF r] h')
qed

section \<open>The search\<close>

lemma first_fit_eq:
  "dll (h_array h) q x fs \<Longrightarrow> length fs \<le> fuel \<Longrightarrow>
   first_fit fuel h ints x =
     (case filter (\<lambda>f. ints \<le> hp_size h f) fs of [] \<Rightarrow> Inr (0, h) | f # _ \<Rightarrow> Inr (ptr_of h f, take_block h f ints))"
proof (induction fs arbitrary: q x fuel)
  case Nil
  then show ?case by (simp add: first_fit.simps [of fuel])
next
  case (Cons f fs)
  then obtain n where n: "fuel = Suc n" "length fs \<le> n" by (cases fuel) auto
  have "x = f" "f \<noteq> 0" "dll (h_array h) f (next1 h f) fs" using Cons.prems(1) by (simp_all add: next1_def)
  then show ?case using Cons.IH [OF _ n(2)] by (subst first_fit.simps) (simp add: n(1))
qed

lemma u_malloc_spec:
  assumes rep: "heap_rep h bs fl" and "bytes \<noteq> 0"
  shows "(u_malloc h bytes = Inr (0, h) \<and> (\<forall>(s, n, t) \<in> set bs. t \<or> n < malloc_ints bytes)) \<or>
    (\<exists>us it vs xs m ys h' fl'. u_malloc h bytes = Inr (ptr_of h it, h') \<and>
       fl = us @ it # vs \<and> (\<forall>f \<in> set us. hp_size h f < malloc_ints bytes) \<and>
       bs = xs @ (it, m, False) # ys \<and> malloc_ints bytes \<le> m \<and>
       heap_rep h' (xs @ carve it m (malloc_ints bytes) @ ys) fl' \<and> keeps h h' bs)"
proof -
  let ?n = "malloc_ints bytes"
  have r: "dll (h_array h) 0 (h_avail h) fl" "set fl = set (free_starts bs)" using rep by (auto simp: heap_rep_def)
  have e: "u_malloc h bytes =
      (case filter (\<lambda>f. ?n \<le> hp_size h f) fl of [] \<Rightarrow> Inr (0, h) | f # _ \<Rightarrow> Inr (ptr_of h f, take_block h f ?n))"
    using assms(2) first_fit_eq [OF r(1) heap_rep_length [OF rep]] by (simp add: u_malloc_def)
  show ?thesis
  proof (cases "filter (\<lambda>f. ?n \<le> hp_size h f) fl")
    case Nil
    then have "hp_size h f < ?n" if "f \<in> set fl" for f using that by (auto simp: filter_empty_conv)
    then have "\<forall>(s, n, t) \<in> set bs. t \<or> n < ?n" using r(2) heap_rep_mem [OF rep] by (fastforce simp: set_free_starts)
    then show ?thesis using e Nil by simp
  next
    case (Cons it rest)
    then obtain us vs where u: "fl = us @ it # vs" "\<forall>f \<in> set us. \<not> ?n \<le> hp_size h f" "?n \<le> hp_size h it"
      by (metis filter_eq_ConsD)
    obtain m where m: "(it, m, False) \<in> set bs" using u(1) r(2) by (auto simp: set_free_starts)
    obtain xs ys where bs: "bs = xs @ (it, m, False) # ys" using split_list [OF m] by blast
    have sz: "hp_size h it = m" using heap_rep_mem [OF rep m] by simp
    from malloc_some [OF rep bs u(1) u(3) [unfolded sz] malloc_ints_ge] obtain h1 h2 fl' where
      h: "hp_remove h it = Inr h1"
        "h2 = (if m - ?n \<ge> 4 then makeAvail (makeTaken h1 it ?n) (it + ?n) (m - ?n) else makeTaken h1 it m)"
        "heap_rep h2 (xs @ carve it m ?n @ ys) fl'" "keeps h h2 bs" by blast
    have "u_malloc h bytes = Inr (ptr_of h it, h2)"
      using e Cons hp_remove_Inr [OF h(1)] h(2) by (simp add: take_block_def sz Let_def)
    moreover have "\<forall>f \<in> set us. hp_size h f < ?n" using u(2) by auto
    ultimately show ?thesis using u bs h(3,4) sz by blast
  qed
qed

section \<open>The contract of an allocator\<close>

lemma u_index_ptr:
  assumes "heap_rep h bs fl" "0 \<le> i" "i + 1 < h_len h"
  shows "u_index h (ptr_of h i) = i" "block_index h (ptr_of h i) = i"
proof -
  have r: "h_len h < 2 ^ 29" "0 < uint (h_base h)" "uint (h_base h) + 4 * h_len h \<le> 2 ^ 32" using assms(1) by (auto simp: heap_rep_def)
  show "block_index h (ptr_of h i) = i" using ptr_of_index [OF assms(2,3) r] by (simp add: block_index_def)
  have "ptr_of h i - h_base h = word_of_int (4 * (i + 1))" by (simp add: ptr_of_def)
  moreover have "sint (word_of_int (4 * (i + 1)) :: u32) = 4 * (i + 1)"
  proof -
    define x where "x = 4 * (i + 1)"
    have "- (2 ^ 31) \<le> x" "x < 2 ^ 31" using assms(2,3) r(1) by (simp_all add: x_def)
    then show ?thesis unfolding x_def [symmetric] by (simp add: signed_of_int signed_take_bit_int_eq_self)
  qed
  ultimately show "u_index h (ptr_of h i) = i" using assms(2) by (simp add: u_index_def Let_def)
qed

lemma owns_u_malloc:
  assumes "owns h ps"
  shows "\<exists>p h'. u_malloc h b = Inr (p, h') \<and> owns h' (if p = 0 then ps else p # ps)"
proof (cases "b = 0")
  case True
  then show ?thesis using assms by (auto simp: u_malloc_def owns_def heap_rep_def)
next
  case False
  obtain bs fl where o: "heap_rep h bs fl" "distinct (filter (\<lambda>p. p \<noteq> h_base h) ps)"
    "set ps - {h_base h} = ptr_of h ` live h bs"
    using assms by (auto simp: owns_def)
  from u_malloc_spec [OF o(1) False] show ?thesis
  proof (elim disjE exE conjE)
    fix us it vs xs m ys h' fl'
    assume m: "u_malloc h b = Inr (ptr_of h it, h')" "bs = xs @ (it, m, False) # ys"
      "heap_rep h' (xs @ carve it m (malloc_ints b) @ ys) fl'" "keeps h h' bs"
    show ?thesis using owns_carve [OF o m(2-4)] m(1) by auto
  qed (use assms in auto)
qed

lemma owned_index:
  assumes "owns h ps" "p \<in> set ps" "p \<noteq> h_base h"
  shows "u_index h p = block_index h p"
proof -
  obtain bs fl where o: "heap_rep h bs fl" "set ps - {h_base h} = ptr_of h ` live h bs" using assms(1) by (auto simp: owns_def)
  then obtain i where i: "i \<in> live h bs" "p = ptr_of h i" using assms(2,3) by auto
  then show ?thesis using u_index_ptr [OF o(1), of i] live_range [OF o(1)] by auto
qed

lemma owns_u_free:
  assumes "owns h (ps @ p # qs)"
  shows "owns (u_free h p) (ps @ qs)" "\<exists>h'. free h p = Inr h' \<and> u_free h p = h'"
proof -
  obtain h' where h': "free h p = Inr h'" "owns h' (ps @ qs)" using owns_free [OF assms] by blast
  have "u_free h p = h'"
  proof (cases "p = h_base h")
    case True
    then show ?thesis using h'(1) by (simp add: free_def u_free_def split: if_splits)
  next
    case False
    then show ?thesis using free_Inr [OF h'(1)] owned_index [OF assms] by simp
  qed
  then show "owns (u_free h p) (ps @ qs)" "\<exists>h'. free h p = Inr h' \<and> u_free h p = h'" using h' by simp_all
qed

interpretation uheap: allocator u_malloc "\<lambda>h p. Inr (u_free h p)" payload_words payload_store owns
  by unfold_locales (fact owns_u_malloc owns_store | simp add: owns_u_free(1))+

lemma heap_init_rep:
  assumes "0 < uint base" "uint base + 4 * INTS \<le> 2 ^ 32"
  shows "heap_rep (heap_init base) [(0, 2, True), (2, INTS - 4, False), (INTS - 2, 2, True)] [2]"
proof -
  have "heap_init base = (heapLayout (\<lambda>_. 0) base 0x400000)\<lparr>h_safe := True\<rparr>"
    by (simp add: heap_init_def heapLayout_def INTS_def makeTaken_def makeAvail_def setNext_def setPrev_def footerFromHeader_def hp_size_def Let_def)
  moreover have "heap_rep (h\<lparr>h_safe := b\<rparr>) bs fl = heap_rep h bs fl" for h b bs fl by (simp add: heap_rep_def)
  ultimately show ?thesis using heapLayout_rep [of "0x400000" base "\<lambda>_. 0"] assms by (simp add: INTS_def)
qed

lemma heap_init_owns:
  assumes "0 < uint base" "uint base + 4 * INTS \<le> 2 ^ 32"
  shows "owns (heap_init base) []"
proof -
  have "h_len (heap_init base) = INTS" by (simp add: heap_init_def makeTaken_def makeAvail_def setNext_def setPrev_def Let_def)
  then show ?thesis by (intro ownsI [OF heap_init_rep [OF assms]]) (auto simp: live_def)
qed

section \<open>Moving a block\<close>

lemma copy_bytes_inside:
  assumes "0 \<le> m" "m \<le> 4 * n" "\<not> (dst \<le> k \<and> k < dst + n)"
  shows "copy_bytes a dst src m k = a k"
proof -
  have "m div 4 \<le> n" "m mod 4 \<noteq> 0 \<Longrightarrow> m div 4 < n" "0 \<le> m div 4" using assms(1,2) by presburger+
  then show ?thesis using assms(3) by (auto simp: copy_bytes_def)
qed

lemma copy_bytes_word:
  "0 \<le> w \<Longrightarrow> 4 * w + 4 \<le> m \<Longrightarrow> copy_bytes a dst src m (dst + w) = a (src + w)"
proof -
  assume a: "0 \<le> w" "4 * w + 4 \<le> m"
  then have "w < m div 4" by presburger
  then show ?thesis using a(1) by (simp add: copy_bytes_def)
qed

lemma owns_same:
  assumes "owns h ps" "heap_rep h bs fl" "heap_rep h' bs fl'" "h_base h' = h_base h" "h_len h' = h_len h"
    and "set ps - {h_base h} = ptr_of h ` live h bs"
  shows "owns h' ps"
  using assms ptr_of_base [OF assms(4)] by (intro ownsI [OF assms(3)]) (auto simp: owns_def live_def)

lemma realloc_moves:
  assumes ow: "owns h (ps @ p # qs)" and b: "p \<noteq> h_base h" "newSize \<noteq> 0" "unat newSize \<le> 2 ^ 32 - 4"
    and m: "u_malloc h newSize = Inr (ptr_of h it, h1)" "heap_rep h bs fl" "bs = xs @ (it, m, False) # ys" "malloc_ints newSize \<le> m"
      "heap_rep h1 (xs @ carve it m (malloc_ints newSize) @ ys) fl1" "keeps h h1 bs"
      "set (ps @ p # qs) - {h_base h} = ptr_of h ` live h bs" "distinct (filter (\<lambda>p. p \<noteq> h_base h) (ps @ p # qs))"
  shows "\<exists>h'. u_realloc h p newSize = Inr (ptr_of h it, h') \<and> ptr_of h it \<noteq> 0 \<and> owns h' (ptr_of h it # ps @ qs) \<and>
    int (unat newSize) \<le> 4 * payload_words h' (ptr_of h it) \<and>
    (\<forall>w. 0 \<le> w \<and> w < payload_words h p \<and> 4 * w + 4 \<le> uint newSize \<longrightarrow>
      h_array h' (block_index h' (ptr_of h it) + 1 + w) = h_array h (block_index h p + 1 + w))"
proof -
  let ?q = "ptr_of h it" and ?bs1 = "xs @ carve it m (malloc_ints newSize) @ ys"
  have base: "h_base h1 = h_base h" "h_len h1 = h_len h" using m(6) by (simp_all add: keeps_def)
  have q: "?q \<noteq> 0" "?q \<noteq> h_base h" "?q \<notin> set (ps @ p # qs)" "owns h1 (?q # ps @ p # qs)"
    using owns_carve [OF m(2,8,7) m(3,5,6)] by auto
  obtain i where i: "i \<in> live h bs" "p = ptr_of h i" using m(7) b(1) by auto
  obtain n where n: "(i, n, True) \<in> set bs" "i \<noteq> 0" "i \<noteq> h_len h - 2" using i(1) by (auto simp: live_def)
  obtain k ws where k: "carve it m (malloc_ints newSize) = (it, k, True) # ws" "malloc_ints newSize \<le> k"
    using carve_head [OF m(4)] by blast
  have ib: "(i, n, True) \<in> set ?bs1" "(it, k, True) \<in> set ?bs1" using n(1) m(3) k(1) by auto
  have ne: "i \<noteq> it" using q(3) i(2) by auto
  have r: "0 \<le> i" "i + n \<le> h_len h" "2 \<le> n" "hp_size h i = n" using heap_rep_mem [OF m(2) n(1)] by auto
  have s: "0 \<le> it" "it + k \<le> h_len h1" "4 \<le> k" "hp_size h1 it = k"
    using heap_rep_mem [OF m(5) ib(2)] k(2) malloc_ints_ge [of newSize] by auto
  have ix: "u_index h p = i" "block_index h p = i" using u_index_ptr [OF m(2), of i] r i(2) by auto
  have ix1: "u_index h1 p = i" "u_index h1 ?q = it"
    using u_index_ptr [OF m(5), of i] u_index_ptr [OF m(5), of it] r s base(2) i(2) ptr_of_base [OF base(1)] by auto
  let ?m = "if uint newSize > n * 4 then n * 4 else uint newSize"
  let ?a = "copy_bytes (h_array h1) (it + 1) (i + 1) ?m"
  let ?h2 = "h1\<lparr>h_array := ?a\<rparr>"
  have e: "uint newSize = int (unat newSize)" by (simp only: uint_nat)
  have room: "uint newSize \<le> 4 * (k - 2)" unfolding e by (rule order_trans [OF malloc_ints_payload [OF b(3)]]) (simp add: k(2))
  have mb: "0 \<le> ?m" "?m \<le> 4 * (k - 2)" using room r(3) uint_ge_0 [of newSize] by (simp_all split: if_splits)
  have same: "?a j = h_array h1 j" if "\<not> (it < j \<and> j < it + k - 1)" for j
    using copy_bytes_inside [OF mb] that by simp
  have rep2: "heap_rep ?h2 ?bs1 fl1" by (rule payload_change_rep [OF m(5) ib(2) same])
  have lv: "live h1 ?bs1 = insert it (live h bs)" using live_carve(1) [of h xs it m ys fl h1] m(2,3) base(2) by simp
  have o2: "owns ?h2 ((?q # ps) @ p # qs)"
  proof -
    have "set (?q # ps @ p # qs) - {h_base h} = insert ?q (set (ps @ p # qs) - {h_base h})" using q(2) by auto
    then have "set (?q # ps @ p # qs) - {h_base h1} = ptr_of h1 ` live h1 ?bs1"
      unfolding m(7) lv base(1) ptr_of_base [OF base(1)] by simp
    from owns_same [OF q(4) m(5) rep2 _ _ this] show ?thesis by simp
  qed
  have u: "u_realloc h p newSize = Inr (?q, u_free ?h2 p)"
  proof -
    have "p \<noteq> 0" using ptr_of_inj(2) [OF m(2), of i] i(2) r by auto
    moreover have "isTaken h i"
      using isTaken_block [OF _ _ n(1)] m(2) by (auto simp: heap_rep_def)
    ultimately show ?thesis using b(2) q(1) by (simp add: u_realloc_def ix(1) m(1) r(4) ix1 Let_def)
  qed
  obtain xs1 ys1 where b1: "?bs1 = xs1 @ (i, n, True) # ys1" using split_list [OF ib(1)] by blast
  have "xs1 \<noteq> []" "ys1 \<noteq> []" using rep2 b1 n(2,3) base(2) by (auto simp: heap_rep_def)
  then obtain h' fl' where f: "free ?h2 p = Inr h'" "heap_rep h' (coalesce xs1 i n ys1) fl'" "keeps ?h2 h' (xs1 @ ys1)"
    using free_spec [OF rep2 b1] i(2) base(1) ptr_of_base [of ?h2 h] by auto
  have uf: "u_free ?h2 p = h'" using owns_u_free(2) [OF o2] f(1) by simp
  have "(it, k, True) \<in> set (xs1 @ ys1)" using ib(2) b1 ne by auto
  then have kq: "h_array h' j = ?a j" if "it \<le> j" "j < it + k" for j using keepsD [OF f(3) _ that] by simp
  have bq: "block_index h' ?q = it"
  proof -
    have "h_base h' = h_base h" using f(3) base(1) by (simp add: keeps_def)
    then have "block_index h' ?q = block_index h1 ?q" using base(1) by (simp add: block_index_def)
    then show ?thesis using u_index_ptr(2) [OF m(5), of it] s ptr_of_base [OF base(1)] by auto
  qed
  have "h_base h' \<noteq> ?q" using f(3) base(1) q(2) by (auto simp: keeps_def)
  moreover have "hp_size h' it = k" using kq [of it] same [of it] s by (simp add: hp_size_def)
  ultimately have pw: "payload_words h' ?q = k - 2" by (auto simp: payload_words_def bq)
  have "h_array h' (it + 1 + w) = h_array h (i + 1 + w)" if "0 \<le> w" "w < n - 2" "4 * w + 4 \<le> uint newSize" for w
  proof -
    have "4 * w + 4 \<le> ?m" using that by auto
    then have "?a (it + 1 + w) = h_array h1 (i + 1 + w)" using copy_bytes_word [OF that(1)] by simp
    moreover have "h_array h1 (i + 1 + w) = h_array h (i + 1 + w)" using keepsD [OF m(6) n(1)] that by auto
    moreover have "h_array h' (it + 1 + w) = ?a (it + 1 + w)" using kq [of "it + 1 + w"] that room by auto
    ultimately show ?thesis by simp
  qed
  moreover have "payload_words h p = n - 2" using b(1) r(4) ix(2) by (simp add: payload_words_def)
  moreover have "owns h' (?q # ps @ qs)" using owns_u_free(1) [OF o2] uf by simp
  ultimately show ?thesis using u uf q(1) room pw bq ix(2) unfolding e by simp
qed

section \<open>Properties\<close>

text \<open>
  (user_malloc_correct) On a well-formed heap \<open>malloc\<close> returns null, with the heap unchanged, exactly when no free block is large enough; otherwise it returns the payload of a block
  carved from the first block of the free list that is large enough. The heap stays well-formed, and no taken block changes.
\<close>

theorem user_malloc_correct:
  assumes "heap_rep h bs fl" "bytes \<noteq> 0"
  shows "\<exists>p h' bs' fl'. u_malloc h bytes = Inr (p, h') \<and> heap_rep h' bs' fl' \<and> keeps h h' bs \<and>
    (if p = 0 then h' = h \<and> (\<forall>(s, n, t) \<in> set bs. t \<or> n < malloc_ints bytes)
     else \<exists>us it vs xs m ys. p = ptr_of h it \<and> fl = us @ it # vs \<and> (\<forall>f \<in> set us. hp_size h f < malloc_ints bytes) \<and>
       bs = xs @ (it, m, False) # ys \<and> bs' = xs @ carve it m (malloc_ints bytes) @ ys \<and> malloc_ints bytes \<le> m)"
  using u_malloc_spec [OF assms]
proof (elim disjE exE conjE)
  fix us it vs xs m ys h' fl'
  assume m: "u_malloc h bytes = Inr (ptr_of h it, h')" "fl = us @ it # vs" "\<forall>f \<in> set us. hp_size h f < malloc_ints bytes"
    "bs = xs @ (it, m, False) # ys" "malloc_ints bytes \<le> m" "heap_rep h' (xs @ carve it m (malloc_ints bytes) @ ys) fl'" "keeps h h' bs"
  have "ptr_of h it \<noteq> 0" using ptr_of_inj(2) [OF assms(1)] heap_rep_mem [OF assms(1), of it m False] m(4) by auto
  then show ?thesis
    by (intro exI [of _ "ptr_of h it"] exI [of _ h'] exI [of _ "xs @ carve it m (malloc_ints bytes) @ ys"] exI [of _ fl'] conjI m(1,6,7))
      (subst if_not_P, assumption, intro exI conjI, rule refl, rule m(2), rule m(3), rule m(4), rule refl, rule m(5))
qed (use assms(1) keeps_refl in fastforce)

theorem user_malloc_correct_witness:
  "\<exists>p h' bs' fl'. u_malloc (heap_init 0x1000000) 100 = Inr (p, h') \<and> heap_rep h' bs' fl'"
  using user_malloc_correct [OF heap_init_rep, of "0x1000000" 100] by (auto simp: INTS_def)

text \<open>
  (user_free_as_kernel) For every pointer that a client holds, \<open>free\<close> of the user heap is \<open>free\<close> of the kernel heap: the checks that report nothing make no difference.
\<close>

theorem user_free_as_kernel:
  assumes "owns h (ps @ p # qs)"
  shows "free h p = Inr (u_free h p) \<and> owns (u_free h p) (ps @ qs)"
  using owns_u_free [OF assms] by simp

theorem user_free_as_kernel_witness:
  "\<exists>h. malloc demo_heap 8 = Inr (0x10000C, h) \<and> free h 0x10000C = Inr (u_free h 0x10000C)"
proof -
  obtain h where h: "malloc demo_heap 8 = Inr (0x10000C, h)" using demo_malloc by blast
  then have "owns h ([] @ 0x10000C # [])" using owns_malloc [OF demo_owns, of 8] by auto
  from user_free_as_kernel [OF this] h show ?thesis by blast
qed

text \<open>
  (user_realloc_correct) \<open>realloc\<close> of a pointer that the client holds returns null or a new block with room for the size. The words of the old payload that lie within the new size are at the
  same places of the new block, and the old block is released. It is released also when the result is null, and then its contents are lost.
\<close>

theorem user_realloc_correct:
  assumes "owns h (ps @ p # qs)" "p \<noteq> h_base h" "newSize \<noteq> 0" "unat newSize \<le> 2 ^ 32 - 4"
  shows "\<exists>q h'. u_realloc h p newSize = Inr (q, h') \<and> owns h' (if q = 0 then ps @ qs else q # ps @ qs) \<and>
    (q \<noteq> 0 \<longrightarrow> int (unat newSize) \<le> 4 * payload_words h' q \<and>
      (\<forall>w. 0 \<le> w \<and> w < payload_words h p \<and> 4 * w + 4 \<le> uint newSize \<longrightarrow>
        h_array h' (block_index h' q + 1 + w) = h_array h (block_index h p + 1 + w)))"
proof -
  obtain bs fl where o: "heap_rep h bs fl" "distinct (filter (\<lambda>x. x \<noteq> h_base h) (ps @ p # qs))"
    "set (ps @ p # qs) - {h_base h} = ptr_of h ` live h bs"
    using assms(1) by (auto simp: owns_def)
  from u_malloc_spec [OF o(1) assms(3)] show ?thesis
  proof (elim disjE exE conjE)
    assume n: "u_malloc h newSize = Inr (0, h)"
    obtain i where i: "i \<in> live h bs" "p = ptr_of h i" using o(3) assms(2) by auto
    then have r: "0 \<le> i" "i + 1 < h_len h" using live_range [OF o(1)] by auto
    obtain k where "(i, k, True) \<in> set bs" using i(1) by (auto simp: live_def)
    then have "isTaken h i" using isTaken_block [of 0 bs "h_len h" h i k True] o(1) by (simp add: heap_rep_def)
    then have "u_realloc h p newSize = Inr (0, u_free h p)"
      using n assms(3) ptr_of_inj(2) [OF o(1) r] i(2) u_index_ptr(1) [OF o(1) r] by (simp add: u_realloc_def Let_def)
    then show ?thesis using owns_u_free(1) [OF assms(1)] by auto
  next
    fix us it vs xs m ys h1 fl1
    assume m: "u_malloc h newSize = Inr (ptr_of h it, h1)" "bs = xs @ (it, m, False) # ys" "malloc_ints newSize \<le> m"
      "heap_rep h1 (xs @ carve it m (malloc_ints newSize) @ ys) fl1" "keeps h h1 bs"
    from realloc_moves [OF assms m(1) o(1) m(2-5) o(3,2)] show ?thesis by auto
  qed
qed

theorem user_realloc_correct_witness:
  "\<exists>h q h'. malloc demo_heap 8 = Inr (0x10000C, h) \<and> u_realloc h 0x10000C 20 = Inr (q, h') \<and> owns h' (if q = 0 then [] else [q])"
proof -
  obtain h where h: "malloc demo_heap 8 = Inr (0x10000C, h)" using demo_malloc by blast
  then have o: "owns h ([] @ 0x10000C # [])" using owns_malloc [OF demo_owns, of 8] by auto
  have b: "0x10000C \<noteq> h_base h" using demo_taken h by (auto simp: demo_ptr demo_heap_def heapLayout_def makeTaken_def makeAvail_def setPrev_def setNext_def Let_def)
  have n: "(20 :: u32) \<noteq> 0" "unat (20 :: u32) \<le> 2 ^ 32 - 4" by simp_all
  from user_realloc_correct [OF o b n] obtain q h' where
    r: "u_realloc h 0x10000C 20 = Inr (q, h')" and "owns h' (if q = 0 then [] @ [] else q # [] @ [])" by blast
  then have "owns h' (if q = 0 then [] else [q])" by (cases "q = 0") simp_all
  then show ?thesis using h r by blast
qed

text \<open>
  (user_heap_client_safe) From the initial heap, no sequence of allocations, releases and writes by a client that keeps to the pointers it holds corrupts the user heap or makes an operation loop.
\<close>

theorem user_heap_client_safe:
  assumes "0 < uint base" "uint base + 4 * INTS \<le> 2 ^ 32"
  shows "\<exists>h' ps'. run_client u_malloc (\<lambda>h p. Inr (u_free h p)) payload_words payload_store ops (heap_init base) [] = Inr (h', ps') \<and> owns h' ps'"
  by (rule uheap.client_safe [OF heap_init_owns [OF assms]])

theorem user_heap_client_safe_witness:
  "\<exists>h' ps'. run_client u_malloc (\<lambda>h p. Inr (u_free h p)) payload_words payload_store
     [ClientMalloc 8, ClientMalloc 4, ClientStore 1 0 7, ClientFree 0, ClientMalloc 0] (heap_init 0x1000000) [] = Inr (h', ps') \<and> owns h' ps'"
  by (rule user_heap_client_safe) (simp_all add: INTS_def)

end
