(* ===== verification/Snprintf.thy ===== *)
theory Snprintf
  imports Prelude
begin

text \<open>
  Formatted output, \<open>kernel/snprintf.cc\<close>: the state machine \<open>dopr\<close> that reads a format, and the formatting of
  strings, integers and floating point numbers. The program \<open>my-test.dir/sbin/printf.c\<close> contains the same code with the
  system call \<open>write\<close> as its sink; it is modelled in \<open>UserPrintf\<close>.

  The remaining format is a list of characters that starts with \<open>ch\<close>; the empty list is the
  terminating NUL, and to read on behind it is \<open>Undef\<close>. Arguments are a list of tagged values, and to
  fetch one of another kind is \<open>Undef\<close>. The output is the list of characters put into the sink. On this machine \<open>int\<close>,
  \<open>long\<close> and pointers have 32 bits; the value that is printed is a word, while widths and counters
  are integers, since their overflow is undefined (the negation of the smallest number, undefined too,
  is the one of the machine instruction). The computation in
  \<open>fmtfp\<close> that splits a number into sign, integer part and rounded fraction is an argument \<open>fsplit\<close>, which
  \<open>FloatSplit\<close> defines over the operations of a floating point type; what is printed from these parts is here; both parts are values of type \<open>long\<close> that are not negative. Each turn of the loop of \<open>dopr\<close> is \<open>dopr_step\<close>, and \<open>dopr\<close> is
  a total function: the loop always ends.
\<close>

section \<open>State\<close>

datatype dp_state = DP_S_DEFAULT | DP_S_FLAGS | DP_S_MIN | DP_S_DOT | DP_S_MAX | DP_S_MOD | DP_S_CONV | DP_S_DONE

definition DP_F_MINUS :: nat where "DP_F_MINUS = 0"
definition DP_F_PLUS :: nat where "DP_F_PLUS = 1"
definition DP_F_SPACE :: nat where "DP_F_SPACE = 2"
definition DP_F_NUM :: nat where "DP_F_NUM = 3"
definition DP_F_ZERO :: nat where "DP_F_ZERO = 4"
definition DP_F_UP :: nat where "DP_F_UP = 5"
definition DP_F_UNSIGNED :: nat where "DP_F_UNSIGNED = 6"

datatype dp_c = DP_C_NONE | DP_C_SHORT | DP_C_LONG | DP_C_LDOUBLE

datatype 'f arg = ANum u32 | AStr "string option" | AFlt 'f

text \<open>The flags are the set of the numbers of the bits that are set.\<close>

record 'f dopr_state =
  state :: dp_state
  format :: string
  args :: "'f arg list"
  mn :: int
  mx :: int
  flags :: "nat set"
  cflags :: dp_c
  currlen :: int
  out :: string
  stored :: "(u32 \<times> dp_c \<times> int) list"

definition dopr_outch :: "char \<Rightarrow> 'f dopr_state \<Rightarrow> 'f dopr_state" where
  "dopr_outch c p = p\<lparr>currlen := currlen p + 1, out := out p @ [c]\<rparr>"

definition dopr_outs :: "string \<Rightarrow> 'f dopr_state \<Rightarrow> 'f dopr_state" where
  "dopr_outs cs p = fold dopr_outch cs p"

definition isdigit :: "char \<Rightarrow> bool" where
  "isdigit c \<longleftrightarrow> (of_char c :: nat) \<ge> 48 \<and> (of_char c :: nat) \<le> 57"

definition char_to_int :: "char \<Rightarrow> int" where
  "char_to_int c = of_char c - 48"

section \<open>Strings\<close>

text \<open>The three loops of \<open>fmtstr\<close>; the counter \<open>cnt\<close> is passed on from one to the next.\<close>

function pad_left :: "int \<Rightarrow> int \<Rightarrow> int \<Rightarrow> 'f dopr_state \<Rightarrow> int \<times> int \<times> 'f dopr_state" where
  "pad_left padlen cnt max' p =
     (if padlen > 0 \<and> cnt < max' then pad_left (padlen - 1) (cnt + 1) max' (dopr_outch CHR '' '' p) else (padlen, cnt, p))"
  by pat_completeness auto
termination by (relation "measure (\<lambda>(padlen, cnt, m, p). nat padlen)") auto

fun put_value :: "string \<Rightarrow> int \<Rightarrow> int \<Rightarrow> 'f dopr_state \<Rightarrow> int \<times> 'f dopr_state" where
  "put_value [] cnt max' p = (cnt, p)"
| "put_value (c # cs) cnt max' p = (if cnt < max' then put_value cs (cnt + 1) max' (dopr_outch c p) else (cnt, p))"

function pad_right :: "int \<Rightarrow> int \<Rightarrow> int \<Rightarrow> 'f dopr_state \<Rightarrow> 'f dopr_state" where
  "pad_right padlen cnt max' p =
     (if padlen < 0 \<and> cnt < max' then pad_right (padlen + 1) (cnt + 1) max' (dopr_outch CHR '' '' p) else p)"
  by pat_completeness auto
termination by (relation "measure (\<lambda>(padlen, cnt, m, p). nat (- padlen))") auto

declare pad_left.simps [simp del] pad_right.simps [simp del]

definition fmtstr :: "string option \<Rightarrow> nat set \<Rightarrow> int \<Rightarrow> int \<Rightarrow> 'f dopr_state \<Rightarrow> 'f dopr_state" where
  "fmtstr strvalue fl min' max' p =
     (let v = (case strvalue of None \<Rightarrow> ''<NULL>'' | Some s \<Rightarrow> s);
          padlen0 = min' - int (length v);
          padlen1 = (if padlen0 < 0 then 0 else padlen0);
          padlen2 = (if DP_F_MINUS \<in> fl then - padlen1 else padlen1);
          (padlen3, cnt1, p1) = pad_left padlen2 0 max' p;
          (cnt2, p2) = put_value v cnt1 max' p1
      in pad_right padlen3 cnt2 max' p2)"

section \<open>Integers\<close>

definition digit_char :: "bool \<Rightarrow> u32 \<Rightarrow> char" where
  "digit_char caps u = (if caps then ''0123456789ABCDEF'' else ''0123456789abcdef'') ! unat u"

text \<open>The \<open>do\<close> loop; the first argument is the room left in \<open>convert\<close>, the result its characters from index 0 on.\<close>

fun convert_loop :: "nat \<Rightarrow> bool \<Rightarrow> u32 \<Rightarrow> u32 \<Rightarrow> string" where
  "convert_loop 0 caps base uvalue = []"
| "convert_loop (Suc n) caps base uvalue =
     digit_char caps (uvalue mod base) # (if uvalue div base \<noteq> 0 then convert_loop n caps base (uvalue div base) else [])"

text \<open>\<open>place\<close> is reduced by one when the array is full.\<close>

definition converted :: "bool \<Rightarrow> u32 \<Rightarrow> u32 \<Rightarrow> string" where
  "converted caps base uvalue = (let cs = convert_loop 20 caps base uvalue in if length cs = 20 then take 19 cs else cs)"

definition sign_chars :: "bool \<Rightarrow> nat set \<Rightarrow> string" where
  "sign_chars negative fl =
     (if negative then ''-'' else if DP_F_PLUS \<in> fl then ''+'' else if DP_F_SPACE \<in> fl then '' '' else '''')"

definition fmtint :: "u32 \<Rightarrow> u32 \<Rightarrow> int \<Rightarrow> int \<Rightarrow> nat set \<Rightarrow> 'f dopr_state \<Rightarrow> 'f dopr_state" where
  "fmtint val base min' max0 fl p =
     (let max' = (if max0 < 0 then 0 else max0);
          signed' = (DP_F_UNSIGNED \<notin> fl);
          uvalue = (if signed' \<and> sint val < 0 then - val else val);
          signvalue = (if signed' then sign_chars (sint val < 0) fl else '''');
          caps = (DP_F_UP \<in> fl);
          convert = converted caps base uvalue;
          place = int (length convert);
          zpadlen0 = max' - place;
          spadlen0 = min' - max max' place - int (length signvalue);
          zpadlen1 = (if zpadlen0 < 0 then 0 else zpadlen0);
          spadlen1 = (if spadlen0 < 0 then 0 else spadlen0);
          (zpadlen, spadlen2) = (if DP_F_ZERO \<in> fl then (max zpadlen1 spadlen1, 0) else (zpadlen1, spadlen1));
          spadlen = (if DP_F_MINUS \<in> fl then - spadlen2 else spadlen2)
      in (dopr_outs (replicate (nat (- spadlen)) CHR '' '') \<circ>
          dopr_outs (rev convert) \<circ>
          dopr_outs (replicate (nat zpadlen) CHR ''0'') \<circ>
          dopr_outs signvalue \<circ>
          dopr_outs (replicate (nat spadlen) CHR '' '')) p)"

section \<open>Floating point\<close>

text \<open>
  \<open>fsplit\<close> gives for a number and a number of decimals what lines 547 to 580 compute: whether the number is
  negative, \<open>intpart\<close> and \<open>fracpart\<close>.
\<close>

definition fmtfp :: "('f \<Rightarrow> nat \<Rightarrow> bool \<times> u32 \<times> u32) \<Rightarrow> 'f \<Rightarrow> int \<Rightarrow> int \<Rightarrow> nat set \<Rightarrow> 'f dopr_state \<Rightarrow> 'f dopr_state" where
  "fmtfp fsplit fvalue min' max0 fl p =
     (let max1 = (if max0 < 0 then 6 else max0);
          max' = (if max1 > 9 then 9 else max1);
          (negative, intpart, fracpart) = fsplit fvalue (nat max');
          signvalue = sign_chars negative fl;
          iconvert = converted False 10 intpart;
          fconvert = converted False 10 fracpart;
          padlen0 = min' - int (length iconvert) - max' - 1 - int (length signvalue);
          zpadlen0 = max' - int (length fconvert);
          zpadlen = (if zpadlen0 < 0 then 0 else zpadlen0);
          padlen1 = (if padlen0 < 0 then 0 else padlen0);
          padlen2 = (if DP_F_MINUS \<in> fl then - padlen1 else padlen1);
          zero = (DP_F_ZERO \<in> fl \<and> padlen2 > 0);
          padlen3 = (if zero then (if signvalue \<noteq> '''' then padlen2 - 1 else padlen2) else padlen2);
          p1 = (if zero then dopr_outs (signvalue @ replicate (nat padlen3) CHR ''0'') p
                else dopr_outs (replicate (nat padlen3) CHR '' '' @ signvalue) p);
          padlen4 = (if padlen3 > 0 then 0 else padlen3)
      in (dopr_outs (replicate (nat (- padlen4)) CHR '' '') \<circ>
          dopr_outs (replicate (nat zpadlen) CHR ''0'') \<circ>
          dopr_outs (if max' > 0 then CHR ''.'' # rev fconvert else '''') \<circ>
          dopr_outs (rev iconvert)) p1)"

section \<open>The state machine\<close>

definition next_ch :: "'f dopr_state \<Rightarrow> 'f dopr_state res" where
  "next_ch p = (case format p of [] \<Rightarrow> Inl (Undef ''read past the format'') | _ # r \<Rightarrow> Inr (p\<lparr>format := r\<rparr>))"

definition va_num :: "'f dopr_state \<Rightarrow> (u32 \<times> 'f dopr_state) res" where
  "va_num p = (case args p of ANum v # r \<Rightarrow> Inr (v, p\<lparr>args := r\<rparr>) | _ \<Rightarrow> Inl (Undef ''argument''))"

definition va_str :: "'f dopr_state \<Rightarrow> (string option \<times> 'f dopr_state) res" where
  "va_str p = (case args p of AStr v # r \<Rightarrow> Inr (v, p\<lparr>args := r\<rparr>) | _ \<Rightarrow> Inl (Undef ''argument''))"

definition va_flt :: "'f dopr_state \<Rightarrow> ('f \<times> 'f dopr_state) res" where
  "va_flt p = (case args p of AFlt v # r \<Rightarrow> Inr (v, p\<lparr>args := r\<rparr>) | _ \<Rightarrow> Inl (Undef ''argument''))"

definition step_default :: "char \<Rightarrow> 'f dopr_state \<Rightarrow> 'f dopr_state res" where
  "step_default ch p = next_ch (if ch = CHR ''%'' then p\<lparr>state := DP_S_FLAGS\<rparr> else dopr_outch ch p)"

definition step_flags :: "char \<Rightarrow> 'f dopr_state \<Rightarrow> 'f dopr_state res" where
  "step_flags ch p =
     (if ch = CHR ''-'' then next_ch (p\<lparr>flags := insert DP_F_MINUS (flags p)\<rparr>)
      else if ch = CHR ''+'' then next_ch (p\<lparr>flags := insert DP_F_PLUS (flags p)\<rparr>)
      else if ch = CHR '' '' then next_ch (p\<lparr>flags := insert DP_F_SPACE (flags p)\<rparr>)
      else if ch = CHR ''#'' then next_ch (p\<lparr>flags := insert DP_F_NUM (flags p)\<rparr>)
      else if ch = CHR ''0'' then next_ch (p\<lparr>flags := insert DP_F_ZERO (flags p)\<rparr>)
      else Inr (p\<lparr>state := DP_S_MIN\<rparr>))"

definition step_min :: "char \<Rightarrow> 'f dopr_state \<Rightarrow> 'f dopr_state res" where
  "step_min ch p =
     (if isdigit ch then next_ch (p\<lparr>mn := 10 * mn p + char_to_int ch\<rparr>)
      else if ch = CHR ''*'' then
        bindR (va_num p) (\<lambda>(v, p1). bindR (next_ch (p1\<lparr>mn := sint v\<rparr>)) (\<lambda>p2. Inr (p2\<lparr>state := DP_S_DOT\<rparr>)))
      else Inr (p\<lparr>state := DP_S_DOT\<rparr>))"

definition step_dot :: "char \<Rightarrow> 'f dopr_state \<Rightarrow> 'f dopr_state res" where
  "step_dot ch p = (if ch = CHR ''.'' then next_ch (p\<lparr>state := DP_S_MAX\<rparr>) else Inr (p\<lparr>state := DP_S_MOD\<rparr>))"

definition step_max :: "char \<Rightarrow> 'f dopr_state \<Rightarrow> 'f dopr_state res" where
  "step_max ch p =
     (if isdigit ch then next_ch (p\<lparr>mx := 10 * (if mx p < 0 then 0 else mx p) + char_to_int ch\<rparr>)
      else if ch = CHR ''*'' then
        bindR (va_num p) (\<lambda>(v, p1). bindR (next_ch (p1\<lparr>mx := sint v\<rparr>)) (\<lambda>p2. Inr (p2\<lparr>state := DP_S_MOD\<rparr>)))
      else Inr (p\<lparr>state := DP_S_MOD\<rparr>))"

definition step_mod :: "char \<Rightarrow> 'f dopr_state \<Rightarrow> 'f dopr_state res" where
  "step_mod ch p =
     bindR (if ch = CHR ''h'' then next_ch (p\<lparr>cflags := DP_C_SHORT\<rparr>)
            else if ch = CHR ''l'' then next_ch (p\<lparr>cflags := DP_C_LONG\<rparr>)
            else if ch = CHR ''L'' then next_ch (p\<lparr>cflags := DP_C_LDOUBLE\<rparr>)
            else Inr p) (\<lambda>p1. Inr (p1\<lparr>state := DP_S_CONV\<rparr>))"

definition conv_int :: "u32 \<Rightarrow> nat set \<Rightarrow> 'f dopr_state \<Rightarrow> 'f dopr_state res" where
  "conv_int base fl p =
     bindR (va_num p) (\<lambda>(v, p1).
       let p2 = p1\<lparr>flags := flags p1 \<union> fl\<rparr> in Inr (fmtint v base (mn p2) (mx p2) (flags p2) p2))"

definition conv_fp :: "('f \<Rightarrow> nat \<Rightarrow> bool \<times> u32 \<times> u32) \<Rightarrow> 'f dopr_state \<Rightarrow> 'f dopr_state res" where
  "conv_fp fsplit p = bindR (va_flt p) (\<lambda>(v, p1). Inr (fmtfp fsplit v (mn p1) (mx p1) (flags p1) p1))"

definition conv_str :: "int \<Rightarrow> 'f dopr_state \<Rightarrow> 'f dopr_state res" where
  "conv_str maxlen p =
     bindR (va_str p) (\<lambda>(v, p1).
       let p2 = (if mx p1 < 0 then p1\<lparr>mx := maxlen\<rparr> else p1) in Inr (fmtstr v (flags p2) (mn p2) (mx p2) p2))"

definition conv_n :: "'f dopr_state \<Rightarrow> 'f dopr_state res" where
  "conv_n p =
     bindR (va_num p) (\<lambda>(v, p1). Inr (p1\<lparr>stored := stored p1 @ [(v, cflags p1, currlen p1)]\<rparr>))"

definition conv_switch :: "('f \<Rightarrow> nat \<Rightarrow> bool \<times> u32 \<times> u32) \<Rightarrow> int \<Rightarrow> char \<Rightarrow> 'f dopr_state \<Rightarrow> 'f dopr_state res" where
  "conv_switch fsplit maxlen ch p =
           (if ch = CHR ''d'' \<or> ch = CHR ''i'' then conv_int 10 {} p
            else if ch = CHR ''o'' then conv_int 8 {DP_F_UNSIGNED} p
            else if ch = CHR ''u'' then conv_int 10 {DP_F_UNSIGNED} p
            else if ch = CHR ''X'' then conv_int 16 {DP_F_UP, DP_F_UNSIGNED} p
            else if ch = CHR ''x'' then conv_int 16 {DP_F_UNSIGNED} p
            else if ch = CHR ''f'' then conv_fp fsplit p
            else if ch \<in> {CHR ''E'', CHR ''e'', CHR ''G'', CHR ''g''} then bindR (va_flt p) (\<lambda>(_, p1). Inr p1)
            else if ch = CHR ''c'' then bindR (va_num p) (\<lambda>(v, p1). Inr (dopr_outch (char_of (unat v)) p1))
            else if ch = CHR ''s'' then conv_str maxlen p
            else if ch = CHR ''p'' then conv_int 16 {} p
            else if ch = CHR ''n'' then conv_n p
            else if ch = CHR ''%'' then Inr (dopr_outch ch p)
            else if ch = CHR ''w'' then next_ch p
            else Inr p)"

definition step_conv :: "('f \<Rightarrow> nat \<Rightarrow> bool \<times> u32 \<times> u32) \<Rightarrow> int \<Rightarrow> char \<Rightarrow> 'f dopr_state \<Rightarrow> 'f dopr_state res" where
  "step_conv fsplit maxlen ch p =
     bindR (conv_switch fsplit maxlen ch p) (\<lambda>p1.
     bindR (next_ch p1) (\<lambda>p2.
       Inr (p2\<lparr>state := DP_S_DEFAULT, flags := {}, cflags := DP_C_NONE, mn := 0, mx := - 1\<rparr>)))"

text \<open>One turn of the loop, entered with \<open>state\<close> other than \<open>DP_S_DONE\<close>.\<close>

definition dopr_step :: "('f \<Rightarrow> nat \<Rightarrow> bool \<times> u32 \<times> u32) \<Rightarrow> int \<Rightarrow> 'f dopr_state \<Rightarrow> 'f dopr_state res" where
  "dopr_step fsplit maxlen p =
     (case format p of
        [] \<Rightarrow> Inr (p\<lparr>state := DP_S_DONE\<rparr>)
      | ch # _ \<Rightarrow>
          if currlen p \<ge> maxlen then Inr (p\<lparr>state := DP_S_DONE\<rparr>)
          else (case state p of
              DP_S_DEFAULT \<Rightarrow> step_default ch p
            | DP_S_FLAGS \<Rightarrow> step_flags ch p
            | DP_S_MIN \<Rightarrow> step_min ch p
            | DP_S_DOT \<Rightarrow> step_dot ch p
            | DP_S_MAX \<Rightarrow> step_max ch p
            | DP_S_MOD \<Rightarrow> step_mod ch p
            | DP_S_CONV \<Rightarrow> step_conv fsplit maxlen ch p
            | DP_S_DONE \<Rightarrow> Inr p))"

fun rank :: "dp_state \<Rightarrow> nat" where
  "rank DP_S_DEFAULT = 7" | "rank DP_S_FLAGS = 6" | "rank DP_S_MIN = 5" | "rank DP_S_DOT = 4"
| "rank DP_S_MAX = 3" | "rank DP_S_MOD = 2" | "rank DP_S_CONV = 1" | "rank DP_S_DONE = 0"

lemma dopr_outch_fields [simp]:
  "state (dopr_outch c p) = state p" "format (dopr_outch c p) = format p" "args (dopr_outch c p) = args p"
  "mn (dopr_outch c p) = mn p" "mx (dopr_outch c p) = mx p" "flags (dopr_outch c p) = flags p" "cflags (dopr_outch c p) = cflags p"
  "currlen (dopr_outch c p) = currlen p + 1" "out (dopr_outch c p) = out p @ [c]" "stored (dopr_outch c p) = stored p"
  by (simp_all add: dopr_outch_def)

text \<open>All output goes through \<open>dopr_outch\<close>; a sequence of calls appends a string.\<close>

lemma dopr_outs_eq: "dopr_outs cs p = p\<lparr>currlen := currlen p + int (length cs), out := out p @ cs\<rparr>"
  unfolding dopr_outs_def by (induction cs arbitrary: p) (simp_all add: dopr_outch_def)

lemma pad_left_eq:
  "pad_left padlen cnt m p =
     (let k = nat (min padlen (m - cnt)) in (padlen - int k, cnt + int k, dopr_outs (replicate k CHR '' '') p))"
proof (induction padlen cnt m p rule: pad_left.induct)
  case (1 padlen cnt m p)
  show ?case
  proof (cases "padlen > 0 \<and> cnt < m")
    case True
    define k where "k = nat (min (padlen - 1) (m - (cnt + 1)))"
    have "nat (min padlen (m - cnt)) = Suc k" unfolding k_def using True by linarith
    then show ?thesis using 1 [OF True] True
      by (subst pad_left.simps) (simp add: Let_def k_def [symmetric] dopr_outs_def funpow_swap1)
  next
    case False
    then show ?thesis by (subst pad_left.simps) (auto simp: Let_def dopr_outs_def)
  qed
qed

lemma put_value_eq:
  "put_value cs cnt m p = (let t = take (nat (m - cnt)) cs in (cnt + int (length t), dopr_outs t p))"
proof (induction cs arbitrary: cnt p)
  case (Cons c cs)
  show ?case
  proof (cases "cnt < m")
    case True
    then have "nat (m - cnt) = Suc (nat (m - (cnt + 1)))" by simp
    then show ?thesis using Cons True by (simp add: Let_def dopr_outs_def)
  qed (simp add: Let_def dopr_outs_def)
qed (simp add: Let_def dopr_outs_def)

lemma pad_right_eq:
  "pad_right padlen cnt m p = dopr_outs (replicate (nat (min (- padlen) (m - cnt))) CHR '' '') p"
proof (induction padlen cnt m p rule: pad_right.induct)
  case (1 padlen cnt m p)
  show ?case
  proof (cases "padlen < 0 \<and> cnt < m")
    case True
    have "nat (min (- padlen) (m - cnt)) = Suc (nat (min (- (padlen + 1)) (m - (cnt + 1))))" using True by linarith
    then show ?thesis using 1 [OF True] True by (subst pad_right.simps) (simp add: dopr_outs_def)
  next
    case False
    then show ?thesis by (subst pad_right.simps) (auto simp: dopr_outs_def)
  qed
qed

text \<open>Formatting changes only the output and its count.\<close>

definition appends :: "'f dopr_state \<Rightarrow> 'f dopr_state \<Rightarrow> bool" where
  "appends p p' \<longleftrightarrow> (\<exists>cs. p' = dopr_outs cs p)"

lemma appends_fields:
  assumes "appends p p'"
  shows "state p' = state p" "format p' = format p" "args p' = args p" "mn p' = mn p" "mx p' = mx p" "flags p' = flags p"
    "cflags p' = cflags p" "stored p' = stored p"
  using assms by (auto simp: appends_def dopr_outs_eq)

lemma dopr_outs_append: "dopr_outs cs (dopr_outs ds p) = dopr_outs (ds @ cs) p"
  by (simp add: dopr_outs_def)

lemma appends_refl: "appends p p"
  unfolding appends_def by (intro exI [of _ "[]"]) (simp add: dopr_outs_def)

lemma appends_outs: "appends p q \<Longrightarrow> appends p (dopr_outs cs q)"
  by (auto simp: appends_def dopr_outs_append)

lemma fmtstr_appends: "appends p (fmtstr v fl m1 m2 p)"
  unfolding fmtstr_def Let_def pad_left_eq put_value_eq pad_right_eq case_prod_unfold fst_conv snd_conv
  by (intro appends_outs appends_refl)

lemma fmtint_appends: "appends p (fmtint v b m1 m2 fl p)"
  unfolding fmtint_def Let_def comp_def case_prod_unfold by (intro appends_outs appends_refl)

lemma fmtfp_appends: "appends p (fmtfp fs v m1 m2 fl p)"
proof -
  have "appends p (if b then dopr_outs cs p else dopr_outs ds p)" for b cs ds by (simp add: appends_outs appends_refl)
  then show ?thesis unfolding fmtfp_def Let_def comp_def case_prod_unfold by (intro appends_outs)
qed

lemmas append_fields [simp] =
  appends_fields [OF fmtstr_appends] appends_fields [OF fmtint_appends] appends_fields [OF fmtfp_appends]

lemma next_ch_length: "next_ch p = Inr p' \<Longrightarrow> length (format p') < length (format p)"
  by (auto simp: next_ch_def split: list.splits)

lemma conv_format:
  "conv_int b fl p = Inr p' \<Longrightarrow> format p' = format p" "conv_fp fs p = Inr p' \<Longrightarrow> format p' = format p"
  "conv_str m p = Inr p' \<Longrightarrow> format p' = format p" "conv_n p = Inr p' \<Longrightarrow> format p' = format p"
  "va_num p = Inr (v, p') \<Longrightarrow> format p' = format p" "va_flt p = Inr (f, p') \<Longrightarrow> format p' = format p"
  by (auto simp: conv_int_def conv_fp_def conv_str_def conv_n_def va_num_def va_flt_def va_str_def Let_def
      split: list.splits arg.splits if_splits)

definition no_longer :: "'f dopr_state \<Rightarrow> 'f dopr_state res \<Rightarrow> bool" where
  "no_longer p m \<longleftrightarrow> (\<forall>p'. m = Inr p' \<longrightarrow> length (format p') \<le> length (format p))"

lemma no_longer_intros:
  "no_longer p m1 \<Longrightarrow> no_longer p m2 \<Longrightarrow> no_longer p (if b then m1 else m2)"
  "no_longer p (conv_int bs fl p)" "no_longer p (conv_fp fs p)" "no_longer p (conv_str mm p)" "no_longer p (conv_n p)"
  "no_longer p (next_ch p)" "no_longer p (Inr p)" "no_longer p (Inr (dopr_outch c p))"
  "no_longer p (bindR (va_flt p) (\<lambda>(_, p1). Inr p1))" "no_longer p (bindR (va_num p) (\<lambda>(v, p1). Inr (dopr_outch (g v) p1)))"
  by (auto simp: no_longer_def bindR_Inr_conv dest: conv_format next_ch_length)

lemma conv_switch_length: "conv_switch fs m ch p = Inr p' \<Longrightarrow> length (format p') \<le> length (format p)"
proof -
  have "no_longer p (conv_switch fs m ch p)" unfolding conv_switch_def by (intro no_longer_intros)
  then show "conv_switch fs m ch p = Inr p' \<Longrightarrow> ?thesis" by (simp add: no_longer_def)
qed

lemma step_conv_length: "step_conv fs m ch p = Inr p' \<Longrightarrow> length (format p') < length (format p)"
  by (auto simp: step_conv_def bindR_Inr_conv dest!: next_ch_length conv_switch_length)

lemma dopr_step_decreases:
  assumes "state p \<noteq> DP_S_DONE" "dopr_step fs m p = Inr p'"
  shows "length (format p') < length (format p) \<or> length (format p') = length (format p) \<and> rank (state p') < rank (state p)"
proof (cases "format p = [] \<or> currlen p \<ge> m")
  case True
  then show ?thesis using assms by (cases "state p") (auto simp: dopr_step_def split: list.splits)
next
  case False
  then obtain ch r where "format p = ch # r" "\<not> currlen p \<ge> m" by (cases "format p") auto
  then show ?thesis using assms
    by (cases "state p")
      (auto simp: dopr_step_def step_default_def step_flags_def step_min_def step_dot_def step_max_def step_mod_def bindR_Inr_conv
        dest!: next_ch_length step_conv_length conv_format split: if_splits)
qed

function dopr_loop :: "('f \<Rightarrow> nat \<Rightarrow> bool \<times> u32 \<times> u32) \<Rightarrow> int \<Rightarrow> 'f dopr_state \<Rightarrow> 'f dopr_state res" where
  "dopr_loop fsplit maxlen p =
     (if state p = DP_S_DONE then Inr p
      else case dopr_step fsplit maxlen p of Inl e \<Rightarrow> Inl e | Inr p' \<Rightarrow> dopr_loop fsplit maxlen p')"
  by pat_completeness auto
termination
  by (relation "measures [\<lambda>(fs, m, p). length (format p), \<lambda>(fs, m, p). rank (state p)]") (auto dest: dopr_step_decreases)

declare dopr_loop.simps [simp del]

definition dopr_start :: "string \<Rightarrow> 'f arg list \<Rightarrow> 'f dopr_state" where
  "dopr_start fmt as =
     \<lparr>state = DP_S_DEFAULT, format = fmt, args = as, mn = 0, mx = - 1, flags = {}, cflags = DP_C_NONE, currlen = 0, out = [], stored = []\<rparr>"

definition dopr :: "('f \<Rightarrow> nat \<Rightarrow> bool \<times> u32 \<times> u32) \<Rightarrow> int \<Rightarrow> string \<Rightarrow> 'f arg list \<Rightarrow> 'f dopr_state res" where
  "dopr fsplit maxlen fmt as = dopr_loop fsplit maxlen (dopr_start fmt as)"

definition vsnprintf :: "('f \<Rightarrow> nat \<Rightarrow> bool \<times> u32 \<times> u32) \<Rightarrow> int \<Rightarrow> string \<Rightarrow> 'f arg list \<Rightarrow> string res" where
  "vsnprintf fsplit maxlen fmt as = mapR out (dopr fsplit maxlen fmt as)"

section \<open>Numbers\<close>

text \<open>The reference printer, by recursion on the quotient, and the reader that inverts it.\<close>

definition digit_of :: "bool \<Rightarrow> nat \<Rightarrow> char" where
  "digit_of caps n = (if caps then ''0123456789ABCDEF'' else ''0123456789abcdef'') ! n"

fun show_base :: "bool \<Rightarrow> nat \<Rightarrow> nat \<Rightarrow> string" where
  "show_base caps b n = (if n < b \<or> b < 2 then [digit_of caps n] else show_base caps b (n div b) @ [digit_of caps (n mod b)])"

declare show_base.simps [simp del]

definition digit_val :: "char \<Rightarrow> nat" where
  "digit_val c = (let k = of_char c :: nat in if k < 58 then k - 48 else if k < 71 then k - 55 else k - 87)"

definition read_base :: "nat \<Rightarrow> string \<Rightarrow> nat" where
  "read_base b cs = foldl (\<lambda>n c. b * n + digit_val c) 0 cs"

lemma digit_val_of: "n < 16 \<Longrightarrow> digit_val (digit_of caps n) = n"
proof -
  assume "n < 16"
  then have "n \<in> set [0 ..< 16]" by simp
  then show ?thesis by (auto simp: digit_of_def digit_val_def upt_rec Let_def)
qed

lemma read_show: "2 \<le> b \<Longrightarrow> b \<le> 16 \<Longrightarrow> read_base b (show_base caps b n) = n"
proof (induction caps b n rule: show_base.induct)
  case (1 caps b n)
  show ?case
  proof (cases "n < b")
    case True
    then show ?thesis using 1(2,3) by (subst show_base.simps) (simp add: read_base_def digit_val_of)
  next
    case False
    have "n mod b < 16" using 1(2,3) mod_less_divisor [of b n] by linarith
    moreover have "read_base b (show_base caps b (n div b)) = n div b" using 1 False by simp
    ultimately show ?thesis using False 1(2) by (subst show_base.simps) (simp add: read_base_def digit_val_of mult.commute)
  qed
qed

lemma convert_loop_show:
  assumes "2 \<le> unat base" "0 < n"
  shows "unat u < unat base ^ n \<Longrightarrow> rev (convert_loop n caps base u) = show_base caps (unat base) (unat u)"
  using assms(2)
proof (induction n arbitrary: u)
  case (Suc n)
  have d: "digit_char caps (u mod base) = digit_of caps (unat u mod unat base)" by (simp add: digit_char_def digit_of_def unat_mod)
  have z: "u div base = 0 \<longleftrightarrow> unat u < unat base"
    using assms(1) by (auto simp: unat_eq_0 [symmetric] unat_div div_eq_0_iff)
  show ?case
  proof (cases "unat u < unat base")
    case True
    then show ?thesis using z d by (subst show_base.simps) simp
  next
    case False
    have lt: "unat (u div base) < unat base ^ n"
      using Suc.prems(1) assms(1) by (simp add: unat_div div_less_iff_less_mult mult.commute)
    moreover have "0 < n" using lt False z by (cases n) (auto simp: unat_eq_0)
    ultimately have "rev (convert_loop n caps base (u div base)) = show_base caps (unat base) (unat (u div base))"
      using Suc.IH by blast
    then show ?thesis using False z d assms(1) by (subst show_base.simps) (simp add: unat_div)
  qed
qed simp

lemma convert_loop_length: "2 \<le> unat base \<Longrightarrow> 0 < n \<Longrightarrow> unat u < unat base ^ n \<Longrightarrow> length (convert_loop k caps base u) \<le> n"
proof (induction k arbitrary: u n)
  case (Suc k)
  show ?case
  proof (cases "u div base = 0")
    case False
    have lt: "unat (u div base) < unat base ^ (n - 1)"
      using Suc.prems by (cases n) (auto simp: unat_div div_less_iff_less_mult mult.commute)
    moreover have "0 < n - 1" using lt False by (cases "n - 1") (auto simp: unat_eq_0)
    ultimately have "Suc (length (convert_loop k caps base (u div base))) \<le> n"
      using Suc.IH [of "n - 1" "u div base"] Suc.prems(1) by linarith
    then show ?thesis by simp
  qed (use Suc.prems in simp)
qed (use le0 in simp)

lemma converted_show:
  assumes "8 \<le> unat base"
  shows "rev (converted caps base u) = show_base caps (unat base) (unat u)"
proof -
  have "(8 :: nat) ^ 11 \<le> unat base ^ 11" using assms by (rule power_mono) simp
  then have "(2 :: nat) ^ 32 \<le> unat base ^ 11" by simp
  then have b: "unat u < unat base ^ 11" using unat_u32_less [of u] by (rule less_le_trans [rotated])
  have l: "length (convert_loop 20 caps base u) \<le> 11" by (rule convert_loop_length) (use assms b in simp_all)
  have "unat base ^ 11 \<le> unat base ^ 20" using assms by (intro power_increasing) simp_all
  then have "unat u < unat base ^ 20" using b by (rule less_le_trans [rotated])
  then show ?thesis using convert_loop_show [of base 20 u caps] assms l by (simp add: converted_def Let_def)
qed

text \<open>The text of an integer conversion: sign and digits, with zeros before the digits and blanks on either side.\<close>

definition int_digits :: "u32 \<Rightarrow> nat \<Rightarrow> nat set \<Rightarrow> string" where
  "int_digits val b fl =
     show_base (DP_F_UP \<in> fl) b (if DP_F_UNSIGNED \<notin> fl \<and> sint val < 0 then nat (- sint val) else unat val)"

definition int_sign :: "u32 \<Rightarrow> nat set \<Rightarrow> string" where
  "int_sign val fl = (if DP_F_UNSIGNED \<in> fl then '''' else sign_chars (sint val < 0) fl)"

lemma unat_minus_sint: "sint (v :: u32) < 0 \<Longrightarrow> unat (- v) = nat (- sint v)"
proof -
  assume n: "sint v < 0"
  have r: "- (2 ^ 31) \<le> sint v" "sint v < 2 ^ 31" using sint_range_size [of v] by (simp_all add: word_size)
  have "uint (- v) = (- sint v) mod 2 ^ 32"
  proof -
    have "- v = of_int (- sint v)" by simp
    then show ?thesis by (simp only: uint_word_of_int) simp
  qed
  also have "\<dots> = - sint v" using n r by (intro mod_pos_pos_trivial) simp_all
  finally show ?thesis by (metis nat_uint_eq)
qed

lemma unat_sint: "\<not> sint (v :: u32) < 0 \<Longrightarrow> int (unat v) = sint v"
proof -
  assume n: "\<not> sint v < 0"
  have r: "sint v < 2 ^ 31" using sint_range_size [of v] by (simp add: word_size)
  have "uint v = uint (of_int (sint v) :: u32)" by simp
  also have "\<dots> = sint v mod 2 ^ 32" by (simp only: uint_word_of_int) simp
  also have "\<dots> = sint v" using n r by (intro mod_pos_pos_trivial) simp_all
  finally show ?thesis by simp
qed

definition int_text :: "u32 \<Rightarrow> nat \<Rightarrow> int \<Rightarrow> int \<Rightarrow> nat set \<Rightarrow> string" where
  "int_text val b min' max' fl =
     (let s = int_sign val fl; d = int_digits val b fl;
          zeros = nat (max' - int (length d));
          pad = nat (min' - max max' (int (length d)) - int (length s))
      in if DP_F_ZERO \<in> fl then s @ replicate (max zeros pad) CHR ''0'' @ d
         else if DP_F_MINUS \<in> fl then s @ replicate zeros CHR ''0'' @ d @ replicate pad CHR '' ''
         else replicate pad CHR '' '' @ s @ replicate zeros CHR ''0'' @ d)"

lemma pad_reduce:
  fixes m place :: int
  assumes "0 \<le> place"
  shows "nat (if (if m < 0 then 0 else m) - place < 0 then 0 else (if m < 0 then 0 else m) - place) = nat (m - place)"
    "nat (if mn0 - max (if m < 0 then 0 else m) place - sl < 0 then 0 else mn0 - max (if m < 0 then 0 else m) place - sl) =
      nat (mn0 - max m place - sl)"
  using assms by (auto simp: max_def)

lemma fmtint_out:
  assumes "8 \<le> unat base"
  shows "fmtint val base min' max' fl p = dopr_outs (int_text val (unat base) min' max' fl) p"
proof -
  let ?u = "if DP_F_UNSIGNED \<notin> fl \<and> sint val < 0 then - val else val"
  have dg: "rev (converted (DP_F_UP \<in> fl) base ?u) = int_digits val (unat base) fl"
    by (simp add: converted_show [OF assms] int_digits_def unat_minus_sint)
  have len: "length (converted (DP_F_UP \<in> fl) base ?u) = length (int_digits val (unat base) fl)"
    using arg_cong [OF dg, of length] by simp
  have sg: "(if DP_F_UNSIGNED \<notin> fl then sign_chars (sint val < 0) fl else '''') = int_sign val fl" by (simp add: int_sign_def)
  define place where "place = int (length (int_digits val (unat base) fl))"
  define sl where "sl = int (length (int_sign val fl))"
  define m where "m = (if max' < 0 then 0 else max')"
  define z1 where "z1 = (if m - place < 0 then 0 else m - place)"
  define s1 where "s1 = (if min' - max m place - sl < 0 then 0 else min' - max m place - sl)"
  have nn: "0 \<le> place" "0 \<le> z1" "0 \<le> s1" by (simp_all add: place_def z1_def s1_def)
  have n: "nat (max' - place) = nat z1" "nat (min' - max max' place - sl) = nat s1"
    using nn(1) unfolding z1_def s1_def m_def by (simp_all only: pad_reduce)
  have z: "nat (max z1 s1) = max (nat z1) (nat s1)" by (simp add: max_def)
  show ?thesis
    unfolding fmtint_def int_text_def Let_def comp_def sg dg len place_def [symmetric] sl_def [symmetric] m_def [symmetric]
      z1_def [symmetric] s1_def [symmetric] n
    using nn by (simp add: dopr_outs_append z)
qed

text \<open>The text of a string conversion: the padded string, cut to \<open>max\<close>.\<close>

definition str_text :: "string option \<Rightarrow> nat set \<Rightarrow> int \<Rightarrow> int \<Rightarrow> string" where
  "str_text v fl min' max' =
     (let s = (case v of None \<Rightarrow> ''<NULL>'' | Some s \<Rightarrow> s); pad = replicate (nat (min' - int (length s))) CHR '' ''
      in take (nat max') (if DP_F_MINUS \<in> fl then s @ pad else pad @ s))"

lemma fmtstr_out: "fmtstr v fl min' max' p = dopr_outs (str_text v fl min' max') p"
proof -
  define s where "s = (case v of None \<Rightarrow> ''<NULL>'' | Some s \<Rightarrow> s)"
  define k where "k = nat (min' - int (length s))"
  have k: "(if min' - int (length s) < 0 then 0 else min' - int (length s)) = int k" by (simp add: k_def)
  show ?thesis
  proof (cases "DP_F_MINUS \<in> fl")
    case True
    have l: "nat (min (- int k) max') = 0" by simp
    have "take (nat max') (s @ replicate k CHR '' '') =
        take (nat max') s @ replicate (nat (min (int k) (max' - int (min (length s) (nat max'))))) CHR '' ''"
      by (auto simp: min_def max_def)
    then show ?thesis using True
      unfolding fmtstr_def str_text_def s_def [symmetric] Let_def k k_def [symmetric] pad_left_eq put_value_eq pad_right_eq
      by (simp add: l dopr_outs_append)
  next
    case False
    have r: "int k - int (nat (min (int k) max')) \<ge> 0" by simp
    then have "nat (min (- (int k - int (nat (min (int k) max')))) b) = 0" for b by simp
    moreover have "take (nat max') (replicate k CHR '' '' @ s) =
        replicate (nat (min (int k) max')) CHR '' '' @ take (nat (max' - int (nat (min (int k) max')))) s"
      by (auto simp: min_def nat_diff_distrib')
    ultimately show ?thesis using False
      unfolding fmtstr_def str_text_def s_def [symmetric] Let_def k k_def [symmetric] pad_left_eq put_value_eq pad_right_eq
      by (simp add: dopr_outs_append)
  qed
qed

section \<open>Directives\<close>

text \<open>
  A directive of the format language: flags, the digits of the field width, the digits behind a point, a size modifier and
  the conversion character.
\<close>

datatype directive =
  Directive (dflags: string) (dwidth: string) (dprec: "string option") (dmod: "char option") (dconv: char)

definition directive_chars :: "directive \<Rightarrow> string" where
  "directive_chars d = CHR ''%'' # dflags d @ dwidth d @ (case dprec d of None \<Rightarrow> '''' | Some q \<Rightarrow> CHR ''.'' # q) @
     (case dmod d of None \<Rightarrow> '''' | Some c \<Rightarrow> [c]) @ [dconv d]"

definition flag_chars :: "char set" where
  "flag_chars = {CHR ''-'', CHR ''+'', CHR '' '', CHR ''#'', CHR ''0''}"

definition conv_chars :: "char set" where
  "conv_chars = {CHR ''d'', CHR ''i'', CHR ''o'', CHR ''u'', CHR ''x'', CHR ''X'', CHR ''p'', CHR ''c'', CHR ''s'', CHR ''%''}"

definition mod_chars :: "char set" where
  "mod_chars = {CHR ''h'', CHR ''l'', CHR ''L''}"

definition wf_directive :: "directive \<Rightarrow> bool" where
  "wf_directive d \<longleftrightarrow>
     (\<forall>c \<in> set (dflags d). c \<in> flag_chars) \<and>
     (\<forall>c \<in> set (dwidth d). isdigit c) \<and> (dwidth d \<noteq> [] \<longrightarrow> hd (dwidth d) \<noteq> CHR ''0'') \<and>
     (\<forall>q. dprec d = Some q \<longrightarrow> (\<forall>c \<in> set q. isdigit c)) \<and>
     (\<forall>c. dmod d = Some c \<longrightarrow> c \<in> mod_chars) \<and> dconv d \<in> conv_chars"

definition flag_of :: "char \<Rightarrow> nat" where
  "flag_of c = (if c = CHR ''-'' then DP_F_MINUS else if c = CHR ''+'' then DP_F_PLUS else if c = CHR '' '' then DP_F_SPACE
     else if c = CHR ''#'' then DP_F_NUM else DP_F_ZERO)"

definition number_of :: "int \<Rightarrow> string \<Rightarrow> int" where
  "number_of n cs = foldl (\<lambda>n c. 10 * n + char_to_int c) n cs"

definition mod_of :: "char option \<Rightarrow> dp_c" where
  "mod_of m = (case m of None \<Rightarrow> DP_C_NONE | Some c \<Rightarrow>
     if c = CHR ''h'' then DP_C_SHORT else if c = CHR ''l'' then DP_C_LONG else DP_C_LDOUBLE)"

definition prec_of :: "string option \<Rightarrow> int" where
  "prec_of q = (case q of None \<Rightarrow> - 1 | Some cs \<Rightarrow> if cs = [] then - 1 else number_of 0 cs)"

lemma isdigit_others:
  "\<not> isdigit CHR ''.''" "\<not> isdigit CHR ''*''" "c \<in> conv_chars \<Longrightarrow> \<not> isdigit c" "c \<in> mod_chars \<Longrightarrow> \<not> isdigit c"
  "isdigit c \<Longrightarrow> c \<in> flag_chars \<Longrightarrow> c = CHR ''0''" "isdigit CHR ''0''"
  by (auto simp: isdigit_def conv_chars_def mod_chars_def flag_chars_def)

lemma char_to_int_nonneg: "isdigit c \<Longrightarrow> 0 \<le> char_to_int c"
proof -
  assume "isdigit c"
  then have "int 48 \<le> int (of_char c)" by (simp only: of_nat_le_iff isdigit_def)
  then show ?thesis by (simp only: of_nat_of_char) (simp add: char_to_int_def)
qed

lemma loop_step: "state p \<noteq> DP_S_DONE \<Longrightarrow> dopr_step fs m p = Inr p' \<Longrightarrow> dopr_loop fs m p = dopr_loop fs m p'"
  by (subst dopr_loop.simps) simp

lemma same_format: "format p = r \<Longrightarrow> p\<lparr>format := r\<rparr> = p"
  by (cases p) simp

text \<open>What each state does with the characters it accepts.\<close>

lemma loop_flags:
  "state p = DP_S_FLAGS \<Longrightarrow> currlen p < m \<Longrightarrow> format p = cs @ r \<Longrightarrow> \<forall>c \<in> set cs. c \<in> flag_chars \<Longrightarrow>
    dopr_loop fs m p = dopr_loop fs m (p\<lparr>format := r, flags := flags p \<union> flag_of ` set cs\<rparr>)"
proof (induction cs arbitrary: p)
  case (Cons c cs)
  have "dopr_step fs m p = Inr (p\<lparr>format := cs @ r, flags := insert (flag_of c) (flags p)\<rparr>)"
    using Cons.prems by (auto simp: dopr_step_def step_flags_def next_ch_def flag_of_def flag_chars_def)
  then have "dopr_loop fs m p = dopr_loop fs m (p\<lparr>format := cs @ r, flags := insert (flag_of c) (flags p)\<rparr>)"
    using Cons.prems(1) by (intro loop_step) simp_all
  also have "\<dots> = dopr_loop fs m (p\<lparr>format := r, flags := flags p \<union> flag_of ` set (c # cs)\<rparr>)"
    using Cons.IH [of "p\<lparr>format := cs @ r, flags := insert (flag_of c) (flags p)\<rparr>"] Cons.prems by simp
  finally show ?case .
qed (simp add: same_format)

lemma loop_min:
  "state p = DP_S_MIN \<Longrightarrow> currlen p < m \<Longrightarrow> format p = cs @ r \<Longrightarrow> \<forall>c \<in> set cs. isdigit c \<Longrightarrow>
    dopr_loop fs m p = dopr_loop fs m (p\<lparr>format := r, mn := number_of (mn p) cs\<rparr>)"
proof (induction cs arbitrary: p)
  case (Cons c cs)
  let ?q = "p\<lparr>format := cs @ r, mn := 10 * mn p + char_to_int c\<rparr>"
  have "dopr_step fs m p = Inr ?q" using Cons.prems by (simp add: dopr_step_def step_min_def next_ch_def)
  then have "dopr_loop fs m p = dopr_loop fs m ?q" using Cons.prems(1) by (intro loop_step) simp_all
  then show ?case using Cons.IH [of ?q] Cons.prems by (simp add: number_of_def)
qed (simp add: number_of_def same_format)

lemma loop_max:
  "state p = DP_S_MAX \<Longrightarrow> currlen p < m \<Longrightarrow> format p = cs @ r \<Longrightarrow> \<forall>c \<in> set cs. isdigit c \<Longrightarrow>
    dopr_loop fs m p = dopr_loop fs m (p\<lparr>format := r, mx := if cs = [] then mx p else number_of (max 0 (mx p)) cs\<rparr>)"
proof (induction cs arbitrary: p)
  case (Cons c cs)
  let ?q = "p\<lparr>format := cs @ r, mx := 10 * max 0 (mx p) + char_to_int c\<rparr>"
  have "(if mx p < 0 then 0 else mx p) = max 0 (mx p)" by simp
  then have "dopr_step fs m p = Inr ?q" using Cons.prems by (simp add: dopr_step_def step_max_def next_ch_def)
  then have "dopr_loop fs m p = dopr_loop fs m ?q" using Cons.prems(1) by (intro loop_step) simp_all
  moreover have "max 0 (10 * max 0 (mx p) + char_to_int c) = 10 * max 0 (mx p) + char_to_int c"
    using char_to_int_nonneg [of c] Cons.prems(4) by simp
  ultimately show ?case using Cons.IH [of ?q] Cons.prems by (simp add: number_of_def)
qed (simp add: same_format)

text \<open>Transitions that consume nothing or one character.\<close>

lemma loop_transitions:
  "state p = DP_S_DEFAULT \<Longrightarrow> currlen p < m \<Longrightarrow> format p = CHR ''%'' # r \<Longrightarrow>
    dopr_loop fs m p = dopr_loop fs m (p\<lparr>format := r, state := DP_S_FLAGS\<rparr>)"
  "state p = DP_S_FLAGS \<Longrightarrow> currlen p < m \<Longrightarrow> format p = c # r \<Longrightarrow> c \<notin> flag_chars \<Longrightarrow>
    dopr_loop fs m p = dopr_loop fs m (p\<lparr>state := DP_S_MIN\<rparr>)"
  "state p = DP_S_MIN \<Longrightarrow> currlen p < m \<Longrightarrow> format p = c # r \<Longrightarrow> \<not> isdigit c \<Longrightarrow> c \<noteq> CHR ''*'' \<Longrightarrow>
    dopr_loop fs m p = dopr_loop fs m (p\<lparr>state := DP_S_DOT\<rparr>)"
  "state p = DP_S_DOT \<Longrightarrow> currlen p < m \<Longrightarrow> format p = CHR ''.'' # r \<Longrightarrow>
    dopr_loop fs m p = dopr_loop fs m (p\<lparr>format := r, state := DP_S_MAX\<rparr>)"
  "state p = DP_S_DOT \<Longrightarrow> currlen p < m \<Longrightarrow> format p = c # r \<Longrightarrow> c \<noteq> CHR ''.'' \<Longrightarrow>
    dopr_loop fs m p = dopr_loop fs m (p\<lparr>state := DP_S_MOD\<rparr>)"
  "state p = DP_S_MAX \<Longrightarrow> currlen p < m \<Longrightarrow> format p = c # r \<Longrightarrow> \<not> isdigit c \<Longrightarrow> c \<noteq> CHR ''*'' \<Longrightarrow>
    dopr_loop fs m p = dopr_loop fs m (p\<lparr>state := DP_S_MOD\<rparr>)"
  "state p = DP_S_MOD \<Longrightarrow> currlen p < m \<Longrightarrow> format p = c # r \<Longrightarrow> c \<in> mod_chars \<Longrightarrow>
    dopr_loop fs m p = dopr_loop fs m (p\<lparr>format := r, cflags := mod_of (Some c), state := DP_S_CONV\<rparr>)"
  "state p = DP_S_MOD \<Longrightarrow> currlen p < m \<Longrightarrow> format p = c # r \<Longrightarrow> c \<notin> mod_chars \<Longrightarrow>
    dopr_loop fs m p = dopr_loop fs m (p\<lparr>state := DP_S_CONV\<rparr>)"
  "state p = DP_S_CONV \<Longrightarrow> currlen p < m \<Longrightarrow> format p = c # r \<Longrightarrow> step_conv fs m c p = Inr p' \<Longrightarrow>
    dopr_loop fs m p = dopr_loop fs m p'"
  by (rule loop_step; auto simp: dopr_step_def step_default_def step_flags_def step_min_def step_dot_def step_max_def step_mod_def
      next_ch_def flag_chars_def mod_chars_def mod_of_def)+

lemma conv_not_other:
  "c \<in> conv_chars \<Longrightarrow> c \<notin> flag_chars" "c \<in> conv_chars \<Longrightarrow> c \<notin> mod_chars" "c \<in> mod_chars \<Longrightarrow> c \<notin> flag_chars"
  "c \<in> conv_chars \<Longrightarrow> c \<noteq> CHR ''*''" "c \<in> mod_chars \<Longrightarrow> c \<noteq> CHR ''*''" "c \<in> conv_chars \<Longrightarrow> c \<noteq> CHR ''.''"
  "c \<in> mod_chars \<Longrightarrow> c \<noteq> CHR ''.''" "CHR ''.'' \<notin> flag_chars"
  by (auto simp: conv_chars_def flag_chars_def mod_chars_def)

text \<open>From the modifier on.\<close>

lemma loop_mod:
  assumes "state p = DP_S_MOD" "currlen p < m" "cflags p = DP_C_NONE" "c \<in> conv_chars" "\<forall>x. md = Some x \<longrightarrow> x \<in> mod_chars"
    "format p = (case md of None \<Rightarrow> '''' | Some x \<Rightarrow> [x]) @ c # r"
  shows "dopr_loop fs m p = dopr_loop fs m (p\<lparr>format := c # r, cflags := mod_of md, state := DP_S_CONV\<rparr>)"
proof (cases md)
  case None
  have "p\<lparr>format := c # r, cflags := mod_of md, state := DP_S_CONV\<rparr> = p\<lparr>state := DP_S_CONV\<rparr>"
    using assms None by (cases p) (simp add: mod_of_def)
  then show ?thesis using assms None loop_transitions(8) [of p m c r fs] conv_not_other(2) by simp
next
  case (Some x)
  then show ?thesis using assms loop_transitions(7) [of p m x "c # r" fs] by simp
qed

lemma loop_prec:
  assumes "state p = DP_S_DOT" "currlen p < m" "mx p = - 1" "\<forall>q. pr = Some q \<longrightarrow> (\<forall>x \<in> set q. isdigit x)"
    "format p = (case pr of None \<Rightarrow> '''' | Some q \<Rightarrow> CHR ''.'' # q) @ c # r" "c \<in> conv_chars \<union> mod_chars"
  shows "dopr_loop fs m p = dopr_loop fs m (p\<lparr>format := c # r, mx := prec_of pr, state := DP_S_MOD\<rparr>)"
proof (cases pr)
  case None
  have "p\<lparr>format := c # r, mx := prec_of pr, state := DP_S_MOD\<rparr> = p\<lparr>state := DP_S_MOD\<rparr>"
    using assms None by (cases p) (simp add: prec_of_def)
  then show ?thesis using assms None loop_transitions(5) [of p m c r fs] conv_not_other(6,7) by auto
next
  case (Some q)
  let ?p1 = "p\<lparr>format := q @ c # r, state := DP_S_MAX\<rparr>"
  have nc: "\<not> isdigit c" "c \<noteq> CHR ''*''" using assms(6) isdigit_others(3,4) [of c] conv_not_other(4,5) [of c] by blast+
  let ?p2 = "?p1\<lparr>format := c # r, mx := if q = [] then mx ?p1 else number_of (max 0 (mx ?p1)) q\<rparr>"
  have "dopr_loop fs m p = dopr_loop fs m ?p1" using assms Some by (intro loop_transitions(4)) simp_all
  also have "\<dots> = dopr_loop fs m ?p2" using assms Some by (intro loop_max) simp_all
  also have "\<dots> = dopr_loop fs m (?p2\<lparr>state := DP_S_MOD\<rparr>)"
    using assms Some nc by (intro loop_transitions(6) [where c = c and r = r]) simp_all
  also have "?p2\<lparr>state := DP_S_MOD\<rparr> = p\<lparr>format := c # r, mx := prec_of pr, state := DP_S_MOD\<rparr>"
    using assms(3) Some by (simp add: prec_of_def)
  finally show ?thesis .
qed

definition clean :: "'f dopr_state \<Rightarrow> bool" where
  "clean p \<longleftrightarrow> state p = DP_S_DEFAULT \<and> flags p = {} \<and> cflags p = DP_C_NONE \<and> mn p = 0 \<and> mx p = - 1"

definition at_conv :: "directive \<Rightarrow> string \<Rightarrow> 'f dopr_state \<Rightarrow> 'f dopr_state" where
  "at_conv d r p = p\<lparr>state := DP_S_CONV, format := dconv d # r, mn := number_of 0 (dwidth d), mx := prec_of (dprec d),
     flags := flag_of ` set (dflags d), cflags := mod_of (dmod d)\<rparr>"

lemma loop_directive:
  assumes "clean p" "wf_directive d" "format p = directive_chars d @ r" "currlen p < m"
  shows "dopr_loop fs m p = dopr_loop fs m (at_conv d r p)"
proof -
  let ?md = "case dmod d of None \<Rightarrow> '''' | Some x \<Rightarrow> [x]"
  let ?pr = "case dprec d of None \<Rightarrow> '''' | Some q \<Rightarrow> CHR ''.'' # q"
  define t4 where "t4 = ?md @ dconv d # r"
  define t3 where "t3 = ?pr @ t4"
  define t2 where "t2 = dwidth d @ t3"
  define t1 where "t1 = dflags d @ t2"
  note c = assms(1)[unfolded clean_def] and w = assms(2)[unfolded wf_directive_def]
  obtain c4 r4 where t4: "t4 = c4 # r4" "c4 \<in> conv_chars \<union> mod_chars" using w by (cases "dmod d") (auto simp: t4_def)
  obtain c3 r3 where t3: "t3 = c3 # r3" "c3 \<in> conv_chars \<union> mod_chars \<union> {CHR ''.''}"
    using t4 by (cases "dprec d") (auto simp: t3_def)
  have n3: "\<not> isdigit c3" "c3 \<noteq> CHR ''*''" "c3 \<notin> flag_chars"
    using t3(2) isdigit_others(3,4) [of c3] isdigit_others(1) conv_not_other(1-7) [of c3] conv_not_other(8) by auto
  obtain c2 r2 where t2: "t2 = c2 # r2" "c2 \<notin> flag_chars"
    using w t3 n3(3) isdigit_others(5) by (cases "dwidth d") (auto simp: t2_def)
  let ?p1 = "p\<lparr>format := t1, state := DP_S_FLAGS\<rparr>"
  let ?p2 = "?p1\<lparr>format := t2, flags := flags ?p1 \<union> flag_of ` set (dflags d)\<rparr>"
  let ?p3 = "?p2\<lparr>state := DP_S_MIN\<rparr>"
  let ?p4 = "?p3\<lparr>format := t3, mn := number_of (mn ?p3) (dwidth d)\<rparr>"
  let ?p5 = "?p4\<lparr>state := DP_S_DOT\<rparr>"
  let ?p6 = "?p5\<lparr>format := c4 # r4, mx := prec_of (dprec d), state := DP_S_MOD\<rparr>"
  let ?p7 = "?p6\<lparr>format := dconv d # r, cflags := mod_of (dmod d), state := DP_S_CONV\<rparr>"
  have "format p = CHR ''%'' # t1" using assms(3) by (simp add: directive_chars_def t1_def t2_def t3_def t4_def)
  then have "dopr_loop fs m p = dopr_loop fs m ?p1" using c assms(4) by (intro loop_transitions(1)) simp_all
  also have "\<dots> = dopr_loop fs m ?p2" using w assms(4) by (intro loop_flags) (simp_all add: t1_def)
  also have "\<dots> = dopr_loop fs m ?p3" using assms(4) t2 by (intro loop_transitions(2)) simp_all
  also have "\<dots> = dopr_loop fs m ?p4" using w assms(4) by (intro loop_min) (simp_all add: t2_def)
  also have "\<dots> = dopr_loop fs m ?p5" using assms(4) n3 t3(1) by (intro loop_transitions(3)) simp_all
  also have "\<dots> = dopr_loop fs m ?p6" using c w assms(4) t4 by (intro loop_prec) (simp_all add: t3_def)
  also have "\<dots> = dopr_loop fs m ?p7" using c w assms(4) t4(1) by (intro loop_mod) (simp_all add: t4_def)
  also have "?p7 = at_conv d r p" using c by (simp add: at_conv_def)
  finally show ?thesis .
qed

text \<open>What a directive prints for its argument, if the argument has the kind that the conversion takes.\<close>

definition num_text :: "char \<Rightarrow> u32 \<Rightarrow> int \<Rightarrow> int \<Rightarrow> nat set \<Rightarrow> string option" where
  "num_text c v w q fl =
     (if c = CHR ''d'' \<or> c = CHR ''i'' then Some (int_text v 10 w q fl)
      else if c = CHR ''o'' then Some (int_text v 8 w q (insert DP_F_UNSIGNED fl))
      else if c = CHR ''u'' then Some (int_text v 10 w q (insert DP_F_UNSIGNED fl))
      else if c = CHR ''X'' then Some (int_text v 16 w q (insert DP_F_UP (insert DP_F_UNSIGNED fl)))
      else if c = CHR ''x'' then Some (int_text v 16 w q (insert DP_F_UNSIGNED fl))
      else if c = CHR ''p'' then Some (int_text v 16 w q fl)
      else if c = CHR ''c'' then Some [char_of (unat v)]
      else None)"

definition directive_text :: "int \<Rightarrow> directive \<Rightarrow> 'f arg list \<Rightarrow> string option" where
  "directive_text maxlen d as =
     (let fl = flag_of ` set (dflags d); w = number_of 0 (dwidth d); q = prec_of (dprec d) in
      case as of
        [] \<Rightarrow> if dconv d = CHR ''%'' then Some ''%'' else None
      | [ANum v] \<Rightarrow> num_text (dconv d) v w q fl
      | [AStr s] \<Rightarrow> if dconv d = CHR ''s'' then Some (str_text s fl w (if q < 0 then maxlen else q)) else None
      | _ \<Rightarrow> None)"

definition finished :: "string \<Rightarrow> string \<Rightarrow> 'f arg list \<Rightarrow> 'f dopr_state \<Rightarrow> 'f dopr_state" where
  "finished t r as p = (dopr_outs t p)\<lparr>state := DP_S_DEFAULT, format := r, args := as, mn := 0, mx := - 1, flags := {}, cflags := DP_C_NONE\<rparr>"

lemma step_conv_finished:
  assumes "conv_switch fs m c p = Inr p1" "format p1 = c # r" "currlen p1 = currlen p + int (length t)" "out p1 = out p @ t"
    "stored p1 = stored p"
  shows "step_conv fs m c p = Inr (finished t r (args p1) p)"
  using assms by (cases p1) (simp add: step_conv_def next_ch_def finished_def dopr_outs_eq)

lemma finished_at_conv: "finished t r as (at_conv d r' p) = finished t r as p"
  by (simp add: finished_def at_conv_def dopr_outs_eq)

lemma step_int:
  assumes "conv_switch fs m c p = conv_int base fl p" "8 \<le> unat base" "args p = ANum v # rest" "format p = c # r"
  shows "step_conv fs m c p = Inr (finished (int_text v (unat base) (mn p) (mx p) (flags p \<union> fl)) r rest p)"
proof -
  let ?p1 = "dopr_outs (int_text v (unat base) (mn p) (mx p) (flags p \<union> fl)) (p\<lparr>args := rest, flags := flags p \<union> fl\<rparr>)"
  have "conv_switch fs m c p = Inr ?p1" using assms by (simp add: conv_int_def va_num_def fmtint_out Let_def)
  then have "step_conv fs m c p = Inr (finished (int_text v (unat base) (mn p) (mx p) (flags p \<union> fl)) r (args ?p1) p)"
    using assms(4) by (intro step_conv_finished) (simp_all add: dopr_outs_eq)
  then show ?thesis by (simp add: dopr_outs_eq)
qed

lemma step_num:
  assumes "num_text c v (mn p) (mx p) (flags p) = Some t" "args p = ANum v # rest" "format p = c # r"
  shows "step_conv fs m c p = Inr (finished t r rest p)"
proof -
  note i = step_int [of fs m c p _ _ v rest r, OF _ _ assms(2,3)]
  show ?thesis
  proof (cases "c = CHR ''c''")
    case True
    have "conv_switch fs m c p = Inr (dopr_outch (char_of (unat v)) (p\<lparr>args := rest\<rparr>))"
      using True assms(2) by (simp add: conv_switch_def va_num_def)
    then have "step_conv fs m c p = Inr (finished t r (args (dopr_outch (char_of (unat v)) (p\<lparr>args := rest\<rparr>))) p)"
      using True assms by (intro step_conv_finished) (auto simp: num_text_def)
    then show ?thesis by simp
  next
    case False
    then have "c \<in> {CHR ''d'', CHR ''i'', CHR ''o'', CHR ''u'', CHR ''X'', CHR ''x'', CHR ''p''}"
      using assms(1) by (auto simp: num_text_def split: if_splits)
    then show ?thesis using assms(1) i [of 10 "{}"] i [of 8 "{DP_F_UNSIGNED}"] i [of 10 "{DP_F_UNSIGNED}"]
        i [of 16 "{DP_F_UP, DP_F_UNSIGNED}"] i [of 16 "{DP_F_UNSIGNED}"] i [of 16 "{}"]
      by (elim insertE emptyE) (simp_all add: conv_switch_def num_text_def)
  qed
qed

lemma step_str:
  assumes "args p = AStr s # rest" "format p = CHR ''s'' # r"
  shows "step_conv fs m CHR ''s'' p = Inr (finished (str_text s (flags p) (mn p) (if mx p < 0 then m else mx p)) r rest p)"
proof -
  let ?p1 = "dopr_outs (str_text s (flags p) (mn p) (if mx p < 0 then m else mx p)) (p\<lparr>args := rest, mx := if mx p < 0 then m else mx p\<rparr>)"
  have "p\<lparr>args := rest, mx := mx p\<rparr> = p\<lparr>args := rest\<rparr>" by (cases p) simp
  then have "conv_switch fs m CHR ''s'' p = Inr ?p1"
    using assms by (simp add: conv_switch_def conv_str_def va_str_def fmtstr_out Let_def)
  then have "step_conv fs m CHR ''s'' p = Inr (finished (str_text s (flags p) (mn p) (if mx p < 0 then m else mx p)) r (args ?p1) p)"
    using assms(2) by (intro step_conv_finished) (simp_all add: dopr_outs_eq)
  then show ?thesis by (simp add: dopr_outs_eq)
qed

lemma step_directive:
  assumes "directive_text m d as = Some t" "args p = as @ rest"
  shows "step_conv fs m (dconv d) (at_conv d r p) = Inr (finished t r rest p)"
proof (cases as)
  case Nil
  let ?p = "at_conv d r p"
  have c: "dconv d = CHR ''%''" "t = ''%''" using assms(1) Nil by (simp_all add: directive_text_def Let_def split: if_splits)
  have "conv_switch fs m (dconv d) ?p = Inr (dopr_outch CHR ''%'' ?p)" using c by (simp add: conv_switch_def)
  then have "step_conv fs m (dconv d) ?p = Inr (finished t r (args (dopr_outch CHR ''%'' ?p)) ?p)"
    using c by (intro step_conv_finished) (simp_all add: at_conv_def)
  then show ?thesis using assms(2) Nil by (simp only: finished_at_conv) (simp add: at_conv_def)
next
  case (Cons a as')
  then have nil: "as' = []" using assms(1) by (auto simp: directive_text_def Let_def split: list.splits arg.splits)
  show ?thesis
  proof (cases a)
    case (ANum v)
    have "step_conv fs m (dconv d) (at_conv d r p) = Inr (finished t r rest (at_conv d r p))"
      using assms Cons ANum nil by (intro step_num) (simp_all add: directive_text_def at_conv_def)
    then show ?thesis by (simp only: finished_at_conv)
  next
    case (AStr s)
    have c: "dconv d = CHR ''s''"
      "t = str_text s (flags (at_conv d r p)) (mn (at_conv d r p)) (if mx (at_conv d r p) < 0 then m else mx (at_conv d r p))"
      using assms(1) Cons AStr nil by (simp_all add: directive_text_def at_conv_def Let_def split: if_splits)
    have "step_conv fs m (dconv d) (at_conv d r p) = Inr (finished t r rest (at_conv d r p))"
      unfolding c using assms(2) Cons AStr nil by (intro step_str) (simp_all add: at_conv_def c)
    then show ?thesis by (simp only: finished_at_conv)
  next
    case (AFlt f)
    then show ?thesis using assms(1) Cons nil by (simp add: directive_text_def Let_def)
  qed
qed

section \<open>Formats\<close>

text \<open>
  A format is a sequence of ordinary characters and directives with their arguments. \<open>emit\<close> is what a sink with
  the limit \<open>maxlen\<close> gets: the limit is looked at between pieces only.
\<close>

datatype 'f piece = Lit char | Dir directive "'f arg list"

fun piece_chars :: "'f piece \<Rightarrow> string" where
  "piece_chars (Lit c) = [c]"
| "piece_chars (Dir d as) = directive_chars d"

fun piece_args :: "'f piece \<Rightarrow> 'f arg list" where
  "piece_args (Lit c) = []"
| "piece_args (Dir d as) = as"

fun piece_text :: "int \<Rightarrow> 'f piece \<Rightarrow> string" where
  "piece_text maxlen (Lit c) = [c]"
| "piece_text maxlen (Dir d as) = the (directive_text maxlen d as)"

fun wf_piece :: "int \<Rightarrow> 'f piece \<Rightarrow> bool" where
  "wf_piece maxlen (Lit c) \<longleftrightarrow> c \<noteq> CHR ''%''"
| "wf_piece maxlen (Dir d as) \<longleftrightarrow> wf_directive d \<and> directive_text maxlen d as \<noteq> None"

fun emit :: "int \<Rightarrow> int \<Rightarrow> string list \<Rightarrow> string" where
  "emit maxlen n [] = []"
| "emit maxlen n (t # ts) = (if n \<ge> maxlen then [] else t @ emit maxlen (n + int (length t)) ts)"

lemma emit_all: "n + int (length (concat ts)) \<le> m \<Longrightarrow> emit m n ts = concat ts"
proof (induction ts arbitrary: n)
  case (Cons t ts)
  have "length (concat (t # ts)) = 0" if "m \<le> n" using Cons.prems that by linarith
  then show ?case using Cons by (cases "m \<le> n") simp_all
qed simp

lemma finished_fields [simp]:
  "clean (finished t r as p)" "format (finished t r as p) = r" "args (finished t r as p) = as"
  "currlen (finished t r as p) = currlen p + int (length t)" "out (finished t r as p) = out p @ t"
  by (simp_all add: finished_def clean_def dopr_outs_eq)

lemma loop_piece:
  assumes "clean p" "wf_piece m x" "format p = piece_chars x @ r" "args p = piece_args x @ rest" "currlen p < m"
  shows "dopr_loop fs m p = dopr_loop fs m (finished (piece_text m x) r rest p)"
proof (cases x)
  case (Lit c)
  have "dopr_step fs m p = Inr (finished [c] r rest p)"
    using assms Lit by (cases p) (simp add: clean_def dopr_step_def step_default_def next_ch_def finished_def dopr_outs_eq dopr_outch_def)
  then show ?thesis using assms(1) Lit by (subst loop_step) (simp_all add: clean_def)
next
  case (Dir d as)
  obtain t where t: "directive_text m d as = Some t" using assms(2) Dir by auto
  have "dopr_loop fs m p = dopr_loop fs m (at_conv d r p)"
    using assms Dir by (intro loop_directive) simp_all
  also have "\<dots> = dopr_loop fs m (finished t r rest p)"
    using assms Dir t by (intro loop_transitions(9) [OF _ _ _ step_directive]) (simp_all add: at_conv_def)
  finally show ?thesis using Dir t by simp
qed

lemma loop_end: "state p \<noteq> DP_S_DONE \<Longrightarrow> format p = [] \<or> m \<le> currlen p \<Longrightarrow> dopr_loop fs m p = Inr (p\<lparr>state := DP_S_DONE\<rparr>)"
  by (subst loop_step [where p' = "p\<lparr>state := DP_S_DONE\<rparr>"])
    (auto simp: dopr_step_def dopr_loop.simps [of _ _ "_\<lparr>state := DP_S_DONE\<rparr>"] split: list.splits)

lemma loop_pieces:
  "clean p \<Longrightarrow> \<forall>x \<in> set xs. wf_piece m x \<Longrightarrow> format p = concat (map piece_chars xs) \<Longrightarrow> args p = concat (map piece_args xs) @ rest \<Longrightarrow>
    \<exists>p'. dopr_loop fs m p = Inr p' \<and> out p' = out p @ emit m (currlen p) (map (piece_text m) xs)"
proof (induction xs arbitrary: p)
  case Nil
  then show ?case by (simp add: loop_end clean_def)
next
  case (Cons x xs)
  show ?case
  proof (cases "m \<le> currlen p")
    case True
    then show ?thesis using Cons.prems(1) by (simp add: loop_end clean_def)
  next
    case False
    let ?q = "finished (piece_text m x) (concat (map piece_chars xs)) (concat (map piece_args xs) @ rest) p"
    have "dopr_loop fs m p = dopr_loop fs m ?q" using Cons.prems False by (intro loop_piece) simp_all
    moreover have "\<exists>p'. dopr_loop fs m ?q = Inr p' \<and> out p' = out ?q @ emit m (currlen ?q) (map (piece_text m) xs)"
      using Cons.prems by (intro Cons.IH) simp_all
    ultimately show ?thesis using False by simp
  qed
qed

lemma vsnprintf_out:
  assumes "\<forall>x \<in> set xs. wf_piece m x"
  shows "vsnprintf fs m (concat (map piece_chars xs)) (concat (map piece_args xs) @ rest) = Inr (emit m 0 (map (piece_text m) xs))"
  using loop_pieces [OF _ assms, of "dopr_start (concat (map piece_chars xs)) (concat (map piece_args xs) @ rest)" rest fs]
  by (auto simp: vsnprintf_def dopr_def dopr_start_def clean_def)


definition sample_format :: "unit piece list" where
  "sample_format = [Dir (Directive ''-'' ''5'' None None CHR ''d'') [ANum 42], Lit CHR ''|'',
     Dir (Directive [] [] (Some ''3'') (Some CHR ''l'') CHR ''x'') [ANum 171], Dir (Directive [] ''4'' (Some ''2'') None CHR ''s'') [AStr (Some ''abc'')]]"

definition fsplit_none :: "unit \<Rightarrow> nat \<Rightarrow> bool \<times> u32 \<times> u32" where
  "fsplit_none f n = (False, 0, 0)"

lemma sample_format_simps:
  "\<forall>x \<in> set sample_format. wf_piece 80 x" "concat (map piece_chars sample_format) = ''%-5d|%.3lx%4.2s''"
  "concat (map piece_args sample_format) = [ANum 42, ANum 171, AStr (Some ''abc'')]"
  "concat (map (piece_text 80) sample_format) = ''42   |0ab a''"
proof -
  have n: "show_base False 10 42 = ''42''" "show_base False 16 171 = ''ab''" by (simp_all add: show_base.simps digit_of_def)
  have r: "replicate 3 c = [c, c, c]" for c :: char by (simp add: numeral_3_eq_3)
  have s: "\<not> sint (42 :: u32) < 0" by (simp add: sint_uint signed_take_bit_int_eq_self)
  note d = sample_format_def directive_text_def num_text_def int_text_def int_sign_def int_digits_def str_text_def sign_chars_def
    flag_of_def prec_of_def number_of_def char_to_int_def DP_F_MINUS_def DP_F_PLUS_def DP_F_SPACE_def DP_F_NUM_def DP_F_ZERO_def
    DP_F_UP_def DP_F_UNSIGNED_def Let_def
  show "\<forall>x \<in> set sample_format. wf_piece 80 x"
    by (simp add: d wf_directive_def flag_chars_def mod_chars_def conv_chars_def isdigit_def)
  show "concat (map piece_chars sample_format) = ''%-5d|%.3lx%4.2s''" by (simp add: sample_format_def directive_chars_def)
  show "concat (map piece_args sample_format) = [ANum 42, ANum 171, AStr (Some ''abc'')]" by (simp add: sample_format_def)
  show "concat (map (piece_text 80) sample_format) = ''42   |0ab a''" using s by (simp add: d n r)
qed


definition read_int :: "string \<Rightarrow> int" where
  "read_int cs = (if cs \<noteq> [] \<and> hd cs = CHR ''-'' then - int (read_base 10 (tl cs)) else int (read_base 10 cs))"

definition printed :: "'f dopr_state \<Rightarrow> 'f dopr_state \<Rightarrow> string" where
  "printed p p' = drop (length (out p)) (out p')"

lemma printed_outs [simp]: "printed p (dopr_outs cs p) = cs"
  by (simp add: printed_def dopr_outs_eq)

lemma int_text_plain: "DP_F_ZERO \<notin> fl \<Longrightarrow> int_text v b 0 (- 1) fl = int_sign v fl @ int_digits v b fl"
  by (simp add: int_text_def Let_def)

lemma show_base_hd: "2 \<le> b \<Longrightarrow> b \<le> 16 \<Longrightarrow> show_base caps b n \<noteq> [] \<and> hd (show_base caps b n) \<noteq> CHR ''-''"
proof (induction caps b n rule: show_base.induct)
  case (1 caps b n)
  have g: "digit_of caps k \<noteq> CHR ''-''" if "k < 16" for k
  proof -
    have "k \<in> set [0 ..< 16]" using that by simp
    then show ?thesis by (auto simp: digit_of_def upt_rec)
  qed
  show ?case
  proof (cases "n < b")
    case True
    then have "n < 16" using 1(3) by simp
    then show ?thesis using True g [of n] by (subst show_base.simps) (subst (2) show_base.simps, simp)
  next
    case False
    then show ?thesis using 1 by (subst show_base.simps) (subst (2) show_base.simps, simp)
  qed
qed

text \<open>(C25:printf_reads_back) What \<open>%d\<close> prints reads back as the signed value and what \<open>%u\<close>, \<open>%x\<close>, \<open>%X\<close> and \<open>%o\<close> print as the
  unsigned one, for every 32-bit value, whatever is already in the sink.\<close>

theorem printf_reads_back:
  "read_int (printed p (fmtint val 10 0 (- 1) {} p)) = sint val \<and>
   read_base 10 (printed p (fmtint val 10 0 (- 1) {DP_F_UNSIGNED} p)) = unat val \<and>
   read_base 16 (printed p (fmtint val 16 0 (- 1) {DP_F_UNSIGNED} p)) = unat val \<and>
   read_base 16 (printed p (fmtint val 16 0 (- 1) {DP_F_UP, DP_F_UNSIGNED} p)) = unat val \<and>
   read_base 8 (printed p (fmtint val 8 0 (- 1) {DP_F_UNSIGNED} p)) = unat val"
proof -
  note f = DP_F_UNSIGNED_def DP_F_UP_def DP_F_ZERO_def
  have "read_int (int_sign val {} @ int_digits val 10 {}) = sint val"
  proof (cases "sint val < 0")
    case True
    then show ?thesis by (simp add: read_int_def int_sign_def sign_chars_def int_digits_def read_show)
  next
    case False
    then have "int (unat val) = sint val" by (rule unat_sint)
    then show ?thesis using False show_base_hd [of 10 False "unat val"]
      by (simp add: read_int_def int_sign_def sign_chars_def int_digits_def read_show)
  qed
  moreover have "int_sign val fl @ int_digits val b fl = show_base (DP_F_UP \<in> fl) b (unat val)" if "DP_F_UNSIGNED \<in> fl" for fl b
    using that by (simp add: int_sign_def int_digits_def)
  ultimately show ?thesis by (simp add: fmtint_out int_text_plain read_show f)
qed

text \<open>(fmtint_width) An integer conversion puts \<open>int_text\<close> into the sink and counts it. Unless both the zero flag and a
  precision above the number of digits are given, the text is as wide as the larger of the field width and of sign and digits with
  their precision; with both it is narrower than the field can ask for. It always ends with the digits, or with blanks if it is left justified.\<close>

lemma length_int_text:
  "int (length (int_text val b min' max' fl)) =
     (let s = int (length (int_sign val fl)); d = int (length (int_digits val b fl)) in
      if DP_F_ZERO \<in> fl then s + d + max (max 0 (max' - d)) (min' - max max' d - s) else max min' (s + max max' d))"
proof -
  let ?s = "int_sign val fl" and ?d = "int_digits val b fl"
  let ?z = "nat (max' - int (length ?d))" and ?p = "nat (min' - max max' (int (length ?d)) - int (length ?s))"
  have "length (int_text val b min' max' fl) = length ?s + length ?d + (if DP_F_ZERO \<in> fl then max ?z ?p else ?z + ?p)"
    by (simp add: int_text_def Let_def)
  then show ?thesis by (auto simp: Let_def max_def)
qed

theorem fmtint_width:
  assumes "8 \<le> unat base"
  shows "let t = int_text val (unat base) min' max' fl; s = int (length (int_sign val fl));
      d = int (length (int_digits val (unat base) fl)) in
    printed p (fmtint val base min' max' fl p) = t \<and> currlen (fmtint val base min' max' fl p) = currlen p + int (length t) \<and>
    (DP_F_ZERO \<notin> fl \<or> max' \<le> d \<longrightarrow> int (length t) = max min' (s + max max' d)) \<and>
    (DP_F_ZERO \<in> fl \<and> d < max' \<longrightarrow> int (length t) = s + max max' (min' - (max' - d) - s))"
proof -
  define s d t where "s = int (length (int_sign val fl))" and "d = int (length (int_digits val (unat base) fl))"
    and "t = int_text val (unat base) min' max' fl"
  have l: "int (length t) = (if DP_F_ZERO \<in> fl then s + d + max (max 0 (max' - d)) (min' - max max' d - s) else max min' (s + max max' d))"
    unfolding s_def d_def t_def by (simp only: length_int_text Let_def)
  have "DP_F_ZERO \<notin> fl \<or> max' \<le> d \<Longrightarrow> int (length t) = max min' (s + max max' d)"
    "DP_F_ZERO \<in> fl \<and> d < max' \<Longrightarrow> int (length t) = s + max max' (min' - (max' - d) - s)"
    unfolding l by (auto simp: max_def)
  then show ?thesis unfolding Let_def fmtint_out [OF assms] s_def d_def t_def by (simp add: dopr_outs_eq printed_def)
qed

theorem fmtint_width_witness:
  "let p = dopr_start [] [] :: unit dopr_state in printed p (fmtint 42 10 8 5 {DP_F_ZERO} p) = ''00042'' \<and> int (length ''00042'') < 8"
proof -
  have "show_base False 10 42 = ''42''" by (simp add: show_base.simps digit_of_def)
  moreover have "\<not> sint (42 :: u32) < 0" by (simp add: sint_uint signed_take_bit_int_eq_self)
  moreover have "replicate 3 c = [c, c, c]" for c :: char by (simp add: numeral_3_eq_3)
  moreover have "8 \<le> unat (10 :: u32)" by simp
  ultimately show ?thesis
    using fmtint_width [of 10 42 8 5 "{DP_F_ZERO}" "dopr_start [] [] :: unit dopr_state"]
    by (simp add: Let_def int_text_def int_sign_def int_digits_def sign_chars_def DP_F_ZERO_def DP_F_UP_def DP_F_UNSIGNED_def
        DP_F_PLUS_def DP_F_SPACE_def DP_F_MINUS_def)
qed

text \<open>The loop with a bound on the number of its turns.\<close>

fun dopr_run :: "nat \<Rightarrow> ('f \<Rightarrow> nat \<Rightarrow> bool \<times> u32 \<times> u32) \<Rightarrow> int \<Rightarrow> 'f dopr_state \<Rightarrow> 'f dopr_state res option" where
  "dopr_run 0 fsplit maxlen p = None"
| "dopr_run (Suc n) fsplit maxlen p =
     (if state p = DP_S_DONE then Some (Inr p)
      else case dopr_step fsplit maxlen p of Inl e \<Rightarrow> Some (Inl e) | Inr p' \<Rightarrow> dopr_run n fsplit maxlen p')"

lemma rank_le: "rank s \<le> 7"
  by (cases s) simp_all

lemma dopr_run_loop: "8 * length (format p) + rank (state p) < n \<Longrightarrow> dopr_run n fs m p = Some (dopr_loop fs m p)"
proof (induction n arbitrary: p)
  case (Suc n)
  show ?case
  proof (cases "state p = DP_S_DONE \<or> (\<exists>e. dopr_step fs m p = Inl e)")
    case True
    then show ?thesis by (auto simp: dopr_loop.simps [of fs m p])
  next
    case False
    then obtain p' where p': "dopr_step fs m p = Inr p'" by (cases "dopr_step fs m p") auto
    have "8 * length (format p') + rank (state p') < n"
      using dopr_step_decreases [OF _ p'] False Suc.prems rank_le [of "state p'"] by auto
    then show ?thesis using Suc.IH [of p'] False p' by (simp add: dopr_loop.simps [of fs m p])
  qed
qed simp

text \<open>(C27:dopr_terminates) The loop of \<open>dopr\<close> ends on every format, with every limit and every list of arguments: after at most
  eight turns per character and eight more it has its result, which is the output or an undefined read.\<close>

theorem dopr_terminates:
  "dopr_run (8 * length fmt + 8) fsplit maxlen (dopr_start fmt as) = Some (dopr fsplit maxlen fmt as)"
  unfolding dopr_def by (rule dopr_run_loop) (simp add: dopr_start_def)

lemma finished_finished: "clean p \<Longrightarrow> finished u r' as' (finished t r as p) = finished (t @ u) r' as' p"
  by (simp add: finished_def dopr_outs_eq)

lemma loop_prefix:
  "clean p \<Longrightarrow> \<forall>x \<in> set xs. wf_piece m x \<Longrightarrow> format p = concat (map piece_chars xs) @ r \<Longrightarrow>
    args p = concat (map piece_args xs) @ rest \<Longrightarrow> currlen p + int (length (concat (map (piece_text m) xs))) < m \<Longrightarrow>
    dopr_loop fs m p = dopr_loop fs m (finished (concat (map (piece_text m) xs)) r rest p)"
proof (induction xs arbitrary: p)
  case Nil
  then have "finished [] r rest p = p" by (cases p) (simp add: finished_def clean_def dopr_outs_def)
  then show ?case by simp
next
  case (Cons x xs)
  let ?q = "finished (piece_text m x) (concat (map piece_chars xs) @ r) (concat (map piece_args xs) @ rest) p"
  have "dopr_loop fs m p = dopr_loop fs m ?q" using Cons.prems by (intro loop_piece) simp_all
  also have "\<dots> = dopr_loop fs m (finished (concat (map (piece_text m) xs)) r rest ?q)"
    using Cons.prems by (intro Cons.IH) simp_all
  finally show ?case using Cons.prems(1) by (simp add: finished_finished)
qed

lemma loop_w:
  assumes "clean p" "format p = ''%w''" "currlen p < m"
  shows "dopr_loop fs m p = Inl (Undef ''read past the format'')"
proof -
  have w: "CHR ''w'' \<notin> flag_chars" "\<not> isdigit CHR ''w''" "CHR ''w'' \<notin> mod_chars"
    by (simp_all add: flag_chars_def isdigit_def mod_chars_def)
  let ?q = "p\<lparr>format := ''w'', state := DP_S_CONV\<rparr>"
  have "dopr_loop fs m p = dopr_loop fs m ?q"
    using assms w loop_transitions(1) [of p m "''w''" fs]
      loop_transitions(2) [of "p\<lparr>format := ''w'', state := DP_S_FLAGS\<rparr>" m "CHR ''w''" "[]" fs]
      loop_transitions(3) [of "p\<lparr>format := ''w'', state := DP_S_MIN\<rparr>" m "CHR ''w''" "[]" fs]
      loop_transitions(5) [of "p\<lparr>format := ''w'', state := DP_S_DOT\<rparr>" m "CHR ''w''" "[]" fs]
      loop_transitions(8) [of "p\<lparr>format := ''w'', state := DP_S_MOD\<rparr>" m "CHR ''w''" "[]" fs]
    by (simp add: clean_def)
  moreover have "dopr_step fs m ?q = Inl (Undef ''read past the format'')"
    using assms(3) by (simp add: dopr_step_def step_conv_def conv_switch_def next_ch_def)
  ultimately show ?thesis by (simp add: dopr_loop.simps [of fs m ?q])
qed

text \<open>(format_overrun) A format that ends in \<open>%w\<close> is read beyond its terminating NUL, after any pieces that fit the limit.\<close>

theorem format_overrun:
  assumes "\<forall>x \<in> set xs. wf_piece maxlen x" "int (length (concat (map (piece_text maxlen) xs))) < maxlen"
  shows "vsnprintf fsplit maxlen (concat (map piece_chars xs) @ ''%w'') (concat (map piece_args xs) @ rest) =
    Inl (Undef ''read past the format'')"
proof -
  let ?p = "dopr_start (concat (map piece_chars xs) @ ''%w'') (concat (map piece_args xs) @ rest)"
  have "dopr_loop fsplit maxlen ?p = dopr_loop fsplit maxlen (finished (concat (map (piece_text maxlen) xs)) ''%w'' rest ?p)"
    using assms by (intro loop_prefix) (simp_all add: dopr_start_def clean_def)
  also have "\<dots> = Inl (Undef ''read past the format'')"
    using assms(2) by (intro loop_w) (simp_all add: dopr_start_def)
  finally show ?thesis by (simp add: vsnprintf_def dopr_def)
qed

theorem format_overrun_witness: "vsnprintf fsplit_none 80 ''ok%w'' [] = Inl (Undef ''read past the format'')"
  using format_overrun [of "[Lit CHR ''o'', Lit CHR ''k'']" 80 fsplit_none "[]"] by simp

text \<open>Two conversions that do not print the number they are given: a pointer of the upper half of the address space gets a minus sign,
  and the zeros that fill up a fraction are put behind its digits, so that the parts of 1.05 give 1.5.\<close>

lemma pointer_sign: "printed p (fmtint 0x80000000 16 0 (- 1) {} p) = ''-80000000''"
proof -
  have s: "sint (0x80000000 :: u32) = - 2147483648" by (simp add: sint_uint signed_take_bit_eq_if_negative take_bit_eq_mod mask_eq_exp_minus_1 bit_iff_odd)
  have "show_base False 16 2147483648 = ''80000000''" by (simp add: show_base.simps digit_of_def)
  then show ?thesis
    by (simp add: fmtint_out int_text_plain DP_F_ZERO_def int_sign_def int_digits_def sign_chars_def s)
qed

lemma fraction_zeros: "printed p (fmtfp (\<lambda>f n. (False, 1, 50000)) f 0 (- 1) {} p) = ''1.500000''"
proof -
  have "rev (converted False 10 50000) = ''50000''" "rev (converted False 10 1) = ''1''"
    by (simp_all add: converted_show show_base.simps digit_of_def)
  then have "converted False 10 50000 = rev ''50000''" "converted False 10 1 = rev ''1''" by (metis rev_rev_ident)+
  then show ?thesis by (simp add: fmtfp_def Let_def dopr_outs_append sign_chars_def printed_def dopr_outs_eq)
qed

end
