(* ===== verification/FloatSplit.thy ===== *)
theory FloatSplit
  imports Complex_Main Snprintf
begin

text \<open>
  How \<open>fmtfp\<close> of \<open>kernel/snprintf.cc\<close> splits a floating point number into its sign, its integer part and its rounded
  fraction: \<open>abs_val\<close>, \<open>pow10\<close>, \<open>xround\<close> and the lines between. The operations of the type \<open>long double\<close> are a record of
  functions; what the code does with them is written out. Over exact operations the printed text is determined by the
  number rounded to the decimals; the same code stands in the user program's \<open>printf.c\<close>.
\<close>

section \<open>Definitions\<close>

text \<open>The conversion to \<open>long\<close> cuts the fraction off; for a number that does not fit it is undefined in C++, and here what the operation gives.\<close>

record 'f fp =
  fp_of_long :: "u32 \<Rightarrow> 'f"
  fp_to_long :: "'f \<Rightarrow> u32"
  fp_neg :: "'f \<Rightarrow> 'f"
  fp_sub :: "'f \<Rightarrow> 'f \<Rightarrow> 'f"
  fp_mul :: "'f \<Rightarrow> 'f \<Rightarrow> 'f"
  fp_less :: "'f \<Rightarrow> 'f \<Rightarrow> bool"
  fp_le :: "'f \<Rightarrow> 'f \<Rightarrow> bool"
  fp_half :: 'f

definition abs_val :: "'f fp \<Rightarrow> 'f \<Rightarrow> 'f" where
  "abs_val ops value' = (if fp_less ops value' (fp_of_long ops 0) then fp_neg ops value' else value')"

fun pow10_loop :: "'f fp \<Rightarrow> nat \<Rightarrow> 'f \<Rightarrow> 'f" where
  "pow10_loop ops 0 result = result"
| "pow10_loop ops (Suc k) result = pow10_loop ops k (fp_mul ops result (fp_of_long ops 10))"

definition pow10 :: "'f fp \<Rightarrow> nat \<Rightarrow> 'f" where
  "pow10 ops k = pow10_loop ops k (fp_of_long ops 1)"

definition xround :: "'f fp \<Rightarrow> 'f \<Rightarrow> u32" where
  "xround ops v =
     (let intpart = fp_to_long ops v;
          v' = fp_sub ops v (fp_of_long ops intpart)
      in if fp_le ops (fp_half ops) v' then intpart + 1 else intpart)"

definition float_split :: "'f fp \<Rightarrow> 'f \<Rightarrow> nat \<Rightarrow> bool \<times> u32 \<times> u32" where
  "float_split ops fvalue max' =
     (let ufvalue = abs_val ops fvalue;
          negative = fp_less ops fvalue (fp_of_long ops 0);
          intpart = fp_to_long ops ufvalue;
          fracpart = xround ops (fp_mul ops (pow10 ops max') (fp_sub ops ufvalue (fp_of_long ops intpart)))
      in if fp_le ops (pow10 ops max') (fp_of_long ops fracpart)
         then (negative, intpart + 1, fp_to_long ops (fp_sub ops (fp_of_long ops fracpart) (pow10 ops max')))
         else (negative, intpart, fracpart))"

section \<open>Exact numbers\<close>

text \<open>The operations on rational numbers; cutting the fraction off a number that is not negative is \<open>floor\<close>.\<close>

definition rat_fp :: "rat fp" where
  "rat_fp = \<lparr>fp_of_long = (\<lambda>x. of_int (sint x)), fp_to_long = (\<lambda>x. of_int (if x < 0 then \<lceil>x\<rceil> else \<lfloor>x\<rfloor>)), fp_neg = uminus, fp_sub = (-), fp_mul = (*),
     fp_less = (<), fp_le = (\<le>), fp_half = 1 / 2\<rparr>"

lemma rat_fp_fields [simp]:
  "fp_of_long rat_fp x = of_int (sint x)" "fp_to_long rat_fp y = of_int (if y < 0 then \<lceil>y\<rceil> else \<lfloor>y\<rfloor>)" "fp_neg rat_fp y = - y"
  "fp_sub rat_fp y z = y - z" "fp_mul rat_fp y z = y * z" "fp_less rat_fp y z = (y < z)" "fp_le rat_fp y z = (y \<le> z)" "fp_half rat_fp = 1 / 2"
  by (simp_all add: rat_fp_def)

lemma sint_long: "0 \<le> i \<Longrightarrow> i < 2 ^ 31 \<Longrightarrow> sint (of_int i :: u32) = i"
  by (simp add: sint_sbintrunc' signed_take_bit_int_eq_self)

lemma signed_long: "0 \<le> i \<Longrightarrow> i < 2 ^ 31 \<Longrightarrow> (signed (of_int i :: u32) :: rat) = of_int i"
  by (simp add: signed_of_int signed_take_bit_int_eq_self)

lemma pow10_rat: "pow10 rat_fp n = 10 ^ n"
proof -
  have "pow10_loop rat_fp n r = r * 10 ^ n" for r by (induction n arbitrary: r) (simp_all add: sint_uint signed_take_bit_int_eq_self)
  then show ?thesis by (simp add: pow10_def)
qed

lemma xround_rat:
  assumes "0 \<le> v" "v < 2 ^ 31 - 1"
  shows "xround rat_fp v = of_int \<lfloor>v + 1 / 2\<rfloor>"
proof -
  have f: "0 \<le> \<lfloor>v\<rfloor>" "\<lfloor>v\<rfloor> < 2 ^ 31" using assms by (simp_all add: floor_less_iff)
  have "\<lfloor>v + 1 / 2\<rfloor> = (if 1 / 2 \<le> v - of_int \<lfloor>v\<rfloor> then \<lfloor>v\<rfloor> + 1 else \<lfloor>v\<rfloor>)"
    by (rule floor_unique) (use of_int_floor_le [of v] floor_correct [of v] in \<open>simp_all split: if_splits, linarith+\<close>)
  then show ?thesis using assms f by (simp add: xround_def Let_def signed_long)
qed

text \<open>\<open>scaled\<close> is the fraction of a number times the power of ten: what \<open>xround\<close> is called with.\<close>

definition scaled :: "nat \<Rightarrow> rat \<Rightarrow> rat" where
  "scaled n u = 10 ^ n * (u - of_int \<lfloor>u\<rfloor>)"

lemma scaled_bounds: "0 \<le> scaled n u" "scaled n u < 10 ^ n"
proof -
  have "of_int \<lfloor>u\<rfloor> \<le> u" "u - of_int \<lfloor>u\<rfloor> < 1" by (simp, linarith)
  then show "0 \<le> scaled n u" "scaled n u < 10 ^ n" unfolding scaled_def by simp_all
qed

lemma scaled_rounded: "0 \<le> \<lfloor>scaled n u + 1 / 2\<rfloor>" "\<lfloor>scaled n u + 1 / 2\<rfloor> \<le> 10 ^ n"
proof -
  show "0 \<le> \<lfloor>scaled n u + 1 / 2\<rfloor>" using scaled_bounds(1) [of n u] by simp
  have "scaled n u + 1 / 2 < of_int (10 ^ n + 1)" using scaled_bounds(2) [of n u] by simp
  then have "\<lfloor>scaled n u + 1 / 2\<rfloor> < 10 ^ n + 1" unfolding floor_less_iff by simp
  then show "\<lfloor>scaled n u + 1 / 2\<rfloor> \<le> 10 ^ n" by simp
qed

lemma scaled_total: "\<lfloor>u * 10 ^ n + 1 / 2\<rfloor> = \<lfloor>u\<rfloor> * 10 ^ n + \<lfloor>scaled n u + 1 / 2\<rfloor>"
proof -
  have "u * 10 ^ n + 1 / 2 = of_int (\<lfloor>u\<rfloor> * 10 ^ n) + (scaled n u + 1 / 2)" by (simp add: scaled_def algebra_simps)
  then show ?thesis by (simp only: int_add_floor)
qed

lemma float_split_rat:
  assumes "\<bar>v\<bar> < 2 ^ 31 - 1" "n \<le> 9"
  defines "k \<equiv> \<lfloor>scaled n \<bar>v\<bar> + 1 / 2\<rfloor>"
  shows "float_split rat_fp v n =
    (if 10 ^ n \<le> k then (v < 0, of_int (\<lfloor>\<bar>v\<bar>\<rfloor> + 1), of_int (k - 10 ^ n)) else (v < 0, of_int \<lfloor>\<bar>v\<bar>\<rfloor>, of_int k))"
proof -
  define u where "u = \<bar>v\<bar>"
  define i where "i = \<lfloor>u\<rfloor>"
  have p: "(10 :: rat) ^ n \<le> 10 ^ 9" "(10 :: int) ^ n \<le> 10 ^ 9" using assms(2) by (intro power_increasing; simp)+
  have i: "0 \<le> i" "i < 2 ^ 31" using assms(1) unfolding i_def u_def by (simp_all add: floor_less_iff)
  have k: "0 \<le> k" "k \<le> 10 ^ n" unfolding k_def by (rule scaled_rounded)+
  have k31: "k < 2 ^ 31" by (rule le_less_trans [OF order_trans [OF k(2) p(2)]]) simp
  have x: "xround rat_fp (scaled n u) = of_int k" unfolding k_def u_def
    using scaled_bounds(1) less_le_trans [OF scaled_bounds(2) p(1)] by (intro xround_rat) (simp, rule less_trans, blast, simp)
  have a: "abs_val rat_fp v = u" "fp_to_long rat_fp u = of_int i" by (simp_all add: abs_val_def u_def i_def)
  have si: "(signed (of_int i :: u32) :: rat) = of_int i" "(signed (of_int k :: u32) :: rat) = of_int k"
    using i k(1) k31 by (simp_all add: signed_long)
  have c: "(10 :: rat) ^ n \<le> of_int k \<longleftrightarrow> 10 ^ n \<le> k" using of_int_le_iff [of "10 ^ n" k, where 'a = rat] by simp
  have t: "fp_to_long rat_fp (of_int k - 10 ^ n) = of_int (k - 10 ^ n)"
  proof -
    have "(of_int k - 10 ^ n :: rat) = of_int (k - 10 ^ n)" by simp
    then show ?thesis by (simp only: rat_fp_fields floor_of_int ceiling_of_int if_cancel)
  qed
  have f: "10 ^ n * (u - of_int i) = scaled n u" by (simp add: scaled_def i_def)
  show ?thesis unfolding float_split_def a Let_def pow10_rat u_def [symmetric] i_def [symmetric]
    by (simp add: si x f c t del: rat_fp_fields(2))
qed

lemma unat_long: "0 \<le> j \<Longrightarrow> j < 2 ^ 32 \<Longrightarrow> unat (of_int j :: u32) = nat j"
  by (simp add: unat_eq_nat_uint uint_word_of_int take_bit_int_eq_self)

text \<open>
  With exact operations, for up to nine decimals and numbers below 2^31 - 1, integer part and fraction
  together are the absolute value rounded to the decimals, halves upwards, also where the rounding carries into the integer
  part; the fraction has no more digits than asked for.
\<close>

lemma float_split_rounds:
  assumes "\<bar>v\<bar> < 2 ^ 31 - 1" "n \<le> 9"
  shows "\<exists>i f. float_split rat_fp v n = (v < 0, i, f) \<and> unat f < 10 ^ n \<and> int (unat i * 10 ^ n + unat f) = \<lfloor>\<bar>v\<bar> * 10 ^ n + 1 / 2\<rfloor>"
proof -
  define k where "k = \<lfloor>scaled n \<bar>v\<bar> + 1 / 2\<rfloor>"
  have k: "0 \<le> k" "k \<le> 10 ^ n" unfolding k_def by (rule scaled_rounded)+
  have i: "0 \<le> \<lfloor>\<bar>v\<bar>\<rfloor>" "\<lfloor>\<bar>v\<bar>\<rfloor> < 2 ^ 31" using assms(1) by (simp_all add: floor_less_iff)
  have p: "(10 :: int) ^ n \<le> 10 ^ 9" using assms(2) by (intro power_increasing) simp_all
  note s = float_split_rat [OF assms, folded k_def] and t = scaled_total [of "\<bar>v\<bar>" n, folded k_def]
  show ?thesis
  proof (cases "10 ^ n \<le> k")
    case True
    then have "k = 10 ^ n" using k(2) by simp
    then show ?thesis using s t i unat_long [of "\<lfloor>\<bar>v\<bar>\<rfloor> + 1"]
      by (intro exI [of _ "of_int (\<lfloor>\<bar>v\<bar>\<rfloor> + 1)"] exI [of _ 0]) (simp add: algebra_simps)
  next
    case False
    have "unat (of_int k :: u32) = nat k" "unat (of_int \<lfloor>\<bar>v\<bar>\<rfloor> :: u32) = nat \<lfloor>\<bar>v\<bar>\<rfloor>"
      using unat_long i k order_trans [OF k(2) p] by simp_all
    then show ?thesis using False s t i k by (intro exI [of _ "of_int \<lfloor>\<bar>v\<bar>\<rfloor>"] exI [of _ "of_int k"]) (simp add: nat_less_iff)
  qed
qed

lemma fmtfp_plain:
  assumes "fs v n = (neg, i, f)" "n \<le> 9"
  shows "printed p (fmtfp fs v 0 (int n) {} p) =
    (if neg then ''-'' else '''') @ show_base False 10 (unat i) @
    (if n = 0 then '''' else CHR ''.'' # show_base False 10 (unat f)) @ replicate (n - length (show_base False 10 (unat f))) CHR ''0''"
proof -
  have c: "converted False 10 u = rev (show_base False 10 (unat u))" for u :: u32
    using converted_show [of 10 False u] by (simp flip: rev_swap)
  have z: "nat (int n - int k) = n - k" for k by simp
  show ?thesis
    unfolding fmtfp_def Let_def using assms
    by (simp add: c z sign_chars_def DP_F_ZERO_def DP_F_MINUS_def dopr_outs_append)
qed

text \<open>
  (float_printed) What \<open>%.nf\<close> prints for an exact number below 2^31 - 1 and up to nine decimals: the sign, the integer part and
  the fraction of the number rounded to n decimals, halves upwards and with the carry into the integer part. The zeros
  that complete the fraction stand behind its digits, so the text is the number exactly when the fraction has all its digits.
\<close>

theorem float_printed:
  assumes "\<bar>v\<bar> < 2 ^ 31 - 1" "n \<le> 9"
  shows "\<exists>i f. f < 10 ^ n \<and> int (i * 10 ^ n + f) = \<lfloor>\<bar>v\<bar> * 10 ^ n + 1 / 2\<rfloor> \<and>
    printed p (fmtfp (float_split rat_fp) v 0 (int n) {} p) =
      (if v < 0 then ''-'' else '''') @ show_base False 10 i @
      (if n = 0 then '''' else CHR ''.'' # show_base False 10 f) @ replicate (n - length (show_base False 10 f)) CHR ''0''"
proof -
  obtain i f where s: "float_split rat_fp v n = (v < 0, i, f)" and f: "unat f < 10 ^ n"
      "int (unat i * 10 ^ n + unat f) = \<lfloor>\<bar>v\<bar> * 10 ^ n + 1 / 2\<rfloor>"
    using float_split_rounds [OF assms] by blast
  note fmtfp_plain [of "float_split rat_fp" v n, OF s assms(2), of p]
  then show ?thesis using f by blast
qed

text \<open>-1.999996 with five decimals carries, and 1.05 with two decimals loses the place of its fraction.\<close>

theorem float_printed_witness:
  "printed (dopr_start [] []) (fmtfp (float_split rat_fp) (- 1999996 / 1000000) 0 5 {} (dopr_start [] [])) = ''-2.00000'' \<and>
   printed (dopr_start [] []) (fmtfp (float_split rat_fp) (105 / 100) 0 2 {} (dopr_start [] [])) = ''1.50''"
proof -
  let ?p = "dopr_start [] [] :: rat dopr_state"
  have f: "\<lfloor>\<bar>- 1999996 / 1000000 :: rat\<bar> * 10 ^ 5 + 1 / 2\<rfloor> = 200000" "\<lfloor>\<bar>105 / 100 :: rat\<bar> * 10 ^ 2 + 1 / 2\<rfloor> = 105"
    by (simp_all add: floor_eq_iff)
  obtain i f where v: "f < 10 ^ 5 \<and> i * 10 ^ 5 + f = 200000"
    and t: "printed ?p (fmtfp (float_split rat_fp) (- 1999996 / 1000000) 0 5 {} ?p) =
      ''-'' @ show_base False 10 i @ CHR ''.'' # show_base False 10 f @ replicate (5 - length (show_base False 10 f)) CHR ''0''"
    using float_printed [of "- 1999996 / 1000000" 5 ?p] unfolding f(1) by force
  obtain i' f' where v': "f' < 10 ^ 2 \<and> i' * 10 ^ 2 + f' = 105"
    and t': "printed ?p (fmtfp (float_split rat_fp) (105 / 100) 0 2 {} ?p) =
      show_base False 10 i' @ CHR ''.'' # show_base False 10 f' @ replicate (2 - length (show_base False 10 f')) CHR ''0''"
    using float_printed [of "105 / 100" 2 ?p] unfolding f(2) by force
  have e: "i = 2" "i' = 1" using v v' by simp_all
  have "f = 0" "f' = 5" using v v' unfolding e by simp_all
  then show ?thesis unfolding t t' e by (simp add: show_base.simps digit_of_def numeral_nat)
qed

end
