(* ===== verification/KQueue.thy ===== *)
theory KQueue
  imports Prelude
begin

text \<open>
  The intrusive queue of \<open>kernel/queue.h\<close>, the interface \<open>fifo\<close> its clients rely on, and its
  instance.

  An element is a pointer; its \<open>next\<close> field lives in the element, so all queues of one element
  type share one \<open>links\<close> store, and two queues interfere exactly when they share an element (the
  comment in \<open>threads.h\<close>: a TCB can belong to at most one queue). The queue's lock makes each
  operation one step.
\<close>

section \<open>State and operations\<close>

type_synonym links = "u32 \<Rightarrow> u32"

record queue =
  q_first :: u32
  q_last :: u32

definition q_new :: queue where
  "q_new = \<lparr>q_first = 0, q_last = 0\<rparr>"

definition q_isEmpty :: "queue \<Rightarrow> bool" where
  "q_isEmpty q \<longleftrightarrow> q_first q = 0"

definition q_add_front :: "links \<Rightarrow> queue \<Rightarrow> u32 \<Rightarrow> (links \<times> queue) res" where
  "q_add_front nx q t =
     bindR (assertR (t \<noteq> 0) ''t != nullptr'') (\<lambda>_.
       let nx1 = nx(t := q_first q);
           q1 = q\<lparr>q_first := t\<rparr>;
           q2 = (if q_last q1 = 0 then q1\<lparr>q_last := t\<rparr> else q1)
       in Inr (nx1, q2))"

definition q_add :: "links \<Rightarrow> queue \<Rightarrow> u32 \<Rightarrow> (links \<times> queue) res" where
  "q_add nx q t =
     bindR (assertR (t \<noteq> 0) ''t != nullptr'') (\<lambda>_.
       let nx1 = nx(t := 0);
           (nx2, q1) = (if q_first q = 0 then (nx1, q\<lparr>q_first := t\<rparr>)
                        else (nx1(q_last q := t), q))
       in Inr (nx2, q1\<lparr>q_last := t\<rparr>))"

definition q_remove :: "links \<Rightarrow> queue \<Rightarrow> u32 \<times> queue" where
  "q_remove nx q =
     (if q_first q = 0 then (0, q)
      else
        let it = q_first q;
            q1 = q\<lparr>q_first := nx it\<rparr>;
            q2 = (if q_first q1 = 0 then q1\<lparr>q_last := 0\<rparr> else q1)
        in (it, q2))"

definition q_remove_all :: "queue \<Rightarrow> u32 \<times> queue" where
  "q_remove_all q = (q_first q, q\<lparr>q_first := 0, q_last := 0\<rparr>)"

section \<open>The elements of a queue\<close>

text \<open>\<open>chain nx p xs\<close>: following \<open>next\<close> from \<open>p\<close> visits \<open>xs\<close> and ends in null.\<close>

fun chain :: "links \<Rightarrow> u32 \<Rightarrow> u32 list \<Rightarrow> bool" where
  "chain nx p [] \<longleftrightarrow> p = 0"
| "chain nx p (x # xs) \<longleftrightarrow> p = x \<and> x \<noteq> 0 \<and> chain nx (nx x) xs"

definition queue_rep :: "links \<Rightarrow> queue \<Rightarrow> u32 list \<Rightarrow> bool" where
  "queue_rep nx q xs \<longleftrightarrow>
     chain nx (q_first q) xs \<and> distinct xs \<and> q_last q = (if xs = [] then 0 else last xs)"

lemma chain_nonzero: "chain nx p xs \<Longrightarrow> 0 \<notin> set xs"
  by (induction nx p xs rule: chain.induct) auto

lemma chain_frame: "chain nx p xs \<Longrightarrow> (\<And>x. x \<in> set xs \<Longrightarrow> nx' x = nx x) \<Longrightarrow> chain nx' p xs"
  by (induction nx p xs rule: chain.induct) auto

lemma chain_first: "chain nx p xs \<Longrightarrow> p = (if xs = [] then 0 else hd xs)"
  by (cases xs) auto

lemma chain_snoc:
  assumes "chain nx p xs" "distinct xs" "xs \<noteq> []" "t \<notin> set xs" "t \<noteq> 0"
  shows "chain (nx(t := 0, last xs := t)) p (xs @ [t])"
  using assms
proof (induction xs arbitrary: p)
  case (Cons x xs)
  then show ?case
  proof (cases "xs = []")
    case False
    then have "x \<noteq> last xs" using Cons.prems(2) by auto
    then show ?thesis using Cons False by auto
  qed auto
qed simp

lemma chain_unique: "chain nx p xs \<Longrightarrow> chain nx p ys \<Longrightarrow> xs = ys"
proof (induction nx p xs arbitrary: ys rule: chain.induct)
  case (1 nx p) then show ?case by (cases ys) auto
next
  case (2 nx p x xs) then show ?case by (cases ys) auto
qed

lemma queue_rep_new: "queue_rep nx q_new []"
  by (simp add: queue_rep_def q_new_def)

lemma queue_rep_frame:
  "queue_rep nx q xs \<Longrightarrow> (\<And>x. x \<in> set xs \<Longrightarrow> nx' x = nx x) \<Longrightarrow> queue_rep nx' q xs"
  by (auto simp: queue_rep_def intro: chain_frame)

lemma queue_rep_nonzero: "queue_rep nx q xs \<Longrightarrow> 0 \<notin> set xs \<and> distinct xs"
  by (auto simp: queue_rep_def dest: chain_nonzero)

lemma queue_rep_unique: "queue_rep nx q xs \<Longrightarrow> queue_rep nx q ys \<Longrightarrow> xs = ys"
  by (auto simp: queue_rep_def dest: chain_unique)

lemma q_isEmpty_rep: "queue_rep nx q xs \<Longrightarrow> q_isEmpty q \<longleftrightarrow> xs = []"
  using chain_first [of nx "q_first q" xs] queue_rep_nonzero [of nx q xs]
  by (cases xs) (auto simp: queue_rep_def q_isEmpty_def)

lemma q_add_rep:
  assumes "queue_rep nx q xs" "t \<noteq> 0" "t \<notin> set xs"
  shows "\<exists>nx' q'. q_add nx q t = Inr (nx', q') \<and> queue_rep nx' q' (xs @ [t]) \<and>
           (\<forall>x. x \<notin> set xs \<union> {t} \<longrightarrow> nx' x = nx x)"
proof (cases "xs = []")
  case True
  then show ?thesis using assms by (simp add: q_add_def queue_rep_def)
next
  case False
  then have "q_first q \<noteq> 0" "q_last q = last xs" "chain nx (q_first q) xs" "distinct xs"
    using assms(1) chain_first [of nx "q_first q" xs] chain_nonzero [of nx "q_first q" xs] hd_in_set [of xs]
    by (auto simp: queue_rep_def simp del: hd_in_set)
  then show ?thesis
    using assms(2,3) False chain_snoc [of nx "q_first q" xs t] last_in_set [OF False]
    by (auto simp: q_add_def queue_rep_def fun_upd_twist)
qed

lemma q_add_front_rep:
  assumes "queue_rep nx q xs" "t \<noteq> 0" "t \<notin> set xs"
  shows "\<exists>nx' q'. q_add_front nx q t = Inr (nx', q') \<and> queue_rep nx' q' (t # xs) \<and>
           (\<forall>x. x \<noteq> t \<longrightarrow> nx' x = nx x)"
proof -
  let ?q = "\<lparr>q_first = t, q_last = if xs = [] then t else last xs\<rparr>"
  have r: "chain nx (q_first q) xs" "distinct xs" "q_last q = (if xs = [] then 0 else last xs)"
    using assms(1) by (auto simp: queue_rep_def)
  have "chain (nx(t := q_first q)) (q_first q) xs"
    by (rule chain_frame [OF r(1)]) (use assms(3) in auto)
  then have "queue_rep (nx(t := q_first q)) ?q (t # xs)" using assms(2,3) r(2) by (simp add: queue_rep_def)
  moreover have "q_last q = 0 \<longleftrightarrow> xs = []"
    using queue_rep_nonzero [OF assms(1)] r(3) by (metis last_in_set)
  then have "q_add_front nx q t = Inr (nx(t := q_first q), ?q)"
    using assms(2) r(3) by (cases q) (simp add: q_add_front_def)
  ultimately show ?thesis by simp
qed

lemma q_remove_Nil: "queue_rep nx q [] \<Longrightarrow> q_remove nx q = (0, q)"
  by (simp add: queue_rep_def q_remove_def)

lemma q_remove_Cons:
  assumes "queue_rep nx q (x # xs)"
  shows "\<exists>q'. q_remove nx q = (x, q') \<and> queue_rep nx q' xs"
proof -
  have "chain nx (nx x) xs" "q_first q = x" "x \<noteq> 0" using assms by (auto simp: queue_rep_def)
  then show ?thesis
    using assms chain_first [of nx "nx x" xs] chain_nonzero [of nx "nx x" xs]
    by (cases xs) (auto simp: q_remove_def queue_rep_def Let_def)
qed

lemma q_remove_all_rep:
  assumes "queue_rep nx q xs" "q_remove_all q = (p, q')"
  shows "chain nx p xs \<and> queue_rep nx q' []"
  using assms by (auto simp: queue_rep_def q_remove_all_def)

section \<open>The interface\<close>

locale fifo =
  fixes enq :: "'st \<Rightarrow> 'q \<Rightarrow> u32 \<Rightarrow> ('st \<times> 'q) res" and deq :: "'st \<Rightarrow> 'q \<Rightarrow> u32 \<times> 'q"
    and rep :: "'st \<Rightarrow> 'q \<Rightarrow> u32 list \<Rightarrow> bool"
  assumes rep_wf: "rep st q xs \<Longrightarrow> 0 \<notin> set xs \<and> distinct xs"
    and enq_law: "rep st q xs \<Longrightarrow> t \<noteq> 0 \<Longrightarrow> t \<notin> set xs \<Longrightarrow>
      \<exists>st' q'. enq st q t = Inr (st', q') \<and> rep st' q' (xs @ [t]) \<and>
        (\<forall>r ys. rep st r ys \<longrightarrow> set ys \<inter> insert t (set xs) = {} \<longrightarrow> rep st' r ys)"
    and deq_empty: "rep st q [] \<Longrightarrow> deq st q = (0, q)"
    and deq_law: "rep st q (x # xs) \<Longrightarrow> \<exists>q'. deq st q = (x, q') \<and> rep st q' xs"
begin

lemma deq_cases:
  assumes "rep st q xs"
  obtains (empty) "xs = []" "deq st q = (0, q)"
  | (elem) x ys q' where "xs = x # ys" "x \<noteq> 0" "deq st q = (x, q')" "rep st q' ys" "x \<notin> set ys"
proof (cases xs)
  case Nil then show ?thesis using that(1) assms deq_empty by blast
next
  case (Cons x ys) then show ?thesis using that(2) assms deq_law rep_wf by fastforce
qed

lemma deq_null_iff: "rep st q xs \<Longrightarrow> fst (deq st q) = 0 \<longleftrightarrow> xs = []"
  by (erule deq_cases) auto

text \<open>Moving the first element of one queue to the end of another.\<close>

lemma transfer:
  assumes "rep st q (x # xs)" "rep st r ys" "set (x # xs) \<inter> set ys = {}"
  shows "\<exists>q' st' r'. deq st q = (x, q') \<and> enq st r x = Inr (st', r') \<and>
           rep st' q' xs \<and> rep st' r' (ys @ [x])"
proof -
  obtain q' where q': "deq st q = (x, q')" "rep st q' xs" using deq_law [OF assms(1)] by blast
  have x: "x \<noteq> 0" "x \<notin> set xs" using rep_wf [OF assms(1)] by auto
  obtain st' r' where "enq st r x = Inr (st', r')" "rep st' r' (ys @ [x])"
    "\<forall>q zs. rep st q zs \<longrightarrow> set zs \<inter> insert x (set ys) = {} \<longrightarrow> rep st' q zs"
    using enq_law [OF assms(2) x(1)] assms(3) by auto
  moreover have "set xs \<inter> insert x (set ys) = {}" using x assms(3) by auto
  ultimately show ?thesis using q' by blast
qed

end

interpretation kq: fifo q_add q_remove queue_rep
proof unfold_locales
  fix nx q xs and t :: u32
  assume a: "queue_rep nx q xs" "t \<noteq> 0" "t \<notin> set xs"
  obtain nx' q' where q: "q_add nx q t = Inr (nx', q')" "queue_rep nx' q' (xs @ [t])"
    "\<forall>x. x \<notin> set xs \<union> {t} \<longrightarrow> nx' x = nx x"
    using q_add_rep [OF a] by blast
  then have "queue_rep nx' r ys" if "queue_rep nx r ys" "set ys \<inter> insert t (set xs) = {}" for r ys
    by (intro queue_rep_frame [OF that(1)]) (use that(2) in auto)
  with q show "\<exists>st' q'. q_add nx q t = Inr (st', q') \<and> queue_rep st' q' (xs @ [t]) \<and>
      (\<forall>r ys. queue_rep nx r ys \<longrightarrow> set ys \<inter> insert t (set xs) = {} \<longrightarrow> queue_rep st' r ys)"
    by blast
qed (auto dest: queue_rep_nonzero simp: q_remove_Nil intro: q_remove_Cons)

section \<open>Properties\<close>

text \<open>A sequence of calls on one queue: the pointers the removals return.\<close>

datatype queue_op = QAdd u32 | QAddFront u32 | QRemove

fun run_queue :: "queue_op list \<Rightarrow> links \<Rightarrow> queue \<Rightarrow> (u32 list \<times> links \<times> queue) res" where
  "run_queue [] nx q = Inr ([], nx, q)"
| "run_queue (QAdd t # ops) nx q = bindR (q_add nx q t) (\<lambda>(nx', q'). run_queue ops nx' q')"
| "run_queue (QAddFront t # ops) nx q = bindR (q_add_front nx q t) (\<lambda>(nx', q'). run_queue ops nx' q')"
| "run_queue (QRemove # ops) nx q =
     (let (p, q') = q_remove nx q in
      bindR (run_queue ops nx q') (\<lambda>(ps, nx'', q''). Inr (p # ps, nx'', q'')))"

text \<open>The same calls on a list, defined only while no element is added twice.\<close>

fun spec_queue :: "queue_op list \<Rightarrow> u32 list \<Rightarrow> (u32 list \<times> u32 list) option" where
  "spec_queue [] xs = Some ([], xs)"
| "spec_queue (QAdd t # ops) xs = (if t = 0 \<or> t \<in> set xs then None else spec_queue ops (xs @ [t]))"
| "spec_queue (QAddFront t # ops) xs = (if t = 0 \<or> t \<in> set xs then None else spec_queue ops (t # xs))"
| "spec_queue (QRemove # ops) [] = map_option (\<lambda>(ps, ys). (0 # ps, ys)) (spec_queue ops [])"
| "spec_queue (QRemove # ops) (x # xs) = map_option (\<lambda>(ps, ys). (x # ps, ys)) (spec_queue ops xs)"

lemma run_queue_spec:
  "queue_rep nx q xs \<Longrightarrow> spec_queue ops xs = Some (ps, ys) \<Longrightarrow>
     \<exists>nx' q'. run_queue ops nx q = Inr (ps, nx', q') \<and> queue_rep nx' q' ys"
proof (induction ops xs arbitrary: nx q ps rule: spec_queue.induct)
  case (2 t ops xs)
  then have t: "t \<noteq> 0" "t \<notin> set xs" by (auto split: if_splits)
  then show ?case using 2 q_add_rep [OF 2(2) t] by force
next
  case (3 t ops xs)
  then have t: "t \<noteq> 0" "t \<notin> set xs" by (auto split: if_splits)
  then show ?case using 3 q_add_front_rep [OF 3(2) t] by force
next
  case (4 ops)
  then obtain ps' where ps: "spec_queue ops [] = Some (ps', ys)" "ps = 0 # ps'" by auto
  obtain nx' q' where "run_queue ops nx q = Inr (ps', nx', q')" "queue_rep nx' q' ys"
    using 4(1) [OF 4(2) ps(1)] by blast
  then show ?case using q_remove_Nil [OF 4(2)] ps(2) by simp
next
  case (5 ops x xs)
  then obtain ps' where ps: "spec_queue ops xs = Some (ps', ys)" "ps = x # ps'" by auto
  obtain q' where q': "q_remove nx q = (x, q')" "queue_rep nx q' xs" using q_remove_Cons [OF 5(2)] by blast
  obtain nx'' q'' where "run_queue ops nx q' = Inr (ps', nx'', q'')" "queue_rep nx'' q'' ys"
    using 5(1) [OF q'(2) ps(1)] by blast
  then show ?case using q'(1) ps(2) by simp
qed auto

text \<open>
  (queue_refines_list) Every sequence of \<open>add\<close>, \<open>add_front\<close> and \<open>remove\<close> calls that never adds null or
  an element already in the queue returns what the same calls on a list return: \<open>add\<close> appends,
  \<open>add_front\<close> prepends, \<open>remove\<close> takes the first element or null.
\<close>

theorem queue_refines_list:
  assumes "queue_rep nx q xs" "spec_queue ops xs = Some (ps, ys)"
  shows "\<exists>nx' q'. run_queue ops nx q = Inr (ps, nx', q') \<and> queue_rep nx' q' ys"
  by (rule run_queue_spec [OF assms])

theorem queue_refines_list_witness:
  "\<exists>nx' q'. run_queue [QAdd 8, QAddFront 4, QAdd 12, QRemove, QRemove] (\<lambda>_. 0) q_new =
     Inr ([4, 8], nx', q') \<and> queue_rep nx' q' [12]"
  by (rule queue_refines_list [OF queue_rep_new]) simp

text \<open>
  (queue_separation) Two queues over the same \<open>next\<close> fields do not interfere while they share no element:
  moving the first element of one to the end of the other leaves both well-formed with exactly
  the expected elements.
\<close>

theorem queue_separation:
  assumes "queue_rep nx q (x # xs)" "queue_rep nx r ys" "set (x # xs) \<inter> set ys = {}"
  shows "\<exists>q' nx' r'. q_remove nx q = (x, q') \<and> q_add nx r x = Inr (nx', r') \<and>
           queue_rep nx' q' xs \<and> queue_rep nx' r' (ys @ [x])"
  by (rule kq.transfer [OF assms])

lemma demo_queue: "queue_rep ((\<lambda>_. 0)(4 := 8)) \<lparr>q_first = 4, q_last = 8\<rparr> [4, 8]"
  by (simp add: queue_rep_def)

theorem queue_separation_witness:
  "\<exists>q' nx' r'. q_remove ((\<lambda>_. 0)(4 := 8)) \<lparr>q_first = 4, q_last = 8\<rparr> = (4, q') \<and>
     q_add ((\<lambda>_. 0)(4 := 8)) q_new 4 = Inr (nx', r') \<and> queue_rep nx' q' [8] \<and> queue_rep nx' r' [4]"
  using queue_separation [OF demo_queue queue_rep_new] by auto

end
