(* ===== verification/Spin.thy ===== *)
theory Spin
  imports Prelude
begin

text \<open>
  \<open>Interrupts\<close>, \<open>SpinLock\<close> and \<open>ISL\<close> of \<open>kernel/atomic.h\<close>, at the grain of one atomic access per
  step, with any number of cores.
\<close>

section \<open>Interrupts of one core\<close>

text \<open>The model of a core is its flags register; bit 9 (\<open>0x200\<close>) enables interrupts.\<close>

definition isDisabled :: "u32 \<Rightarrow> bool" where
  "isDisabled flags \<longleftrightarrow> flags AND 0x200 = 0"

definition cli :: "u32 \<Rightarrow> u32" where
  "cli flags = flags AND NOT 0x200"

definition sti :: "u32 \<Rightarrow> u32" where
  "sti flags = flags OR 0x200"

definition disable :: "u32 \<Rightarrow> bool \<times> u32" where
  "disable flags =
     (let wasDisabled = isDisabled flags
      in (wasDisabled, if \<not> wasDisabled then cli flags else flags))"

definition restore :: "bool \<Rightarrow> u32 \<Rightarrow> u32" where
  "restore wasDisabled flags = (if \<not> wasDisabled then sti flags else flags)"

lemma bit_0x200 [simp]: "bit (0x200 :: int) n \<longleftrightarrow> n = 9"
  using bit_exp_iff [where 'a = int, of 9 n] by auto

lemma bit_not_0x200 [simp]: "bit (- 513 :: int) n \<longleftrightarrow> n \<noteq> 9"
  using bit_not_iff [of "0x200 :: int" n] by simp

lemma isDisabled_bit: "isDisabled flags \<longleftrightarrow> \<not> bit flags 9"
proof
  assume "isDisabled flags"
  then have "\<not> bit (flags AND 0x200) 9" by (simp add: isDisabled_def)
  then show "\<not> bit flags 9" by (simp add: bit_and_iff)
next
  assume "\<not> bit flags 9"
  then show "isDisabled flags" unfolding isDisabled_def by (intro bit_word_eqI) (auto simp: bit_and_iff)
qed

lemma isDisabled_cli [simp]: "isDisabled (cli flags)"
  by (simp add: isDisabled_bit cli_def bit_and_iff)

lemma isDisabled_sti [simp]: "\<not> isDisabled (sti flags)"
  by (simp add: isDisabled_bit sti_def bit_or_iff)

lemma isDisabled_disable [simp]: "isDisabled (snd (disable flags))"
  by (simp add: disable_def Let_def)

lemma fst_disable [simp]: "fst (disable flags) = isDisabled flags"
  by (simp add: disable_def Let_def)

lemma sti_cli: "\<not> isDisabled flags \<Longrightarrow> sti (cli flags) = flags"
  by (rule bit_word_eqI)
     (auto simp: isDisabled_bit sti_def cli_def bit_or_iff bit_and_iff)

lemma restore_disable: "restore (isDisabled flags) (snd (disable flags)) = flags"
  by (simp add: restore_def disable_def Let_def sti_cli)

section \<open>The lock\<close>

text \<open>
  Where a core is in \<open>lock\<close> or \<open>unlock\<close>. Each value carries the flags \<open>f\<close> with which the core
  entered \<open>lock\<close> (they occur in no guard) and what the code holds in a local variable.
  \<open>Disabled f w\<close>: after \<open>disable\<close>; \<open>Got f w\<close>: after the successful \<open>exchange\<close>; \<open>Hold f\<close>: after
  \<open>was.set\<close>, in the critical section; \<open>Read f w\<close>: after \<open>was.get\<close>; \<open>Freed f w\<close>: after
  \<open>taken.set(false)\<close>. A failed iteration of the loop ends in \<open>Idle\<close>, from where it is tried again.
\<close>

datatype spin_pc =
  Idle | Disabled u32 bool | Got u32 bool | Hold u32 | Read u32 bool | Freed u32 bool

record spin_sys =
  taken :: bool
  was :: bool
  pc :: "nat \<Rightarrow> spin_pc"
  flags :: "nat \<Rightarrow> u32"

inductive spin_step :: "spin_sys \<Rightarrow> spin_sys \<Rightarrow> bool" where
  user: "pc s c = Idle \<Longrightarrow> spin_step s (s\<lparr>flags := (flags s)(c := f)\<rparr>)"
| lock_disable: "pc s c = Idle \<Longrightarrow> disable (flags s c) = (w, f) \<Longrightarrow>
    spin_step s (s\<lparr>pc := (pc s)(c := Disabled (flags s c) w), flags := (flags s)(c := f)\<rparr>)"
| lock_exchange: "pc s c = Disabled f w \<Longrightarrow> \<not> taken s \<Longrightarrow>
    spin_step s (s\<lparr>taken := True, pc := (pc s)(c := Got f w)\<rparr>)"
| lock_retry: "pc s c = Disabled f w \<Longrightarrow> taken s \<Longrightarrow>
    spin_step s (s\<lparr>pc := (pc s)(c := Idle), flags := (flags s)(c := restore w (flags s c))\<rparr>)"
| lock_was: "pc s c = Got f w \<Longrightarrow>
    spin_step s (s\<lparr>was := w, pc := (pc s)(c := Hold f)\<rparr>)"
| unlock_get: "pc s c = Hold f \<Longrightarrow>
    spin_step s (s\<lparr>pc := (pc s)(c := Read f (was s))\<rparr>)"
| unlock_set: "pc s c = Read f w \<Longrightarrow>
    spin_step s (s\<lparr>taken := False, pc := (pc s)(c := Freed f w)\<rparr>)"
| unlock_restore: "pc s c = Freed f w \<Longrightarrow>
    spin_step s (s\<lparr>pc := (pc s)(c := Idle), flags := (flags s)(c := restore w (flags s c))\<rparr>)"

inductive spin_reach :: "spin_sys \<Rightarrow> bool" where
  init: "\<not> taken s \<Longrightarrow> \<forall>c. pc s c = Idle \<Longrightarrow> spin_reach s"
| step: "spin_reach s \<Longrightarrow> spin_step s t \<Longrightarrow> spin_reach t"

fun owner :: "spin_pc \<Rightarrow> bool" where
  "owner (Got f w) = True"
| "owner (Hold f) = True"
| "owner (Read f w) = True"
| "owner _ = False"

fun pc_ok :: "bool \<Rightarrow> u32 \<Rightarrow> spin_pc \<Rightarrow> bool" where
  "pc_ok ws fl Idle = True"
| "pc_ok ws fl (Disabled f w) \<longleftrightarrow> w = isDisabled f \<and> fl = snd (disable f)"
| "pc_ok ws fl (Got f w) \<longleftrightarrow> w = isDisabled f \<and> fl = snd (disable f)"
| "pc_ok ws fl (Hold f) \<longleftrightarrow> ws = isDisabled f \<and> fl = snd (disable f)"
| "pc_ok ws fl (Read f w) \<longleftrightarrow> w = isDisabled f \<and> fl = snd (disable f)"
| "pc_ok ws fl (Freed f w) \<longleftrightarrow> w = isDisabled f \<and> fl = snd (disable f)"

definition spin_inv :: "spin_sys \<Rightarrow> bool" where
  "spin_inv s \<longleftrightarrow>
     (\<forall>c. pc_ok (was s) (flags s c) (pc s c)) \<and>
     (if taken s then \<exists>h. \<forall>c. owner (pc s c) \<longleftrightarrow> c = h else \<forall>c. \<not> owner (pc s c))"

lemma pc_ok_was: "pc_ok ws fl p \<Longrightarrow> \<not> owner p \<Longrightarrow> pc_ok ws' fl p"
  by (cases p) auto

lemma spin_invI:
  assumes "\<And>c. pc_ok (was s) (flags s c) (pc s c)" "taken s \<Longrightarrow> \<forall>c. owner (pc s c) \<longleftrightarrow> c = h"
    and "\<not> taken s \<Longrightarrow> \<forall>c. \<not> owner (pc s c)"
  shows "spin_inv s"
  using assms by (cases "taken s") (auto simp only: spin_inv_def if_True if_False)

lemma spin_inv_owner: "spin_inv s \<Longrightarrow> owner (pc s c) \<Longrightarrow> taken s \<and> (\<forall>d. owner (pc s d) \<longleftrightarrow> d = c)"
  by (cases "taken s") (auto simp only: spin_inv_def if_True if_False)

text \<open>A step of core \<open>c\<close> that changes neither \<open>taken\<close> nor who owns the lock.\<close>

lemma spin_inv_local:
  assumes "spin_inv s" "pc_ok (was s) f p" "owner p = owner (pc s c)"
  shows "spin_inv (s\<lparr>pc := (pc s)(c := p), flags := (flags s)(c := f)\<rparr>)"
proof -
  have "owner (((pc s)(c := p)) d) = owner (pc s d)" for d using assms(3) by simp
  then show ?thesis using assms(1,2) by (simp add: spin_inv_def)
qed

lemma spin_inv_step:
  assumes inv: "spin_inv s" and step: "spin_step s t" shows "spin_inv t"
proof -
  have ok: "pc_ok (was s) (flags s c) (pc s c)" for c using inv by (simp add: spin_inv_def)
  have own: "taken s \<and> (\<forall>d. owner (pc s d) \<longleftrightarrow> d = c)" if "owner (pc s c)" for c
    by (rule spin_inv_owner [OF inv that])
  show ?thesis
    using step
  proof (cases rule: spin_step.cases)
    case (user c f)
    have "pc_ok (was s) (((flags s)(c := f)) d) (pc s d)" for d
      using ok [of d] user(2) by (cases "d = c") simp_all
    then show ?thesis using inv unfolding user(1) spin_inv_def by simp
  next
    case (lock_disable c w f)
    have "w = isDisabled (flags s c)" "f = snd (disable (flags s c))"
      using lock_disable(3) fst_disable [of "flags s c"] by (simp_all only: fst_conv snd_conv)
    then have "pc_ok (was s) f (Disabled (flags s c) w)" by simp
    moreover have "owner (Disabled (flags s c) w) = owner (pc s c)" using lock_disable(2) by simp
    ultimately show ?thesis unfolding lock_disable(1) by (rule spin_inv_local [OF inv])
  next
    case (lock_exchange c f w)
    have "\<not> owner (pc s d)" for d using inv lock_exchange(3) by (simp add: spin_inv_def)
    then have "\<forall>d. owner (((pc s)(c := Got f w)) d) \<longleftrightarrow> d = c" by simp
    moreover have "pc_ok (was s) (flags s d) (((pc s)(c := Got f w)) d)" for d
      using ok [of d] lock_exchange(2) by (cases "d = c") simp_all
    ultimately show ?thesis unfolding lock_exchange(1) by (intro spin_invI [of _ c]) simp_all
  next
    case (lock_retry c f w)
    then show ?thesis using spin_inv_local [OF inv, of _ Idle c] by simp
  next
    case (lock_was c f w)
    then have o: "taken s \<and> (\<forall>d. owner (pc s d) \<longleftrightarrow> d = c)" by (intro own) simp
    have "pc_ok w (flags s d) (((pc s)(c := Hold f)) d)" for d
      using ok [of c] lock_was(2) pc_ok_was [OF ok, of d w] o by auto
    moreover have "\<forall>d. owner (((pc s)(c := Hold f)) d) \<longleftrightarrow> d = c" using o by simp
    ultimately show ?thesis using o unfolding lock_was(1) by (intro spin_invI [of _ c]) simp_all
  next
    case (unlock_get c f)
    have "pc_ok (was s) (flags s c) (Read f (was s))" "owner (Read f (was s)) = owner (pc s c)"
      using ok [of c] unlock_get(2) by simp_all
    from spin_inv_local [OF inv this] show ?thesis unfolding unlock_get(1) fun_upd_triv by simp
  next
    case (unlock_set c f w)
    then have o: "\<forall>d. owner (pc s d) \<longleftrightarrow> d = c" using own [of c] by simp
    then have "\<forall>d. \<not> owner (((pc s)(c := Freed f w)) d)" by simp
    moreover have "pc_ok (was s) (flags s d) (((pc s)(c := Freed f w)) d)" for d
      using ok [of d] unlock_set(2) by (cases "d = c") simp_all
    ultimately show ?thesis unfolding unlock_set(1) by (intro spin_invI [of _ c]) simp_all
  next
    case (unlock_restore c f w)
    then show ?thesis using spin_inv_local [OF inv, of _ Idle c] by simp
  qed
qed

lemma spin_reach_inv: "spin_reach s \<Longrightarrow> spin_inv s"
proof (induction rule: spin_reach.induct)
  case (init s)
  then show ?case by (simp add: spin_inv_def)
qed (rule spin_inv_step)

section \<open>Properties\<close>

text \<open>
  (C32:spin_mutual_exclusion) In every reachable state at most one core is between acquiring and releasing the spin lock,
  the lock is marked taken, and that core runs with interrupts disabled, whatever the interleaving
  of the atomic accesses of the other cores.
\<close>

theorem spin_mutual_exclusion:
  assumes "spin_reach s" "pc s c = Hold f"
  shows "taken s \<and> isDisabled (flags s c) \<and> (\<forall>d g. pc s d = Hold g \<longrightarrow> d = c)"
proof -
  have i: "spin_inv s" using assms(1) by (rule spin_reach_inv)
  then have "pc_ok (was s) (flags s c) (Hold f)" using assms(2) by (metis spin_inv_def)
  moreover have "taken s" "\<forall>d. owner (pc s d) \<longleftrightarrow> d = c"
    using spin_inv_owner [OF i, of c] assms(2) by auto
  then have "\<forall>d g. pc s d = Hold g \<longrightarrow> d = c" by (metis owner.simps(2))
  ultimately show ?thesis using \<open>taken s\<close> by simp
qed

definition demo_spin :: spin_sys where
  "demo_spin = \<lparr>taken = True, was = False, pc = (\<lambda>_. Idle)(1 := Hold 0x200), flags = (\<lambda>_. 0x200)(1 := 0)\<rparr>"

lemma demo_spin_reach: "spin_reach demo_spin"
proof -
  define s0 where "s0 = \<lparr>taken = False, was = False, pc = \<lambda>_. Idle, flags = \<lambda>_::nat. 0x200 :: u32\<rparr>"
  define s1 where "s1 = s0\<lparr>pc := (pc s0)(1 := Disabled 0x200 False), flags := (flags s0)(1 := 0)\<rparr>"
  define s2 where "s2 = s1\<lparr>taken := True, pc := (pc s1)(1 := Got 0x200 False)\<rparr>"
  have "disable 0x200 = (False, 0)" by (simp add: disable_def isDisabled_def cli_def)
  then have "spin_step s0 s1"
    using spin_step.lock_disable [of s0 1 False 0] by (simp add: s1_def) (simp add: s0_def)
  moreover have "spin_step s1 s2"
    unfolding s2_def by (rule spin_step.lock_exchange) (simp_all add: s1_def s0_def)
  moreover have "spin_step s2 (s2\<lparr>was := False, pc := (pc s2)(1 := Hold 0x200)\<rparr>)"
    by (rule spin_step.lock_was) (simp add: s2_def)
  moreover have "s2\<lparr>was := False, pc := (pc s2)(1 := Hold 0x200)\<rparr> = demo_spin"
    by (simp add: s2_def s1_def s0_def demo_spin_def)
  moreover have "spin_reach s0" by (rule spin_reach.init) (auto simp: s0_def)
  ultimately show ?thesis using spin_reach.step [OF spin_reach.step [OF spin_reach.step]] by simp
qed

theorem spin_mutual_exclusion_witness: "taken demo_spin \<and> isDisabled (flags demo_spin 1)"
proof -
  have "pc demo_spin 1 = Hold 0x200" by (simp add: demo_spin_def)
  from spin_mutual_exclusion [OF demo_spin_reach this] show ?thesis by blast
qed

text \<open>
  (spin_restores_flags) A core leaves \<open>unlock\<close>, and leaves a failed attempt of \<open>lock\<close>, with exactly the flags it
  had when it called \<open>lock\<close>: the value kept in the shared field \<open>was\<close> is never that of another core.
\<close>

theorem spin_restores_flags:
  assumes "spin_reach s" "pc s c = Freed f w \<or> pc s c = Disabled f w"
  shows "restore w (flags s c) = f"
proof -
  have "pc_ok (was s) (flags s c) (pc s c)" using spin_reach_inv [OF assms(1)] by (simp add: spin_inv_def)
  then show ?thesis using assms(2) by (auto simp: restore_disable)
qed

lemma demo_spin_freed:
  "spin_reach (demo_spin\<lparr>taken := False, pc := (\<lambda>_. Idle)(1 := Freed 0x200 False)\<rparr>)"
proof -
  define s1 where "s1 = demo_spin\<lparr>pc := (pc demo_spin)(1 := Read 0x200 (was demo_spin))\<rparr>"
  have "spin_step demo_spin s1" unfolding s1_def by (rule spin_step.unlock_get) (simp add: demo_spin_def)
  moreover have "spin_step s1 (s1\<lparr>taken := False, pc := (pc s1)(1 := Freed 0x200 False)\<rparr>)"
    by (rule spin_step.unlock_set) (simp add: s1_def demo_spin_def)
  moreover have "s1\<lparr>taken := False, pc := (pc s1)(1 := Freed 0x200 False)\<rparr> =
      demo_spin\<lparr>taken := False, pc := (\<lambda>_. Idle)(1 := Freed 0x200 False)\<rparr>"
    by (simp add: s1_def demo_spin_def)
  ultimately show ?thesis using spin_reach.step [OF spin_reach.step [OF demo_spin_reach]] by simp
qed

theorem spin_restores_flags_witness: "restore False (flags demo_spin 1) = 0x200"
  using spin_restores_flags [OF demo_spin_freed, of 1 "0x200" False] by (simp add: demo_spin_def)

section \<open>ISL\<close>

text \<open>
  The lock \<open>impl::atomic::ISL\<close> has no field \<open>was\<close>: its \<open>lock\<close> returns the saved state, and the caller passes it to \<open>unlock\<close>. Points of a core as above; \<open>IHold f w\<close>: in the critical section, with
  \<open>w\<close> the result of \<open>lock\<close>.
\<close>

datatype isl_pc = IIdle | IDisabled u32 bool | IHold u32 bool | IFreed u32 bool

record isl_sys =
  itaken :: bool
  ipc :: "nat \<Rightarrow> isl_pc"
  iflags :: "nat \<Rightarrow> u32"

inductive isl_step :: "isl_sys \<Rightarrow> isl_sys \<Rightarrow> bool" where
  isl_user: "ipc s c = IIdle \<Longrightarrow> isl_step s (s\<lparr>iflags := (iflags s)(c := f)\<rparr>)"
| isl_disable: "ipc s c = IIdle \<Longrightarrow> disable (iflags s c) = (w, f) \<Longrightarrow>
    isl_step s (s\<lparr>ipc := (ipc s)(c := IDisabled (iflags s c) w), iflags := (iflags s)(c := f)\<rparr>)"
| isl_exchange: "ipc s c = IDisabled f w \<Longrightarrow> \<not> itaken s \<Longrightarrow>
    isl_step s (s\<lparr>itaken := True, ipc := (ipc s)(c := IHold f w)\<rparr>)"
| isl_retry: "ipc s c = IDisabled f w \<Longrightarrow> itaken s \<Longrightarrow>
    isl_step s (s\<lparr>ipc := (ipc s)(c := IIdle), iflags := (iflags s)(c := restore w (iflags s c))\<rparr>)"
| isl_unlock_set: "ipc s c = IHold f w \<Longrightarrow>
    isl_step s (s\<lparr>itaken := False, ipc := (ipc s)(c := IFreed f w)\<rparr>)"
| isl_unlock_restore: "ipc s c = IFreed f w \<Longrightarrow>
    isl_step s (s\<lparr>ipc := (ipc s)(c := IIdle), iflags := (iflags s)(c := restore w (iflags s c))\<rparr>)"

inductive isl_reach :: "isl_sys \<Rightarrow> bool" where
  init: "\<not> itaken s \<Longrightarrow> \<forall>c. ipc s c = IIdle \<Longrightarrow> isl_reach s"
| step: "isl_reach s \<Longrightarrow> isl_step s t \<Longrightarrow> isl_reach t"

text \<open>The same state of a spin lock; who holds the lock has not yet stored the saved state.\<close>

fun isl_pc_abs :: "isl_pc \<Rightarrow> spin_pc" where
  "isl_pc_abs IIdle = Idle"
| "isl_pc_abs (IDisabled f w) = Disabled f w"
| "isl_pc_abs (IHold f w) = Got f w"
| "isl_pc_abs (IFreed f w) = Freed f w"

definition isl_abs :: "bool \<Rightarrow> isl_sys \<Rightarrow> spin_sys" where
  "isl_abs ws s = \<lparr>taken = itaken s, was = ws, pc = (\<lambda>c. isl_pc_abs (ipc s c)), flags = iflags s\<rparr>"

lemma isl_abs_fields [simp]:
  "taken (isl_abs ws s) = itaken s" "was (isl_abs ws s) = ws" "pc (isl_abs ws s) c = isl_pc_abs (ipc s c)" "flags (isl_abs ws s) = iflags s"
  by (simp_all add: isl_abs_def)

lemma isl_abs_upd:
  "isl_abs ws (s\<lparr>ipc := (ipc s)(c := p), iflags := fl\<rparr>) = (isl_abs ws s)\<lparr>pc := (pc (isl_abs ws s))(c := isl_pc_abs p), flags := fl\<rparr>"
  "isl_abs ws (s\<lparr>itaken := b, ipc := (ipc s)(c := p)\<rparr>) = (isl_abs ws s)\<lparr>taken := b, pc := (pc (isl_abs ws s))(c := isl_pc_abs p)\<rparr>"
  by (auto simp: isl_abs_def)

text \<open>One step of \<open>ISL\<close> is one of the spin lock, except that \<open>unlock\<close> first stores and reads back \<open>was\<close>.\<close>

lemma isl_refines_spin: "isl_reach s \<Longrightarrow> \<exists>ws. spin_reach (isl_abs ws s)"
proof (induction rule: isl_reach.induct)
  case (init s)
  then show ?case by (intro exI spin_reach.init) simp_all
next
  case (step s t)
  obtain ws where r: "spin_reach (isl_abs ws s)" using step.IH by blast
  from step.hyps(2) show ?case
  proof cases
    case (isl_user c f)
    have "isl_abs ws t = (isl_abs ws s)\<lparr>flags := (flags (isl_abs ws s))(c := f)\<rparr>" by (simp add: isl_user(1) isl_abs_def)
    then show ?thesis using spin_reach.step [OF r spin_step.user [of _ c f]] isl_user(2) by (intro exI [of _ ws]) simp
  next
    case (isl_disable c w f)
    then show ?thesis using spin_reach.step [OF r spin_step.lock_disable [of _ c w f]] by (auto simp: isl_abs_upd)
  next
    case (isl_exchange c f w)
    then show ?thesis using spin_reach.step [OF r spin_step.lock_exchange [of _ c f w]] by (auto simp: isl_abs_upd)
  next
    case (isl_retry c f w)
    then show ?thesis using spin_reach.step [OF r spin_step.lock_retry [of _ c f w]] by (auto simp: isl_abs_upd)
  next
    case (isl_unlock_set c f w)
    let ?a = "isl_abs w s"
    let ?b = "?a\<lparr>pc := (pc ?a)(c := Hold f)\<rparr>"
    have e: "(isl_abs ws s)\<lparr>was := w, pc := (pc (isl_abs ws s))(c := Hold f)\<rparr> = ?b" by (simp add: isl_abs_def)
    have b: "spin_reach ?b" using spin_reach.step [OF r spin_step.lock_was [of _ c f w]] isl_unlock_set(2) unfolding e by simp
    have "spin_reach (?b\<lparr>pc := (pc ?b)(c := Read f w)\<rparr>)" using spin_reach.step [OF b spin_step.unlock_get [of _ c f]] by simp
    from spin_reach.step [OF this spin_step.unlock_set [of _ c f w]]
    have "spin_reach (?a\<lparr>taken := False, pc := (pc ?a)(c := Freed f w)\<rparr>)" by simp
    then show ?thesis using isl_unlock_set(1) isl_abs_upd(2) [where ws = w and s = s and b = False and c = c and p = "IFreed f w"] by (intro exI [of _ w]) simp
  next
    case (isl_unlock_restore c f w)
    then show ?thesis using spin_reach.step [OF r spin_step.unlock_restore [of _ c f w]] by (auto simp: isl_abs_upd)
  qed
qed

text \<open>
  (isl_mutual_exclusion) \<open>ISL\<close> gives mutual exclusion with interrupts disabled, and the value that \<open>lock\<close> returned gives the core back its flags.
\<close>

theorem isl_mutual_exclusion:
  assumes "isl_reach s" "ipc s c = IHold f w"
  shows "itaken s \<and> isDisabled (iflags s c) \<and> restore w (iflags s c) = f \<and> (\<forall>d g v. ipc s d = IHold g v \<longrightarrow> d = c)"
proof -
  obtain ws where "spin_reach (isl_abs ws s)" using isl_refines_spin [OF assms(1)] by blast
  then have i: "spin_inv (isl_abs ws s)" by (rule spin_reach_inv)
  then have "pc_ok (was (isl_abs ws s)) (flags (isl_abs ws s) c) (pc (isl_abs ws s) c)" unfolding spin_inv_def by blast
  then have "pc_ok ws (iflags s c) (Got f w)" using assms(2) by simp
  moreover have "itaken s" "\<forall>d. owner (isl_pc_abs (ipc s d)) \<longleftrightarrow> d = c" using spin_inv_owner [OF i, of c] assms(2) by auto
  then have "\<forall>d g v. ipc s d = IHold g v \<longrightarrow> d = c" by (metis isl_pc_abs.simps(3) owner.simps(1))
  ultimately show ?thesis using \<open>itaken s\<close> by (simp add: restore_disable)
qed

theorem isl_mutual_exclusion_witness: "\<exists>s :: isl_sys. ipc s 1 = IHold 0x200 False \<and> isDisabled (iflags s 1) \<and> restore False (iflags s 1) = 0x200"
proof -
  define s0 where "s0 = \<lparr>itaken = False, ipc = (\<lambda>_. IIdle), iflags = (\<lambda>_. 0x200)\<rparr>"
  define s1 where "s1 = s0\<lparr>ipc := (ipc s0)(1 := IDisabled 0x200 False), iflags := (iflags s0)(1 := 0)\<rparr>"
  define s2 where "s2 = s1\<lparr>itaken := True, ipc := (ipc s1)(1 := IHold 0x200 False)\<rparr>"
  have "isl_reach s0" by (rule isl_reach.init) (simp_all add: s0_def)
  moreover have "disable (iflags s0 1) = (False, 0)" by (simp add: s0_def disable_def isDisabled_def cli_def Let_def)
  then have "isl_step s0 s1" using isl_step.isl_disable [of s0 1 False 0] unfolding s1_def by (simp add: s0_def)
  moreover have "isl_step s1 s2" unfolding s2_def by (rule isl_step.isl_exchange) (simp_all add: s1_def s0_def)
  ultimately have "isl_reach s2" by (blast intro: isl_reach.step)
  moreover have "ipc s2 1 = IHold 0x200 False" by (simp add: s2_def)
  ultimately show ?thesis using isl_mutual_exclusion [of s2 1 "0x200" False] by blast
qed

section \<open>Interrupts off during a call\<close>

definition protect :: "(u32 \<Rightarrow> 'a \<times> u32) \<Rightarrow> u32 \<Rightarrow> 'a \<times> u32" where
  "protect work fl = (let (w, f1) = disable fl; (x, f2) = work f1 in (x, restore w f2))"

lemma protect_restores: "snd (work (snd (disable fl))) = snd (disable fl) \<Longrightarrow> snd (protect work fl) = fl"
  using restore_disable [of fl] by (simp add: protect_def split_def Let_def)

end
