(* ===== verification/Sema.thy ===== *)
theory Sema
  imports KQueue
begin

text \<open>
  \<open>Semaphore\<close> of \<open>kernel/semaphore.h\<close> and \<open>BlockingLock\<close> of \<open>kernel/blocking_lock.h\<close>, with the ready
  queue they hand threads to. One step per critical section of the semaphore's spin lock and one
  per operation of the ready queue, any number of threads, in any order.
\<close>

section \<open>Operations\<close>

record sem =
  sem_n :: "64 word"
  sem_waiting :: queue

definition sem_new :: "u32 \<Rightarrow> sem" where
  "sem_new n = \<lparr>sem_n = ucast n, sem_waiting = q_new\<rparr>"

text \<open>The first critical section of \<open>down\<close>.\<close>

definition down_fast :: "sem \<Rightarrow> bool \<times> sem" where
  "down_fast s = (if sem_n s > 0 then (True, s\<lparr>sem_n := sem_n s - 1\<rparr>) else (False, s))"

text \<open>The critical section of the request that \<open>down\<close> passes to \<open>block\<close>; the helper thread runs it.\<close>

definition down_helper :: "links \<Rightarrow> sem \<Rightarrow> u32 \<Rightarrow> (bool \<times> links \<times> sem) res" where
  "down_helper nx s tcb =
     (if sem_n s > 0 then Inr (True, nx, s\<lparr>sem_n := sem_n s - 1\<rparr>)
      else bindR (q_add nx (sem_waiting s) tcb)
             (\<lambda>(nx', w'). Inr (False, nx', s\<lparr>sem_waiting := w'\<rparr>)))"

text \<open>The critical section of \<open>up\<close>: the thread to wake, null when there is none.\<close>

definition up_section :: "links \<Rightarrow> sem \<Rightarrow> u32 \<times> sem" where
  "up_section nx s =
     (let (wakeup, w') = q_remove nx (sem_waiting s);
          s1 = s\<lparr>sem_waiting := w'\<rparr>
      in (wakeup, if wakeup = 0 then s1\<lparr>sem_n := sem_n s1 + 1\<rparr> else s1))"

definition blocking_lock_new :: sem where
  "blocking_lock_new = sem_new 1"

section \<open>Threads\<close>

text \<open>
  Where a thread is. \<open>Out\<close>: it holds nothing; \<open>Probed\<close>: it found \<open>n = 0\<close> and is about to block;
  \<open>Granted\<close>: its request took a unit but has not put it on the ready queue yet; \<open>Waiting\<close>: it is
  on the semaphore's queue; \<open>Woken\<close>: an \<open>up\<close> took it off that queue; \<open>ReadyIn\<close>: it is on the ready
  queue; \<open>In\<close>: \<open>down\<close> has returned; \<open>Waking w\<close>: in \<open>up\<close>, about to put \<open>w\<close> on the ready queue.
\<close>

datatype sem_pc = Out | Probed | Granted | Waiting | Woken | ReadyIn | In | Waking u32

record sem_sys =
  sy_next :: links
  sy_sem :: sem
  sy_ready :: queue
  sy_pc :: "u32 \<Rightarrow> sem_pc"

inductive sem_step :: "sem_sys \<Rightarrow> sem_sys \<Rightarrow> bool" where
  down_got: "sy_pc y t = Out \<Longrightarrow> t \<noteq> 0 \<Longrightarrow> down_fast (sy_sem y) = (True, s') \<Longrightarrow>
    sem_step y (y\<lparr>sy_sem := s', sy_pc := (sy_pc y)(t := In)\<rparr>)"
| down_miss: "sy_pc y t = Out \<Longrightarrow> t \<noteq> 0 \<Longrightarrow> down_fast (sy_sem y) = (False, s') \<Longrightarrow>
    sem_step y (y\<lparr>sy_sem := s', sy_pc := (sy_pc y)(t := Probed)\<rparr>)"
| block_got: "sy_pc y t = Probed \<Longrightarrow> down_helper (sy_next y) (sy_sem y) t = Inr (True, nx', s') \<Longrightarrow>
    sem_step y (y\<lparr>sy_next := nx', sy_sem := s', sy_pc := (sy_pc y)(t := Granted)\<rparr>)"
| block_wait: "sy_pc y t = Probed \<Longrightarrow> down_helper (sy_next y) (sy_sem y) t = Inr (False, nx', s') \<Longrightarrow>
    sem_step y (y\<lparr>sy_next := nx', sy_sem := s', sy_pc := (sy_pc y)(t := Waiting)\<rparr>)"
| block_ready: "sy_pc y t = Granted \<Longrightarrow> q_add (sy_next y) (sy_ready y) t = Inr (nx', r') \<Longrightarrow>
    sem_step y (y\<lparr>sy_next := nx', sy_ready := r', sy_pc := (sy_pc y)(t := ReadyIn)\<rparr>)"
| up_free: "sy_pc y t = In \<Longrightarrow> up_section (sy_next y) (sy_sem y) = (0, s') \<Longrightarrow>
    sem_step y (y\<lparr>sy_sem := s', sy_pc := (sy_pc y)(t := Out)\<rparr>)"
| up_wake: "sy_pc y t = In \<Longrightarrow> up_section (sy_next y) (sy_sem y) = (w, s') \<Longrightarrow> w \<noteq> 0 \<Longrightarrow>
    sem_step y (y\<lparr>sy_sem := s', sy_pc := (sy_pc y)(t := Waking w, w := Woken)\<rparr>)"
| up_ready: "sy_pc y t = Waking w \<Longrightarrow> q_add (sy_next y) (sy_ready y) w = Inr (nx', r') \<Longrightarrow>
    sem_step y (y\<lparr>sy_next := nx', sy_ready := r', sy_pc := (sy_pc y)(t := Out, w := ReadyIn)\<rparr>)"
| dispatch: "q_remove (sy_next y) (sy_ready y) = (t, r') \<Longrightarrow> t \<noteq> 0 \<Longrightarrow>
    sem_step y (y\<lparr>sy_ready := r', sy_pc := (sy_pc y)(t := In)\<rparr>)"

definition sem_init :: "u32 \<Rightarrow> sem_sys" where
  "sem_init n = \<lparr>sy_next = \<lambda>_. 0, sy_sem = sem_new n, sy_ready = q_new, sy_pc = \<lambda>_. Out\<rparr>"

inductive sem_reach :: "u32 \<Rightarrow> sem_sys \<Rightarrow> bool" for n where
  sr_init: "sem_reach n (sem_init n)"
| sr_step: "sem_reach n y \<Longrightarrow> sem_step y z \<Longrightarrow> sem_reach n z"

section \<open>Invariant\<close>

text \<open>The units a thread holds or has been promised.\<close>

fun granted :: "sem_pc \<Rightarrow> bool" where
  "granted Granted = True"
| "granted Woken = True"
| "granted ReadyIn = True"
| "granted In = True"
| "granted _ = False"

text \<open>\<open>placed\<close>: the queues hold exactly the threads whose place says so.\<close>

definition placed :: "(u32 \<Rightarrow> sem_pc) \<Rightarrow> u32 list \<Rightarrow> u32 list \<Rightarrow> u32 set \<Rightarrow> bool" where
  "placed pcs ws rs G \<longleftrightarrow>
     (\<forall>t. t \<in> set ws \<longleftrightarrow> pcs t = Waiting) \<and> (\<forall>t. t \<in> set rs \<longleftrightarrow> pcs t = ReadyIn) \<and>
     (\<forall>t. t \<in> G \<longleftrightarrow> granted (pcs t)) \<and> finite G \<and> pcs 0 = Out \<and>
     (\<forall>t w. pcs t = Waking w \<longrightarrow> pcs w = Woken) \<and>
     (\<forall>t u w. pcs t = Waking w \<longrightarrow> pcs u = Waking w \<longrightarrow> t = u)"

definition sem_rep :: "nat \<Rightarrow> links \<Rightarrow> sem \<Rightarrow> queue \<Rightarrow> u32 list \<Rightarrow> u32 list \<Rightarrow> u32 set \<Rightarrow> bool" where
  "sem_rep n0 nx s r ws rs G \<longleftrightarrow>
     queue_rep nx (sem_waiting s) ws \<and> queue_rep nx r rs \<and> (sem_n s > 0 \<longrightarrow> ws = []) \<and>
     unat (sem_n s) + card G = n0 \<and> n0 < 2 ^ 64"

definition sem_inv :: "nat \<Rightarrow> sem_sys \<Rightarrow> bool" where
  "sem_inv n0 y \<longleftrightarrow> (\<exists>ws rs G. placed (sy_pc y) ws rs G \<and>
     sem_rep n0 (sy_next y) (sy_sem y) (sy_ready y) ws rs G)"

lemma sem_invI:
  "placed (sy_pc y) ws rs G \<Longrightarrow> sem_rep n0 (sy_next y) (sy_sem y) (sy_ready y) ws rs G \<Longrightarrow> sem_inv n0 y"
  unfolding sem_inv_def by blast

lemma placedD:
  assumes "placed pcs ws rs G"
  shows "t \<in> set ws \<longleftrightarrow> pcs t = Waiting" "t \<in> set rs \<longleftrightarrow> pcs t = ReadyIn" "t \<in> G \<longleftrightarrow> granted (pcs t)"
    "finite G" "pcs 0 = Out" "pcs t = Waking w \<Longrightarrow> pcs w = Woken"
    "pcs t = Waking w \<Longrightarrow> pcs u = Waking w \<Longrightarrow> t = u"
  using assms unfolding placed_def by (blast+)

lemma placed_disjoint: "placed pcs ws rs G \<Longrightarrow> set ws \<inter> set rs = {} \<and> 0 \<notin> set ws \<union> set rs"
  by (auto simp: placed_def)

text \<open>Moving one thread to another place.\<close>

lemma placed_upd:
  assumes p: "placed pcs ws rs G" and t: "t \<noteq> 0" "finite G'"
    and ws: "\<And>u. u \<in> set ws' \<longleftrightarrow> (if u = t then p = Waiting else u \<in> set ws)"
    and rs: "\<And>u. u \<in> set rs' \<longleftrightarrow> (if u = t then p = ReadyIn else u \<in> set rs)"
    and G: "\<And>u. u \<in> G' \<longleftrightarrow> (if u = t then granted p else u \<in> G)"
    and nw: "\<And>u. u \<noteq> t \<Longrightarrow> pcs u \<noteq> Waking t"
    and wk: "\<And>w. p = Waking w \<Longrightarrow> w \<noteq> t \<and> pcs w = Woken \<and> (\<forall>u. u \<noteq> t \<longrightarrow> pcs u \<noteq> Waking w)"
  shows "placed (pcs(t := p)) ws' rs' G'"
proof -
  note D = placedD [OF p]
  have woken: "(pcs(t := p)) w = Woken" if "(pcs(t := p)) u = Waking w" for u w
  proof (cases "u = t")
    case True then show ?thesis using that wk [of w] by simp
  next
    case False
    then have u: "pcs u = Waking w" using that by simp
    then have "w \<noteq> t" using nw [OF False] by auto
    then show ?thesis using D(6) [OF u] by simp
  qed
  have unique: "u = v" if uv: "(pcs(t := p)) u = Waking w" "(pcs(t := p)) v = Waking w" for u v w
  proof (cases "u = t \<or> v = t")
    case True then show ?thesis using uv wk [of w] by (auto split: if_splits)
  next
    case False then show ?thesis using uv D(7) [of u w v] by simp
  qed
  have "u \<in> set ws' \<longleftrightarrow> (pcs(t := p)) u = Waiting" for u using ws [of u] D(1) [of u] by simp
  moreover have "u \<in> set rs' \<longleftrightarrow> (pcs(t := p)) u = ReadyIn" for u using rs [of u] D(2) [of u] by simp
  moreover have "u \<in> G' \<longleftrightarrow> granted ((pcs(t := p)) u)" for u using G [of u] D(3) [of u] by simp
  moreover have "(pcs(t := p)) 0 = Out" using t(1) D(5) by simp
  ultimately show ?thesis unfolding placed_def using t(2) woken unique by blast
qed

lemma placed_no_waker: "placed pcs ws rs G \<Longrightarrow> pcs t \<noteq> Woken \<Longrightarrow> pcs u \<noteq> Waking t"
  using placedD(6) by blast

lemma placed_plain:
  assumes "placed pcs ws rs G" "pcs t \<in> {Out, Probed}" "p \<in> {Out, Probed}" "t \<noteq> 0"
  shows "placed (pcs(t := p)) ws rs G"
  using assms placed_no_waker [OF assms(1), of t] placedD(1-4) [OF assms(1)]
  by (intro placed_upd [OF assms(1)]) auto

lemma placed_wait:
  assumes "placed pcs ws rs G" "pcs t = Probed"
  shows "placed (pcs(t := Waiting)) (ws @ [t]) rs G"
  using assms placed_no_waker [OF assms(1), of t] placedD(1-5) [OF assms(1)]
  by (intro placed_upd [OF assms(1)]) auto

lemma placed_grant:
  assumes "placed pcs ws rs G" "pcs t \<in> {Out, Probed}" "p \<in> {In, Granted}" "t \<noteq> 0"
  shows "placed (pcs(t := p)) ws rs (insert t G)"
  using assms placed_no_waker [OF assms(1), of t] placedD(1-4) [OF assms(1)]
  by (intro placed_upd [OF assms(1)]) auto

lemma placed_ready:
  assumes "placed pcs ws rs G" "pcs t = Granted"
  shows "placed (pcs(t := ReadyIn)) ws (rs @ [t]) G"
  using assms placed_no_waker [OF assms(1), of t] placedD(1-5) [OF assms(1)]
  by (intro placed_upd [OF assms(1)]) auto

lemma placed_free:
  assumes "placed pcs ws rs G" "pcs t = In"
  shows "placed (pcs(t := Out)) ws rs (G - {t})"
  using assms placed_no_waker [OF assms(1), of t] placedD(1-5) [OF assms(1)]
  by (intro placed_upd [OF assms(1)]) auto

lemma placed_wake:
  assumes "placed pcs (w # ws) rs G" "pcs t = In" "w \<notin> set ws"
  shows "placed (pcs(t := Waking w, w := Woken)) ws rs (insert w (G - {t}))"
proof -
  have w: "pcs w = Waiting" using placedD(1) [OF assms(1), of w] by simp
  have ne: "w \<noteq> t" "t \<noteq> 0" "w \<noteq> 0" using assms(2) w placedD(5) [OF assms(1)] by auto
  have nw: "pcs u \<noteq> Waking w" "pcs u \<noteq> Waking t" for u
    using placed_no_waker [OF assms(1)] w assms(2) by auto
  have 1: "placed (pcs(w := Woken)) ws rs (insert w G)"
    using placedD(1-4) [OF assms(1)] w ne nw assms(3) by (intro placed_upd [OF assms(1)]) auto
  have "placed (pcs(w := Woken, t := Waking w)) ws rs (insert w (G - {t}))"
    using placedD(1-4) [OF assms(1)] placedD(1) [OF assms(1), of t] w ne nw assms(2,3)
    by (intro placed_upd [OF 1]) auto
  then show ?thesis using ne(1) by (simp add: fun_upd_twist)
qed

lemma placed_waked:
  assumes "placed pcs ws rs G" "pcs t = Waking w"
  shows "placed (pcs(t := Out, w := ReadyIn)) ws (rs @ [w]) G"
proof -
  have w: "pcs w = Woken" using placedD(6) [OF assms] .
  have ne: "w \<noteq> t" "t \<noteq> 0" "w \<noteq> 0" using assms(2) w placedD(5) [OF assms(1)] by auto
  have nw: "pcs u \<noteq> Waking t" "u \<noteq> t \<Longrightarrow> pcs u \<noteq> Waking w" for u
    using placed_no_waker [OF assms(1)] placedD(7) [OF assms(1), of u w t] assms(2) by auto
  have 1: "placed (pcs(t := Out)) ws rs G"
    using placedD(1-4) [OF assms(1)] ne nw assms(2) by (intro placed_upd [OF assms(1)]) auto
  show ?thesis
    using placedD(1-4) [OF assms(1)] w ne nw assms(2) by (intro placed_upd [OF 1]) auto
qed

lemma placed_dispatch:
  assumes "placed pcs ws (t # rs) G" "t \<notin> set rs"
  shows "placed (pcs(t := In)) ws rs G"
proof -
  have t: "pcs t = ReadyIn" using placedD(2) [OF assms(1), of t] by simp
  moreover have "t \<noteq> 0" using t placedD(5) [OF assms(1)] by auto
  ultimately show ?thesis
    using placed_no_waker [OF assms(1), of t] placedD(1-4) [OF assms(1)] assms(2)
    by (intro placed_upd [OF assms(1)]) auto
qed

text \<open>The effect of the critical sections and of the ready queue.\<close>

lemma sem_rep_take:
  assumes "sem_rep n0 nx s r ws rs G" "sem_n s > 0" "t \<notin> G" "finite G"
  shows "sem_rep n0 nx (s\<lparr>sem_n := sem_n s - 1\<rparr>) r ws rs (insert t G)"
proof -
  have "sem_n s \<noteq> 0" using assms(2) by auto
  then have "unat (sem_n s) = Suc (unat (sem_n s - 1))" by (simp add: unat_minus_one unat_eq_0 [symmetric])
  then show ?thesis using assms by (auto simp: sem_rep_def)
qed

lemma sem_rep_give:
  assumes "sem_rep n0 nx s r [] rs G" "t \<in> G" "finite G"
  shows "sem_rep n0 nx (s\<lparr>sem_n := sem_n s + 1\<rparr>) r [] rs (G - {t})"
proof -
  have "0 < card G" using assms(2,3) by (auto simp: card_gt_0_iff)
  then have "unat (sem_n s) + 1 < 2 ^ 64 \<and> card G = Suc (card (G - {t}))"
    using assms by (simp add: sem_rep_def card_Suc_Diff1)
  then have "unat (sem_n s + 1) = unat (sem_n s) + 1" "card G = Suc (card (G - {t}))"
    by (simp_all add: unat_word_ariths(1))
  then show ?thesis using assms(1) by (simp add: sem_rep_def)
qed

lemma down_helper_wait:
  assumes "sem_rep n0 nx s r ws rs G" "sem_n s = 0" "t \<noteq> 0" "t \<notin> set ws" "t \<notin> set rs"
    "set ws \<inter> set rs = {}"
  shows "\<exists>nx' w'. down_helper nx s t = Inr (False, nx', s\<lparr>sem_waiting := w'\<rparr>) \<and>
           sem_rep n0 nx' (s\<lparr>sem_waiting := w'\<rparr>) r (ws @ [t]) rs G"
proof -
  obtain nx' w' where q: "q_add nx (sem_waiting s) t = Inr (nx', w')" "queue_rep nx' w' (ws @ [t])"
    "\<forall>q ys. queue_rep nx q ys \<longrightarrow> set ys \<inter> insert t (set ws) = {} \<longrightarrow> queue_rep nx' q ys"
    using kq.enq_law [of nx "sem_waiting s" ws t] assms by (auto simp: sem_rep_def)
  moreover have "queue_rep nx' r rs" using q(3) assms by (auto simp: sem_rep_def)
  ultimately have "sem_rep n0 nx' (s\<lparr>sem_waiting := w'\<rparr>) r (ws @ [t]) rs G"
    using assms(1,2) by (simp add: sem_rep_def)
  moreover have "down_helper nx s t = Inr (False, nx', s\<lparr>sem_waiting := w'\<rparr>)"
    using q(1) assms(2) by (simp add: down_helper_def)
  ultimately show ?thesis by blast
qed

lemma up_section_cases:
  assumes "sem_rep n0 nx s r ws rs G"
  obtains (free) "ws = []" "up_section nx s = (0, s\<lparr>sem_n := sem_n s + 1\<rparr>)"
  | (wake) w vs q' where "ws = w # vs" "w \<noteq> 0" "w \<notin> set vs" "up_section nx s = (w, s\<lparr>sem_waiting := q'\<rparr>)"
      "sem_rep n0 nx (s\<lparr>sem_waiting := q'\<rparr>) r vs rs G"
proof -
  have rep: "queue_rep nx (sem_waiting s) ws" using assms by (simp add: sem_rep_def)
  show ?thesis
    using rep
  proof (cases rule: kq.deq_cases)
    case empty
    then show ?thesis using that(1) by (simp add: up_section_def)
  next
    case (elem w vs q')
    then show ?thesis using that(2) [of w vs q'] assms by (simp add: up_section_def sem_rep_def)
  qed
qed

lemma ready_add:
  assumes "sem_rep n0 nx s r ws rs G" "t \<noteq> 0" "t \<notin> set ws" "t \<notin> set rs" "set ws \<inter> set rs = {}"
  shows "\<exists>nx' r'. q_add nx r t = Inr (nx', r') \<and> sem_rep n0 nx' s r' ws (rs @ [t]) G"
proof -
  obtain nx' r' where q: "q_add nx r t = Inr (nx', r')" "queue_rep nx' r' (rs @ [t])"
    "\<forall>q ys. queue_rep nx q ys \<longrightarrow> set ys \<inter> insert t (set rs) = {} \<longrightarrow> queue_rep nx' q ys"
    using kq.enq_law [of nx r rs t] assms by (auto simp: sem_rep_def)
  moreover have "queue_rep nx' (sem_waiting s) ws" using q(3) assms by (auto simp: sem_rep_def)
  ultimately show ?thesis using assms(1) by (simp add: sem_rep_def)
qed

lemma sem_init_inv: "sem_inv (unat n) (sem_init n)"
proof -
  have "unat n < 2 ^ 64" by (rule order_less_trans [OF unat_u32_less]) simp
  moreover from this have "unat (ucast n :: 64 word) = unat n"
    by (simp only: unsigned_ucast_eq) (simp add: take_bit_nat_eq_self)
  ultimately show ?thesis
    by (intro sem_invI [of _ "[]" "[]" "{}"])
       (simp_all add: sem_init_def sem_new_def placed_def sem_rep_def queue_rep_new)
qed

lemma sem_inv_step:
  assumes "sem_inv n0 y" "sem_step y z" shows "sem_inv n0 z"
proof -
  obtain ws rs G where p: "placed (sy_pc y) ws rs G"
    and r: "sem_rep n0 (sy_next y) (sy_sem y) (sy_ready y) ws rs G"
    using assms(1) by (auto simp: sem_inv_def)
  note dj = placed_disjoint [OF p]
  have mem: "t \<in> set ws \<longleftrightarrow> sy_pc y t = Waiting" "t \<in> set rs \<longleftrightarrow> sy_pc y t = ReadyIn"
    "t \<in> G \<longleftrightarrow> granted (sy_pc y t)" "finite G" "sy_pc y 0 = Out" for t
    using placedD(1-5) [OF p] by blast+
  have nz: "t \<noteq> 0" if "sy_pc y t \<noteq> Out" for t using that mem(5) by auto
  show ?thesis
    using assms(2)
  proof (cases rule: sem_step.cases)
    case (down_got t s')
    then have "sem_n (sy_sem y) > 0" "s' = sy_sem y\<lparr>sem_n := sem_n (sy_sem y) - 1\<rparr>"
      by (auto simp: down_fast_def split: if_splits)
    then show ?thesis
      using placed_grant [OF p, of t In] sem_rep_take [OF r, of t] down_got mem
      by (intro sem_invI [of _ ws rs "insert t G"]) simp_all
  next
    case (down_miss t s')
    then have "s' = sy_sem y" by (auto simp: down_fast_def split: if_splits)
    then show ?thesis
      using placed_plain [OF p, of t Probed] r down_miss by (intro sem_invI [of _ ws rs G]) simp_all
  next
    case (block_got t nx' s')
    then have "sem_n (sy_sem y) > 0" "s' = sy_sem y\<lparr>sem_n := sem_n (sy_sem y) - 1\<rparr>" "nx' = sy_next y"
      by (auto simp: down_helper_def bindR_Inr_conv split: if_splits)
    then show ?thesis
      using placed_grant [OF p, of t Granted] sem_rep_take [OF r, of t] block_got mem nz [of t]
      by (intro sem_invI [of _ ws rs "insert t G"]) simp_all
  next
    case (block_wait t nx' s')
    then have "sem_n (sy_sem y) = 0" by (auto simp: down_helper_def word_gt_0 split: if_splits)
    then obtain w' where "s' = sy_sem y\<lparr>sem_waiting := w'\<rparr>"
      "sem_rep n0 nx' s' (sy_ready y) (ws @ [t]) rs G"
      using down_helper_wait [OF r, of t] block_wait mem nz [of t] dj by auto
    then show ?thesis
      using placed_wait [OF p] block_wait by (intro sem_invI [of _ "ws @ [t]" rs G]) simp_all
  next
    case (block_ready t nx' r')
    then have "sem_rep n0 nx' (sy_sem y) r' ws (rs @ [t]) G"
      using ready_add [OF r, of t] mem nz [of t] dj by auto
    then show ?thesis
      using placed_ready [OF p] block_ready by (intro sem_invI [of _ ws "rs @ [t]" G]) simp_all
  next
    case (up_free t s')
    from r show ?thesis
    proof (cases rule: up_section_cases)
      case free
      then show ?thesis
        using sem_rep_give [of n0 "sy_next y" "sy_sem y" "sy_ready y" rs G t] r placed_free [OF p, of t] up_free mem
        by (intro sem_invI [of _ "[]" rs "G - {t}"]) simp_all
    qed (use up_free in simp)
  next
    case (up_wake t w s')
    from r show ?thesis
    proof (cases rule: up_section_cases)
      case (wake w' vs q')
      then have w: "w' = w" "s' = sy_sem y\<lparr>sem_waiting := q'\<rparr>" using up_wake by auto
      have "sy_pc y w = Waiting" using mem(1) [of w] wake(1) w(1) by simp
      then have "w \<notin> G" "t \<in> G" using mem(3) [of w] mem(3) [of t] up_wake(2) by simp_all
      then have "card (insert w (G - {t})) = card G"
        using mem(4) card.remove [of G t] by (simp del: card_Diff_insert card_Diff_singleton)
      then have "sem_rep n0 (sy_next y) s' (sy_ready y) vs rs (insert w (G - {t}))"
        using wake(5) w by (simp add: sem_rep_def)
      then show ?thesis
        using placed_wake [of "sy_pc y" w vs rs G t] p wake w up_wake
        by (intro sem_invI [of _ vs rs "insert w (G - {t})"]) simp_all
    qed (use up_wake in simp)
  next
    case (up_ready t w nx' r')
    then have "sy_pc y w = Woken" using placedD(6) [OF p] by blast
    then have "sem_rep n0 nx' (sy_sem y) r' ws (rs @ [w]) G"
      using ready_add [OF r, of w] mem nz [of w] dj up_ready(3) by auto
    then show ?thesis
      using placed_waked [OF p] up_ready by (intro sem_invI [of _ ws "rs @ [w]" G]) simp_all
  next
    case (dispatch t r')
    have "queue_rep (sy_next y) (sy_ready y) rs" using r by (simp add: sem_rep_def)
    then show ?thesis
    proof (cases rule: kq.deq_cases)
      case (elem x xs q')
      then show ?thesis
        using placed_dispatch [of "sy_pc y" ws t xs G] p r dispatch
        by (intro sem_invI [of _ ws xs G]) (simp_all add: sem_rep_def)
    qed (use dispatch in simp)
  qed
qed

lemma sem_reach_inv: "sem_reach n y \<Longrightarrow> sem_inv (unat n) y"
  by (induction rule: sem_reach.induct) (auto intro: sem_init_inv sem_inv_step)

section \<open>The counting semaphore\<close>

text \<open>
  The abstract semaphore: a number of free units and the set of holders. A thread that the code
  wakes in \<open>up\<close> receives the unit that is given back, so that step is a release followed by an
  acquire.
\<close>

inductive count_step :: "nat \<times> u32 set \<Rightarrow> nat \<times> u32 set \<Rightarrow> bool" where
  acquire: "t \<notin> H \<Longrightarrow> count_step (Suc v, H) (v, insert t H)"
| release: "t \<in> H \<Longrightarrow> count_step (v, H) (Suc v, H - {t})"

definition sem_abs :: "sem_sys \<Rightarrow> nat \<times> u32 set" where
  "sem_abs y = (unat (sem_n (sy_sem y)), {t. granted (sy_pc y t)})"

lemma sem_abs_same:
  assumes "sem_n (sy_sem z) = sem_n (sy_sem y)" "\<And>t. granted (sy_pc z t) = granted (sy_pc y t)"
  shows "count_step\<^sup>*\<^sup>* (sem_abs y) (sem_abs z)"
  using assms by (simp add: sem_abs_def)

lemma sem_abs_acquire:
  assumes "sem_n (sy_sem y) > 0" "sem_n (sy_sem z) = sem_n (sy_sem y) - 1" "\<not> granted (sy_pc y t)"
    "\<And>u. granted (sy_pc z u) \<longleftrightarrow> u = t \<or> granted (sy_pc y u)"
  shows "count_step\<^sup>*\<^sup>* (sem_abs y) (sem_abs z)"
proof -
  have "sem_n (sy_sem y) \<noteq> 0" using assms(1) by auto
  then have n: "unat (sem_n (sy_sem y)) = Suc (unat (sem_n (sy_sem z)))"
    using assms(2) by (simp add: unat_minus_one unat_eq_0 [symmetric])
  have H: "{u. granted (sy_pc z u)} = insert t {u. granted (sy_pc y u)}" using assms(4) by auto
  show ?thesis
    unfolding sem_abs_def n H using assms(3) by (intro r_into_rtranclp count_step.acquire) simp
qed

lemma sem_step_refines:
  assumes "sem_inv n0 y" "sem_step y z" shows "count_step\<^sup>*\<^sup>* (sem_abs y) (sem_abs z)"
proof -
  obtain ws rs G where p: "placed (sy_pc y) ws rs G"
    and r: "sem_rep n0 (sy_next y) (sy_sem y) (sy_ready y) ws rs G"
    using assms(1) by (auto simp: sem_inv_def)
  note mem = placedD [OF p]
  have G: "{u. granted (sy_pc y u)} = G" using mem(3) by auto
  show ?thesis
    using assms(2)
  proof (cases rule: sem_step.cases)
    case (down_got t s')
    then show ?thesis by (intro sem_abs_acquire [of y z t]) (auto simp: down_fast_def split: if_splits)
  next
    case (down_miss t s')
    then show ?thesis by (intro sem_abs_same) (auto simp: down_fast_def split: if_splits)
  next
    case (block_got t nx' s')
    then show ?thesis
      by (intro sem_abs_acquire [of y z t]) (auto simp: down_helper_def bindR_Inr_conv split: if_splits)
  next
    case (block_wait t nx' s')
    then show ?thesis
      by (intro sem_abs_same) (auto simp: down_helper_def bindR_Inr_conv split: if_splits)
  next
    case (block_ready t nx' r')
    then show ?thesis by (intro sem_abs_same) auto
  next
    case (up_free t s')
    from r show ?thesis
    proof (cases rule: up_section_cases)
      case free
      then have s': "s' = (sy_sem y)\<lparr>sem_n := sem_n (sy_sem y) + 1\<rparr>" using up_free by simp
      have "t \<in> G" using mem(3) [of t] up_free(2) by simp
      have "unat (sem_n s') + card (G - {t}) = n0" "unat (sem_n (sy_sem y)) + card G = n0"
        using sem_rep_give [OF r [unfolded free(1)] \<open>t \<in> G\<close> mem(4)] r s' by (simp_all only: sem_rep_def)
      then have "unat (sem_n s') = Suc (unat (sem_n (sy_sem y)))"
        using card.remove [OF mem(4) \<open>t \<in> G\<close>] by linarith
      moreover have "{u. granted (sy_pc z u)} = G - {t}" using up_free(1) G by auto
      ultimately show ?thesis
        using up_free(1) \<open>t \<in> G\<close> G by (auto simp: sem_abs_def intro!: r_into_rtranclp count_step.release)
    qed (use up_free in simp)
  next
    case (up_wake t w s')
    from r show ?thesis
    proof (cases rule: up_section_cases)
      case (wake w' vs q')
      then have n: "w' = w" "sem_n s' = sem_n (sy_sem y)" using up_wake by auto
      have wt: "sy_pc y w = Waiting" using mem(1) [of w] wake(1) n(1) by simp
      then have m: "w \<notin> G" "t \<in> G" "w \<noteq> t" using mem(3) [of w] mem(3) [of t] up_wake(2) by auto
      have "{u. granted (sy_pc z u)} = insert w (G - {t})" using up_wake(1) m(3) G by auto
      then have z: "sem_abs z = (unat (sem_n (sy_sem y)), insert w (G - {t}))"
        using up_wake(1) n(2) by (simp add: sem_abs_def)
      have "count_step (sem_abs y) (Suc (unat (sem_n (sy_sem y))), G - {t})"
        unfolding sem_abs_def G using m(2) by (rule count_step.release)
      moreover have "count_step (Suc (unat (sem_n (sy_sem y))), G - {t}) (sem_abs z)"
        unfolding z using m(1) by (intro count_step.acquire) simp
      ultimately show ?thesis by (rule converse_rtranclp_into_rtranclp [OF _ r_into_rtranclp])
    qed (use up_wake in simp)
  next
    case (up_ready t w nx' r')
    have "sy_pc y w = Woken" using mem(6) [OF up_ready(2)] .
    then show ?thesis using up_ready by (intro sem_abs_same) auto
  next
    case (dispatch t r')
    have "queue_rep (sy_next y) (sy_ready y) rs" using r by (simp add: sem_rep_def)
    then have "sy_pc y t = ReadyIn"
      by (cases rule: kq.deq_cases) (use dispatch mem(2) [of t] in auto)
    then show ?thesis using dispatch by (intro sem_abs_same) auto
  qed
qed

section \<open>Properties\<close>

text \<open>
  (semaphore_bound) In every reachable state at most \<open>n\<close> threads have returned from \<open>down\<close> without having
  called \<open>up\<close>, where \<open>n\<close> is the number the semaphore was made with; units are neither lost nor
  made: the free ones and those granted always add up to \<open>n\<close>.
\<close>

theorem semaphore_bound:
  assumes "sem_reach n y"
  shows "card {t. sy_pc y t = In} \<le> unat n \<and>
    unat (sem_n (sy_sem y)) + card {t. granted (sy_pc y t)} = unat n"
proof -
  obtain ws rs G where p: "placed (sy_pc y) ws rs G"
    and r: "sem_rep (unat n) (sy_next y) (sy_sem y) (sy_ready y) ws rs G"
    using sem_reach_inv [OF assms] by (auto simp: sem_inv_def)
  have G: "{u. granted (sy_pc y u)} = G" using placedD(3) [OF p] by auto
  have "{t. sy_pc y t = In} \<subseteq> G" using G by auto
  then have "card {t. sy_pc y t = In} \<le> card G" using placedD(4) [OF p] by (rule card_mono [rotated])
  then show ?thesis using r G by (simp add: sem_rep_def)
qed

lemma demo_sem_reach: "sem_reach 1 ((sem_init 1)\<lparr>sy_sem := \<lparr>sem_n = 0, sem_waiting = q_new\<rparr>, sy_pc := (\<lambda>_. Out)(4 := In)\<rparr>)"
proof -
  have "sem_step (sem_init 1) ((sem_init 1)\<lparr>sy_sem := \<lparr>sem_n = 0, sem_waiting = q_new\<rparr>,
      sy_pc := (sy_pc (sem_init 1))(4 := In)\<rparr>)"
    by (rule sem_step.down_got) (simp_all add: sem_init_def sem_new_def down_fast_def)
  from sr_step [OF sr_init this] show ?thesis by (simp add: sem_init_def)
qed

theorem semaphore_bound_witness: "card {t :: u32. ((\<lambda>_. Out)(4 := In)) t = In} \<le> unat (1 :: u32)"
  using semaphore_bound [OF demo_sem_reach] by simp

text \<open>
  (blocking_lock_mutex) \<open>BlockingLock\<close> gives mutual exclusion: two threads between \<open>lock\<close> and \<open>unlock\<close> are the
  same thread.
\<close>

theorem blocking_lock_mutex:
  assumes "sem_reach 1 y" "sy_pc y t = In" "sy_pc y u = In"
  shows "t = u"
proof -
  obtain ws rs G where p: "placed (sy_pc y) ws rs G"
    and r: "sem_rep 1 (sy_next y) (sy_sem y) (sy_ready y) ws rs G"
    using sem_reach_inv [OF assms(1)] by (auto simp: sem_inv_def)
  have "t \<in> G" "u \<in> G" using placedD(3) [OF p] assms(2,3) by simp_all
  moreover have "card G \<le> 1" using r by (simp add: sem_rep_def)
  ultimately show ?thesis using placedD(4) [OF p] card_le_Suc0_iff_eq [of G] by auto
qed

theorem blocking_lock_mutex_witness:
  "\<exists>y. sem_reach 1 y \<and> {t. sy_pc y t = In} = {4}"
proof -
  let ?y = "(sem_init 1)\<lparr>sy_sem := \<lparr>sem_n = 0, sem_waiting = q_new\<rparr>, sy_pc := (\<lambda>_. Out)(4 := In)\<rparr>"
  have "sy_pc ?y 4 = In" by simp
  then have "{t. sy_pc ?y t = In} = {4}" using blocking_lock_mutex [OF demo_sem_reach] by blast
  then show ?thesis using demo_sem_reach by blast
qed


lemma demo_sem_waits:
  "\<exists>y. sem_reach 0 y \<and> sy_pc y 4 = Waiting"
proof -
  define y where "y = (sem_init 0)\<lparr>sy_sem := sem_new 0, sy_pc := (sy_pc (sem_init 0))(4 := Probed)\<rparr>"
  have "sem_step (sem_init 0) y"
    unfolding y_def by (rule sem_step.down_miss) (simp_all add: sem_init_def sem_new_def down_fast_def)
  from sr_step [OF sr_init this] have "sem_reach 0 y" .
  moreover obtain nx' s' where "down_helper (sy_next y) (sy_sem y) 4 = Inr (False, nx', s')"
    by (auto simp: y_def sem_new_def down_helper_def q_add_def q_new_def Let_def)
  ultimately have "sem_reach 0 (y\<lparr>sy_next := nx', sy_sem := s', sy_pc := (sy_pc y)(4 := Waiting)\<rparr>)"
    by (intro sr_step [OF _ sem_step.block_wait]) (simp_all add: y_def)
  moreover have "sy_pc (y\<lparr>sy_next := nx', sy_sem := s', sy_pc := (sy_pc y)(4 := Waiting)\<rparr>) 4 = Waiting"
    by simp
  ultimately show ?thesis by blast
qed


text \<open>
  (sem_refines_counter) The semaphore implements the abstract counting semaphore: every step of the threads is a
  sequence of acquires of a free unit and releases of a held one.
\<close>

theorem sem_refines_counter:
  assumes "sem_reach n y" "sem_step y z"
  shows "count_step\<^sup>*\<^sup>* (sem_abs y) (sem_abs z)"
  by (rule sem_step_refines [OF sem_reach_inv [OF assms(1)] assms(2)])

theorem sem_refines_counter_witness: "\<exists>y z. sem_step y z \<and> count_step\<^sup>*\<^sup>* (sem_abs y) (sem_abs z)"
proof -
  have "sem_step (sem_init 1) ((sem_init 1)\<lparr>sy_sem := \<lparr>sem_n = 0, sem_waiting = q_new\<rparr>,
      sy_pc := (sy_pc (sem_init 1))(4 := In)\<rparr>)"
    by (rule sem_step.down_got) (simp_all add: sem_init_def sem_new_def down_fast_def)
  then show ?thesis using sem_refines_counter [OF sr_init] by blast
qed

lemma probed_moves:
  assumes p: "placed (sy_pc y) ws rs G" and r: "sem_rep (unat n) (sy_next y) (sy_sem y) (sy_ready y) ws rs G" and t: "sy_pc y t = Probed" "t \<noteq> 0"
  shows "\<exists>z. sem_step y z \<and> sy_pc z t \<noteq> sy_pc y t"
proof (cases "sem_n (sy_sem y) > 0")
  case True
  then have "\<exists>s'. down_helper (sy_next y) (sy_sem y) t = Inr (True, sy_next y, s')"
    by (simp add: down_helper_def)
  then show ?thesis using sem_step.block_got [OF t(1)] t(1) by fastforce
next
  case False
  then have "\<exists>nx' s'. down_helper (sy_next y) (sy_sem y) t = Inr (False, nx', s')"
    using down_helper_wait [OF r _ t(2)] placedD(1,2) [OF p, of t] placed_disjoint [OF p] t(1) by (fastforce simp: word_gt_0)
  then show ?thesis using sem_step.block_wait [OF t(1)] t(1) by fastforce
qed

lemma in_moves:
  assumes p: "placed (sy_pc y) ws rs G" and r: "sem_rep (unat n) (sy_next y) (sy_sem y) (sy_ready y) ws rs G" and t: "sy_pc y t = In"
  shows "\<exists>z. sem_step y z \<and> sy_pc z t \<noteq> sy_pc y t"
proof -
  obtain v s' where u: "up_section (sy_next y) (sy_sem y) = (v, s')" by fastforce
  show ?thesis
  proof (cases "v = 0")
    case True
    then show ?thesis using sem_step.up_free [OF t] u t by fastforce
  next
    case False
    have "v \<noteq> t"
      using r by (cases rule: up_section_cases) (use u placedD(1) [OF p, of v] t False in auto)
    then show ?thesis using sem_step.up_wake [OF t u False] t by fastforce
  qed
qed



end
