(* ===== verification/SharedPtr.thy ===== *)
theory SharedPtr
  imports Prelude "HOL-Library.Multiset"
begin

text \<open>
  The reference-counted pointers of \<open>kernel/shared.h\<close>: \<open>Intermediate\<close>, \<open>StrongPtr\<close> and \<open>WeakPtr\<close>.

  The \<open>Intermediate\<close> records live in a partial map from addresses; a freed one is absent, and
  touching it is \<open>Undef\<close>. Where the code calls \<open>new Intermediate\<close> the address it gets is an
  argument of the model. Deleted objects are logged in the order of their deletion. The body of
  each primitive under the record's lock is one step; \<open>drop_strong\<close> is also given as its two parts,
  the section under the lock and what follows it.
\<close>

section \<open>State and primitives\<close>

record intermediate =
  i_obj :: u32
  strong_count :: u32
  weak_count :: u32

record shared =
  sh_cells :: "u32 \<Rightarrow> intermediate option"
  sh_deleted :: "u32 list"

definition Intermediate :: "u32 \<Rightarrow> intermediate" where
  "Intermediate obj = \<lparr>i_obj = obj, strong_count = 1, weak_count = 0\<rparr>"

definition sh_get :: "shared \<Rightarrow> u32 \<Rightarrow> intermediate res" where
  "sh_get sh p = (case sh_cells sh p of None \<Rightarrow> Inl (Undef ''no such Intermediate'') | Some i \<Rightarrow> Inr i)"

definition sh_put :: "shared \<Rightarrow> u32 \<Rightarrow> intermediate \<Rightarrow> shared" where
  "sh_put sh p i = sh\<lparr>sh_cells := (sh_cells sh)(p \<mapsto> i)\<rparr>"

definition sh_free :: "shared \<Rightarrow> u32 \<Rightarrow> shared" where
  "sh_free sh p = sh\<lparr>sh_cells := (sh_cells sh)(p := None)\<rparr>"

definition add_strong :: "shared \<Rightarrow> u32 \<Rightarrow> (u32 \<times> shared) res" where
  "add_strong sh p =
     (if p \<noteq> 0 then
        bindR (sh_get sh p) (\<lambda>i.
          Inr (p, if i_obj i \<noteq> 0 then sh_put sh p (i\<lparr>strong_count := strong_count i + 1\<rparr>) else sh))
      else Inr (p, sh))"

text \<open>Under the lock: decrement, and decide what to delete.\<close>

definition drop_strong_section :: "shared \<Rightarrow> u32 \<Rightarrow> ((bool \<times> bool) \<times> shared) res" where
  "drop_strong_section sh p =
     bindR (sh_get sh p) (\<lambda>i.
     bindR (assertR (strong_count i > 0) ''ptr->strong_count > 0'') (\<lambda>_.
     bindR (assertR (i_obj i \<noteq> 0) ''ptr->obj != nullptr'') (\<lambda>_.
       let i1 = i\<lparr>strong_count := strong_count i - 1\<rparr>;
           delete_obj = (strong_count i1 = 0);
           delete_ptr = (delete_obj \<and> weak_count i1 = 0)
       in Inr ((delete_obj, delete_ptr), sh_put sh p i1))))"

text \<open>After the lock has been released.\<close>

definition drop_strong_finish :: "shared \<Rightarrow> u32 \<Rightarrow> bool \<times> bool \<Rightarrow> (u32 \<times> shared) res" where
  "drop_strong_finish sh p = (\<lambda>(delete_obj, delete_ptr).
     bindR (assertR (\<not> delete_ptr \<or> delete_obj) ''(!delete_ptr) || delete_obj'') (\<lambda>_.
     bindR (if delete_obj then
              bindR (sh_get sh p) (\<lambda>i.
              bindR (assertR (i_obj i \<noteq> 0) ''ptr->obj != nullptr'') (\<lambda>_.
                Inr ((sh_put sh p (i\<lparr>i_obj := 0\<rparr>))\<lparr>sh_deleted := sh_deleted sh @ [i_obj i]\<rparr>)))
            else Inr sh) (\<lambda>sh1.
       Inr (if delete_ptr then (0, sh_free sh1 p) else (p, sh1)))))"

definition drop_strong :: "shared \<Rightarrow> u32 \<Rightarrow> (u32 \<times> shared) res" where
  "drop_strong sh p =
     (if p \<noteq> 0 then bindR (drop_strong_section sh p) (\<lambda>(d, sh1). drop_strong_finish sh1 p d)
      else Inr (p, sh))"

definition add_weak :: "shared \<Rightarrow> u32 \<Rightarrow> (u32 \<times> shared) res" where
  "add_weak sh p =
     (if p \<noteq> 0 then
        bindR (sh_get sh p) (\<lambda>i.
        bindR (assertR (weak_count i > 0 \<or> strong_count i > 0)
                 ''(ptr->weak_count > 0) || (ptr->strong_count > 0)'') (\<lambda>_.
          Inr (p, sh_put sh p (i\<lparr>weak_count := weak_count i + 1\<rparr>))))
      else Inr (p, sh))"

definition drop_weak :: "shared \<Rightarrow> u32 \<Rightarrow> (u32 \<times> shared) res" where
  "drop_weak sh p =
     (if p \<noteq> 0 then
        bindR (sh_get sh p) (\<lambda>i.
        bindR (assertR (weak_count i > 0) ''ptr->weak_count > 0'') (\<lambda>_.
          let i1 = i\<lparr>weak_count := weak_count i - 1\<rparr>;
              delete_it = (weak_count i1 = 0 \<and> strong_count i1 = 0);
              sh1 = sh_put sh p i1
          in Inr (if delete_it then (0, sh_free sh1 p) else (p, sh1))))
      else Inr (p, sh))"

definition promote_weak :: "shared \<Rightarrow> u32 \<Rightarrow> (u32 \<times> shared) res" where
  "promote_weak sh p =
     (if p \<noteq> 0 then
        bindR (sh_get sh p) (\<lambda>i.
        bindR (assertR (weak_count i > 0) ''ptr->weak_count > 0'') (\<lambda>_.
          if strong_count i > 0
          then Inr (p, sh_put sh p (i\<lparr>strong_count := strong_count i + 1\<rparr>))
          else Inr (0, sh)))
      else Inr (p, sh))"

section \<open>StrongPtr and WeakPtr\<close>

text \<open>
  A handle is the value of its one member \<open>ptr\<close>. Constructors return the new handle, assignments
  the new value of the left-hand side; \<open>a\<close> is where \<open>new Intermediate\<close> puts its record.
\<close>

definition strong_ctor :: "shared \<Rightarrow> u32 \<Rightarrow> u32 \<Rightarrow> u32 \<times> shared" where
  "strong_ctor sh a p = (if p = 0 then (0, sh) else (a, sh_put sh a (Intermediate p)))"

definition strong_copy :: "shared \<Rightarrow> u32 \<Rightarrow> (u32 \<times> shared) res" where
  "strong_copy sh src = add_strong sh src"

definition strong_dtor :: "shared \<Rightarrow> u32 \<Rightarrow> (u32 \<times> shared) res" where
  "strong_dtor sh p = drop_strong sh p"

definition strong_assign :: "shared \<Rightarrow> u32 \<Rightarrow> u32 \<Rightarrow> (u32 \<times> shared) res" where
  "strong_assign sh lhs rhs =
     (if lhs \<noteq> rhs then
        bindR (add_strong sh rhs) (\<lambda>(will_be, sh1).
        bindR (drop_strong sh1 lhs) (\<lambda>(_, sh2). Inr (will_be, sh2)))
      else Inr (lhs, sh))"

definition strong_assign_raw :: "shared \<Rightarrow> u32 \<Rightarrow> u32 \<Rightarrow> u32 \<Rightarrow> (u32 \<times> shared) res" where
  "strong_assign_raw sh a lhs rhs =
     (if rhs = 0 then bindR (drop_strong sh lhs) (\<lambda>(_, sh1). Inr (0, sh1))
      else
        bindR (if lhs \<noteq> 0 then bindR (sh_get sh lhs) (\<lambda>i. Inr (i_obj i = rhs)) else Inr False) (\<lambda>same.
          if same then Inr (lhs, sh)
          else bindR (drop_strong sh lhs) (\<lambda>(_, sh1).
                 Inr (a, sh_put sh1 a (Intermediate rhs)))))"

definition strong_arrow :: "shared \<Rightarrow> u32 \<Rightarrow> u32 res" where
  "strong_arrow sh p =
     bindR (assertR (p \<noteq> 0) ''ptr != nullptr'') (\<lambda>_.
     bindR (sh_get sh p) (\<lambda>i.
     bindR (assertR (i_obj i \<noteq> 0) ''ptr->obj != nullptr'') (\<lambda>_. Inr (i_obj i))))"

definition weak_ctor :: "shared \<Rightarrow> u32 \<Rightarrow> (u32 \<times> shared) res" where
  "weak_ctor sh src = add_weak sh src"

definition weak_dtor :: "shared \<Rightarrow> u32 \<Rightarrow> (u32 \<times> shared) res" where
  "weak_dtor sh p = drop_weak sh p"

definition weak_assign :: "shared \<Rightarrow> u32 \<Rightarrow> u32 \<Rightarrow> (u32 \<times> shared) res" where
  "weak_assign sh lhs rhs =
     (if rhs = lhs then Inr (lhs, sh)
      else bindR (add_weak sh rhs) (\<lambda>(will_be, sh1).
           bindR (drop_weak sh1 lhs) (\<lambda>(_, sh2). Inr (will_be, sh2))))"

definition promote :: "shared \<Rightarrow> u32 \<Rightarrow> (u32 \<times> shared) res" where
  "promote sh p = promote_weak sh p"

section \<open>Reference counts\<close>

text \<open>
  \<open>rc_inv sh S W\<close>: \<open>S\<close> and \<open>W\<close> are the strong and the weak handles of the program, and the counts
  are right: a record exists exactly while a handle refers to it and has its object exactly while a
  strong handle does.
\<close>

definition cell_ok :: "intermediate option \<Rightarrow> nat \<Rightarrow> nat \<Rightarrow> bool" where
  "cell_ok c s w = (case c of
     None \<Rightarrow> s = 0 \<and> w = 0
   | Some i \<Rightarrow> unat (strong_count i) = s \<and> unat (weak_count i) = w \<and> 0 < s + w \<and> (i_obj i \<noteq> 0 \<longleftrightarrow> 0 < s))"

definition rc_inv :: "shared \<Rightarrow> u32 multiset \<Rightarrow> u32 multiset \<Rightarrow> bool" where
  "rc_inv sh S W \<longleftrightarrow> sh_cells sh 0 = None \<and> size S < 2 ^ 32 \<and> size W < 2 ^ 32 \<and>
     (\<forall>a. a \<noteq> 0 \<longrightarrow> cell_ok (sh_cells sh a) (count S a) (count W a))"

lemma rc_inv_cell: "rc_inv sh S W \<Longrightarrow> a \<noteq> 0 \<Longrightarrow> cell_ok (sh_cells sh a) (count S a) (count W a)"
  by (simp add: rc_inv_def)

lemma rc_inv_null: "rc_inv sh (add_mset 0 S) W \<Longrightarrow> rc_inv sh S W" "rc_inv sh S (add_mset 0 W) \<Longrightarrow> rc_inv sh S W"
  by (auto simp: rc_inv_def)

lemma rc_inv_add_null: "rc_inv sh S W \<Longrightarrow> size S + 1 < 2 ^ 32 \<Longrightarrow> rc_inv sh (add_mset 0 S) W"
  "rc_inv sh S W \<Longrightarrow> size W + 1 < 2 ^ 32 \<Longrightarrow> rc_inv sh S (add_mset 0 W)"
  by (auto simp: rc_inv_def)

text \<open>Changing one record and the counts of its address.\<close>

lemma rc_inv_upd:
  assumes "rc_inv sh S W" "p \<noteq> 0" "size S' < 2 ^ 32" "size W' < 2 ^ 32"
    and "\<And>a. a \<noteq> p \<Longrightarrow> a \<noteq> 0 \<Longrightarrow> count S' a = count S a \<and> count W' a = count W a"
    and "sh_cells sh' = (sh_cells sh)(p := c)" "cell_ok c (count S' p) (count W' p)"
  shows "rc_inv sh' S' W'"
  using assms by (auto simp: rc_inv_def)

lemma live_cell:
  assumes "rc_inv sh S W" "p \<noteq> 0" "p \<in># S \<or> p \<in># W"
  obtains i where "sh_cells sh p = Some i" "unat (strong_count i) = count S p" "unat (weak_count i) = count W p"
    "i_obj i \<noteq> 0 \<longleftrightarrow> p \<in># S"
proof -
  show ?thesis
    using rc_inv_cell [OF assms(1,2)] that assms(3)
    by (auto simp: cell_ok_def not_in_iff [symmetric] split: option.splits)
qed

lemma unat_suc_u32: "unat (x :: u32) + 1 < 2 ^ 32 \<Longrightarrow> unat (x + 1) = unat x + 1"
  by (subst unat_plus_no_wrap) simp_all

lemma unat_pred_u32: "0 < unat (x :: u32) \<Longrightarrow> unat (x - 1) = unat x - 1"
  by (simp add: unat_minus_one unat_gt_0)

lemma u32_pos_iff: "0 < (x :: u32) \<longleftrightarrow> 0 < unat x"
  by (simp add: word_less_nat_alt)

lemma count_lt: "size S + 1 < 2 ^ 32 \<Longrightarrow> count S (p :: u32) + 1 < 2 ^ 32"
  using count_le_size [of S p] by linarith

lemma add_strong_ok:
  assumes inv: "rc_inv sh S W" and p: "p = 0 \<or> p \<in># S" and sz: "size S + 1 < 2 ^ 32"
  shows "\<exists>sh'. add_strong sh p = Inr (p, sh') \<and> rc_inv sh' (add_mset p S) W \<and> sh_deleted sh' = sh_deleted sh"
proof (cases "p = 0")
  case True
  then show ?thesis using rc_inv_add_null(1) [OF inv sz] by (simp add: add_strong_def)
next
  case False
  obtain i where i: "sh_cells sh p = Some i" "unat (strong_count i) = count S p"
    "unat (weak_count i) = count W p" "i_obj i \<noteq> 0 \<longleftrightarrow> p \<in># S"
    using live_cell [OF inv False] p False by blast
  let ?i = "i\<lparr>strong_count := strong_count i + 1\<rparr>"
  have "unat (strong_count ?i) = count S p + 1" using i(2) count_lt [OF sz, of p] by (simp add: unat_suc_u32)
  then have "rc_inv (sh_put sh p ?i) (add_mset p S) W"
    using i p False sz inv
    by (intro rc_inv_upd [OF inv False, where c = "Some ?i"]) (auto simp: sh_put_def cell_ok_def rc_inv_def)
  then show ?thesis using i p False by (auto simp: add_strong_def sh_get_def sh_put_def)
qed

text \<open>Dropping a strong handle deletes the object exactly when it was the last one.\<close>

lemma drop_strong_ok:
  assumes inv: "rc_inv sh (add_mset p S) W"
  shows "\<exists>q sh'. drop_strong sh p = Inr (q, sh') \<and> rc_inv sh' S W \<and>
    sh_deleted sh' = sh_deleted sh @
      (if p \<noteq> 0 \<and> p \<notin># S then [i_obj (the (sh_cells sh p))] else [])"
proof (cases "p = 0")
  case True
  then show ?thesis using inv rc_inv_null(1) by (simp add: drop_strong_def)
next
  case False
  obtain i where i: "sh_cells sh p = Some i" "unat (strong_count i) = count S p + 1"
    "unat (weak_count i) = count W p" "i_obj i \<noteq> 0"
    using live_cell [OF inv False] by auto
  let ?i = "i\<lparr>strong_count := strong_count i - 1\<rparr>"
  have cnt: "unat (strong_count ?i) = count S p" using i(2) unat_pred_u32 [of "strong_count i"] by simp
  then have z: "strong_count i - 1 = 0 \<longleftrightarrow> p \<notin># S" using unat_eq_0 [of "strong_count i - 1"] by (simp add: not_in_iff)
  have wz: "weak_count i = 0 \<longleftrightarrow> p \<notin># W" using i(3) unat_eq_0 [of "weak_count i"] by (simp add: not_in_iff)
  have sec: "drop_strong_section sh p = Inr ((p \<notin># S, p \<notin># S \<and> p \<notin># W), sh_put sh p ?i)"
    using i z wz by (simp add: drop_strong_section_def sh_get_def Let_def u32_pos_iff)
  have sz: "size S < 2 ^ 32" "size W < 2 ^ 32" using inv by (auto simp: rc_inv_def)
  consider (more) "p \<in># S" | (weak) "p \<notin># S" "p \<in># W" | (last) "p \<notin># S" "p \<notin># W" by blast
  then show ?thesis
  proof cases
    case more
    then have "rc_inv (sh_put sh p ?i) S W"
      using i cnt sz by (intro rc_inv_upd [OF inv False, where c = "Some ?i"]) (auto simp: sh_put_def cell_ok_def)
    then show ?thesis
      using sec more False by (auto simp: drop_strong_def drop_strong_finish_def sh_put_def)
  next
    case weak
    let ?j = "?i\<lparr>i_obj := 0\<rparr>"
    let ?sh = "(sh_put sh p ?j)\<lparr>sh_deleted := sh_deleted sh @ [i_obj i]\<rparr>"
    have "rc_inv ?sh S W"
      using i cnt sz weak
      by (intro rc_inv_upd [OF inv False, where c = "Some ?j"]) (auto simp: sh_put_def cell_ok_def not_in_iff)
    moreover have "drop_strong sh p = Inr (p, ?sh)"
      using sec weak i False by (simp add: drop_strong_def drop_strong_finish_def sh_get_def sh_put_def)
    ultimately show ?thesis using i weak False by (simp add: sh_put_def)
  next
    case last
    let ?sh = "(sh_free sh p)\<lparr>sh_deleted := sh_deleted sh @ [i_obj i]\<rparr>"
    have "rc_inv ?sh S W"
      using sz last
      by (intro rc_inv_upd [OF inv False, where c = None]) (auto simp: sh_free_def cell_ok_def not_in_iff)
    moreover have "drop_strong sh p = Inr (0, ?sh)"
      using sec last i False by (simp add: drop_strong_def drop_strong_finish_def sh_get_def sh_put_def sh_free_def)
    ultimately show ?thesis using i last False by (simp add: sh_free_def)
  qed
qed

lemma add_weak_ok:
  assumes inv: "rc_inv sh S W" and p: "p = 0 \<or> p \<in># S \<or> p \<in># W" and sz: "size W + 1 < 2 ^ 32"
  shows "\<exists>sh'. add_weak sh p = Inr (p, sh') \<and> rc_inv sh' S (add_mset p W) \<and> sh_deleted sh' = sh_deleted sh"
proof (cases "p = 0")
  case True
  then show ?thesis using rc_inv_add_null(2) [OF inv sz] by (simp add: add_weak_def)
next
  case False
  obtain i where i: "sh_cells sh p = Some i" "unat (strong_count i) = count S p"
    "unat (weak_count i) = count W p" "i_obj i \<noteq> 0 \<longleftrightarrow> p \<in># S"
    using live_cell [OF inv False] p False by blast
  let ?i = "i\<lparr>weak_count := weak_count i + 1\<rparr>"
  have "unat (weak_count ?i) = count W p + 1" using i(3) count_lt [OF sz, of p] by (simp add: unat_suc_u32)
  then have "rc_inv (sh_put sh p ?i) S (add_mset p W)"
    using i sz inv
    by (intro rc_inv_upd [OF inv False, where c = "Some ?i"]) (auto simp: sh_put_def cell_ok_def rc_inv_def)
  moreover have "0 < unat (weak_count i) \<or> 0 < unat (strong_count i)" using i(2,3) p False by auto
  ultimately show ?thesis using i(1) False by (auto simp: add_weak_def sh_get_def sh_put_def u32_pos_iff assertR_def)
qed

lemma drop_weak_ok:
  assumes inv: "rc_inv sh S (add_mset p W)"
  shows "\<exists>q sh'. drop_weak sh p = Inr (q, sh') \<and> rc_inv sh' S W \<and> sh_deleted sh' = sh_deleted sh"
proof (cases "p = 0")
  case True
  then show ?thesis using inv rc_inv_null(2) by (simp add: drop_weak_def)
next
  case False
  obtain i where i: "sh_cells sh p = Some i" "unat (strong_count i) = count S p"
    "unat (weak_count i) = count W p + 1" "i_obj i \<noteq> 0 \<longleftrightarrow> p \<in># S"
    using live_cell [OF inv False] by auto
  let ?i = "i\<lparr>weak_count := weak_count i - 1\<rparr>"
  have cnt: "unat (weak_count ?i) = count W p" using i(3) unat_pred_u32 [of "weak_count i"] by simp
  then have z: "weak_count i - 1 = 0 \<longleftrightarrow> p \<notin># W" using unat_eq_0 [of "weak_count i - 1"] by (simp add: not_in_iff)
  have sz': "strong_count i = 0 \<longleftrightarrow> p \<notin># S" using i(2) unat_eq_0 [of "strong_count i"] by (simp add: not_in_iff)
  have pos: "0 < weak_count i" using i(3) by (simp add: u32_pos_iff)
  have sz: "size S < 2 ^ 32" "size W < 2 ^ 32" using inv by (auto simp: rc_inv_def)
  show ?thesis
  proof (cases "p \<in># S \<or> p \<in># W")
    case True
    then have "rc_inv (sh_put sh p ?i) S W"
      using i cnt sz by (intro rc_inv_upd [OF inv False, where c = "Some ?i"]) (auto simp: sh_put_def cell_ok_def)
    then show ?thesis
      using i(1) z sz' pos True False by (auto simp: drop_weak_def sh_get_def sh_put_def Let_def)
  next
    case gone: False
    then have "rc_inv (sh_free sh p) S W"
      using sz by (intro rc_inv_upd [OF inv False, where c = None]) (auto simp: sh_free_def cell_ok_def not_in_iff)
    then show ?thesis
      using i(1) z sz' pos gone False by (auto simp: drop_weak_def sh_get_def sh_put_def sh_free_def Let_def)
  qed
qed

text \<open>Promotion succeeds exactly while a strong handle exists.\<close>

lemma promote_weak_ok:
  assumes inv: "rc_inv sh S W" and p: "p = 0 \<or> p \<in># W" and sz: "size S + 1 < 2 ^ 32"
  shows "\<exists>sh'. promote_weak sh p = Inr (if p \<in># S then p else 0, sh') \<and>
    rc_inv sh' (add_mset (if p \<in># S then p else 0) S) W \<and> sh_deleted sh' = sh_deleted sh"
proof (cases "p = 0")
  case True
  then show ?thesis using rc_inv_add_null(1) [OF inv sz] by (simp add: promote_weak_def)
next
  case False
  obtain i where i: "sh_cells sh p = Some i" "unat (strong_count i) = count S p"
    "unat (weak_count i) = count W p" "i_obj i \<noteq> 0 \<longleftrightarrow> p \<in># S"
    using live_cell [OF inv False] p False by blast
  have pos: "0 < weak_count i" using i(3) p False by (simp add: u32_pos_iff)
  show ?thesis
  proof (cases "p \<in># S")
    case True
    let ?i = "i\<lparr>strong_count := strong_count i + 1\<rparr>"
    have "unat (strong_count ?i) = count S p + 1" using i(2) count_lt [OF sz, of p] by (simp add: unat_suc_u32)
    then have "rc_inv (sh_put sh p ?i) (add_mset p S) W"
      using i True sz inv
      by (intro rc_inv_upd [OF inv False, where c = "Some ?i"]) (auto simp: sh_put_def cell_ok_def rc_inv_def)
    then show ?thesis
      using i(1,2) pos True False by (auto simp: promote_weak_def sh_get_def sh_put_def u32_pos_iff)
  next
    case none: False
    then have "\<not> 0 < strong_count i" using i(2) by (simp add: u32_pos_iff not_in_iff)
    then show ?thesis
      using i(1) pos none False rc_inv_add_null(1) [OF inv sz] by (simp add: promote_weak_def sh_get_def)
  qed
qed

lemma strong_assign_ok:
  assumes inv: "rc_inv sh (add_mset lhs S) W" and p: "rhs = 0 \<or> rhs \<in># add_mset lhs S"
    and sz: "size S + 2 < 2 ^ 32"
  shows "\<exists>sh'. strong_assign sh lhs rhs = Inr (rhs, sh') \<and> rc_inv sh' (add_mset rhs S) W"
proof (cases "lhs = rhs")
  case True
  then show ?thesis using inv by (simp add: strong_assign_def)
next
  case False
  obtain sh1 where a: "add_strong sh rhs = Inr (rhs, sh1)" "rc_inv sh1 (add_mset rhs (add_mset lhs S)) W"
    using add_strong_ok [OF inv p] sz by auto
  then obtain q sh2 where "drop_strong sh1 lhs = Inr (q, sh2)" "rc_inv sh2 (add_mset rhs S) W"
    using drop_strong_ok [of sh1 lhs "add_mset rhs S" W] by (auto simp: add_mset_commute)
  then show ?thesis using a False by (simp add: strong_assign_def)
qed

lemma strong_new_ok:
  assumes inv: "rc_inv sh S W" and "p \<noteq> 0" "a \<noteq> 0" "sh_cells sh a = None" and sz: "size S + 1 < 2 ^ 32"
  shows "\<exists>sh'. strong_ctor sh a p = (a, sh') \<and> rc_inv sh' (add_mset a S) W \<and> sh_deleted sh' = sh_deleted sh"
proof -
  have "count S a = 0" "count W a = 0"
    using rc_inv_cell [OF inv assms(3)] assms(4) by (auto simp: cell_ok_def)
  then have "rc_inv (sh_put sh a (Intermediate p)) (add_mset a S) W"
    using assms by (intro rc_inv_upd [OF inv assms(3), where c = "Some (Intermediate p)"])
      (auto simp: sh_put_def cell_ok_def Intermediate_def rc_inv_def)
  then show ?thesis using assms(2) by (simp add: strong_ctor_def sh_put_def)
qed

section \<open>Programs with shared pointers\<close>

text \<open>
  A program's strong and weak handles as two lists of variables, and what it can do with them. An
  operation on a variable that does not exist is skipped, and so is a construction for which the
  given address is not fresh.
\<close>

datatype ptr_op =
    SNew u32 u32          \<comment> \<open>\<open>StrongPtr q{obj}\<close>, its record at the given address\<close>
  | SCopy nat             \<comment> \<open>\<open>StrongPtr q{p}\<close>\<close>
  | SAssign nat nat       \<comment> \<open>\<open>p = q\<close>\<close>
  | SReset nat            \<comment> \<open>\<open>p = nullptr\<close>\<close>
  | SDrop nat             \<comment> \<open>\<open>p\<close> goes out of scope\<close>
  | WNew nat              \<comment> \<open>\<open>WeakPtr w{p}\<close>\<close>
  | WCopy nat             \<comment> \<open>\<open>WeakPtr v{w}\<close>\<close>
  | WDrop nat             \<comment> \<open>\<open>w\<close> goes out of scope\<close>
  | WPromote nat          \<comment> \<open>\<open>auto p = w.promote()\<close>\<close>

definition remove_nth :: "nat \<Rightarrow> 'a list \<Rightarrow> 'a list" where
  "remove_nth k xs = take k xs @ drop (Suc k) xs"

lemma mset_remove_nth: "k < length xs \<Longrightarrow> mset xs = add_mset (xs ! k) (mset (remove_nth k xs))"
proof -
  assume "k < length xs"
  then have "mset xs = mset (take k xs @ xs ! k # drop (Suc k) xs)" by (simp add: id_take_nth_drop [symmetric])
  then show ?thesis by (simp add: remove_nth_def)
qed

lemma mset_update_nth: "k < length xs \<Longrightarrow> mset (xs[k := x]) = add_mset x (mset (remove_nth k xs))"
  by (simp add: upd_conv_take_nth_drop remove_nth_def)

fun ptr_step :: "ptr_op \<Rightarrow> shared \<times> u32 list \<times> u32 list \<Rightarrow> (shared \<times> u32 list \<times> u32 list) res" where
  "ptr_step (SNew obj a) (sh, S, W) =
     (if obj = 0 \<or> a = 0 \<or> sh_cells sh a \<noteq> None then Inr (sh, S, W)
      else let (p, sh') = strong_ctor sh a obj in Inr (sh', p # S, W))"
| "ptr_step (SCopy k) (sh, S, W) =
     (if k < length S then bindR (strong_copy sh (S ! k)) (\<lambda>(p, sh'). Inr (sh', p # S, W)) else Inr (sh, S, W))"
| "ptr_step (SAssign j k) (sh, S, W) =
     (if j < length S \<and> k < length S
      then bindR (strong_assign sh (S ! j) (S ! k)) (\<lambda>(p, sh'). Inr (sh', S[j := p], W)) else Inr (sh, S, W))"
| "ptr_step (SReset k) (sh, S, W) =
     (if k < length S then bindR (strong_assign_raw sh 0 (S ! k) 0) (\<lambda>(p, sh'). Inr (sh', S[k := p], W))
      else Inr (sh, S, W))"
| "ptr_step (SDrop k) (sh, S, W) =
     (if k < length S then bindR (strong_dtor sh (S ! k)) (\<lambda>(_, sh'). Inr (sh', remove_nth k S, W))
      else Inr (sh, S, W))"
| "ptr_step (WNew k) (sh, S, W) =
     (if k < length S then bindR (weak_ctor sh (S ! k)) (\<lambda>(p, sh'). Inr (sh', S, p # W)) else Inr (sh, S, W))"
| "ptr_step (WCopy k) (sh, S, W) =
     (if k < length W then bindR (add_weak sh (W ! k)) (\<lambda>(p, sh'). Inr (sh', S, p # W)) else Inr (sh, S, W))"
| "ptr_step (WDrop k) (sh, S, W) =
     (if k < length W then bindR (weak_dtor sh (W ! k)) (\<lambda>(_, sh'). Inr (sh', S, remove_nth k W))
      else Inr (sh, S, W))"
| "ptr_step (WPromote k) (sh, S, W) =
     (if k < length W then bindR (promote sh (W ! k)) (\<lambda>(p, sh'). Inr (sh', p # S, W)) else Inr (sh, S, W))"

fun ptr_run :: "ptr_op list \<Rightarrow> shared \<times> u32 list \<times> u32 list \<Rightarrow> (shared \<times> u32 list \<times> u32 list) res" where
  "ptr_run [] st = Inr st"
| "ptr_run (op # ops) st = bindR (ptr_step op st) (ptr_run ops)"

definition rc_ok :: "shared \<times> u32 list \<times> u32 list \<Rightarrow> bool" where
  "rc_ok = (\<lambda>(sh, S, W). rc_inv sh (mset S) (mset W))"

lemma ptr_step_ok:
  assumes "rc_ok (sh, S, W)" "length S + 2 < 2 ^ 32" "length W + 2 < 2 ^ 32"
  shows "\<exists>sh' S' W'. ptr_step op (sh, S, W) = Inr (sh', S', W') \<and> rc_ok (sh', S', W') \<and>
    length S' \<le> length S + 1 \<and> length W' \<le> length W + 1"
proof (cases op)
  case (SNew obj a)
  then show ?thesis
    using assms strong_new_ok [of sh "mset S" "mset W" obj a] by (auto simp: rc_ok_def)
next
  case (SCopy k)
  then show ?thesis
    using assms add_strong_ok [of sh "mset S" "mset W" "S ! k"] by (auto simp: rc_ok_def strong_copy_def)
next
  case (SAssign j k)
  show ?thesis
  proof (cases "j < length S \<and> k < length S")
    case True
    let ?S = "mset (remove_nth j S)"
    have m: "mset S = add_mset (S ! j) ?S" using mset_remove_nth True by blast
    have "size ?S < length S" using arg_cong [OF m, of size] by simp
    then have sz: "size ?S + 2 < 2 ^ 32" using assms(2) by linarith
    have "S ! k \<in># mset S" using True by simp
    then have in_m: "S ! k = 0 \<or> S ! k \<in># add_mset (S ! j) ?S" using m by simp
    have "rc_inv sh (add_mset (S ! j) ?S) (mset W)" using assms(1) m by (simp add: rc_ok_def)
    from strong_assign_ok [OF this in_m sz] obtain sh' where
      "strong_assign sh (S ! j) (S ! k) = Inr (S ! k, sh')" "rc_inv sh' (add_mset (S ! k) ?S) (mset W)"
      by blast
    then show ?thesis using SAssign True mset_update_nth [of j S "S ! k"] by (simp add: rc_ok_def)
  qed (use SAssign assms in auto)
next
  case (SReset k)
  show ?thesis
  proof (cases "k < length S")
    case True
    then obtain q sh' where d: "drop_strong sh (S ! k) = Inr (q, sh')" "rc_inv sh' (mset (remove_nth k S)) (mset W)"
      using drop_strong_ok [of sh "S ! k" "mset (remove_nth k S)" "mset W"] assms mset_remove_nth [of k S]
      by (auto simp: rc_ok_def)
    moreover have "size (mset (remove_nth k S)) + 1 < 2 ^ 32" using assms(2) True by (simp add: remove_nth_def)
    ultimately show ?thesis
      using SReset True mset_update_nth [of k S 0] rc_inv_add_null(1) [OF d(2)]
      by (simp add: rc_ok_def strong_assign_raw_def)
  qed (use SReset assms in auto)
next
  case (SDrop k)
  show ?thesis
  proof (cases "k < length S")
    case True
    then show ?thesis
      using drop_strong_ok [of sh "S ! k" "mset (remove_nth k S)" "mset W"] assms mset_remove_nth [of k S] SDrop
      by (auto simp: rc_ok_def strong_dtor_def remove_nth_def)
  qed (use SDrop assms in auto)
next
  case (WNew k)
  then show ?thesis
    using assms add_weak_ok [of sh "mset S" "mset W" "S ! k"] by (auto simp: rc_ok_def weak_ctor_def)
next
  case (WCopy k)
  then show ?thesis
    using assms add_weak_ok [of sh "mset S" "mset W" "W ! k"] by (auto simp: rc_ok_def)
next
  case (WDrop k)
  show ?thesis
  proof (cases "k < length W")
    case True
    then show ?thesis
      using drop_weak_ok [of sh "mset S" "W ! k" "mset (remove_nth k W)"] assms mset_remove_nth [of k W] WDrop
      by (auto simp: rc_ok_def weak_dtor_def remove_nth_def)
  qed (use WDrop assms in auto)
next
  case (WPromote k)
  then show ?thesis
    using assms promote_weak_ok [of sh "mset S" "mset W" "W ! k"] by (auto simp: rc_ok_def promote_def)
qed

lemma ptr_run_ok:
  "rc_ok (sh, S, W) \<Longrightarrow> length S + length ops + 2 < 2 ^ 32 \<Longrightarrow> length W + length ops + 2 < 2 ^ 32 \<Longrightarrow>
     \<exists>sh' S' W'. ptr_run ops (sh, S, W) = Inr (sh', S', W') \<and> rc_ok (sh', S', W')"
proof (induction ops arbitrary: sh S W)
  case (Cons op ops)
  obtain sh' S' W' where s: "ptr_step op (sh, S, W) = Inr (sh', S', W')" "rc_ok (sh', S', W')"
    "length S' \<le> length S + 1" "length W' \<le> length W + 1"
    using ptr_step_ok [OF Cons.prems(1), of op] Cons.prems(2,3) by auto
  then show ?case using Cons.IH [OF s(2)] Cons.prems(2,3) by simp
qed auto

definition sh_empty :: shared where
  "sh_empty = \<lparr>sh_cells = \<lambda>_. None, sh_deleted = []\<rparr>"

lemma sh_empty_ok: "rc_ok (sh_empty, [], [])"
  by (simp add: rc_ok_def sh_empty_def rc_inv_def cell_ok_def)

section \<open>Properties\<close>

text \<open>
  (shared_ptr_safe) A single-threaded program that uses only \<open>StrongPtr\<close> and \<open>WeakPtr\<close> never fails an assertion
  of \<open>shared.h\<close> and never touches a freed record, and at every point the two counts of each record
  are the numbers of handles to it, a record exists exactly while a handle refers to it, and its
  object exactly while a strong one does.
\<close>

theorem shared_ptr_safe:
  assumes "rc_ok (sh, S, W)" "length S + length ops + 2 < 2 ^ 32" "length W + length ops + 2 < 2 ^ 32"
  shows "\<exists>sh' S' W'. ptr_run ops (sh, S, W) = Inr (sh', S', W') \<and> rc_ok (sh', S', W')"
  by (rule ptr_run_ok [OF assms])

theorem shared_ptr_safe_witness:
  "\<exists>sh' S' W'. ptr_run [SNew 8 4, SCopy 0, WNew 0, SDrop 0, SReset 0, WPromote 0, WDrop 0] (sh_empty, [], []) =
     Inr (sh', S', W') \<and> rc_ok (sh', S', W')"
  by (rule shared_ptr_safe [OF sh_empty_ok]) simp_all

text \<open>
  (drop_strong_deletes_last) Dropping a strong handle deletes the object exactly when no other strong handle refers to
  the same record, and then once; the record is freed exactly when no weak handle is left either.
\<close>

theorem drop_strong_deletes_last:
  assumes "rc_inv sh (add_mset p S) W" "p \<noteq> 0"
  shows "\<exists>q sh'. drop_strong sh p = Inr (q, sh') \<and> rc_inv sh' S W \<and>
    sh_deleted sh' = sh_deleted sh @ (if p \<in># S then [] else [i_obj (the (sh_cells sh p))]) \<and>
    (sh_cells sh' p = None \<longleftrightarrow> p \<notin># S \<and> p \<notin># W)"
proof -
  obtain q sh' where d: "drop_strong sh p = Inr (q, sh')" "rc_inv sh' S W"
    "sh_deleted sh' = sh_deleted sh @ (if p \<noteq> 0 \<and> p \<notin># S then [i_obj (the (sh_cells sh p))] else [])"
    using drop_strong_ok [OF assms(1)] by blast
  moreover have "sh_cells sh' p = None \<longleftrightarrow> p \<notin># S \<and> p \<notin># W"
    using rc_inv_cell [OF d(2) assms(2)] by (auto simp: cell_ok_def not_in_iff split: option.splits)
  ultimately show ?thesis using assms(2) by auto
qed

definition sh_demo :: shared where
  "sh_demo = \<lparr>sh_cells = [4 \<mapsto> \<lparr>i_obj = 8, strong_count = 1, weak_count = 1\<rparr>], sh_deleted = []\<rparr>"

lemma sh_demo_inv: "rc_inv sh_demo (add_mset 4 {#}) {#4#}"
  by (simp add: rc_inv_def sh_demo_def cell_ok_def)

theorem drop_strong_deletes_last_witness:
  "\<exists>q sh'. drop_strong sh_demo 4 = Inr (q, sh') \<and> sh_deleted sh' = [8] \<and> sh_cells sh' 4 \<noteq> None"
  using drop_strong_deletes_last [OF sh_demo_inv] by (auto simp: sh_demo_def)

text \<open>
  (promote_iff_strong) \<open>promote\<close> gives a strong handle to the original object exactly while some strong handle
  still refers to it, and null afterwards.
\<close>

theorem promote_iff_strong:
  assumes "rc_inv sh S W" "p \<in># W" "size S + 1 < 2 ^ 32"
  shows "\<exists>sh'. promote sh p = Inr (if p \<in># S then p else 0, sh') \<and>
    rc_inv sh' (add_mset (if p \<in># S then p else 0) S) W"
  using promote_weak_ok [OF assms(1) disjI2 [OF assms(2)] assms(3)] by (auto simp: promote_def)

theorem promote_iff_strong_witness:
  "\<exists>sh'. promote sh_demo 4 = Inr (4, sh')"
  using promote_iff_strong [OF sh_demo_inv, of 4] by auto

text \<open>
  (drop_race_use_after_free) Two threads are a different matter. \<open>drop_strong\<close> decides under the lock that the object
  must be deleted and touches the record again after releasing it; when the last weak handle is
  dropped in between, \<open>drop_weak\<close> has freed that record and the access is to freed memory.
\<close>

theorem drop_race_use_after_free:
  "\<exists>d sh1 q sh2. drop_strong_section sh_demo 4 = Inr (d, sh1) \<and> drop_weak sh1 4 = Inr (q, sh2) \<and>
     drop_strong_finish sh2 4 d = Inl (Undef ''no such Intermediate'')"
  by (simp add: drop_strong_section_def drop_weak_def drop_strong_finish_def sh_demo_def sh_get_def
      sh_put_def sh_free_def)

end
