(* ===== verification/PhysMem.thy ===== *)
theory PhysMem
  imports Prelude
begin

text \<open>
  Physical frames, \<open>kernel/physmem.cc\<close> and \<open>kernel/physmem.h\<close>: frames are handed out from a free
  list threaded through the frames themselves and, when it is empty, from the untouched end of
  memory. Memory is a function from word addresses to words (the kernel runs on an identity
  mapping, so physical and virtual addresses of kernel memory agree). The interface
  \<open>frame_source\<close> is what the page table code needs of it.
\<close>

section \<open>State and operations\<close>

definition FRAME_SIZE :: u32 where
  "FRAME_SIZE = 4096"

definition pm_offset :: "u32 \<Rightarrow> u32" where
  "pm_offset pa = pa AND 0xFFF"

definition ppn :: "u32 \<Rightarrow> u32" where
  "ppn pa = drop_bit 12 pa"

definition framedown :: "u32 \<Rightarrow> u32" where
  "framedown pa = (pa div FRAME_SIZE) * FRAME_SIZE"

definition frameup :: "u32 \<Rightarrow> u32" where
  "frameup pa = framedown (pa + FRAME_SIZE - 1)"

record phys =
  pm_mem :: "u32 \<Rightarrow> u32"
  pm_firstFree :: u32
  pm_avail :: u32
  pm_limit :: u32

definition bzero_frame :: "(u32 \<Rightarrow> u32) \<Rightarrow> u32 \<Rightarrow> (u32 \<Rightarrow> u32)" where
  "bzero_frame m p = (\<lambda>a. if a - p < FRAME_SIZE then 0 else m a)"

definition alloc_frame :: "phys \<Rightarrow> (u32 \<times> phys) res" where
  "alloc_frame pm =
     bindR (if pm_firstFree pm \<noteq> 0
            then Inr (pm_firstFree pm, pm\<lparr>pm_firstFree := pm_mem pm (pm_firstFree pm)\<rparr>)
            else if pm_avail pm = pm_limit pm then Inl (Panic ''no more frames'')
            else Inr (pm_avail pm, pm\<lparr>pm_avail := pm_avail pm + FRAME_SIZE\<rparr>)) (\<lambda>(p, pm1).
     bindR (assertR (pm_offset p = 0) ''offset(p) == 0'') (\<lambda>_.
       Inr (p, pm1\<lparr>pm_mem := bzero_frame (pm_mem pm1) p\<rparr>)))"

definition dealloc_frame :: "phys \<Rightarrow> u32 \<Rightarrow> phys res" where
  "dealloc_frame pm p =
     bindR (assertR (pm_offset p = 0) ''offset(p) == 0'') (\<lambda>_.
       Inr (pm\<lparr>pm_mem := (pm_mem pm)(p := pm_firstFree pm), pm_firstFree := p\<rparr>))"

definition phys_init :: "(u32 \<Rightarrow> u32) \<Rightarrow> u32 \<Rightarrow> u32 \<Rightarrow> phys res" where
  "phys_init m start sz =
     bindR (assertR (pm_offset start = 0) ''offset(start) == 0'') (\<lambda>_.
     bindR (assertR (pm_offset sz = 0) ''offset(size) == 0'') (\<lambda>_.
       Inr \<lparr>pm_mem = m, pm_firstFree = 0, pm_avail = start, pm_limit = start + sz\<rparr>))"

section \<open>Frames\<close>

definition is_frame :: "u32 \<Rightarrow> bool" where
  "is_frame p \<longleftrightarrow> 4096 dvd unat p"

definition in_frame :: "u32 \<Rightarrow> u32 \<Rightarrow> bool" where
  "in_frame p a \<longleftrightarrow> unat a div 4096 = unat p div 4096"

lemma FRAME_SIZE_unat [simp]: "unat FRAME_SIZE = 4096"
  by (simp add: FRAME_SIZE_def)

lemma pm_offset_unat: "unat (pm_offset pa) = unat pa mod 4096"
proof -
  have "pa AND 0xFFF = take_bit 12 pa" by (simp add: take_bit_eq_mask mask_eq_exp_minus_1)
  then show ?thesis by (simp add: pm_offset_def unat_mod take_bit_eq_mod)
qed

lemma pm_offset_zero: "pm_offset pa = 0 \<longleftrightarrow> is_frame pa"
  using pm_offset_unat [of pa] unat_eq_0 [of "pm_offset pa"] by (auto simp: is_frame_def)

lemma is_frame_less: "is_frame p \<Longrightarrow> unat p + 4096 \<le> 2 ^ 32"
proof -
  assume "is_frame p"
  then obtain k where k: "unat p = 4096 * k" by (auto simp: is_frame_def)
  have "unat p < 2 ^ 32" by (rule unat_u32_less)
  then show ?thesis using k by simp
qed

lemma in_frame_iff: "is_frame p \<Longrightarrow> in_frame p a \<longleftrightarrow> unat p \<le> unat a \<and> unat a < unat p + 4096"
proof -
  assume "is_frame p"
  then obtain k where k: "unat p = 4096 * k" by (auto simp: is_frame_def)
  have "unat a div 4096 = k \<longleftrightarrow> 4096 * k \<le> unat a \<and> unat a < 4096 * k + 4096" by linarith
  then show ?thesis by (simp add: in_frame_def k)
qed

lemma in_frame_self [simp]: "in_frame p p"
  by (simp add: in_frame_def)

lemma in_frame_unique: "is_frame p \<Longrightarrow> is_frame q \<Longrightarrow> in_frame p a \<Longrightarrow> in_frame q a \<Longrightarrow> p = q"
  by (auto simp: is_frame_def in_frame_def word_unat_eq_iff elim!: dvdE)

lemma in_frame_frame: "is_frame p \<Longrightarrow> is_frame q \<Longrightarrow> in_frame p q \<Longrightarrow> p = q"
  using in_frame_unique [of p q q] by simp

lemma bzero_frame_eq: "is_frame p \<Longrightarrow> bzero_frame m p a = (if in_frame p a then 0 else m a)"
proof -
  assume p: "is_frame p"
  have "a - p < FRAME_SIZE \<longleftrightarrow> in_frame p a"
  proof (cases "p \<le> a")
    case True
    then show ?thesis
      using p by (auto simp: word_less_nat_alt unat_minus_no_wrap in_frame_iff word_le_nat_alt)
  next
    case False
    then have lt: "unat a < unat p" by (simp add: word_le_nat_alt)
    then have "unat (a - p) = 2 ^ 32 + unat a - unat p" by (simp add: unat_sub_if')
    then show ?thesis using lt p is_frame_less [OF p] by (auto simp: in_frame_iff word_less_nat_alt)
  qed
  then show ?thesis by (simp add: bzero_frame_def)
qed

section \<open>Invariant\<close>

text \<open>\<open>flist\<close>: the free list in memory. \<open>phys_ok lo pm A\<close>: \<open>A\<close> are the frames handed out.\<close>

fun flist :: "(u32 \<Rightarrow> u32) \<Rightarrow> u32 \<Rightarrow> u32 list \<Rightarrow> bool" where
  "flist m p [] \<longleftrightarrow> p = 0"
| "flist m p (x # xs) \<longleftrightarrow> p = x \<and> x \<noteq> 0 \<and> flist m (m x) xs"

definition frames :: "nat \<Rightarrow> u32 \<Rightarrow> u32 set" where
  "frames lo hi = {p. is_frame p \<and> lo \<le> unat p \<and> unat p < unat hi}"

definition phys_ok :: "nat \<Rightarrow> phys \<Rightarrow> u32 set \<Rightarrow> bool" where
  "phys_ok lo pm A \<longleftrightarrow> (\<exists>fl. flist (pm_mem pm) (pm_firstFree pm) fl \<and> distinct fl \<and>
     set fl \<inter> A = {} \<and> set fl \<union> A = frames lo (pm_avail pm)) \<and> 0 < lo \<and>
     is_frame (pm_avail pm) \<and> is_frame (pm_limit pm) \<and> lo \<le> unat (pm_avail pm) \<and> pm_avail pm \<le> pm_limit pm"

lemma flist_frame: "flist m p xs \<Longrightarrow> (\<And>x. x \<in> set xs \<Longrightarrow> m' x = m x) \<Longrightarrow> flist m' p xs"
  by (induction m p xs rule: flist.induct) auto

lemma frames_grow:
  assumes "is_frame hi" "unat hi + 4096 < 2 ^ 32" "lo \<le> unat hi"
  shows "frames lo (hi + FRAME_SIZE) = insert hi (frames lo hi) \<and> is_frame (hi + FRAME_SIZE)"
proof -
  have u: "unat (hi + FRAME_SIZE) = unat hi + 4096" using assms(2) by (subst unat_plus_no_wrap) simp_all
  obtain k where k: "unat hi = 4096 * k" using assms(1) by (auto simp: is_frame_def)
  have "p = hi" if "is_frame p" "unat hi \<le> unat p" "unat p < unat hi + 4096" for p
    using that k by (auto simp: is_frame_def word_unat_eq_iff elim!: dvdE)
  then show ?thesis using assms(1,3) u by (fastforce simp: frames_def is_frame_def)
qed

lemma phys_okI:
  "flist (pm_mem pm) (pm_firstFree pm) fl \<Longrightarrow> distinct fl \<Longrightarrow> set fl \<inter> A = {} \<Longrightarrow>
     set fl \<union> A = frames lo (pm_avail pm) \<Longrightarrow> 0 < lo \<Longrightarrow> is_frame (pm_avail pm) \<Longrightarrow>
     is_frame (pm_limit pm) \<Longrightarrow> lo \<le> unat (pm_avail pm) \<Longrightarrow> pm_avail pm \<le> pm_limit pm \<Longrightarrow> phys_ok lo pm A"
  unfolding phys_ok_def by blast

lemma phys_ok_frames: "phys_ok lo pm A \<Longrightarrow> p \<in> A \<Longrightarrow> is_frame p \<and> p \<noteq> 0"
proof -
  assume a: "phys_ok lo pm A" "p \<in> A"
  then have "p \<in> frames lo (pm_avail pm)" "0 < lo" by (auto simp: phys_ok_def)
  then show ?thesis by (auto simp: frames_def)
qed

lemma alloc_frame_spec:
  assumes ok: "phys_ok lo pm A"
  shows "(alloc_frame pm = Inl (Panic ''no more frames'') \<and> A = frames lo (pm_limit pm)) \<or>
    (\<exists>p pm'. alloc_frame pm = Inr (p, pm') \<and> phys_ok lo pm' (insert p A) \<and> p \<notin> A \<and> is_frame p \<and> p \<noteq> 0 \<and>
       pm_limit pm' = pm_limit pm \<and> (\<forall>a. pm_mem pm' a = (if in_frame p a then 0 else pm_mem pm a)))"
proof -
  obtain fl where fl: "flist (pm_mem pm) (pm_firstFree pm) fl" "distinct fl" "set fl \<inter> A = {}"
    "set fl \<union> A = frames lo (pm_avail pm)"
    using ok by (auto simp: phys_ok_def)
  have o: "0 < lo" "is_frame (pm_avail pm)" "is_frame (pm_limit pm)" "lo \<le> unat (pm_avail pm)" "pm_avail pm \<le> pm_limit pm"
    using ok by (auto simp: phys_ok_def)
  show ?thesis
  proof (cases fl)
    case (Cons p r)
    have p: "pm_firstFree pm = p" "p \<noteq> 0" "flist (pm_mem pm) (pm_mem pm p) r" "p \<notin> set r" "p \<notin> A"
      using fl Cons by auto
    have fr: "is_frame x" if "x \<in> set fl" for x using that fl(4) by (auto simp: frames_def)
    then have pf: "is_frame p" using Cons by simp
    let ?pm = "pm\<lparr>pm_firstFree := pm_mem pm p, pm_mem := bzero_frame (pm_mem pm) p\<rparr>"
    have "\<not> in_frame p x" if "x \<in> set r" for x
      using in_frame_frame [OF pf fr, of x] that p(4) Cons by auto
    then have "flist (pm_mem ?pm) (pm_firstFree ?pm) r"
      using flist_frame [OF p(3), of "pm_mem ?pm"] by (simp add: bzero_frame_eq [OF pf])
    moreover have "set r \<inter> insert p A = {}" "set r \<union> insert p A = frames lo (pm_avail ?pm)" "distinct r"
      using fl Cons p by auto
    ultimately have "phys_ok lo ?pm (insert p A)" using o by (intro phys_okI [of _ r]) simp_all
    moreover have "alloc_frame pm = Inr (p, ?pm)"
      using p pf by (simp add: alloc_frame_def pm_offset_zero)
    ultimately show ?thesis using p pf by (auto simp: bzero_frame_eq)
  next
    case Nil
    then have ff: "pm_firstFree pm = 0" "A = frames lo (pm_avail pm)" using fl by auto
    show ?thesis
    proof (cases "pm_avail pm = pm_limit pm")
      case True
      then show ?thesis using ff by (simp add: alloc_frame_def)
    next
      case False
      let ?p = "pm_avail pm"
      let ?pm = "pm\<lparr>pm_avail := ?p + FRAME_SIZE, pm_mem := bzero_frame (pm_mem pm) ?p\<rparr>"
      have lt: "unat ?p < unat (pm_limit pm)"
        using False o(5) by (simp add: word_le_nat_alt word_unat_eq_iff order_less_le)
      then have le: "unat ?p + 4096 \<le> unat (pm_limit pm)"
        using o(2,3) by (auto simp: is_frame_def elim!: dvdE)
      then have l2: "unat ?p + 4096 < 2 ^ 32" using unat_u32_less [of "pm_limit pm"] by linarith
      then have u: "unat (?p + FRAME_SIZE) = unat ?p + 4096" by (subst unat_plus_no_wrap) simp_all
      have "phys_ok lo ?pm (insert ?p A)"
        unfolding phys_ok_def using frames_grow [OF o(2) l2 o(4)] o ff le u
        by (auto simp: word_le_nat_alt intro: exI [of _ "[]"])
      moreover have "?p \<notin> A" using ff(2) by (simp add: frames_def)
      moreover have "?p \<noteq> 0" using o(1,4) by auto
      moreover have "alloc_frame pm = Inr (?p, ?pm)"
        using ff(1) False o(2) by (simp add: alloc_frame_def pm_offset_zero)
      ultimately show ?thesis using o(2) by (auto simp: bzero_frame_eq)
    qed
  qed
qed

lemma dealloc_frame_spec:
  assumes ok: "phys_ok lo pm A" and p: "p \<in> A"
  shows "\<exists>pm'. dealloc_frame pm p = Inr pm' \<and> phys_ok lo pm' (A - {p}) \<and> pm_limit pm' = pm_limit pm \<and>
    (\<forall>a. a \<noteq> p \<longrightarrow> pm_mem pm' a = pm_mem pm a)"
proof -
  obtain fl where fl: "flist (pm_mem pm) (pm_firstFree pm) fl" "distinct fl" "set fl \<inter> A = {}"
    "set fl \<union> A = frames lo (pm_avail pm)"
    using ok by (auto simp: phys_ok_def)
  have pf: "is_frame p" "p \<noteq> 0" using phys_ok_frames [OF ok p] by auto
  have np: "p \<notin> set fl" using fl(3) p by auto
  let ?pm = "pm\<lparr>pm_mem := (pm_mem pm)(p := pm_firstFree pm), pm_firstFree := p\<rparr>"
  have "flist ((pm_mem pm)(p := pm_firstFree pm)) (pm_firstFree pm) fl"
    by (rule flist_frame [OF fl(1)]) (use np in auto)
  then have "flist (pm_mem ?pm) (pm_firstFree ?pm) (p # fl)" using pf by simp
  moreover have "distinct (p # fl)" "set (p # fl) \<inter> (A - {p}) = {}"
    "set (p # fl) \<union> (A - {p}) = frames lo (pm_avail ?pm)" using fl np p by auto
  ultimately have "phys_ok lo ?pm (A - {p})"
    using ok by (intro phys_okI [of _ "p # fl"]) (simp_all add: phys_ok_def)
  moreover have "dealloc_frame pm p = Inr ?pm" using pf by (simp add: dealloc_frame_def pm_offset_zero)
  ultimately show ?thesis by auto
qed

section \<open>The interface\<close>

definition pm_write :: "phys \<Rightarrow> u32 \<Rightarrow> u32 \<Rightarrow> phys" where
  "pm_write pm a v = pm\<lparr>pm_mem := (pm_mem pm)(a := v)\<rparr>"

locale frame_source =
  fixes alloc :: "'s \<Rightarrow> (u32 \<times> 's) res" and dealloc :: "'s \<Rightarrow> u32 \<Rightarrow> 's res"
    and peek :: "'s \<Rightarrow> u32 \<Rightarrow> u32" and poke :: "'s \<Rightarrow> u32 \<Rightarrow> u32 \<Rightarrow> 's" and owns :: "'s \<Rightarrow> u32 set \<Rightarrow> bool"
  assumes owned_frame: "owns s A \<Longrightarrow> p \<in> A \<Longrightarrow> is_frame p \<and> p \<noteq> 0"
    and alloc_law: "owns s A \<Longrightarrow> alloc s = Inr (p, s') \<Longrightarrow>
      p \<notin> A \<and> is_frame p \<and> owns s' (insert p A) \<and> (\<forall>a. peek s' a = (if in_frame p a then 0 else peek s a))"
    and dealloc_law: "owns s A \<Longrightarrow> p \<in> A \<Longrightarrow>
      \<exists>s'. dealloc s p = Inr s' \<and> owns s' (A - {p}) \<and> (\<forall>a. a \<noteq> p \<longrightarrow> peek s' a = peek s a)"
    and poke_law: "owns s A \<Longrightarrow> q \<in> A \<Longrightarrow> in_frame q a \<Longrightarrow> owns (poke s a v) A"
    and peek_poke: "peek (poke s a v) b = (if b = a then v else peek s b)"
begin

lemma owned_apart: "owns s A \<Longrightarrow> p \<in> A \<Longrightarrow> q \<in> A \<Longrightarrow> p \<noteq> q \<Longrightarrow> in_frame p a \<Longrightarrow> \<not> in_frame q a"
  using owned_frame in_frame_unique by blast

lemma alloc_keeps:
  assumes "owns s A" "alloc s = Inr (p, s')" "q \<in> A" "in_frame q a"
  shows "peek s' a = peek s a"
proof -
  have "p \<notin> A" "owns s' (insert p A)" "\<forall>a. peek s' a = (if in_frame p a then 0 else peek s a)"
    using alloc_law [OF assms(1,2)] by auto
  moreover have "p \<noteq> q" using calculation(1) assms(3) by auto
  ultimately show ?thesis using owned_apart [of s' "insert p A" q p a] assms(3,4) by auto
qed

lemma dealloc_keeps:
  assumes "owns s A" "p \<in> A" "dealloc s p = Inr s'" "q \<in> A" "q \<noteq> p" "in_frame q a"
  shows "peek s' a = peek s a"
proof -
  have "a \<noteq> p" using owned_apart [OF assms(1,4,2,5,6)] by auto
  then show ?thesis using dealloc_law [OF assms(1,2)] assms(3) by auto
qed

text \<open>Frames given out one after the other are all different and none is one that is in use.\<close>

fun alloc_many :: "nat \<Rightarrow> 's \<Rightarrow> (u32 list \<times> 's) res" where
  "alloc_many 0 s = Inr ([], s)"
| "alloc_many (Suc n) s = bindR (alloc s) (\<lambda>(p, s1). bindR (alloc_many n s1) (\<lambda>(ps, s2). Inr (p # ps, s2)))"

lemma alloc_many_fresh:
  "owns s A \<Longrightarrow> alloc_many n s = Inr (ps, s') \<Longrightarrow>
     distinct ps \<and> length ps = n \<and> set ps \<inter> A = {} \<and> owns s' (set ps \<union> A)"
proof (induction n arbitrary: s A ps)
  case (Suc n)
  obtain p s1 qs where p: "alloc s = Inr (p, s1)" "alloc_many n s1 = Inr (qs, s')" "ps = p # qs"
    using Suc.prems(2) by (auto simp: bindR_Inr_conv)
  have a: "p \<notin> A" "owns s1 (insert p A)" using alloc_law [OF Suc.prems(1) p(1)] by auto
  from Suc.IH [OF a(2) p(2)] show ?case using a(1) p(3) by auto
qed auto

end

lemma pm_write_ok:
  assumes ok: "phys_ok lo pm A" and q: "q \<in> A" "in_frame q a"
  shows "phys_ok lo (pm_write pm a v) A"
proof -
  obtain fl where fl: "flist (pm_mem pm) (pm_firstFree pm) fl" "distinct fl" "set fl \<inter> A = {}"
    "set fl \<union> A = frames lo (pm_avail pm)"
    using ok by (auto simp: phys_ok_def)
  have "x \<noteq> a" if "x \<in> set fl" for x
  proof
    assume "x = a"
    moreover have "is_frame x" using that fl(4) by (auto simp: frames_def)
    ultimately have "q = x" using in_frame_frame phys_ok_frames [OF ok q(1)] q(2) by blast
    then show False using that q(1) fl(3) by auto
  qed
  then have "flist (pm_mem (pm_write pm a v)) (pm_firstFree (pm_write pm a v)) fl"
    using flist_frame [OF fl(1)] by (simp add: pm_write_def)
  then show ?thesis
    using fl ok by (intro phys_okI [of _ fl]) (simp_all add: phys_ok_def pm_write_def)
qed

definition phys_owns :: "phys \<Rightarrow> u32 set \<Rightarrow> bool" where
  "phys_owns pm A \<longleftrightarrow> (\<exists>lo. phys_ok lo pm A)"

interpretation pf: frame_source alloc_frame dealloc_frame pm_mem pm_write phys_owns
proof unfold_locales
  show "p \<notin> A \<and> is_frame p \<and> phys_owns s' (insert p A) \<and>
      (\<forall>a. pm_mem s' a = (if in_frame p a then 0 else pm_mem s a))"
    if h: "phys_owns s A" "alloc_frame s = Inr (p, s')" for s A p s'
  proof -
    obtain lo where "phys_ok lo s A" using h(1) by (auto simp: phys_owns_def)
    from alloc_frame_spec [OF this] show ?thesis using h(2) by (auto simp: phys_owns_def)
  qed
  show "\<exists>s'. dealloc_frame s p = Inr s' \<and> phys_owns s' (A - {p}) \<and> (\<forall>a. a \<noteq> p \<longrightarrow> pm_mem s' a = pm_mem s a)"
    if h: "phys_owns s A" "p \<in> A" for s A p
  proof -
    obtain lo where "phys_ok lo s A" using h(1) by (auto simp: phys_owns_def)
    from dealloc_frame_spec [OF this h(2)] show ?thesis by (auto simp: phys_owns_def)
  qed
qed (auto simp: phys_owns_def pm_write_def dest: phys_ok_frames pm_write_ok [unfolded pm_write_def])

section \<open>Properties\<close>

text \<open>
  (C37:alloc_frame_correct) \<open>alloc_frame\<close> panics exactly when every frame of the range is in use. Otherwise it returns
  a frame that was not in use, page aligned, not null, filled with zeros, and changes no other
  memory.
\<close>

theorem alloc_frame_correct:
  assumes "phys_ok lo pm A"
  shows "(alloc_frame pm = Inl (Panic ''no more frames'') \<and> A = frames lo (pm_limit pm)) \<or>
    (\<exists>p pm'. alloc_frame pm = Inr (p, pm') \<and> phys_ok lo pm' (insert p A) \<and> p \<notin> A \<and> is_frame p \<and> p \<noteq> 0 \<and>
       pm_limit pm' = pm_limit pm \<and> (\<forall>a. pm_mem pm' a = (if in_frame p a then 0 else pm_mem pm a)))"
  by (rule alloc_frame_spec [OF assms])

lemma phys_init_ok:
  assumes "0 < unat start" "is_frame start" "is_frame sz" "unat start + unat sz < 2 ^ 32"
  shows "\<exists>pm. phys_init m start sz = Inr pm \<and> phys_ok (unat start) pm {}"
proof -
  have "unat (start + sz) = unat start + unat sz" using assms(4) by (rule unat_plus_no_wrap)
  then have "phys_ok (unat start) \<lparr>pm_mem = m, pm_firstFree = 0, pm_avail = start, pm_limit = start + sz\<rparr> {}"
    using assms by (intro phys_okI [of _ "[]"]) (auto simp: frames_def is_frame_def word_le_nat_alt)
  then show ?thesis using assms(2,3) by (simp add: phys_init_def pm_offset_zero)
qed

definition demo_phys :: phys where
  "demo_phys = \<lparr>pm_mem = \<lambda>_. 7, pm_firstFree = 0, pm_avail = 0x1000, pm_limit = 0x5000\<rparr>"

lemma demo_phys_ok: "phys_ok 4096 demo_phys {}"
  by (rule phys_okI [of _ "[]"]) (simp_all add: demo_phys_def frames_def is_frame_def)

theorem alloc_frame_correct_witness:
  "\<exists>pm'. alloc_frame demo_phys = Inr (0x1000, pm') \<and> phys_ok 4096 pm' {0x1000}"
proof -
  have "\<exists>pm'. alloc_frame demo_phys = Inr (0x1000, pm')"
    by (simp add: alloc_frame_def demo_phys_def pm_offset_def)
  then show ?thesis using alloc_frame_correct [OF demo_phys_ok] by auto
qed

text \<open>
  (dealloc_frame_correct) \<open>dealloc_frame\<close> of a frame in use succeeds and makes it available again; it changes no
  memory outside the first word of that frame.
\<close>

theorem dealloc_frame_correct:
  assumes "phys_ok lo pm A" "p \<in> A"
  shows "\<exists>pm'. dealloc_frame pm p = Inr pm' \<and> phys_ok lo pm' (A - {p}) \<and> pm_limit pm' = pm_limit pm \<and>
    (\<forall>a. a \<noteq> p \<longrightarrow> pm_mem pm' a = pm_mem pm a)"
  by (rule dealloc_frame_spec [OF assms])

theorem dealloc_frame_correct_witness:
  "\<exists>pm pm'. alloc_frame demo_phys = Inr (0x1000, pm) \<and> dealloc_frame pm 0x1000 = Inr pm' \<and> phys_ok 4096 pm' {}"
proof -
  have a: "\<exists>pm'. alloc_frame demo_phys = Inr (0x1000, pm')"
    by (simp add: alloc_frame_def demo_phys_def pm_offset_def)
  then obtain pm where pm: "alloc_frame demo_phys = Inr (0x1000, pm)" "phys_ok 4096 pm {0x1000}"
    using alloc_frame_spec [OF demo_phys_ok] by auto
  from dealloc_frame_correct [OF pm(2)] show ?thesis using pm(1) by auto
qed

end
