(* ===== verification/VME.thy ===== *)
theory VME
  imports PhysMem
begin

text \<open>
  Virtual memory areas, \<open>kernel/vme.cc\<close> and \<open>kernel/vme.h\<close>: the sorted list of mapped entries of an
  address space, its sorted and coalesced list of free ranges, and the first-fit allocation of
  page ranges.

  The lists are chains of \<open>StrongPtr\<close>s that only the \<open>VME\<close> owns, so they are lists here. A file is
  the value of its \<open>StrongPtr<Node>\<close>. Removing an entry destroys it, which unmaps its pages;
  \<open>remove_entry\<close> returns the destroyed entry and \<open>entry_pages\<close> gives the page numbers that
  \<open>~VMEEntry\<close> passes to \<open>VMM::remove_mapping\<close>.
\<close>

section \<open>State and operations\<close>

record vme_entry =
  e_start :: u32
  e_num_pages :: u32
  e_size :: u32
  e_file :: u32
  e_file_offset :: u32
  e_user :: bool

record free_entry =
  f_start :: u32
  f_num_pages :: u32

record vme =
  v_avail :: u32
  v_limit :: u32
  v_entries :: "vme_entry list"
  v_free_entries :: "free_entry list"

definition vme_new :: "u32 \<Rightarrow> u32 \<Rightarrow> vme" where
  "vme_new start limit = \<lparr>v_avail = start, v_limit = limit, v_entries = [], v_free_entries = []\<rparr>"

definition entry_pages :: "vme_entry \<Rightarrow> u32 list" where
  "entry_pages e =
     map (\<lambda>i. drop_bit 12 (e_start e + of_nat i * FRAME_SIZE)) [0 ..< unat (e_num_pages e)]"

fun insert_entry_sorted :: "vme_entry \<Rightarrow> vme_entry list \<Rightarrow> vme_entry list" where
  "insert_entry_sorted e [] = [e]"
| "insert_entry_sorted e (cur # r) =
     (if e_start cur < e_start e then cur # insert_entry_sorted e r else e # cur # r)"

text \<open>One turn of the loop of \<open>coallescing\<close> either joins two neighbours or moves on.\<close>

fun coallescing :: "free_entry list \<Rightarrow> free_entry list" where
  "coallescing (cur # nxt # r) =
     (if f_start cur + f_num_pages cur * FRAME_SIZE = f_start nxt
      then coallescing (cur\<lparr>f_num_pages := f_num_pages cur + f_num_pages nxt\<rparr> # r)
      else cur # coallescing (nxt # r))"
| "coallescing fs = fs"

fun insert_free_sorted :: "free_entry \<Rightarrow> free_entry list \<Rightarrow> free_entry list" where
  "insert_free_sorted f [] = [f]"
| "insert_free_sorted f (cur # r) =
     (if f_start cur < f_start f then cur # insert_free_sorted f r else f # cur # r)"

definition insert_free_space :: "u32 \<Rightarrow> u32 \<Rightarrow> free_entry list \<Rightarrow> free_entry list" where
  "insert_free_space start num_pages fs =
     coallescing (insert_free_sorted \<lparr>f_start = start, f_num_pages = num_pages\<rparr> fs)"

definition in_entry :: "u32 \<Rightarrow> vme_entry \<Rightarrow> bool" where
  "in_entry va e \<longleftrightarrow> va \<ge> e_start e \<and> va < e_start e + e_num_pages e * FRAME_SIZE"

fun get_entry :: "u32 \<Rightarrow> vme_entry list \<Rightarrow> vme_entry option" where
  "get_entry va [] = None"
| "get_entry va (cur # r) = (if in_entry va cur then Some cur else get_entry va r)"

definition vme_get :: "vme \<Rightarrow> u32 \<Rightarrow> vme_entry option" where
  "vme_get v va = get_entry va (v_entries v)"

definition required_pages :: "u32 \<Rightarrow> u32" where
  "required_pages sz = (sz + FRAME_SIZE - 1) div FRAME_SIZE"

text \<open>The loop of \<open>add_entry\<close>: the first free range that is large enough; 0 when there is none.\<close>

fun take_free :: "u32 \<Rightarrow> free_entry list \<Rightarrow> u32 \<times> free_entry list" where
  "take_free n [] = (0, [])"
| "take_free n (cur # r) =
     (if f_num_pages cur \<ge> n then
        let cur' = \<lparr>f_start = f_start cur + n * FRAME_SIZE, f_num_pages = f_num_pages cur - n\<rparr>
        in (f_start cur, if f_num_pages cur' = 0 then r else cur' # r)
      else let (va, r') = take_free n r in (va, cur # r'))"

definition add_entry :: "vme \<Rightarrow> u32 \<Rightarrow> u32 \<Rightarrow> u32 \<Rightarrow> bool \<Rightarrow> u32 \<times> vme" where
  "add_entry v sz file file_offset user =
     (let n = required_pages sz;
          (va0, fs) = take_free n (v_free_entries v);
          v1 = v\<lparr>v_free_entries := fs\<rparr>;
          ins = (\<lambda>va w. (va, w\<lparr>v_entries := insert_entry_sorted
             \<lparr>e_start = va, e_num_pages = n, e_size = sz, e_file = file,
              e_file_offset = file_offset, e_user = user\<rparr> (v_entries w)\<rparr>))
      in if va0 = 0 then
           if v_avail v1 + sz > v_limit v1 then (0, v1)
           else ins (v_avail v1) (v1\<lparr>v_avail := v_avail v1 + FRAME_SIZE * n\<rparr>)
         else ins va0 v1)"

text \<open>The loop of \<open>remove_entry\<close>: the first entry that contains the address and may be removed.\<close>

fun take_entry :: "u32 \<Rightarrow> bool \<Rightarrow> vme_entry list \<Rightarrow> (vme_entry \<times> vme_entry list) option" where
  "take_entry va user [] = None"
| "take_entry va user (cur # r) =
     (if in_entry va cur \<and> (\<not> user \<or> e_user cur = user) then Some (cur, r)
      else map_option (\<lambda>(e, r'). (e, cur # r')) (take_entry va user r))"

definition remove_entry :: "vme \<Rightarrow> u32 \<Rightarrow> bool \<Rightarrow> vme_entry option \<times> vme" where
  "remove_entry v va user =
     (case take_entry va user (v_entries v) of
        None \<Rightarrow> (None, v)
      | Some (e, es) \<Rightarrow>
          (Some e, v\<lparr>v_entries := es,
                     v_free_entries := insert_free_space (e_start e) (e_num_pages e) (v_free_entries v)\<rparr>))"

text \<open>\<open>duplicate\<close> copies both lists node by node.\<close>

fun dup_entries :: "vme_entry list \<Rightarrow> vme_entry list" where
  "dup_entries [] = []"
| "dup_entries (e # r) =
     \<lparr>e_start = e_start e, e_num_pages = e_num_pages e, e_size = e_size e, e_file = e_file e,
      e_file_offset = e_file_offset e, e_user = e_user e\<rparr> # dup_entries r"

fun dup_free :: "free_entry list \<Rightarrow> free_entry list" where
  "dup_free [] = []"
| "dup_free (f # r) = \<lparr>f_start = f_start f, f_num_pages = f_num_pages f\<rparr> # dup_free r"

definition vme_duplicate :: "vme \<Rightarrow> vme" where
  "vme_duplicate v =
     (vme_new (v_avail v) (v_limit v))
       \<lparr>v_entries := dup_entries (v_entries v), v_free_entries := dup_free (v_free_entries v)\<rparr>"

section \<open>Ranges\<close>

text \<open>Entries and free ranges as intervals of addresses, free of wrap-around.\<close>

definition elo :: "vme_entry \<Rightarrow> nat" where "elo e = unat (e_start e)"
definition ehi :: "vme_entry \<Rightarrow> nat" where "ehi e = unat (e_start e) + 4096 * unat (e_num_pages e)"
definition flo :: "free_entry \<Rightarrow> nat" where "flo f = unat (f_start f)"
definition fhi :: "free_entry \<Rightarrow> nat" where "fhi f = unat (f_start f) + 4096 * unat (f_num_pages f)"

definition espan :: "vme_entry \<Rightarrow> nat set" where "espan e = {elo e ..< ehi e}"
definition fspan :: "free_entry \<Rightarrow> nat set" where "fspan f = {flo f ..< fhi f}"

text \<open>
  \<open>vme_ok lo v\<close>: entries and free ranges are non-empty and page aligned, sorted and pairwise
  disjoint, no two free ranges touch, and together they cover exactly what has been handed out,
  from \<open>lo\<close> up to \<open>avail\<close>.
\<close>

definition frees_ok :: "nat \<Rightarrow> nat \<Rightarrow> free_entry list \<Rightarrow> bool" where
  "frees_ok lo hi fs \<longleftrightarrow> sorted_wrt (\<lambda>a b. fhi a < flo b) fs \<and>
     (\<forall>f \<in> set fs. 4096 dvd flo f \<and> flo f < fhi f \<and> lo \<le> flo f \<and> fhi f \<le> hi)"

definition entries_ok :: "nat \<Rightarrow> nat \<Rightarrow> vme_entry list \<Rightarrow> bool" where
  "entries_ok lo hi es \<longleftrightarrow> sorted_wrt (\<lambda>a b. ehi a \<le> elo b) es \<and>
     (\<forall>e \<in> set es. 4096 dvd elo e \<and> elo e < ehi e \<and> lo \<le> elo e \<and> ehi e \<le> hi)"

definition espans :: "vme_entry list \<Rightarrow> nat set" where "espans es = (\<Union>e \<in> set es. espan e)"
definition fspans :: "free_entry list \<Rightarrow> nat set" where "fspans fs = (\<Union>f \<in> set fs. fspan f)"

definition vme_ok :: "nat \<Rightarrow> vme \<Rightarrow> bool" where
  "vme_ok lo v \<longleftrightarrow>
     entries_ok lo (unat (v_avail v)) (v_entries v) \<and> frees_ok lo (unat (v_avail v)) (v_free_entries v) \<and>
     espans (v_entries v) \<inter> fspans (v_free_entries v) = {} \<and>
     espans (v_entries v) \<union> fspans (v_free_entries v) = {lo ..< unat (v_avail v)} \<and>
     0 < lo \<and> lo \<le> unat (v_avail v) \<and> 4096 dvd lo \<and> 4096 dvd unat (v_avail v) \<and> 4096 dvd unat (v_limit v) \<and>
     v_avail v \<le> v_limit v"

lemma unat_pages: "unat s + 4096 * unat n < 2 ^ 32 \<Longrightarrow> unat (s + n * FRAME_SIZE :: u32) = unat s + 4096 * unat n"
  by (simp add: unat_word_ariths mult.commute)

lemma in_entry_span:
  assumes "ehi e < 2 ^ 32" shows "in_entry va e \<longleftrightarrow> unat va \<in> espan e"
  using assms unat_pages [of "e_start e" "e_num_pages e"]
  by (auto simp: in_entry_def espan_def elo_def ehi_def word_le_nat_alt word_less_nat_alt)

lemma entries_ok_Cons:
  "entries_ok lo hi (e # es) \<longleftrightarrow> entries_ok lo hi es \<and> (\<forall>x \<in> set es. ehi e \<le> elo x) \<and>
     4096 dvd elo e \<and> elo e < ehi e \<and> lo \<le> elo e \<and> ehi e \<le> hi"
  by (auto simp: entries_ok_def)

lemma frees_ok_Cons:
  "frees_ok lo hi (f # fs) \<longleftrightarrow> frees_ok lo hi fs \<and> (\<forall>x \<in> set fs. fhi f < flo x) \<and>
     4096 dvd flo f \<and> flo f < fhi f \<and> lo \<le> flo f \<and> fhi f \<le> hi"
  by (auto simp: frees_ok_def)

lemma espans_Cons [simp]: "espans (e # es) = espan e \<union> espans es"
  by (simp add: espans_def)

lemma espans_Nil [simp]: "espans [] = {}"
  by (simp add: espans_def)

lemma fspans_Cons [simp]: "fspans (f # fs) = fspan f \<union> fspans fs"
  by (simp add: fspans_def)

lemma fspans_Nil [simp]: "fspans [] = {}"
  by (simp add: fspans_def)

lemma entries_ok_mono: "entries_ok lo hi es \<Longrightarrow> hi \<le> hi' \<Longrightarrow> entries_ok lo hi' es"
  by (auto simp: entries_ok_def)

lemma frees_ok_mono: "frees_ok lo hi fs \<Longrightarrow> hi \<le> hi' \<Longrightarrow> frees_ok lo hi' fs"
  by (auto simp: frees_ok_def)

section \<open>Lookup\<close>

lemma get_entry_Some:
  "get_entry va es = Some e \<Longrightarrow> e \<in> set es \<and> in_entry va e"
  by (induction es) (auto split: if_splits)

lemma get_entry_None: "get_entry va es = None \<longleftrightarrow> (\<forall>e \<in> set es. \<not> in_entry va e)"
  by (induction es) auto

lemma entries_disjoint:
  assumes "entries_ok lo hi es" "e \<in> set es" "e' \<in> set es" "x \<in> espan e" "x \<in> espan e'"
  shows "e = e'"
  using assms
proof (induction es)
  case (Cons a es)
  then show ?case by (fastforce simp: entries_ok_Cons espan_def)
qed simp

lemma get_entry_iff:
  assumes "entries_ok lo hi es" "hi < 2 ^ 32"
  shows "get_entry va es = Some e \<longleftrightarrow> e \<in> set es \<and> unat va \<in> espan e"
proof -
  have span: "in_entry va x \<longleftrightarrow> unat va \<in> espan x" if "x \<in> set es" for x
    using that assms by (intro in_entry_span) (auto simp: entries_ok_def)
  show ?thesis
  proof
    assume "get_entry va es = Some e" then show "e \<in> set es \<and> unat va \<in> espan e"
      using get_entry_Some span by blast
  next
    assume e: "e \<in> set es \<and> unat va \<in> espan e"
    then obtain e' where e': "get_entry va es = Some e'"
      using get_entry_None [of va es] span by fastforce
    then have "e' = e" using get_entry_Some [OF e'] span entries_disjoint [OF assms(1)] e by blast
    then show "get_entry va es = Some e" using e' by simp
  qed
qed

section \<open>Allocation\<close>

lemma required_pages_unat:
  assumes "unat sz + 4095 < 2 ^ 32"
  shows "unat (required_pages sz) = (unat sz + 4095) div 4096"
proof -
  have "required_pages sz = (sz + 4095) div FRAME_SIZE" by (simp add: required_pages_def FRAME_SIZE_def add.commute)
  moreover have "unat (sz + 4095) = unat sz + 4095" using assms by (subst unat_plus_no_wrap) simp_all
  ultimately show ?thesis by (simp add: unat_div)
qed

text \<open>A shrunk free range.\<close>

lemma shrink_free:
  assumes "n \<le> f_num_pages f" "fhi f < 2 ^ 32"
  shows "unat (f_num_pages f - n) = unat (f_num_pages f) - unat n"
    and "unat (f_start f + n * FRAME_SIZE) = flo f + 4096 * unat n"
    and "flo f + 4096 * unat n \<le> fhi f"
proof -
  have n: "unat n \<le> unat (f_num_pages f)" using assms(1) by (simp add: word_le_nat_alt)
  show "unat (f_num_pages f - n) = unat (f_num_pages f) - unat n" using assms(1) by (rule unat_minus_no_wrap)
  show "flo f + 4096 * unat n \<le> fhi f" using n by (simp add: flo_def fhi_def)
  then show "unat (f_start f + n * FRAME_SIZE) = flo f + 4096 * unat n"
    using assms(2) by (subst unat_pages) (auto simp: flo_def)
qed

definition taken_range :: "u32 \<Rightarrow> u32 \<Rightarrow> nat set" where
  "taken_range va n = {unat va ..< unat va + 4096 * unat n}"

lemma take_free_head:
  assumes ok: "frees_ok lo hi (f # r)" and hi: "hi < 2 ^ 32" and n: "n \<le> f_num_pages f" "0 < unat n"
    and fs': "take_free n (f # r) = (va, fs')"
  shows "va = f_start f \<and> frees_ok lo hi fs' \<and> (\<forall>x \<in> set fs'. flo f \<le> flo x) \<and>
    taken_range va n \<subseteq> fspan f \<and> fspans fs' = fspans (f # r) - taken_range va n \<and> unat va + 4096 * unat n \<le> hi"
proof -
  define g where "g = \<lparr>f_start = f_start f + n * FRAME_SIZE, f_num_pages = f_num_pages f - n\<rparr>"
  have f: "flo f < fhi f" "fhi f \<le> hi" "4096 dvd flo f" "lo \<le> flo f" "frees_ok lo hi r" "\<forall>x \<in> set r. fhi f < flo x"
    using ok by (auto simp: frees_ok_Cons)
  note s = shrink_free [OF n(1) order_le_less_trans [OF f(2) hi]]
  have g: "flo g = flo f + 4096 * unat n" "fhi g = fhi f"
    using s n by (simp_all add: g_def flo_def fhi_def word_le_nat_alt algebra_simps)
  have r: "fspans r \<inter> {..< fhi f} = {}" using f(6) by (fastforce simp: fspans_def fspan_def)
  have va: "va = f_start f" "fs' = (if f_num_pages g = 0 then r else g # r)"
    using fs' n(1) by (auto simp: g_def)
  have z: "f_num_pages g = 0 \<longleftrightarrow> fhi f = flo g"
    using s(1,2) n(1) unat_eq_0 [of "f_num_pages g"]
    by (auto simp: g_def flo_def fhi_def word_le_nat_alt)
  have "taken_range va n = {flo f ..< flo g}" using va(1) g(1) by (simp add: taken_range_def flo_def)
  moreover have "fspans fs' = {flo g ..< fhi f} \<union> fspans r"
    using va(2) z g by (auto simp: fspan_def)
  moreover have "frees_ok lo hi fs'"
    using va(2) z g f s(3) n(2) by (auto simp: frees_ok_Cons)
  moreover have "\<forall>x \<in> set fs'. flo f \<le> flo x" using va(2) g f by (auto simp: less_imp_le)
  ultimately show ?thesis
    using va(1) r g s(3) f(1,2) by (auto simp: fspan_def flo_def)
qed

lemma take_free_found:
  assumes "frees_ok lo hi fs" "0 < lo" "hi < 2 ^ 32" "0 < unat n" "take_free n fs = (va, fs')" "va \<noteq> 0"
  shows "frees_ok lo hi fs' \<and> 4096 dvd unat va \<and> lo \<le> unat va \<and> unat va + 4096 * unat n \<le> hi \<and>
    (\<forall>x \<in> set fs'. \<exists>y \<in> set fs. flo y \<le> flo x) \<and>
    taken_range va n \<subseteq> fspans fs \<and> fspans fs' = fspans fs - taken_range va n"
  using assms
proof (induction fs arbitrary: fs')
  case (Cons f r)
  have f: "4096 dvd flo f" "lo \<le> flo f" "frees_ok lo hi r" "\<forall>x \<in> set r. fhi f < flo x"
    using Cons.prems(1) by (auto simp: frees_ok_Cons)
  show ?case
  proof (cases "n \<le> f_num_pages f")
    case True
    then show ?thesis
      using take_free_head [OF Cons.prems(1,3) True Cons.prems(4,5)] f(1,2) by (auto simp: flo_def)
  next
    case False
    then obtain r' where r': "take_free n r = (va, r')" "fs' = f # r'"
      using Cons.prems(5) by (auto split: prod.splits)
    note IH = Cons.IH [OF f(3) Cons.prems(2-4) r'(1) Cons.prems(6)]
    have "fspan f \<inter> fspans r = {}" using f(4) by (fastforce simp: fspans_def fspan_def)
    moreover have "\<forall>x \<in> set r'. fhi f < flo x" using IH f(4) by (meson order_less_le_trans)
    ultimately show ?thesis using IH r'(2) Cons.prems(1) by (auto simp: frees_ok_Cons)
  qed
qed simp

lemma take_free_none:
  assumes "frees_ok lo hi fs" "0 < lo" "take_free n fs = (0, fs')"
  shows "fs' = fs \<and> (\<forall>f \<in> set fs. f_num_pages f < n)"
  using assms
proof (induction fs arbitrary: fs')
  case (Cons f r)
  have "f_start f \<noteq> 0" using Cons.prems(1,2) by (auto simp: frees_ok_Cons flo_def)
  then have n: "\<not> n \<le> f_num_pages f" using Cons.prems(3) by (auto simp: Let_def split: if_splits)
  then obtain r' where "take_free n r = (0, r')" "fs' = f # r'"
    using Cons.prems(3) by (auto split: prod.splits)
  then show ?case using Cons.IH [of r'] Cons.prems(1,2) n by (auto simp: frees_ok_Cons)
qed simp

lemma insert_entry_ok:
  assumes "entries_ok lo hi es" "4096 dvd elo e" "elo e < ehi e" "lo \<le> elo e" "ehi e \<le> hi"
    and "espan e \<inter> espans es = {}"
  shows "entries_ok lo hi (insert_entry_sorted e es) \<and> set (insert_entry_sorted e es) = insert e (set es)"
  using assms
proof (induction es)
  case (Cons a es)
  have a: "elo a < ehi a" "\<forall>x \<in> set es. ehi a \<le> elo x" "entries_ok lo hi es"
    using Cons.prems(1) by (auto simp: entries_ok_Cons)
  show ?case
  proof (cases "e_start a < e_start e")
    case True
    then have "elo a < elo e" by (simp add: elo_def word_less_nat_alt)
    moreover have "elo e \<notin> espan a" using Cons.prems(3,6) by (auto simp: espan_def)
    ultimately have "ehi a \<le> elo e" by (simp add: espan_def)
    moreover have "entries_ok lo hi (insert_entry_sorted e es) \<and> set (insert_entry_sorted e es) = insert e (set es)"
      using Cons.IH [OF a(3) Cons.prems(2-5)] Cons.prems(6) by auto
    ultimately show ?thesis using Cons.prems(1) True by (auto simp: entries_ok_Cons)
  next
    case False
    then have "elo e \<le> elo a" by (simp add: elo_def word_less_nat_alt)
    moreover have "elo a \<notin> espan e" using a(1) Cons.prems(6) by (auto simp: espan_def)
    ultimately have le: "ehi e \<le> elo a" by (simp add: espan_def)
    then have "\<forall>x \<in> set es. ehi e \<le> elo x" using a(1,2) by fastforce
    then show ?thesis using Cons.prems False le by (auto simp: entries_ok_Cons)
  qed
qed (simp add: entries_ok_def)

text \<open>A new entry in a free range of addresses.\<close>

definition mk_entry :: "u32 \<Rightarrow> u32 \<Rightarrow> u32 \<Rightarrow> u32 \<Rightarrow> bool \<Rightarrow> vme_entry" where
  "mk_entry va sz file file_offset user =
     \<lparr>e_start = va, e_num_pages = required_pages sz, e_size = sz, e_file = file,
      e_file_offset = file_offset, e_user = user\<rparr>"

lemma espan_mk_entry: "espan (mk_entry va sz file off user) = taken_range va (required_pages sz)"
  by (simp add: espan_def elo_def ehi_def mk_entry_def taken_range_def)

lemma vme_ok_insert:
  assumes ok: "vme_ok lo v" and e: "e = mk_entry va sz fl off user" "0 < unat (required_pages sz)"
    and va: "4096 dvd unat va" "lo \<le> unat va" "unat va + 4096 * unat (required_pages sz) \<le> unat av"
    and av: "unat (v_avail v) \<le> unat av" "av \<le> v_limit v" "4096 dvd unat av"
    and fs: "frees_ok lo (unat av) fs" "espan e \<inter> espans (v_entries v) = {}"
    and cover: "fspans fs \<union> espan e \<union> espans (v_entries v) = {lo ..< unat av}"
      "fspans fs \<inter> (espan e \<union> espans (v_entries v)) = {}"
  shows "vme_ok lo (v\<lparr>v_avail := av, v_free_entries := fs, v_entries := insert_entry_sorted e (v_entries v)\<rparr>) \<and>
    set (insert_entry_sorted e (v_entries v)) = insert e (set (v_entries v))"
proof -
  have eo: "entries_ok lo (unat av) (v_entries v)"
    using ok av(1) by (auto simp: vme_ok_def intro: entries_ok_mono)
  have "elo e = unat va" "ehi e = unat va + 4096 * unat (required_pages sz)"
    by (simp_all add: e(1) mk_entry_def elo_def ehi_def)
  then have i: "entries_ok lo (unat av) (insert_entry_sorted e (v_entries v))"
    "set (insert_entry_sorted e (v_entries v)) = insert e (set (v_entries v))"
    using insert_entry_ok [OF eo, of e] e(2) va fs(2) by auto
  then have "espans (insert_entry_sorted e (v_entries v)) = espan e \<union> espans (v_entries v)"
    by (simp add: espans_def)
  then show ?thesis using ok i fs(1) cover av by (auto simp: vme_ok_def)
qed

lemma page_round:
  fixes a l s :: nat
  assumes "4096 dvd a" "4096 dvd l" "a + s \<le> l" shows "a + 4096 * ((s + 4095) div 4096) \<le> l"
proof -
  obtain p q where "a = 4096 * p" "l = 4096 * q" using assms(1,2) by (auto elim!: dvdE)
  moreover from this have "s \<le> 4096 * (q - p)" "p \<le> q" using assms(3) by auto
  then have "(s + 4095) div 4096 \<le> (4096 * (q - p) + 4095) div 4096" by (intro div_le_mono) simp
  ultimately show ?thesis using \<open>p \<le> q\<close> by simp
qed

lemma add_entry_spec:
  assumes ok: "vme_ok lo v" and sz: "0 < unat sz" "unat sz + 4095 < 2 ^ 32" "unat (v_avail v) + unat sz < 2 ^ 32"
    and r: "add_entry v sz file off user = (va, v')"
  shows "(va = 0 \<and> v' = v \<and> unat (v_limit v) < unat (v_avail v) + unat sz \<and>
          (\<forall>f \<in> set (v_free_entries v). f_num_pages f < required_pages sz)) \<or>
    (vme_ok lo v' \<and> lo \<le> unat va \<and> 4096 dvd unat va \<and> v_limit v' = v_limit v \<and>
     set (v_entries v') = insert (mk_entry va sz file off user) (set (v_entries v)) \<and>
     taken_range va (required_pages sz) \<inter> espans (v_entries v) = {} \<and>
     taken_range va (required_pages sz) \<subseteq> {lo ..< unat (v_limit v)})"
proof -
  let ?n = "required_pages sz"
  have n: "unat ?n = (unat sz + 4095) div 4096" using required_pages_unat [OF sz(2)] .
  then have npos: "0 < unat ?n" using sz(1) by (simp add: div_greater_zero_iff)
  have o: "frees_ok lo (unat (v_avail v)) (v_free_entries v)" "0 < lo" "v_avail v \<le> v_limit v"
    "4096 dvd unat (v_avail v)" "4096 dvd unat (v_limit v)" "espans (v_entries v) \<inter> fspans (v_free_entries v) = {}"
    "espans (v_entries v) \<union> fspans (v_free_entries v) = {lo ..< unat (v_avail v)}"
    "lo \<le> unat (v_avail v)"
    using ok by (auto simp: vme_ok_def)
  obtain va0 fs where t: "take_free ?n (v_free_entries v) = (va0, fs)" by fastforce
  show ?thesis
  proof (cases "va0 = 0")
    case False
    note f = take_free_found [OF o(1,2) unat_u32_less npos t False]
    have va: "va = va0" "v' = v\<lparr>v_avail := v_avail v, v_free_entries := fs,
        v_entries := insert_entry_sorted (mk_entry va0 sz file off user) (v_entries v)\<rparr>"
      using r t False by (auto simp: add_entry_def Let_def mk_entry_def)
    have "vme_ok lo v' \<and> set (v_entries v') = insert (mk_entry va sz file off user) (set (v_entries v))"
      unfolding va using vme_ok_insert [OF ok refl npos, where va = va0 and av = "v_avail v" and fs = fs
          and fl = "file" and off = off and user = user] f o(3-7)
      by (auto simp: espan_mk_entry)
    moreover have "taken_range va ?n \<subseteq> {lo ..< unat (v_limit v)}"
      using f va(1) o(3) by (auto simp: taken_range_def word_le_nat_alt)
    moreover have "taken_range va ?n \<inter> espans (v_entries v) = {}" using f va(1) o(6) by auto
    ultimately show ?thesis using f va by simp
  next
    case True
    then have fs: "fs = v_free_entries v" "\<forall>f \<in> set (v_free_entries v). f_num_pages f < ?n"
      using take_free_none [OF o(1,2)] t by auto
    have av: "unat (v_avail v + sz) = unat (v_avail v) + unat sz" using sz(3) by (rule unat_plus_no_wrap)
    show ?thesis
    proof (cases "v_avail v + sz > v_limit v")
      case full: True
      then have "va = 0 \<and> v' = v" using r t True fs(1) by (simp add: add_entry_def)
      then show ?thesis using full fs(2) av by (simp add: word_less_nat_alt)
    next
      case room: False
      have lim: "unat (v_avail v) + 4096 * unat ?n \<le> unat (v_limit v)"
        using page_round [OF o(4,5), of "unat sz"] room av n by (simp add: word_less_nat_alt not_less)
      have lt: "unat (v_avail v) + 4096 * unat ?n < 2 ^ 32"
        using lim unat_u32_less [of "v_limit v"] by (rule order_le_less_trans)
      let ?av = "v_avail v + FRAME_SIZE * ?n"
      have av': "unat ?av = unat (v_avail v) + 4096 * unat ?n"
        using unat_pages [OF lt] by (simp add: mult.commute)
      have va: "va = v_avail v" "v' = v\<lparr>v_avail := ?av, v_free_entries := v_free_entries v,
          v_entries := insert_entry_sorted (mk_entry va sz file off user) (v_entries v)\<rparr>"
        using r t True room fs(1) by (auto simp: add_entry_def Let_def mk_entry_def)
      have tr: "taken_range va ?n = {unat (v_avail v) ..< unat ?av}" using va(1) av' by (simp add: taken_range_def)
      have dj: "taken_range va ?n \<inter> (espans (v_entries v) \<union> fspans (v_free_entries v)) = {}"
        unfolding tr o(7) by auto
      have ins: "vme_ok lo v' \<and> set (insert_entry_sorted (mk_entry va sz file off user) (v_entries v)) =
          insert (mk_entry va sz file off user) (set (v_entries v))"
        unfolding va(2)
      proof (rule vme_ok_insert [OF ok refl npos])
        let ?e = "mk_entry va sz file off user"
        have "fspans (v_free_entries v) \<union> espan ?e \<union> espans (v_entries v) =
            (espans (v_entries v) \<union> fspans (v_free_entries v)) \<union> taken_range va ?n"
          by (auto simp: espan_mk_entry)
        then show "fspans (v_free_entries v) \<union> espan ?e \<union> espans (v_entries v) = {lo ..< unat ?av}"
          unfolding o(7) tr using o(8) av' ivl_disj_un_two(3) [of lo "unat (v_avail v)" "unat ?av"] by simp
        show "frees_ok lo (unat ?av) (v_free_entries v)" using o(1) av' by (auto intro: frees_ok_mono)
      qed (use o lim av' va(1) dj in \<open>auto simp: espan_mk_entry word_le_nat_alt\<close>)
      moreover have "taken_range va ?n \<subseteq> {lo ..< unat (v_limit v)}" using tr av' lim o(8) by auto
      moreover have "v_entries v' = insert_entry_sorted (mk_entry va sz file off user) (v_entries v)"
        "v_limit v' = v_limit v" using va(2) by simp_all
      ultimately show ?thesis using ins dj va(1) o(4,8) by auto
    qed
qed
qed

section \<open>Release\<close>

text \<open>Free ranges that may touch, as they are between the insertion and \<open>coallescing\<close>.\<close>

definition frees_weak :: "nat \<Rightarrow> nat \<Rightarrow> free_entry list \<Rightarrow> bool" where
  "frees_weak lo hi fs \<longleftrightarrow> sorted_wrt (\<lambda>a b. fhi a \<le> flo b) fs \<and>
     (\<forall>f \<in> set fs. 4096 dvd flo f \<and> flo f < fhi f \<and> lo \<le> flo f \<and> fhi f \<le> hi)"

lemma frees_weak_Cons:
  "frees_weak lo hi (f # fs) \<longleftrightarrow> frees_weak lo hi fs \<and> (\<forall>x \<in> set fs. fhi f \<le> flo x) \<and>
     4096 dvd flo f \<and> flo f < fhi f \<and> lo \<le> flo f \<and> fhi f \<le> hi"
  by (auto simp: frees_weak_def)

lemma frees_ok_weak: "frees_ok lo hi fs \<Longrightarrow> frees_weak lo hi fs"
  by (induction fs) (auto simp: frees_ok_Cons frees_weak_Cons less_imp_le simp: frees_weak_def)

lemma insert_free_ok:
  assumes "frees_weak lo hi fs" "4096 dvd flo f" "flo f < fhi f" "lo \<le> flo f" "fhi f \<le> hi"
    and "fspan f \<inter> fspans fs = {}"
  shows "frees_weak lo hi (insert_free_sorted f fs) \<and> set (insert_free_sorted f fs) = insert f (set fs)"
  using assms
proof (induction fs)
  case (Cons a fs)
  have a: "flo a < fhi a" "\<forall>x \<in> set fs. fhi a \<le> flo x" "frees_weak lo hi fs"
    using Cons.prems(1) by (auto simp: frees_weak_Cons)
  show ?case
  proof (cases "f_start a < f_start f")
    case True
    then have "flo a < flo f" by (simp add: flo_def word_less_nat_alt)
    moreover have "flo f \<notin> fspan a" using Cons.prems(3,6) by (auto simp: fspan_def)
    ultimately have "fhi a \<le> flo f" by (simp add: fspan_def)
    moreover have "frees_weak lo hi (insert_free_sorted f fs) \<and> set (insert_free_sorted f fs) = insert f (set fs)"
      using Cons.IH [OF a(3) Cons.prems(2-5)] Cons.prems(6) by auto
    ultimately show ?thesis using Cons.prems(1) True by (auto simp: frees_weak_Cons)
  next
    case False
    then have "flo f \<le> flo a" by (simp add: flo_def word_less_nat_alt)
    moreover have "flo a \<notin> fspan f" using a(1) Cons.prems(6) by (auto simp: fspan_def)
    ultimately have le: "fhi f \<le> flo a" by (simp add: fspan_def)
    then have "\<forall>x \<in> set fs. fhi f \<le> flo x" using a(1,2) by fastforce
    then show ?thesis using Cons.prems False le by (auto simp: frees_weak_Cons)
  qed
qed (simp add: frees_weak_def)

lemma join_free:
  assumes "fhi a = flo b" "fhi b < 2 ^ 32" "c = a\<lparr>f_num_pages := f_num_pages a + f_num_pages b\<rparr>"
  shows "flo c = flo a \<and> fhi c = fhi b"
proof -
  have "unat (f_num_pages a) + unat (f_num_pages b) < 2 ^ 32"
    using assms(1,2) by (simp add: flo_def fhi_def)
  then show ?thesis using assms by (simp add: flo_def fhi_def unat_plus_no_wrap)
qed

lemma coallescing_ok:
  assumes "frees_weak lo hi fs" "hi < 2 ^ 32"
  shows "frees_ok lo hi (coallescing fs) \<and> fspans (coallescing fs) = fspans fs \<and>
    (\<forall>x \<in> set (coallescing fs). flo (hd fs) \<le> flo x)"
  using assms
proof (induction fs rule: coallescing.induct)
  case (1 a b r)
  have w: "frees_weak lo hi r" "\<forall>x \<in> set r. fhi b \<le> flo x" "\<forall>x \<in> set r. fhi a \<le> flo x" "fhi a \<le> flo b"
    "flo a < fhi a" "flo b < fhi b" "fhi a \<le> hi" "fhi b \<le> hi" "4096 dvd flo a" "lo \<le> flo a" "4096 dvd flo b" "lo \<le> flo b"
    using "1.prems"(1) by (auto simp: frees_weak_Cons)
  have eq: "f_start a + f_num_pages a * FRAME_SIZE = f_start b \<longleftrightarrow> fhi a = flo b"
    using unat_pages [of "f_start a" "f_num_pages a"] w(7) "1.prems"(2) by (auto simp: fhi_def flo_def word_unat_eq_iff)
  show ?case
  proof (cases "fhi a = flo b")
    case True
    define c where "c = a\<lparr>f_num_pages := f_num_pages a + f_num_pages b\<rparr>"
    have c: "flo c = flo a" "fhi c = fhi b" using join_free [OF True _ c_def] w(8) "1.prems"(2) by auto
    have "frees_weak lo hi (c # r)" using w c by (auto simp: frees_weak_Cons)
    moreover have "fspans (c # r) = fspans (a # b # r)" using c True w(5,6) by (auto simp: fspan_def)
    ultimately show ?thesis using "1.IH"(1) True eq "1.prems"(2) c(1) by (simp add: c_def [symmetric])
  next
    case False
    have "frees_weak lo hi (b # r)" using "1.prems"(1) by (simp add: frees_weak_Cons)
    from "1.IH"(2) [OF _ this "1.prems"(2)] False eq
    have IH: "frees_ok lo hi (coallescing (b # r))" "fspans (coallescing (b # r)) = fspans (b # r)"
      "\<forall>x \<in> set (coallescing (b # r)). flo b \<le> flo x" by auto
    then have "\<forall>x \<in> set (coallescing (b # r)). fhi a < flo x" using w(4) False by fastforce
    then show ?thesis using IH False eq w by (auto simp: frees_ok_Cons less_imp_le)
  qed
qed (auto simp: frees_weak_def frees_ok_def)

lemma insert_free_space_ok:
  assumes "frees_ok lo hi fs" "hi < 2 ^ 32" "f = \<lparr>f_start = start, f_num_pages = n\<rparr>"
    and "4096 dvd flo f" "flo f < fhi f" "lo \<le> flo f" "fhi f \<le> hi" "fspan f \<inter> fspans fs = {}"
  shows "frees_ok lo hi (insert_free_space start n fs) \<and>
    fspans (insert_free_space start n fs) = fspan f \<union> fspans fs"
proof -
  note i = insert_free_ok [OF frees_ok_weak [OF assms(1)] assms(4-8)]
  have "fspans (insert_free_sorted f fs) = fspan f \<union> fspans fs" using i by (simp add: fspans_def)
  then show ?thesis
    using coallescing_ok [of lo hi "insert_free_sorted f fs"] i assms(2,3) by (simp add: insert_free_space_def)
qed

lemma take_entry_Some:
  "take_entry va user es = Some (e, es') \<Longrightarrow>
     \<exists>xs ys. es = xs @ e # ys \<and> es' = xs @ ys \<and> in_entry va e \<and> (user \<longrightarrow> e_user e)"
proof (induction es arbitrary: es')
  case (Cons a es)
  show ?case
  proof (cases "in_entry va a \<and> (\<not> user \<or> e_user a = user)")
    case True
    then show ?thesis using Cons.prems by (intro exI [of _ "[]"] exI [of _ es]) auto
  next
    case False
    then obtain r where "take_entry va user es = Some (e, r)" "es' = a # r" using Cons.prems by auto
    then obtain xs ys where "es = xs @ e # ys" "r = xs @ ys" "in_entry va e" "user \<longrightarrow> e_user e"
      using Cons.IH by blast
    then show ?thesis using \<open>es' = a # r\<close> by (intro exI [of _ "a # xs"] exI [of _ ys]) auto
  qed
qed simp

lemma take_entry_None:
  "take_entry va user es = None \<longleftrightarrow> (\<forall>e \<in> set es. \<not> (in_entry va e \<and> (user \<longrightarrow> e_user e)))"
  by (induction es) auto

lemma entries_ok_split:
  assumes "entries_ok lo hi (xs @ e # ys)"
  shows "entries_ok lo hi (xs @ ys)" "espan e \<inter> espans (xs @ ys) = {}" "e \<notin> set (xs @ ys)"
    "4096 dvd elo e" "elo e < ehi e" "lo \<le> elo e" "ehi e \<le> hi"
proof -
  show s: "entries_ok lo hi (xs @ ys)" "4096 dvd elo e" "elo e < ehi e" "lo \<le> elo e" "ehi e \<le> hi"
    using assms by (auto simp: entries_ok_def sorted_wrt_append)
  have "ehi a \<le> elo e \<or> ehi e \<le> elo a" if "a \<in> set (xs @ ys)" for a
    using that assms by (auto simp: entries_ok_def sorted_wrt_append)
  then show "espan e \<inter> espans (xs @ ys) = {}" by (fastforce simp: espans_def espan_def)
  then have "elo e \<notin> espans (xs @ ys)" using s(3) by (auto simp: espan_def)
  then show "e \<notin> set (xs @ ys)" using s(3) unfolding espans_def espan_def by auto
qed

lemma espans_append [simp]: "espans (xs @ ys) = espans xs \<union> espans ys"
  by (auto simp: espans_def)

lemma remove_entry_spec:
  assumes ok: "vme_ok lo v" and r: "remove_entry v va user = (r, v')"
  shows "(case r of
      None \<Rightarrow> v' = v \<and> (\<forall>e \<in> set (v_entries v). unat va \<in> espan e \<longrightarrow> user \<and> \<not> e_user e)
    | Some e \<Rightarrow> vme_ok lo v' \<and> e \<in> set (v_entries v) \<and> unat va \<in> espan e \<and> (user \<longrightarrow> e_user e) \<and>
        set (v_entries v') = set (v_entries v) - {e} \<and> espan e \<subseteq> fspans (v_free_entries v'))"
proof -
  have o: "entries_ok lo (unat (v_avail v)) (v_entries v)" "frees_ok lo (unat (v_avail v)) (v_free_entries v)"
    "espans (v_entries v) \<inter> fspans (v_free_entries v) = {}"
    "espans (v_entries v) \<union> fspans (v_free_entries v) = {lo ..< unat (v_avail v)}"
    using ok by (auto simp: vme_ok_def)
  have span: "in_entry va x \<longleftrightarrow> unat va \<in> espan x" if "x \<in> set (v_entries v)" for x
    using that o(1) unat_u32_less [of "v_avail v"] by (intro in_entry_span) (auto simp: entries_ok_def)
  show ?thesis
  proof (cases "take_entry va user (v_entries v)")
    case None
    then show ?thesis using r span take_entry_None [of va user "v_entries v"] by (auto simp: remove_entry_def)
  next
    case (Some p)
    then obtain e es where p: "take_entry va user (v_entries v) = Some (e, es)" by (cases p) auto
    then obtain xs ys where x: "v_entries v = xs @ e # ys" "es = xs @ ys" "in_entry va e" "user \<longrightarrow> e_user e"
      using take_entry_Some by blast
    note sp = entries_ok_split [OF o(1) [unfolded x(1)]]
    let ?f = "\<lparr>f_start = e_start e, f_num_pages = e_num_pages e\<rparr>"
    have f: "fspan ?f = espan e" "flo ?f = elo e" "fhi ?f = ehi e"
      by (simp_all add: fspan_def espan_def flo_def fhi_def elo_def ehi_def)
    have v': "r = Some e" "v' = v\<lparr>v_entries := es,
        v_free_entries := insert_free_space (e_start e) (e_num_pages e) (v_free_entries v)\<rparr>"
      using r p by (simp_all add: remove_entry_def)
    have "espan e \<inter> fspans (v_free_entries v) = {}" using o(3) x(1) by auto
    then have i: "frees_ok lo (unat (v_avail v)) (v_free_entries v')"
      "fspans (v_free_entries v') = espan e \<union> fspans (v_free_entries v)"
      using insert_free_space_ok [OF o(2) unat_u32_less refl, of "e_start e" "e_num_pages e"] sp(4-7) f v'(2)
      by auto
    have "vme_ok lo v'"
      using ok i sp(1,2) o(3,4) x v'(2) by (auto simp: vme_ok_def)
    then show ?thesis using v' x sp(3) i(2) span by auto
  qed
qed

lemma dup_entries_eq [simp]: "dup_entries es = es"
  by (induction es) auto

lemma dup_free_eq [simp]: "dup_free fs = fs"
  by (induction fs) auto

section \<open>The interface\<close>

locale address_space =
  fixes lookup :: "'v \<Rightarrow> u32 \<Rightarrow> 'e option" and areas :: "'v \<Rightarrow> 'e set" and span :: "'e \<Rightarrow> nat set"
    and inv :: "'v \<Rightarrow> bool" and fits :: "'v \<Rightarrow> 'r \<Rightarrow> bool"
    and alloc :: "'v \<Rightarrow> 'r \<Rightarrow> u32 \<times> 'v" and release :: "'v \<Rightarrow> u32 \<Rightarrow> 'e option \<times> 'v"
  assumes lookup_law: "inv v \<Longrightarrow> lookup v va = Some e \<longleftrightarrow> e \<in> areas v \<and> unat va \<in> span e"
    and apart: "inv v \<Longrightarrow> e \<in> areas v \<Longrightarrow> e' \<in> areas v \<Longrightarrow> x \<in> span e \<Longrightarrow> x \<in> span e' \<Longrightarrow> e = e'"
    and alloc_law: "inv v \<Longrightarrow> fits v r \<Longrightarrow> alloc v r = (va, v') \<Longrightarrow> va \<noteq> 0 \<Longrightarrow>
      inv v' \<and> (\<exists>e. areas v' = insert e (areas v) \<and> e \<notin> areas v \<and> unat va \<in> span e)"
    and release_law: "inv v \<Longrightarrow> release v va = (r', v') \<Longrightarrow>
      inv v' \<and> (case r' of None \<Rightarrow> v' = v \<and> lookup v va = None
        | Some e \<Rightarrow> lookup v va = Some e \<and> areas v' = areas v - {e})"
begin

lemma lookup_alloc:
  assumes "inv v" "fits v r" "alloc v r = (va, v')" "va \<noteq> 0" "lookup v x = Some e"
  shows "lookup v' x = Some e"
  using alloc_law [OF assms(1-4)] lookup_law [OF assms(1)] lookup_law [of v'] assms(5) by auto

lemma alloc_found:
  assumes "inv v" "fits v r" "alloc v r = (va, v')" "va \<noteq> 0"
  shows "lookup v va = None \<and> lookup v' va \<noteq> None"
proof -
  obtain e where e: "inv v'" "areas v' = insert e (areas v)" "e \<notin> areas v" "unat va \<in> span e"
    using alloc_law [OF assms] by blast
  then have "lookup v' va = Some e" using lookup_law by simp
  moreover have "lookup v va = None"
  proof (rule ccontr)
    assume "lookup v va \<noteq> None"
    then obtain e' where "e' \<in> areas v" "unat va \<in> span e'" using lookup_law [OF assms(1)] by fastforce
    then show False using apart [OF e(1), of e' e "unat va"] e by auto
  qed
  ultimately show ?thesis by simp
qed

lemma lookup_release:
  assumes "inv v" "release v va = (Some e, v')"
  shows "lookup v' x = (if unat x \<in> span e then None else lookup v x)"
proof -
  have r: "inv v'" "lookup v va = Some e" "areas v' = areas v - {e}"
    using release_law [OF assms] by auto
  have "e \<in> areas v" using r(2) lookup_law [OF assms(1)] by blast
  then have "lookup v' x = Some d \<longleftrightarrow> unat x \<notin> span e \<and> lookup v x = Some d" for d
    using lookup_law [OF r(1), of x d] lookup_law [OF assms(1), of x d] r(3) apart [OF assms(1)] by auto
  then show ?thesis by (metis not_None_eq)
qed

lemma alloc_release:
  assumes "inv v" "fits v r" "alloc v r = (va, v')" "va \<noteq> 0" "release v' va = (r', v'')"
  shows "inv v'' \<and> areas v'' = areas v"
proof -
  obtain e where e: "inv v'" "areas v' = insert e (areas v)" "e \<notin> areas v" "unat va \<in> span e"
    using alloc_law [OF assms(1-4)] by blast
  then have "lookup v' va = Some e" using lookup_law by simp
  then show ?thesis using release_law [OF e(1) assms(5)] e by (auto split: option.splits)
qed

end

definition vme_inv :: "vme \<Rightarrow> bool" where
  "vme_inv v \<longleftrightarrow> (\<exists>lo. vme_ok lo v)"

definition vme_fits :: "vme \<Rightarrow> u32 \<times> u32 \<times> u32 \<times> bool \<Rightarrow> bool" where
  "vme_fits v = (\<lambda>(sz, _). 0 < unat sz \<and> unat sz + 4095 < 2 ^ 32 \<and> unat (v_avail v) + unat sz < 2 ^ 32)"

lemma vme_ok_range: "vme_ok lo v \<Longrightarrow> entries_ok lo (unat (v_avail v)) (v_entries v)"
  by (simp add: vme_ok_def)

lemma vme_get_iff: "vme_ok lo v \<Longrightarrow> vme_get v va = Some e \<longleftrightarrow> e \<in> set (v_entries v) \<and> unat va \<in> espan e"
  unfolding vme_get_def by (rule get_entry_iff [OF vme_ok_range unat_u32_less])

interpretation vspace: address_space vme_get "\<lambda>v. set (v_entries v)" espan vme_inv vme_fits
  "\<lambda>v (sz, fl, off, user). add_entry v sz fl off user" "\<lambda>v va. remove_entry v va False"
proof unfold_locales
  show "vme_get v va = Some e \<longleftrightarrow> e \<in> set (v_entries v) \<and> unat va \<in> espan e" if "vme_inv v" for v va e
    using that vme_get_iff by (auto simp: vme_inv_def)
  show "e = e'" if "vme_inv v" "e \<in> set (v_entries v)" "e' \<in> set (v_entries v)" "x \<in> espan e" "x \<in> espan e'"
    for v e e' x
    using that entries_disjoint [OF vme_ok_range] by (auto simp: vme_inv_def)
  show "vme_inv v' \<and> (\<exists>e. set (v_entries v') = insert e (set (v_entries v)) \<and> e \<notin> set (v_entries v) \<and> unat va \<in> espan e)"
    if h: "vme_inv v" "vme_fits v r" "(case r of (sz, fl, off, user) \<Rightarrow> add_entry v sz fl off user) = (va, v')" "va \<noteq> 0"
    for v r va v'
  proof -
    obtain sz fl off user where r: "r = (sz, fl, off, user)" by (cases r) auto
    obtain lo where ok: "vme_ok lo v" using h(1) by (auto simp: vme_inv_def)
    have sz: "0 < unat sz" "unat sz + 4095 < 2 ^ 32" "unat (v_avail v) + unat sz < 2 ^ 32"
      using h(2) r by (auto simp: vme_fits_def)
    let ?e = "mk_entry va sz fl off user"
    have a: "vme_ok lo v'" "set (v_entries v') = insert ?e (set (v_entries v))" "espan ?e \<inter> espans (v_entries v) = {}"
      using add_entry_spec [OF ok sz, of fl off user va v'] h(3,4) r by (auto simp: espan_mk_entry)
    have "unat va \<in> espan ?e"
      using required_pages_unat [OF sz(2)] sz(1) by (simp add: espan_mk_entry taken_range_def div_greater_zero_iff)
    moreover have "?e \<notin> set (v_entries v)" using a(3) calculation by (auto simp: espans_def)
    ultimately show ?thesis using a(1,2) by (auto simp: vme_inv_def)
  qed
  show "vme_inv v' \<and> (case r' of None \<Rightarrow> v' = v \<and> vme_get v va = None
      | Some e \<Rightarrow> vme_get v va = Some e \<and> set (v_entries v') = set (v_entries v) - {e})"
    if h: "vme_inv v" "remove_entry v va False = (r', v')" for v va r' v'
  proof -
    obtain lo where ok: "vme_ok lo v" using h(1) by (auto simp: vme_inv_def)
    then show ?thesis
      using remove_entry_spec [OF ok h(2)] vme_get_iff [OF ok, of va]
      by (cases r') (auto simp: vme_inv_def not_None_eq [symmetric] simp del: not_None_eq intro: ccontr)
  qed
qed

section \<open>Properties\<close>


lemma vme_new_ok:
  assumes "0 < unat start" "4096 dvd unat start" "4096 dvd unat limit" "start \<le> limit"
  shows "vme_ok (unat start) (vme_new start limit)"
  using assms by (simp add: vme_ok_def vme_new_def entries_ok_def frees_ok_def)

definition demo_vme :: vme where
  "demo_vme = vme_new 0x80000000 0xF0000000"

lemma demo_vme_ok: "vme_ok 0x80000000 demo_vme"
  using vme_new_ok [of "0x80000000" "0xF0000000"] by (simp add: demo_vme_def)

lemma demo_add:
  "add_entry demo_vme 5000 0 0 True = (0x80000000, \<lparr>v_avail = 0x80002000, v_limit = 0xF0000000,
     v_entries = [mk_entry 0x80000000 5000 0 0 True], v_free_entries = []\<rparr>)"
  by (simp add: add_entry_def demo_vme_def vme_new_def required_pages_def FRAME_SIZE_def mk_entry_def)


text \<open>
  (C18:remove_entry_correct) \<open>remove_entry\<close> removes the one entry that contains the address, unless a user call asks for
  a kernel entry; its range joins the free ranges, which stay sorted, disjoint and coalesced. When
  it removes nothing, nothing changes and no removable entry contains the address.
\<close>

theorem remove_entry_correct:
  assumes "vme_ok lo v" "remove_entry v va user = (r, v')"
  shows "case r of
      None \<Rightarrow> v' = v \<and> (\<forall>e \<in> set (v_entries v). unat va \<in> espan e \<longrightarrow> user \<and> \<not> e_user e)
    | Some e \<Rightarrow> vme_ok lo v' \<and> e \<in> set (v_entries v) \<and> unat va \<in> espan e \<and> (user \<longrightarrow> e_user e) \<and>
        set (v_entries v') = set (v_entries v) - {e} \<and> espan e \<subseteq> fspans (v_free_entries v')"
  using remove_entry_spec [OF assms] by simp

definition demo_vme1 :: vme where
  "demo_vme1 = snd (add_entry demo_vme 5000 0 0 True)"

lemma demo_vme1_eq:
  "demo_vme1 = \<lparr>v_avail = 0x80002000, v_limit = 0xF0000000,
     v_entries = [mk_entry 0x80000000 5000 0 0 True], v_free_entries = []\<rparr>"
  by (simp only: demo_vme1_def demo_add snd_conv)

lemma demo_vme1_ok: "vme_ok 0x80000000 demo_vme1"
  using add_entry_spec [OF demo_vme_ok _ _ _ demo_add]
  unfolding demo_vme1_eq by (simp add: demo_vme_def vme_new_def)

lemma demo_remove:
  "\<exists>v'. remove_entry demo_vme1 0x80001000 True = (Some (mk_entry 0x80000000 5000 0 0 True), v')"
  by (simp add: demo_vme1_eq remove_entry_def in_entry_def mk_entry_def required_pages_def FRAME_SIZE_def)

theorem remove_entry_correct_witness:
  "\<exists>v'. remove_entry demo_vme1 0x80001000 True = (Some (mk_entry 0x80000000 5000 0 0 True), v') \<and>
     vme_ok 0x80000000 v' \<and> v_entries v' = []"
proof -
  obtain v' where v': "remove_entry demo_vme1 0x80001000 True = (Some (mk_entry 0x80000000 5000 0 0 True), v')"
    using demo_remove by blast
  from remove_entry_correct [OF demo_vme1_ok this] show ?thesis using v' by (auto simp: demo_vme1_eq)
qed

text \<open>
  (vme_lookup_correct) \<open>get\<close> finds the entry that contains an address, and there is at most one; after
  \<open>remove_entry\<close> exactly the addresses of the removed entry are unmapped.
\<close>

theorem vme_lookup_correct:
  assumes "vme_inv v"
  shows "(vme_get v va = Some e \<longleftrightarrow> e \<in> set (v_entries v) \<and> unat va \<in> espan e) \<and>
    (remove_entry v wa False = (Some d, v') \<longrightarrow>
       vme_get v' va = (if unat va \<in> espan d then None else vme_get v va))"
  using vspace.lookup_law [OF assms] vspace.lookup_release [OF assms] by blast

theorem vme_lookup_correct_witness:
  "vme_get demo_vme1 0x80001FFF = Some (mk_entry 0x80000000 5000 0 0 True)"
proof -
  have "vme_inv demo_vme1" using demo_vme1_ok by (auto simp: vme_inv_def)
  from vme_lookup_correct [OF this] show ?thesis
    by (simp add: demo_vme1_eq espan_mk_entry taken_range_def required_pages_def FRAME_SIZE_def)
qed

text \<open>
  (add_remove_roundtrip) Removing what \<open>add_entry\<close> has just added gives back the same set of entries, and in between
  every address that was mapped before still has the same entry while the new address is found.
\<close>

theorem add_remove_roundtrip:
  assumes "vme_inv v" "vme_fits v (sz, fl, off, user)" "add_entry v sz fl off user = (va, v')" "va \<noteq> 0"
  shows "vme_get v va = None \<and> vme_get v' va \<noteq> None \<and>
    (vme_get v wa = Some e \<longrightarrow> vme_get v' wa = Some e) \<and>
    (\<exists>d v''. remove_entry v' va False = (Some d, v'') \<and> vme_inv v'' \<and> set (v_entries v'') = set (v_entries v))"
proof -
  note a = assms(1,2)
  have add: "(case (sz, fl, off, user) of (sz, fl, off, user) \<Rightarrow> add_entry v sz fl off user) = (va, v')"
    using assms(3) by simp
  obtain r v'' where r: "remove_entry v' va False = (r, v'')" by fastforce
  have "vme_inv v'" using vspace.alloc_law [OF a add assms(4)] by blast
  then have "r \<noteq> None"
    using vspace.release_law [OF _ r] vspace.alloc_found [OF a add assms(4)] by (auto split: option.splits)
  then show ?thesis
    using vspace.alloc_found [OF a add assms(4)] vspace.lookup_alloc [OF a add assms(4)]
      vspace.alloc_release [OF a add assms(4) r] r by auto
qed

theorem add_remove_roundtrip_witness:
  "\<exists>d v''. remove_entry demo_vme1 0x80000000 False = (Some d, v'') \<and> v_entries v'' = []"
proof -
  have i: "vme_inv demo_vme" using demo_vme_ok by (auto simp: vme_inv_def)
  have f: "vme_fits demo_vme (5000, 0, 0, True)" by (simp add: vme_fits_def demo_vme_def vme_new_def)
  have "(0x80000000 :: u32) \<noteq> 0" by simp
  from add_remove_roundtrip [OF i f demo_add [folded demo_vme1_eq] this]
  obtain d v'' where "remove_entry demo_vme1 0x80000000 False = (Some d, v'')"
    "set (v_entries v'') = set (v_entries demo_vme)" by blast
  then show ?thesis by (auto simp: demo_vme_def vme_new_def)
qed

text \<open>
  (add_entry_wraps) A request near \<open>2^32\<close> bytes wraps around twice: it succeeds on a fresh address space, adds an
  entry of no pages, and leaves \<open>avail\<close> where it was, so that the next request gets the same address.
\<close>

theorem add_entry_wraps:
  "\<exists>v'. add_entry demo_vme 0xFFFFFFFF 0 0 True = (0x80000000, v') \<and>
     map e_num_pages (v_entries v') = [0] \<and> v_avail v' = v_avail demo_vme \<and> vme_get v' 0x80000000 = None"
  by (simp add: add_entry_def demo_vme_def vme_new_def required_pages_def FRAME_SIZE_def vme_get_def in_entry_def)

end
