(* ===== verification/VMM.thy ===== *)
theory VMM
  imports PhysMem VME
begin

text \<open>
  Page directories and page tables, \<open>kernel/vmm.cc\<close>: the two-level structure in physical memory,
  its update operations, the copy of an address space for \<open>fork\<close>, and the page fault handler.

  A page directory is the address of its frame. \<open>invlpg\<close> and \<open>vmm_on\<close> concern the TLB and the
  processor's mode and have no counterpart.
\<close>

section \<open>Operations\<close>

definition idx :: "u32 \<Rightarrow> u32 \<Rightarrow> u32" where
  "idx p i = p + 4 * i"

definition present :: "u32 \<Rightarrow> bool" where
  "present e \<longleftrightarrow> e AND 1 \<noteq> 0"

definition frame_of :: "u32 \<Rightarrow> u32" where
  "frame_of e = push_bit 12 (drop_bit 12 e)"

definition check_VPN :: "phys \<Rightarrow> u32 \<Rightarrow> u32 \<Rightarrow> bool" where
  "check_VPN pm PD VPN =
     (let PDI = drop_bit 10 VPN;
          PTI = VPN AND 0x3FF;
          PDE = pm_mem pm (idx PD PDI)
      in if \<not> present PDE then False
         else let PT = frame_of PDE in present (pm_mem pm (idx PT PTI)))"

text \<open>The sequence \<open>|= 0x1\<close>, \<open>|= 0x100\<close>, \<open>|= 0x2\<close>, \<open>|= 0x4\<close> of both levels.\<close>

definition set_flags :: "u32 \<Rightarrow> bool \<Rightarrow> bool \<Rightarrow> bool \<Rightarrow> u32" where
  "set_flags x global writable user_mode =
     (let x1 = x OR 0x1;
          x2 = (if global then x1 OR 0x100 else x1);
          x3 = (if writable then x2 OR 0x2 else x2)
      in if user_mode then x3 OR 0x4 else x3)"

definition add_PT_mapping :: "phys \<Rightarrow> u32 \<Rightarrow> u32 \<Rightarrow> bool \<Rightarrow> bool \<Rightarrow> bool \<Rightarrow> phys res" where
  "add_PT_mapping pm PD PDI global writable user_mode =
     (let PDE = pm_mem pm (idx PD PDI) in
      if \<not> present PDE then
        bindR (alloc_frame pm) (\<lambda>(PT, pm1).
          Inr (pm_write pm1 (idx PD PDI)
            ((set_flags (pm_mem pm1 (idx PD PDI)) global writable user_mode AND 0xFFF) OR PT)))
      else Inr pm)"

definition remove_PT_mapping :: "phys \<Rightarrow> u32 \<Rightarrow> u32 \<Rightarrow> phys res" where
  "remove_PT_mapping pm PD PDI =
     (let PDE = pm_mem pm (idx PD PDI) in
      if present PDE then
        bindR (dealloc_frame pm (PDE AND NOT 0xFFF)) (\<lambda>pm1.
          Inr (pm_write pm1 (idx PD PDI) (pm_mem pm1 (idx PD PDI) AND 0)))
      else Inr pm)"

definition add_mapping :: "phys \<Rightarrow> u32 \<Rightarrow> u32 \<Rightarrow> u32 \<Rightarrow> bool \<Rightarrow> bool \<Rightarrow> bool \<Rightarrow> phys res" where
  "add_mapping pm PD VPN PPN global writable user_mode =
     (let PDI = drop_bit 10 VPN;
          PTI = VPN AND 0x3FF;
          PDE = pm_mem pm (idx PD PDI)
      in bindR (if present PDE then Inr (frame_of PDE, pm)
                else bindR (alloc_frame pm) (\<lambda>(PT, pm1).
                       Inr (PT, pm_write pm1 (idx PD PDI)
                         ((set_flags (pm_mem pm1 (idx PD PDI)) global writable user_mode AND 0xFFF) OR PT)))) (\<lambda>(PT, pm2).
         Inr (pm_write pm2 (idx PT PTI)
           (set_flags (pm_mem pm2 (idx PT PTI) AND 0x0) global writable user_mode OR push_bit 12 PPN))))"

definition remove_mapping :: "phys \<Rightarrow> u32 \<Rightarrow> u32 \<Rightarrow> phys res" where
  "remove_mapping pm PD VPN =
     bindR (assertR (PD \<noteq> 0) ''PD != nullptr'') (\<lambda>_.
       let PDI = drop_bit 10 VPN;
           PTI = VPN AND 0x3FF;
           PDE = pm_mem pm (idx PD PDI)
       in if present PDE then
            let PT = frame_of PDE; PTE = pm_mem pm (idx PT PTI) in
            bindR (if present PTE then dealloc_frame pm (PTE AND NOT 0xFFF) else Inr pm) (\<lambda>pm1.
              Inr (pm_write pm1 (idx PT PTI) 0))
          else Inr pm)"

text \<open>\<open>memcpy\<close> of a whole frame, word by word.\<close>

fun copy_words :: "nat \<Rightarrow> phys \<Rightarrow> u32 \<Rightarrow> u32 \<Rightarrow> phys" where
  "copy_words 0 pm dst src = pm"
| "copy_words (Suc n) pm dst src =
     (let pm1 = copy_words n pm dst src
      in pm_write pm1 (idx dst (of_nat n)) (pm_mem pm1 (idx src (of_nat n))))"

definition copy_frame :: "phys \<Rightarrow> u32 \<Rightarrow> u32 \<Rightarrow> phys" where
  "copy_frame pm dst src = copy_words 1024 pm dst src"

definition new_page_directory :: "phys \<Rightarrow> u32 \<Rightarrow> (u32 \<times> phys) res" where
  "new_page_directory pm global_page_directory =
     bindR (alloc_frame pm) (\<lambda>(tmp, pm1). Inr (tmp, copy_frame pm1 tmp global_page_directory))"

text \<open>The two loops of \<open>copy_page_directory\<close>; each counts up to its bound.\<close>

definition copy_page :: "phys \<Rightarrow> u32 \<Rightarrow> u32 \<Rightarrow> u32 \<Rightarrow> phys res" where
  "copy_page pm pt new_pt y =
     (let e = pm_mem pm (idx pt y) in
      if present e then
        let pa = e AND NOT 0xFFF in
        bindR (alloc_frame pm) (\<lambda>(new_pa, pm1).
          let pm2 = pm_write pm1 (idx new_pt y) (pm_mem pm1 (idx pt y) AND 0xFFF);
              pm3 = pm_write pm2 (idx new_pt y) (pm_mem pm2 (idx new_pt y) OR new_pa)
          in Inr (copy_frame pm3 new_pa pa))
      else Inr pm)"

fun copy_table :: "nat \<Rightarrow> phys \<Rightarrow> u32 \<Rightarrow> u32 \<Rightarrow> phys res" where
  "copy_table 0 pm pt new_pt = Inr pm"
| "copy_table (Suc n) pm pt new_pt =
     bindR (copy_table n pm pt new_pt) (\<lambda>pm1. copy_page pm1 pt new_pt (of_nat n))"

definition copy_dir_entry :: "phys \<Rightarrow> u32 \<Rightarrow> u32 \<Rightarrow> u32 \<Rightarrow> phys res" where
  "copy_dir_entry pm pd new_pd i =
     (let e = pm_mem pm (idx pd i) in
      if present e then
        let pt = e AND NOT 0xFFF in
        bindR (alloc_frame pm) (\<lambda>(new_pt, pm1).
          let pm2 = pm_write pm1 (idx new_pd i) (pm_mem pm1 (idx pd i) AND 0xFFF);
              pm3 = pm_write pm2 (idx new_pd i) (pm_mem pm2 (idx new_pd i) OR new_pt)
          in copy_table 1024 pm3 pt new_pt)
      else Inr pm)"

fun copy_dir :: "nat \<Rightarrow> phys \<Rightarrow> u32 \<Rightarrow> u32 \<Rightarrow> phys res" where
  "copy_dir 0 pm pd new_pd = Inr pm"
| "copy_dir (Suc n) pm pd new_pd =
     bindR (copy_dir n pm pd new_pd) (\<lambda>pm1. copy_dir_entry pm1 pd new_pd (of_nat n + 0x200))"

text \<open>From \<open>0x80000000 >> 22\<close> to \<open>0xF0000000 >> 22\<close>: the 448 entries of the private part.\<close>

definition copy_page_directory :: "phys \<Rightarrow> u32 \<Rightarrow> u32 \<Rightarrow> phys res" where
  "copy_page_directory pm pd new_pd = copy_dir 448 pm pd new_pd"

fun identity_maps :: "nat \<Rightarrow> phys \<Rightarrow> u32 \<Rightarrow> phys res" where
  "identity_maps 0 pm PD = Inr pm"
| "identity_maps (Suc n) pm PD =
     bindR (identity_maps n pm PD) (\<lambda>pm1.
       if n = 0 then Inr pm1 else add_mapping pm1 PD (of_nat n) (of_nat n) True False False)"

fun shared_tables :: "nat \<Rightarrow> phys \<Rightarrow> u32 \<Rightarrow> phys res" where
  "shared_tables 0 pm PD = Inr pm"
| "shared_tables (Suc n) pm PD =
     bindR (shared_tables n pm PD) (\<lambda>pm1. add_PT_mapping pm1 PD (of_nat n + 0x3C0) True True True)"

definition io_entry :: "u32 \<Rightarrow> vme_entry" where
  "io_entry a = \<lparr>e_start = a, e_num_pages = 1, e_size = FRAME_SIZE, e_file = 0, e_file_offset = 0, e_user = False\<rparr>"

definition global_init :: "phys \<Rightarrow> u32 \<Rightarrow> u32 \<Rightarrow> u32 \<Rightarrow> (u32 \<times> vme \<times> phys) res" where
  "global_init pm memSize ioAPIC localAPIC =
     bindR (alloc_frame pm) (\<lambda>(pd, pm1).
     bindR (identity_maps (unat (drop_bit 12 memSize)) pm1 pd) (\<lambda>pm2.
     bindR (shared_tables 64 pm2 pd) (\<lambda>pm3.
     bindR (add_mapping pm3 pd (ppn ioAPIC) (ppn ioAPIC) True False True) (\<lambda>pm4.
     bindR (add_mapping pm4 pd (ppn localAPIC) (ppn localAPIC) True False True) (\<lambda>pm5.
       let v0 = vme_new (localAPIC + FRAME_SIZE) 0xFFFFFFFF;
           v1 = v0\<lparr>v_free_entries := insert_free_space 0xF0000000
                     ((ioAPIC - 0xF0000000) div FRAME_SIZE) (v_free_entries v0)\<rparr>;
           v2 = v1\<lparr>v_entries := insert_entry_sorted (io_entry ioAPIC) (v_entries v1)\<rparr>;
           v3 = v2\<lparr>v_free_entries := insert_free_space (ioAPIC + FRAME_SIZE)
                     ((localAPIC - (ioAPIC + FRAME_SIZE)) div FRAME_SIZE) (v_free_entries v2)\<rparr>
       in Inr (pd, v3\<lparr>v_entries := insert_entry_sorted (io_entry localAPIC) (v_entries v3)\<rparr>, pm5))))))"

text \<open>\<open>naive_mmap\<close> and \<open>naive_munmap\<close> choose between the thread's own area list and the shared one.\<close>

definition naive_mmap :: "vme \<Rightarrow> vme \<Rightarrow> u32 \<Rightarrow> bool \<Rightarrow> u32 \<Rightarrow> u32 \<Rightarrow> bool \<Rightarrow> u32 \<times> vme \<times> vme" where
  "naive_mmap own shared sz is_shared node off user =
     (if \<not> is_shared then (let (va, own') = add_entry own sz node off user in (va, own', shared))
      else (let (va, shared') = add_entry shared sz node off user in (va, own, shared')))"

text \<open>Removing an entry unmaps its pages from the current page directory.\<close>

fun unmap_pages :: "phys \<Rightarrow> u32 \<Rightarrow> u32 list \<Rightarrow> phys res" where
  "unmap_pages pm PD [] = Inr pm"
| "unmap_pages pm PD (vpn # r) = bindR (remove_mapping pm PD vpn) (\<lambda>pm1. unmap_pages pm1 PD r)"

definition naive_munmap :: "phys \<Rightarrow> u32 \<Rightarrow> vme \<Rightarrow> u32 \<Rightarrow> bool \<Rightarrow> (phys \<times> vme) res" where
  "naive_munmap pm cr3 own p user =
     (if p < 0xF0000000 then
        (case remove_entry own p user of
           (None, own') \<Rightarrow> Inr (pm, own')
         | (Some e, own') \<Rightarrow> bindR (unmap_pages pm cr3 (entry_pages e)) (\<lambda>pm1. Inr (pm1, own')))
      else Inr (pm, own))"

text \<open>
  The page fault handler up to the read of the file: the request for that read is part of the
  result, as (file, offset, size, destination).
\<close>

datatype fault_result =
    PfPresent phys
  | PfExit
  | PfMapped phys u32 "(u32 \<times> u32 \<times> u32 \<times> u32) option"

definition fault_read :: "vme_entry \<Rightarrow> u32 \<Rightarrow> u32 \<Rightarrow> (u32 \<times> u32 \<times> u32 \<times> u32) option" where
  "fault_read e va new_page =
     (if e_file e \<noteq> 0 then
        let page_start = va AND NOT 0xFFF;
            page_offset = page_start - e_start e;
            sz = e_size e - page_offset;
            sz' = (if sz > FRAME_SIZE then FRAME_SIZE else sz)
        in Some (e_file e, e_file_offset e + page_offset, sz', new_page)
      else None)"

definition vmm_pageFault :: "phys \<Rightarrow> u32 \<Rightarrow> vme \<Rightarrow> vme \<Rightarrow> u32 \<Rightarrow> fault_result res" where
  "vmm_pageFault pm cr3 own shared va =
     (if va \<ge> 0xF0000000 \<and> check_VPN pm cr3 (drop_bit 12 va) then Inr (PfPresent pm)
      else
        let vme_entry = (if va \<ge> 0xF0000000 then vme_get shared va
                         else if va \<ge> 0x80000000 then vme_get own va else None)
        in case vme_entry of
             None \<Rightarrow> Inr PfExit
           | Some e \<Rightarrow>
               bindR (alloc_frame pm) (\<lambda>(new_page, pm1).
               bindR (add_mapping pm1 cr3 (drop_bit 12 va) (drop_bit 12 new_page) False True True) (\<lambda>pm2.
                 Inr (PfMapped pm2 new_page (fault_read e va new_page)))))"

section \<open>Addresses and entries\<close>

lemma idx_unat: "is_frame p \<Longrightarrow> i < 1024 \<Longrightarrow> unat (idx p i) = unat p + 4 * unat i"
proof -
  assume a: "is_frame p" "i < 1024"
  then have i: "unat i < 1024" by (simp add: word_less_nat_alt)
  then have m: "unat (4 * i) = 4 * unat i" by (simp add: unat_word_ariths)
  then show ?thesis
    unfolding idx_def using is_frame_less [OF a(1)] i by (subst unat_plus_no_wrap) simp_all
qed

lemma idx_in_frame: "is_frame p \<Longrightarrow> i < 1024 \<Longrightarrow> in_frame p (idx p i)"
  by (simp add: in_frame_iff idx_unat word_less_nat_alt)

lemma idx_inj: "is_frame p \<Longrightarrow> i < 1024 \<Longrightarrow> j < 1024 \<Longrightarrow> idx p i = idx p j \<longleftrightarrow> i = j"
  using idx_unat [of p i] idx_unat [of p j] by (auto simp: word_unat_eq_iff)

lemma idx_apart:
  "is_frame p \<Longrightarrow> is_frame q \<Longrightarrow> i < 1024 \<Longrightarrow> j < 1024 \<Longrightarrow> idx p i = idx q j \<longleftrightarrow> p = q \<and> i = j"
  using idx_in_frame [of p i] idx_in_frame [of q j] in_frame_unique [of p q "idx p i"] idx_inj [of p i j] by auto

lemma bit_0xFFF [simp]: "bit (0xFFF :: int) n \<longleftrightarrow> n < 12"
  using bit_mask_iff [where 'a = int, of 12 n] by (simp add: mask_eq_exp_minus_1)

lemma bit_not_0xFFF [simp]: "bit (- 4096 :: int) n \<longleftrightarrow> \<not> n < 12"
  using bit_not_iff [of "0xFFF :: int" n] by simp

lemma is_frame_bit: "is_frame p \<Longrightarrow> n < 12 \<Longrightarrow> \<not> bit p n"
proof -
  assume "is_frame p" "n < 12"
  then have "pm_offset p = 0" by (simp add: pm_offset_zero)
  then have "\<not> bit (p AND 0xFFF) n" by (simp add: pm_offset_def)
  then show ?thesis using \<open>n < 12\<close> by (simp add: bit_and_iff)
qed

lemma is_frame_bitD: "is_frame p \<Longrightarrow> bit p n \<Longrightarrow> 12 \<le> n"
  using is_frame_bit [of p n] by (cases "n < 12") auto

lemma bit_frame_of: "bit (frame_of e) n \<longleftrightarrow> 12 \<le> n \<and> bit e n"
  by (cases "n < 32") (auto simp: frame_of_def bit_simps dest: bit_imp_le_length)

lemma frame_of_mask: "e AND NOT 0xFFF = frame_of e"
  by (rule bit_word_eqI) (auto simp: bit_frame_of bit_and_iff)

lemma frame_of_mask_num: "e AND - 4096 = frame_of e"
  using frame_of_mask [of e] by simp

lemma frame_of_entry: "is_frame p \<Longrightarrow> frame_of ((x AND 0xFFF) OR p) = p"
  by (rule bit_word_eqI) (auto simp: bit_frame_of bit_or_iff bit_and_iff dest: is_frame_bitD)

lemma present_bit: "present e \<longleftrightarrow> bit e 0"
  by (simp add: present_def and_one_eq bit_0 odd_iff_mod_2_eq_one)

lemma bit0_set_flags: "bit (set_flags x g w u) 0"
  by (simp add: set_flags_def Let_def bit_or_iff)

lemma present_entry: "present ((set_flags x g w u AND 0xFFF) OR p)"
  by (simp add: present_bit bit_or_iff bit_and_iff bit0_set_flags)

lemma present_pte: "present (set_flags x g w u OR p)"
  by (simp add: present_bit bit_or_iff bit0_set_flags)

lemma zero_not_present [simp]: "\<not> present 0"
  by (simp add: present_def)

section \<open>The mapping a directory stands for\<close>

definition pde :: "phys \<Rightarrow> u32 \<Rightarrow> u32 \<Rightarrow> u32" where
  "pde pm PD i = pm_mem pm (idx PD i)"

definition walk :: "phys \<Rightarrow> u32 \<Rightarrow> u32 \<Rightarrow> u32 option" where
  "walk pm PD VPN =
     (let e = pde pm PD (drop_bit 10 VPN);
          f = pm_mem pm (idx (frame_of e) (VPN AND 0x3FF))
      in if present e \<and> present f then Some f else None)"

definition is_vpn :: "u32 \<Rightarrow> bool" where
  "is_vpn v \<longleftrightarrow> unat v < 2 ^ 20"

text \<open>
  \<open>pd_ok pm A PD\<close>: the directory and the tables it refers to are different frames in use.
\<close>

definition pd_ok :: "phys \<Rightarrow> u32 set \<Rightarrow> u32 \<Rightarrow> bool" where
  "pd_ok pm A PD \<longleftrightarrow> PD \<in> A \<and>
     (\<forall>i. i < 1024 \<longrightarrow> present (pde pm PD i) \<longrightarrow> frame_of (pde pm PD i) \<in> A - {PD}) \<and>
     (\<forall>i j. i < 1024 \<longrightarrow> j < 1024 \<longrightarrow> present (pde pm PD i) \<longrightarrow> present (pde pm PD j) \<longrightarrow>
        frame_of (pde pm PD i) = frame_of (pde pm PD j) \<longrightarrow> i = j)"

lemma pd_okD:
  assumes "pd_ok pm A PD"
  shows "PD \<in> A"
    and "i < 1024 \<Longrightarrow> present (pde pm PD i) \<Longrightarrow> frame_of (pde pm PD i) \<in> A \<and> frame_of (pde pm PD i) \<noteq> PD"
    and "i < 1024 \<Longrightarrow> j < 1024 \<Longrightarrow> present (pde pm PD i) \<Longrightarrow> present (pde pm PD j) \<Longrightarrow>
           frame_of (pde pm PD i) = frame_of (pde pm PD j) \<Longrightarrow> i = j"
  using assms unfolding pd_ok_def by blast+

lemma vpn_unat: "unat (drop_bit 10 v :: u32) = unat v div 1024" "unat (v AND 0x3FF :: u32) = unat v mod 1024"
proof -
  show "unat (drop_bit 10 v :: u32) = unat v div 1024" by (simp add: drop_bit_eq_div unat_div)
  have "v AND 0x3FF = take_bit 10 v" by (simp add: take_bit_eq_mask mask_eq_exp_minus_1)
  then show "unat (v AND 0x3FF :: u32) = unat v mod 1024" by (simp add: unat_mod take_bit_eq_mod)
qed

lemma vpn_split:
  assumes "is_vpn v" shows "drop_bit 10 v < (1024 :: u32)" "v AND 0x3FF < (1024 :: u32)"
  using assms vpn_unat [of v] by (auto simp: word_less_nat_alt is_vpn_def)

lemma vpn_eq:
  assumes "drop_bit 10 v = drop_bit 10 w" "v AND 0x3FF = w AND 0x3FF" shows "v = (w :: u32)"
proof -
  have "unat v div 1024 = unat w div 1024" "unat v mod 1024 = unat w mod 1024"
    using arg_cong [OF assms(1), of unat] arg_cong [OF assms(2), of unat] by (simp_all only: vpn_unat)
  then have "unat v = unat w" by (metis div_mult_mod_eq)
  then show ?thesis by (simp add: word_unat_eq_iff)
qed

lemma check_VPN_walk: "check_VPN pm PD VPN \<longleftrightarrow> walk pm PD VPN \<noteq> None"
  by (simp add: check_VPN_def walk_def pde_def Let_def)

text \<open>Memory that agrees on the directory and on its tables is the same mapping.\<close>

definition pd_frames :: "phys \<Rightarrow> u32 \<Rightarrow> u32 set" where
  "pd_frames pm PD = insert PD {frame_of (pde pm PD i) |i. i < 1024 \<and> present (pde pm PD i)}"

lemma pd_frames_owned: "pd_ok pm A PD \<Longrightarrow> pd_frames pm PD \<subseteq> A"
  using pd_okD by (fastforce simp: pd_frames_def)

lemma pd_agree:
  assumes own: "phys_owns pm A" and ok: "pd_ok pm A PD"
    and same: "\<And>q a. q \<in> pd_frames pm PD \<Longrightarrow> in_frame q a \<Longrightarrow> pm_mem pm' a = pm_mem pm a"
    and sub: "pd_frames pm PD \<subseteq> A'"
  shows "pd_ok pm' A' PD \<and> (\<forall>v. is_vpn v \<longrightarrow> walk pm' PD v = walk pm PD v) \<and> (\<forall>i<1024. pde pm' PD i = pde pm PD i)"
proof -
  have f: "is_frame q" if "q \<in> pd_frames pm PD" for q
    using pf.owned_frame [OF own] pd_frames_owned [OF ok] that by blast
  have PD: "PD \<in> pd_frames pm PD" by (simp add: pd_frames_def)
  have d: "pde pm' PD i = pde pm PD i" if "i < 1024" for i
    unfolding pde_def using same [OF PD] idx_in_frame [OF f [OF PD] that] by blast
  have tab: "frame_of (pde pm PD i) \<in> pd_frames pm PD" if "i < 1024" "present (pde pm PD i)" for i
    using that by (auto simp: pd_frames_def)
  have t: "pm_mem pm' (idx (frame_of (pde pm PD i)) j) = pm_mem pm (idx (frame_of (pde pm PD i)) j)"
    if "i < 1024" "j < 1024" "present (pde pm PD i)" for i j
    using same [OF tab [OF that(1,3)]] idx_in_frame [OF f [OF tab [OF that(1,3)]] that(2)] by blast
  have "walk pm' PD v = walk pm PD v" if "is_vpn v" for v
    using d [OF vpn_split(1) [OF that]] t [OF vpn_split [OF that]] by (auto simp: walk_def Let_def)
  moreover have "pd_ok pm' A' PD"
  proof -
    have "frame_of (pde pm PD i) \<in> A' - {PD}" if "i < 1024" "present (pde pm PD i)" for i
      using tab [OF that] sub pd_okD(2) [OF ok that] by blast
    then show ?thesis using d PD sub pd_okD(3) [OF ok] unfolding pd_ok_def by auto
  qed
  ultimately show ?thesis using d by blast
qed

lemma set_flags_frame: "frame_of (set_flags (x AND 0) g w u OR push_bit 12 p) = push_bit 12 p"
proof -
  have "\<not> bit (set_flags (x AND 0) g w u) n" if "12 \<le> n" for n
  proof -
    have "bit (set_flags (x AND 0) g w u AND 0xFFF) n = bit (set_flags (x AND 0) g w u) n"
      by (simp add: set_flags_def Let_def)
    then show ?thesis using that by (simp add: bit_and_iff)
  qed
  then show ?thesis
    by (intro bit_word_eqI) (auto simp: bit_frame_of bit_or_iff bit_push_bit_iff)
qed

section \<open>Writing entries\<close>

text \<open>A write to an entry of a page table.\<close>

lemma write_pte:
  assumes own: "phys_owns pm A" and ok: "pd_ok pm A PD" and ij: "i < 1024" "j < 1024"
    and p: "present (pde pm PD i)" and pm': "pm' = pm_write pm (idx (frame_of (pde pm PD i)) j) e"
  shows "phys_owns pm' A \<and> pd_ok pm' A PD \<and> (\<forall>k<1024. pde pm' PD k = pde pm PD k) \<and>
    (\<forall>v. is_vpn v \<longrightarrow> walk pm' PD v =
       (if drop_bit 10 v = i \<and> v AND 0x3FF = j then (if present e then Some e else None) else walk pm PD v))"
proof -
  let ?PT = "frame_of (pde pm PD i)"
  have PT: "?PT \<in> A" "?PT \<noteq> PD" using pd_okD(2) [OF ok ij(1) p] by auto
  have fr: "is_frame q" if "q \<in> A" for q using pf.owned_frame [OF own that] by blast
  have PD: "PD \<in> A" using pd_okD(1) [OF ok] .
  have mem: "pm_mem pm' a = (if a = idx ?PT j then e else pm_mem pm a)" for a
    unfolding pm' by (rule pf.peek_poke)
  have d: "pde pm' PD k = pde pm PD k" if "k < 1024" for k
    using mem idx_apart [OF fr [OF PD] fr [OF PT(1)] that ij(2)] PT(2) by (auto simp: pde_def)
  have "walk pm' PD v = (if drop_bit 10 v = i \<and> v AND 0x3FF = j then (if present e then Some e else None) else walk pm PD v)"
    if v: "is_vpn v" for v
  proof -
    define k where "k = drop_bit 10 v"
    define l where "l = v AND 0x3FF"
    have kl: "k < 1024" "l < 1024" using vpn_split [OF v] by (auto simp: k_def l_def)
    show ?thesis
    proof (cases "present (pde pm PD k)")
      case True
      let ?Q = "frame_of (pde pm PD k)"
      have Q: "?Q \<in> A" using pd_okD(2) [OF ok kl(1) True] by blast
      have "?Q = ?PT \<longleftrightarrow> k = i" using pd_okD(3) [OF ok kl(1) ij(1) True p] by auto
      then have "idx ?Q l = idx ?PT j \<longleftrightarrow> k = i \<and> l = j"
        using idx_apart [OF fr [OF Q] fr [OF PT(1)] kl(2) ij(2)] by blast
      then show ?thesis
        using d [OF kl(1)] mem True by (auto simp: walk_def Let_def k_def [symmetric] l_def [symmetric])
    next
      case False
      then have "k \<noteq> i" using p by auto
      then show ?thesis
        using d [OF kl(1)] False by (auto simp: walk_def Let_def k_def [symmetric] l_def [symmetric])
    qed
  qed
  moreover have "pd_ok pm' A PD" using ok d unfolding pd_ok_def by simp
  moreover have "phys_owns pm' A"
    unfolding pm' using pf.poke_law [OF own PT(1)] idx_in_frame [OF fr [OF PT(1)] ij(2)] .
  ultimately show ?thesis using d by blast
qed

text \<open>Entering a new, empty page table into a directory.\<close>

lemma write_pde:
  assumes own: "phys_owns pm A" and ok: "pd_ok pm A PD" and i: "i < 1024" and np: "\<not> present (pde pm PD i)"
    and PT: "PT \<in> A" "PT \<noteq> PD" "\<And>a. in_frame PT a \<Longrightarrow> pm_mem pm a = 0"
    and fresh: "\<And>k. k < 1024 \<Longrightarrow> present (pde pm PD k) \<Longrightarrow> frame_of (pde pm PD k) \<noteq> PT"
    and e: "present e" "frame_of e = PT" and pm': "pm' = pm_write pm (idx PD i) e"
  shows "phys_owns pm' A \<and> pd_ok pm' A PD \<and> pde pm' PD i = e \<and> (\<forall>v. is_vpn v \<longrightarrow> walk pm' PD v = walk pm PD v)"
proof -
  have fr: "is_frame q" if "q \<in> A" for q using pf.owned_frame [OF own that] by blast
  have PD: "PD \<in> A" using pd_okD(1) [OF ok] .
  have mem: "pm_mem pm' a = (if a = idx PD i then e else pm_mem pm a)" for a
    unfolding pm' by (rule pf.peek_poke)
  have d: "pde pm' PD k = (if k = i then e else pde pm PD k)" if "k < 1024" for k
    using mem idx_inj [OF fr [OF PD] that i] by (simp add: pde_def)
  have t: "pm_mem pm' (idx q l) = pm_mem pm (idx q l)" if "q \<in> A" "q \<noteq> PD" "l < 1024" for q l
    using mem idx_apart [OF fr [OF that(1)] fr [OF PD] that(3) i] that(2) by auto
  have "walk pm' PD v = walk pm PD v" if v: "is_vpn v" for v
  proof -
    define k where "k = drop_bit 10 v"
    define l where "l = v AND 0x3FF"
    have kl: "k < 1024" "l < 1024" using vpn_split [OF v] by (auto simp: k_def l_def)
    show ?thesis
    proof (cases "k = i")
      case True
      have "pm_mem pm' (idx PT l) = 0" using t [OF PT(1,2) kl(2)] PT(3) idx_in_frame [OF fr [OF PT(1)] kl(2)] by simp
      then show ?thesis
        using d [OF kl(1)] True np e by (simp add: walk_def Let_def k_def [symmetric] l_def [symmetric])
    next
      case False
      have "pm_mem pm' (idx (frame_of (pde pm PD k)) l) = pm_mem pm (idx (frame_of (pde pm PD k)) l)"
        if "present (pde pm PD k)" using pd_okD(2) [OF ok kl(1) that] t kl(2) by blast
      then show ?thesis
        using d [OF kl(1)] False by (auto simp: walk_def Let_def k_def [symmetric] l_def [symmetric])
    qed
  qed
  moreover have "pd_ok pm' A PD"
  proof -
    have "frame_of (pde pm' PD k) \<in> A - {PD}" if "k < 1024" "present (pde pm' PD k)" for k
      using that d [OF that(1)] pd_okD(2) [OF ok that(1)] e PT by (auto split: if_splits)
    moreover have "k = l" if "k < 1024" "l < 1024" "present (pde pm' PD k)" "present (pde pm' PD l)"
      "frame_of (pde pm' PD k) = frame_of (pde pm' PD l)" for k l
    proof (cases "k = i \<or> l = i")
      case True
      then show ?thesis
        using that d [OF that(1)] d [OF that(2)] fresh [OF that(1)] fresh [OF that(2)] e(2)
        by (cases "k = i"; cases "l = i") simp_all
    next
      case False
      then show ?thesis using that d [OF that(1)] d [OF that(2)] pd_okD(3) [OF ok that(1,2)] by simp
    qed
    ultimately show ?thesis using PD unfolding pd_ok_def by blast
  qed
  moreover have "phys_owns pm' A"
    unfolding pm' using pf.poke_law [OF own PD] idx_in_frame [OF fr [OF PD] i] .
  moreover have "pde pm' PD i = e" using d [OF i] by simp
  ultimately show ?thesis by blast
qed

text \<open>The first half of \<open>add_mapping\<close>, and all of \<open>add_PT_mapping\<close>: the directory has a table.\<close>

lemma new_table:
  assumes own: "phys_owns pm A" and ok: "pd_ok pm A PD" and i: "i < 1024" and np: "\<not> present (pde pm PD i)"
    and al: "alloc_frame pm = Inr (PT, pm1)"
    and pm2: "pm2 = pm_write pm1 (idx PD i) ((set_flags (pm_mem pm1 (idx PD i)) g w u AND 0xFFF) OR PT)"
  shows "phys_owns pm2 (insert PT A) \<and> pd_ok pm2 (insert PT A) PD \<and> present (pde pm2 PD i) \<and>
    frame_of (pde pm2 PD i) = PT \<and> (\<forall>v. is_vpn v \<longrightarrow> walk pm2 PD v = walk pm PD v)"
proof -
  have a: "PT \<notin> A" "is_frame PT" "phys_owns pm1 (insert PT A)"
    "\<And>a. pm_mem pm1 a = (if in_frame PT a then 0 else pm_mem pm a)"
    using pf.alloc_law [OF own al] by auto
  have ag: "pd_ok pm1 (insert PT A) PD" "\<forall>v. is_vpn v \<longrightarrow> walk pm1 PD v = walk pm PD v"
    "\<forall>k<1024. pde pm1 PD k = pde pm PD k"
    using pd_agree [OF own ok, of pm1 "insert PT A"] pf.alloc_keeps [OF own al] pd_frames_owned [OF ok] by auto
  have PD: "PD \<in> A" using pd_okD(1) [OF ok] .
  let ?e = "(set_flags (pm_mem pm1 (idx PD i)) g w u AND 0xFFF) OR PT"
  have "phys_owns pm2 (insert PT A) \<and> pd_ok pm2 (insert PT A) PD \<and> pde pm2 PD i = ?e \<and>
      (\<forall>v. is_vpn v \<longrightarrow> walk pm2 PD v = walk pm1 PD v)"
  proof (rule write_pde [OF a(3) ag(1) i _ _ _ _ _ present_entry frame_of_entry [OF a(2)] pm2])
    show "\<not> present (pde pm1 PD i)" using np ag(3) i by simp
    show "frame_of (pde pm1 PD k) \<noteq> PT" if "k < 1024" "present (pde pm1 PD k)" for k
      using pd_okD(2) [OF ok that(1)] that ag(3) a(1) by auto
  qed (use a PD in auto)
  then show ?thesis using ag(2) present_entry frame_of_entry [OF a(2)] by auto
qed

section \<open>The operations\<close>

lemma add_mapping_fresh:
  assumes "\<not> present (pde pm PD (drop_bit 10 VPN))"
  shows "add_mapping pm PD VPN PPN g w u =
    (case alloc_frame pm of Inl f \<Rightarrow> Inl f
     | Inr (PT, pm1) \<Rightarrow> Inr (pm_write (pm_write pm1 (idx PD (drop_bit 10 VPN))
         ((set_flags (pm_mem pm1 (idx PD (drop_bit 10 VPN))) g w u AND 0xFFF) OR PT)) (idx PT (VPN AND 0x3FF))
         (set_flags 0 g w u OR push_bit 12 PPN)))"
  using assms unfolding add_mapping_def pde_def by (simp add: Let_def split: sum.split)

lemma add_mapping_spec:
  assumes own: "phys_owns pm A" and ok: "pd_ok pm A PD" and v: "is_vpn VPN"
    and r: "add_mapping pm PD VPN PPN g w u = Inr pm'"
  shows "\<exists>A'. A \<subseteq> A' \<and> phys_owns pm' A' \<and> pd_ok pm' A' PD \<and>
    walk pm' PD VPN = Some (set_flags 0 g w u OR push_bit 12 PPN) \<and>
    (\<forall>x. is_vpn x \<longrightarrow> x \<noteq> VPN \<longrightarrow> walk pm' PD x = walk pm PD x)"
proof -
  define i where "i = drop_bit 10 VPN"
  define j where "j = VPN AND 0x3FF"
  have ij: "i < 1024" "j < 1024" using vpn_split [OF v] by (auto simp: i_def j_def)
  let ?e = "set_flags 0 g w u OR push_bit 12 PPN"
  have "\<exists>pm2 A'. A \<subseteq> A' \<and> phys_owns pm2 A' \<and> pd_ok pm2 A' PD \<and> present (pde pm2 PD i) \<and>
      (\<forall>x. is_vpn x \<longrightarrow> walk pm2 PD x = walk pm PD x) \<and> pm' = pm_write pm2 (idx (frame_of (pde pm2 PD i)) j) ?e"
  proof (cases "present (pde pm PD i)")
    case True
    then have "pm' = pm_write pm (idx (frame_of (pde pm PD i)) j) ?e"
      using r by (simp add: add_mapping_def Let_def pde_def i_def [symmetric] j_def [symmetric])
    then show ?thesis using own ok True by blast
  next
    case False
    note f = add_mapping_fresh [OF False [unfolded i_def], of PPN g w u]
    obtain PT pm1 where al: "alloc_frame pm = Inr (PT, pm1)"
      using r unfolding f by (cases "alloc_frame pm") auto
    have pm': "pm_write (pm_write pm1 (idx PD i) ((set_flags (pm_mem pm1 (idx PD i)) g w u AND 0xFFF) OR PT)) (idx PT j) ?e = pm'"
      using r unfolding f al i_def j_def by simp
    define pm2 where "pm2 = pm_write pm1 (idx PD i) ((set_flags (pm_mem pm1 (idx PD i)) g w u AND 0xFFF) OR PT)"
    note n = new_table [OF own ok ij(1) False al pm2_def]
    then have "pm' = pm_write pm2 (idx (frame_of (pde pm2 PD i)) j) ?e" using pm' by (simp only: pm2_def)
    then show ?thesis using n by (intro exI [of _ pm2] exI [of _ "insert PT A"]) (simp add: subset_insertI)
  qed
  then obtain pm2 A' where s: "A \<subseteq> A'" "phys_owns pm2 A'" "pd_ok pm2 A' PD" "present (pde pm2 PD i)"
    "\<forall>x. is_vpn x \<longrightarrow> walk pm2 PD x = walk pm PD x" "pm' = pm_write pm2 (idx (frame_of (pde pm2 PD i)) j) ?e" by blast
  from write_pte [OF s(2,3) ij s(4,6)]
  have p: "phys_owns pm' A'" "pd_ok pm' A' PD"
    "\<And>x. is_vpn x \<Longrightarrow> walk pm' PD x = (if drop_bit 10 x = i \<and> x AND 0x3FF = j then
        (if present ?e then Some ?e else None) else walk pm2 PD x)" by auto
  have "walk pm' PD VPN = Some ?e" using p(3) [OF v] present_pte by (simp add: i_def j_def)
  moreover have "walk pm' PD x = walk pm PD x" if "is_vpn x" "x \<noteq> VPN" for x
    using p(3) [OF that(1)] s(5) that vpn_eq [of x VPN] by (auto simp: i_def j_def)
  ultimately show ?thesis using s(1) p(1,2) by blast
qed


text \<open>The entry that is removed refers to a frame in use that is neither the directory nor a table.\<close>

lemma remove_mapping_spec:
  assumes own: "phys_owns pm A" and ok: "pd_ok pm A PD" and v: "is_vpn VPN"
    and data: "\<And>e. walk pm PD VPN = Some e \<Longrightarrow> frame_of e \<in> A - pd_frames pm PD"
  shows "\<exists>pm'. remove_mapping pm PD VPN = Inr pm' \<and>
    phys_owns pm' (case walk pm PD VPN of None \<Rightarrow> A | Some e \<Rightarrow> A - {frame_of e}) \<and>
    pd_ok pm' (case walk pm PD VPN of None \<Rightarrow> A | Some e \<Rightarrow> A - {frame_of e}) PD \<and>
    (\<forall>x. is_vpn x \<longrightarrow> walk pm' PD x = (if x = VPN then None else walk pm PD x))"
proof -
  define i where "i = drop_bit 10 VPN"
  define j where "j = VPN AND 0x3FF"
  have ij: "i < 1024" "j < 1024" using vpn_split [OF v] by (auto simp: i_def j_def)
  have nz: "PD \<noteq> 0" using pf.owned_frame [OF own pd_okD(1) [OF ok]] by blast
  show ?thesis
  proof (cases "present (pde pm PD i)")
    case False
    then have "walk pm PD VPN = None" by (simp add: walk_def i_def)
    moreover have "remove_mapping pm PD VPN = Inr pm" using False nz by (simp add: remove_mapping_def pde_def i_def)
    ultimately show ?thesis using own ok by auto
  next
    case True
    let ?PT = "frame_of (pde pm PD i)"
    define e where "e = pm_mem pm (idx ?PT j)"
    have wk: "walk pm PD VPN = (if present e then Some e else None)"
      using True by (simp add: walk_def i_def j_def e_def Let_def)
    have rm: "remove_mapping pm PD VPN =
        bindR (if present e then dealloc_frame pm (frame_of e) else Inr pm) (\<lambda>pm1. Inr (pm_write pm1 (idx ?PT j) 0))"
      using True nz by (simp add: remove_mapping_def pde_def i_def j_def e_def Let_def frame_of_mask_num)
    define A1 where "A1 = (if present e then A - {frame_of e} else A)"
    have "\<exists>pm1. (if present e then dealloc_frame pm (frame_of e) else Inr pm) = Inr pm1 \<and> phys_owns pm1 A1 \<and>
        pd_ok pm1 A1 PD \<and> (\<forall>x. is_vpn x \<longrightarrow> walk pm1 PD x = walk pm PD x) \<and> (\<forall>k<1024. pde pm1 PD k = pde pm PD k)"
    proof (cases "present e")
      case pr: True
      have F: "frame_of e \<in> A" "frame_of e \<notin> pd_frames pm PD" using data [of e] wk pr by auto
      obtain pm1 where d: "dealloc_frame pm (frame_of e) = Inr pm1" "phys_owns pm1 (A - {frame_of e})"
        using pf.dealloc_law [OF own F(1)] by blast
      have "pm_mem pm1 a = pm_mem pm a" if "q \<in> pd_frames pm PD" "in_frame q a" for q a
        using pf.dealloc_keeps [OF own F(1) d(1) _ _ that(2)] that(1) pd_frames_owned [OF ok] F(2) by blast
      moreover have "pd_frames pm PD \<subseteq> A - {frame_of e}" using F(2) pd_frames_owned [OF ok] by blast
      ultimately have "pd_ok pm1 (A - {frame_of e}) PD \<and> (\<forall>v. is_vpn v \<longrightarrow> walk pm1 PD v = walk pm PD v) \<and>
          (\<forall>i<1024. pde pm1 PD i = pde pm PD i)"
        by (rule pd_agree [OF own ok])
      then show ?thesis using d pr by (simp add: A1_def)
    qed (use own ok in \<open>auto simp: A1_def\<close>)
    then obtain pm1 where p1: "(if present e then dealloc_frame pm (frame_of e) else Inr pm) = Inr pm1"
      "phys_owns pm1 A1" "pd_ok pm1 A1 PD" "\<forall>x. is_vpn x \<longrightarrow> walk pm1 PD x = walk pm PD x"
      "\<forall>k<1024. pde pm1 PD k = pde pm PD k" by blast
    have eq: "pde pm1 PD i = pde pm PD i" using p1(5) ij(1) by blast
    let ?pm = "pm_write pm1 (idx ?PT j) 0"
    have w: "phys_owns ?pm A1" "pd_ok ?pm A1 PD"
      "\<And>x. is_vpn x \<Longrightarrow> walk ?pm PD x = (if drop_bit 10 x = i \<and> x AND 0x3FF = j then None else walk pm1 PD x)"
      using write_pte [OF p1(2,3) ij, of ?pm 0] eq True by auto
    have "walk ?pm PD x = (if x = VPN then None else walk pm PD x)" if "is_vpn x" for x
      using w(3) [OF that] p1(4) that vpn_eq [of x VPN] by (auto simp: i_def j_def)
    moreover have "A1 = (case walk pm PD VPN of None \<Rightarrow> A | Some e \<Rightarrow> A - {frame_of e})" using wk by (simp add: A1_def)
    ultimately show ?thesis using rm p1(1) w(1,2) by auto
  qed
qed

section \<open>The page fault handler\<close>

lemma drop12_unat: "unat (drop_bit 12 va :: u32) = unat va div 4096"
  by (simp add: drop_bit_eq_div unat_div)

lemma is_vpn_drop: "is_vpn (drop_bit 12 va)"
  using unat_u32_less [of va] by (simp add: is_vpn_def drop12_unat less_mult_imp_div_less)

lemma frame_shift: "is_frame p \<Longrightarrow> push_bit 12 (drop_bit 12 p) = p"
  by (rule bit_word_eqI) (auto simp: bit_simps dest: is_frame_bitD bit_imp_le_length)

definition fault_entry :: "vme \<Rightarrow> vme \<Rightarrow> u32 \<Rightarrow> vme_entry option" where
  "fault_entry own shared va =
     (if va \<ge> 0xF0000000 then vme_get shared va else if va \<ge> 0x80000000 then vme_get own va else None)"

lemma page_fault_spec:
  assumes own: "phys_owns pm A" and ok: "pd_ok pm A cr3"
    and r: "vmm_pageFault pm cr3 vown vshared va = Inr res"
  shows "case res of
      PfPresent pm' \<Rightarrow> pm' = pm \<and> 0xF0000000 \<le> va \<and> walk pm cr3 (drop_bit 12 va) \<noteq> None
    | PfExit \<Rightarrow> fault_entry vown vshared va = None
    | PfMapped pm' p rd \<Rightarrow> \<exists>e A'. fault_entry vown vshared va = Some e \<and> rd = fault_read e va p \<and>
        p \<notin> A \<and> is_frame p \<and> insert p A \<subseteq> A' \<and> phys_owns pm' A' \<and> pd_ok pm' A' cr3 \<and>
        walk pm' cr3 (drop_bit 12 va) = Some (0x7 OR p) \<and>
        (\<forall>x. is_vpn x \<longrightarrow> x \<noteq> drop_bit 12 va \<longrightarrow> walk pm' cr3 x = walk pm cr3 x)"
proof (cases "va \<ge> 0xF0000000 \<and> check_VPN pm cr3 (drop_bit 12 va)")
  case True
  then show ?thesis using r by (auto simp: vmm_pageFault_def check_VPN_walk)
next
  case np: False
  show ?thesis
  proof (cases "fault_entry vown vshared va")
    case None
    then have "res = PfExit" using r np by (auto simp: vmm_pageFault_def fault_entry_def Let_def split: if_splits)
    then show ?thesis using None by simp
  next
    case (Some e)
    have "bindR (alloc_frame pm) (\<lambda>(p, pm1).
        bindR (add_mapping pm1 cr3 (drop_bit 12 va) (drop_bit 12 p) False True True) (\<lambda>pm2.
          Inr (PfMapped pm2 p (fault_read e va p)))) = Inr res"
      using r np Some unfolding vmm_pageFault_def fault_entry_def Let_def by simp
    then obtain p pm1 pm2 where a: "alloc_frame pm = Inr (p, pm1)"
      "add_mapping pm1 cr3 (drop_bit 12 va) (drop_bit 12 p) False True True = Inr pm2"
      "res = PfMapped pm2 p (fault_read e va p)"
      by (auto simp: bindR_Inr_conv)
    have al: "p \<notin> A" "is_frame p" "phys_owns pm1 (insert p A)" using pf.alloc_law [OF own a(1)] by auto
    have ag: "pd_ok pm1 (insert p A) cr3" "\<forall>v. is_vpn v \<longrightarrow> walk pm1 cr3 v = walk pm cr3 v"
      using pd_agree [OF own ok, of pm1 "insert p A"] pf.alloc_keeps [OF own a(1)] pd_frames_owned [OF ok] by auto
    obtain A' where m: "insert p A \<subseteq> A'" "phys_owns pm2 A'" "pd_ok pm2 A' cr3"
      "walk pm2 cr3 (drop_bit 12 va) = Some (set_flags 0 False True True OR push_bit 12 (drop_bit 12 p))"
      "\<forall>x. is_vpn x \<longrightarrow> x \<noteq> drop_bit 12 va \<longrightarrow> walk pm2 cr3 x = walk pm1 cr3 x"
      using add_mapping_spec [OF al(3) ag(1) is_vpn_drop a(2)] by blast
    have "set_flags 0 False True True = 0x7" by (simp add: set_flags_def)
    then have "walk pm2 cr3 (drop_bit 12 va) = Some (0x7 OR p)" using m(4) frame_shift [OF al(2)] by simp
    then show ?thesis using a(3) Some al m(1-3,5) ag(2) by auto
  qed
qed

section \<open>Properties\<close>

text \<open>
  (C8:add_mapping_correct) \<open>add_mapping\<close> fails only when a new page table is needed and no frame is left. Otherwise the
  page is mapped to the given frame with the given flags, every other page is mapped as before, and
  the directory and its tables are still distinct frames in use.
\<close>

theorem add_mapping_correct:
  assumes "phys_owns pm A" "pd_ok pm A PD" "is_vpn VPN"
  shows "case add_mapping pm PD VPN PPN g w u of
      Inl f \<Rightarrow> alloc_frame pm = Inl f
    | Inr pm' \<Rightarrow> walk pm' PD VPN = Some (set_flags 0 g w u OR push_bit 12 PPN) \<and>
        (\<forall>x. is_vpn x \<longrightarrow> x \<noteq> VPN \<longrightarrow> walk pm' PD x = walk pm PD x) \<and>
        (\<exists>A'. A \<subseteq> A' \<and> phys_owns pm' A' \<and> pd_ok pm' A' PD)"
proof (cases "add_mapping pm PD VPN PPN g w u")
  case (Inl f)
  have "\<not> present (pde pm PD (drop_bit 10 VPN))"
    using Inl by (auto simp: add_mapping_def pde_def Let_def)
  then show ?thesis using Inl by (auto simp: add_mapping_fresh split: sum.splits)
next
  case (Inr pm')
  then show ?thesis using add_mapping_spec [OF assms Inr] by auto
qed

definition demo_pm :: phys where
  "demo_pm = \<lparr>pm_mem = \<lambda>_. 0, pm_firstFree = 0, pm_avail = 0x2000, pm_limit = 0x5000\<rparr>"

lemma demo_pm_owns: "phys_owns demo_pm {0x1000}"
proof -
  have "frames 4096 0x2000 = {0x1000}"
  proof -
    have "p = 0x1000" if p: "is_frame p" "4096 \<le> unat p" "unat p < 8192" for p :: u32
    proof -
      obtain k where k: "unat p = 4096 * k" using p(1) unfolding is_frame_def dvd_def by blast
      then have "k = 1" using p(2,3) by simp
      then show ?thesis using k by (simp add: word_unat_eq_iff)
    qed
    then show ?thesis by (auto simp: frames_def is_frame_def)
  qed
  then have "phys_ok 4096 demo_pm {0x1000}"
    by (intro phys_okI [of _ "[]"]) (simp_all add: demo_pm_def is_frame_def)
  then show ?thesis by (auto simp: phys_owns_def)
qed

lemma demo_pd_ok: "pd_ok demo_pm {0x1000} 0x1000"
  by (simp add: pd_ok_def pde_def demo_pm_def)

lemma demo_add_mapping: "\<exists>pm'. add_mapping demo_pm 0x1000 5 3 False True True = Inr pm'"
  by (simp add: add_mapping_def demo_pm_def Let_def alloc_frame_def pm_offset_def)

theorem add_mapping_correct_witness:
  "\<exists>pm'. add_mapping demo_pm 0x1000 5 3 False True True = Inr pm' \<and> walk pm' 0x1000 5 = Some 0x3007"
proof -
  obtain pm' where m: "add_mapping demo_pm 0x1000 5 3 False True True = Inr pm'" using demo_add_mapping by blast
  then show ?thesis
    using add_mapping_correct [OF demo_pm_owns demo_pd_ok, where VPN = 5 and PPN = 3 and g = False and w = True and u = True]
    by (simp add: is_vpn_def set_flags_def)
qed




lemma demo_page_fault:
  "\<exists>pm' rd. vmm_pageFault demo_pm 0x1000 demo_vme1 demo_vme 0x80001234 = Inr (PfMapped pm' 0x2000 rd)"
  by (simp add: vmm_pageFault_def demo_vme1_eq demo_vme_def vme_get_def mk_entry_def in_entry_def required_pages_def
      FRAME_SIZE_def demo_pm_def alloc_frame_def pm_offset_def add_mapping_def Let_def bzero_frame_def present_def)


text \<open>
  (C10:fault_read_in_area) For a page of a mapped file the handler asks for the part of the file that belongs to that
  page: it starts at the area's file offset plus the distance of the page from the start of the
  area, is at most one frame long, and never reaches past the size the area was made with.
\<close>

theorem fault_read_in_area:
  assumes "vme_ok lo v" "vme_get v va = Some e" "e = mk_entry s sz fl off user" "0 < unat sz" "unat sz + 4095 < 2 ^ 32"
    and "fl \<noteq> 0" "fault_read e va p = Some (fl', off', n, dst)"
  shows "fl' = fl \<and> dst = p \<and> off' = off + (frame_of va - s) \<and> 0 < unat n \<and> unat n \<le> 4096 \<and>
    unat (frame_of va - s) + unat n \<le> unat sz \<and>
    (unat n = 4096 \<or> unat (frame_of va - s) + unat n = unat sz)"
proof -
  have e: "e \<in> set (v_entries v)" "unat va \<in> espan e" using vme_get_iff [OF assms(1)] assms(2) by auto
  have al: "4096 dvd unat s"
    using e(1) vme_ok_range [OF assms(1)] assms(3) by (auto simp: entries_ok_def elo_def mk_entry_def)
  have sp: "unat s \<le> unat va" "unat va < unat s + 4096 * ((unat sz + 4095) div 4096)"
    using e(2) assms(3) required_pages_unat [OF assms(5)] by (auto simp: espan_mk_entry taken_range_def)
  have fr: "unat (frame_of va) = unat va div 4096 * 4096"
  proof -
    have "frame_of va = va div 4096 * 4096" by (simp add: frame_of_def push_bit_eq_mult drop_bit_eq_div)
    moreover have "unat va div 4096 * 4096 \<le> unat va" by simp
    then have "unat va div 4096 * 4096 < 2 ^ 32" using unat_u32_less [of va] by linarith
    ultimately show ?thesis by (simp add: unat_word_ariths unat_div)
  qed
  obtain k where k: "unat s = 4096 * k" using al by auto
  define d where "d = unat va div 4096 - k"
  define q where "q = (unat sz + 4095) div 4096"
  have "k \<le> unat va div 4096" using sp(1) k by (simp add: less_eq_div_iff_mult_less_eq)
  moreover have "unat va div 4096 < k + q"
    using sp(2) k by (intro less_mult_imp_div_less) (simp add: q_def algebra_simps)
  ultimately have dk: "unat va div 4096 = k + d" "d < q" by (auto simp: d_def)
  have "4096 * q \<le> unat sz + 4095" by (simp add: q_def)
  then have d: "unat (frame_of va) = unat s + 4096 * d" "4096 * d < unat sz"
    using fr k dk by (auto simp: algebra_simps)
  then have "s \<le> frame_of va" by (simp add: word_le_nat_alt)
  then have po: "unat (frame_of va - s) = 4096 * d" using d(1) by (simp add: unat_minus_no_wrap)
  have le: "frame_of va - s \<le> sz" using po d(2) by (simp add: word_le_nat_alt)
  have n: "n = (if sz - (frame_of va - s) > FRAME_SIZE then FRAME_SIZE else sz - (frame_of va - s))"
    "fl' = fl" "off' = off + (frame_of va - s)" "dst = p"
    using assms(3,6,7) by (auto simp: fault_read_def mk_entry_def Let_def frame_of_mask_num)
  have "unat (sz - (frame_of va - s)) = unat sz - 4096 * d" using unat_minus_no_wrap [OF le] po by simp
  then have "unat n = min 4096 (unat sz - 4096 * d)" using n(1) by (auto simp: word_less_nat_alt)
  then show ?thesis using n(2-4) po d(2) by auto
qed

lemma demo_file_vme: "\<exists>v. add_entry demo_vme 5000 16 100 True = (0x80000000, v) \<and> vme_ok 0x80000000 v \<and>
    vme_get v 0x80001234 = Some (mk_entry 0x80000000 5000 16 100 True)"
proof -
  let ?v = "\<lparr>v_avail = 0x80002000, v_limit = 0xF0000000, v_entries = [mk_entry 0x80000000 5000 16 100 True],
     v_free_entries = []\<rparr>"
  have a: "add_entry demo_vme 5000 16 100 True = (0x80000000, ?v)"
    by (simp add: add_entry_def demo_vme_def vme_new_def required_pages_def FRAME_SIZE_def mk_entry_def)
  have "vme_ok 0x80000000 ?v"
    using add_entry_spec [OF demo_vme_ok _ _ _ a] by (simp add: demo_vme_def vme_new_def)
  moreover have "vme_get ?v 0x80001234 = Some (mk_entry 0x80000000 5000 16 100 True)"
    by (simp add: vme_get_def in_entry_def mk_entry_def required_pages_def FRAME_SIZE_def)
  ultimately show ?thesis using a by blast
qed

theorem fault_read_in_area_witness:
  "\<exists>n. fault_read (mk_entry 0x80000000 5000 16 100 True) 0x80001234 0x2000 = Some (16, 4196, n, 0x2000) \<and>
     unat n = 904"
proof -
  obtain v where v: "vme_ok 0x80000000 v" "vme_get v 0x80001234 = Some (mk_entry 0x80000000 5000 16 100 True)"
    using demo_file_vme by blast
  have f: "fault_read (mk_entry 0x80000000 5000 16 100 True) 0x80001234 0x2000 = Some (16, 4196, 904, 0x2000)"
    by (simp add: fault_read_def mk_entry_def FRAME_SIZE_def)
  from fault_read_in_area [OF v refl _ _ _ f] show ?thesis using f by auto
qed

end
