(* ===== verification/VMMCopy.thy ===== *)
theory VMMCopy
  imports VMM
begin

text \<open>
  The copy of an address space (\<open>new_page_directory\<close> and \<open>copy_page_directory\<close> of \<open>kernel/vmm.cc\<close>, called by \<open>fork\<close> in \<open>kernel/sys.cc\<close>): the loops refine the
  copy of a map from pages to their contents.
\<close>

section \<open>Copying a frame\<close>

lemma copy_words_mem:
  assumes "is_frame dst" "is_frame src" "dst \<noteq> src"
  shows "n \<le> 1024 \<Longrightarrow>
    (\<forall>k<1024. pm_mem (copy_words n pm dst src) (idx dst k) = (if unat k < n then pm_mem pm (idx src k) else pm_mem pm (idx dst k))) \<and>
    (\<forall>a. \<not> in_frame dst a \<longrightarrow> pm_mem (copy_words n pm dst src) a = pm_mem pm a)"
proof (induction n)
  case (Suc n)
  let ?m = "copy_words n pm dst src"
  have n: "(of_nat n :: u32) < 1024" "unat (of_nat n :: u32) = n" using Suc.prems by (simp_all add: word_less_nat_alt)
  have IH: "\<And>k. k < 1024 \<Longrightarrow> pm_mem ?m (idx dst k) = (if unat k < n then pm_mem pm (idx src k) else pm_mem pm (idx dst k))"
    "\<And>a. \<not> in_frame dst a \<Longrightarrow> pm_mem ?m a = pm_mem pm a"
    using Suc by simp_all
  have src: "\<not> in_frame dst (idx src k)" if "k < 1024" for k
    using in_frame_unique [OF assms(1,2) _ idx_in_frame [OF assms(2) that]] assms(3) by blast
  have val: "pm_mem ?m (idx src (of_nat n)) = pm_mem pm (idx src (of_nat n))" using IH(2) src n(1) by blast
  have step: "pm_mem (copy_words (Suc n) pm dst src) a = (if a = idx dst (of_nat n) then pm_mem pm (idx src (of_nat n)) else pm_mem ?m a)" for a
    by (simp add: Let_def pf.peek_poke val)
  have out: "pm_mem (copy_words (Suc n) pm dst src) a = pm_mem pm a" if "\<not> in_frame dst a" for a
    using IH(2) [OF that] that idx_in_frame [OF assms(1) n(1)] unfolding step by auto
  moreover have "pm_mem (copy_words (Suc n) pm dst src) (idx dst k) = (if unat k < Suc n then pm_mem pm (idx src k) else pm_mem pm (idx dst k))"
    if k: "k < 1024" for k
  proof (cases "unat k = n")
    case True
    then have "k = of_nat n" by auto
    then show ?thesis unfolding step by (simp add: n(2))
  next
    case False
    then have "idx dst k \<noteq> idx dst (of_nat n)" using idx_inj [OF assms(1) k n(1)] n(2) by auto
    then show ?thesis using IH(1) [OF k] False unfolding step by auto
  qed
  ultimately show ?case by blast
qed simp

lemma copy_words_owns:
  "phys_owns pm A \<Longrightarrow> dst \<in> A \<Longrightarrow> n \<le> 1024 \<Longrightarrow> phys_owns (copy_words n pm dst src) A"
proof (induction n)
  case (Suc n)
  have "is_frame dst" using pf.owned_frame [OF Suc.prems(1,2)] by blast
  then have "in_frame dst (idx dst (of_nat n))" using Suc.prems(3) by (intro idx_in_frame) (simp_all add: word_less_nat_alt)
  then show ?case using pf.poke_law [OF _ Suc.prems(2)] Suc by (simp add: Let_def)
qed simp

text \<open>\<open>same_frame pm p pm' p'\<close>: the frame \<open>p'\<close> has in \<open>pm'\<close> the contents of \<open>p\<close> in \<open>pm\<close>.\<close>

definition same_frame :: "phys \<Rightarrow> u32 \<Rightarrow> phys \<Rightarrow> u32 \<Rightarrow> bool" where
  "same_frame pm p pm' p' \<longleftrightarrow> (\<forall>k<1024. pm_mem pm' (idx p' k) = pm_mem pm (idx p k))"

text \<open>\<open>kept pm pm' D\<close>: the memory of the frames \<open>D\<close> has not changed.\<close>

definition kept :: "phys \<Rightarrow> phys \<Rightarrow> u32 set \<Rightarrow> bool" where
  "kept pm pm' D \<longleftrightarrow> (\<forall>q\<in>D. \<forall>a. in_frame q a \<longrightarrow> pm_mem pm' a = pm_mem pm a)"

lemma kept_idx: "kept pm pm' D \<Longrightarrow> q \<in> D \<Longrightarrow> is_frame q \<Longrightarrow> i < 1024 \<Longrightarrow> pm_mem pm' (idx q i) = pm_mem pm (idx q i)"
  using idx_in_frame by (auto simp: kept_def)

lemma kept_same_frame: "kept pm pm' D \<Longrightarrow> q \<in> D \<Longrightarrow> is_frame q \<Longrightarrow> same_frame pm q pm' q"
  by (simp add: same_frame_def kept_idx)

lemma kept_trans: "kept pm pm1 D \<Longrightarrow> kept pm1 pm2 D' \<Longrightarrow> D \<subseteq> D' \<Longrightarrow> kept pm pm2 D"
  by (auto simp: kept_def)

lemma kept_mono: "kept pm pm' D \<Longrightarrow> D' \<subseteq> D \<Longrightarrow> kept pm pm' D'"
  by (auto simp: kept_def)

lemma kept_refl [simp]: "kept pm pm D"
  by (simp add: kept_def)

lemma same_frame_trans: "same_frame pm p pm1 p1 \<Longrightarrow> same_frame pm1 p1 pm2 p2 \<Longrightarrow> same_frame pm p pm2 p2"
  by (simp add: same_frame_def)

lemma copy_frame_spec:
  assumes own: "phys_owns pm A" and p: "dst \<in> A" "is_frame src" "dst \<noteq> src"
  shows "phys_owns (copy_frame pm dst src) A" "same_frame pm src (copy_frame pm dst src) dst" "kept pm (copy_frame pm dst src) (A - {dst})"
proof -
  have d: "is_frame dst" using pf.owned_frame [OF own p(1)] by blast
  note c = copy_words_mem [OF d p(2,3), of 1024 pm]
  show "same_frame pm src (copy_frame pm dst src) dst"
    using c by (simp add: same_frame_def copy_frame_def word_less_nat_alt)
  show "kept pm (copy_frame pm dst src) (A - {dst})"
    using c pf.owned_apart [OF own _ p(1)] by (auto simp: kept_def copy_frame_def)
  show "phys_owns (copy_frame pm dst src) A" using copy_words_owns [OF own p(1)] by (simp add: copy_frame_def)
qed

lemma alloc_kept: "phys_owns pm A \<Longrightarrow> alloc_frame pm = Inr (p, pm1) \<Longrightarrow> kept pm pm1 A"
  using pf.alloc_keeps by (simp add: kept_def)

lemma alloc_fails: "phys_owns pm A \<Longrightarrow> alloc_frame pm = Inl f \<Longrightarrow> f = Panic ''no more frames''"
  using alloc_frame_spec [of _ pm A] by (auto simp: phys_owns_def)

section \<open>Free frames\<close>

text \<open>\<open>room lo pm A k\<close>: \<open>A\<close> are the frames in use, and at least \<open>k\<close> frames are not.\<close>

definition room :: "nat \<Rightarrow> phys \<Rightarrow> u32 set \<Rightarrow> nat \<Rightarrow> bool" where
  "room lo pm A k \<longleftrightarrow> phys_ok lo pm A \<and> card A + k \<le> card (frames lo (pm_limit pm))"

lemma room_owns: "room lo pm A k \<Longrightarrow> phys_owns pm A"
  by (auto simp: room_def phys_owns_def)

lemma room_alloc:
  assumes "room lo pm A (Suc k)"
  shows "\<exists>p pm1. alloc_frame pm = Inr (p, pm1) \<and> p \<notin> A \<and> room lo pm1 (insert p A) k"
proof -
  have ok: "phys_ok lo pm A" and c: "card A + Suc k \<le> card (frames lo (pm_limit pm))" using assms by (simp_all add: room_def)
  have "finite A" by (rule finite_subset [OF subset_UNIV finite])
  moreover have "A \<noteq> frames lo (pm_limit pm)" using c by auto
  ultimately show ?thesis using alloc_frame_spec [OF ok] c unfolding room_def by fastforce
qed

lemma room_write: "room lo pm A k \<Longrightarrow> q \<in> A \<Longrightarrow> in_frame q a \<Longrightarrow> room lo (pm_write pm a v) A k"
  using pm_write_ok by (simp add: room_def pm_write_def)

section \<open>Copying a page\<close>

text \<open>The entry \<open>e'\<close> has the flags of \<open>e\<close> and refers to a frame of \<open>D\<close> with the same contents.\<close>

definition page_copied :: "phys \<Rightarrow> u32 \<Rightarrow> phys \<Rightarrow> u32 \<Rightarrow> u32 set \<Rightarrow> bool" where
  "page_copied pm e pm' e' D \<longleftrightarrow>
     (if present e then e' AND 0xFFF = e AND 0xFFF \<and> frame_of e' \<in> D \<and> same_frame pm (frame_of e) pm' (frame_of e') else \<not> present e')"

lemma low_entry: "is_frame p \<Longrightarrow> ((x AND 0xFFF) OR p) AND 0xFFF = x AND 0xFFF"
  by (rule bit_word_eqI) (auto simp: bit_or_iff bit_and_iff dest: is_frame_bitD)

lemma present_low: "present (e AND 0xFFF) = present e"
  by (simp add: present_bit bit_and_iff)

lemma present_eq_low: "e' AND 0xFFF = e AND 0xFFF \<Longrightarrow> present e' = present e"
  using present_low [of e] present_low [of e'] by simp

text \<open>Both levels write the flags and the address of a new frame one after the other.\<close>

lemma write_entry:
  assumes own: "phys_owns pm A" and t: "t \<in> A" "i < 1024" and p: "is_frame p"
    and pm3: "pm3 = pm_write (pm_write pm (idx t i) (x AND 0xFFF)) (idx t i) (pm_mem (pm_write pm (idx t i) (x AND 0xFFF)) (idx t i) OR p)"
  shows "phys_owns pm3 A" "\<And>a. pm_mem pm3 a = (if a = idx t i then (x AND 0xFFF) OR p else pm_mem pm a)"
proof -
  have "in_frame t (idx t i)" using idx_in_frame [OF _ t(2)] pf.owned_frame [OF own t(1)] by blast
  then show "phys_owns pm3 A" unfolding pm3 by (intro pf.poke_law [OF _ t(1)] own)
  show "pm_mem pm3 a = (if a = idx t i then (x AND 0xFFF) OR p else pm_mem pm a)" for a
    by (simp add: pm3 pf.peek_poke)
qed

lemma copy_page_spec:
  assumes own: "phys_owns pm A" and t: "pt \<in> A" "new_pt \<in> A" "pt \<noteq> new_pt" and y: "y < 1024"
    and src: "present (pm_mem pm (idx pt y)) \<Longrightarrow> frame_of (pm_mem pm (idx pt y)) \<in> A - {new_pt}"
    and empty: "pm_mem pm (idx new_pt y) = 0" and r: "copy_page pm pt new_pt y = Inr pm'"
  shows "\<exists>A'. A \<subseteq> A' \<and> phys_owns pm' A' \<and> kept pm pm' (A - {new_pt}) \<and>
    (\<forall>j<1024. j \<noteq> y \<longrightarrow> pm_mem pm' (idx new_pt j) = pm_mem pm (idx new_pt j)) \<and>
    page_copied pm (pm_mem pm (idx pt y)) pm' (pm_mem pm' (idx new_pt y)) (A' - A)"
proof (cases "present (pm_mem pm (idx pt y))")
  case False
  then have "pm' = pm" using r by (simp add: copy_page_def Let_def)
  then show ?thesis using False own empty by (intro exI [of _ A]) (simp add: page_copied_def)
next
  case True
  let ?e = "pm_mem pm (idx pt y)"
  have fr: "is_frame q" if "q \<in> A" for q using pf.owned_frame [OF own that] by blast
  obtain p pm1 where al: "alloc_frame pm = Inr (p, pm1)" using r True by (auto simp: copy_page_def bindR_Inr_conv Let_def)
  have a: "p \<notin> A" "is_frame p" "phys_owns pm1 (insert p A)" using pf.alloc_law [OF own al] by auto
  have k1: "kept pm pm1 A" using alloc_kept [OF own al] .
  have e1: "pm_mem pm1 (idx pt y) = ?e" using kept_idx [OF k1 t(1) fr [OF t(1)] y] .
  define pm3 where "pm3 = pm_write (pm_write pm1 (idx new_pt y) (?e AND 0xFFF)) (idx new_pt y) (pm_mem (pm_write pm1 (idx new_pt y) (?e AND 0xFFF)) (idx new_pt y) OR p)"
  have pm': "pm' = copy_frame pm3 p (frame_of ?e)"
    using r True al e1 by (simp add: copy_page_def Let_def pm3_def frame_of_mask_num)
  have "new_pt \<in> insert p A" using t(2) by simp
  note w = write_entry [OF a(3) this y a(2) pm3_def]
  have k3: "kept pm1 pm3 (insert p A - {new_pt})"
    using w(2) pf.owned_apart [OF a(3) _ \<open>new_pt \<in> insert p A\<close>] idx_in_frame [OF fr [OF t(2)] y] by (auto simp: kept_def)
  have sf: "frame_of ?e \<in> A" "frame_of ?e \<noteq> new_pt" "p \<noteq> frame_of ?e" "new_pt \<noteq> p" using src True a(1) t(2) by auto
  note c = copy_frame_spec [OF w(1) insertI1 fr [OF sf(1)] sf(3), folded pm']
  have k4: "kept pm3 pm' A" using c(3) a(1) by simp
  have np: "pm_mem pm' (idx new_pt j) = pm_mem pm3 (idx new_pt j)" if "j < 1024" for j
    using kept_idx [OF k4 t(2) fr [OF t(2)] that] .
  have k: "kept pm pm3 (A - {new_pt})" using kept_trans [OF kept_mono [OF k1 Diff_subset] k3] by blast
  then have "kept pm pm' (A - {new_pt})" using kept_trans [OF _ k4] by blast
  moreover have "pm_mem pm' (idx new_pt j) = pm_mem pm (idx new_pt j)" if "j < 1024" "j \<noteq> y" for j
    using np [OF that(1)] w(2) idx_inj [OF fr [OF t(2)] that(1) y] that(2) kept_idx [OF k1 t(2) fr [OF t(2)] that(1)] by simp
  moreover have "page_copied pm ?e pm' (pm_mem pm' (idx new_pt y)) (insert p A - A)"
  proof -
    have "pm_mem pm' (idx new_pt y) = (?e AND 0xFFF) OR p" using np [OF y] w(2) by simp
    moreover have "same_frame pm (frame_of ?e) pm' p"
      using same_frame_trans [OF kept_same_frame [OF k _ fr [OF sf(1)]] c(2)] sf by blast
    ultimately show ?thesis using True a(1,2) by (simp add: page_copied_def low_entry frame_of_entry)
  qed
  moreover have "phys_owns pm' (insert p A)" using c(1) .
  ultimately show ?thesis by (intro exI [of _ "insert p A"]) auto
qed

section \<open>Copying a table\<close>

text \<open>
  \<open>table_copied n pm pt pm' pt' D\<close>: the first \<open>n\<close> entries are copied to different frames of \<open>D\<close>, the others are zero.
  \<open>table_frames\<close> are the table and the frames it refers to; \<open>table_in\<close> says that these are in a set.
\<close>

definition table_copied :: "nat \<Rightarrow> phys \<Rightarrow> u32 \<Rightarrow> phys \<Rightarrow> u32 \<Rightarrow> u32 set \<Rightarrow> bool" where
  "table_copied n pm pt pm' pt' D \<longleftrightarrow>
     (\<forall>j<1024. if unat j < n then page_copied pm (pm_mem pm (idx pt j)) pm' (pm_mem pm' (idx pt' j)) D else pm_mem pm' (idx pt' j) = 0) \<and>
     (\<forall>j<1024. \<forall>k<1024. present (pm_mem pm' (idx pt' j)) \<longrightarrow> present (pm_mem pm' (idx pt' k)) \<longrightarrow>
        frame_of (pm_mem pm' (idx pt' j)) = frame_of (pm_mem pm' (idx pt' k)) \<longrightarrow> j = k)"

definition table_frames :: "phys \<Rightarrow> u32 \<Rightarrow> u32 set" where
  "table_frames pm T = insert T {frame_of (pm_mem pm (idx T j)) |j. j < 1024 \<and> present (pm_mem pm (idx T j))}"

definition table_in :: "phys \<Rightarrow> u32 \<Rightarrow> u32 set \<Rightarrow> bool" where
  "table_in pm T D \<longleftrightarrow> table_frames pm T \<subseteq> D"

lemma table_inD:
  "table_in pm T D \<Longrightarrow> T \<in> D"
  "table_in pm T D \<Longrightarrow> j < 1024 \<Longrightarrow> present (pm_mem pm (idx T j)) \<Longrightarrow> frame_of (pm_mem pm (idx T j)) \<in> D"
  by (auto simp: table_in_def table_frames_def)

lemma kept_table_frames: "kept pm pm' D \<Longrightarrow> T \<in> D \<Longrightarrow> is_frame T \<Longrightarrow> table_frames pm' T = table_frames pm T"
  unfolding table_frames_def by (intro arg_cong [where f = "insert T"] Collect_cong) (metis kept_idx)

lemma page_copied_target:
  assumes "page_copied pm e pm1 e' D" "kept pm1 pm2 D" "\<And>q. q \<in> D \<Longrightarrow> is_frame q" "D \<subseteq> D'"
  shows "page_copied pm e pm2 e' D'"
proof -
  have "same_frame pm (frame_of e) pm2 (frame_of e')" if "present e"
  proof -
    have "frame_of e' \<in> D" "same_frame pm (frame_of e) pm1 (frame_of e')" using assms(1) that by (simp_all add: page_copied_def)
    then show ?thesis using same_frame_trans kept_same_frame [OF assms(2) _ assms(3)] by blast
  qed
  then show ?thesis using assms(1,4) by (auto simp: page_copied_def)
qed

lemma page_copied_source:
  assumes "page_copied pm1 e pm2 e' D" "present e \<Longrightarrow> same_frame pm (frame_of e) pm1 (frame_of e)"
  shows "page_copied pm e pm2 e' D"
  using assms same_frame_trans by (auto simp: page_copied_def)

lemma copy_table_spec:
  assumes own: "phys_owns pm A" and t: "new_pt \<in> A" "table_in pm pt (A - {new_pt})"
    and empty: "\<And>j. j < 1024 \<Longrightarrow> pm_mem pm (idx new_pt j) = 0"
  shows "n \<le> 1024 \<Longrightarrow> copy_table n pm pt new_pt = Inr pm' \<Longrightarrow>
    \<exists>A'. A \<subseteq> A' \<and> phys_owns pm' A' \<and> kept pm pm' (A - {new_pt}) \<and> table_copied n pm pt pm' new_pt (A' - A)"
proof (induction n arbitrary: pm')
  case 0
  then show ?case using own empty by (intro exI [of _ A]) (simp add: table_copied_def)
next
  case (Suc n)
  have fr: "is_frame q" if "q \<in> A" for q using pf.owned_frame [OF own that] by blast
  obtain pm1 where c: "copy_table n pm pt new_pt = Inr pm1" "copy_page pm1 pt new_pt (of_nat n) = Inr pm'"
    using Suc.prems(2) by (auto simp: bindR_Inr_conv)
  obtain A1 where IH: "A \<subseteq> A1" "phys_owns pm1 A1" "kept pm pm1 (A - {new_pt})" "table_copied n pm pt pm1 new_pt (A1 - A)"
    using Suc.IH [OF _ c(1)] Suc.prems(1) by auto
  define y where "y = (of_nat n :: u32)"
  have y: "y < 1024" "unat y = n" using Suc.prems(1) by (simp_all add: y_def word_less_nat_alt)
  have pt: "pt \<in> A" "pt \<noteq> new_pt" using table_inD(1) [OF t(2)] by auto
  have e: "pm_mem pm1 (idx pt j) = pm_mem pm (idx pt j)" if "j < 1024" for j
    using kept_idx [OF IH(3) _ fr [OF pt(1)] that] pt by blast
  let ?e = "pm_mem pm (idx pt y)"
  have src: "present ?e \<Longrightarrow> frame_of ?e \<in> A - {new_pt}" using table_inD(2) [OF t(2) y(1)] .
  have z: "pm_mem pm1 (idx new_pt j) = 0" if "j < 1024" "\<not> unat j < n" for j using IH(4) that by (simp add: table_copied_def)
  have "\<exists>A'. A1 \<subseteq> A' \<and> phys_owns pm' A' \<and> kept pm1 pm' (A1 - {new_pt}) \<and>
    (\<forall>j<1024. j \<noteq> y \<longrightarrow> pm_mem pm' (idx new_pt j) = pm_mem pm1 (idx new_pt j)) \<and>
    page_copied pm1 (pm_mem pm1 (idx pt y)) pm' (pm_mem pm' (idx new_pt y)) (A' - A1)"
    using src IH(1) by (intro copy_page_spec [OF IH(2) _ _ pt(2) y(1) _ _ c(2) [folded y_def]])
      (use pt t(1) z [OF y(1)] y(2) e [OF y(1)] in auto)
  then obtain A2 where s: "A1 \<subseteq> A2" "phys_owns pm' A2" "kept pm1 pm' (A1 - {new_pt})"
    "\<And>j. j < 1024 \<Longrightarrow> j \<noteq> y \<Longrightarrow> pm_mem pm' (idx new_pt j) = pm_mem pm1 (idx new_pt j)"
    "page_copied pm1 ?e pm' (pm_mem pm' (idx new_pt y)) (A2 - A1)" using e [OF y(1)] by auto
  have k: "kept pm pm' (A - {new_pt})" using kept_trans [OF IH(3) s(3)] IH(1) by blast
  have new: "page_copied pm ?e pm' (pm_mem pm' (idx new_pt y)) (A2 - A1)"
    by (rule page_copied_source [OF s(5)]) (use kept_same_frame [OF IH(3)] src fr in blast)
  have kD: "kept pm1 pm' (A1 - A)" using kept_mono [OF s(3)] t(1) by blast
  have old: "page_copied pm (pm_mem pm (idx pt j)) pm1 (pm_mem pm1 (idx new_pt j)) (A1 - A)" if "j < 1024" "unat j < n" for j
    using IH(4) that by (simp add: table_copied_def)
  have fr1: "is_frame q" if "q \<in> A1 - A" for q using pf.owned_frame [OF IH(2)] that by blast
  have "if unat j < Suc n then page_copied pm (pm_mem pm (idx pt j)) pm' (pm_mem pm' (idx new_pt j)) (A2 - A) else pm_mem pm' (idx new_pt j) = 0"
    if j: "j < 1024" for j
  proof (cases "j = y")
    case True
    have "page_copied pm ?e pm' (pm_mem pm' (idx new_pt y)) (A2 - A)"
      by (rule page_copied_target [OF new kept_refl]) (use pf.owned_frame [OF s(2)] IH(1) in auto)
    then show ?thesis using True y(2) by simp
  next
    case False
    then have "unat j < Suc n \<longleftrightarrow> unat j < n" using y(2) by (auto simp: less_Suc_eq word_unat_eq_iff)
    moreover have "page_copied pm (pm_mem pm (idx pt j)) pm' (pm_mem pm1 (idx new_pt j)) (A2 - A)" if "unat j < n"
      using page_copied_target [OF old [OF j that] kD fr1] s(1) by blast
    ultimately show ?thesis using s(4) [OF j False] z [OF j] by simp
  qed
  moreover have "j = k" if jk: "j < 1024" "k < 1024" and p: "present (pm_mem pm' (idx new_pt j))" "present (pm_mem pm' (idx new_pt k))"
    and eq: "frame_of (pm_mem pm' (idx new_pt j)) = frame_of (pm_mem pm' (idx new_pt k))" for j k
  proof -
    have o: "frame_of (pm_mem pm' (idx new_pt i)) \<in> A1" if "i < 1024" "i \<noteq> y" "present (pm_mem pm' (idx new_pt i))" for i
    proof -
      have "unat i < n" using z [OF that(1)] s(4) [OF that(1,2)] that(3) zero_not_present by metis
      then show ?thesis using old [OF that(1)] s(4) [OF that(1,2)] that(3) by (auto simp: page_copied_def split: if_splits)
    qed
    have n: "present (pm_mem pm' (idx new_pt y)) \<Longrightarrow> frame_of (pm_mem pm' (idx new_pt y)) \<notin> A1"
      using new by (auto simp: page_copied_def split: if_splits)
    show ?thesis
    proof (cases "j = y \<or> k = y")
      case True
      then show ?thesis using o [OF jk(1)] o [OF jk(2)] n p eq by metis
    next
      case False
      then show ?thesis using IH(4) jk p eq s(4) [OF jk(1)] s(4) [OF jk(2)] by (auto simp: table_copied_def)
    qed
  qed
  ultimately have "table_copied (Suc n) pm pt pm' new_pt (A2 - A)" by (simp add: table_copied_def)
  then show ?case using k s(1,2) IH(1) by (intro exI [of _ A2]) auto
qed

section \<open>Copying a directory\<close>

lemma table_copied_source:
  assumes "table_copied n pm1 pt pm2 pt' D" "kept pm pm1 E" "table_in pm pt E" "\<And>q. q \<in> E \<Longrightarrow> is_frame q"
  shows "table_copied n pm pt pm2 pt' D"
proof -
  have pt: "pt \<in> E" using table_inD(1) [OF assms(3)] .
  have e: "pm_mem pm1 (idx pt j) = pm_mem pm (idx pt j)" if "j < 1024" for j
    using kept_idx [OF assms(2) pt assms(4) [OF pt] that] .
  have "page_copied pm (pm_mem pm (idx pt j)) pm2 (pm_mem pm2 (idx pt' j)) D"
    if "j < 1024" "page_copied pm1 (pm_mem pm1 (idx pt j)) pm2 (pm_mem pm2 (idx pt' j)) D" for j
    using page_copied_source [of pm1 "pm_mem pm (idx pt j)" pm2 _ D pm] that e [OF that(1)]
      kept_same_frame [OF assms(2) _ assms(4)] table_inD(2) [OF assms(3) that(1)] by simp
  then show ?thesis using assms(1) unfolding table_copied_def by simp
qed

lemma table_copied_target:
  assumes "table_copied n pm pt pm1 pt' D" "kept pm1 pm2 (insert pt' D)" "\<And>q. q \<in> insert pt' D \<Longrightarrow> is_frame q"
  shows "table_copied n pm pt pm2 pt' D"
proof -
  have e: "pm_mem pm2 (idx pt' j) = pm_mem pm1 (idx pt' j)" if "j < 1024" for j
    using kept_idx [OF assms(2) _ assms(3) that] by blast
  have "page_copied pm (pm_mem pm (idx pt j)) pm2 (pm_mem pm1 (idx pt' j)) D"
    if "page_copied pm (pm_mem pm (idx pt j)) pm1 (pm_mem pm1 (idx pt' j)) D" for j
    by (rule page_copied_target [OF that kept_mono [OF assms(2)]]) (use assms(3) in auto)
  then show ?thesis using assms(1) e unfolding table_copied_def by simp
qed

text \<open>The entry of the new directory is made; then the loop over the table begins.\<close>

lemma copy_dir_entry_enter:
  assumes own: "phys_owns pm A" and d: "pd \<in> A" "new_pd \<in> A" "pd \<noteq> new_pd" and i: "i < 1024" and pr: "present (pde pm pd i)"
    and al: "alloc_frame pm = Inr (p, pm1)"
  shows "\<exists>pm3. copy_dir_entry pm pd new_pd i = copy_table 1024 pm3 (frame_of (pde pm pd i)) p \<and> phys_owns pm3 (insert p A) \<and>
    kept pm pm3 (A - {new_pd}) \<and> (\<forall>j<1024. pm_mem pm3 (idx p j) = 0) \<and>
    (\<forall>j<1024. pm_mem pm3 (idx new_pd j) = (if j = i then (pde pm pd i AND 0xFFF) OR p else pm_mem pm (idx new_pd j))) \<and>
    (\<forall>lo k. room lo pm1 (insert p A) k \<longrightarrow> room lo pm3 (insert p A) k)"
proof -
  let ?e = "pde pm pd i"
  have fr: "is_frame q" if "q \<in> A" for q using pf.owned_frame [OF own that] by blast
  have a: "p \<notin> A" "is_frame p" "phys_owns pm1 (insert p A)" "\<And>b. pm_mem pm1 b = (if in_frame p b then 0 else pm_mem pm b)"
    using pf.alloc_law [OF own al] by auto
  have k1: "kept pm pm1 A" using alloc_kept [OF own al] .
  have e1: "pm_mem pm1 (idx pd i) = ?e" unfolding pde_def using kept_idx [OF k1 d(1) fr [OF d(1)] i] .
  define pm3 where "pm3 = pm_write (pm_write pm1 (idx new_pd i) (?e AND 0xFFF)) (idx new_pd i) (pm_mem (pm_write pm1 (idx new_pd i) (?e AND 0xFFF)) (idx new_pd i) OR p)"
  have np: "new_pd \<in> insert p A" "p \<noteq> new_pd" using d(2) a(1) by auto
  note w = write_entry [OF a(3) np(1) i a(2) pm3_def]
  have "copy_dir_entry pm pd new_pd i = copy_table 1024 pm3 (frame_of ?e) p"
    using pr al e1 by (simp add: copy_dir_entry_def Let_def pde_def pm3_def frame_of_mask_num)
  moreover have k3: "kept pm1 pm3 (insert p A - {new_pd})"
    using w(2) pf.owned_apart [OF a(3) _ np(1)] idx_in_frame [OF fr [OF d(2)] i] by (auto simp: kept_def)
  then have "kept pm pm3 (A - {new_pd})" using kept_trans [OF kept_mono [OF k1 Diff_subset] k3] by blast
  moreover have "pm_mem pm3 (idx p j) = 0" if "j < 1024" for j
    using idx_apart [OF a(2) fr [OF d(2)] that i] np(2) w(2) a(4) idx_in_frame [OF a(2) that] by simp
  moreover have "pm_mem pm3 (idx new_pd j) = (if j = i then (?e AND 0xFFF) OR p else pm_mem pm (idx new_pd j))" if "j < 1024" for j
    using w(2) idx_inj [OF fr [OF d(2)] that i] kept_idx [OF k1 d(2) fr [OF d(2)] that] by simp
  moreover have "room lo pm3 (insert p A) k" if "room lo pm1 (insert p A) k" for lo k
    unfolding pm3_def using idx_in_frame [OF fr [OF d(2)] i] by (intro room_write [OF _ np(1)] that)
  ultimately show ?thesis using w(1) by (intro exI [of _ pm3]) simp
qed

lemma copy_dir_entry_spec:
  assumes own: "phys_owns pm A" and d: "pd \<in> A" "new_pd \<in> A" "pd \<noteq> new_pd" and i: "i < 1024"
    and src: "present (pde pm pd i) \<Longrightarrow> table_in pm (frame_of (pde pm pd i)) (A - {new_pd})"
    and r: "copy_dir_entry pm pd new_pd i = Inr pm'"
  shows "\<exists>A'. A \<subseteq> A' \<and> phys_owns pm' A' \<and> kept pm pm' (A - {new_pd}) \<and>
    (\<forall>k<1024. k \<noteq> i \<longrightarrow> pde pm' new_pd k = pde pm new_pd k) \<and>
    (if present (pde pm pd i)
     then pde pm' new_pd i AND 0xFFF = pde pm pd i AND 0xFFF \<and> table_in pm' (frame_of (pde pm' new_pd i)) (A' - A) \<and>
       table_copied 1024 pm (frame_of (pde pm pd i)) pm' (frame_of (pde pm' new_pd i)) (A' - A - {frame_of (pde pm' new_pd i)})
     else pde pm' new_pd i = pde pm new_pd i)"
proof (cases "present (pde pm pd i)")
  case False
  then have "pm' = pm" using r by (simp add: copy_dir_entry_def pde_def Let_def)
  then show ?thesis using False own by (intro exI [of _ A]) simp
next
  case True
  let ?e = "pde pm pd i"
  define pt where "pt = frame_of ?e"
  have fr: "is_frame q" if "q \<in> A" for q using pf.owned_frame [OF own that] by blast
  obtain p pm1 where al: "alloc_frame pm = Inr (p, pm1)"
    using r True by (auto simp: copy_dir_entry_def pde_def bindR_Inr_conv Let_def)
  have a: "p \<notin> A" "is_frame p" using pf.alloc_law [OF own al] by auto
  obtain pm3 where w: "copy_dir_entry pm pd new_pd i = copy_table 1024 pm3 pt p" "phys_owns pm3 (insert p A)" "kept pm pm3 (A - {new_pd})"
    "\<And>j. j < 1024 \<Longrightarrow> pm_mem pm3 (idx p j) = 0"
    "\<And>j. j < 1024 \<Longrightarrow> pm_mem pm3 (idx new_pd j) = (if j = i then (?e AND 0xFFF) OR p else pm_mem pm (idx new_pd j))"
    using copy_dir_entry_enter [OF own d i True al] unfolding pt_def by blast
  note k = w(3)
  have src': "table_in pm pt (A - {new_pd})" using src [OF True] by (simp add: pt_def)
  have "table_frames pm3 pt = table_frames pm pt"
    using kept_table_frames [OF k table_inD(1) [OF src'] fr] table_inD(1) [OF src'] by blast
  then have "table_in pm3 pt (insert p A - {p})" using src' a(1) unfolding table_in_def by auto
  from copy_table_spec [OF w(2) insertI1 this w(4) order_refl r [unfolded w(1)]]
  obtain A' where c: "insert p A \<subseteq> A'" "phys_owns pm' A'" "kept pm3 pm' (insert p A - {p})"
    "table_copied 1024 pm3 pt pm' p (A' - insert p A)"
    by blast
  have k4: "kept pm3 pm' A" using c(3) a(1) by simp
  have np: "pde pm' new_pd j = pm_mem pm3 (idx new_pd j)" if "j < 1024" for j
    unfolding pde_def using kept_idx [OF k4 d(2) fr [OF d(2)] that] .
  have e': "pde pm' new_pd i = (?e AND 0xFFF) OR p" using np [OF i] w(5) [OF i] by simp
  then have fe': "frame_of (pde pm' new_pd i) = p" using a(2) by (simp add: frame_of_entry)
  have tc: "table_copied 1024 pm pt pm' p (A' - insert p A)"
    by (rule table_copied_source [OF c(4) k src']) (use fr in auto)
  have "table_in pm' p (A' - A)"
  proof -
    have "frame_of (pm_mem pm' (idx p j)) \<in> A' - insert p A" if "j < 1024" "present (pm_mem pm' (idx p j))" for j
    proof -
      have "unat j < 1024" using that(1) by (simp add: word_less_nat_alt)
      then have "page_copied pm (pm_mem pm (idx pt j)) pm' (pm_mem pm' (idx p j)) (A' - insert p A)"
        using tc that(1) unfolding table_copied_def by auto
      then show ?thesis using that(2) by (simp add: page_copied_def split: if_splits)
    qed
    then show ?thesis using c(1) a(1) by (auto simp: table_in_def table_frames_def)
  qed
  moreover have "pde pm' new_pd j = pde pm new_pd j" if "j < 1024" "j \<noteq> i" for j
    using np [OF that(1)] w(5) [OF that(1)] that(2) by (simp add: pde_def)
  moreover have "kept pm pm' (A - {new_pd})" using kept_trans [OF k k4] by blast
  moreover have "A' - A - {p} = A' - insert p A" by blast
  ultimately show ?thesis
    using True c(1,2) tc e' a(2) fe' by (intro exI [of _ A']) (simp add: low_entry pt_def [symmetric])
qed

definition copied_entry :: "nat \<Rightarrow> phys \<Rightarrow> u32 \<Rightarrow> u32 \<Rightarrow> bool" where
  "copied_entry n pm pd i \<longleftrightarrow> 512 \<le> unat i \<and> unat i < 512 + n \<and> present (pde pm pd i)"

definition dir_copied :: "nat \<Rightarrow> phys \<Rightarrow> u32 \<Rightarrow> phys \<Rightarrow> u32 \<Rightarrow> u32 set \<Rightarrow> bool" where
  "dir_copied n pm pd pm' pd' D \<longleftrightarrow>
     (\<forall>i<1024. if copied_entry n pm pd i
        then pde pm' pd' i AND 0xFFF = pde pm pd i AND 0xFFF \<and> table_in pm' (frame_of (pde pm' pd' i)) D \<and>
          table_copied 1024 pm (frame_of (pde pm pd i)) pm' (frame_of (pde pm' pd' i)) (D - {frame_of (pde pm' pd' i)})
        else pde pm' pd' i = pde pm pd' i) \<and>
     (\<forall>i j. copied_entry n pm pd i \<longrightarrow> copied_entry n pm pd j \<longrightarrow> i < 1024 \<longrightarrow> j < 1024 \<longrightarrow> i \<noteq> j \<longrightarrow>
        table_frames pm' (frame_of (pde pm' pd' i)) \<inter> table_frames pm' (frame_of (pde pm' pd' j)) = {})"

lemma copied_entry_0 [simp]: "\<not> copied_entry 0 pm pd i"
  by (auto simp: copied_entry_def)

lemma copied_entry_Suc:
  assumes "unat i = 512 + n"
  shows "copied_entry (Suc n) pm pd k \<longleftrightarrow> (if k = i then present (pde pm pd i) else copied_entry n pm pd k)"
proof (cases "k = i")
  case False
  then have "unat k \<noteq> 512 + n" using assms by (simp add: word_unat_eq_iff)
  then show ?thesis using False by (auto simp: copied_entry_def)
qed (use assms in \<open>simp add: copied_entry_def\<close>)

lemma table_copied_mono: "table_copied n pm pt pm' pt' D \<Longrightarrow> D \<subseteq> D' \<Longrightarrow> table_copied n pm pt pm' pt' D'"
  unfolding table_copied_def page_copied_def by (auto split: if_splits)

lemma table_in_mono: "table_in pm T D \<Longrightarrow> D \<subseteq> D' \<Longrightarrow> table_in pm T D'"
  unfolding table_in_def by (rule subset_trans)

lemma table_in_target:
  assumes "table_in pm1 T D" "kept pm1 pm2 D" "\<And>q. q \<in> D \<Longrightarrow> is_frame q"
  shows "table_in pm2 T D" "table_frames pm2 T = table_frames pm1 T"
  using kept_table_frames [OF assms(2) table_inD(1) [OF assms(1)] assms(3)] table_inD(1) [OF assms(1)] assms(1) by (auto simp: table_in_def)

lemma copy_dir_spec:
  assumes own: "phys_owns pm A" and d: "pd \<in> A" "new_pd \<in> A" "pd \<noteq> new_pd"
    and src: "\<And>i. i < 1024 \<Longrightarrow> copied_entry 448 pm pd i \<Longrightarrow> table_in pm (frame_of (pde pm pd i)) (A - {new_pd})"
  shows "n \<le> 448 \<Longrightarrow> copy_dir n pm pd new_pd = Inr pm' \<Longrightarrow>
    \<exists>A'. A \<subseteq> A' \<and> phys_owns pm' A' \<and> kept pm pm' (A - {new_pd}) \<and> dir_copied n pm pd pm' new_pd (A' - A)"
proof (induction n arbitrary: pm')
  case 0
  then show ?case using own by (intro exI [of _ A]) (simp add: dir_copied_def)
next
  case (Suc n)
  have fr: "is_frame q" if "q \<in> A" for q using pf.owned_frame [OF own that] by blast
  define i where "i = of_nat n + (0x200 :: u32)"
  have i: "unat i = 512 + n" "i < 1024" using Suc.prems(1) by (simp_all add: i_def word_less_nat_alt unat_plus_no_wrap)
  obtain pm1 where c: "copy_dir n pm pd new_pd = Inr pm1" "copy_dir_entry pm1 pd new_pd i = Inr pm'"
    using Suc.prems(2) by (auto simp: bindR_Inr_conv i_def)
  obtain A1 where IH: "A \<subseteq> A1" "phys_owns pm1 A1" "kept pm pm1 (A - {new_pd})" "dir_copied n pm pd pm1 new_pd (A1 - A)"
    using Suc.IH [OF _ c(1)] Suc.prems(1) by auto
  have fr1: "is_frame q" if "q \<in> A1" for q using pf.owned_frame [OF IH(2) that] by blast
  have e: "pde pm1 pd i = pde pm pd i" unfolding pde_def using kept_idx [OF IH(3) _ fr [OF d(1)] i(2)] d by blast
  let ?e = "pde pm pd i"
  have src': "table_in pm (frame_of ?e) (A - {new_pd})" if "present ?e"
    using src [OF i(2)] that i(1) Suc.prems(1) by (simp add: copied_entry_def)
  have src1: "table_in pm1 (frame_of ?e) (A1 - {new_pd})" if "present ?e"
    using table_in_target(1) [OF src' [OF that] IH(3)] fr IH(1) by (auto simp: table_in_def)
  obtain A2 where s: "A1 \<subseteq> A2" "phys_owns pm' A2" "kept pm1 pm' (A1 - {new_pd})"
    "\<And>k. k < 1024 \<Longrightarrow> k \<noteq> i \<Longrightarrow> pde pm' new_pd k = pde pm1 new_pd k"
    "if present ?e then pde pm' new_pd i AND 0xFFF = ?e AND 0xFFF \<and> table_in pm' (frame_of (pde pm' new_pd i)) (A2 - A1) \<and>
       table_copied 1024 pm1 (frame_of ?e) pm' (frame_of (pde pm' new_pd i)) (A2 - A1 - {frame_of (pde pm' new_pd i)})
     else pde pm' new_pd i = pde pm1 new_pd i"
    using copy_dir_entry_spec [OF IH(2) _ _ d(3) i(2) _ c(2), unfolded e] src1 IH(1) d by blast
  have k: "kept pm pm' (A - {new_pd})" using kept_trans [OF IH(3) s(3)] IH(1) by blast
  have kD: "kept pm1 pm' (A1 - A)" using kept_mono [OF s(3)] d(2) by blast
  have ce: "copied_entry (Suc n) pm pd k \<longleftrightarrow> (if k = i then present ?e else copied_entry n pm pd k)" for k
    by (rule copied_entry_Suc [OF i(1)])
  have old: "pde pm1 new_pd k AND 0xFFF = pde pm pd k AND 0xFFF" "table_in pm1 (frame_of (pde pm1 new_pd k)) (A1 - A)"
    "table_copied 1024 pm (frame_of (pde pm pd k)) pm1 (frame_of (pde pm1 new_pd k)) (A1 - A - {frame_of (pde pm1 new_pd k)})"
    if "k < 1024" "copied_entry n pm pd k" for k using IH(4) that by (simp_all add: dir_copied_def)
  have old': "table_in pm' (frame_of (pde pm1 new_pd k)) (A1 - A)" "table_frames pm' (frame_of (pde pm1 new_pd k)) = table_frames pm1 (frame_of (pde pm1 new_pd k))"
    "table_copied 1024 pm (frame_of (pde pm pd k)) pm' (frame_of (pde pm1 new_pd k)) (A1 - A - {frame_of (pde pm1 new_pd k)})"
    if h: "k < 1024" "copied_entry n pm pd k" for k
  proof -
    show "table_in pm' (frame_of (pde pm1 new_pd k)) (A1 - A)" "table_frames pm' (frame_of (pde pm1 new_pd k)) = table_frames pm1 (frame_of (pde pm1 new_pd k))"
      using table_in_target [OF old(2) [OF h] kD] fr1 by blast+
    have "insert (frame_of (pde pm1 new_pd k)) (A1 - A - {frame_of (pde pm1 new_pd k)}) = A1 - A" using table_inD(1) [OF old(2) [OF h]] by blast
    then show "table_copied 1024 pm (frame_of (pde pm pd k)) pm' (frame_of (pde pm1 new_pd k)) (A1 - A - {frame_of (pde pm1 new_pd k)})"
      using table_copied_target [OF old(3) [OF h]] kD fr1 by simp
  qed
  have new: "table_copied 1024 pm (frame_of ?e) pm' (frame_of (pde pm' new_pd i)) (A2 - A1 - {frame_of (pde pm' new_pd i)})" if "present ?e"
    by (rule table_copied_source [OF _ IH(3) src' [OF that]]) (use s(5) that fr in auto)
  have "if copied_entry (Suc n) pm pd k
        then pde pm' new_pd k AND 0xFFF = pde pm pd k AND 0xFFF \<and> table_in pm' (frame_of (pde pm' new_pd k)) (A2 - A) \<and>
          table_copied 1024 pm (frame_of (pde pm pd k)) pm' (frame_of (pde pm' new_pd k)) (A2 - A - {frame_of (pde pm' new_pd k)})
        else pde pm' new_pd k = pde pm new_pd k" if k: "k < 1024" for k
  proof (cases "k = i")
    case True
    have m: "A2 - A1 - {x} \<subseteq> A2 - A - {x}" "A2 - A1 \<subseteq> A2 - A" for x using IH(1) by auto
    have "\<not> present ?e \<Longrightarrow> pde pm' new_pd i = pde pm new_pd i"
      using s(5) IH(4) i by (simp add: dir_copied_def copied_entry_def)
    then show ?thesis
      using s(5) table_copied_mono [OF new m(1)] table_in_mono [OF _ m(2)] True ce [of i] by (simp split: if_splits)
  next
    case False
    have m: "A1 - A - {x} \<subseteq> A2 - A - {x}" "A1 - A \<subseteq> A2 - A" for x using s(1) by auto
    have "\<not> copied_entry n pm pd k \<Longrightarrow> pde pm1 new_pd k = pde pm new_pd k" using IH(4) k by (simp add: dir_copied_def)
    then show ?thesis
      using old(1) [OF k] table_in_mono [OF old'(1) [OF k] m(2)] table_copied_mono [OF old'(3) [OF k] m(1)] s(4) [OF k False] ce [of k] False by simp
  qed
  moreover have "table_frames pm' (frame_of (pde pm' new_pd j)) \<inter> table_frames pm' (frame_of (pde pm' new_pd k)) = {}"
    if h: "copied_entry (Suc n) pm pd j" "copied_entry (Suc n) pm pd k" "j < 1024" "k < 1024" "j \<noteq> k" for j k
  proof -
    have o: "table_frames pm' (frame_of (pde pm' new_pd l)) \<subseteq> A1" if "l < 1024" "l \<noteq> i" "copied_entry (Suc n) pm pd l" for l
      using old'(1) [OF that(1)] s(4) [OF that(1,2)] ce [of l] that by (auto simp: table_in_def)
    have n: "table_frames pm' (frame_of (pde pm' new_pd i)) \<inter> A1 = {}" if "copied_entry (Suc n) pm pd i"
      using s(5) ce [of i] that by (auto simp: table_in_def)
    show ?thesis
    proof (cases "j = i \<or> k = i")
      case True
      then show ?thesis using o [OF h(3)] o [OF h(4)] n h by blast
    next
      case False
      then have "copied_entry n pm pd j" "copied_entry n pm pd k" using ce h(1,2) by simp_all
      then have "table_frames pm1 (frame_of (pde pm1 new_pd j)) \<inter> table_frames pm1 (frame_of (pde pm1 new_pd k)) = {}"
        using IH(4) h(3-5) by (simp add: dir_copied_def)
      then show ?thesis
        using old'(2) [OF h(3)] old'(2) [OF h(4)] \<open>copied_entry n pm pd j\<close> \<open>copied_entry n pm pd k\<close> s(4) h(3,4) False by simp
    qed
  qed
  ultimately have "dir_copied (Suc n) pm pd pm' new_pd (A2 - A)" by (simp add: dir_copied_def)
  then show ?case using k s(1,2) IH(1) by (intro exI [of _ A2]) auto
qed

section \<open>Failure\<close>

lemma copy_page_fails: "phys_owns pm A \<Longrightarrow> copy_page pm pt new_pt y = Inl f \<Longrightarrow> f = Panic ''no more frames''"
  using alloc_fails by (auto simp: copy_page_def bindR_Inl_conv Let_def split: if_splits)

lemma copy_table_fails:
  assumes own: "phys_owns pm A" and t: "new_pt \<in> A" "table_in pm pt (A - {new_pt})" and empty: "\<And>j. j < 1024 \<Longrightarrow> pm_mem pm (idx new_pt j) = 0"
  shows "n \<le> 1024 \<Longrightarrow> copy_table n pm pt new_pt = Inl f \<Longrightarrow> f = Panic ''no more frames''"
proof (induction n)
  case (Suc n)
  then consider "copy_table n pm pt new_pt = Inl f" | pm1 where "copy_table n pm pt new_pt = Inr pm1" "copy_page pm1 pt new_pt (of_nat n) = Inl f"
    by (auto simp: bindR_Inl_conv)
  then show ?case
  proof cases
    case 2
    then show ?thesis using copy_table_spec [OF assms _ 2(1)] copy_page_fails [OF _ 2(2)] Suc.prems(1) by auto
  qed (use Suc in auto)
qed simp

lemma copy_dir_entry_fails:
  assumes own: "phys_owns pm A" and d: "pd \<in> A" "new_pd \<in> A" "pd \<noteq> new_pd" and i: "i < 1024"
    and src: "present (pde pm pd i) \<Longrightarrow> table_in pm (frame_of (pde pm pd i)) (A - {new_pd})"
    and r: "copy_dir_entry pm pd new_pd i = Inl f"
  shows "f = Panic ''no more frames''"
proof (cases "present (pde pm pd i) \<and> (\<exists>x. alloc_frame pm = Inr x)")
  case False
  then show ?thesis using r alloc_fails [OF own] by (cases "alloc_frame pm") (auto simp: copy_dir_entry_def pde_def Let_def split: if_splits)
next
  case True
  then obtain p pm1 where al: "alloc_frame pm = Inr (p, pm1)" by auto
  have a: "p \<notin> A" using pf.alloc_law [OF own al] by auto
  obtain pm3 where w: "copy_dir_entry pm pd new_pd i = copy_table 1024 pm3 (frame_of (pde pm pd i)) p" "phys_owns pm3 (insert p A)"
    "kept pm pm3 (A - {new_pd})" "\<And>j. j < 1024 \<Longrightarrow> pm_mem pm3 (idx p j) = 0"
    using copy_dir_entry_enter [OF own d i _ al] True by blast
  have "table_in pm3 (frame_of (pde pm pd i)) (A - {new_pd})"
    using table_in_target(1) [OF src w(3)] True pf.owned_frame [OF own] by blast
  then have "table_in pm3 (frame_of (pde pm pd i)) (insert p A - {p})" using a by (auto simp: table_in_def)
  from copy_table_fails [OF w(2) insertI1 this w(4) order_refl r [unfolded w(1)]] show ?thesis .
qed

lemma copy_dir_fails:
  assumes own: "phys_owns pm A" and d: "pd \<in> A" "new_pd \<in> A" "pd \<noteq> new_pd"
    and src: "\<And>i. i < 1024 \<Longrightarrow> copied_entry 448 pm pd i \<Longrightarrow> table_in pm (frame_of (pde pm pd i)) (A - {new_pd})"
  shows "n \<le> 448 \<Longrightarrow> copy_dir n pm pd new_pd = Inl f \<Longrightarrow> f = Panic ''no more frames''"
proof (induction n)
  case (Suc n)
  have fr: "is_frame q" if "q \<in> A" for q using pf.owned_frame [OF own that] by blast
  define i where "i = of_nat n + (0x200 :: u32)"
  have i: "unat i = 512 + n" "i < 1024" using Suc.prems(1) by (simp_all add: i_def word_less_nat_alt unat_plus_no_wrap)
  consider "copy_dir n pm pd new_pd = Inl f" | pm1 where "copy_dir n pm pd new_pd = Inr pm1" "copy_dir_entry pm1 pd new_pd i = Inl f"
    using Suc.prems(2) by (auto simp: bindR_Inl_conv i_def)
  then show ?case
  proof cases
    case 2
    obtain A1 where A1: "A \<subseteq> A1" "phys_owns pm1 A1" "kept pm pm1 (A - {new_pd})"
      using copy_dir_spec [OF assms _ 2(1)] Suc.prems(1) by auto
    have e: "pde pm1 pd i = pde pm pd i" unfolding pde_def using kept_idx [OF A1(3) _ fr [OF d(1)] i(2)] d by blast
    have "table_in pm1 (frame_of (pde pm pd i)) (A1 - {new_pd})" if "present (pde pm pd i)"
    proof -
      have "table_in pm (frame_of (pde pm pd i)) (A - {new_pd})"
        using src [OF i(2)] that i(1) Suc.prems(1) by (simp add: copied_entry_def)
      then show ?thesis using table_in_target(1) [OF _ A1(3)] fr A1(1) unfolding table_in_def by blast
    qed
    then show ?thesis using copy_dir_entry_fails [OF A1(2) _ _ d(3) i(2) _ 2(2)] e A1(1) d by auto
  qed (use Suc in auto)
qed simp

section \<open>Success\<close>

definition pages_needed :: "phys \<Rightarrow> u32 \<Rightarrow> nat \<Rightarrow> nat" where
  "pages_needed pm pt n = length (filter (\<lambda>j. present (pm_mem pm (idx pt (of_nat j)))) [0 ..< n])"

definition frames_needed :: "phys \<Rightarrow> u32 \<Rightarrow> nat \<Rightarrow> nat" where
  "frames_needed pm pd n =
     sum_list (map (\<lambda>i. let e = pde pm pd (of_nat i + 0x200) in if present e then Suc (pages_needed pm (frame_of e) 1024) else 0) [0 ..< n])"

lemma room_copy_words:
  "room lo pm A k \<Longrightarrow> dst \<in> A \<Longrightarrow> n \<le> 1024 \<Longrightarrow> room lo (copy_words n pm dst src) A k"
proof (induction n)
  case (Suc n)
  have "is_frame dst" using pf.owned_frame [OF room_owns [OF Suc.prems(1)] Suc.prems(2)] by blast
  then have "in_frame dst (idx dst (of_nat n))" using Suc.prems(3) by (intro idx_in_frame) (simp_all add: word_less_nat_alt)
  then show ?case using room_write [OF _ Suc.prems(2)] Suc by (simp add: Let_def)
qed simp

lemma room_mono: "room lo pm A k \<Longrightarrow> k' \<le> k \<Longrightarrow> room lo pm A k'"
  by (simp add: room_def)

lemma copy_page_succeeds:
  assumes r: "room lo pm A ((if present (pm_mem pm (idx pt y)) then 1 else 0) + k)" and t: "new_pt \<in> A" "y < 1024"
  shows "\<exists>pm' A'. copy_page pm pt new_pt y = Inr pm' \<and> A \<subseteq> A' \<and> room lo pm' A' k"
proof (cases "present (pm_mem pm (idx pt y))")
  case True
  then obtain p pm1 where al: "alloc_frame pm = Inr (p, pm1)" "room lo pm1 (insert p A) k" using room_alloc [of lo pm A k] r by auto
  have "in_frame new_pt (idx new_pt y)" using pf.owned_frame [OF room_owns [OF r] t(1)] idx_in_frame t(2) by blast
  then have "room lo (pm_write (pm_write pm1 (idx new_pt y) v) (idx new_pt y) w) (insert p A) k" for v w
    using al(2) t(1) by (auto intro: room_write)
  then show ?thesis
    using True al(1) by (auto simp: copy_page_def Let_def copy_frame_def intro!: exI [of _ "insert p A"] room_copy_words)
next
  case False
  then show ?thesis using r by (auto simp: copy_page_def Let_def)
qed

lemma pages_needed_Suc:
  "pages_needed pm pt (Suc n) = pages_needed pm pt n + (if present (pm_mem pm (idx pt (of_nat n))) then 1 else 0)"
  by (simp add: pages_needed_def)

lemma kept_pages_needed:
  assumes "kept pm pm' D" "T \<in> D" "is_frame T"
  shows "pages_needed pm' T 1024 = pages_needed pm T 1024"
proof -
  have "pm_mem pm' (idx T (of_nat j)) = pm_mem pm (idx T (of_nat j))" if "j \<in> set [0 ..< 1024]" for j
    using kept_idx [OF assms, of "of_nat j"] that by (simp add: word_less_nat_alt)
  then show ?thesis unfolding pages_needed_def by (intro arg_cong [where f = length] filter_cong) auto
qed

lemma copy_table_succeeds:
  assumes t: "new_pt \<in> A" "table_in pm pt (A - {new_pt})" and empty: "\<And>j. j < 1024 \<Longrightarrow> pm_mem pm (idx new_pt j) = 0"
  shows "n \<le> 1024 \<Longrightarrow> room lo pm A (pages_needed pm pt n + k) \<Longrightarrow>
    \<exists>pm' A'. copy_table n pm pt new_pt = Inr pm' \<and> A \<subseteq> A' \<and> room lo pm' A' k"
proof (induction n arbitrary: k)
  case 0
  then show ?case by (auto simp: pages_needed_def)
next
  case (Suc n)
  let ?k = "(if present (pm_mem pm (idx pt (of_nat n))) then 1 else 0) + k"
  obtain pm1 A1 where c: "copy_table n pm pt new_pt = Inr pm1" "A \<subseteq> A1" "room lo pm1 A1 ?k"
    using Suc.IH [of ?k] Suc.prems by (auto simp: pages_needed_Suc add.assoc)
  have own: "phys_owns pm A" using room_owns [OF Suc.prems(2)] .
  have n: "n \<le> 1024" "(of_nat n :: u32) < 1024" using Suc.prems(1) by (simp_all add: word_less_nat_alt)
  have pt: "pt \<in> A - {new_pt}" "is_frame pt" using table_inD(1) [OF t(2)] pf.owned_frame [OF own] by auto
  have "kept pm pm1 (A - {new_pt})" using copy_table_spec [OF own t empty n(1) c(1)] by blast
  then have "pm_mem pm1 (idx pt (of_nat n)) = pm_mem pm (idx pt (of_nat n))" using kept_idx [OF _ pt n(2)] by blast
  then have "\<exists>pm' A'. copy_page pm1 pt new_pt (of_nat n) = Inr pm' \<and> A1 \<subseteq> A' \<and> room lo pm' A' k"
    using c(2,3) t(1) n(2) by (intro copy_page_succeeds) auto
  then show ?case using c(1,2) by auto
qed

lemma copy_dir_entry_succeeds:
  assumes d: "pd \<in> A" "new_pd \<in> A" "pd \<noteq> new_pd" "i < 1024"
    and src: "present (pde pm pd i) \<Longrightarrow> table_in pm (frame_of (pde pm pd i)) (A - {new_pd})"
    and r: "room lo pm A ((if present (pde pm pd i) then Suc (pages_needed pm (frame_of (pde pm pd i)) 1024) else 0) + k)"
  shows "\<exists>pm' A'. copy_dir_entry pm pd new_pd i = Inr pm' \<and> A \<subseteq> A' \<and> room lo pm' A' k"
proof (cases "present (pde pm pd i)")
  case False
  then show ?thesis using r by (auto simp: copy_dir_entry_def pde_def Let_def)
next
  case True
  let ?pt = "frame_of (pde pm pd i)"
  have own: "phys_owns pm A" using room_owns [OF r] .
  obtain p pm1 where al: "alloc_frame pm = Inr (p, pm1)" "p \<notin> A" "room lo pm1 (insert p A) (pages_needed pm ?pt 1024 + k)"
    using room_alloc [of lo pm A "pages_needed pm ?pt 1024 + k"] r True by auto
  obtain pm3 where w: "copy_dir_entry pm pd new_pd i = copy_table 1024 pm3 ?pt p" "kept pm pm3 (A - {new_pd})"
    "\<And>j. j < 1024 \<Longrightarrow> pm_mem pm3 (idx p j) = 0" "room lo pm3 (insert p A) (pages_needed pm ?pt 1024 + k)"
    using copy_dir_entry_enter [OF own d True al(1)] al(3) by blast
  have fr: "is_frame q" if "q \<in> A - {new_pd}" for q using pf.owned_frame [OF own] that by blast
  have t: "table_in pm3 ?pt (A - {new_pd})" using table_in_target(1) [OF src [OF True] w(2) fr] .
  then have t3: "table_in pm3 ?pt (insert p A - {p})" by (rule table_in_mono) (use al(2) in auto)
  have "pages_needed pm3 ?pt 1024 = pages_needed pm ?pt 1024"
    using kept_pages_needed [OF w(2)] table_inD(1) [OF src [OF True]] fr by blast
  then have "\<exists>pm' A'. copy_table 1024 pm3 ?pt p = Inr pm' \<and> insert p A \<subseteq> A' \<and> room lo pm' A' k"
    using w(4) by (intro copy_table_succeeds [OF insertI1 t3 w(3)]) simp_all
  then show ?thesis using w(1) by auto
qed

lemma frames_needed_Suc:
  "frames_needed pm pd (Suc n) = frames_needed pm pd n +
     (let e = pde pm pd (of_nat n + 0x200) in if present e then Suc (pages_needed pm (frame_of e) 1024) else 0)"
  by (simp add: frames_needed_def)

lemma copy_dir_succeeds:
  assumes d: "pd \<in> A" "new_pd \<in> A" "pd \<noteq> new_pd"
    and src: "\<And>i. i < 1024 \<Longrightarrow> copied_entry 448 pm pd i \<Longrightarrow> table_in pm (frame_of (pde pm pd i)) (A - {new_pd})"
  shows "n \<le> 448 \<Longrightarrow> room lo pm A (frames_needed pm pd n + k) \<Longrightarrow>
    \<exists>pm' A'. copy_dir n pm pd new_pd = Inr pm' \<and> A \<subseteq> A' \<and> room lo pm' A' k"
proof (induction n arbitrary: k)
  case 0
  then show ?case by (auto simp: frames_needed_def)
next
  case (Suc n)
  define i where "i = of_nat n + (0x200 :: u32)"
  have i: "unat i = 512 + n" "i < 1024" using Suc.prems(1) by (simp_all add: i_def word_less_nat_alt unat_plus_no_wrap)
  have own: "phys_owns pm A" using room_owns [OF Suc.prems(2)] .
  have fr: "is_frame q" if "q \<in> A - {new_pd}" for q using pf.owned_frame [OF own] that by blast
  let ?m = "if present (pde pm pd i) then Suc (pages_needed pm (frame_of (pde pm pd i)) 1024) else 0"
  have "n \<le> 448" using Suc.prems(1) by simp
  moreover have "room lo pm A (frames_needed pm pd n + (?m + k))"
    using Suc.prems(2) unfolding frames_needed_Suc Let_def i_def by (simp only: add.assoc)
  ultimately have "\<exists>pm1 A1. copy_dir n pm pd new_pd = Inr pm1 \<and> A \<subseteq> A1 \<and> room lo pm1 A1 (?m + k)" by (rule Suc.IH)
  then obtain pm1 A1 where c: "copy_dir n pm pd new_pd = Inr pm1" "A \<subseteq> A1" "room lo pm1 A1 (?m + k)" by blast
  have k: "kept pm pm1 (A - {new_pd})" using copy_dir_spec [OF own d src _ c(1)] Suc.prems(1) by auto
  have e: "pde pm1 pd i = pde pm pd i" unfolding pde_def using kept_idx [OF k _ fr i(2)] d by blast
  have s: "table_in pm (frame_of (pde pm pd i)) (A - {new_pd})" if "present (pde pm pd i)"
    using src [OF i(2)] that i(1) Suc.prems(1) by (simp add: copied_entry_def)
  have "table_in pm1 (frame_of (pde pm pd i)) (A1 - {new_pd})" if "present (pde pm pd i)"
    by (rule table_in_mono [OF table_in_target(1) [OF s [OF that] k fr]]) (use c(2) in auto)
  moreover have "pages_needed pm1 (frame_of (pde pm pd i)) 1024 = pages_needed pm (frame_of (pde pm pd i)) 1024" if "present (pde pm pd i)"
    using kept_pages_needed [OF k table_inD(1) [OF s [OF that]]] table_inD(1) [OF s [OF that]] fr by blast
  ultimately have "\<exists>pm' A'. copy_dir_entry pm1 pd new_pd i = Inr pm' \<and> A1 \<subseteq> A' \<and> room lo pm' A' k"
    using c(2,3) d i(2) by (intro copy_dir_entry_succeeds) (auto simp: e split: if_splits)
  then show ?case using c(1,2) by (auto simp: i_def)
qed

section \<open>The address space of a child\<close>

text \<open>Lines 120 and 121 of \<open>sys.cc\<close>, in \<open>fork\<close>.\<close>

definition fork_directory :: "phys \<Rightarrow> u32 \<Rightarrow> u32 \<Rightarrow> (u32 \<times> phys) res" where
  "fork_directory pm global_page_directory parent_pd =
     bindR (new_page_directory pm global_page_directory) (\<lambda>(child_pd, pm1).
     bindR (copy_page_directory pm1 parent_pd child_pd) (\<lambda>pm2. Inr (child_pd, pm2)))"

text \<open>What a process sees at a page: the flags of the entry and the words of the frame.\<close>

definition page_words :: "phys \<Rightarrow> u32 \<Rightarrow> u32 list" where
  "page_words pm p = map (\<lambda>k. pm_mem pm (idx p (of_nat k))) [0 ..< 1024]"

definition user_page :: "phys \<Rightarrow> u32 \<Rightarrow> u32 \<Rightarrow> (u32 \<times> u32 list) option" where
  "user_page pm PD v = map_option (\<lambda>e. (e AND 0xFFF, page_words pm (frame_of e))) (walk pm PD v)"

definition private_vpn :: "u32 \<Rightarrow> bool" where
  "private_vpn v \<longleftrightarrow> 0x80000 \<le> unat v \<and> unat v < 0xF0000"

lemma same_frame_words: "same_frame pm p pm' p' \<longleftrightarrow> page_words pm' p' = page_words pm p"
proof
  assume "same_frame pm p pm' p'"
  then show "page_words pm' p' = page_words pm p" by (simp add: same_frame_def page_words_def word_less_nat_alt)
next
  assume h: "page_words pm' p' = page_words pm p"
  have "pm_mem pm' (idx p' k) = pm_mem pm (idx p k)" if "k < 1024" for k
  proof -
    have k: "unat k < 1024" using that by (simp add: word_less_nat_alt)
    have "page_words pm' p' ! unat k = page_words pm p ! unat k" using h by simp
    then show ?thesis using k by (simp add: page_words_def)
  qed
  then show "same_frame pm p pm' p'" by (simp add: same_frame_def)
qed

lemma private_split:
  assumes "private_vpn v"
  shows "is_vpn v" "drop_bit 10 v < (1024 :: u32)" "v AND 0x3FF < (1024 :: u32)" "unat (v AND 0x3FF) < 1024"
    "present (pde pm PD (drop_bit 10 v)) \<Longrightarrow> copied_entry 448 pm PD (drop_bit 10 v)"
proof -
  show v: "is_vpn v" using assms by (simp add: private_vpn_def is_vpn_def)
  show "drop_bit 10 v < (1024 :: u32)" "v AND 0x3FF < (1024 :: u32)" using vpn_split [OF v] .
  then show "unat (v AND 0x3FF) < 1024" by (simp add: word_less_nat_alt)
  have "512 \<le> unat v div 1024" "unat v div 1024 < 960" using assms by (auto simp: private_vpn_def)
  then show "copied_entry 448 pm PD (drop_bit 10 v)" if "present (pde pm PD (drop_bit 10 v))"
    using that by (simp add: copied_entry_def vpn_unat)
qed

text \<open>Every pair of indices is a private page.\<close>

lemma vpn_of_indices:
  assumes "512 \<le> unat i" "unat i < 960" "j < (1024 :: u32)"
  shows "\<exists>v. private_vpn v \<and> drop_bit 10 v = i \<and> v AND 0x3FF = (j :: u32)"
proof -
  have j: "unat j < 1024" using assms(3) by (simp add: word_less_nat_alt)
  let ?n = "unat i * 1024 + unat j"
  have n: "?n < 0xF0000" "0x80000 \<le> ?n" using assms(1,2) j by linarith+
  then have u: "unat (of_nat ?n :: u32) = ?n" by (intro unat_of_nat_u32) simp
  have "drop_bit 10 (of_nat ?n :: u32) = i" using vpn_unat(1) [of "of_nat ?n"] u j by (simp add: word_unat_eq_iff)
  moreover have "(of_nat ?n :: u32) AND 0x3FF = j" using vpn_unat(2) [of "of_nat ?n"] u j by (simp add: word_unat_eq_iff)
  moreover have "private_vpn (of_nat ?n)" unfolding private_vpn_def u using n by simp
  ultimately show ?thesis by blast
qed

text \<open>The walks of a copied directory.\<close>

lemma dir_copied_walk:
  assumes c: "dir_copied 448 pm pd pm' pd' D" and v: "private_vpn v" and np: "\<not> present (pde pm pd (drop_bit 10 v)) \<Longrightarrow> \<not> present (pde pm pd' (drop_bit 10 v))"
  shows "user_page pm' pd' v = user_page pm pd v" "walk pm' pd' v = Some e' \<Longrightarrow> frame_of e' \<in> D"
proof -
  define i where "i = drop_bit 10 v"
  define j where "j = v AND 0x3FF"
  have ij: "i < 1024" "j < 1024" "unat j < 1024" using private_split [OF v] by (auto simp: i_def j_def)
  let ?T = "frame_of (pde pm pd i)" and ?T' = "frame_of (pde pm' pd' i)"
  have "user_page pm' pd' v = user_page pm pd v \<and> (\<forall>e'. walk pm' pd' v = Some e' \<longrightarrow> frame_of e' \<in> D)"
  proof (cases "present (pde pm pd i)")
    case True
    then have "copied_entry 448 pm pd i" using private_split(5) [OF v] by (simp add: i_def)
    then have d: "pde pm' pd' i AND 0xFFF = pde pm pd i AND 0xFFF" "table_copied 1024 pm ?T pm' ?T' (D - {?T'})"
      using c ij(1) by (simp_all add: dir_copied_def)
    have p: "present (pde pm' pd' i)" using present_eq_low [OF d(1)] True by simp
    have "page_copied pm (pm_mem pm (idx ?T j)) pm' (pm_mem pm' (idx ?T' j)) (D - {?T'})"
      using d(2) ij(2,3) by (simp add: table_copied_def)
    then have pc: "page_copied pm (pm_mem pm (idx ?T j)) pm' (pm_mem pm' (idx ?T' j)) D" by (auto simp: page_copied_def)
    have w: "walk pm pd v = (if present (pm_mem pm (idx ?T j)) then Some (pm_mem pm (idx ?T j)) else None)"
      "walk pm' pd' v = (if present (pm_mem pm' (idx ?T' j)) then Some (pm_mem pm' (idx ?T' j)) else None)"
      using p True by (simp_all add: walk_def Let_def i_def j_def)
    show ?thesis
    proof (cases "present (pm_mem pm (idx ?T j))")
      case True
      then have l: "pm_mem pm' (idx ?T' j) AND 0xFFF = pm_mem pm (idx ?T j) AND 0xFFF" "frame_of (pm_mem pm' (idx ?T' j)) \<in> D"
        "page_words pm' (frame_of (pm_mem pm' (idx ?T' j))) = page_words pm (frame_of (pm_mem pm (idx ?T j)))"
        using pc by (simp_all add: page_copied_def same_frame_words)
      then show ?thesis using True present_eq_low [OF l(1)] by (simp add: user_page_def w)
    next
      case False
      then show ?thesis using pc by (simp add: user_page_def w page_copied_def)
    qed
  next
    case False
    then have "\<not> present (pde pm' pd' i)" using c ij(1) np by (simp add: dir_copied_def copied_entry_def i_def)
    then show ?thesis using False by (simp add: user_page_def walk_def Let_def i_def [symmetric])
  qed
  then show "user_page pm' pd' v = user_page pm pd v" "walk pm' pd' v = Some e' \<Longrightarrow> frame_of e' \<in> D" by auto
qed

lemma dir_copied_distinct:
  assumes c: "dir_copied 448 pm pd pm' pd' D" and v: "private_vpn v" "private_vpn w" "v \<noteq> w"
    and np: "\<And>i. 512 \<le> unat i \<Longrightarrow> unat i < 960 \<Longrightarrow> \<not> present (pde pm pd' i)"
    and e: "walk pm' pd' v = Some e" "walk pm' pd' w = Some f"
  shows "frame_of e \<noteq> frame_of f"
proof -
  have cp: "copied_entry 448 pm pd (drop_bit 10 u)" if u: "private_vpn u" "walk pm' pd' u = Some g" for u g
  proof (rule ccontr)
    assume n: "\<not> copied_entry 448 pm pd (drop_bit 10 u)"
    then have "pde pm' pd' (drop_bit 10 u) = pde pm pd' (drop_bit 10 u)" using c private_split(2) [OF u(1)] by (simp add: dir_copied_def)
    moreover have "512 \<le> unat (drop_bit 10 u)" "unat (drop_bit 10 u) < 960" using u(1) by (auto simp: private_vpn_def vpn_unat)
    ultimately show False using np u(2) by (auto simp: walk_def Let_def split: if_splits)
  qed
  define T where "T u = frame_of (pde pm' pd' (drop_bit 10 u))" for u
  have w: "g = pm_mem pm' (idx (T u) (u AND 0x3FF))" "present g" if "walk pm' pd' u = Some g" for u g
    using that by (auto simp: walk_def T_def Let_def split: if_splits)
  have tf: "frame_of g \<in> table_frames pm' (T u)" if "private_vpn u" "walk pm' pd' u = Some g" for u g
    using w [OF that(2)] private_split(3) [OF that(1)] by (auto simp: table_frames_def)
  show ?thesis
  proof (cases "drop_bit 10 v = drop_bit 10 w")
    case False
    then have "table_frames pm' (T v) \<inter> table_frames pm' (T w) = {}"
      using c cp [OF v(1) e(1)] cp [OF v(2) e(2)] private_split(2) [OF v(1)] private_split(2) [OF v(2)] by (simp add: dir_copied_def T_def)
    then show ?thesis using tf [OF v(1) e(1)] tf [OF v(2) e(2)] by auto
  next
    case True
    then have "v AND 0x3FF \<noteq> w AND 0x3FF" using vpn_eq v(3) by blast
    moreover have "table_copied 1024 pm (frame_of (pde pm pd (drop_bit 10 v))) pm' (T v) (D - {T v})"
      using c cp [OF v(1) e(1)] private_split(2) [OF v(1)] by (simp add: dir_copied_def T_def)
    moreover have "T w = T v" using True by (simp add: T_def)
    ultimately show ?thesis
      using w [OF e(1)] w [OF e(2)] private_split(3) [OF v(1)] private_split(3) [OF v(2)] unfolding table_copied_def by metis
  qed
qed

lemma new_page_directory_spec:
  assumes own: "phys_owns pm A" and g: "g \<in> A"
  shows "case new_page_directory pm g of
      Inl f \<Rightarrow> f = Panic ''no more frames''
    | Inr (p, pm') \<Rightarrow> p \<notin> A \<and> phys_owns pm' (insert p A) \<and> kept pm pm' A \<and> (\<forall>i<1024. pde pm' p i = pde pm g i)"
proof (cases "alloc_frame pm")
  case (Inl f)
  then show ?thesis using alloc_fails [OF own Inl] by (simp add: new_page_directory_def)
next
  case (Inr x)
  obtain p pm1 where al: "alloc_frame pm = Inr (p, pm1)" using Inr by (cases x) auto
  have a: "p \<notin> A" "phys_owns pm1 (insert p A)" using pf.alloc_law [OF own al] by auto
  have fg: "is_frame g" using pf.owned_frame [OF own g] by blast
  have k1: "kept pm pm1 A" using alloc_kept [OF own al] .
  have n: "new_page_directory pm g = Inr (p, copy_frame pm1 p g)" by (simp add: new_page_directory_def al)
  have "p \<noteq> g" using a(1) g by blast
  note c = copy_frame_spec [OF a(2) insertI1 fg this]
  have "kept pm (copy_frame pm1 p g) A" using kept_trans [OF k1 c(3)] a(1) by blast
  moreover have "pde (copy_frame pm1 p g) p i = pde pm g i" if "i < 1024" for i
    using c(2) that kept_idx [OF k1 g fg that] by (simp add: same_frame_def pde_def)
  ultimately show ?thesis using n a(1) c(1) by simp
qed

text \<open>The frames of the private pages are in use.\<close>

definition data_ok :: "phys \<Rightarrow> u32 set \<Rightarrow> u32 \<Rightarrow> bool" where
  "data_ok pm A pd \<longleftrightarrow> (\<forall>v e. private_vpn v \<longrightarrow> walk pm pd v = Some e \<longrightarrow> frame_of e \<in> A)"

text \<open>The private entries refer to tables in use, and these to frames in use other than the new directory.\<close>

lemma private_tables:
  assumes ok: "pd_ok pm A pd" and data: "data_ok pm A pd"
    and i: "i < 1024" "copied_entry 448 pm pd i"
  shows "table_in pm (frame_of (pde pm pd i)) A"
proof -
  have p: "512 \<le> unat i" "unat i < 960" "present (pde pm pd i)" using i(2) by (simp_all add: copied_entry_def)
  have "frame_of (pm_mem pm (idx (frame_of (pde pm pd i)) j)) \<in> A" if j: "j < 1024" "present (pm_mem pm (idx (frame_of (pde pm pd i)) j))" for j
  proof -
    obtain v where v: "private_vpn v" "drop_bit 10 v = i" "v AND 0x3FF = j" using vpn_of_indices [OF p(1,2) j(1)] by blast
    then have "walk pm pd v = Some (pm_mem pm (idx (frame_of (pde pm pd i)) j))" using p(3) j(2) by (simp add: walk_def Let_def)
    then show ?thesis using data v(1) unfolding data_ok_def by blast
  qed
  then show ?thesis using pd_okD(2) [OF ok i(1) p(3)] by (auto simp: table_in_def table_frames_def)
qed

text \<open>The child's directory: copied entries have new tables, the others are those of the global directory.\<close>

lemma child_pd_ok:
  assumes g: "pd_ok pm A g" and c: "c \<notin> A" "insert c A \<subseteq> A'" and eq: "\<And>i. i < 1024 \<Longrightarrow> pde pm1 c i = pde pm g i"
    and d: "dir_copied 448 pm1 pd pm' c (A' - insert c A)"
  shows "pd_ok pm' A' c"
proof -
  have new: "frame_of (pde pm' c i) \<in> A' - insert c A" if "i < 1024" "copied_entry 448 pm1 pd i" for i
    by (rule table_inD(1) [of pm']) (use d that in \<open>simp add: dir_copied_def\<close>)
  have old: "pde pm' c i = pde pm g i" if "i < 1024" "\<not> copied_entry 448 pm1 pd i" for i
    using d that eq [OF that(1)] by (simp add: dir_copied_def)
  have oldA: "frame_of (pde pm' c i) \<in> A" if "i < 1024" "\<not> copied_entry 448 pm1 pd i" "present (pde pm' c i)" for i
    using old [OF that(1,2)] pd_okD(2) [OF g that(1)] that(3) by simp
  have "frame_of (pde pm' c i) \<in> A' - {c}" if "i < 1024" "present (pde pm' c i)" for i
    using new [OF that(1)] oldA [OF that(1) _ that(2)] c by (cases "copied_entry 448 pm1 pd i") auto
  moreover have "i = j" if ij: "i < 1024" "j < 1024" "present (pde pm' c i)" "present (pde pm' c j)"
    and e: "frame_of (pde pm' c i) = frame_of (pde pm' c j)" for i j
  proof (cases "copied_entry 448 pm1 pd i = copied_entry 448 pm1 pd j")
    case False
    then show ?thesis using new [OF ij(1)] new [OF ij(2)] oldA [OF ij(1) _ ij(3)] oldA [OF ij(2) _ ij(4)] e by auto
  next
    case True
    show ?thesis
    proof (cases "copied_entry 448 pm1 pd i")
      case False
      then show ?thesis using True old [OF ij(1)] old [OF ij(2)] pd_okD(3) [OF g ij(1,2)] ij(3,4) e by simp
    next
      case ci: True
      have "frame_of (pde pm' c i) \<in> table_frames pm' (frame_of (pde pm' c i)) \<inter> table_frames pm' (frame_of (pde pm' c j))"
        using e by (simp add: table_frames_def)
      then show ?thesis using d ci True ij(1,2) unfolding dir_copied_def by blast
    qed
  qed
  ultimately show ?thesis using c(2) unfolding pd_ok_def by blast
qed

lemma child_global_walk:
  assumes own: "phys_owns pm A" and g: "pd_ok pm A g" and eq: "\<And>i. i < 1024 \<Longrightarrow> pde pm1 c i = pde pm g i"
    and d: "dir_copied 448 pm1 pd pm' c D" and k: "kept pm pm' A" and v: "is_vpn v" "\<not> private_vpn v"
  shows "walk pm' c v = walk pm g v"
proof -
  define i where "i = drop_bit 10 v"
  have i: "i < 1024" "v AND 0x3FF < 1024" using vpn_split [OF v(1)] by (simp_all add: i_def)
  have "\<not> (512 \<le> unat i \<and> unat i < 960)"
    using v(2) unfolding i_def vpn_unat private_vpn_def by (auto simp: less_eq_div_iff_mult_less_eq div_less_iff_less_mult)
  then have e: "pde pm' c i = pde pm g i" using d i(1) eq by (auto simp: dir_copied_def copied_entry_def)
  have "pm_mem pm' (idx (frame_of (pde pm g i)) (v AND 0x3FF)) = pm_mem pm (idx (frame_of (pde pm g i)) (v AND 0x3FF))" if "present (pde pm g i)"
    using kept_idx [OF k _ _ i(2)] pd_okD(2) [OF g i(1) that] pf.owned_frame [OF own] by blast
  then show ?thesis using e by (auto simp: walk_def Let_def i_def)
qed

text \<open>After \<open>new_page_directory\<close>.\<close>

lemma child_start:
  assumes own: "phys_owns pm A" and pd: "pd_ok pm A pd" and g: "g \<in> A"
    and data: "data_ok pm A pd"
    and n: "new_page_directory pm g = Inr (c, pm1)"
  shows "c \<notin> A" "phys_owns pm1 (insert c A)" "kept pm pm1 A" "\<And>i. i < 1024 \<Longrightarrow> pde pm1 c i = pde pm g i"
    and "\<And>v. is_vpn v \<Longrightarrow> walk pm1 pd v = walk pm pd v" "\<And>i. i < 1024 \<Longrightarrow> pde pm1 pd i = pde pm pd i"
    and "\<And>i. i < 1024 \<Longrightarrow> copied_entry 448 pm1 pd i \<Longrightarrow> table_in pm1 (frame_of (pde pm1 pd i)) (insert c A - {c})"
proof -
  show a: "c \<notin> A" "phys_owns pm1 (insert c A)" "kept pm pm1 A" "\<And>i. i < 1024 \<Longrightarrow> pde pm1 c i = pde pm g i"
    using new_page_directory_spec [OF own g] by (simp_all add: n)
  have fr: "is_frame q" if "q \<in> A" for q using pf.owned_frame [OF own that] by blast
  have "pd_ok pm1 (insert c A) pd \<and> (\<forall>v. is_vpn v \<longrightarrow> walk pm1 pd v = walk pm pd v) \<and> (\<forall>i<1024. pde pm1 pd i = pde pm pd i)"
    by (rule pd_agree [OF own pd]) (use a(3) pd_frames_owned [OF pd] in \<open>auto simp: kept_def\<close>)
  then show w: "\<And>v. is_vpn v \<Longrightarrow> walk pm1 pd v = walk pm pd v" "\<And>i. i < 1024 \<Longrightarrow> pde pm1 pd i = pde pm pd i" by blast+
  show "table_in pm1 (frame_of (pde pm1 pd i)) (insert c A - {c})" if i: "i < 1024" "copied_entry 448 pm1 pd i" for i
  proof -
    have "copied_entry 448 pm pd i" using i w(2) by (simp add: copied_entry_def)
    then have "table_in pm (frame_of (pde pm pd i)) A" by (rule private_tables [OF pd data i(1)])
    then show ?thesis using table_in_target(1) [OF _ a(3) fr] w(2) [OF i(1)] a(1) by simp
  qed
qed

lemma kept_frames_needed:
  assumes k: "kept pm pm1 A" and own: "phys_owns pm A" and eq: "\<And>i. i < 1024 \<Longrightarrow> pde pm1 pd i = pde pm pd i"
    and ok: "pd_ok pm A pd"
  shows "frames_needed pm1 pd 448 = frames_needed pm pd 448"
proof -
  have "(let e = pde pm1 pd (of_nat i + 0x200) in if present e then Suc (pages_needed pm1 (frame_of e) 1024) else 0) =
      (let e = pde pm pd (of_nat i + 0x200) in if present e then Suc (pages_needed pm (frame_of e) 1024) else 0)" if "i < 448" for i
  proof -
    have i: "of_nat i + 0x200 < (1024 :: u32)" using that by (simp add: word_less_nat_alt unat_plus_no_wrap)
    have "pages_needed pm1 (frame_of (pde pm pd (of_nat i + 0x200))) 1024 = pages_needed pm (frame_of (pde pm pd (of_nat i + 0x200))) 1024"
      if "present (pde pm pd (of_nat i + 0x200))"
      using kept_pages_needed [OF k] pd_okD(2) [OF ok i that] pf.owned_frame [OF own] by blast
    then show ?thesis using eq [OF i] by (simp add: Let_def)
  qed
  then show ?thesis unfolding frames_needed_def by (intro arg_cong [where f = sum_list] map_cong) auto
qed

text \<open>It succeeds when the frames that it needs are free.\<close>

lemma fork_directory_succeeds:
  assumes r: "room lo pm A (Suc (frames_needed pm pd 448))" and pd: "pd_ok pm A pd" and g: "g \<in> A"
    and data: "data_ok pm A pd"
  shows "\<exists>x. fork_directory pm g pd = Inr x"
proof -
  have own: "phys_owns pm A" using room_owns [OF r] .
  obtain c pm0 where al: "alloc_frame pm = Inr (c, pm0)" "room lo pm0 (insert c A) (frames_needed pm pd 448)"
    using room_alloc [OF r] by blast
  define pm1 where "pm1 = copy_frame pm0 c g"
  have n: "new_page_directory pm g = Inr (c, pm1)" by (simp add: new_page_directory_def al(1) pm1_def)
  note s = child_start [OF own pd g data n]
  have PD: "pd \<in> insert c A" "pd \<noteq> c" using pd_okD(1) [OF pd] s(1) by auto
  have "room lo pm1 (insert c A) (frames_needed pm1 pd 448 + 0)"
    unfolding pm1_def copy_frame_def by (intro room_copy_words)
      (use al(2) kept_frames_needed [OF s(3) own s(6) pd] in \<open>simp_all add: pm1_def copy_frame_def\<close>)
  then have "\<exists>pm' A'. copy_dir 448 pm1 pd c = Inr pm' \<and> insert c A \<subseteq> A' \<and> room lo pm' A' 0"
    by (intro copy_dir_succeeds [OF PD(1) insertI1 PD(2) s(7)]) simp_all
  then show ?thesis using n by (auto simp: fork_directory_def copy_page_directory_def)
qed

lemma fork_same_pages:
  assumes own: "phys_owns pm A" and pd: "pd_ok pm A pd" and g: "g \<in> A" and data: "data_ok pm A pd"
    and n: "new_page_directory pm g = Inr (c, pm1)" and v: "private_vpn v"
  shows "user_page pm1 pd v = user_page pm pd v"
proof -
  note a = child_start [OF own pd g data n]
  show ?thesis
  proof (cases "walk pm pd v")
    case (Some e)
    then have "frame_of e \<in> A" using data v unfolding data_ok_def by blast
    then have "page_words pm1 (frame_of e) = page_words pm (frame_of e)"
      using kept_same_frame [OF a(3)] pf.owned_frame [OF own] by (simp add: same_frame_words)
    then show ?thesis using a(5) [OF private_split(1) [OF v]] Some by (simp add: user_page_def)
  qed (use a(5) [OF private_split(1) [OF v]] in \<open>simp add: user_page_def\<close>)
qed

text \<open>A copy that succeeds.\<close>

lemma fork_copies:
  assumes own: "phys_owns pm A" and pd: "pd_ok pm A pd" and g: "pd_ok pm A g" and data: "data_ok pm A pd"
    and np: "\<And>i. 512 \<le> unat i \<Longrightarrow> unat i < 960 \<Longrightarrow> \<not> present (pde pm g i)"
    and n: "new_page_directory pm g = Inr (c, pm1)" and copy: "copy_page_directory pm1 pd c = Inr pm'"
  shows "kept pm pm' A" "private_vpn v \<Longrightarrow> user_page pm' c v = user_page pm pd v"
    "private_vpn v \<Longrightarrow> walk pm' c v = Some e \<Longrightarrow> frame_of e \<notin> insert c A"
    "private_vpn v \<Longrightarrow> private_vpn w \<Longrightarrow> v \<noteq> w \<Longrightarrow> walk pm' c v = Some e \<Longrightarrow> walk pm' c w = Some f \<Longrightarrow> frame_of e \<noteq> frame_of f"
    "is_vpn v \<Longrightarrow> \<not> private_vpn v \<Longrightarrow> walk pm' c v = walk pm g v"
    "\<exists>A'. A \<subseteq> A' \<and> phys_owns pm' A' \<and> pd_ok pm' A' c \<and> pd_ok pm' A' pd"
proof -
  note a = child_start [OF own pd pd_okD(1) [OF g] data n]
  have PD: "pd \<in> insert c A" "pd \<noteq> c" using pd_okD(1) [OF pd] a(1) by auto
  obtain A' where c: "insert c A \<subseteq> A'" "phys_owns pm' A'" "kept pm1 pm' A" "dir_copied 448 pm1 pd pm' c (A' - insert c A)"
    using copy_dir_spec [OF a(2) PD(1) insertI1 PD(2) a(7) order_refl] a(1) copy unfolding copy_page_directory_def by auto
  have np1: "\<not> present (pde pm1 c i)" if "512 \<le> unat i" "unat i < 960" for i
    using np [OF that] a(4) [of i] that(2) by (simp add: word_less_nat_alt)
  show k: "kept pm pm' A" using kept_trans [OF a(3) c(3)] by blast
  have dv: "512 \<le> unat (drop_bit 10 v :: u32)" "unat (drop_bit 10 v :: u32) < 960" if "private_vpn v" for v
    using that by (auto simp: private_vpn_def vpn_unat)
  show "user_page pm' c v = user_page pm pd v" if v: "private_vpn v" for v
    using dir_copied_walk(1) [OF c(4) v] np1 dv [OF v] fork_same_pages [OF own pd pd_okD(1) [OF g] data n v] by simp
  show "frame_of e \<notin> insert c A" if v: "private_vpn v" "walk pm' c v = Some e" for v e
    using dir_copied_walk(2) [OF c(4) v(1) _ v(2)] np1 dv [OF v(1)] by blast
  show "frame_of e \<noteq> frame_of f" if "private_vpn v" "private_vpn w" "v \<noteq> w" "walk pm' c v = Some e" "walk pm' c w = Some f" for v w e f
    by (rule dir_copied_distinct [OF c(4) that(1-3) np1 that(4,5)])
  show "walk pm' c v = walk pm g v" if "is_vpn v" "\<not> private_vpn v" for v
    by (rule child_global_walk [OF own g a(4) c(4) k that])
  have "pd_ok pm' A' pd"
    using pd_agree [OF own pd, of pm' A'] k pd_frames_owned [OF pd] c(1) by (auto simp: kept_def)
  then show "\<exists>A'. A \<subseteq> A' \<and> phys_owns pm' A' \<and> pd_ok pm' A' c \<and> pd_ok pm' A' pd"
    using child_pd_ok [OF g a(1) c(1) a(4) c(4)] c(1,2) by blast
qed

lemma fork_fails:
  assumes own: "phys_owns pm A" and pd: "pd_ok pm A pd" and g: "g \<in> A" and data: "data_ok pm A pd" and f: "fork_directory pm g pd = Inl f"
  shows "f = Panic ''no more frames''" "phys_ok lo pm A \<Longrightarrow> card (frames lo (pm_limit pm)) < card A + 1 + frames_needed pm pd 448"
proof -
  show "f = Panic ''no more frames''"
  proof (cases "new_page_directory pm g")
    case (Inl f')
    then show ?thesis using new_page_directory_spec [OF own g] f by (simp add: fork_directory_def)
  next
    case (Inr x)
    obtain c pm1 where n: "new_page_directory pm g = Inr (c, pm1)" using Inr by (cases x) auto
    note a = child_start [OF own pd g data n]
    have "pd \<in> insert c A" "pd \<noteq> c" using pd_okD(1) [OF pd] a(1) by auto
    from copy_dir_fails [OF a(2) this(1) insertI1 this(2) a(7) order_refl] show ?thesis
      using f n by (auto simp: fork_directory_def copy_page_directory_def bindR_Inl_conv)
  qed
  show "card (frames lo (pm_limit pm)) < card A + 1 + frames_needed pm pd 448" if "phys_ok lo pm A"
    using fork_directory_succeeds [OF _ pd g data, of lo] that f by (force simp: room_def)
qed

text \<open>
  (C5:fork_directory_correct) The address space of a forked process: it fails only when fewer frames are free than there are pages and tables to copy, and one for the directory. Otherwise the child sees in every private page what the parent sees there, with
  the same flags, in frames that were not in use and are different for different pages; everything else it has from the global directory. No memory of the parent changes.
\<close>

theorem fork_directory_correct:
  assumes own: "phys_owns pm A" and pd: "pd_ok pm A pd" and g: "pd_ok pm A g"
    and np: "\<And>i. 512 \<le> unat i \<Longrightarrow> unat i < 960 \<Longrightarrow> \<not> present (pde pm g i)"
    and data: "data_ok pm A pd"
  shows "case fork_directory pm g pd of
      Inl f \<Rightarrow> f = Panic ''no more frames'' \<and>
        (\<forall>lo. phys_ok lo pm A \<longrightarrow> card (frames lo (pm_limit pm)) < card A + 1 + frames_needed pm pd 448)
    | Inr (c, pm') \<Rightarrow> c \<notin> A \<and> kept pm pm' A \<and>
        (\<forall>v. private_vpn v \<longrightarrow> user_page pm' c v = user_page pm pd v) \<and>
        (\<forall>v e. private_vpn v \<longrightarrow> walk pm' c v = Some e \<longrightarrow> frame_of e \<notin> insert c A) \<and>
        (\<forall>v w e f. private_vpn v \<longrightarrow> private_vpn w \<longrightarrow> v \<noteq> w \<longrightarrow> walk pm' c v = Some e \<longrightarrow> walk pm' c w = Some f \<longrightarrow> frame_of e \<noteq> frame_of f) \<and>
        (\<forall>v. is_vpn v \<longrightarrow> \<not> private_vpn v \<longrightarrow> walk pm' c v = walk pm g v) \<and>
        (\<exists>A'. A \<subseteq> A' \<and> phys_owns pm' A' \<and> pd_ok pm' A' c \<and> pd_ok pm' A' pd)"
proof (cases "fork_directory pm g pd")
  case (Inl f)
  then show ?thesis using fork_fails [OF own pd pd_okD(1) [OF g] data Inl] by simp
next
  case (Inr x)
  then obtain c pm1 pm' where n: "new_page_directory pm g = Inr (c, pm1)" "copy_page_directory pm1 pd c = Inr pm'" "x = (c, pm')"
    by (auto simp: fork_directory_def bindR_Inr_conv)
  note f = fork_copies [OF own pd g data np n(1,2)]
  show ?thesis using Inr n(3) child_start(1) [OF own pd pd_okD(1) [OF g] data n(1)] f by simp
qed


text \<open>A parent with one page: its directory, the global one, a table and the page.\<close>

definition demo_fork_pm :: phys where
  "demo_fork_pm = \<lparr>pm_mem = (\<lambda>_. 0)(0x1800 := 0x3007, 0x3000 := 0x4007, 0x4000 := 42), pm_firstFree = 0, pm_avail = 0x5000, pm_limit = 0x10000\<rparr>"

lemma frames_range: "frames 4096 (of_nat (4096 * n)) = (\<lambda>k. of_nat (4096 * k)) ` {1 ..< n}" if "n < 2 ^ 20"
proof -
  have u: "unat (of_nat (4096 * k) :: u32) = 4096 * k" if "k \<le> n" for k using that \<open>n < 2 ^ 20\<close> by (intro unat_of_nat_u32) simp
  have "p \<in> (\<lambda>k. of_nat (4096 * k)) ` {1 ..< n}" if p: "is_frame p" "4096 \<le> unat p" "unat p < 4096 * n" for p :: u32
  proof -
    obtain k where k: "unat p = 4096 * k" using p(1) unfolding is_frame_def dvd_def by blast
    then have "p = of_nat (4096 * k)" by (simp only: word_unat_eq_iff u [of k] flip: k) simp
    then show ?thesis using k p(2,3) by (intro image_eqI [of _ _ k]) auto
  qed
  then show ?thesis using u by (auto simp: frames_def is_frame_def)
qed

lemma demo_fork_owns: "phys_ok 4096 demo_fork_pm {0x1000, 0x2000, 0x3000, 0x4000}"
proof -
  have "{1 ..< 5} = {1, 2, 3, 4 :: nat}" by auto
  then have "frames 4096 0x5000 = {0x1000, 0x2000, 0x3000, 0x4000}" using frames_range [of 5] by simp
  then show ?thesis by (intro phys_okI [of _ "[]"]) (simp_all add: demo_fork_pm_def is_frame_def)
qed

lemma demo_fork_entries:
  assumes "j < 1024"
  shows "pde demo_fork_pm 0x1000 j = (if j = 0x200 then 0x3007 else 0)" "pde demo_fork_pm 0x2000 j = 0"
    "pm_mem demo_fork_pm (idx 0x3000 j) = (if j = 0 then 0x4007 else 0)"
proof -
  have u: "unat (idx 0x1000 j) = 0x1000 + 4 * unat j" "unat (idx 0x2000 j) = 0x2000 + 4 * unat j" "unat (idx 0x3000 j) = 0x3000 + 4 * unat j" "unat j < 1024"
    using assms by (simp_all add: idx_unat is_frame_def word_less_nat_alt)
  then show "pde demo_fork_pm 0x1000 j = (if j = 0x200 then 0x3007 else 0)" "pde demo_fork_pm 0x2000 j = 0"
    "pm_mem demo_fork_pm (idx 0x3000 j) = (if j = 0 then 0x4007 else 0)"
    by (auto simp: pde_def demo_fork_pm_def word_unat_eq_iff)
qed

lemma demo_fork_frames: "frame_of 0x3007 = 0x3000" "frame_of 0x4007 = 0x4000" "present 0x3007" "present 0x4007"
  by (simp_all add: frame_of_def present_def)

lemma demo_fork_walk: "is_vpn v \<Longrightarrow> walk demo_fork_pm 0x1000 v = (if v = 0x80000 then Some 0x4007 else None)"
proof -
  assume v: "is_vpn v"
  have "drop_bit 10 (0x80000 :: u32) = 0x200" "(0x80000 :: u32) AND 0x3FF = 0" by (simp_all add: drop_bit_eq_div)
  then have "v = 0x80000 \<longleftrightarrow> drop_bit 10 v = 0x200 \<and> v AND 0x3FF = 0" using vpn_eq [of v "0x80000"] by metis
  then show ?thesis
    using demo_fork_entries(1) [OF vpn_split(1) [OF v]] demo_fork_entries(3) [OF vpn_split(2) [OF v]] demo_fork_frames
    by (cases "drop_bit 10 v = 0x200"; cases "v AND 0x3FF = 0") (simp_all add: walk_def)
qed

lemma demo_fork_ok:
  "pd_ok demo_fork_pm {0x1000, 0x2000, 0x3000, 0x4000} 0x1000" "pd_ok demo_fork_pm {0x1000, 0x2000, 0x3000, 0x4000} 0x2000"
  "data_ok demo_fork_pm {0x1000, 0x2000, 0x3000, 0x4000} 0x1000"
proof -
  show "pd_ok demo_fork_pm {0x1000, 0x2000, 0x3000, 0x4000} 0x1000"
    unfolding pd_ok_def by (auto simp: demo_fork_entries demo_fork_frames split: if_splits)
  show "pd_ok demo_fork_pm {0x1000, 0x2000, 0x3000, 0x4000} 0x2000" unfolding pd_ok_def by (simp add: demo_fork_entries)
  show "data_ok demo_fork_pm {0x1000, 0x2000, 0x3000, 0x4000} 0x1000"
    using demo_fork_walk private_split(1) by (auto simp: data_ok_def demo_fork_frames split: if_splits)
qed

lemma count_first:
  "0 < n \<Longrightarrow> length (filter (\<lambda>j. j = 0) [0 ..< n]) = 1" "0 < n \<Longrightarrow> sum_list (map (\<lambda>i. if i = 0 then 2 else 0) [0 ..< n]) = (2 :: nat)"
proof (induction n)
  case (Suc n)
  { case 1 then show ?case using Suc by (cases "n = 0") simp_all }
  { case 2 then show ?case using Suc by (cases "n = 0") simp_all }
qed simp_all

lemma demo_frames_needed: "frames_needed demo_fork_pm 0x1000 448 = 2"
proof -
  have w: "of_nat i + 0x200 = (0x200 :: u32) \<longleftrightarrow> i = 0" "of_nat i + 0x200 < (1024 :: u32)" if "i < 448" for i
    using that by (simp_all add: word_unat_eq_iff word_less_nat_alt unat_plus_no_wrap)
  have "pages_needed demo_fork_pm 0x3000 1024 = length (filter (\<lambda>j. j = 0) [0 ..< 1024])"
    unfolding pages_needed_def
    by (intro arg_cong [where f = length] filter_cong refl) (auto simp: demo_fork_entries demo_fork_frames word_less_nat_alt word_unat_eq_iff)
  also have "\<dots> = 1" by (rule count_first(1)) simp
  finally have p: "pages_needed demo_fork_pm 0x3000 1024 = 1" .
  have "frames_needed demo_fork_pm 0x1000 448 = sum_list (map (\<lambda>i. if i = 0 then 2 else 0) [0 ..< 448])"
    unfolding frames_needed_def
    by (intro arg_cong [where f = sum_list] map_cong refl) (simp only: set_upt atLeastLessThan_iff Let_def demo_fork_entries(1) w, simp add: demo_fork_frames p)
  also have "\<dots> = 2" by (rule count_first(2)) simp
  finally show ?thesis .
qed

theorem fork_directory_correct_witness:
  "\<exists>c pm'. fork_directory demo_fork_pm 0x2000 0x1000 = Inr (c, pm') \<and>
     map_option (\<lambda>p. (fst p, snd p ! 0)) (user_page pm' c 0x80000) = Some (7, 42)"
proof -
  have own: "phys_owns demo_fork_pm {0x1000, 0x2000, 0x3000, 0x4000}" using demo_fork_owns by (auto simp: phys_owns_def)
  have "\<not> present (pde demo_fork_pm 0x2000 i)" if "512 \<le> unat i" "unat i < 960" for i
    using that demo_fork_entries(2) [of i] by (simp add: word_less_nat_alt)
  note f = fork_directory_correct [OF own demo_fork_ok(1,2) this demo_fork_ok(3)]
  have "card (frames 4096 (pm_limit demo_fork_pm)) = 15"
  proof -
    have "frames 4096 (pm_limit demo_fork_pm) = (\<lambda>k. of_nat (4096 * k)) ` {1 ..< 16}" using frames_range [of 16] by (simp add: demo_fork_pm_def)
    moreover have "inj_on (\<lambda>k. of_nat (4096 * k) :: u32) {1 ..< 16}"
    proof (rule inj_onI)
      fix x y :: nat assume "x \<in> {1 ..< 16}" "y \<in> {1 ..< 16}" "of_nat (4096 * x) = (of_nat (4096 * y) :: u32)"
      then have "unat (of_nat (4096 * x) :: u32) = unat (of_nat (4096 * y) :: u32)" "4096 * x < 2 ^ 32" "4096 * y < 2 ^ 32" by simp_all
      then show "x = y" by (simp only: unat_of_nat_u32)
    qed
    ultimately show ?thesis by (simp add: card_image)
  qed
  moreover have "card A \<le> 4" if "A = {0x1000, 0x2000, 0x3000, 0x4000 :: u32}" for A using that by (simp add: card_insert_if)
  ultimately have "\<not> card (frames 4096 (pm_limit demo_fork_pm)) < card {0x1000, 0x2000, 0x3000, 0x4000 :: u32} + 1 + frames_needed demo_fork_pm 0x1000 448"
    by (simp add: demo_frames_needed card_insert_if)
  then obtain c pm' where r: "fork_directory demo_fork_pm 0x2000 0x1000 = Inr (c, pm')"
    "user_page pm' c 0x80000 = user_page demo_fork_pm 0x1000 0x80000"
    using f demo_fork_owns by (cases "fork_directory demo_fork_pm 0x2000 0x1000") (auto simp: private_vpn_def)
  have "map_option (\<lambda>p. (fst p, snd p ! 0)) (user_page demo_fork_pm 0x1000 0x80000) = Some (7, 42)"
    by (simp add: user_page_def demo_fork_walk is_vpn_def demo_fork_frames page_words_def) (simp add: idx_def demo_fork_pm_def)
  then show ?thesis using r by auto
qed

section \<open>Release\<close>

text \<open>The destructor \<open>TCB::~TCB\<close> of \<open>kernel/threads.cc\<close>: the tables of the private part, then the directory.\<close>

fun release_tables :: "nat \<Rightarrow> phys \<Rightarrow> u32 \<Rightarrow> phys res" where
  "release_tables 0 pm pd = Inr pm"
| "release_tables (Suc n) pm pd = bindR (release_tables n pm pd) (\<lambda>pm1. remove_PT_mapping pm1 pd (of_nat n + 0x200))"

definition release_directory :: "phys \<Rightarrow> u32 \<Rightarrow> phys res" where
  "release_directory pm pd = bindR (release_tables 448 pm pd) (\<lambda>pm1. dealloc_frame pm1 pd)"

definition private_table_frames :: "nat \<Rightarrow> phys \<Rightarrow> u32 \<Rightarrow> u32 set" where
  "private_table_frames n pm pd = {frame_of (pde pm pd i) |i. i < 1024 \<and> copied_entry n pm pd i}"

lemma remove_PT_mapping_spec:
  assumes own: "phys_owns pm A" and ok: "pd_ok pm A pd" and i: "i < 1024"
  shows "\<exists>pm'. remove_PT_mapping pm pd i = Inr pm' \<and>
    phys_owns pm' (if present (pde pm pd i) then A - {frame_of (pde pm pd i)} else A) \<and>
    pd_ok pm' (if present (pde pm pd i) then A - {frame_of (pde pm pd i)} else A) pd \<and>
    (\<forall>k<1024. pde pm' pd k = (if k = i \<and> present (pde pm pd i) then 0 else pde pm pd k))"
proof (cases "present (pde pm pd i)")
  case False
  then show ?thesis using own ok by (simp add: remove_PT_mapping_def pde_def Let_def)
next
  case True
  let ?F = "frame_of (pde pm pd i)"
  have F: "?F \<in> A" "?F \<noteq> pd" using pd_okD(2) [OF ok i True] by auto
  have pd: "pd \<in> A" "is_frame pd" using pd_okD(1) [OF ok] pf.owned_frame [OF own] by auto
  obtain pm1 where d: "dealloc_frame pm ?F = Inr pm1" "phys_owns pm1 (A - {?F})" using pf.dealloc_law [OF own F(1)] by blast
  have e1: "pde pm1 pd k = pde pm pd k" if "k < 1024" for k
    unfolding pde_def using pf.dealloc_keeps [OF own F(1) d(1) pd(1) _ idx_in_frame [OF pd(2) that]] F(2) by metis
  let ?pm = "pm_write pm1 (idx pd i) 0"
  have r: "remove_PT_mapping pm pd i = Inr ?pm"
    using True d(1) by (simp add: remove_PT_mapping_def pde_def Let_def frame_of_mask_num)
  have e2: "pde ?pm pd k = (if k = i then 0 else pde pm pd k)" if "k < 1024" for k
    using e1 [OF that] idx_inj [OF pd(2) that i] by (simp add: pde_def pf.peek_poke)
  have own2: "phys_owns ?pm (A - {?F})" using pf.poke_law [OF d(2) _ idx_in_frame [OF pd(2) i]] pd(1) F(2) by auto
  have "frame_of (pde pm pd k) \<in> A - {?F} - {pd}" if "k < 1024" "k \<noteq> i" "present (pde pm pd k)" for k
    using pd_okD(2) [OF ok that(1,3)] pd_okD(3) [OF ok that(1) i that(3) True] that(2) by auto
  then have "pd_ok ?pm (A - {?F}) pd"
    unfolding pd_ok_def using e2 pd(1) F(2) pd_okD(3) [OF ok] by (auto split: if_splits)
  then show ?thesis using r own2 e2 True by auto
qed

lemma release_tables_spec:
  assumes own: "phys_owns pm A" and ok: "pd_ok pm A pd"
  shows "n \<le> 448 \<Longrightarrow> \<exists>pm'. release_tables n pm pd = Inr pm' \<and> phys_owns pm' (A - private_table_frames n pm pd) \<and>
    pd_ok pm' (A - private_table_frames n pm pd) pd \<and> (\<forall>k<1024. pde pm' pd k = (if copied_entry n pm pd k then 0 else pde pm pd k))"
proof (induction n)
  case 0
  then show ?case using own ok by (simp add: private_table_frames_def)
next
  case (Suc n)
  define i where "i = of_nat n + (0x200 :: u32)"
  have i: "unat i = 512 + n" "i < 1024" using Suc.prems by (simp_all add: i_def word_less_nat_alt unat_plus_no_wrap)
  let ?A = "A - private_table_frames n pm pd"
  obtain pm1 where c: "release_tables n pm pd = Inr pm1" "phys_owns pm1 ?A" "pd_ok pm1 ?A pd"
    "\<And>k. k < 1024 \<Longrightarrow> pde pm1 pd k = (if copied_entry n pm pd k then 0 else pde pm pd k)" using Suc by auto
  have e: "pde pm1 pd i = pde pm pd i" using c(4) [OF i(2)] i(1) by (simp add: copied_entry_def)
  have ce: "copied_entry (Suc n) pm pd k \<longleftrightarrow> (if k = i then present (pde pm pd i) else copied_entry n pm pd k)" for k
    by (rule copied_entry_Suc [OF i(1)])
  obtain pm' where r: "remove_PT_mapping pm1 pd i = Inr pm'"
    "phys_owns pm' (if present (pde pm pd i) then ?A - {frame_of (pde pm pd i)} else ?A)"
    "pd_ok pm' (if present (pde pm pd i) then ?A - {frame_of (pde pm pd i)} else ?A) pd"
    "\<And>k. k < 1024 \<Longrightarrow> pde pm' pd k = (if k = i \<and> present (pde pm pd i) then 0 else pde pm1 pd k)"
    using remove_PT_mapping_spec [OF c(2,3) i(2), unfolded e] by blast
  have "\<not> copied_entry n pm pd i" using i(1) by (simp add: copied_entry_def)
  then have "private_table_frames (Suc n) pm pd =
      (if present (pde pm pd i) then insert (frame_of (pde pm pd i)) (private_table_frames n pm pd) else private_table_frames n pm pd)"
    using i(2) by (auto simp: private_table_frames_def ce split: if_splits)
  then have "A - private_table_frames (Suc n) pm pd = (if present (pde pm pd i) then ?A - {frame_of (pde pm pd i)} else ?A)" by auto
  moreover have "pde pm' pd k = (if copied_entry (Suc n) pm pd k then 0 else pde pm pd k)" if "k < 1024" for k
    using r(4) [OF that] c(4) [OF that] \<open>\<not> copied_entry n pm pd i\<close> by (auto simp: ce)
  ultimately show ?case using c(1) r(1-3) by (simp add: i_def)
qed



end
