(* ===== verification/BlockIO.thy ===== *)
theory BlockIO
  imports Prelude
begin

text \<open>
  Block devices, \<open>kernel/block_io.h\<close> and \<open>kernel/block_io.cc\<close>. The abstract class \<open>BlockIO\<close> is the
  record \<open>blockio\<close>: the block size, what \<open>size_in_bytes\<close> returns and the virtual method
  \<open>read_block\<close> as a function on the state \<open>'s\<close> of the device, which returns the bytes it puts into the
  buffer. The methods the class derives from it are \<open>bio_read\<close>, \<open>bio_read_all\<close> and \<open>bio_read_bytes\<close>, the
  template \<open>read\<close> for an object of a given size. They return the count and the bytes that were
  written to the buffer.

  The locale \<open>block_device\<close> is the contract of \<open>read_block\<close>: the device has a content, a function from
  byte addresses, and delivers every block that starts below a limit and stays in a good state. The
  limit is the size of the device, or less where the device works only for a part of it. Inside the
  locale the derived methods are shown to return exactly the part of the content they are asked for.
\<close>

section \<open>The class\<close>

record 's blockio =
  block_size :: u32
  size_in_bytes :: u32
  read_block :: "u32 \<Rightarrow> 's \<Rightarrow> (u8 list \<times> 's) res"

definition size_in_blocks :: "'s blockio \<Rightarrow> u32" where
  "size_in_blocks d = (size_in_bytes d + block_size d - 1) div block_size d"

definition bio_read :: "'s blockio \<Rightarrow> u32 \<Rightarrow> u32 \<Rightarrow> 's \<Rightarrow> ((int \<times> u8 list) \<times> 's) res" where
  "bio_read d offset desired_n s =
     (let sz = size_in_bytes d; bs = block_size d in
      if offset > sz then Inr ((- 1, []), s)
      else if offset = sz then Inr ((0, []), s)
      else if bs = 0 then Inl (Undef ''division by zero'')
      else
        let n = min desired_n (sz - offset);
            block_number = offset div bs;
            offset_in_block = offset mod bs;
            actual_n = min (bs - offset_in_block) n
        in bindR (assertR (actual_n \<le> n) ''actual_n <= n'') (\<lambda>_.
           bindR (assertR (offset + actual_n \<le> sz) ''offset + actual_n <= sz'') (\<lambda>_.
           if actual_n = bs then
             bindR (assertR (offset_in_block = 0) ''offset_in_block == 0'') (\<lambda>_.
             bindR (read_block d block_number s) (\<lambda>(bytes, s1).
               Inr ((uint actual_n, bytes), s1)))
           else
             bindR (assertR (offset_in_block + actual_n \<le> bs) ''offset_in_block + actual_n <= block_size'') (\<lambda>_.
             bindR (read_block d block_number s) (\<lambda>(temp, s1).
               Inr ((uint actual_n, take (unat actual_n) (drop (unat offset_in_block) temp)), s1))))))"

lemma bio_read_count_le:
  "bio_read d offset n s = Inr ((cnt, bytes), s1) \<Longrightarrow> cnt \<le> uint n"
proof -
  assume r: "bio_read d offset n s = Inr ((cnt, bytes), s1)"
  have le: "uint (min a (min n b)) \<le> uint n" for a b
    by (simp add: word_le_def [symmetric] min.coboundedI2)
  have n: "0 \<le> uint n" by simp
  show ?thesis
  proof (cases "offset \<ge> size_in_bytes d \<or> block_size d = 0")
    case True
    then show ?thesis using r n by (auto simp: bio_read_def Let_def not_less intro: order_trans [OF _ n] split: if_splits)
  next
    case False
    define act where "act = min (block_size d - offset mod block_size d) (min n (size_in_bytes d - offset))"
    have "cnt = uint act"
      using r False
      by (simp add: bio_read_def Let_def bindR_assertR not_le act_def [symmetric] split: if_splits) (auto simp: bindR_Inr_conv)
    then show ?thesis using le by (simp add: act_def)
  qed
qed

text \<open>
  The loop of \<open>read_all\<close>: \<open>total_count\<close> is its accumulator. A negative result of \<open>read\<close> is returned as it is.
\<close>

function read_all_loop :: "'s blockio \<Rightarrow> u32 \<Rightarrow> u32 \<Rightarrow> int \<Rightarrow> 's \<Rightarrow> ((int \<times> u8 list) \<times> 's) res" where
  "read_all_loop d offset n total_count s =
     (if n = 0 then Inr ((total_count, []), s)
      else case bio_read d offset n s of
        Inl e \<Rightarrow> Inl e
      | Inr ((cnt, bytes), s1) \<Rightarrow>
          if cnt < 0 then Inr ((cnt, []), s1)
          else if cnt = 0 then Inr ((total_count, []), s1)
          else bindR (read_all_loop d (offset + of_int cnt) (n - of_int cnt) (total_count + cnt) s1)
                 (\<lambda>((r, rest), s2). Inr ((r, bytes @ rest), s2)))"
  by pat_completeness auto
termination
proof (relation "measure (\<lambda>(d, offset, n, total_count, s). unat n)")
  fix d :: "'s blockio" and offset n :: u32 and total_count cnt :: int and s s1 :: 's and y p and bytes :: "u8 list"
  assume "n \<noteq> 0" "bio_read d offset n s = Inr y" "(p, s1) = y" "(cnt, bytes) = p" "\<not> cnt < 0" "cnt \<noteq> 0"
  then have c: "0 < cnt" "cnt \<le> uint n" using bio_read_count_le [of d offset n s cnt bytes s1] by auto
  have u: "uint (of_int cnt :: u32) = cnt"
    using c uint_lt2p [of n] by (simp add: uint_word_of_int)
  have "unat (n - of_int cnt) < unat n"
  proof -
    have le: "of_int cnt \<le> n" using c(2) by (simp only: word_le_def u)
    have "unat (of_int cnt :: u32) = nat cnt" by (simp only: unat_eq_nat_uint u)
    moreover have "nat cnt \<le> unat n" "0 < nat cnt" using nat_mono [OF c(2)] c(1) by simp_all
    ultimately show ?thesis using unat_minus_no_wrap [OF le] by linarith
  qed
  then show "((d, offset + of_int cnt, n - of_int cnt, total_count + cnt, s1), (d, offset, n, total_count, s))
    \<in> measure (\<lambda>(d, offset, n, total_count, s). unat n)" by simp
qed simp

declare read_all_loop.simps [simp del]

definition bio_read_all :: "'s blockio \<Rightarrow> u32 \<Rightarrow> u32 \<Rightarrow> 's \<Rightarrow> ((int \<times> u8 list) \<times> 's) res" where
  "bio_read_all d offset n s = read_all_loop d offset n 0 s"

definition bio_read_bytes :: "'s blockio \<Rightarrow> u32 \<Rightarrow> u32 \<Rightarrow> 's \<Rightarrow> (u8 list \<times> 's) res" where
  "bio_read_bytes d offset sizeofT s =
     bindR (bio_read_all d offset sizeofT s) (\<lambda>((cnt, bytes), s1).
     bindR (assertR (cnt = uint sizeofT) ''cnt == sizeof(T)'') (\<lambda>_. Inr (bytes, s1)))"

definition bio_write :: "'s blockio \<Rightarrow> u32 \<Rightarrow> int \<Rightarrow> u8 list \<Rightarrow> int" where
  "bio_write d offset n buffer = - 1"

text \<open>Objects in memory are little endian.\<close>

fun le_value :: "u8 list \<Rightarrow> nat" where
  "le_value [] = 0"
| "le_value (b # bs) = unat b + 256 * le_value bs"

definition le16 :: "u8 list \<Rightarrow> u16" where "le16 bs = of_nat (le_value (take 2 bs))"
definition le32 :: "u8 list \<Rightarrow> u32" where "le32 bs = of_nat (le_value (take 4 bs))"

definition bio_read_u32 :: "'s blockio \<Rightarrow> u32 \<Rightarrow> 's \<Rightarrow> (u32 \<times> 's) res" where
  "bio_read_u32 d offset s = bindR (bio_read_bytes d offset 4 s) (\<lambda>(bs, s1). Inr (le32 bs, s1))"

definition bio_read_u16 :: "'s blockio \<Rightarrow> u32 \<Rightarrow> 's \<Rightarrow> (u16 \<times> 's) res" where
  "bio_read_u16 d offset s = bindR (bio_read_bytes d offset 2 s) (\<lambda>(bs, s1). Inr (le16 bs, s1))"

definition bio_read_u8 :: "'s blockio \<Rightarrow> u32 \<Rightarrow> 's \<Rightarrow> (u8 \<times> 's) res" where
  "bio_read_u8 d offset s = bindR (bio_read_bytes d offset 1 s) (\<lambda>(bs, s1). Inr (hd bs, s1))"

section \<open>The contract\<close>

definition bytes_at :: "(nat \<Rightarrow> u8) \<Rightarrow> nat \<Rightarrow> nat \<Rightarrow> u8 list" where
  "bytes_at content a n = map content [a ..< a + n]"

lemma length_bytes_at [simp]: "length (bytes_at c a n) = n"
  by (simp add: bytes_at_def)

lemma bytes_at_0 [simp]: "bytes_at c a 0 = []"
  by (simp add: bytes_at_def)

lemma bytes_at_append: "bytes_at c a m @ bytes_at c (a + m) n = bytes_at c a (m + n)"
  by (simp add: bytes_at_def upt_add_eq_append [symmetric] map_append [symmetric] add.assoc del: map_append)
     (metis add.assoc le_add1 map_append upt_add_eq_append)

lemma bytes_at_slice: "i + n \<le> m \<Longrightarrow> take n (drop i (bytes_at c a m)) = bytes_at c (a + i) n"
  by (simp add: bytes_at_def drop_map take_map)

locale block_device =
  fixes d :: "'s blockio" and ok :: "'s \<Rightarrow> bool" and lim :: nat and content :: "nat \<Rightarrow> u8"
  assumes block_size_pos: "block_size d \<noteq> 0"
    and lim_le: "lim \<le> unat (size_in_bytes d)"
    and read_block_ok: "ok s \<Longrightarrow> unat b * unat (block_size d) < lim \<Longrightarrow>
      \<exists>s1. read_block d b s = Inr (bytes_at content (unat b * unat (block_size d)) (unat (block_size d)), s1) \<and> ok s1"
begin

lemma bs_pos: "0 < unat (block_size d)"
  using block_size_pos by (simp add: unat_gt_0)

lemma bio_read_in:
  assumes ok: "ok s" and lm: "unat offset < lim"
  shows "\<exists>s1. bio_read d offset n s =
      Inr ((int (min (unat (block_size d) - unat offset mod unat (block_size d)) (min (unat n) (unat (size_in_bytes d) - unat offset))),
            bytes_at content (unat offset)
              (min (unat (block_size d) - unat offset mod unat (block_size d)) (min (unat n) (unat (size_in_bytes d) - unat offset)))), s1)
      \<and> ok s1"
proof -
  let ?sz = "size_in_bytes d" and ?bs = "block_size d"
  have lt: "offset < ?sz" using lm lim_le by (simp add: word_less_nat_alt)
  let ?r = "unat offset mod unat ?bs"
  define m where "m = min n (?sz - offset)"
  define act where "act = min (?bs - offset mod ?bs) m"
  have r: "unat (offset mod ?bs) = ?r" by (simp add: unat_mod)
  have rlt: "?r < unat ?bs" using bs_pos by simp
  have nlt: "\<not> ?sz < offset" "offset \<noteq> ?sz" using lt by auto
  have ofs: "unat offset < unat ?sz" using lt by (simp add: word_less_nat_alt)
  have rw: "offset mod ?bs < ?bs" using r rlt by (simp add: word_less_nat_alt)
  have um: "unat m = min (unat n) (unat ?sz - unat offset)"
    using unat_minus_no_wrap [OF less_imp_le [OF lt]] by (simp add: m_def min_def word_le_nat_alt)
  have ua: "unat act = min (unat ?bs - ?r) (unat m)"
    using unat_minus_no_wrap [OF less_imp_le [OF rw]] r by (simp add: act_def min_def word_le_nat_alt)
  have a1: "act \<le> m" by (simp add: act_def)
  have "unat offset + unat act \<le> unat ?sz" using ua um ofs by linarith
  moreover have "unat ?sz < 2 ^ 32" by (rule unat_u32_less)
  ultimately have a2: "offset + act \<le> ?sz"
    by (simp add: word_le_nat_alt unat_plus_no_wrap)
  have "unat (offset div ?bs) * unat ?bs \<le> unat offset" by (simp add: unat_div)
  then have inr: "unat (offset div ?bs) * unat ?bs < lim" using lm by simp
  obtain s1 where s1: "read_block d (offset div ?bs) s = Inr (bytes_at content (unat (offset div ?bs) * unat ?bs) (unat ?bs), s1)" "ok s1"
    using read_block_ok [OF ok inr] by blast
  have base: "unat (offset div ?bs) * unat ?bs + ?r = unat offset"
    using div_mult_mod_eq [of "unat offset" "unat ?bs"] by (simp add: unat_div)
  have full: "act = ?bs \<Longrightarrow> ?r = 0" using ua bs_pos min.cobounded1 [of "unat ?bs - ?r" "unat m"] by auto
  have full2: "act = ?bs \<Longrightarrow> offset mod ?bs = 0" using full r by (simp add: unat_eq_zero)
  have fit: "?r + unat act \<le> unat ?bs" using ua rlt by simp
  then have a3: "offset mod ?bs + act \<le> ?bs"
    using r unat_u32_less [of ?bs] by (simp add: word_le_nat_alt unat_plus_no_wrap)
  have cnt: "uint act = int (min (unat ?bs - ?r) (min (unat n) (unat ?sz - unat offset)))"
    using ua um by (simp add: uint_nat)
  have part: "take (unat act) (drop (unat (offset mod ?bs)) (bytes_at content (unat (offset div ?bs) * unat ?bs) (unat ?bs)))
      = bytes_at content (unat offset) (unat act)"
    using fit r by (simp add: bytes_at_slice base)
  have read: "bio_read d offset n s = Inr ((uint act, bytes_at content (unat offset) (unat act)), s1)"
  proof (cases "act = ?bs")
    case True
    then have "unat (offset div ?bs) * unat ?bs = unat offset" using base full by simp
    then show ?thesis
      using nlt block_size_pos s1(1) a1 a2 True full2
      by (simp add: bio_read_def Let_def m_def [symmetric] act_def [symmetric])
  next
    case False
    then show ?thesis
      using nlt block_size_pos s1(1) a1 a2 a3 part
      by (simp add: bio_read_def Let_def m_def [symmetric] act_def [symmetric])
  qed
  show ?thesis using read s1(2) unfolding cnt ua um by blast
qed

lemma read_all_loop_in:
  assumes "ok s" "offset \<le> size_in_bytes d" "unat offset + min (unat n) (unat (size_in_bytes d) - unat offset) \<le> lim"
  shows "\<exists>s1. read_all_loop d offset n c s =
    Inr ((c + int (min (unat n) (unat (size_in_bytes d) - unat offset)),
          bytes_at content (unat offset) (min (unat n) (unat (size_in_bytes d) - unat offset))), s1) \<and> ok s1"
  using assms
proof (induction "unat n" arbitrary: n offset c s rule: less_induct)
  case less
  let ?sz = "unat (size_in_bytes d)" and ?bs = "unat (block_size d)" and ?o = "unat offset"
  let ?m = "min (unat n) (?sz - ?o)"
  have ole: "?o \<le> ?sz" using less.prems(2) by (simp add: word_le_nat_alt)
  consider (none) "n = 0" | (eof) "n \<noteq> 0" "offset = size_in_bytes d" | (more) "n \<noteq> 0" "offset < size_in_bytes d"
    using less.prems(2) by fastforce
  then show ?case
  proof cases
    case none
    then show ?thesis using less.prems(1) by (subst read_all_loop.simps) simp
  next
    case eof
    then have "bio_read d offset n s = Inr ((0, []), s)" by (simp add: bio_read_def Let_def)
    then show ?thesis using eof less.prems(1) by (subst read_all_loop.simps) simp
  next
    case more
    let ?a = "min (?bs - ?o mod ?bs) ?m"
    have olt: "?o < ?sz" using more(2) by (simp add: word_less_nat_alt)
    have n0: "0 < unat n" using more(1) by (simp add: unat_gt_0)
    have rlt: "?o mod ?bs < ?bs" using bs_pos by simp
    have a0: "0 < ?a" using olt n0 rlt by simp
    have "?o < lim" using less.prems(3) olt n0 by linarith
    from bio_read_in [OF less.prems(1) this, of n] obtain s1 where
      rd: "bio_read d offset n s = Inr ((int ?a, bytes_at content ?o ?a), s1)" and ok1: "ok s1" by blast
    have alt: "?a \<le> unat n" "?a < 2 ^ 32" "?o + ?a \<le> ?sz"
      using unat_u32_less [of n] olt by linarith+
    have ua: "unat (of_int (int ?a) :: u32) = ?a" using alt(2) by (simp only: of_int_of_nat_eq unat_of_nat_u32)
    have "of_int (int ?a) \<le> n" unfolding word_le_nat_alt ua by (rule alt(1))
    from unat_minus_no_wrap [OF this] have un: "unat (n - of_int (int ?a)) = unat n - ?a" unfolding ua .
    have "?o + unat (of_int (int ?a) :: u32) < 2 ^ 32"
      unfolding ua using alt(3) unat_u32_less [of "size_in_bytes d"] by (rule le_less_trans)
    from unat_plus_no_wrap [OF this] have uo: "unat (offset + of_int (int ?a)) = ?o + ?a" unfolding ua .
    have m': "min (unat (n - of_int (int ?a))) (?sz - unat (offset + of_int (int ?a))) = ?m - ?a"
      unfolding un uo by linarith
    have lt: "unat (n - of_int (int ?a)) < unat n" unfolding un using a0 n0 by linarith
    have le: "offset + of_int (int ?a) \<le> size_in_bytes d" unfolding word_le_nat_alt uo by (rule alt(3))
    have lm: "unat (offset + of_int (int ?a)) + min (unat (n - of_int (int ?a))) (?sz - unat (offset + of_int (int ?a))) \<le> lim"
      unfolding m' unfolding uo using less.prems(3) by linarith
    obtain s2 where s2: "read_all_loop d (offset + of_int (int ?a)) (n - of_int (int ?a)) (c + int ?a) s1 =
        Inr ((c + int ?a + int (?m - ?a), bytes_at content (?o + ?a) (?m - ?a)), s2)" "ok s2"
      using less.hyps [OF lt ok1 le lm, of "c + int ?a"] unfolding m' unfolding uo by blast
    have np: "\<not> int ?a < 0" "int ?a \<noteq> 0" using a0 by linarith+
    have am: "?a + (?m - ?a) = ?m" by linarith
    have sum: "c + int ?a + int (?m - ?a) = c + int ?m" using arg_cong [OF am, of int] by linarith
    have cat: "bytes_at content ?o ?a @ bytes_at content (?o + ?a) (?m - ?a) = bytes_at content ?o ?m"
      unfolding bytes_at_append am ..
    have "read_all_loop d offset n c s = Inr ((c + int ?m, bytes_at content ?o ?m), s2)"
      by (subst read_all_loop.simps) (simp only: more(1) np rd s2(1) sum.case prod.case if_False bindR.simps cat sum)
    then show ?thesis using s2(2) by blast
  qed
qed

lemma read_all_ok:
  assumes "ok s" "offset \<le> size_in_bytes d" "unat offset + min (unat n) (unat (size_in_bytes d) - unat offset) \<le> lim"
  shows "\<exists>s1. bio_read_all d offset n s =
    Inr ((int (min (unat n) (unat (size_in_bytes d) - unat offset)),
          bytes_at content (unat offset) (min (unat n) (unat (size_in_bytes d) - unat offset))), s1) \<and> ok s1"
  using read_all_loop_in [OF assms, of 0] by (simp add: bio_read_all_def)

lemma read_all_beyond:
  "n \<noteq> 0 \<Longrightarrow> offset > size_in_bytes d \<Longrightarrow> bio_read_all d offset n s = Inr ((- 1, []), s)"
  unfolding bio_read_all_def by (subst read_all_loop.simps) (simp add: bio_read_def Let_def)

lemma read_all_inside:
  assumes ok: "ok s" and le: "unat offset + unat n \<le> lim"
  shows "\<exists>s1. bio_read_all d offset n s = Inr ((uint n, bytes_at content (unat offset) (unat n)), s1) \<and> ok s1"
proof -
  have m: "min (unat n) (unat (size_in_bytes d) - unat offset) = unat n" using le lim_le by linarith
  have "offset \<le> size_in_bytes d" using le lim_le by (simp add: word_le_nat_alt)
  from read_all_ok [of s offset n, unfolded m, OF ok this le]
  show ?thesis by (simp only: uint_nat)
qed

lemma read_bytes_ok:
  assumes "ok s" "unat offset + unat n \<le> lim"
  shows "\<exists>s1. bio_read_bytes d offset n s = Inr (bytes_at content (unat offset) (unat n), s1) \<and> ok s1"
  using read_all_inside [OF assms] by (auto simp: bio_read_bytes_def)

lemma read_u32_ok:
  assumes "ok s" "unat offset + 4 \<le> lim"
  shows "\<exists>s1. bio_read_u32 d offset s = Inr (le32 (bytes_at content (unat offset) 4), s1) \<and> ok s1"
  using read_bytes_ok [of s offset 4] assms by (auto simp: bio_read_u32_def)

lemma read_u16_ok:
  assumes "ok s" "unat offset + 2 \<le> lim"
  shows "\<exists>s1. bio_read_u16 d offset s = Inr (le16 (bytes_at content (unat offset) 2), s1) \<and> ok s1"
  using read_bytes_ok [of s offset 2] assms by (auto simp: bio_read_u16_def)

lemma read_u8_ok:
  assumes "ok s" "unat offset < lim"
  shows "\<exists>s1. bio_read_u8 d offset s = Inr (content (unat offset), s1) \<and> ok s1"
  using read_bytes_ok [of s offset 1] assms by (auto simp: bio_read_u8_def bytes_at_def)

end

end
