(* ===== verification/BlockList.thy ===== *)
theory BlockList
  imports BlockIO
begin

text \<open>
  The buckets of the buffer cache, the class \<open>BlockList\<close> of \<open>kernel/buffer_cache.h\<close>: a doubly linked list of
  blocks with \<open>first\<close> and \<open>last\<close>. Blocks live in a store, a function from addresses, and every link
  is an address or \<open>None\<close>; the assignments of the source are updates of the store in the order of the
  source. \<open>prev\<close> is a weak pointer there; the invariant \<open>linked\<close> shows that it always refers to a
  block of the list, so promoting it yields that block. The lock of a list makes each operation
  atomic.

  The locale \<open>bucket\<close> states what the cache relies on: the operations act on the list of addresses
  as removal of the last element, removal of the first block with a given number and insertion in
  front. The interpretation \<open>blist\<close> discharges it for the linked lists.
\<close>

section \<open>Blocks and lists\<close>

record blk =
  block_id :: u32
  buffer :: "u8 list"
  nxt :: "nat option"
  prv :: "nat option"

type_synonym store = "nat \<Rightarrow> blk"

record block_list =
  first :: "nat option"
  lst :: "nat option"

definition bl_new :: block_list where
  "bl_new = \<lparr>first = None, lst = None\<rparr>"

definition set_nxt :: "store \<Rightarrow> nat \<Rightarrow> nat option \<Rightarrow> store" where
  "set_nxt st a q = st(a := (st a)\<lparr>nxt := q\<rparr>)"

definition set_prv :: "store \<Rightarrow> nat \<Rightarrow> nat option \<Rightarrow> store" where
  "set_prv st a q = st(a := (st a)\<lparr>prv := q\<rparr>)"

definition bl_remove :: "store \<Rightarrow> block_list \<Rightarrow> bool \<times> store \<times> block_list" where
  "bl_remove st l =
     (case lst l of
        None \<Rightarrow> (False, st, l)
      | Some a \<Rightarrow>
          (let last_prev = prv (st a); l1 = l\<lparr>lst := last_prev\<rparr> in
           case last_prev of
             None \<Rightarrow> (True, st, l1\<lparr>first := None\<rparr>)
           | Some p \<Rightarrow> (True, set_nxt st p None, l1)))"

definition unlink :: "store \<Rightarrow> block_list \<Rightarrow> nat option \<Rightarrow> nat \<Rightarrow> store \<times> block_list" where
  "unlink st l prev cur =
     (let l1 = (if first l = Some cur then l\<lparr>first := nxt (st cur)\<rparr> else l);
          l2 = (if lst l1 = Some cur then l1\<lparr>lst := None\<rparr> else l1);
          st1 = (case prev of None \<Rightarrow> st | Some p \<Rightarrow> set_nxt st p (nxt (st cur)));
          (st2, l3) = (case nxt (st1 cur) of
                         Some n \<Rightarrow> (set_prv st1 n prev, l2)
                       | None \<Rightarrow> (st1, l2\<lparr>lst := prev\<rparr>));
          st3 = set_nxt st2 cur None;
          st4 = set_prv st3 cur None
      in (st4, l3))"

fun extract_loop :: "nat \<Rightarrow> u32 \<Rightarrow> store \<Rightarrow> block_list \<Rightarrow> nat option \<Rightarrow> nat option
    \<Rightarrow> (nat option \<times> store \<times> block_list) res" where
  "extract_loop n b st l prev None = Inr (None, st, l)"
| "extract_loop 0 b st l prev (Some cur) = Inl NoFuel"
| "extract_loop (Suc n) b st l prev (Some cur) =
     (if block_id (st cur) = b
      then (case unlink st l prev cur of (st1, l1) \<Rightarrow> Inr (Some cur, st1, l1))
      else extract_loop n b st l (Some cur) (nxt (st cur)))"

definition bl_extract :: "nat \<Rightarrow> u32 \<Rightarrow> store \<Rightarrow> block_list \<Rightarrow> (nat option \<times> store \<times> block_list) res" where
  "bl_extract n b st l = extract_loop n b st l None (first l)"

definition bl_add :: "store \<Rightarrow> block_list \<Rightarrow> nat \<Rightarrow> store \<times> block_list" where
  "bl_add st l a =
     (let st1 = set_nxt st a (first l);
          (st2, l1) = (case first l of
                         None \<Rightarrow> (st1, l\<lparr>lst := Some a\<rparr>)
                       | Some f \<Rightarrow> (set_prv st1 f (Some a), l))
      in (st2, l1\<lparr>first := Some a\<rparr>))"

section \<open>Linked segments\<close>

fun hd_or :: "nat list \<Rightarrow> nat option \<Rightarrow> nat option" where
  "hd_or [] q = q"
| "hd_or (a # as) q = Some a"

definition last_or :: "nat option \<Rightarrow> nat list \<Rightarrow> nat option" where
  "last_or p as = (if as = [] then p else Some (last as))"

fun links :: "store \<Rightarrow> nat option \<Rightarrow> nat list \<Rightarrow> nat option \<Rightarrow> bool" where
  "links st p [] q \<longleftrightarrow> True"
| "links st p (a # as) q \<longleftrightarrow> prv (st a) = p \<and> nxt (st a) = hd_or as q \<and> links st (Some a) as q"

lemma last_or_simps [simp]:
  "last_or p [] = p" "last_or p (a # as) = last_or (Some a) as" "last_or p (as @ [a]) = Some a"
  "last_or p (as @ a # bs) = last_or (Some a) bs"
  by (simp_all add: last_or_def)

lemma hd_or_append: "hd_or (as @ bs) q = hd_or as (hd_or bs q)"
  by (cases as) simp_all

lemma links_append:
  "links st p (as @ bs) q \<longleftrightarrow> links st p as (hd_or bs q) \<and> links st (last_or p as) bs q"
  by (induction as arbitrary: p) (simp_all add: hd_or_append)

lemma links_cong:
  "(\<And>a. a \<in> set as \<Longrightarrow> prv (st a) = prv (st' a) \<and> nxt (st a) = nxt (st' a)) \<Longrightarrow> links st p as q \<longleftrightarrow> links st' p as q"
  by (induction as arbitrary: p) simp_all

lemma set_links [simp]:
  "nxt (set_nxt st a q b) = (if b = a then q else nxt (st b))" "prv (set_nxt st a q b) = prv (st b)"
  "prv (set_prv st a q b) = (if b = a then q else prv (st b))" "nxt (set_prv st a q b) = nxt (st b)"
  "block_id (set_nxt st a q b) = block_id (st b)" "block_id (set_prv st a q b) = block_id (st b)"
  "buffer (set_nxt st a q b) = buffer (st b)" "buffer (set_prv st a q b) = buffer (st b)"
  by (simp_all add: set_nxt_def set_prv_def)

lemma links_set_next:
  "links st p (as @ [a]) q \<Longrightarrow> a \<notin> set as \<Longrightarrow> links (set_nxt st a q') p (as @ [a]) q'"
  by (simp add: links_append) (subst links_cong [where st' = st], auto)

lemma links_set_prev:
  "links st p (a # as) q \<Longrightarrow> a \<notin> set as \<Longrightarrow> links (set_prv st a p') p' (a # as) q"
  by simp (subst links_cong [where st' = st], auto)

lemma links_other:
  "a \<notin> set as \<Longrightarrow> links (set_nxt st a r) p as q \<longleftrightarrow> links st p as q"
  "a \<notin> set as \<Longrightarrow> links (set_prv st a r) p as q \<longleftrightarrow> links st p as q"
  by (auto intro!: links_cong)

definition linked :: "store \<Rightarrow> block_list \<Rightarrow> nat list \<Rightarrow> bool" where
  "linked st l as \<longleftrightarrow> distinct as \<and> first l = hd_or as None \<and> lst l = last_or None as \<and> links st None as None"

definition same_data :: "store \<Rightarrow> store \<Rightarrow> bool" where
  "same_data st st' \<longleftrightarrow> (\<forall>a. block_id (st' a) = block_id (st a) \<and> buffer (st' a) = buffer (st a))"

definition same_links_off :: "nat set \<Rightarrow> store \<Rightarrow> store \<Rightarrow> bool" where
  "same_links_off A st st' \<longleftrightarrow> (\<forall>a. a \<notin> A \<longrightarrow> st' a = st a)"

section \<open>The operations on the list of addresses\<close>

lemma linked_new: "linked st bl_new []"
  by (simp add: linked_def bl_new_def)

lemma linked_frame: "linked st l as \<Longrightarrow> same_links_off A st st' \<Longrightarrow> set as \<inter> A = {} \<Longrightarrow> linked st' l as"
  unfolding linked_def same_links_off_def by (subst links_cong [where st' = st]) (auto simp: disjoint_iff)

lemma bl_remove_linked:
  assumes "linked st l as" and "bl_remove st l = (r, st', l')"
  shows "linked st' l' (butlast as) \<and> r = (as \<noteq> []) \<and> same_data st st' \<and> same_links_off (set as) st st'"
proof (cases as rule: rev_cases)
  case Nil
  then show ?thesis using assms by (auto simp: linked_def bl_remove_def same_data_def same_links_off_def)
next
  case (snoc bs a)
  note l = assms(1) [unfolded linked_def snoc]
  have pa: "prv (st a) = last_or None bs" "links st None bs (Some a)" using l by (auto simp: links_append)
  show ?thesis
  proof (cases bs rule: rev_cases)
    case Nil
    then show ?thesis using assms(2) l snoc
      by (auto simp: bl_remove_def linked_def Let_def same_data_def same_links_off_def)
  next
    case (snoc cs p)
    have "links (set_nxt st p None) None (cs @ [p]) None"
      using links_set_next pa(2) l snoc by (metis distinct_append not_distinct_conv_prefix)
    moreover have "r" "st' = set_nxt st p None" "l' = l\<lparr>lst := Some p\<rparr>"
      using assms(2) l pa(1) snoc by (simp_all add: bl_remove_def)
    moreover have "butlast as = cs @ [p]" "as = cs @ [p, a]"
      using \<open>as = bs @ [a]\<close> snoc by (simp_all add: butlast_append)
    ultimately show ?thesis
      using l snoc by (simp add: linked_def same_data_def same_links_off_def set_nxt_def hd_or_append)
  qed
qed

lemma bl_add_linked:
  assumes "linked st l as" "a \<notin> set as" "prv (st a) = None" and "bl_add st l a = (st', l')"
  shows "linked st' l' (a # as) \<and> same_data st st' \<and> same_links_off (insert a (set as)) st st'"
proof (cases as)
  case Nil
  then show ?thesis using assms
    by (auto simp: linked_def bl_add_def Let_def same_data_def same_links_off_def set_nxt_def)
next
  case (Cons f bs)
  note l = assms(1) [unfolded linked_def Cons]
  have "links (set_prv (set_nxt st a (Some f)) f (Some a)) (Some a) (f # bs) None"
    by (rule links_set_prev [where p = None]) (use l assms(2) Cons in \<open>auto simp: links_other simp del: links.simps\<close>)
  then show ?thesis using assms(2-4) l Cons
    by (auto simp: linked_def bl_add_def Let_def same_data_def same_links_off_def set_nxt_def set_prv_def)
qed

lemma unlink_linked:
  assumes "linked st l (as @ c # bs)" and "unlink st l (last_or None as) c = (st', l')"
  shows "linked st' l' (as @ bs) \<and> same_data st st' \<and> same_links_off (set (as @ c # bs)) st st' \<and>
    prv (st' c) = None \<and> nxt (st' c) = None"
proof -
  note l = assms(1) [unfolded linked_def]
  have d: "distinct as" "distinct bs" "c \<notin> set as" "c \<notin> set bs" "set as \<inter> set bs = {}" using l by auto
  have s: "links st None as (Some c)" "prv (st c) = last_or None as" "nxt (st c) = hd_or bs None" "links st (Some c) bs None"
    using l by (auto simp: links_append)
  define st1 where "st1 = (case last_or None as of None \<Rightarrow> st | Some p \<Rightarrow> set_nxt st p (nxt (st c)))"
  define st2 where "st2 = (case hd_or bs None of Some n \<Rightarrow> set_prv st1 n (last_or None as) | None \<Rightarrow> st1)"
  have ne: "last_or None as \<noteq> Some c" using d(3) by (auto simp: last_or_def)
  have n1: "nxt (st1 c) = hd_or bs None" using ne s(3) by (auto simp: st1_def split: option.splits)
  have st': "st' = set_prv (set_nxt st2 c None) c None"
    using assms(2) n1 by (auto simp: unlink_def Let_def st1_def [symmetric] st2_def split: option.splits prod.splits)
  have fst': "first l' = hd_or (as @ bs) None"
    using assms(2) l d s by (cases as) (auto simp: unlink_def Let_def split: option.splits prod.splits)
  have lst': "lst l' = last_or None (as @ bs)"
    using assms(2) l d s(3) ne
    by (cases as rule: rev_cases; cases bs) (auto simp: unlink_def Let_def last_or_def split: option.splits prod.splits if_splits)
  have a1: "links st1 None as (hd_or bs None)"
  proof (cases as rule: rev_cases)
    case (snoc as0 p)
    then have "st1 = set_nxt st p (hd_or bs None)" by (simp add: st1_def s(3))
    then show ?thesis using links_set_next s(1) d(1) snoc by (metis distinct_append not_distinct_conv_prefix)
  qed simp
  have b1: "links st1 (Some c) bs None"
    using s(4) d(5) by (auto simp: st1_def last_or_def links_other disjoint_iff split: option.splits)
  have a2: "links st2 None as (hd_or bs None)"
  proof (cases bs)
    case (Cons n bs0)
    then have "n \<notin> set as" using d(5) by auto
    then show ?thesis using a1 Cons by (simp add: st2_def links_other)
  qed (use a1 in \<open>simp add: st2_def\<close>)
  have b2: "links st2 (last_or None as) bs None"
    using b1 d(2) links_set_prev by (cases bs) (auto simp: st2_def simp del: links.simps(2))
  have "links st' None (as @ bs) None" using a2 b2 d by (simp add: links_append st' links_other)
  moreover have "same_data st st'"
    by (auto simp: same_data_def st' st2_def st1_def split: option.splits)
  moreover have "same_links_off (set (as @ c # bs)) st st'"
    by (cases bs) (auto simp: same_links_off_def st' st2_def st1_def last_or_def set_nxt_def set_prv_def split: option.splits)
  ultimately show ?thesis using fst' lst' d l by (simp add: linked_def st')
qed

lemma extract_loop_linked:
  assumes "linked st l (as @ bs)" "\<And>a. a \<in> set as \<Longrightarrow> block_id (st a) \<noteq> b" "length bs \<le> n"
  shows "extract_loop n b st l (last_or None as) (hd_or bs None) =
    (case List.extract (\<lambda>a. block_id (st a) = b) bs of
       None \<Rightarrow> Inr (None, st, l)
     | Some (cs, c, ds) \<Rightarrow> (case unlink st l (last_or None (as @ cs)) c of (st1, l1) \<Rightarrow> Inr (Some c, st1, l1)))"
  using assms
proof (induction bs arbitrary: as n)
  case Nil
  then show ?case by (simp add: List.extract_def)
next
  case (Cons a bs)
  then obtain m where n: "n = Suc m" "length bs \<le> m" by (cases n) auto
  show ?case
  proof (cases "block_id (st a) = b")
    case True
    then show ?thesis by (simp add: n extract_Cons_code)
  next
    case False
    have "nxt (st a) = hd_or bs None" using Cons.prems(1) by (simp add: linked_def links_append)
    moreover have "extract_loop m b st l (last_or None (as @ [a])) (hd_or bs None) =
      (case List.extract (\<lambda>a. block_id (st a) = b) bs of None \<Rightarrow> Inr (None, st, l)
       | Some (cs, c, ds) \<Rightarrow> (case unlink st l (last_or None ((as @ [a]) @ cs)) c of (st1, l1) \<Rightarrow> Inr (Some c, st1, l1)))"
      by (rule Cons.IH) (use Cons.prems False n in auto)
    ultimately show ?thesis using False
      by (auto simp: n extract_Cons_code split: option.splits)
  qed
qed

lemma bl_extract_linked:
  assumes "linked st l as" "length as \<le> n"
  shows "\<exists>r st' l'. bl_extract n b st l = Inr (r, st', l') \<and> same_data st st' \<and> same_links_off (set as) st st' \<and>
    (case r of
       None \<Rightarrow> (\<forall>a\<in>set as. block_id (st a) \<noteq> b) \<and> st' = st \<and> l' = l
     | Some c \<Rightarrow> c \<in> set as \<and> block_id (st c) = b \<and> linked st' l' (remove1 c as) \<and> prv (st' c) = None)"
proof (cases "List.extract (\<lambda>a. block_id (st a) = b) as")
  case None
  then have nb: "\<forall>a\<in>set as. block_id (st a) \<noteq> b" by (simp add: extract_None_iff)
  have "bl_extract n b st l = Inr (None, st, l)"
    using extract_loop_linked [of st l "[]" as b n] assms None by (simp add: bl_extract_def linked_def)
  then show ?thesis using nb by (auto simp: same_data_def same_links_off_def)
next
  case (Some t)
  then obtain cs c ds where t: "List.extract (\<lambda>a. block_id (st a) = b) as = Some (cs, c, ds)" by (cases t) auto
  then have as: "as = cs @ c # ds" "block_id (st c) = b" by (auto simp: extract_Some_iff)
  obtain st' l' where u: "unlink st l (last_or None cs) c = (st', l')" by (cases "unlink st l (last_or None cs) c")
  have "c \<notin> set cs" using assms(1) as(1) by (auto simp: linked_def)
  then have rm: "remove1 c as = cs @ ds" by (simp add: as(1) remove1_append)
  have "bl_extract n b st l = Inr (Some c, st', l')"
    using extract_loop_linked [of st l "[]" as b n] assms t u by (simp add: bl_extract_def linked_def)
  moreover have "linked st' l' (remove1 c as)" "same_data st st'" "same_links_off (set as) st st'" "prv (st' c) = None"
    using unlink_linked [OF assms(1) [unfolded as(1)] u] unfolding rm by (simp_all add: as(1))
  moreover have "c \<in> set as" using as(1) by simp
  ultimately show ?thesis using as(2) by simp
qed

section \<open>The interface of a bucket\<close>

locale bucket =
  fixes rep :: "store \<Rightarrow> 'l \<Rightarrow> nat list \<Rightarrow> bool"
    and rmv :: "store \<Rightarrow> 'l \<Rightarrow> bool \<times> store \<times> 'l"
    and ext :: "nat \<Rightarrow> u32 \<Rightarrow> store \<Rightarrow> 'l \<Rightarrow> (nat option \<times> store \<times> 'l) res"
    and ad :: "store \<Rightarrow> 'l \<Rightarrow> nat \<Rightarrow> store \<times> 'l"
  assumes rmv_law: "rep st l as \<Longrightarrow> rmv st l = (r, st', l') \<Longrightarrow>
      rep st' l' (butlast as) \<and> r = (as \<noteq> []) \<and> same_data st st' \<and> same_links_off (set as) st st'"
    and ad_law: "rep st l as \<Longrightarrow> a \<notin> set as \<Longrightarrow> prv (st a) = None \<Longrightarrow> ad st l a = (st', l') \<Longrightarrow>
      rep st' l' (a # as) \<and> same_data st st' \<and> same_links_off (insert a (set as)) st st'"
    and ext_law: "rep st l as \<Longrightarrow> length as \<le> n \<Longrightarrow>
      \<exists>r st' l'. ext n b st l = Inr (r, st', l') \<and> same_data st st' \<and> same_links_off (set as) st st' \<and>
        (case r of
           None \<Rightarrow> (\<forall>a\<in>set as. block_id (st a) \<noteq> b) \<and> st' = st \<and> l' = l
         | Some c \<Rightarrow> c \<in> set as \<and> block_id (st c) = b \<and> rep st' l' (remove1 c as) \<and> prv (st' c) = None)"
    and rep_distinct: "rep st l as \<Longrightarrow> distinct as"
begin

lemma touch:
  assumes "rep st l as" "length as \<le> n" "a \<in> set as" "block_id (st a) = b"
  shows "\<exists>c st1 l1 st2 l2. ext n b st l = Inr (Some c, st1, l1) \<and> ad st1 l1 c = (st2, l2) \<and>
    block_id (st c) = b \<and> rep st2 l2 (c # remove1 c as) \<and> same_data st st2"
proof -
  obtain r st1 l1 where r: "ext n b st l = Inr (r, st1, l1)" "same_data st st1"
    "case r of None \<Rightarrow> (\<forall>a\<in>set as. block_id (st a) \<noteq> b) \<and> st1 = st \<and> l1 = l
     | Some c \<Rightarrow> c \<in> set as \<and> block_id (st c) = b \<and> rep st1 l1 (remove1 c as) \<and> prv (st1 c) = None"
    using ext_law [OF assms(1,2), of b] by blast
  then obtain c where c: "r = Some c" "block_id (st c) = b" "rep st1 l1 (remove1 c as)" "prv (st1 c) = None"
    using assms(3,4) by (cases r) auto
  obtain st2 l2 where a: "ad st1 l1 c = (st2, l2)" by (cases "ad st1 l1 c")
  have "c \<notin> set (remove1 c as)" using rep_distinct [OF assms(1)] by simp
  then show ?thesis using ad_law [OF c(3) _ c(4) a] r c a by (auto simp: same_data_def)
qed

end

interpretation blist: bucket linked bl_remove bl_extract bl_add
proof
  show "linked st l as \<Longrightarrow> bl_remove st l = (r, st', l') \<Longrightarrow>
      linked st' l' (butlast as) \<and> r = (as \<noteq> []) \<and> same_data st st' \<and> same_links_off (set as) st st'" for st l as r st' l'
    by (rule bl_remove_linked)
  show "linked st l as \<Longrightarrow> a \<notin> set as \<Longrightarrow> prv (st a) = None \<Longrightarrow> bl_add st l a = (st', l') \<Longrightarrow>
      linked st' l' (a # as) \<and> same_data st st' \<and> same_links_off (insert a (set as)) st st'" for st l as a st' l'
    by (rule bl_add_linked)
  show "linked st l as \<Longrightarrow> length as \<le> n \<Longrightarrow>
      \<exists>r st' l'. bl_extract n b st l = Inr (r, st', l') \<and> same_data st st' \<and> same_links_off (set as) st st' \<and>
        (case r of
           None \<Rightarrow> (\<forall>a\<in>set as. block_id (st a) \<noteq> b) \<and> st' = st \<and> l' = l
         | Some c \<Rightarrow> c \<in> set as \<and> block_id (st c) = b \<and> linked st' l' (remove1 c as) \<and> prv (st' c) = None)" for st l as n b
    by (rule bl_extract_linked)
  show "linked st l as \<Longrightarrow> distinct as" for st l as by (simp add: linked_def)
qed

section \<open>Property\<close>

text \<open>
  (bucket_touch) When a bucket holds a block with the number asked for, \<open>extract\<close> followed by \<open>add\<close> yields such a
  block and leaves a well-formed doubly linked list in which this block is first and the others keep
  their order; no block changes its number or its bytes.
\<close>

theorem bucket_touch:
  assumes "linked st l as" "length as \<le> n" "a \<in> set as" "block_id (st a) = b"
  shows "\<exists>c st1 l1 st2 l2. bl_extract n b st l = Inr (Some c, st1, l1) \<and> bl_add st1 l1 c = (st2, l2) \<and>
    block_id (st c) = b \<and> linked st2 l2 (c # remove1 c as) \<and> same_data st st2"
  by (rule blist.touch [OF assms])

definition two_blocks :: store where
  "two_blocks = (\<lambda>a. if a = 0 then \<lparr>block_id = 10, buffer = [], nxt = Some 1, prv = None\<rparr>
                     else \<lparr>block_id = (if a = 1 then 20 else 0), buffer = [], nxt = None, prv = Some 0\<rparr>)"

theorem bucket_touch_witness:
  "\<exists>st1 l1 st2 l2. bl_extract 2 20 two_blocks \<lparr>first = Some 0, lst = Some 1\<rparr> = Inr (Some 1, st1, l1) \<and>
     bl_add st1 l1 1 = (st2, l2) \<and> linked st2 l2 [1, 0]"
proof -
  have l: "linked two_blocks \<lparr>first = Some 0, lst = Some 1\<rparr> [0, 1]"
    by (simp add: linked_def two_blocks_def)
  obtain c st1 l1 st2 l2 where c: "bl_extract 2 20 two_blocks \<lparr>first = Some 0, lst = Some 1\<rparr> = Inr (Some c, st1, l1)"
    "bl_add st1 l1 c = (st2, l2)" "block_id (two_blocks c) = 20" "linked st2 l2 (c # remove1 c [0, 1])"
    using bucket_touch [OF l, of 2 1 20] by (auto simp: two_blocks_def)
  have "c = 1" using c(3) by (simp add: two_blocks_def split: if_splits)
  then show ?thesis using c by auto
qed

end
