(* ===== verification/IdeDisk.thy ===== *)
theory IdeDisk
  imports BlockIO
begin

text \<open>
  The disk driver, \<open>kernel/ide.h\<close> and \<open>kernel/ide.cc\<close>: programmed I/O on the task file registers of the
  controller.

  The hardware is a parameter, \<open>ide_hw\<close>: what successive reads of the status register and of
  \<open>Pit::jiffies\<close> return, and the data words of every sector. A controller that receives the command
  \<open>0x20\<close> delivers the words of the sector that its registers address in LBA28 mode. The state of the
  driver is the record \<open>ide\<close> with the registers it has written and the number of times it has read
  the status and the clock. The three waiting loops take a bound on the number of turns; the predicate
  \<open>hw_ready\<close> says that the drive reports no error and that each awaited event comes within that bound,
  and then the loops end. The lock around \<open>read_block\<close> makes it atomic and is not part of the state.
\<close>

section \<open>The driver\<close>

record ide_hw =
  hw_status :: "nat \<Rightarrow> u8"
  hw_jiffies :: "nat \<Rightarrow> u32"
  hw_words :: "u32 \<Rightarrow> u8 \<Rightarrow> u32 \<Rightarrow> nat \<Rightarrow> u32"

record ide =
  drive :: u32
  latency_ms :: u32
  ide_last :: u32
  nRead :: u32
  regs :: "u32 \<Rightarrow> u8"
  polls :: nat
  clocks :: nat

definition sector_size :: u32 where "sector_size = 512"

definition ide_new :: "u32 \<Rightarrow> u32 \<Rightarrow> ide" where
  "ide_new dr lat = \<lparr>drive = dr, latency_ms = lat, ide_last = - 1, nRead = 0, regs = (\<lambda>_. 0), polls = 0, clocks = 0\<rparr>"

definition controller :: "u32 \<Rightarrow> u32" where "controller dr = drop_bit 1 dr AND 1"
definition channel :: "u32 \<Rightarrow> u32" where "channel dr = dr AND 1"

definition ports :: "u32 list" where "ports = [0x1f0, 0x170]"
definition port :: "u32 \<Rightarrow> u32" where "port dr = ports ! unat (controller dr)"

definition getStatus :: "ide_hw \<Rightarrow> ide \<Rightarrow> u8 \<times> ide" where
  "getStatus hw s = (hw_status hw (polls s), s\<lparr>polls := polls s + 1\<rparr>)"

definition ERR :: u8 where "ERR = 0x01"
definition DRQ :: u8 where "DRQ = 0x08"
definition DF :: u8 where "DF = 0x20"
definition DRDY :: u8 where "DRDY = 0x40"
definition BSY :: u8 where "BSY = 0x80"

fun wait_while :: "nat \<Rightarrow> (u8 \<Rightarrow> bool) \<Rightarrow> ide_hw \<Rightarrow> ide \<Rightarrow> ide res" where
  "wait_while 0 P hw s = Inl NoFuel"
| "wait_while (Suc n) P hw s =
     (let (st, s1) = getStatus hw s in if P st then wait_while n P hw s1 else Inr s1)"

definition waitForDrive :: "nat \<Rightarrow> ide_hw \<Rightarrow> ide \<Rightarrow> ide res" where
  "waitForDrive n hw s =
     (let (status, s1) = getStatus hw s in
      if status AND (ERR OR DF) \<noteq> 0 then Inl (Panic ''drive error'')
      else if status AND DRDY = 0 then Inl (Panic ''drive is not ready'')
      else wait_while n (\<lambda>st. st AND BSY \<noteq> 0) hw s1)"

definition outb :: "u32 \<Rightarrow> u32 \<Rightarrow> ide \<Rightarrow> ide" where
  "outb p v s = s\<lparr>regs := (regs s)(p := ucast v)\<rparr>"

text \<open>What the registers of a controller address, and the words it then delivers on \<open>inl(base)\<close>.\<close>

definition addressed :: "(u32 \<Rightarrow> u8) \<Rightarrow> u32 \<Rightarrow> u32" where
  "addressed r base =
     push_bit 24 (ucast (r (base + 6) AND 0xf)) OR push_bit 16 (ucast (r (base + 5))) OR
     push_bit 8 (ucast (r (base + 4))) OR ucast (r (base + 3))"

definition addressed_channel :: "(u32 \<Rightarrow> u8) \<Rightarrow> u32 \<Rightarrow> u8" where
  "addressed_channel r base = drop_bit 4 (r (base + 6)) AND 1"

definition word_bytes :: "u32 \<Rightarrow> u8 list" where
  "word_bytes w = [ucast w, ucast (drop_bit 8 w), ucast (drop_bit 16 w), ucast (drop_bit 24 w)]"

definition inl_words :: "ide_hw \<Rightarrow> ide \<Rightarrow> u32 \<Rightarrow> u32 list" where
  "inl_words hw s base =
     map (hw_words hw base (addressed_channel (regs s) base) (addressed (regs s) base)) [0 ..< unat sector_size div 4]"

fun wait_until :: "nat \<Rightarrow> u32 \<Rightarrow> ide_hw \<Rightarrow> ide \<Rightarrow> ide res" where
  "wait_until 0 e hw s = Inl NoFuel"
| "wait_until (Suc n) e hw s =
     (let s1 = s\<lparr>clocks := clocks s + 1\<rparr>
      in if hw_jiffies hw (clocks s) < e then wait_until n e hw s1 else Inr s1)"

definition issue_read :: "u32 \<Rightarrow> u32 \<Rightarrow> u32 \<Rightarrow> ide \<Rightarrow> ide" where
  "issue_read base ch sector s =
     (outb (base + 7) 0x20 \<circ> outb (base + 6) (0xE0 OR push_bit 4 ch OR (drop_bit 24 sector AND 0xf)) \<circ>
      outb (base + 5) (drop_bit 16 sector) \<circ> outb (base + 4) (drop_bit 8 sector) \<circ>
      outb (base + 3) (drop_bit 0 sector) \<circ> outb (base + 2) 1) s"

definition ide_read_block :: "ide_hw \<Rightarrow> nat \<Rightarrow> u32 \<Rightarrow> ide \<Rightarrow> (u8 list \<times> ide) res" where
  "ide_read_block hw n sector s0 =
     (let e = hw_jiffies hw (clocks s0) + (if sector = ide_last s0 + 1 then latency_ms s0 div 2 else latency_ms s0);
          s1 = s0\<lparr>clocks := clocks s0 + 1, ide_last := sector, nRead := nRead s0 + 1\<rparr>;
          base = port (drive s1);
          ch = channel (drive s1)
      in bindR (waitForDrive n hw s1) (\<lambda>s2.
         bindR (waitForDrive n hw (issue_read base ch sector s2)) (\<lambda>s3.
         bindR (wait_while n (\<lambda>st. st AND DRQ = 0) hw s3) (\<lambda>s4.
         bindR (wait_until n e hw s4) (\<lambda>s5.
           Inr (concat (map word_bytes (inl_words hw s4 base)), s5))))))"

definition ide_io :: "ide_hw \<Rightarrow> nat \<Rightarrow> ide blockio" where
  "ide_io hw n = \<lparr>block_size = sector_size, size_in_bytes = NOT 0, read_block = ide_read_block hw n\<rparr>"

section \<open>Waiting ends\<close>

definition hw_ready :: "ide_hw \<Rightarrow> nat \<Rightarrow> u32 \<Rightarrow> bool" where
  "hw_ready hw n lat \<longleftrightarrow>
     (\<forall>t. hw_status hw t AND (ERR OR DF) = 0 \<and> hw_status hw t AND DRDY \<noteq> 0) \<and>
     (\<forall>t. \<exists>k<n. hw_status hw (t + k) AND BSY = 0) \<and>
     (\<forall>t. \<exists>k<n. hw_status hw (t + k) AND DRQ \<noteq> 0) \<and>
     (\<forall>t. \<forall>l \<in> {lat, lat div 2}. \<exists>k<n. hw_jiffies hw t + l \<le> hw_jiffies hw (Suc t + k))"

definition same_but_time :: "ide \<Rightarrow> ide \<Rightarrow> bool" where
  "same_but_time s s' \<longleftrightarrow> drive s' = drive s \<and> latency_ms s' = latency_ms s \<and> regs s' = regs s \<and>
     ide_last s' = ide_last s \<and> nRead s' = nRead s"

lemma wait_while_ok:
  assumes "\<exists>k<n. \<not> P (hw_status hw (polls s + k))"
  shows "\<exists>s1. wait_while n P hw s = Inr s1 \<and> same_but_time s s1 \<and> clocks s1 = clocks s"
  using assms
proof (induction n arbitrary: s)
  case (Suc n)
  then obtain k where k: "k < Suc n" "\<not> P (hw_status hw (polls s + k))" by blast
  show ?case
  proof (cases "P (hw_status hw (polls s))")
    case True
    then obtain j where "k = Suc j" "j < n" using k by (cases k) auto
    then have "\<exists>k<n. \<not> P (hw_status hw (polls (s\<lparr>polls := polls s + 1\<rparr>) + k))" using k(2) by auto
    from Suc.IH [OF this] show ?thesis using True by (auto simp: getStatus_def same_but_time_def)
  qed (simp add: getStatus_def same_but_time_def)
qed simp

lemma wait_until_ok:
  assumes "\<exists>k<n. e \<le> hw_jiffies hw (clocks s + k)"
  shows "\<exists>s1. wait_until n e hw s = Inr s1 \<and> same_but_time s s1"
  using assms
proof (induction n arbitrary: s)
  case (Suc n)
  then obtain k where k: "k < Suc n" "e \<le> hw_jiffies hw (clocks s + k)" by blast
  show ?case
  proof (cases "hw_jiffies hw (clocks s) < e")
    case True
    then obtain j where "k = Suc j" "j < n" using k by (cases k) auto
    then have "\<exists>k<n. e \<le> hw_jiffies hw (clocks (s\<lparr>clocks := clocks s + 1\<rparr>) + k)" using k(2) by auto
    from Suc.IH [OF this] show ?thesis using True by (auto simp: Let_def same_but_time_def)
  qed (simp add: Let_def same_but_time_def)
qed simp

lemma hw_ready_D:
  assumes "hw_ready hw n lat"
  shows "hw_status hw t AND (ERR OR DF) = 0" "\<exists>k<n. hw_status hw (t + k) AND BSY = 0"
    and "\<exists>k<n. hw_status hw (t + k) AND DRQ \<noteq> 0" "hw_status hw t AND DRDY \<noteq> 0"
    and "\<exists>k<n. hw_jiffies hw t + lat \<le> hw_jiffies hw (Suc t + k)"
    and "\<exists>k<n. hw_jiffies hw t + lat div 2 \<le> hw_jiffies hw (Suc t + k)"
  using assms unfolding hw_ready_def by blast+

lemma waitForDrive_ok:
  assumes "hw_ready hw n lat"
  shows "\<exists>s1. waitForDrive n hw s = Inr s1 \<and> same_but_time s s1 \<and> clocks s1 = clocks s"
proof -
  have "\<exists>k<n. \<not> (hw_status hw (polls (s\<lparr>polls := polls s + 1\<rparr>) + k) AND BSY \<noteq> 0)"
    using hw_ready_D(2) [OF assms, of "polls s + 1"] by simp
  from wait_while_ok [where P = "\<lambda>st. st AND BSY \<noteq> 0", OF this] show ?thesis
    using hw_ready_D(1,4) [OF assms, of "polls s"] by (auto simp: waitForDrive_def getStatus_def same_but_time_def)
qed

section \<open>The registers address the sector\<close>

lemma and_15: "(x :: u8) AND 0xf = take_bit 4 x" "(y :: u32) AND 0xf = take_bit 4 y"
  by (simp_all add: take_bit_eq_mask mask_eq_exp_minus_1)

lemma addressed_issue: "addressed (regs (issue_read base ch sector s)) base = take_bit 28 sector"
proof -
  have ne: "base + i \<noteq> base + j" if "i \<noteq> j" for i j :: u32 using that by simp
  have r: "regs (issue_read base ch sector s) (base + 3) = ucast sector"
    "regs (issue_read base ch sector s) (base + 4) = ucast (drop_bit 8 sector)"
    "regs (issue_read base ch sector s) (base + 5) = ucast (drop_bit 16 sector)"
    "regs (issue_read base ch sector s) (base + 6) = ucast (0xE0 OR push_bit 4 ch OR (drop_bit 24 sector AND 0xf))"
    by (simp_all add: issue_read_def outb_def)
  have hi: "(ucast (0xE0 OR push_bit 4 ch OR (drop_bit 24 sector AND 0xf)) :: u8) AND 0xf = ucast (take_bit 4 (drop_bit 24 sector))"
    unfolding and_15
  proof (rule bit_word_eqI)
    fix n assume "n < LENGTH(8)"
    show "bit (take_bit 4 (ucast (0xE0 OR push_bit 4 ch OR take_bit 4 (drop_bit 24 sector)) :: u8)) n =
      bit (ucast (take_bit 4 (drop_bit 24 sector)) :: u8) n"
    proof (cases "n < 4")
      case True
      then have "n = 0 \<or> n = 1 \<or> n = 2 \<or> n = 3" by linarith
      then have "\<not> bit (0xE0 :: u32) n" by (elim disjE) simp_all
      then show ?thesis using True by (simp add: bit_simps)
    qed (simp add: bit_simps)
  qed
  show ?thesis
    unfolding addressed_def r hi
  proof (rule bit_word_eqI)
    fix n assume n: "n < LENGTH(32)"
    consider "n < 8" | "8 \<le> n" "n < 16" | "16 \<le> n" "n < 24" | "24 \<le> n" "n < 28" | "28 \<le> n" by linarith
    then show "bit (push_bit 24 (ucast (ucast (take_bit 4 (drop_bit 24 sector)) :: u8) :: u32) OR
        push_bit 16 (ucast (ucast (drop_bit 16 sector) :: u8)) OR
        push_bit 8 (ucast (ucast (drop_bit 8 sector) :: u8)) OR ucast (ucast sector :: u8)) n =
      bit (take_bit 28 sector) n"
      using n by cases (auto simp: bit_simps)
  qed
qed

lemma addressed_channel_issue:
  "addressed_channel (regs (issue_read base (channel dr) sector s)) base = ucast (channel dr)"
proof -
  have r: "regs (issue_read base (channel dr) sector s) (base + 6) =
      ucast (0xE0 OR push_bit 4 (channel dr) OR (drop_bit 24 sector AND 0xf))"
    by (simp add: issue_read_def outb_def)
  show ?thesis
    unfolding addressed_channel_def r
  proof (rule bit_word_eqI)
    fix n assume "n < LENGTH(8)"
    show "bit (drop_bit 4 (ucast (0xE0 OR push_bit 4 (channel dr) OR (drop_bit 24 sector AND 0xf)) :: u8) AND 1) n
       = bit (ucast (channel dr) :: u8) n"
      by (cases n) (auto simp: bit_simps channel_def and_15 bit_1_iff)
  qed
qed

section \<open>The driver is a block device\<close>

definition disk_byte :: "ide_hw \<Rightarrow> u32 \<Rightarrow> nat \<Rightarrow> u8" where
  "disk_byte hw dr a =
     word_bytes (hw_words hw (port dr) (ucast (channel dr)) (of_nat (a div 512)) (a mod 512 div 4)) ! (a mod 4)"

definition ide_ok :: "ide_hw \<Rightarrow> nat \<Rightarrow> u32 \<Rightarrow> ide \<Rightarrow> bool" where
  "ide_ok hw n dr s \<longleftrightarrow> hw_ready hw n (latency_ms s) \<and> drive s = dr"

lemma concat_chunks:
  assumes "\<And>i. i < m \<Longrightarrow> length (f i) = 4"
  shows "concat (map f [0 ..< m]) = map (\<lambda>j. f (j div 4) ! (j mod 4)) [0 ..< 4 * m]"
  using assms
proof (induction m)
  case (Suc m)
  have len: "length (f m) = 4" using Suc.prems by simp
  have "map (\<lambda>j. f (j div 4) ! (j mod 4)) [4 * m ..< 4 * m + 4] = f m"
  proof (rule nth_equalityI)
    fix i assume "i < length (map (\<lambda>j. f (j div 4) ! (j mod 4)) [4 * m ..< 4 * m + 4])"
    then have "i < 4" by simp
    then have "(4 * m + i) div 4 = m" "(4 * m + i) mod 4 = i" by simp_all
    then show "map (\<lambda>j. f (j div 4) ! (j mod 4)) [4 * m ..< 4 * m + 4] ! i = f m ! i"
      using \<open>i < 4\<close> by (simp add: nth_upt)
  qed (simp add: len)
  moreover have "[0 ..< 4 * Suc m] = [0 ..< 4 * m] @ [4 * m ..< 4 * m + 4]"
    using upt_add_eq_append [of 0 "4 * m" 4] by (simp add: add.commute)
  ultimately show ?case using Suc.IH Suc.prems by simp
qed simp

lemma sector_bytes:
  assumes "unat sector < 2 ^ 23"
  shows "concat (map word_bytes (map (hw_words hw (port dr) (ucast (channel dr)) sector) [0 ..< unat sector_size div 4]))
    = bytes_at (disk_byte hw dr) (unat sector * 512) 512"
proof -
  have c: "concat (map (\<lambda>i. word_bytes (hw_words hw (port dr) (ucast (channel dr)) sector i)) [0 ..< 128]) =
      map (\<lambda>j. word_bytes (hw_words hw (port dr) (ucast (channel dr)) sector (j div 4)) ! (j mod 4)) [0 ..< 4 * 128]"
    by (rule concat_chunks) (simp add: word_bytes_def)
  have e: "disk_byte hw dr (unat sector * 512 + j) = word_bytes (hw_words hw (port dr) (ucast (channel dr)) sector (j div 4)) ! (j mod 4)"
    if "j < 512" for j
  proof -
    have "(unat sector * 512 + j) mod 4 = j mod 4"
      using mod_mult_self3 [of "unat sector * 128" 4 j] by (simp add: mult.assoc mult.commute)
    moreover have "(unat sector * 512 + j) div 512 = unat sector" "(unat sector * 512 + j) mod 512 = j" using that by simp_all
    ultimately show ?thesis by (simp add: disk_byte_def)
  qed
  have b: "bytes_at (disk_byte hw dr) (unat sector * 512) 512 = map (\<lambda>j. disk_byte hw dr (unat sector * 512 + j)) [0 ..< 512]"
    by (simp add: bytes_at_def map_add_upt [symmetric] add.commute)
  show ?thesis unfolding b using c e by (simp add: sector_size_def comp_def cong: map_cong)
qed

lemma ide_read_block_ok:
  assumes ok: "ide_ok hw n dr s" and r: "unat sector < 2 ^ 23"
  shows "\<exists>s1. ide_read_block hw n sector s = Inr (bytes_at (disk_byte hw dr) (unat sector * 512) 512, s1) \<and>
    ide_ok hw n dr s1 \<and> ide_last s1 = sector \<and> nRead s1 = nRead s + 1"
proof -
  note rdy = ok [unfolded ide_ok_def, THEN conjunct1]
  define s1 where "s1 = s\<lparr>clocks := clocks s + 1, ide_last := sector, nRead := nRead s + 1\<rparr>"
  have s1_drive: "drive s1 = dr" using ok by (simp add: s1_def ide_ok_def)
  obtain s2 where s2: "waitForDrive n hw s1 = Inr s2" "same_but_time s1 s2" "clocks s2 = clocks s1"
    using waitForDrive_ok [OF rdy] by blast
  let ?s2 = "issue_read (port dr) (channel dr) sector s2"
  obtain s3 where s3: "waitForDrive n hw ?s2 = Inr s3" "same_but_time ?s2 s3" "clocks s3 = clocks ?s2"
    using waitForDrive_ok [OF rdy] by blast
  obtain s4 where s4: "wait_while n (\<lambda>st. st AND DRQ = 0) hw s3 = Inr s4" "same_but_time s3 s4" "clocks s4 = clocks s3"
    using wait_while_ok [where P = "\<lambda>st. st AND DRQ = 0" and s = s3] hw_ready_D(3) [OF rdy, of "polls s3"] by blast
  have same: "clocks ?s2 = clocks s2" "drive ?s2 = drive s2" "latency_ms ?s2 = latency_ms s2"
    "ide_last ?s2 = ide_last s2" "nRead ?s2 = nRead s2"
    by (simp_all add: issue_read_def outb_def)
  have c4: "clocks s4 = Suc (clocks s)" using s2(3) s3(3) s4(3) same by (simp add: s1_def)
  define l where "l = (if sector = ide_last s + 1 then latency_ms s div 2 else latency_ms s)"
  have "\<exists>k<n. hw_jiffies hw (clocks s) + l \<le> hw_jiffies hw (clocks s4 + k)"
    using hw_ready_D(5,6) [OF rdy, of "clocks s"] by (simp add: c4 l_def)
  from wait_until_ok [OF this] obtain s5 where
    s5: "wait_until n (hw_jiffies hw (clocks s) + l) hw s4 = Inr s5" "same_but_time s4 s5" by blast
  have fld: "drive s5 = dr" "latency_ms s5 = latency_ms s" "ide_last s5 = sector" "nRead s5 = nRead s + 1"
    using s2(2) s3(2) s4(2) s5(2) same ok by (simp_all add: same_but_time_def s1_def ide_ok_def)
  have "regs s4 = regs ?s2" using s3(2) s4(2) by (simp add: same_but_time_def)
  then have w: "inl_words hw s4 (port dr) = map (hw_words hw (port dr) (ucast (channel dr)) (take_bit 28 sector)) [0 ..< unat sector_size div 4]"
    by (simp only: inl_words_def addressed_issue addressed_channel_issue)
  have "unat (take_bit 28 sector) = unat sector" using r by (simp add: unsigned_take_bit_eq take_bit_nat_eq_self)
  then have t: "take_bit 28 sector = sector" by (rule unsigned_word_eqI)
  have "ide_read_block hw n sector s = Inr (concat (map word_bytes (inl_words hw s4 (port dr))), s5)"
    unfolding ide_read_block_def Let_def s1_def [symmetric] l_def [symmetric] s1_drive
    by (simp only: s2(1) s3(1) s4(1) s5(1) bindR.simps)
  then show ?thesis using fld rdy unfolding w t sector_bytes [OF r] by (simp add: ide_ok_def)
qed

lemma unat_minus_one_u32: "unat (- 1 :: u32) = 2 ^ 32 - 1"
  by (simp add: unsigned_minus_1_eq_mask mask_eq_exp_minus_1)

interpretation ide: block_device "ide_io hw n" "ide_ok hw n dr" "2 ^ 32 - 1" "disk_byte hw dr" for hw n dr
proof
  fix s and b :: u32
  assume ok: "ide_ok hw n dr s" and "unat b * unat (block_size (ide_io hw n)) < 2 ^ 32 - 1"
  then have b: "unat b < 2 ^ 23" by (simp add: ide_io_def sector_size_def)
  show "\<exists>s1. read_block (ide_io hw n) b s =
      Inr (bytes_at (disk_byte hw dr) (unat b * unat (block_size (ide_io hw n))) (unat (block_size (ide_io hw n))), s1) \<and>
      ide_ok hw n dr s1"
    using ide_read_block_ok [OF ok b] by (auto simp: ide_io_def sector_size_def)
qed (simp_all add: ide_io_def sector_size_def unat_minus_one_u32)

section \<open>Properties\<close>

text \<open>
  (ide_read_all_correct) Reading \<open>n\<close> bytes at any offset of the disk through the driver returns \<open>n\<close> and exactly those
  bytes of the disk, whatever sectors they lie in, and leaves the driver ready.
\<close>

theorem ide_read_all_correct:
  assumes "hw_ready hw fuel (latency_ms s)" "unat offset + unat n < 2 ^ 32"
  shows "\<exists>s1. bio_read_all (ide_io hw fuel) offset n s =
      Inr ((uint n, bytes_at (disk_byte hw (drive s)) (unat offset) (unat n)), s1) \<and>
    hw_ready hw fuel (latency_ms s1) \<and> drive s1 = drive s"
  using ide.read_all_inside [of hw fuel "drive s" s offset n] assms by (simp add: ide_ok_def)

text \<open>A drive that is always ready and whose word \<open>i\<close> of sector \<open>b\<close> is \<open>128 * b + i\<close>.\<close>

definition ramp_disk :: ide_hw where
  "ramp_disk = \<lparr>hw_status = (\<lambda>_. 0x48), hw_jiffies = (\<lambda>_. 0), hw_words = (\<lambda>p c b i. b * 128 + of_nat i)\<rparr>"

lemma ramp_disk_ready: "hw_ready ramp_disk 1 0"
  by (simp add: hw_ready_def ramp_disk_def ERR_def DF_def DRDY_def BSY_def DRQ_def)

theorem ide_read_all_correct_witness:
  "\<exists>s1. bio_read_all (ide_io ramp_disk 1) 510 6 (ide_new 1 0) = Inr ((6, [0, 0, 128, 0, 0, 0]), s1)"
proof -
  have "bytes_at (disk_byte ramp_disk 1) 510 6 = [0, 0, 128, 0, 0, 0]"
    by (simp add: bytes_at_def disk_byte_def ramp_disk_def word_bytes_def upt_rec)
  then show ?thesis
    using ide_read_all_correct [of ramp_disk 1 "ide_new 1 0" 510 6] ramp_disk_ready by (auto simp: ide_new_def)
qed

end
