(* ===== verification/BufCache.thy ===== *)
theory BufCache
  imports BlockList IdeDisk
begin

text \<open>
  The buffer cache, the class \<open>BufferCache\<close> of \<open>kernel/buffer_cache.h\<close>: 997 buckets of blocks, and a
  doubly linked list of \<open>GlobalIndex\<close> nodes, one per bucket, that is to order the buckets by their last
  use. The \<open>GlobalIndex\<close> of a bucket is identified by the number of the bucket. The device
  below is a parameter, any \<open>blockio\<close>; the kernel uses the disk driver. One call of \<open>read_block\<close> is one step: the
  model is sequential, as \<open>block_io.h\<close> makes the caller responsible for serialising calls.

  The locale \<open>cached_device\<close> extends the contract of the device below. Inside it a block that the cache
  returns is shown to be the block of the device, and the cache is shown to be a device with the same
  content below its first 996 blocks: then it never has to make room. The interpretation
  \<open>ide_cache\<close> is the cache on the disk driver. What happens when the cache has to make room is
  \<open>evict_after_move_fails\<close>.
\<close>

section \<open>The cache\<close>

record gindex =
  g_next :: "nat option"
  g_prev :: "nat option"

record 'd cache =
  cdev :: 'd
  bstore :: store
  fresh :: nat
  indices :: "nat \<Rightarrow> block_list"
  gindices :: "nat \<Rightarrow> gindex"
  global_first :: "nat option"
  global_last :: "nat option"
  cnt :: u32

definition cache_size :: u32 where "cache_size = 997"

definition cache_new :: "'d \<Rightarrow> 'd cache" where
  "cache_new dev =
     \<lparr>cdev = dev, bstore = (\<lambda>_. \<lparr>block_id = 0, buffer = [], nxt = None, prv = None\<rparr>), fresh = 0,
      indices = (\<lambda>_. bl_new), gindices = (\<lambda>_. \<lparr>g_next = None, g_prev = None\<rparr>),
      global_first = None, global_last = None, cnt = 0\<rparr>"

definition gnext :: "nat \<Rightarrow> nat option \<Rightarrow> (nat \<Rightarrow> gindex) \<Rightarrow> nat \<Rightarrow> gindex" where
  "gnext g q gi = gi(g := (gi g)\<lparr>g_next := q\<rparr>)"

definition gprev :: "nat \<Rightarrow> nat option \<Rightarrow> (nat \<Rightarrow> gindex) \<Rightarrow> nat \<Rightarrow> gindex" where
  "gprev g q gi = gi(g := (gi g)\<lparr>g_prev := q\<rparr>)"

text \<open>The part of \<open>read_block\<close> that makes room, lines 168 to 179.\<close>

definition evict :: "'d cache \<Rightarrow> 'd cache res" where
  "evict c =
     (case global_last c of
        None \<Rightarrow> Inl (AssertFail ''!(global_index_last == nullptr)'')
      | Some oldest \<Rightarrow>
          (case g_prev (gindices c oldest) of
             None \<Rightarrow> Inl (AssertFail ''!(global_index_last->prev.promote() == nullptr)'')
           | Some p \<Rightarrow>
               bindR (assertR (global_first c \<noteq> None) ''!(global_index_first == nullptr)'') (\<lambda>_.
                 case bl_remove (bstore c) (indices c oldest) of
                   (_, st, l) \<Rightarrow>
                     Inr (c\<lparr>global_last := Some p, gindices := gnext p None (gindices c),
                            bstore := st, indices := (indices c)(oldest := l), cnt := cache_size\<rparr>))))"

text \<open>The part that moves the bucket to the front of the global list, lines 191 to 203.\<close>

definition move_front :: "nat \<Rightarrow> 'd cache \<Rightarrow> 'd cache" where
  "move_front g c =
     (let gi0 = gindices c;
          gi1 = (case g_prev (gi0 g) of
                   None \<Rightarrow> gi0
                 | Some p \<Rightarrow>
                     (let gi = gnext p (g_next (gi0 g)) gi0 in
                      case g_next (gi g) of None \<Rightarrow> gi | Some q \<Rightarrow> gprev q (g_prev (gi g)) gi));
          gi2 = gprev g None (gnext g (global_first c) gi1);
          gi3 = (case global_first c of None \<Rightarrow> gi2 | Some f \<Rightarrow> gprev f (Some g) gi2)
      in c\<lparr>gindices := gi3, global_first := Some g,
           global_last := (case global_last c of None \<Rightarrow> Some g | Some x \<Rightarrow> Some x)\<rparr>)"

text \<open>The part that reads a block that no bucket holds, lines 164 to 180; it returns the new block.\<close>

definition new_block :: "u32 \<Rightarrow> u8 list \<Rightarrow> 'd \<Rightarrow> 'd cache \<Rightarrow> 'd cache" where
  "new_block b bytes dev c =
     c\<lparr>cdev := dev, fresh := fresh c + 1,
       bstore := (bstore c)(fresh c := \<lparr>block_id = b, buffer = bytes, nxt = None, prv = None\<rparr>),
       cnt := cnt c + 1\<rparr>"

definition fetch :: "'d blockio \<Rightarrow> u32 \<Rightarrow> 'd cache \<Rightarrow> (nat \<times> 'd cache) res" where
  "fetch d b c =
     bindR (read_block d b (cdev c)) (\<lambda>(bytes, dev).
       let c1 = new_block b bytes dev c
       in bindR (if cnt c1 \<ge> cache_size then evict c1 else Inr c1) (\<lambda>c2. Inr (fresh c, c2)))"

definition cache_read_block :: "'d blockio \<Rightarrow> u32 \<Rightarrow> 'd cache \<Rightarrow> (u8 list \<times> 'd cache) res" where
  "cache_read_block d b c =
     (let index = unat (b mod cache_size) in
      bindR (bl_extract (fresh c) b (bstore c) (indices c index)) (\<lambda>(r, st, l).
        let c1 = c\<lparr>bstore := st, indices := (indices c)(index := l)\<rparr> in
        bindR (case r of Some a \<Rightarrow> Inr (a, c1) | None \<Rightarrow> fetch d b c1) (\<lambda>(a, c2).
          case bl_add (bstore c2) (indices c2 index) a of
            (st3, l3) \<Rightarrow>
              Inr (take (unat (block_size d)) (buffer (bstore c2 a)),
                   move_front index (c2\<lparr>bstore := st3, indices := (indices c2)(index := l3)\<rparr>)))))"

definition cache_io :: "'d blockio \<Rightarrow> 'd cache blockio" where
  "cache_io d = \<lparr>block_size = block_size d, size_in_bytes = size_in_bytes d, read_block = cache_read_block d\<rparr>"

fun cache_reads :: "'d blockio \<Rightarrow> u32 list \<Rightarrow> 'd cache \<Rightarrow> 'd cache res" where
  "cache_reads d [] c = Inr c"
| "cache_reads d (b # bs) c = bindR (cache_read_block d b c) (\<lambda>(_, c1). cache_reads d bs c1)"

lemma cache_reads_append: "cache_reads d (bs @ bs') c = bindR (cache_reads d bs c) (cache_reads d bs')"
  by (induction bs arbitrary: c) (auto simp: bindR_assoc intro!: arg_cong2 [where f = bindR] ext split: prod.splits)

section \<open>The buckets stay well-formed\<close>

definition buckets_ok :: "'d cache \<Rightarrow> (nat \<Rightarrow> nat list) \<Rightarrow> bool" where
  "buckets_ok c as \<longleftrightarrow>
     (\<forall>i. linked (bstore c) (indices c i) (as i)) \<and> (\<forall>i. set (as i) \<subseteq> {..<fresh c}) \<and>
     (\<forall>i j. i \<noteq> j \<longrightarrow> set (as i) \<inter> set (as j) = {})"

definition free_block :: "'d cache \<Rightarrow> (nat \<Rightarrow> nat list) \<Rightarrow> nat \<Rightarrow> bool" where
  "free_block c as a \<longleftrightarrow> a < fresh c \<and> (\<forall>i. a \<notin> set (as i)) \<and> prv (bstore c a) = None"

lemma buckets_ok_member:
  "buckets_ok c as \<Longrightarrow> a \<in> set (as i) \<Longrightarrow> a < fresh c" "buckets_ok c as \<Longrightarrow> a \<in> set (as i) \<Longrightarrow> j \<noteq> i \<Longrightarrow> a \<notin> set (as j)"
  unfolding buckets_ok_def by blast+

lemma buckets_ok_length: "buckets_ok c as \<Longrightarrow> length (as i) \<le> fresh c"
proof -
  assume ok: "buckets_ok c as"
  then have "card (set (as i)) \<le> fresh c" using card_mono [of "{..<fresh c}" "set (as i)"] by (simp add: buckets_ok_def)
  then show ?thesis using ok by (simp add: buckets_ok_def linked_def distinct_card)
qed

lemma buckets_ok_update:
  assumes ok: "buckets_ok c as" and l: "linked st l xs" and s: "same_links_off A (bstore c) st"
    and sub: "set xs \<subseteq> A" and A: "A \<subseteq> insert a (set (as i))" and a: "a < fresh c" "\<And>j. j \<noteq> i \<Longrightarrow> a \<notin> set (as j)"
  shows "buckets_ok (c\<lparr>bstore := st, indices := (indices c)(i := l)\<rparr>) (as(i := xs))"
proof -
  have dj: "set (as j) \<inter> A = {}" if "j \<noteq> i" for j
    using ok A a(2) [OF that] that unfolding buckets_ok_def by blast
  have "linked st (indices c j) (as j)" if "j \<noteq> i" for j
    using linked_frame [OF _ s dj [OF that]] ok by (simp add: buckets_ok_def)
  moreover have "set xs \<subseteq> {..<fresh c}" using ok A sub a(1) unfolding buckets_ok_def by blast
  moreover have "set xs \<inter> set (as j) = {}" if "j \<noteq> i" for j using dj [OF that] sub by blast
  ultimately show ?thesis using ok l by (auto simp: buckets_ok_def)
qed

lemma new_block_ok:
  assumes ok: "buckets_ok c as"
  shows "buckets_ok (new_block b bytes dev c) as" "free_block (new_block b bytes dev c) as (fresh c)"
proof -
  let ?c = "new_block b bytes dev c"
  have nin: "fresh c \<notin> set (as i)" for i using buckets_ok_member(1) [OF ok] by blast
  have sl: "same_links_off {fresh c} (bstore c) (bstore ?c)" by (simp add: same_links_off_def new_block_def)
  have "linked (bstore ?c) (indices c i) (as i)" for i
    using linked_frame [OF _ sl] ok nin by (simp add: buckets_ok_def)
  moreover have "set (as i) \<subseteq> {..<fresh ?c}" for i
    using buckets_ok_member(1) [OF ok] by (fastforce simp: new_block_def)
  ultimately show "buckets_ok ?c as" using ok by (simp add: buckets_ok_def new_block_def)
  show "free_block ?c as (fresh c)" using nin by (simp add: free_block_def new_block_def)
qed

lemma extract_ok:
  assumes ok: "buckets_ok c as"
  shows "\<exists>r st l. bl_extract (fresh c) b (bstore c) (indices c i) = Inr (r, st, l) \<and> same_data (bstore c) st \<and>
    (case r of
       None \<Rightarrow> st = bstore c \<and> l = indices c i \<and> (\<forall>a\<in>set (as i). block_id (bstore c a) \<noteq> b)
     | Some a \<Rightarrow> a \<in> set (as i) \<and> block_id (st a) = b \<and>
         buckets_ok (c\<lparr>bstore := st, indices := (indices c)(i := l)\<rparr>) (as(i := remove1 a (as i))) \<and>
         free_block (c\<lparr>bstore := st, indices := (indices c)(i := l)\<rparr>) (as(i := remove1 a (as i))) a)"
proof -
  have l: "linked (bstore c) (indices c i) (as i)" using ok by (simp add: buckets_ok_def)
  obtain r st l' where e: "bl_extract (fresh c) b (bstore c) (indices c i) = Inr (r, st, l')"
    "same_data (bstore c) st" "same_links_off (set (as i)) (bstore c) st"
    "case r of None \<Rightarrow> (\<forall>a\<in>set (as i). block_id (bstore c a) \<noteq> b) \<and> st = bstore c \<and> l' = indices c i
     | Some a \<Rightarrow> a \<in> set (as i) \<and> block_id (bstore c a) = b \<and> linked st l' (remove1 a (as i)) \<and> prv (st a) = None"
    using blist.ext_law [OF l buckets_ok_length [OF ok], of b] by blast
  show ?thesis
  proof (cases r)
    case None
    then show ?thesis using e by auto
  next
    case (Some a)
    have ai: "a \<in> set (as i)" using e(4) Some by simp
    note a = ai buckets_ok_member [OF ok ai]
    let ?c = "c\<lparr>bstore := st, indices := (indices c)(i := l')\<rparr>" and ?as = "as(i := remove1 a (as i))"
    have bk: "buckets_ok ?c ?as"
      using e(4) Some a set_remove1_subset [of a "as i"] by (intro buckets_ok_update [OF ok _ e(3), where a = a]) auto
    have "distinct (as i)" using l by (simp add: linked_def)
    then have fb: "free_block ?c ?as a" using a e(4) Some by (auto simp: free_block_def)
    show ?thesis using e(1,2,4) Some bk fb
      by (intro exI [of _ r] exI [of _ st] exI [of _ l']) (auto simp: same_data_def)
  qed
qed

lemma add_ok:
  assumes ok: "buckets_ok c as" and f: "free_block c as a" and e: "bl_add (bstore c) (indices c i) a = (st, l)"
  shows "buckets_ok (c\<lparr>bstore := st, indices := (indices c)(i := l)\<rparr>) (as(i := a # as i)) \<and> same_data (bstore c) st"
proof -
  have l: "linked (bstore c) (indices c i) (as i)" using ok by (simp add: buckets_ok_def)
  have "linked st l (a # as i)" "same_data (bstore c) st" "same_links_off (insert a (set (as i))) (bstore c) st"
    using blist.ad_law [OF l _ _ e] f by (auto simp: free_block_def)
  then show ?thesis using f by (auto simp: free_block_def intro!: buckets_ok_update [OF ok, where a = a])
qed

lemma evict_ok:
  assumes ok: "buckets_ok c as" and f: "free_block c as a"
  shows "case evict c of
      Inl e \<Rightarrow> \<exists>m. e = AssertFail m
    | Inr c' \<Rightarrow> (\<exists>as'. buckets_ok c' as' \<and> free_block c' as' a) \<and> same_data (bstore c) (bstore c') \<and>
        cdev c' = cdev c \<and> fresh c' = fresh c"
proof (cases "\<exists>old p. global_last c = Some old \<and> g_prev (gindices c old) = Some p \<and> global_first c \<noteq> None")
  case False
  then show ?thesis by (auto simp: evict_def assertR_def split: option.splits)
next
  case True
  then obtain old p where g: "global_last c = Some old" "g_prev (gindices c old) = Some p" "global_first c \<noteq> None" by blast
  obtain r st l where r: "bl_remove (bstore c) (indices c old) = (r, st, l)" by (cases "bl_remove (bstore c) (indices c old)") auto
  have lk: "linked (bstore c) (indices c old) (as old)" using ok by (simp add: buckets_ok_def)
  note rm = blist.rmv_law [OF lk r]
  let ?c = "c\<lparr>bstore := st, indices := (indices c)(old := l)\<rparr>" and ?as = "as(old := butlast (as old))"
  define c' where "c' = c\<lparr>global_last := Some p, gindices := gnext p None (gindices c), bstore := st,
    indices := (indices c)(old := l), cnt := cache_size\<rparr>"
  have e: "evict c = Inr c'" using g r by (simp add: evict_def c'_def)
  have "buckets_ok ?c ?as"
  proof (cases "as old = []")
    case True
    then show ?thesis using rm ok by (auto simp: buckets_ok_def same_links_off_def) (metis ext)
  next
    case False
    then have m: "last (as old) \<in> set (as old)" by simp
    show ?thesis using rm buckets_ok_member [OF ok m] in_set_butlastD [of _ "as old"]
      by (intro buckets_ok_update [OF ok, where a = "last (as old)" and A = "set (as old)"]) auto
  qed
  then have "buckets_ok c' ?as" by (simp add: buckets_ok_def c'_def)
  moreover have "free_block c' ?as a"
    using f rm by (auto simp: free_block_def c'_def same_links_off_def dest: in_set_butlastD)
  ultimately show ?thesis using rm e by (auto simp: c'_def)
qed

lemma move_front_fields [simp]:
  "cdev (move_front g c) = cdev c" "bstore (move_front g c) = bstore c" "fresh (move_front g c) = fresh c"
  "indices (move_front g c) = indices c" "cnt (move_front g c) = cnt c"
  by (simp_all add: move_front_def Let_def)

section \<open>The cache is a device\<close>

definition cached_right :: "'d blockio \<Rightarrow> (nat \<Rightarrow> u8) \<Rightarrow> 'd cache \<Rightarrow> bool" where
  "cached_right d content c \<longleftrightarrow>
     (\<forall>a<fresh c. buffer (bstore c a) = bytes_at content (unat (block_id (bstore c a)) * unat (block_size d)) (unat (block_size d)))"

definition cache_inv :: "'d blockio \<Rightarrow> (nat \<Rightarrow> u8) \<Rightarrow> 'd cache \<Rightarrow> bool" where
  "cache_inv d content c \<longleftrightarrow> (\<exists>as. buckets_ok c as) \<and> cached_right d content c"

lemma cache_new_inv: "cache_inv d content (cache_new dev)"
  unfolding cache_inv_def
  by (intro conjI exI [of _ "\<lambda>_. []"]) (simp_all add: buckets_ok_def cached_right_def cache_new_def linked_new)

lemma cached_right_same:
  "cached_right d content c \<Longrightarrow> same_data (bstore c) (bstore c') \<Longrightarrow> fresh c' = fresh c \<Longrightarrow> cached_right d content c'"
  by (simp add: cached_right_def same_data_def)

text \<open>
  A cache from which nothing has been evicted: every block it has allocated is in its bucket, under a
  number of its own among the first 996, and \<open>count\<close> is the number of blocks.
\<close>

definition in_buckets :: "'d cache \<Rightarrow> (nat \<Rightarrow> nat list) \<Rightarrow> bool" where
  "in_buckets c as \<longleftrightarrow>
     (\<forall>a<fresh c. a \<in> set (as (unat (block_id (bstore c a) mod cache_size))) \<and> unat (block_id (bstore c a)) < 996) \<and>
     inj_on (\<lambda>a. block_id (bstore c a)) {..<fresh c} \<and> cnt c = of_nat (fresh c)"

definition resident :: "'d cache \<Rightarrow> bool" where
  "resident c \<longleftrightarrow> (\<exists>as. buckets_ok c as \<and> in_buckets c as)"

lemma resident_new: "resident (cache_new dev)"
  unfolding resident_def
  by (intro exI [of _ "\<lambda>_. []"]) (simp add: buckets_ok_def in_buckets_def cache_new_def linked_new)

lemma in_buckets_same:
  assumes "in_buckets c as" "same_data (bstore c) (bstore c')" "fresh c' = fresh c" "cnt c' = cnt c" "\<And>i. set (as' i) = set (as i)"
  shows "in_buckets c' as'"
  using assms by (simp add: in_buckets_def same_data_def inj_on_def)

lemma in_buckets_new:
  assumes ib: "in_buckets c as" and b: "unat b < 996" and miss: "\<forall>a\<in>set (as (unat (b mod cache_size))). block_id (bstore c a) \<noteq> b"
    and i: "i = unat (b mod cache_size)"
  shows "in_buckets (new_block b bytes dev c) (as(i := fresh c # as i))" and "cnt c + 1 < cache_size"
proof -
  let ?id = "\<lambda>a. block_id (bstore c a)"
  have nb: "?id a \<noteq> b" if a: "a < fresh c" for a
  proof
    assume e: "?id a = b"
    have "a \<in> set (as (unat (?id a mod cache_size)))" using ib a unfolding in_buckets_def by blast
    then show False using miss e by auto
  qed
  have inj: "inj_on ?id {..<fresh c}" and cn: "cnt c = of_nat (fresh c)" using ib by (simp_all add: in_buckets_def)
  have "unat ` insert b (?id ` {..<fresh c}) \<subseteq> {..<996}" using ib b unfolding in_buckets_def by blast
  then have "card (unat ` insert b (?id ` {..<fresh c})) \<le> 996" using card_mono [of "{..<996::nat}"] by simp
  moreover have "card (unat ` insert b (?id ` {..<fresh c})) = card (insert b (?id ` {..<fresh c}))"
    by (rule card_image) (rule inj_onI, rule unsigned_word_eqI)
  moreover have "card (insert b (?id ` {..<fresh c})) = Suc (fresh c)"
    using nb inj by (subst card_insert_disjoint) (auto simp: card_image)
  ultimately have f: "fresh c < 996" by simp
  then have "unat (cnt c + 1) = fresh c + 1" using cn by (subst unat_plus_no_wrap) simp_all
  then show "cnt c + 1 < cache_size" using f by (simp add: cache_size_def word_less_nat_alt)
  show "in_buckets (new_block b bytes dev c) (as(i := fresh c # as i))"
    using ib b cn unfolding in_buckets_def new_block_def i
    by (auto simp: less_Suc_eq inj_on_def add.commute dest: nb)
qed

text \<open>The second half of \<open>read_block\<close>, from the copy to the end.\<close>

definition deliver :: "'d blockio \<Rightarrow> nat \<Rightarrow> nat \<times> 'd cache \<Rightarrow> u8 list \<times> 'd cache" where
  "deliver d index = (\<lambda>(a, c2). case bl_add (bstore c2) (indices c2 index) a of (st3, l3) \<Rightarrow>
     (take (unat (block_size d)) (buffer (bstore c2 a)),
      move_front index (c2\<lparr>bstore := st3, indices := (indices c2)(index := l3)\<rparr>)))"

lemma cache_read_block_deliver:
  "cache_read_block d b c =
     bindR (bl_extract (fresh c) b (bstore c) (indices c (unat (b mod cache_size)))) (\<lambda>(r, st, l).
       mapR (deliver d (unat (b mod cache_size)))
         (case r of Some a \<Rightarrow> Inr (a, c\<lparr>bstore := st, indices := (indices c)(unat (b mod cache_size) := l)\<rparr>)
          | None \<Rightarrow> fetch d b (c\<lparr>bstore := st, indices := (indices c)(unat (b mod cache_size) := l)\<rparr>)))"
  by (auto simp: cache_read_block_def Let_def mapR_bindR deliver_def split: prod.splits intro!: arg_cong2 [where f = bindR] ext)

lemma deliver_ok:
  assumes "buckets_ok c as" "free_block c as a" "block_id (bstore c a) = b" "cached_right d content c"
  shows "fst (deliver d i (a, c)) = bytes_at content (unat b * unat (block_size d)) (unat (block_size d))"
    and "cache_inv d content (snd (deliver d i (a, c)))"
    and "cdev (snd (deliver d i (a, c))) = cdev c" "cnt (snd (deliver d i (a, c))) = cnt c"
    and "buckets_ok (snd (deliver d i (a, c))) (as(i := a # as i))" "same_data (bstore c) (bstore (snd (deliver d i (a, c))))"
    and "fresh (snd (deliver d i (a, c))) = fresh c"
proof -
  obtain st l where e: "bl_add (bstore c) (indices c i) a = (st, l)" by (cases "bl_add (bstore c) (indices c i) a")
  note ad = add_ok [OF assms(1,2) e]
  have "a < fresh c" using assms(2) by (simp add: free_block_def)
  then show "fst (deliver d i (a, c)) = bytes_at content (unat b * unat (block_size d)) (unat (block_size d))"
    using assms(3,4) e by (auto simp: deliver_def cached_right_def)
  show b: "buckets_ok (snd (deliver d i (a, c))) (as(i := a # as i))"
    and s: "same_data (bstore c) (bstore (snd (deliver d i (a, c))))"
    using ad e by (simp_all add: deliver_def buckets_ok_def)
  have "cached_right d content (snd (deliver d i (a, c)))"
    by (rule cached_right_same [OF assms(4) s]) (use e in \<open>simp add: deliver_def\<close>)
  then show "cache_inv d content (snd (deliver d i (a, c)))" using b by (auto simp: cache_inv_def)
  show "cdev (snd (deliver d i (a, c))) = cdev c" "cnt (snd (deliver d i (a, c))) = cnt c" "fresh (snd (deliver d i (a, c))) = fresh c"
    using e by (simp_all add: deliver_def)
qed

locale cached_device = block_device d okd dlim content
  for d :: "'d blockio" and okd :: "'d \<Rightarrow> bool" and dlim :: nat and content :: "nat \<Rightarrow> u8"
begin

lemma fetch_ok:
  assumes ok: "buckets_ok c as" "cached_right d content c" "okd (cdev c)"
    and r: "unat b * unat (block_size d) < dlim"
  shows "case fetch d b c of
      Inl e \<Rightarrow> (\<exists>m. e = AssertFail m) \<and> cnt c + 1 \<ge> cache_size
    | Inr (a, c') \<Rightarrow> (\<exists>as'. buckets_ok c' as' \<and> free_block c' as' a) \<and> block_id (bstore c' a) = b \<and>
        cached_right d content c' \<and> okd (cdev c') \<and> (cnt c + 1 < cache_size \<longrightarrow> cnt c' = cnt c + 1)"
proof -
  let ?b = "\<lparr>block_id = b, buffer = bytes_at content (unat b * unat (block_size d)) (unat (block_size d)), nxt = None, prv = None\<rparr>"
  obtain dev where rd: "read_block d b (cdev c) = Inr (buffer ?b, dev)" "okd dev"
    using read_block_ok [OF ok(3) r] by auto
  define c1 where "c1 = new_block b (buffer ?b) dev c"
  have f: "fetch d b c = bindR (if cnt c1 \<ge> cache_size then evict c1 else Inr c1) (\<lambda>c2. Inr (fresh c, c2))"
    using rd(1) by (simp add: fetch_def Let_def c1_def)
  have b1: "buckets_ok c1 as" and f1: "free_block c1 as (fresh c)"
    unfolding c1_def by (rule new_block_ok [OF ok(1)])+
  have r1: "cached_right d content c1" using ok(2) by (auto simp: cached_right_def c1_def new_block_def less_Suc_eq)
  have id1: "block_id (bstore c1 (fresh c)) = b" by (simp add: c1_def new_block_def)
  show ?thesis
  proof (cases "cnt c1 \<ge> cache_size")
    case False
    then show ?thesis using f b1 f1 r1 id1 rd(2) by (auto simp: c1_def new_block_def)
  next
    case True
    have n: "\<not> cnt c + 1 < cache_size" using True by (simp add: c1_def new_block_def)
    show ?thesis
    proof (cases "evict c1")
      case (Inl e)
      then show ?thesis using True n f evict_ok [OF b1 f1] by (simp add: not_less)
    next
      case (Inr c2)
      then have e2: "(\<exists>as'. buckets_ok c2 as' \<and> free_block c2 as' (fresh c))" "same_data (bstore c1) (bstore c2)"
        "cdev c2 = cdev c1" "fresh c2 = fresh c1"
        using evict_ok [OF b1 f1] by simp_all
      have "block_id (bstore c2 (fresh c)) = b" using e2(2) id1 by (simp add: same_data_def)
      moreover have "cached_right d content c2" by (rule cached_right_same [OF r1 e2(2,4)])
      moreover have "okd (cdev c2)" using e2(3) rd(2) by (simp add: c1_def new_block_def)
      ultimately show ?thesis using True n f Inr e2(1) by simp
    qed
  qed
qed

lemma cache_read_block_ok:
  assumes ok: "cache_inv d content c" "okd (cdev c)" and r: "unat b * unat (block_size d) < dlim"
  shows "case cache_read_block d b c of
      Inl e \<Rightarrow> (\<exists>m. e = AssertFail m) \<and> cnt c + 1 \<ge> cache_size
    | Inr (bytes, c') \<Rightarrow> bytes = bytes_at content (unat b * unat (block_size d)) (unat (block_size d)) \<and>
        cache_inv d content c' \<and> okd (cdev c') \<and> (cnt c + 1 < cache_size \<longrightarrow> cnt c' = cnt c \<or> cnt c' = cnt c + 1)"
proof -
  let ?i = "unat (b mod cache_size)"
  obtain as where as: "buckets_ok c as" "cached_right d content c" using ok(1) by (auto simp: cache_inv_def)
  obtain r st l where e: "bl_extract (fresh c) b (bstore c) (indices c ?i) = Inr (r, st, l)" "same_data (bstore c) st"
    "case r of None \<Rightarrow> st = bstore c \<and> l = indices c ?i \<and> (\<forall>a\<in>set (as ?i). block_id (bstore c a) \<noteq> b)
     | Some a \<Rightarrow> a \<in> set (as ?i) \<and> block_id (st a) = b \<and>
         buckets_ok (c\<lparr>bstore := st, indices := (indices c)(?i := l)\<rparr>) (as(?i := remove1 a (as ?i))) \<and>
         free_block (c\<lparr>bstore := st, indices := (indices c)(?i := l)\<rparr>) (as(?i := remove1 a (as ?i))) a"
    using extract_ok [OF as(1), of b ?i] by blast
  let ?c = "c\<lparr>bstore := st, indices := (indices c)(?i := l)\<rparr>"
  have cr: "cached_right d content ?c" by (rule cached_right_same [OF as(2)]) (use e(2) in simp_all)
  have d: "cdev ?c = cdev c" "cnt ?c = cnt c" by simp_all
  show ?thesis
  proof (cases r)
    case (Some a)
    have "buckets_ok ?c (as(?i := remove1 a (as ?i)))" "free_block ?c (as(?i := remove1 a (as ?i))) a" "block_id (bstore ?c a) = b"
      using e(3) Some by simp_all
    note dl = deliver_ok [OF this cr, of ?i]
    have "cache_read_block d b c = Inr (deliver d ?i (a, ?c))" using e(1) Some by (simp add: cache_read_block_deliver)
    then show ?thesis using dl d ok(2) by (cases "deliver d ?i (a, ?c)") auto
  next
    case None
    have rb: "cache_read_block d b c = mapR (deliver d ?i) (fetch d b ?c)" using e(1) None by (simp add: cache_read_block_deliver)
    have "?c = c" using e(3) None by simp
    then have bk: "buckets_ok ?c as" using as(1) by simp
    note fo = fetch_ok [OF bk cr _ r, unfolded d, OF ok(2)]
    show ?thesis
    proof (cases "fetch d b ?c")
      case (Inl x)
      then show ?thesis using fo rb by simp
    next
      case (Inr p)
      obtain a c' where p: "p = (a, c')" by (cases p)
      obtain as2 where a2: "buckets_ok c' as2" "free_block c' as2 a" "block_id (bstore c' a) = b" "cached_right d content c'"
        "okd (cdev c')" "cnt c + 1 < cache_size \<longrightarrow> cnt c' = cnt c + 1"
        using fo Inr p by auto
      show ?thesis using deliver_ok [OF a2(1-4), of ?i] a2(5,6) rb Inr p by (cases "deliver d ?i (a, c')") auto
    qed
  qed
qed

lemma resident_read:
  assumes res: "resident c" and inv: "cached_right d content c" "okd (cdev c)"
    and r: "unat b * unat (block_size d) < dlim" "unat b < 996"
  shows "\<exists>c'. cache_read_block d b c = Inr (bytes_at content (unat b * unat (block_size d)) (unat (block_size d)), c') \<and>
    resident c' \<and> cached_right d content c' \<and> okd (cdev c')"
proof -
  let ?i = "unat (b mod cache_size)"
  obtain as where as: "buckets_ok c as" "in_buckets c as" using res by (auto simp: resident_def)
  obtain r st l where e: "bl_extract (fresh c) b (bstore c) (indices c ?i) = Inr (r, st, l)" "same_data (bstore c) st"
    "case r of None \<Rightarrow> st = bstore c \<and> l = indices c ?i \<and> (\<forall>a\<in>set (as ?i). block_id (bstore c a) \<noteq> b)
     | Some a \<Rightarrow> a \<in> set (as ?i) \<and> block_id (st a) = b \<and>
         buckets_ok (c\<lparr>bstore := st, indices := (indices c)(?i := l)\<rparr>) (as(?i := remove1 a (as ?i))) \<and>
         free_block (c\<lparr>bstore := st, indices := (indices c)(?i := l)\<rparr>) (as(?i := remove1 a (as ?i))) a"
    using extract_ok [OF as(1), of b ?i] by blast
  let ?c = "c\<lparr>bstore := st, indices := (indices c)(?i := l)\<rparr>"
  have cr: "cached_right d content ?c" by (rule cached_right_same [OF inv(1)]) (use e(2) in simp_all)
  show ?thesis
  proof (cases r)
    case (Some a)
    have fb: "buckets_ok ?c (as(?i := remove1 a (as ?i)))" "free_block ?c (as(?i := remove1 a (as ?i))) a" "block_id (bstore ?c a) = b"
      using e(3) Some by simp_all
    note dl = deliver_ok [OF fb cr, of ?i]
    have ai: "a \<in> set (as ?i)" using e(3) Some by simp
    have "distinct (as ?i)" using as(1) by (simp add: buckets_ok_def linked_def)
    then have "in_buckets (snd (deliver d ?i (a, ?c))) ((as(?i := remove1 a (as ?i)))(?i := a # (as(?i := remove1 a (as ?i))) ?i))"
      by (intro in_buckets_same [OF as(2)]) (use dl(4,6,7) e(2) ai in \<open>auto simp: same_data_def\<close>)
    then have "resident (snd (deliver d ?i (a, ?c)))" using dl(5) by (auto simp: resident_def)
    moreover have "cache_read_block d b c = Inr (deliver d ?i (a, ?c))" using e(1) Some by (simp add: cache_read_block_deliver)
    ultimately show ?thesis using dl inv(2) by (cases "deliver d ?i (a, ?c)") (auto simp: cache_inv_def)
  next
    case None
    have c: "?c = c" and miss: "\<forall>a\<in>set (as ?i). block_id (bstore c a) \<noteq> b" using e(3) None by simp_all
    obtain dev where rd: "read_block d b (cdev c) = Inr (bytes_at content (unat b * unat (block_size d)) (unat (block_size d)), dev)" "okd dev"
      using read_block_ok [OF inv(2) r(1)] by auto
    define c1 where "c1 = new_block b (bytes_at content (unat b * unat (block_size d)) (unat (block_size d))) dev c"
    note nw = in_buckets_new [OF as(2) r(2) miss refl]
    have nb: "buckets_ok c1 as" "free_block c1 as (fresh c)" unfolding c1_def by (rule new_block_ok [OF as(1)])+
    have c1: "block_id (bstore c1 (fresh c)) = b" "cached_right d content c1" "cdev c1 = dev"
      using inv(1) by (auto simp: cached_right_def c1_def new_block_def less_Suc_eq)
    note dl = deliver_ok [OF nb c1(1,2), of ?i]
    have "fetch d b c = Inr (fresh c, c1)"
      using rd(1) nw(2) by (simp add: fetch_def Let_def c1_def [symmetric] not_le [symmetric]) (simp add: c1_def new_block_def)
    then have "cache_read_block d b c = Inr (deliver d ?i (fresh c, c1))" using e(1) None c by (simp add: cache_read_block_deliver)
    moreover have "in_buckets (snd (deliver d ?i (fresh c, c1))) (as(?i := fresh c # as ?i))"
      by (rule in_buckets_same [OF nw(1)]) (use dl(4,6,7) in \<open>simp_all add: c1_def\<close>)
    then have "resident (snd (deliver d ?i (fresh c, c1)))" using dl(5) by (auto simp: resident_def)
    ultimately show ?thesis using dl c1(3) rd(2) by (cases "deliver d ?i (fresh c, c1)") (auto simp: cache_inv_def)
  qed
qed

text \<open>
  The state after the blocks \<open>0\<close> to \<open>m - 1\<close> have been read in this order: bucket \<open>i\<close> holds block \<open>i\<close>, and the
  global list starts with bucket \<open>m - 1\<close> and ends with bucket \<open>0\<close>.
\<close>

definition filled :: "nat \<Rightarrow> 'd cache \<Rightarrow> bool" where
  "filled m c \<longleftrightarrow>
     (\<exists>as. buckets_ok c as \<and> (\<forall>i<m. \<exists>a. as i = [a] \<and> block_id (bstore c a) = of_nat i) \<and> (\<forall>i\<ge>m. as i = [])) \<and>
     cnt c = of_nat m \<and>
     global_first c = (if m = 0 then None else Some (m - 1)) \<and> global_last c = (if m = 0 then None else Some 0) \<and>
     (\<forall>i. g_prev (gindices c i) = (if Suc i < m then Some (Suc i) else None))"

lemma of_nat_bucket: "m < 997 \<Longrightarrow> unat ((of_nat m :: u32) mod cache_size) = m"
  by (simp add: cache_size_def unat_mod)

lemma filled_new: "filled 0 (cache_new dev)"
  unfolding filled_def
  by (intro conjI exI [of _ "\<lambda>_. []"]) (simp_all add: buckets_ok_def cache_new_def linked_new)

lemma filled_order:
  assumes "\<And>j. g_prev (gindices c j) = (if Suc j < m then Some (Suc j) else None)"
    and "global_first c = (if m = 0 then None else Some (m - 1))" "global_last c = (if m = 0 then None else Some 0)"
  shows "g_prev (gindices (move_front m c) j) = (if Suc j < Suc m then Some (Suc j) else None)"
    and "global_first (move_front m c) = Some m" "global_last (move_front m c) = Some 0"
  using assms(1) [of j] assms(1) [of m] assms(2,3)
  by (cases m; auto simp: move_front_def Let_def gnext_def gprev_def split: if_splits)+

lemma filled_fetch:
  assumes f: "filled m c" and m: "m < 996" and ok: "okd (cdev c)"
    and r: "m * unat (block_size d) < dlim"
  shows "\<exists>bytes dev. bl_extract (fresh c) (of_nat m) (bstore c) (indices c m) = Inr (None, bstore c, indices c m) \<and>
    fetch d (of_nat m) c = Inr (fresh c, new_block (of_nat m) bytes dev c) \<and> okd dev"
proof -
  let ?b = "of_nat m :: u32"
  have "linked (bstore c) (indices c m) []" using f unfolding filled_def buckets_ok_def by (metis order_refl)
  then have ex: "bl_extract (fresh c) ?b (bstore c) (indices c m) = Inr (None, bstore c, indices c m)"
    by (simp add: bl_extract_def linked_def)
  obtain bytes dev where rd: "read_block d ?b (cdev c) = Inr (bytes, dev)" "okd dev"
    using read_block_ok [OF ok, of ?b] r m by auto
  have "unat (cnt c + 1) = Suc m"
    using m f unat_of_nat_u32 [of "Suc m"] by (simp add: filled_def add.commute)
  then have "\<not> cnt (new_block ?b bytes dev c) \<ge> cache_size"
    using m by (simp add: new_block_def cache_size_def word_le_nat_alt)
  then have "fetch d ?b c = Inr (fresh c, new_block ?b bytes dev c)" using rd(1) by (simp add: fetch_def Let_def)
  then show ?thesis using ex rd(2) by blast
qed

lemma filled_step:
  assumes f: "filled m c" and m: "m < 996" and ok: "okd (cdev c)"
    and r: "m * unat (block_size d) < dlim"
  shows "\<exists>bytes c'. cache_read_block d (of_nat m) c = Inr (bytes, c') \<and> filled (Suc m) c' \<and> okd (cdev c')"
proof -
  let ?b = "of_nat m :: u32" and ?a = "fresh c"
  obtain as where as: "buckets_ok c as" "\<And>i. i < m \<Longrightarrow> \<exists>a. as i = [a] \<and> block_id (bstore c a) = of_nat i" "\<And>i. i \<ge> m \<Longrightarrow> as i = []"
    using f by (auto simp: filled_def)
  obtain bytes dev where ft: "bl_extract (fresh c) ?b (bstore c) (indices c m) = Inr (None, bstore c, indices c m)"
    "fetch d ?b c = Inr (?a, new_block ?b bytes dev c)" "okd dev"
    using filled_fetch [OF f m ok r] by blast
  define c1 where "c1 = new_block ?b bytes dev c"
  obtain st l where e: "bl_add (bstore c1) (indices c1 m) ?a = (st, l)" by (cases "bl_add (bstore c1) (indices c1 m) ?a")
  note ad = add_ok [OF new_block_ok [OF as(1), of ?b bytes dev, folded c1_def] e]
  define c2 where "c2 = c1\<lparr>bstore := st, indices := (indices c1)(m := l)\<rparr>"
  have i: "unat (?b mod cache_size) = m" using m by (simp add: of_nat_bucket)
  have res: "cache_read_block d ?b c = Inr (take (unat (block_size d)) (buffer (bstore c1 ?a)), move_front m c2)"
    using ft e by (simp add: cache_read_block_deliver i deliver_def c2_def c1_def)
  have data: "block_id (bstore c2 a) = (if a = ?a then ?b else block_id (bstore c a))" for a
    using ad by (simp add: same_data_def c2_def) (simp add: c1_def new_block_def)
  have cont: "\<exists>a. (as(m := [?a])) j = [a] \<and> block_id (bstore c2 a) = of_nat j" if j: "j < Suc m" for j
  proof (cases "j = m")
    case False
    then obtain a where a: "as j = [a]" "block_id (bstore c a) = of_nat j" using as(2) [of j] j by auto
    then have "a \<noteq> ?a" using buckets_ok_member(1) [OF as(1), of a j] by auto
    then show ?thesis using a False by (simp add: data)
  qed (simp add: data)
  have gi2: "gindices c2 = gindices c" "global_first c2 = global_first c" "global_last c2 = global_last c" "cnt c2 = cnt c + 1"
    by (simp_all add: c2_def c1_def new_block_def)
  have "filled (Suc m) (move_front m c2)"
    unfolding filled_def
  proof (intro conjI exI [of _ "as(m := [?a])"] allI impI)
    show "buckets_ok (move_front m c2) (as(m := [?a]))" using ad as(3) [of m] by (simp add: buckets_ok_def c2_def)
    show "cnt (move_front m c2) = of_nat (Suc m)" using f by (simp add: gi2 filled_def)
    show "j < Suc m \<Longrightarrow> \<exists>a. (as(m := [?a])) j = [a] \<and> block_id (bstore (move_front m c2) a) = of_nat j" for j
      using cont by simp
    show "Suc m \<le> j \<Longrightarrow> (as(m := [?a])) j = []" for j using as(3) [of j] by simp
  qed (use f filled_order [of c2 m] in \<open>simp_all add: gi2 filled_def\<close>)
  then show ?thesis using res ft(3) by (auto simp: c2_def c1_def new_block_def)
qed

lemma filled_reads:
  assumes "okd dev" "m \<le> 996" "996 * unat (block_size d) < dlim"
  shows "\<exists>c. cache_reads d (map of_nat [0 ..< m]) (cache_new dev) = Inr c \<and> filled m c \<and> okd (cdev c)"
  using assms(1,2)
proof (induction m)
  case 0
  then show ?case using filled_new by (auto simp: cache_new_def)
next
  case (Suc m)
  obtain c where c: "cache_reads d (map of_nat [0 ..< m]) (cache_new dev) = Inr c" "filled m c" "okd (cdev c)"
    using Suc.IH Suc.prems by auto
  have "m * unat (block_size d) \<le> 996 * unat (block_size d)" using Suc.prems(2) by (intro mult_le_mono1) simp
  then have "m * unat (block_size d) < dlim" using assms(3) by linarith
  from filled_step [OF c(2) _ c(3) this] Suc.prems(2) show ?case using c(1) by (auto simp: cache_reads_append)
qed

lemma reread_oldest:
  assumes f: "filled 996 c"
  shows "\<exists>bytes c'. cache_read_block d 0 c = Inr (bytes, c') \<and> global_last c' = Some 0 \<and> g_prev (gindices c' 0) = None \<and>
    cnt c' = 996 \<and> cdev c' = cdev c \<and> first (indices c' 996) = None"
proof -
  obtain as a where as: "buckets_ok c as" "as 0 = [a]" "block_id (bstore c a) = 0" "as 996 = []"
    using f by (fastforce simp: filled_def)
  have l: "linked (bstore c) (indices c 0) (as 0)" "first (indices c 996) = None"
    using as(1,4) by (auto simp: buckets_ok_def linked_def dest: spec [of _ 996])
  obtain r st l' where e: "bl_extract (fresh c) 0 (bstore c) (indices c 0) = Inr (r, st, l')"
    "case r of None \<Rightarrow> (\<forall>a\<in>set (as 0). block_id (bstore c a) \<noteq> 0) \<and> st = bstore c \<and> l' = indices c 0
     | Some a \<Rightarrow> a \<in> set (as 0) \<and> block_id (bstore c a) = 0 \<and> linked st l' (remove1 a (as 0)) \<and> prv (st a) = None"
    using blist.ext_law [OF l(1) buckets_ok_length [OF as(1)], of 0] by blast
  then have r: "r = Some a" using as(2,3) by (cases r) auto
  let ?c1 = "c\<lparr>bstore := st, indices := (indices c)(0 := l')\<rparr>"
  obtain bytes c' where d: "deliver d 0 (a, ?c1) = (bytes, c')" by (cases "deliver d 0 (a, ?c1)")
  have rd: "cache_read_block d 0 c = Inr (bytes, c')"
    using e(1) r d by (simp add: cache_read_block_deliver)
  obtain st2 l2 where c': "c' = move_front 0 (?c1\<lparr>bstore := st2, indices := (indices ?c1)(0 := l2)\<rparr>)"
    using d by (auto simp: deliver_def split: prod.splits)
  have g: "g_prev (gindices c 0) = Some 1" "global_first c = Some 995" "global_last c = Some 0" "cnt c = 996"
    using f by (simp_all add: filled_def)
  have "g_prev (gindices c' 0) = None" "global_last c' = Some 0"
    using g unfolding c' by (simp_all add: move_front_def Let_def gnext_def gprev_def)
  then show ?thesis using rd g(4) l(2) by (simp add: c')
qed

lemma full_cache_fails:
  assumes c: "global_last c = Some g" "g_prev (gindices c g) = None" "cnt c = 996" "first (indices c 996) = None"
    and ok: "okd (cdev c)" and r: "996 * unat (block_size d) < dlim"
  shows "cache_read_block d 996 c = Inl (AssertFail ''!(global_index_last->prev.promote() == nullptr)'')"
proof -
  obtain bytes dev where rd: "read_block d 996 (cdev c) = Inr (bytes, dev)" using read_block_ok [OF ok, of 996] r by auto
  have "unat ((996 :: u32) mod cache_size) = 996" by (simp add: cache_size_def)
  moreover have "bl_extract (fresh c) 996 (bstore c) (indices c 996) = Inr (None, bstore c, indices c 996)"
    using c(4) by (simp add: bl_extract_def)
  moreover have "fetch d 996 c = Inl (AssertFail ''!(global_index_last->prev.promote() == nullptr)'')"
    using rd c by (simp add: fetch_def Let_def new_block_def cache_size_def evict_def)
  ultimately show ?thesis by (simp add: cache_read_block_deliver)
qed

lemma evict_fails:
  assumes "okd dev" "996 * unat (block_size d) < dlim"
  shows "cache_reads d (map of_nat [0 ..< 996] @ [0, 996]) (cache_new dev) =
    Inl (AssertFail ''!(global_index_last->prev.promote() == nullptr)'')"
proof -
  obtain c where c: "cache_reads d (map of_nat [0 ..< 996]) (cache_new dev) = Inr c" "filled 996 c" "okd (cdev c)"
    using filled_reads [of dev 996] assms by auto
  obtain bytes c' where c': "cache_read_block d 0 c = Inr (bytes, c')" "global_last c' = Some 0" "g_prev (gindices c' 0) = None"
    "cnt c' = 996" "cdev c' = cdev c" "first (indices c' 996) = None"
    using reread_oldest [OF c(2)] by blast
  have "okd (cdev c')" using c(3) c'(5) by simp
  from full_cache_fails [OF c'(2-4,6) this assms(2)] show ?thesis
    by (simp add: cache_reads_append c(1) c'(1))
qed

end

sublocale cached_device \<subseteq> cache: block_device "cache_io d" "\<lambda>c. resident c \<and> cached_right d content c \<and> okd (cdev c)"
  "min dlim (996 * unat (block_size d))" content
proof
  fix c and b :: u32
  assume "resident c \<and> cached_right d content c \<and> okd (cdev c)"
    and "unat b * unat (block_size (cache_io d)) < min dlim (996 * unat (block_size d))"
  then show "\<exists>c1. read_block (cache_io d) b c = Inr (bytes_at content (unat b * unat (block_size (cache_io d))) (unat (block_size (cache_io d))), c1) \<and>
    resident c1 \<and> cached_right d content c1 \<and> okd (cdev c1)"
    using resident_read [of c b] by (simp add: cache_io_def)
qed (use block_size_pos lim_le in \<open>auto simp: cache_io_def\<close>)

interpretation ide_cache: cached_device "ide_io hw n" "ide_ok hw n dr" "2 ^ 32 - 1" "disk_byte hw dr" for hw n dr
  by unfold_locales

section \<open>Properties\<close>

definition cache_ready :: "ide_hw \<Rightarrow> nat \<Rightarrow> ide cache \<Rightarrow> bool" where
  "cache_ready hw fuel c \<longleftrightarrow>
     cache_inv (ide_io hw fuel) (disk_byte hw (drive (cdev c))) c \<and> hw_ready hw fuel (latency_ms (cdev c))"

lemma cache_new_ready: "hw_ready hw fuel (latency_ms s) \<Longrightarrow> cache_ready hw fuel (cache_new s)"
  using cache_new_inv by (simp add: cache_ready_def cache_new_def)

text \<open>
  (C20:cache_coherent) In every state that reads can lead to, also after evictions, a block that the cache returns is
  the block of the disk, and the state stays such a state. The only other outcome is a failed
  assertion, and only when the cache is full.
\<close>

theorem cache_coherent:
  assumes "cache_ready hw fuel c" "unat b < 2 ^ 23"
  shows "case cache_read_block (ide_io hw fuel) b c of
      Inl e \<Rightarrow> (\<exists>m. e = AssertFail m) \<and> cache_size \<le> cnt c + 1
    | Inr (bytes, c') \<Rightarrow>
        bytes = bytes_at (disk_byte hw (drive (cdev c))) (unat b * 512) 512 \<and> cache_ready hw fuel c' \<and> drive (cdev c') = drive (cdev c)"
proof -
  have "unat b * unat (block_size (ide_io hw fuel)) < 2 ^ 32 - 1"
    using assms(2) by (simp add: ide_io_def sector_size_def)
  from ide_cache.cache_read_block_ok [of hw fuel "drive (cdev c)" c b] assms(1) this
  show ?thesis by (auto simp: cache_ready_def ide_ok_def ide_io_def sector_size_def split: sum.splits)
qed

theorem cache_coherent_witness:
  "\<exists>c'. cache_read_block (ide_io ramp_disk 1) 1 (cache_new (ide_new 1 0)) = Inr (bytes_at (disk_byte ramp_disk 1) 512 512, c')"
proof -
  have "cache_ready ramp_disk 1 (cache_new (ide_new 1 0))"
    by (rule cache_new_ready) (simp add: ide_new_def ramp_disk_ready [simplified])
  from cache_coherent [OF this, of 1] show ?thesis
    by (auto simp: cache_new_def ide_new_def cache_size_def word_le_nat_alt split: sum.splits)
qed

text \<open>
  (cache_read_all_correct) Reading any range of the first 996 sectors of the disk through a cache that has only read such sectors
  returns exactly the bytes of the range, any number of times.
\<close>

definition cache_small :: "ide_hw \<Rightarrow> nat \<Rightarrow> ide cache \<Rightarrow> bool" where
  "cache_small hw fuel c \<longleftrightarrow> resident c \<and> cache_ready hw fuel c"

theorem cache_read_all_correct:
  assumes "cache_small hw fuel c" "unat offset + unat n \<le> 996 * 512"
  shows "\<exists>c'. bio_read_all (cache_io (ide_io hw fuel)) offset n c =
      Inr ((uint n, bytes_at (disk_byte hw (drive (cdev c))) (unat offset) (unat n)), c') \<and> cache_small hw fuel c'"
proof -
  have "unat offset + unat n \<le> min (2 ^ 32 - 1) (996 * unat (block_size (ide_io hw fuel)))"
    using assms(2) by (simp add: ide_io_def sector_size_def)
  from ide_cache.cache.read_all_inside [where dr = "drive (cdev c)" and s = c, OF _ this] assms(1)
  show ?thesis by (auto simp: cache_small_def resident_def cache_ready_def cache_inv_def ide_ok_def)
qed

theorem cache_read_all_correct_witness:
  "\<exists>c'. bio_read_all (cache_io (ide_io ramp_disk 1)) 510 6 (cache_new (ide_new 1 0)) = Inr ((6, [0, 0, 128, 0, 0, 0]), c')"
proof -
  have b: "bytes_at (disk_byte ramp_disk 1) 510 6 = [0, 0, 128, 0, 0, 0]"
    by (simp add: bytes_at_def disk_byte_def ramp_disk_def word_bytes_def upt_rec)
  have "cache_small ramp_disk 1 (cache_new (ide_new 1 0))"
    using cache_new_ready resident_new ramp_disk_ready by (simp add: cache_small_def ide_new_def)
  from cache_read_all_correct [OF this, of 510 6] b show ?thesis
    by (auto simp: cache_new_def ide_new_def)
qed

text \<open>
  (evict_after_move_fails) Reading the blocks 0 to 995, block 0 again and block 996 fails the assertion that the last node of the
  global list has a predecessor: moving the last bucket to the front does not move
  \<open>global_index_last\<close>.
\<close>

theorem evict_after_move_fails:
  assumes "hw_ready hw fuel (latency_ms s)"
  shows "cache_reads (ide_io hw fuel) (map of_nat [0 ..< 996] @ [0, 996]) (cache_new s) =
    Inl (AssertFail ''!(global_index_last->prev.promote() == nullptr)'')"
  using ide_cache.evict_fails [of hw fuel "drive s" s] assms
  by (simp add: ide_ok_def ide_io_def sector_size_def unat_minus_one_u32)

theorem evict_after_move_fails_witness:
  "cache_reads (ide_io ramp_disk 1) (map of_nat [0 ..< 996] @ [0, 996]) (cache_new (ide_new 1 0)) =
    Inl (AssertFail ''!(global_index_last->prev.promote() == nullptr)'')"
  by (rule evict_after_move_fails) (simp add: ide_new_def ramp_disk_ready [simplified])

end
