(* ===== verification/Path.thy ===== *)
theory Path
  imports Prelude
begin

text \<open>
  Paths, \<open>kernel/path.h\<close>: \<open>PathString\<close>, a growing character buffer, and \<open>Path\<close>, the list of the
  components of a path, with the parser in its constructor and the splicing of symbolic links.

  The buffer is kept at its allocated length and every access is checked against it, so a write
  past its end would be \<open>Undef\<close>. The nodes of a \<open>Path\<close> form a chain that starts at \<open>first\<close>; the
  model keeps the chain as a list and whether \<open>last\<close> is set. A C string is its characters without
  the terminating NUL.
\<close>

section \<open>PathString\<close>

record path_string =
  ps_name :: "char list"
  ps_size :: u32
  ps_max_size :: u32

definition ps_new :: path_string where
  "ps_new = \<lparr>ps_name = replicate 10 CHR 0x00, ps_size = 0, ps_max_size = 10\<rparr>"

definition array_set :: "'a list \<Rightarrow> u32 \<Rightarrow> 'a \<Rightarrow> 'a list res" where
  "array_set xs i x = (if unat i < length xs then Inr (xs[unat i := x]) else Inl (Undef ''index out of range''))"

text \<open>\<open>max_size *= 1.5\<close> rounds down.\<close>

definition ps_grow :: "path_string \<Rightarrow> path_string" where
  "ps_grow p =
     (let m = of_nat (unat (ps_max_size p) * 3 div 2) :: u32
      in p\<lparr>ps_max_size := m,
           ps_name := take (unat (ps_size p)) (ps_name p) @ replicate (unat m - unat (ps_size p)) CHR 0x00\<rparr>)"

definition add_char :: "path_string \<Rightarrow> char \<Rightarrow> path_string res" where
  "add_char p c =
     (let p1 = (if ps_size p + 1 \<ge> ps_max_size p then ps_grow p else p)
      in bindR (array_set (ps_name p1) (ps_size p1) c) (\<lambda>nm.
           Inr (p1\<lparr>ps_name := nm, ps_size := ps_size p1 + 1\<rparr>)))"

definition ps_get :: "path_string \<Rightarrow> string" where
  "ps_get p = take (unat (ps_size p)) (ps_name p)"

definition ps_isEmpty :: "path_string \<Rightarrow> bool" where
  "ps_isEmpty p \<longleftrightarrow> ps_size p = 0"

section \<open>Path\<close>

record path =
  pa_items :: "path_string list"
  pa_last :: bool

definition path_empty :: path where
  "path_empty = \<lparr>pa_items = [], pa_last = False\<rparr>"

text \<open>\<open>last->next\<close> on a null \<open>last\<close> fails the assertion in \<open>StrongPtr::operator->\<close>.\<close>

definition path_add :: "path \<Rightarrow> path_string \<Rightarrow> path res" where
  "path_add p s =
     (if pa_items p = [] then Inr \<lparr>pa_items = [s], pa_last = True\<rparr>
      else bindR (assertR (pa_last p) ''ptr != nullptr'') (\<lambda>_.
             Inr \<lparr>pa_items = pa_items p @ [s], pa_last = True\<rparr>))"

definition path_clear :: "path \<Rightarrow> path" where
  "path_clear p = path_empty"

definition path_isEmpty :: "path \<Rightarrow> bool" where
  "path_isEmpty p \<longleftrightarrow> pa_items p = []"

definition path_remove :: "path \<Rightarrow> path_string option \<times> path" where
  "path_remove p =
     (case pa_items p of
        [] \<Rightarrow> (None, p)
      | it # r \<Rightarrow> (Some it, \<lparr>pa_items = r, pa_last = (if r = [] then False else pa_last p)\<rparr>))"

definition merge_symbolic_link :: "path \<Rightarrow> path \<Rightarrow> path" where
  "merge_symbolic_link p q =
     (if pa_items q = [] \<or> \<not> pa_last q then p else p\<lparr>pa_items := pa_items q @ pa_items p\<rparr>)"

text \<open>The loop of the constructor; the last argument is what is left of the string.\<close>

function parse_rest :: "path \<Rightarrow> path_string \<Rightarrow> string \<Rightarrow> (path \<times> path_string) res" where
  "parse_rest p s [] = Inr (p, s)"
| "parse_rest p s (c # cs) =
     (if c = CHR ''/'' then
        bindR (path_add p s) (\<lambda>p1. parse_rest p1 ps_new (dropWhile (\<lambda>d. d = CHR ''/'') cs))
      else bindR (add_char s c) (\<lambda>s1. parse_rest p s1 cs))"
  by pat_completeness auto
termination
  by (relation "measure (\<lambda>(p, s, cs). length cs)") (auto simp: le_imp_less_Suc length_dropWhile_le)

definition path_of :: "string \<Rightarrow> path res" where
  "path_of str =
     (if str = [] then Inr path_empty
      else
        bindR (if hd str = CHR ''/''
               then bindR (add_char ps_new CHR ''/'') (\<lambda>s. path_add path_empty s)
               else Inr path_empty) (\<lambda>p0.
        bindR (parse_rest p0 ps_new (dropWhile (\<lambda>d. d = CHR ''/'') str)) (\<lambda>(p, s).
          if \<not> ps_isEmpty s then path_add p s else Inr p)))"

section \<open>The buffer\<close>

definition ps_ok :: "path_string \<Rightarrow> bool" where
  "ps_ok p \<longleftrightarrow> length (ps_name p) = unat (ps_max_size p) \<and> ps_size p < ps_max_size p \<and> 10 \<le> ps_max_size p"

lemma ps_new_ok [simp]: "ps_ok ps_new" "ps_get ps_new = []" "ps_isEmpty ps_new" "unat (ps_size ps_new) = 0"
  by (simp_all add: ps_ok_def ps_new_def ps_get_def ps_isEmpty_def)

lemma ps_size_get: "ps_ok p \<Longrightarrow> length (ps_get p) = unat (ps_size p)"
  by (simp add: ps_ok_def ps_get_def word_less_nat_alt)

lemma ps_isEmpty_get: "ps_ok p \<Longrightarrow> ps_isEmpty p \<longleftrightarrow> ps_get p = []"
  using ps_size_get [of p] by (metis length_0_conv ps_isEmpty_def unat_eq_0)

text \<open>Half of the address space is far above any path; the bound keeps \<open>max_size\<close> from wrapping.\<close>

lemma ps_grow_ok:
  assumes "ps_ok p" "unat (ps_max_size p) < 2 ^ 31"
  shows "length (ps_name (ps_grow p)) = unat (ps_max_size (ps_grow p))"
    and "unat (ps_max_size (ps_grow p)) = unat (ps_max_size p) * 3 div 2"
    and "ps_size (ps_grow p) = ps_size p" "ps_get (ps_grow p) = ps_get p"
proof -
  have m: "unat (of_nat (unat (ps_max_size p) * 3 div 2) :: u32) = unat (ps_max_size p) * 3 div 2"
    using assms(2) by (intro unat_of_nat_u32) simp
  have s: "unat (ps_size p) < unat (ps_max_size p)" "length (ps_name p) = unat (ps_max_size p)"
    using assms(1) by (auto simp: ps_ok_def word_less_nat_alt)
  show "unat (ps_max_size (ps_grow p)) = unat (ps_max_size p) * 3 div 2"
    using m by (simp add: ps_grow_def Let_def)
  show "ps_size (ps_grow p) = ps_size p" by (simp add: ps_grow_def Let_def)
  have le: "unat (ps_size p) \<le> unat (ps_max_size p) * 3 div 2" using s(1) by linarith
  show "length (ps_name (ps_grow p)) = unat (ps_max_size (ps_grow p))"
    using s le m by (simp add: ps_grow_def Let_def)
  show "ps_get (ps_grow p) = ps_get p" using s by (simp add: ps_get_def ps_grow_def Let_def)
qed

lemma add_char_spec:
  assumes ok: "ps_ok p" and lim: "2 * unat (ps_max_size p) \<le> 3 * unat (ps_size p) + 20" "unat (ps_size p) < 2 ^ 30"
  shows "\<exists>q. add_char p c = Inr q \<and> ps_ok q \<and> ps_get q = ps_get p @ [c] \<and>
    unat (ps_size q) = unat (ps_size p) + 1 \<and> 2 * unat (ps_max_size q) \<le> 3 * unat (ps_size q) + 20"
proof -
  define p1 where "p1 = (if ps_size p + 1 \<ge> ps_max_size p then ps_grow p else p)"
  have s: "unat (ps_size p) < unat (ps_max_size p)" "10 \<le> unat (ps_max_size p)" "length (ps_name p) = unat (ps_max_size p)"
    using ok by (auto simp: ps_ok_def word_less_nat_alt word_le_nat_alt)
  have u: "unat (ps_size p + 1) = unat (ps_size p) + 1" using lim(2) by (subst unat_plus_no_wrap) simp_all
  have mx: "unat (ps_max_size p) < 2 ^ 31" using lim by simp
  note g = ps_grow_ok [OF ok mx]
  have p1: "length (ps_name p1) = unat (ps_max_size p1)" "ps_size p1 = ps_size p" "ps_get p1 = ps_get p"
    "unat (ps_size p) + 1 < unat (ps_max_size p1)" "10 \<le> unat (ps_max_size p1)"
    "2 * unat (ps_max_size p1) \<le> 3 * (unat (ps_size p) + 1) + 20"
    using g s u lim by (auto simp: p1_def word_le_nat_alt not_le)
  let ?q = "p1\<lparr>ps_name := (ps_name p1)[unat (ps_size p) := c], ps_size := ps_size p + 1\<rparr>"
  have "add_char p c = Inr ?q"
    using p1 by (simp add: add_char_def p1_def [symmetric] Let_def array_set_def)
  moreover have "ps_ok ?q" using p1 u by (simp add: ps_ok_def word_less_nat_alt word_le_nat_alt)
  moreover have "ps_get ?q = ps_get p @ [c]"
  proof -
    have "ps_get ?q = take (unat (ps_size p) + 1) ((ps_name p1)[unat (ps_size p) := c])" using u by (simp add: ps_get_def)
    also have "\<dots> = take (unat (ps_size p)) (ps_name p1) @ [c]"
      using p1(1,4) by (simp add: take_Suc_conv_app_nth)
    finally show ?thesis using p1(2,3) by (simp add: ps_get_def)
  qed
  ultimately show ?thesis using u p1(6) by simp
qed

section \<open>What the parser computes\<close>

text \<open>The pieces between slashes, and among them the non-empty ones.\<close>

fun split_slash :: "string \<Rightarrow> string list" where
  "split_slash [] = [[]]"
| "split_slash (c # cs) =
     (if c = CHR ''/'' then [] # split_slash cs
      else (case split_slash cs of [] \<Rightarrow> [[c]] | s # ss \<Rightarrow> (c # s) # ss))"

definition segments :: "string \<Rightarrow> string list" where
  "segments str = filter (\<lambda>s. s \<noteq> []) (split_slash str)"

definition path_names :: "path \<Rightarrow> string list" where
  "path_names p = map ps_get (pa_items p)"

definition path_ok :: "path \<Rightarrow> bool" where
  "path_ok p \<longleftrightarrow> (pa_last p \<longleftrightarrow> pa_items p \<noteq> []) \<and> (\<forall>s \<in> set (pa_items p). ps_ok s)"

definition ps_room :: "path_string \<Rightarrow> bool" where
  "ps_room s \<longleftrightarrow> ps_ok s \<and> 2 * unat (ps_max_size s) \<le> 3 * unat (ps_size s) + 20"

lemma ps_new_room [simp]: "ps_room ps_new"
  by (simp add: ps_room_def) (simp add: ps_new_def)

lemma split_slash_ne: "split_slash cs \<noteq> []"
  by (cases cs) (auto split: list.splits)

text \<open>The pieces of what is left, with \<open>w\<close> already read.\<close>

definition seg_from :: "string \<Rightarrow> string \<Rightarrow> string list" where
  "seg_from w cs = filter (\<lambda>s. s \<noteq> []) (case split_slash cs of [] \<Rightarrow> [w] | s # ss \<Rightarrow> (w @ s) # ss)"

lemma seg_from_Nil: "seg_from w [] = (if w = [] then [] else [w])"
  by (simp add: seg_from_def)

lemma seg_from_slash: "seg_from w (CHR ''/'' # cs) = (if w = [] then [] else [w]) @ segments cs"
  by (simp add: seg_from_def segments_def)

lemma seg_from_char: "c \<noteq> CHR ''/'' \<Longrightarrow> seg_from w (c # cs) = seg_from (w @ [c]) cs"
  using split_slash_ne [of cs] by (auto simp: seg_from_def split: list.splits)

lemma segments_eq: "segments cs = seg_from [] cs"
  using split_slash_ne [of cs] by (auto simp: seg_from_def segments_def split: list.splits)

lemma segments_dropWhile: "segments (dropWhile (\<lambda>d. d = CHR ''/'') cs) = segments cs"
  by (induction cs) (auto simp: segments_def)

lemma path_add_ok:
  assumes "path_ok p" "ps_ok s"
  shows "\<exists>q. path_add p s = Inr q \<and> path_ok q \<and> path_names q = path_names p @ [ps_get s]"
  using assms by (auto simp: path_add_def path_ok_def path_names_def)

text \<open>
  Inside a component the buffer is never empty at a slash: the leading slashes of the string and
  those after a component are skipped.
\<close>

lemma parse_rest_spec:
  assumes "path_ok p" "ps_room s" "unat (ps_size s) + length cs < 2 ^ 30"
    and "ps_get s = [] \<longrightarrow> cs = [] \<or> hd cs \<noteq> CHR ''/''"
  shows "\<exists>q t. parse_rest p s cs = Inr (q, t) \<and> path_ok q \<and> ps_ok t \<and>
    path_names q @ (if ps_get t = [] then [] else [ps_get t]) = path_names p @ seg_from (ps_get s) cs"
  using assms
proof (induction p s cs rule: parse_rest.induct)
  case (1 p s)
  then show ?case by (auto simp: seg_from_Nil ps_room_def)
next
  case (2 p s c cs)
  show ?case
  proof (cases "c = CHR ''/''")
    case True
    let ?r = "dropWhile (\<lambda>d. d = CHR ''/'') cs"
    have ne: "ps_get s \<noteq> []" using "2.prems"(4) True by auto
    obtain p1 where p1: "path_add p s = Inr p1" "path_ok p1" "path_names p1 = path_names p @ [ps_get s]"
      using path_add_ok [OF "2.prems"(1)] "2.prems"(2) by (auto simp: ps_room_def)
    have "length ?r \<le> length cs" by (rule length_dropWhile_le)
    then have len: "unat (ps_size ps_new) + length ?r < 2 ^ 30" using "2.prems"(3) by simp
    have hd: "?r = [] \<or> hd ?r \<noteq> CHR ''/''" using hd_dropWhile [of "\<lambda>d. d = CHR ''/''" cs] by auto
    obtain q t where "parse_rest p1 ps_new ?r = Inr (q, t)" "path_ok q" "ps_ok t"
      "path_names q @ (if ps_get t = [] then [] else [ps_get t]) = path_names p1 @ seg_from [] ?r"
      using "2.IH"(1) [OF True p1(2) ps_new_room len] hd by auto
    then show ?thesis
      using True p1 ne by (auto simp: seg_from_slash segments_eq [symmetric] segments_dropWhile)
  next
    case False
    obtain s1 where s1: "add_char s c = Inr s1" "ps_ok s1" "ps_get s1 = ps_get s @ [c]"
      "unat (ps_size s1) = unat (ps_size s) + 1" "2 * unat (ps_max_size s1) \<le> 3 * unat (ps_size s1) + 20"
      using add_char_spec [of s c] "2.prems"(2,3) by (auto simp: ps_room_def)
    from "2.IH"(2) [OF False "2.prems"(1), of s1] s1 "2.prems"(3) False
    show ?thesis by (auto simp: ps_room_def seg_from_char)
  qed
qed

lemma path_of_spec:
  assumes "length str < 2 ^ 30"
  shows "\<exists>p. path_of str = Inr p \<and> path_ok p \<and>
    path_names p = (if str \<noteq> [] \<and> hd str = CHR ''/'' then [''/''] else []) @ segments str"
proof (cases "str = []")
  case True
  then show ?thesis by (simp add: path_of_def path_ok_def path_empty_def path_names_def segments_def)
next
  case False
  let ?r = "dropWhile (\<lambda>d. d = CHR ''/'') str"
  have e: "path_ok path_empty" "path_names path_empty = []"
    by (simp_all add: path_ok_def path_empty_def path_names_def)
  obtain p0 where p0: "(if hd str = CHR ''/'' then bindR (add_char ps_new CHR ''/'') (\<lambda>s. path_add path_empty s)
      else Inr path_empty) = Inr p0" "path_ok p0"
    "path_names p0 = (if hd str = CHR ''/'' then [''/''] else [])"
  proof (cases "hd str = CHR ''/''")
    case True
    obtain s where "add_char ps_new CHR ''/'' = Inr s" "ps_ok s" "ps_get s = ''/''"
      using add_char_spec [of ps_new "CHR ''/''"] ps_new_room by (auto simp: ps_room_def)
    then show ?thesis using that path_add_ok [OF e(1), of s] True e(2) by auto
  qed (use that e in auto)
  have "length ?r \<le> length str" by (rule length_dropWhile_le)
  then have len: "unat (ps_size ps_new) + length ?r < 2 ^ 30" using assms by simp
  have hd: "ps_get ps_new = [] \<longrightarrow> ?r = [] \<or> hd ?r \<noteq> CHR ''/''"
    using hd_dropWhile [of "\<lambda>d. d = CHR ''/''" str] by auto
  obtain q t where q: "parse_rest p0 ps_new ?r = Inr (q, t)" "path_ok q" "ps_ok t"
    "path_names q @ (if ps_get t = [] then [] else [ps_get t]) = path_names p0 @ seg_from [] ?r"
    using parse_rest_spec [OF p0(2) ps_new_room len hd] by auto
  have "\<exists>p. (if \<not> ps_isEmpty t then path_add q t else Inr q) = Inr p \<and> path_ok p \<and>
      path_names p = path_names q @ (if ps_get t = [] then [] else [ps_get t])"
    using path_add_ok [OF q(2,3)] q(2) ps_isEmpty_get [OF q(3)] by auto
  then show ?thesis
    using False p0(1,3) q(1,4) by (auto simp: path_of_def segments_eq [symmetric] segments_dropWhile)
qed

section \<open>Properties\<close>

text \<open>
  (path_of_correct) The constructor of \<open>Path\<close> never writes outside a buffer and never fails an assertion, and
  splits the string into its non-empty pieces between slashes, in order, after a first component
  \<open>/\<close> when the path is absolute.
\<close>

theorem path_of_correct:
  assumes "length str < 2 ^ 30"
  shows "\<exists>p. path_of str = Inr p \<and> path_ok p \<and>
    path_names p = (if str \<noteq> [] \<and> hd str = CHR ''/'' then [''/''] else []) @ segments str"
  by (rule path_of_spec [OF assms])

theorem path_of_correct_witness:
  "\<exists>p. path_of ''//usr/lib/'' = Inr p \<and> path_names p = [''/'', ''usr'', ''lib'']"
  using path_of_correct [of "''//usr/lib/''"] by (auto simp: segments_def)

text \<open>
  (merge_link_order) After a symbolic link has been spliced in, \<open>remove\<close> returns the components of the link
  first and then the rest of the path.
\<close>

fun drain :: "nat \<Rightarrow> path \<Rightarrow> string list" where
  "drain 0 p = []"
| "drain (Suc n) p = (case path_remove p of (None, _) \<Rightarrow> [] | (Some s, q) \<Rightarrow> ps_get s # drain n q)"

lemma drain_names: "length (pa_items p) \<le> n \<Longrightarrow> drain n p = path_names p"
  by (induction n arbitrary: p) (auto simp: path_remove_def path_names_def split: list.splits)

theorem merge_link_order:
  assumes "path_ok q" "length (pa_items q) + length (pa_items p) \<le> n"
  shows "drain n (merge_symbolic_link p q) = path_names q @ path_names p"
proof -
  have "path_names (merge_symbolic_link p q) = path_names q @ path_names p"
    using assms(1) by (auto simp: merge_symbolic_link_def path_names_def path_ok_def)
  moreover have "length (pa_items (merge_symbolic_link p q)) \<le> n"
    using assms by (auto simp: merge_symbolic_link_def)
  ultimately show ?thesis using drain_names by simp
qed

theorem merge_link_order_witness:
  "\<exists>p q. path_of ''a/b'' = Inr p \<and> path_of ''c'' = Inr q \<and> drain 3 (merge_symbolic_link p q) = [''c'', ''a'', ''b'']"
proof -
  obtain p where p: "path_of ''a/b'' = Inr p" "path_ok p" "path_names p = [''a'', ''b'']"
    using path_of_spec [of "''a/b''"] by (auto simp: segments_def)
  obtain q where q: "path_of ''c'' = Inr q" "path_ok q" "path_names q = [''c'']"
    using path_of_spec [of "''c''"] by (auto simp: segments_def)
  have "length (pa_items q) = 1" "length (pa_items p) = 2"
    using p(3) q(3) by (simp_all add: path_names_def) (metis length_map length_Cons list.size(3) One_nat_def Suc_1)+
  then show ?thesis using merge_link_order [OF q(2), of p 3] p q by auto
qed

end
