(* ===== verification/Ext2.thy ===== *)
theory Ext2
  imports BufCache Path
begin

text \<open>
  The file system, \<open>kernel/ext2.h\<close> and \<open>kernel/ext2.cc\<close>: the structures on disk, i-nodes as block devices, the
  mount, the search of one directory and the resolution of paths with symbolic links.

  An object that is read from the device is built from its bytes with the layout of the
  structure; fields are little endian. The device an i-node reads from is a parameter \<open>dv\<close>, a \<open>blockio\<close> whose
  state is threaded through every call; the mount uses the buffer cache. The directory scan takes
  a bound on its number of turns, since a record length of zero would make it loop; the resolution
  of a path is bounded by the code itself, which gives up at the hundredth symbolic link.
\<close>

section \<open>Structures on disk\<close>

definition u16_at :: "u8 list \<Rightarrow> nat \<Rightarrow> u16" where "u16_at bs o' = le16 (drop o' bs)"
definition u32_at :: "u8 list \<Rightarrow> nat \<Rightarrow> u32" where "u32_at bs o' = le32 (drop o' bs)"

record super_block =
  inodes_count :: u32
  blocks_count :: u32
  reserved_blocks_count :: u32
  free_blocks_count :: u32
  free_inodes_count :: u32
  first_data_block :: u32
  log_block_size :: u32
  log_frag_size :: u32
  blocks_per_group :: u32
  frags_per_group :: u32
  inodes_per_group :: u32
  sb_mtime :: u32
  wtime :: u32
  mnt_count :: u16
  max_mnt_count :: u16
  magic :: u16
  sb_state :: u16
  errors :: u16
  minor_rev_level :: u16
  lastcheck :: u32
  checkinterval :: u32
  creator_os :: u32
  rev_level :: u32
  def_resuid :: u16
  def_resgid :: u16
  first_inode :: u32
  inode_size :: u16
  block_group_nr :: u16
  feature_compat :: u32
  feature_incompat :: u32
  feature_ro_compat :: u32
  uuid :: "u8 list"
  volume_name :: "u8 list"
  algo_bitmap :: u32

definition sizeof_super_block :: u32 where "sizeof_super_block = 140"

definition super_block_of :: "u8 list \<Rightarrow> super_block" where
  "super_block_of b =
     \<lparr>inodes_count = u32_at b 0, blocks_count = u32_at b 4, reserved_blocks_count = u32_at b 8,
      free_blocks_count = u32_at b 12, free_inodes_count = u32_at b 16, first_data_block = u32_at b 20,
      log_block_size = u32_at b 24, log_frag_size = u32_at b 28, blocks_per_group = u32_at b 32,
      frags_per_group = u32_at b 36, inodes_per_group = u32_at b 40, sb_mtime = u32_at b 44, wtime = u32_at b 48,
      mnt_count = u16_at b 52, max_mnt_count = u16_at b 54, magic = u16_at b 56, sb_state = u16_at b 58,
      errors = u16_at b 60, minor_rev_level = u16_at b 62, lastcheck = u32_at b 64, checkinterval = u32_at b 68,
      creator_os = u32_at b 72, rev_level = u32_at b 76, def_resuid = u16_at b 80, def_resgid = u16_at b 82,
      first_inode = u32_at b 84, inode_size = u16_at b 88, block_group_nr = u16_at b 90, feature_compat = u32_at b 92,
      feature_incompat = u32_at b 96, feature_ro_compat = u32_at b 100, uuid = take 16 (drop 104 b),
      volume_name = take 16 (drop 120 b), algo_bitmap = u32_at b 136\<rparr>"

record block_group =
  block_bitmap :: u32
  inode_bitmap :: u32
  inode_table :: u32
  bg_free_blocks_count :: u16
  bg_free_inodes_count :: u16
  used_dirs_count :: u16
  pad :: u16
  reserved :: "u8 list"

definition sizeof_block_group :: u32 where "sizeof_block_group = 32"

definition block_group_of :: "u8 list \<Rightarrow> block_group" where
  "block_group_of b =
     \<lparr>block_bitmap = u32_at b 0, inode_bitmap = u32_at b 4, inode_table = u32_at b 8,
      bg_free_blocks_count = u16_at b 12, bg_free_inodes_count = u16_at b 14, used_dirs_count = u16_at b 16,
      pad = u16_at b 18, reserved = take 12 (drop 20 b)\<rparr>"

text \<open>The twelve fields \<open>direct0\<close> to \<open>direct11\<close>, which the code also uses as an array, are one list.\<close>

record node_data =
  mode :: u16
  uid :: u16
  size_low :: u32
  atime :: u32
  ctime :: u32
  mtime :: u32
  dtime :: u32
  gid :: u16
  nd_n_links :: u16
  n_sectors :: u32
  flags :: u32
  os1 :: u32
  direct :: "u32 list"
  indirect_1 :: u32
  indirect_2 :: u32
  indirect_3 :: u32
  gen :: u32
  reserved1 :: u32
  reserved2 :: u32
  fragment :: u32
  os2 :: "u8 list"

definition sizeof_node_data :: u32 where "sizeof_node_data = 128"

definition node_data_of :: "u8 list \<Rightarrow> node_data" where
  "node_data_of b =
     \<lparr>mode = u16_at b 0, uid = u16_at b 2, size_low = u32_at b 4, atime = u32_at b 8, ctime = u32_at b 12,
      mtime = u32_at b 16, dtime = u32_at b 20, gid = u16_at b 24, nd_n_links = u16_at b 26, n_sectors = u32_at b 28,
      flags = u32_at b 32, os1 = u32_at b 36, direct = map (\<lambda>i. u32_at b (40 + 4 * i)) [0 ..< 12],
      indirect_1 = u32_at b 88, indirect_2 = u32_at b 92, indirect_3 = u32_at b 96, gen = u32_at b 100,
      reserved1 = u32_at b 104, reserved2 = u32_at b 108, fragment = u32_at b 112, os2 = take 12 (drop 116 b)\<rparr>"

definition get_type :: "node_data \<Rightarrow> u16" where "get_type nd = drop_bit 12 (mode nd)"
definition is_dir :: "node_data \<Rightarrow> bool" where "is_dir nd \<longleftrightarrow> get_type nd = 4"
definition is_file :: "node_data \<Rightarrow> bool" where "is_file nd \<longleftrightarrow> get_type nd = 8"
definition is_symlink :: "node_data \<Rightarrow> bool" where "is_symlink nd \<longleftrightarrow> get_type nd = 0xa"

section \<open>I-nodes\<close>

record node =
  number :: u32
  data :: node_data
  n_block_size :: u32

definition n_links :: "node \<Rightarrow> u32" where "n_links nd = ucast (nd_n_links (data nd))"

text \<open>One level of indirection.\<close>

definition follow :: "'s blockio \<Rightarrow> u32 \<Rightarrow> u32 \<Rightarrow> u32 \<Rightarrow> 's \<Rightarrow> (u32 \<times> 's) res" where
  "follow dv bs pbn index s =
     bindR (assertR (index < bs div 4) ''index < refs_per_block'') (\<lambda>_.
       if pbn = 0 then Inr (0, s) else bio_read_u32 dv (pbn * bs + index * 4) s)"

definition node_pbn :: "'s blockio \<Rightarrow> node \<Rightarrow> u32 \<Rightarrow> 's \<Rightarrow> (u32 \<times> 's) res" where
  "node_pbn dv nd lbn s =
     (let bs = n_block_size nd; refs_per_block = bs div 4; da = data nd in
      if lbn < 12 then Inr (direct da ! unat lbn, s)
      else
        let lbn1 = lbn - 12 in
        if lbn1 < refs_per_block then follow dv bs (indirect_1 da) lbn1 s
        else
          let lbn2 = lbn1 - refs_per_block in
          if refs_per_block = 0 then Inl (Undef ''division by zero'')
          else if lbn2 < refs_per_block * refs_per_block then
            (let d1 = lbn2 div refs_per_block; d0 = lbn2 mod refs_per_block in
             bindR (follow dv bs (indirect_2 da) d1 s) (\<lambda>(p1, s1). follow dv bs p1 d0 s1))
          else
            (let lbn3 = lbn2 - refs_per_block * refs_per_block;
                 d0 = lbn3 mod refs_per_block;
                 t = lbn3 div refs_per_block;
                 d1 = t mod refs_per_block;
                 d2 = t div refs_per_block in
             bindR (assertR (d2 < refs_per_block) ''d2 < refs_per_block'') (\<lambda>_.
             bindR (assertR ((d2 * refs_per_block + d1) * refs_per_block + d0 = lbn3)
                      ''(((d2 * refs_per_block + d1) * refs_per_block) + d0) == lbn'') (\<lambda>_.
             bindR (follow dv bs (indirect_3 da) d2 s) (\<lambda>(p2, s1).
             bindR (follow dv bs p2 d1 s1) (\<lambda>(p1, s2).
             follow dv bs p1 d0 s2))))))"

definition node_read_block :: "'s blockio \<Rightarrow> node \<Rightarrow> u32 \<Rightarrow> 's \<Rightarrow> (u8 list \<times> 's) res" where
  "node_read_block dv nd lbn s =
     bindR (node_pbn dv nd lbn s) (\<lambda>(pbn, s1).
       if pbn = 0 then Inr (replicate (unat (n_block_size nd)) 0, s1)
       else
         bindR (bio_read_all dv (pbn * n_block_size nd) (n_block_size nd) s1) (\<lambda>((cnt', bytes), s2).
         bindR (assertR (cnt' = uint (n_block_size nd)) ''cnt == block_size'') (\<lambda>_. Inr (bytes, s2))))"

definition node_io :: "'s blockio \<Rightarrow> node \<Rightarrow> 's blockio" where
  "node_io dv nd = \<lparr>block_size = n_block_size nd, size_in_bytes = size_low (data nd), read_block = node_read_block dv nd\<rparr>"

definition get_symbol :: "'s blockio \<Rightarrow> node \<Rightarrow> 's \<Rightarrow> (u8 list \<times> 's) res" where
  "get_symbol dv nd s =
     bindR (assertR (is_symlink (data nd)) ''is_symlink()'') (\<lambda>_.
       let sz = size_low (data nd) in
       if sz < 60 then
         Inr (take (unat sz) (concat (map word_bytes
                (direct (data nd) @ [indirect_1 (data nd), indirect_2 (data nd), indirect_3 (data nd)]))), s)
       else
         bindR (bio_read_all (node_io dv nd) 0 sz s) (\<lambda>((cnt', bytes), s1).
         bindR (assertR (cnt' = uint sz) ''cnt == sz'') (\<lambda>_. Inr (bytes, s1))))"

text \<open>
  \<open>entries\<close> passes i-number, name and length of every entry to \<open>work\<close>, which threads a state of its own and stops
  the scan with a result other than zero.
\<close>

fun entries_loop :: "nat \<Rightarrow> 's blockio \<Rightarrow> node \<Rightarrow> (u32 \<Rightarrow> u8 list \<Rightarrow> u8 \<Rightarrow> 'w \<Rightarrow> u32 \<times> 'w) \<Rightarrow> u32 \<Rightarrow> 'w \<Rightarrow> 's
    \<Rightarrow> (u32 \<times> 'w \<times> 's) res" where
  "entries_loop n dv nd work offset w s =
     (if \<not> offset < size_low (data nd) then Inr (0, w, s)
      else case n of
        0 \<Rightarrow> Inl NoFuel
      | Suc n' \<Rightarrow>
          bindR (bio_read_u32 (node_io dv nd) offset s) (\<lambda>(inode, s1).
          bindR (bio_read_u16 (node_io dv nd) (offset + 4) s1) (\<lambda>(total_size, s2).
          bindR (bio_read_u8 (node_io dv nd) (offset + 6) s2) (\<lambda>(name_length, s3).
          bindR (bio_read_all (node_io dv nd) (offset + 8) (ucast name_length) s3) (\<lambda>((cnt', name), s4).
          bindR (assertR (cnt' = uint name_length) ''cnt == name_length'') (\<lambda>_.
            case work inode name name_length w of
              (out, w1) \<Rightarrow>
                if out \<noteq> 0 then Inr (out, w1, s4)
                else entries_loop n' dv nd work (offset + ucast total_size) w1 s4))))))"

declare entries_loop.simps [simp del]

definition entries :: "nat \<Rightarrow> 's blockio \<Rightarrow> node \<Rightarrow> (u32 \<Rightarrow> u8 list \<Rightarrow> u8 \<Rightarrow> 'w \<Rightarrow> u32 \<times> 'w) \<Rightarrow> 'w \<Rightarrow> 's
    \<Rightarrow> (u32 \<times> 'w \<times> 's) res" where
  "entries n dv nd work w s =
     bindR (assertR (is_dir (data nd)) ''is_dir()'') (\<lambda>_. entries_loop n dv nd work 0 w s)"

definition entry_count :: "nat \<Rightarrow> 's blockio \<Rightarrow> node \<Rightarrow> 's \<Rightarrow> (u32 \<times> 's) res" where
  "entry_count n dv nd s =
     bindR (assertR (is_dir (data nd)) ''is_dir()'') (\<lambda>_.
     bindR (entries n dv nd (\<lambda>_ _ _ count. (0, count + 1)) 0 s) (\<lambda>(_, count, s1). Inr (count, s1)))"

section \<open>Standard streams\<close>

text \<open>\<open>STDIO\<close> has no data; \<open>STDOUT\<close> and \<open>STDERR\<close> print what is written, here appended to the console.\<close>

definition stdio_read :: "u32 \<Rightarrow> u32 \<Rightarrow> int \<times> u8 list" where "stdio_read offset n = (0, [])"
definition stdio_read_all :: "u32 \<Rightarrow> u32 \<Rightarrow> int \<times> u8 list" where "stdio_read_all offset n = (0, [])"
definition stdio_size_in_bytes :: u32 where "stdio_size_in_bytes = 0"

definition std_write :: "u32 \<Rightarrow> int \<Rightarrow> u8 list \<Rightarrow> u8 list \<Rightarrow> (int \<times> u8 list) res" where
  "std_write offset n buf console =
     (if nat n \<le> length buf then Inr (n, console @ take (nat n) buf) else Inl (Undef ''read past the buffer''))"

section \<open>The file system\<close>

record ext2 =
  root :: "node option"
  blockSize :: u32
  numberOfNodes :: u32
  numberOfBlocks :: u32
  iNodeSize :: u32
  nGroups :: u32
  iNodeTables :: "u32 list"
  iNodesPerGroup :: u32

definition get_node :: "'s blockio \<Rightarrow> ext2 \<Rightarrow> u32 \<Rightarrow> 's \<Rightarrow> (node option \<times> 's) res" where
  "get_node dv fs num s =
     (if num = 0 then Inr (None, s)
      else
        bindR (assertR (num \<le> numberOfNodes fs) ''number <= numberOfNodes'') (\<lambda>_.
        if iNodesPerGroup fs = 0 then Inl (Undef ''division by zero'')
        else
          let index = num - 1;
              groupIndex = index div iNodesPerGroup fs in
          bindR (assertR (groupIndex < nGroups fs) ''groupIndex < nGroups'') (\<lambda>_.
          let indexInGroup = index mod iNodesPerGroup fs;
              iTableBase = iNodeTables fs ! unat groupIndex in
          bindR (assertR (iTableBase \<le> numberOfBlocks fs) ''iTableBase <= numberOfBlocks'') (\<lambda>_.
          let nodeOffset = iTableBase * blockSize fs + indexInGroup * iNodeSize fs in
          bindR (bio_read_bytes dv nodeOffset sizeof_node_data s) (\<lambda>(bytes, s1).
            Inr (Some \<lparr>number = num, data = node_data_of bytes, n_block_size = blockSize fs\<rparr>, s1))))))"

text \<open>
  The constructor. The super block is read from the disk itself, everything after that through a
  new buffer cache on it.
\<close>

definition shift_left :: "u32 \<Rightarrow> u32 \<Rightarrow> u32 res" where
  "shift_left a n = (if n < 32 then Inr (push_bit (unat n) a) else Inl (Undef ''shift by 32 or more''))"

definition ext2_mount :: "'d blockio \<Rightarrow> 'd \<Rightarrow> (ext2 \<times> 'd cache) res" where
  "ext2_mount d dev =
     bindR (bio_read_bytes d 1024 sizeof_super_block dev) (\<lambda>(sb_bytes, dev1).
     let sb = super_block_of sb_bytes in
     bindR (shift_left 1 (log_block_size sb + 10)) (\<lambda>bsize.
     let c0 = cache_new dev1; dv = cache_io d in
     if blocks_per_group sb = 0 then Inl (Undef ''division by zero'')
     else
       let groups = (blocks_count sb + blocks_per_group sb - 1) div blocks_per_group sb in
       bindR (assertR (groups * blocks_per_group sb \<ge> blocks_count sb) ''nGroups * sb.blocks_per_group >= sb.blocks_count'') (\<lambda>_.
       let superBlockNumber = 1024 div bsize;
           groupTableNumber = superBlockNumber + 1;
           groupTableSize = sizeof_block_group * groups in
       bindR (bio_read_all dv (groupTableNumber * bsize) groupTableSize c0) (\<lambda>((cnt', table), c1).
       bindR (assertR (cnt' = uint groupTableSize) ''cnt == groupTableSize'') (\<lambda>_.
       let tables = map (\<lambda>i. inode_table (block_group_of (take 32 (drop (32 * i) table)))) [0 ..< unat groups];
           fs = \<lparr>root = None, blockSize = bsize, numberOfNodes = inodes_count sb, numberOfBlocks = blocks_count sb,
                 iNodeSize = ucast (inode_size sb), nGroups = groups, iNodeTables = tables, iNodesPerGroup = inodes_per_group sb\<rparr> in
       bindR (get_node dv fs 2 c1) (\<lambda>(r, c2). Inr (fs\<lparr>root := r\<rparr>, c2)))))))"

section \<open>Searching\<close>

definition cstring_at :: "u8 list \<Rightarrow> u8 \<Rightarrow> u8 res" where
  "cstring_at name i = (if unat i \<le> length name then Inr ((name @ [0]) ! unat i) else Inl (Undef ''read past the name''))"

declare bindR_cong [fundef_cong]

lemma unat_next_u8: "i < len \<Longrightarrow> unat (i + 1 :: u8) = unat i + 1"
proof -
  assume "i < len"
  then have "unat i + 1 < 256" using unsigned_less [where 'a = nat, of len] by (simp add: word_less_nat_alt)
  then show ?thesis by (simp add: unat_word_ariths)
qed

text \<open>The inner loop of \<open>find_one\<close>; the name of the entry starts at \<open>full_offset + 8\<close>.\<close>

function same_name :: "'s blockio \<Rightarrow> node \<Rightarrow> u32 \<Rightarrow> u8 \<Rightarrow> u8 list \<Rightarrow> u8 \<Rightarrow> 's \<Rightarrow> (bool \<times> 's) res" where
  "same_name dv nd full_offset name_length name i s =
     bindR (if i \<noteq> name_length then bio_read_u8 (node_io dv nd) (full_offset + 8 + ucast i) s else Inr (0, s)) (\<lambda>(c, s1).
     bindR (cstring_at name i) (\<lambda>ch.
       if c \<noteq> ch then Inr (False, s1)
       else if i \<ge> name_length then Inr (True, s1)
       else same_name dv nd full_offset name_length name (i + 1) s1))"
  by pat_completeness auto
termination
  by (relation "measure (\<lambda>(dv, nd, off, len, name, i, s). unat len - unat i)")
    (auto simp: not_le unat_next_u8, simp add: word_less_nat_alt)

declare same_name.simps [simp del]

text \<open>The loop over the entries, with a bound.\<close>

fun find_one_loop :: "nat \<Rightarrow> 's blockio \<Rightarrow> ext2 \<Rightarrow> node \<Rightarrow> u8 list \<Rightarrow> u32 \<Rightarrow> 's \<Rightarrow> (node option \<times> 's) res" where
  "find_one_loop n dv fs dir name full_offset s =
     (if \<not> full_offset < size_low (data dir) then Inr (None, s)
      else case n of
        0 \<Rightarrow> Inl NoFuel
      | Suc n' \<Rightarrow>
          bindR (bio_read_u32 (node_io dv dir) (full_offset + 0) s) (\<lambda>(inode_id, s1).
          bindR (bio_read_u16 (node_io dv dir) (full_offset + 4) s1) (\<lambda>(offset, s2).
          bindR (bio_read_u8 (node_io dv dir) (full_offset + 6) s2) (\<lambda>(name_length, s3).
          bindR (same_name dv dir full_offset name_length name 0 s3) (\<lambda>(found, s4).
            if found then get_node dv fs inode_id s4
            else find_one_loop n' dv fs dir name (full_offset + ucast offset) s4)))))"

declare find_one_loop.simps [simp del]

definition find_one :: "nat \<Rightarrow> 's blockio \<Rightarrow> ext2 \<Rightarrow> node \<Rightarrow> u8 list \<Rightarrow> 's \<Rightarrow> (node option \<times> 's) res" where
  "find_one n dv fs dir name s = find_one_loop n dv fs dir name 0 s"

definition str_bytes :: "string \<Rightarrow> u8 list" where "str_bytes = map of_char"
definition bytes_str :: "u8 list \<Rightarrow> string" where "bytes_str = map (\<lambda>b. char_of (unat b))"

text \<open>
  \<open>new_path_str\<close> has one byte more than the link has; \<open>get_symbol\<close> does not write it, and nothing else does. \<open>junk\<close> is
  what this byte of the stack holds.
\<close>

definition link_string :: "u8 list \<Rightarrow> u8 \<Rightarrow> string res" where
  "link_string target junk =
     (if 0 \<in> set (target @ [junk]) then Inr (bytes_str (takeWhile (\<lambda>b. b \<noteq> 0) (target @ [junk])))
      else Inl (Undef ''read past new_path_str''))"

function find_loop :: "nat \<Rightarrow> 's blockio \<Rightarrow> ext2 \<Rightarrow> (nat \<Rightarrow> u8) \<Rightarrow> path \<Rightarrow> nat \<Rightarrow> node option \<Rightarrow> 's
    \<Rightarrow> (node option \<times> 's) res" where
  "find_loop n dv fs junk path count node s =
     (case path_remove path of
        (None, _) \<Rightarrow> Inr (node, s)
      | (Some cur, path1) \<Rightarrow>
          if count \<ge> 100 then Inr (None, s)
          else
            let str = ps_get cur in
            if str \<noteq> [] \<and> hd str = CHR ''/'' then find_loop n dv fs junk path1 count (root fs) s
            else (case node of
              None \<Rightarrow> Inl (AssertFail ''ptr != nullptr'')
            | Some nd \<Rightarrow>
                if \<not> is_dir (data nd) then Inr (None, s)
                else bindR (find_one n dv fs nd (str_bytes str) s) (\<lambda>(r, s1).
                  case r of
                    None \<Rightarrow> Inr (None, s1)
                  | Some next_node \<Rightarrow>
                      if \<not> path_isEmpty path1 \<and> is_symlink (data next_node) then
                        bindR (get_symbol dv next_node s1) (\<lambda>(target, s2).
                        bindR (link_string target (junk count)) (\<lambda>txt.
                        bindR (path_of txt) (\<lambda>new_path.
                          find_loop n dv fs junk (merge_symbolic_link path1 new_path) (count + 1) node s2)))
                      else find_loop n dv fs junk path1
                             (if is_symlink (data next_node) then count + 1 else count) (Some next_node) s1)))"
  by pat_completeness auto
termination
  by (relation "measures [\<lambda>(n, dv, fs, junk, path, count, node, s). 100 - count,
                           \<lambda>(n, dv, fs, junk, path, count, node, s). length (pa_items path)]")
    (auto simp: path_remove_def split: list.splits)

declare find_loop.simps [simp del]

definition ext2_find :: "nat \<Rightarrow> 's blockio \<Rightarrow> ext2 \<Rightarrow> (nat \<Rightarrow> u8) \<Rightarrow> node option \<Rightarrow> string \<Rightarrow> 's
    \<Rightarrow> (node option \<times> 's) res" where
  "ext2_find n dv fs junk dir name s = bindR (path_of name) (\<lambda>path. find_loop n dv fs junk path 0 dir s)"

end
