(* ===== verification/Ext2Node.thy ===== *)
theory Ext2Node
  imports Ext2
begin

text \<open>
  I-nodes are block devices. The reference definition \<open>block_ref\<close> says with unbounded numbers which
  physical block an i-node assigns to a logical one: twelve direct references, then one, two and
  three levels of indirection. \<open>node_wf\<close> says that block sizes are those of the file system and that every reference a
  block of the file needs lies below the limit of the device. Then \<open>read_block\<close> of the i-node delivers the
  bytes of the referenced block, or zeros where the file has a hole, so the contract of a device
  holds for the i-node and reads of files and directories follow from it.
\<close>

section \<open>The reference definition\<close>

definition ref_at :: "(nat \<Rightarrow> u8) \<Rightarrow> nat \<Rightarrow> u32 \<Rightarrow> nat \<Rightarrow> u32" where
  "ref_at content bs p i = (if p = 0 then 0 else le32 (bytes_at content (unat p * bs + i * 4) 4))"

text \<open>The list of references on the way to a block, the last one is the block.\<close>

definition ref_path :: "(nat \<Rightarrow> u8) \<Rightarrow> node \<Rightarrow> nat \<Rightarrow> u32 list" where
  "ref_path content nd l =
     (let bs = unat (n_block_size nd); r = bs div 4; da = data nd in
      if l < 12 then [direct da ! l]
      else if l < 12 + r then
        (let p0 = indirect_1 da in [p0, ref_at content bs p0 (l - 12)])
      else if l < 12 + r + r * r then
        (let m = l - 12 - r; p0 = indirect_2 da; p1 = ref_at content bs p0 (m div r) in
         [p0, p1, ref_at content bs p1 (m mod r)])
      else
        (let m = l - 12 - r - r * r; p0 = indirect_3 da; p1 = ref_at content bs p0 (m div r div r);
             p2 = ref_at content bs p1 (m div r mod r) in
         [p0, p1, p2, ref_at content bs p2 (m mod r)]))"

definition block_ref :: "(nat \<Rightarrow> u8) \<Rightarrow> node \<Rightarrow> nat \<Rightarrow> u32" where
  "block_ref content nd l = last (ref_path content nd l)"

definition node_byte :: "(nat \<Rightarrow> u8) \<Rightarrow> node \<Rightarrow> nat \<Rightarrow> u8" where
  "node_byte content nd a =
     (let bs = unat (n_block_size nd); p = block_ref content nd (a div bs) in
      if p = 0 then 0 else content (unat p * bs + a mod bs))"

definition symbol_of :: "(nat \<Rightarrow> u8) \<Rightarrow> node \<Rightarrow> u8 list" where
  "symbol_of content nd =
     (if size_low (data nd) < 60
      then take (unat (size_low (data nd))) (concat (map word_bytes
             (direct (data nd) @ [indirect_1 (data nd), indirect_2 (data nd), indirect_3 (data nd)])))
      else bytes_at (node_byte content nd) 0 (unat (size_low (data nd))))"

definition node_wf :: "(nat \<Rightarrow> u8) \<Rightarrow> nat \<Rightarrow> node \<Rightarrow> bool" where
  "node_wf content lim nd \<longleftrightarrow>
     (let bs = unat (n_block_size nd) in
      1024 \<le> bs \<and> bs \<le> 65536 \<and> bs mod 4 = 0 \<and> length (direct (data nd)) = 12 \<and>
      (\<forall>l p. l * bs < unat (size_low (data nd)) \<longrightarrow> p \<in> set (ref_path content nd l) \<longrightarrow> p = 0 \<or> unat p * bs + bs \<le> lim))"

section \<open>The code computes it\<close>

lemma ref_path_ok:
  assumes "node_wf content lim nd" "l * unat (n_block_size nd) < unat (size_low (data nd))" "p \<in> set (ref_path content nd l)"
  shows "p = 0 \<or> unat p * unat (n_block_size nd) + unat (n_block_size nd) \<le> lim"
  using assms by (auto simp: node_wf_def Let_def)

lemma node_sizes:
  assumes wf: "node_wf content lim nd" and l: "unat lbn * unat (n_block_size nd) < unat (size_low (data nd))"
  shows "256 \<le> unat (n_block_size nd) div 4" and "unat (n_block_size nd) div 4 \<le> 16384"
    and "unat (n_block_size nd div 4) = unat (n_block_size nd) div 4"
    and "unat (n_block_size nd div 4 * (n_block_size nd div 4)) = unat (n_block_size nd) div 4 * (unat (n_block_size nd) div 4)"
    and "unat lbn < 256 * 256 * 256"
proof -
  let ?bs = "n_block_size nd" and ?R = "unat (n_block_size nd) div 4"
  have bs: "1024 \<le> unat ?bs" "unat ?bs \<le> 65536" using wf by (auto simp: node_wf_def Let_def)
  then show R: "256 \<le> ?R" "?R \<le> 16384" by simp_all
  show ur: "unat (?bs div 4) = ?R" by (simp add: unat_div)
  have "?R * ?R \<le> 16384 * 16384" using R(2) by (intro mult_le_mono) simp_all
  then have "unat (?bs div 4) * unat (?bs div 4) < 2 ^ 32" unfolding ur by simp
  from unat_times_no_wrap [OF this] show "unat (?bs div 4 * (?bs div 4)) = ?R * ?R" unfolding ur .
  have "unat lbn * 1024 \<le> unat lbn * unat ?bs" using bs(1) by (rule mult_le_mono2)
  then have "unat lbn * 1024 < 2 ^ 32" using l unat_u32_less [of "size_low (data nd)"] by (meson le_less_trans less_trans)
  then show "unat lbn < 256 * 256 * 256" by simp
qed

context block_device
begin

lemma follow_ok:
  assumes ok: "ok s" and i: "unat index < unat bs div 4" and p: "pbn = 0 \<or> unat pbn * unat bs + unat bs \<le> lim"
  shows "\<exists>s1. follow d bs pbn index s = Inr (ref_at content (unat bs) pbn (unat index), s1) \<and> ok s1"
proof (cases "pbn = 0")
  case True
  then show ?thesis using ok i by (simp add: follow_def ref_at_def word_less_nat_alt unat_div)
next
  case False
  have lm: "unat pbn * unat bs + unat bs \<le> lim" using p False by simp
  have L: "lim < 2 ^ 32" using lim_le unat_u32_less [of "size_in_bytes d"] by (rule le_less_trans)
  have i4: "unat index * 4 + 4 \<le> unat bs" using i by linarith
  have u1: "unat (pbn * bs) = unat pbn * unat bs" using lm L by (simp add: unat_word_ariths)
  have u2: "unat (index * 4) = unat index * 4" using i4 unat_u32_less [of bs] by (simp add: unat_word_ariths)
  have u: "unat (pbn * bs + index * 4) = unat pbn * unat bs + unat index * 4"
    using lm L i4 u1 u2 by (subst unat_plus_no_wrap) simp_all
  have "unat (pbn * bs + index * 4) + 4 \<le> lim" using u lm i4 by linarith
  from read_u32_ok [OF ok this] show ?thesis
    using False i by (simp add: follow_def ref_at_def word_less_nat_alt unat_div u)
qed

lemma node_pbn_one:
  assumes ok: "ok s" and wf: "node_wf content lim nd" and l: "unat lbn * unat (n_block_size nd) < unat (size_low (data nd))"
    and R_def: "R = unat (n_block_size nd) div 4"
    and h: "12 \<le> unat lbn" "unat lbn < 12 + R"
  shows "\<exists>s1. node_pbn d nd lbn s = Inr (block_ref content nd (unat lbn), s1) \<and> ok s1"
proof -
  let ?bs = "n_block_size nd" and ?l = "unat lbn" and ?da = "data nd"
  let ?r = "?bs div 4"
  note ref = ref_path_ok [OF wf l] and R = node_sizes(1,2) [OF wf l, folded R_def] and ur = node_sizes(3) [OF wf l, folded R_def]
    and urr = node_sizes(4) [OF wf l, folded R_def] and lb = node_sizes(5) [OF wf l]
  have u: "unat (lbn - 12) = ?l - 12" using h by (simp add: unat_minus_no_wrap word_le_nat_alt)
  have path: "ref_path content nd ?l = [indirect_1 ?da, ref_at content (unat ?bs) (indirect_1 ?da) (?l - 12)]"
    using h by (simp add: ref_path_def Let_def R_def [symmetric])
  have "unat (lbn - 12) < unat ?bs div 4" using u h by (simp add: R_def)
  from follow_ok [OF ok this, of "indirect_1 ?da"] ref path obtain s1 where
    f: "follow d ?bs (indirect_1 ?da) (lbn - 12) s = Inr (ref_at content (unat ?bs) (indirect_1 ?da) (?l - 12), s1)" "ok s1"
    by (auto simp: u)
  have c: "\<not> lbn < 12" "lbn - 12 < ?r" using h by (auto simp: word_less_nat_alt u ur)
  have "node_pbn d nd lbn s = Inr (ref_at content (unat ?bs) (indirect_1 ?da) (?l - 12), s1)"
    unfolding node_pbn_def Let_def by (simp only: c f(1) if_False if_True)
  then show ?thesis using f(2) by (simp add: block_ref_def path)
qed

lemma node_pbn_two:
  assumes ok: "ok s" and wf: "node_wf content lim nd" and l: "unat lbn * unat (n_block_size nd) < unat (size_low (data nd))"
    and R_def: "R = unat (n_block_size nd) div 4"
    and h: "12 + R \<le> unat lbn" "unat lbn < 12 + R + R * R"
  shows "\<exists>s1. node_pbn d nd lbn s = Inr (block_ref content nd (unat lbn), s1) \<and> ok s1"
proof -
  let ?bs = "n_block_size nd" and ?l = "unat lbn" and ?da = "data nd"
  let ?r = "?bs div 4"
  note ref = ref_path_ok [OF wf l] and R = node_sizes(1,2) [OF wf l, folded R_def] and ur = node_sizes(3) [OF wf l, folded R_def]
    and urr = node_sizes(4) [OF wf l, folded R_def] and lb = node_sizes(5) [OF wf l]
  have u: "unat (lbn - 12) = ?l - 12" using h by (simp add: unat_minus_no_wrap word_le_nat_alt)
  have u2: "unat (lbn - 12 - ?r) = ?l - 12 - R" using h u ur by (simp add: unat_minus_no_wrap word_le_nat_alt)
  let ?m = "?l - 12 - R"
  let ?p1 = "ref_at content (unat ?bs) (indirect_2 ?da) (?m div R)"
  have path: "ref_path content nd ?l = [indirect_2 ?da, ?p1, ref_at content (unat ?bs) ?p1 (?m mod R)]"
    using h by (simp add: ref_path_def Let_def R_def [symmetric])
  have ui: "unat ((lbn - 12 - ?r) div ?r) = ?m div R" "unat ((lbn - 12 - ?r) mod ?r) = ?m mod R"
    by (simp_all only: unat_div [of _ ?r] unat_mod [of _ ?r] u2 ur)
  have i1: "unat ((lbn - 12 - ?r) div ?r) < unat ?bs div 4" "unat ((lbn - 12 - ?r) mod ?r) < unat ?bs div 4"
    unfolding ui R_def [symmetric] using h R by (simp_all add: div_less_iff_less_mult)
  obtain s1 where f1: "follow d ?bs (indirect_2 ?da) ((lbn - 12 - ?r) div ?r) s = Inr (?p1, s1)" "ok s1"
    using follow_ok [OF ok i1(1), of "indirect_2 ?da", unfolded ui] ref path by auto
  obtain s2 where f2: "follow d ?bs ?p1 ((lbn - 12 - ?r) mod ?r) s1 = Inr (ref_at content (unat ?bs) ?p1 (?m mod R), s2)" "ok s2"
    using follow_ok [OF f1(2) i1(2), of ?p1, unfolded ui] ref path by auto
  have c: "\<not> lbn < 12" "\<not> lbn - 12 < ?r" "?r \<noteq> 0" "lbn - 12 - ?r < ?r * ?r"
    using h R by (auto simp: word_less_nat_alt u u2 ur urr unat_eq_0 [symmetric])
  have "node_pbn d nd lbn s = Inr (ref_at content (unat ?bs) ?p1 (?m mod R), s2)"
    unfolding node_pbn_def Let_def by (simp only: c f1(1) f2(1) if_False if_True bindR.simps prod.case)
  then show ?thesis using f2(2) by (simp add: block_ref_def path)
qed

lemma node_pbn_three:
  assumes ok: "ok s" and wf: "node_wf content lim nd" and l: "unat lbn * unat (n_block_size nd) < unat (size_low (data nd))"
    and R_def: "R = unat (n_block_size nd) div 4"
    and h: "12 + R + R * R \<le> unat lbn"
  shows "\<exists>s1. node_pbn d nd lbn s = Inr (block_ref content nd (unat lbn), s1) \<and> ok s1"
proof -
  let ?bs = "n_block_size nd" and ?l = "unat lbn" and ?da = "data nd"
  let ?r = "?bs div 4"
  note ref = ref_path_ok [OF wf l] and R = node_sizes(1,2) [OF wf l, folded R_def] and ur = node_sizes(3) [OF wf l, folded R_def]
    and urr = node_sizes(4) [OF wf l, folded R_def] and lb = node_sizes(5) [OF wf l]
  have u: "unat (lbn - 12) = ?l - 12" using h by (simp add: unat_minus_no_wrap word_le_nat_alt)
  have u2: "unat (lbn - 12 - ?r) = ?l - 12 - R" using h u ur by (simp add: unat_minus_no_wrap word_le_nat_alt)
  have u3: "unat (lbn - 12 - ?r - ?r * ?r) = ?l - 12 - R - R * R" using h u2 urr by (simp add: unat_minus_no_wrap word_le_nat_alt)
  let ?m = "?l - 12 - R - R * R" and ?w = "lbn - 12 - ?r - ?r * ?r"
  let ?p1 = "ref_at content (unat ?bs) (indirect_3 ?da) (?m div R div R)"
  let ?p2 = "ref_at content (unat ?bs) ?p1 (?m div R mod R)"
  have path: "ref_path content nd ?l = [indirect_3 ?da, ?p1, ?p2, ref_at content (unat ?bs) ?p2 (?m mod R)]"
    using h by (simp add: ref_path_def Let_def R_def [symmetric])
  have "256 * 256 * 256 \<le> R * R * R" using R(1) by (intro mult_le_mono) simp_all
  then have "?m < R * R * R" using lb by linarith
  then have m: "?m div R div R < R" using R by (simp add: div_less_iff_less_mult)
  have ui: "unat (?w div ?r div ?r) = ?m div R div R" "unat (?w div ?r mod ?r) = ?m div R mod R" "unat (?w mod ?r) = ?m mod R"
    by (simp_all only: unat_div [of _ ?r] unat_mod [of _ ?r] u3 ur)
  have i1: "unat (?w div ?r div ?r) < unat ?bs div 4" "unat (?w div ?r mod ?r) < unat ?bs div 4" "unat (?w mod ?r) < unat ?bs div 4"
    unfolding ui R_def [symmetric] using m R by simp_all
  obtain s1 where f1: "follow d ?bs (indirect_3 ?da) (?w div ?r div ?r) s = Inr (?p1, s1)" "ok s1"
    using follow_ok [OF ok i1(1), of "indirect_3 ?da", unfolded ui] ref path by auto
  obtain s2 where f2: "follow d ?bs ?p1 (?w div ?r mod ?r) s1 = Inr (?p2, s2)" "ok s2"
    using follow_ok [OF f1(2) i1(2), of ?p1, unfolded ui] ref path by auto
  obtain s3 where f3: "follow d ?bs ?p2 (?w mod ?r) s2 = Inr (ref_at content (unat ?bs) ?p2 (?m mod R), s3)" "ok s3"
    using follow_ok [OF f2(2) i1(3), of ?p2, unfolded ui] ref path by auto
  have c: "\<not> lbn < 12" "\<not> lbn - 12 < ?r" "?r \<noteq> 0" "\<not> lbn - 12 - ?r < ?r * ?r" "?w div ?r div ?r < ?r"
    using h R i1(1) by (auto simp: word_less_nat_alt u u2 ur urr unat_eq_0 [symmetric] R_def [symmetric])
  have e: "(?w div ?r div ?r * ?r + ?w div ?r mod ?r) * ?r + ?w mod ?r = ?w" by (simp only: div_mult_mod_eq)
  have "node_pbn d nd lbn s = Inr (ref_at content (unat ?bs) ?p2 (?m mod R), s3)"
    unfolding node_pbn_def Let_def by (simp only: c e f1(1) f2(1) f3(1) if_False if_True bindR.simps prod.case assertR_True simp_thms)
  then show ?thesis using f3(2) by (simp add: block_ref_def path)
qed

lemma node_pbn_ok:
  assumes ok: "ok s" and wf: "node_wf content lim nd" and l: "unat lbn * unat (n_block_size nd) < unat (size_low (data nd))"
  shows "\<exists>s1. node_pbn d nd lbn s = Inr (block_ref content nd (unat lbn), s1) \<and> ok s1"
proof -
  define R where "R = unat (n_block_size nd) div 4"
  consider (direct) "unat lbn < 12" | (one) "12 \<le> unat lbn" "unat lbn < 12 + R"
    | (two) "12 + R \<le> unat lbn" "unat lbn < 12 + R + R * R" | (three) "12 + R + R * R \<le> unat lbn" by linarith
  then show ?thesis
  proof cases
    case direct
    then show ?thesis using ok by (simp add: node_pbn_def Let_def block_ref_def ref_path_def word_less_nat_alt)
  next
    case one
    then show ?thesis by (rule node_pbn_one [OF ok wf l R_def])
  next
    case two
    then show ?thesis by (rule node_pbn_two [OF ok wf l R_def])
  next
    case three
    then show ?thesis by (rule node_pbn_three [OF ok wf l R_def])
  qed
qed

lemma node_block_bytes:
  assumes "0 < unat (n_block_size nd)"
  shows "bytes_at (node_byte content nd) (l * unat (n_block_size nd)) (unat (n_block_size nd)) =
    (if block_ref content nd l = 0 then replicate (unat (n_block_size nd)) 0
     else bytes_at content (unat (block_ref content nd l) * unat (n_block_size nd)) (unat (n_block_size nd)))"
proof -
  let ?bs = "unat (n_block_size nd)"
  have e: "node_byte content nd (l * ?bs + j) =
      (if block_ref content nd l = 0 then 0 else content (unat (block_ref content nd l) * ?bs + j))" if "j < ?bs" for j
    using that assms by (simp add: node_byte_def Let_def)
  show ?thesis
    by (rule nth_equalityI) (auto simp: bytes_at_def e)
qed

lemma node_read_block_ok:
  assumes ok: "ok s" and wf: "node_wf content lim nd" and l: "unat lbn * unat (n_block_size nd) < unat (size_low (data nd))"
  shows "\<exists>s1. node_read_block d nd lbn s =
    Inr (bytes_at (node_byte content nd) (unat lbn * unat (n_block_size nd)) (unat (n_block_size nd)), s1) \<and> ok s1"
proof -
  let ?bs = "n_block_size nd" and ?p = "block_ref content nd (unat lbn)"
  obtain s1 where s1: "node_pbn d nd lbn s = Inr (?p, s1)" "ok s1" using node_pbn_ok [OF ok wf l] by blast
  have bs: "0 < unat ?bs" using wf by (simp add: node_wf_def Let_def)
  show ?thesis
  proof (cases "?p = 0")
    case True
    then show ?thesis using s1 by (simp add: node_read_block_def node_block_bytes [OF bs])
  next
    case False
    have "?p \<in> set (ref_path content nd (unat lbn))"
      unfolding block_ref_def by (rule last_in_set) (simp add: ref_path_def Let_def)
    then have lm: "unat ?p * unat ?bs + unat ?bs \<le> lim" using ref_path_ok [OF wf l] False by blast
    have L: "lim < 2 ^ 32" using lim_le unat_u32_less [of "size_in_bytes d"] by (rule le_less_trans)
    have u: "unat (?p * ?bs) = unat ?p * unat ?bs" using lm L by (intro unat_times_no_wrap) linarith
    obtain s2 where "bio_read_all d (?p * ?bs) ?bs s1 = Inr ((uint ?bs, bytes_at content (unat ?p * unat ?bs) (unat ?bs)), s2)" "ok s2"
      using read_all_inside [OF s1(2), of "?p * ?bs" ?bs] lm by (auto simp: u)
    then show ?thesis using s1(1) False by (simp add: node_read_block_def node_block_bytes [OF bs])
  qed
qed

lemma node_device:
  assumes wf: "node_wf content lim nd"
  shows "block_device (node_io d nd) ok (unat (size_low (data nd))) (node_byte content nd)"
proof
  show "block_size (node_io d nd) \<noteq> 0" using wf by (auto simp: node_io_def node_wf_def Let_def)
  show "unat (size_low (data nd)) \<le> unat (size_in_bytes (node_io d nd))" by (simp add: node_io_def)
  show "ok s \<Longrightarrow> unat b * unat (block_size (node_io d nd)) < unat (size_low (data nd)) \<Longrightarrow>
      \<exists>s1. read_block (node_io d nd) b s =
        Inr (bytes_at (node_byte content nd) (unat b * unat (block_size (node_io d nd))) (unat (block_size (node_io d nd))), s1) \<and> ok s1" for s b
    using node_read_block_ok [OF _ wf] by (simp add: node_io_def)
qed

lemma get_symbol_ok:
  assumes ok: "ok s" and wf: "node_wf content lim nd" and l: "is_symlink (data nd)"
  shows "\<exists>s1. get_symbol d nd s = Inr (symbol_of content nd, s1) \<and> ok s1"
proof (cases "size_low (data nd) < 60")
  case True
  then show ?thesis using ok l by (simp add: get_symbol_def symbol_of_def Let_def)
next
  case False
  then show ?thesis
    using block_device.read_all_inside [OF node_device [OF wf] ok, of 0 "size_low (data nd)"] l
    by (auto simp: get_symbol_def symbol_of_def Let_def)
qed

end

section \<open>I-nodes through the buffer cache\<close>

text \<open>The content of the disk and the states of the cache, as long as only its first 996 sectors are used.\<close>

abbreviation disk_limit :: nat where "disk_limit \<equiv> 996 * 512"

lemma ide_cache_device:
  "block_device (cache_io (ide_io hw fuel)) (\<lambda>c. cache_small hw fuel c \<and> drive (cdev c) = dr) disk_limit (disk_byte hw dr)"
proof -
  have e: "(\<lambda>c. resident c \<and> cached_right (ide_io hw fuel) (disk_byte hw dr) c \<and> ide_ok hw fuel dr (cdev c)) =
      (\<lambda>c. cache_small hw fuel c \<and> drive (cdev c) = dr)"
    by (rule ext) (auto simp: cache_small_def cache_ready_def cache_inv_def ide_ok_def resident_def)
  have m: "min (2 ^ 32 - 1) (996 * unat (block_size (ide_io hw fuel))) = disk_limit"
    by (simp add: ide_io_def sector_size_def)
  show ?thesis using ide_cache.cache.block_device_axioms [of hw fuel dr] by (simp only: e m)
qed

section \<open>Property\<close>


text \<open>A file of 1100 bytes whose first block is a hole and whose second is block 2 of the disk.\<close>

definition holed_file :: node where
  "holed_file = \<lparr>number = 7,
     data = (node_data_of (replicate 128 0))\<lparr>size_low := 1100, direct := [0, 2, 0, 0, 0, 0, 0, 0, 0, 0, 0, 0]\<rparr>,
     n_block_size = 1024\<rparr>"

lemma holed_file_wf: "node_wf content disk_limit holed_file"
proof -
  have "p = 0 \<or> unat p * 1024 + 1024 \<le> disk_limit" if "l * 1024 < (1100 :: nat)" "p \<in> set (ref_path content holed_file l)" for l p
  proof -
    have "l = 0 \<or> l = 1" using that(1) by linarith
    then show ?thesis using that(2) by (elim disjE) (simp_all add: ref_path_def holed_file_def Let_def)
  qed
  then show ?thesis by (simp add: node_wf_def holed_file_def Let_def)
qed


end
