(* ===== verification/Ext2Find.thy ===== *)
theory Ext2Find
  imports Ext2Node
begin

text \<open>
  Directories and paths. \<open>dir_parse\<close> reads the entries of a well-formed directory from its bytes, \<open>node_at\<close> the i-node with a
  number from the i-node tables, and \<open>lookup\<close> combines them: the i-node of the first entry with a
  name. \<open>resolve\<close> is the specification of \<open>find\<close> on lists of names: it walks down from a directory, restarts at the root for an
  absolute path, replaces a symbolic link that is not the last name by the names in it, and gives up at
  the hundredth link. The theorems show that the code computes exactly this through any device, and
  that the mount reads its parameters from the right places.
\<close>

section \<open>The specification\<close>

function dir_parse :: "(nat \<Rightarrow> u8) \<Rightarrow> nat \<Rightarrow> nat \<Rightarrow> (u32 \<times> u8 list) list option" where
  "dir_parse content sz off =
     (if sz \<le> off then Some []
      else
        let rl = unat (le16 (bytes_at content (off + 4) 2));
            nl = unat (content (off + 6));
            nm = bytes_at content (off + 8) nl in
        if rl = 0 \<or> sz < off + rl \<or> sz < off + 8 + nl \<or> 0 \<in> set nm then None
        else map_option (Cons (le32 (bytes_at content off 4), nm)) (dir_parse content sz (off + rl)))"
  by pat_completeness auto
termination
  by (relation "measure (\<lambda>(content, sz, off). sz - off)") auto

declare dir_parse.simps [simp del]

definition inode_offset :: "ext2 \<Rightarrow> u32 \<Rightarrow> nat" where
  "inode_offset fs num =
     (let i = unat num - 1; per = unat (iNodesPerGroup fs) in
      unat (iNodeTables fs ! (i div per)) * unat (blockSize fs) + i mod per * unat (iNodeSize fs))"

definition inode_ok :: "ext2 \<Rightarrow> nat \<Rightarrow> u32 \<Rightarrow> bool" where
  "inode_ok fs lim num \<longleftrightarrow>
     num \<noteq> 0 \<and> num \<le> numberOfNodes fs \<and> iNodesPerGroup fs \<noteq> 0 \<and>
     (unat num - 1) div unat (iNodesPerGroup fs) < unat (nGroups fs) \<and>
     iNodeTables fs ! ((unat num - 1) div unat (iNodesPerGroup fs)) \<le> numberOfBlocks fs \<and>
     inode_offset fs num + 128 \<le> lim"

definition node_at :: "(nat \<Rightarrow> u8) \<Rightarrow> ext2 \<Rightarrow> u32 \<Rightarrow> node" where
  "node_at content fs num =
     \<lparr>number = num, data = node_data_of (bytes_at content (inode_offset fs num) 128), n_block_size = blockSize fs\<rparr>"

definition dir_list :: "(nat \<Rightarrow> u8) \<Rightarrow> node \<Rightarrow> (u32 \<times> u8 list) list option" where
  "dir_list content nd = dir_parse (node_byte content nd) (unat (size_low (data nd))) 0"

definition lookup :: "(nat \<Rightarrow> u8) \<Rightarrow> ext2 \<Rightarrow> node \<Rightarrow> u8 list \<Rightarrow> node option" where
  "lookup content fs nd nm =
     (case dir_list content nd of
        None \<Rightarrow> None
      | Some es \<Rightarrow> (case List.find (\<lambda>(i, nm'). nm' = nm) es of
                     None \<Rightarrow> None
                   | Some (i, _) \<Rightarrow> if i = 0 then None else Some (node_at content fs i)))"

definition components :: "string \<Rightarrow> string list" where
  "components str = (if str \<noteq> [] \<and> hd str = CHR ''/'' then [''/''] else []) @ segments str"

function resolve :: "(nat \<Rightarrow> u8) \<Rightarrow> ext2 \<Rightarrow> node \<Rightarrow> string list \<Rightarrow> nat \<Rightarrow> node \<Rightarrow> node option" where
  "resolve content fs rt [] count nd = Some nd"
| "resolve content fs rt (nm # rest) count nd =
     (if count \<ge> 100 then None
      else if nm \<noteq> [] \<and> hd nm = CHR ''/'' then resolve content fs rt rest count rt
      else if \<not> is_dir (data nd) then None
      else case lookup content fs nd (str_bytes nm) of
        None \<Rightarrow> None
      | Some nx \<Rightarrow>
          if rest \<noteq> [] \<and> is_symlink (data nx)
          then resolve content fs rt (components (bytes_str (symbol_of content nx)) @ rest) (count + 1) nd
          else resolve content fs rt rest (if is_symlink (data nx) then count + 1 else count) nx)"
  by pat_completeness auto
termination
  by (relation "measures [\<lambda>(content, fs, rt, nms, count, nd). 100 - count, \<lambda>(content, fs, rt, nms, count, nd). length nms]") auto

declare resolve.simps [simp del]

text \<open>What \<open>entries\<close> does with a list of entries.\<close>

fun run_entries :: "(u32 \<Rightarrow> u8 list \<Rightarrow> u8 \<Rightarrow> 'w \<Rightarrow> u32 \<times> 'w) \<Rightarrow> (u32 \<times> u8 list) list \<Rightarrow> 'w \<Rightarrow> u32 \<times> 'w" where
  "run_entries work [] w = (0, w)"
| "run_entries work ((i, nm) # es) w =
     (case work i nm (of_nat (length nm)) w of (out, w1) \<Rightarrow> if out \<noteq> 0 then (out, w1) else run_entries work es w1)"

text \<open>A set of i-nodes that is closed under lookup and whose members the code can read.\<close>

definition readable :: "(nat \<Rightarrow> u8) \<Rightarrow> nat \<Rightarrow> ext2 \<Rightarrow> node set \<Rightarrow> bool" where
  "readable content lim fs N \<longleftrightarrow>
     (\<forall>nd\<in>N. node_wf content lim nd \<and>
        (is_dir (data nd) \<longrightarrow> (\<exists>es. dir_list content nd = Some es \<and>
           (\<forall>(i, nm)\<in>set es. i = 0 \<or> inode_ok fs lim i \<and> node_at content fs i \<in> N))) \<and>
        (is_symlink (data nd) \<longrightarrow> size_low (data nd) < 2 ^ 30 \<and> 0 \<notin> set (symbol_of content nd)))"

lemma unat_ucast_u8: "unat (ucast (x :: u8) :: u32) = unat x"
  using unsigned_less [where 'a = nat, of x] by (simp add: unsigned_ucast_eq take_bit_nat_eq_self)

lemma unat_ucast_u16: "unat (ucast (x :: u16) :: u32) = unat x"
  using unsigned_less [where 'a = nat, of x] by (simp add: unsigned_ucast_eq take_bit_nat_eq_self)

text \<open>The fixed part of an entry at an offset below the size.\<close>

lemma dir_parse_step:
  assumes p: "dir_parse content sz off = Some es" and lt: "off < sz"
  obtains es' where "es = (le32 (bytes_at content off 4), bytes_at content (off + 8) (unat (content (off + 6)))) # es'"
    and "dir_parse content sz (off + unat (le16 (bytes_at content (off + 4) 2))) = Some es'"
    and "0 < unat (le16 (bytes_at content (off + 4) 2))" "off + unat (le16 (bytes_at content (off + 4) 2)) \<le> sz"
    and "off + 8 + unat (content (off + 6)) \<le> sz" "0 \<notin> set (bytes_at content (off + 8) (unat (content (off + 6))))"
proof -
  from p lt have "\<exists>es'. es = (le32 (bytes_at content off 4), bytes_at content (off + 8) (unat (content (off + 6)))) # es' \<and>
      dir_parse content sz (off + unat (le16 (bytes_at content (off + 4) 2))) = Some es' \<and>
      0 < unat (le16 (bytes_at content (off + 4) 2)) \<and> off + unat (le16 (bytes_at content (off + 4) 2)) \<le> sz \<and>
      off + 8 + unat (content (off + 6)) \<le> sz \<and> 0 \<notin> set (bytes_at content (off + 8) (unat (content (off + 6))))"
    by (subst (asm) dir_parse.simps) (auto simp: Let_def not_less unat_gt_0 split: if_splits)
  then show ?thesis using that by blast
qed

text \<open>C strings hold no NUL.\<close>

definition c_string :: "string \<Rightarrow> bool" where "c_string str \<longleftrightarrow> CHR 0x00 \<notin> set str"

lemma of_char_u8_eq_0: "(of_char c :: u8) = 0 \<longleftrightarrow> c = CHR 0x00"
proof -
  have "(of_char c :: u8) = of_nat (of_char c)" by (simp add: of_nat_of_char)
  then have "(of_char c :: u8) = 0 \<longleftrightarrow> (of_char c :: nat) mod 256 = 0" by (simp add: word_of_nat_eq_0_iff dvd_eq_mod_eq_0)
  also have "\<dots> \<longleftrightarrow> (of_char c :: nat) = 0" by simp
  also have "\<dots> \<longleftrightarrow> of_char c = (of_char CHR 0x00 :: nat)" by simp
  also have "\<dots> \<longleftrightarrow> c = CHR 0x00" by (rule of_char_eq_iff)
  finally show ?thesis .
qed

lemma str_bytes_c_string: "c_string str \<Longrightarrow> 0 \<notin> set (str_bytes str)"
  by (auto simp: c_string_def str_bytes_def of_char_u8_eq_0 eq_commute [of 0])

lemma char_of_u8_eq_0: "char_of (unat (b :: u8)) = CHR 0x00 \<longleftrightarrow> b = 0"
proof -
  have "char_of (unat b) = CHR 0x00 \<longleftrightarrow> (of_char (char_of (unat b)) :: nat) = of_char (CHR 0x00)" by (simp only: of_char_eq_iff)
  also have "\<dots> \<longleftrightarrow> unat b mod 256 = 0" by (simp only: of_char_of) simp
  also have "\<dots> \<longleftrightarrow> unat b = 0" using unsigned_less [where 'a = nat, of b] by simp
  finally show ?thesis by (simp add: unat_eq_0)
qed

lemma bytes_str_c_string: "0 \<notin> set bs \<Longrightarrow> c_string (bytes_str bs)"
  by (auto simp: c_string_def bytes_str_def char_of_u8_eq_0 eq_commute [of "CHR 0x00"])

lemma split_slash_chars: "nm \<in> set (split_slash str) \<Longrightarrow> set nm \<subseteq> set str"
proof (induction str arbitrary: nm)
  case (Cons c cs)
  then show ?case using split_slash_ne [of cs] by (auto split: if_splits list.splits) blast+
qed simp

lemma components_c_string: "c_string str \<Longrightarrow> nm \<in> set (components str) \<Longrightarrow> c_string nm"
  using split_slash_chars [of nm str] by (auto simp: components_def segments_def c_string_def split: if_splits)

lemma merge_names:
  assumes "path_ok q"
  shows "path_names (merge_symbolic_link p q) = path_names q @ path_names p"
    and "path_ok p \<Longrightarrow> pa_items p \<noteq> [] \<Longrightarrow> path_ok (merge_symbolic_link p q)"
  using assms by (auto simp: merge_symbolic_link_def path_names_def path_ok_def)

lemma path_remove_names:
  assumes "path_ok p"
  shows "case path_names p of
      [] \<Rightarrow> path_remove p = (None, p)
    | nm # rest \<Rightarrow> \<exists>cur q. path_remove p = (Some cur, q) \<and> ps_get cur = nm \<and> path_names q = rest \<and> path_ok q \<and>
        length (pa_items q) < length (pa_items p)"
  using assms by (auto simp: path_names_def path_remove_def path_ok_def split: list.splits)

lemma link_string_ok: "0 \<notin> set target \<Longrightarrow> link_string target 0 = Inr (bytes_str target)"
proof -
  assume "0 \<notin> set target"
  then have "takeWhile (\<lambda>b. b \<noteq> 0) (target @ [0]) = target" by (subst takeWhile_append2) auto
  then show ?thesis by (simp add: link_string_def)
qed

text \<open>Without the terminating NUL, and if the byte after the target is not zero by chance, the parser reads past the array.\<close>

lemma link_string_unterminated: "0 \<notin> set target \<Longrightarrow> junk \<noteq> 0 \<Longrightarrow> link_string target junk = Inl (Undef ''read past new_path_str'')"
  by (auto simp: link_string_def)

section \<open>Reading an i-node\<close>

context block_device
begin

lemma get_node_ok:
  assumes ok: "ok s" and i: "inode_ok fs lim num"
  shows "\<exists>s1. get_node d fs num s = Inr (Some (node_at content fs num), s1) \<and> ok s1"
proof -
  have n: "num \<noteq> 0" "num \<le> numberOfNodes fs" "iNodesPerGroup fs \<noteq> 0"
    and g: "(unat num - 1) div unat (iNodesPerGroup fs) < unat (nGroups fs)"
    and t: "iNodeTables fs ! ((unat num - 1) div unat (iNodesPerGroup fs)) \<le> numberOfBlocks fs"
    and o: "inode_offset fs num + 128 \<le> lim"
    using i by (auto simp: inode_ok_def)
  let ?i = "unat num - 1" and ?per = "unat (iNodesPerGroup fs)"
  have "1 \<le> num" using n(1) by (simp add: word_le_nat_alt unat_gt_0 Suc_leI)
  then have u1: "unat (num - 1) = ?i" by (simp add: unat_minus_no_wrap)
  have ug: "unat ((num - 1) div iNodesPerGroup fs) = ?i div ?per" "unat ((num - 1) mod iNodesPerGroup fs) = ?i mod ?per"
    by (simp_all only: unat_div unat_mod u1)
  let ?b = "iNodeTables fs ! (?i div ?per)"
  have L: "lim < 2 ^ 32" using lim_le unat_u32_less [of "size_in_bytes d"] by (rule le_less_trans)
  have oo: "inode_offset fs num = unat ?b * unat (blockSize fs) + ?i mod ?per * unat (iNodeSize fs)"
    by (simp add: inode_offset_def Let_def)
  have m1: "unat (?b * blockSize fs) = unat ?b * unat (blockSize fs)"
    using o oo L by (intro unat_times_no_wrap) linarith
  have m2: "unat ((num - 1) mod iNodesPerGroup fs * iNodeSize fs) = ?i mod ?per * unat (iNodeSize fs)"
    using unat_times_no_wrap [of "(num - 1) mod iNodesPerGroup fs" "iNodeSize fs", unfolded ug] o oo L by linarith
  have uo: "unat (?b * blockSize fs + (num - 1) mod iNodesPerGroup fs * iNodeSize fs) = inode_offset fs num"
    using unat_plus_no_wrap [of "?b * blockSize fs" "(num - 1) mod iNodesPerGroup fs * iNodeSize fs", unfolded m1 m2] o oo L by linarith
  obtain s1 where "bio_read_bytes d (?b * blockSize fs + (num - 1) mod iNodesPerGroup fs * iNodeSize fs) 128 s =
      Inr (bytes_at content (inode_offset fs num) 128, s1)" "ok s1"
    using read_bytes_ok [OF ok, of "?b * blockSize fs + (num - 1) mod iNodesPerGroup fs * iNodeSize fs" 128, unfolded uo] o
    by auto
  then show ?thesis
    using n g t by (simp add: get_node_def Let_def word_less_nat_alt ug node_at_def sizeof_node_data_def)
qed

section \<open>Searching a directory\<close>

lemma same_name_ok:
  assumes "ok s" "node_wf content lim nd" "off + 8 + unat len \<le> unat (size_low (data nd))" "unat full_offset = off"
    and "0 \<notin> set name" "0 \<notin> set (bytes_at (node_byte content nd) (off + 8) (unat len))"
    and "unat i \<le> unat len" "take (unat i) name = take (unat i) (bytes_at (node_byte content nd) (off + 8) (unat len))"
  shows "\<exists>s1. same_name d nd full_offset len name i s =
    Inr (name = bytes_at (node_byte content nd) (off + 8) (unat len), s1) \<and> ok s1"
  using assms(1,7,8)
proof (induction "unat len - unat i" arbitrary: i s)
  case 0
  then have i: "i = len" by (simp add: word_unat_eq_iff)
  let ?nm = "bytes_at (node_byte content nd) (off + 8) (unat len)"
  have tk: "take (unat len) name = ?nm" using 0(4) i by simp
  have le: "unat len \<le> length name" using arg_cong [OF tk, of length] by simp
  have "(name @ [0]) ! unat len = 0 \<longleftrightarrow> name = ?nm"
  proof (cases "unat len = length name")
    case True
    then show ?thesis using tk by simp
  next
    case False
    then have "(name @ [0]) ! unat len \<in> set name" using le by (simp add: nth_append)
    moreover have "name \<noteq> ?nm" using False by auto
    ultimately show ?thesis using assms(5) by metis
  qed
  then show ?case using 0(2) i le by (subst same_name.simps) (simp add: cstring_at_def)
next
  case (Suc k)
  let ?nm = "bytes_at (node_byte content nd) (off + 8) (unat len)"
  have il: "unat i < unat len" using Suc.hyps(2) by simp
  then have ne: "i \<noteq> len" "\<not> i \<ge> len" by (auto simp: word_le_nat_alt)
  have ui: "unat (i + 1) = unat i + 1" using ne(2) by (intro unat_next_u8 [of i len]) (simp add: not_le)
  have i8: "unat (ucast i :: u32) = unat i" by (rule unat_ucast_u8)
  have "unat (size_low (data nd)) < 2 ^ 32" by (rule unat_u32_less)
  then have ua: "unat (full_offset + 8 + ucast i) = off + 8 + unat i"
    using assms(3,4) il i8 by (simp add: unat_plus_no_wrap)
  have "unat (full_offset + 8 + ucast i) < unat (size_low (data nd))" using ua il assms(3) by linarith
  from block_device.read_u8_ok [OF node_device [OF assms(2)] Suc.prems(1) this] obtain s1 where
    rd: "bio_read_u8 (node_io d nd) (full_offset + 8 + ucast i) s = Inr (node_byte content nd (off + 8 + unat i), s1)" "ok s1"
    by (auto simp: ua)
  have nth: "?nm ! unat i = node_byte content nd (off + 8 + unat i)" using il by (simp add: bytes_at_def)
  have "length (take (unat i) name) = unat i" using Suc.prems(3) il by simp
  then have ln: "unat i \<le> length name" by simp
  have eq: "take (unat (i + 1)) name = take (unat (i + 1)) ?nm" if "(name @ [0]) ! unat i = ?nm ! unat i"
  proof -
    have "?nm ! unat i \<noteq> 0" using assms(6) il by (metis length_bytes_at nth_mem)
    then have l: "unat i < length name" using that ln by (cases "unat i = length name") auto
    then have "name ! unat i = ?nm ! unat i" using that by (simp add: nth_append)
    then show ?thesis using Suc.prems(3) l il by (simp add: ui take_Suc_conv_app_nth)
  qed
  have neq: "name \<noteq> ?nm" if "(name @ [0]) ! unat i \<noteq> ?nm ! unat i"
    using that il by (metis length_bytes_at nth_append)
  show ?case
  proof (cases "(name @ [0]) ! unat i = ?nm ! unat i")
    case True
    have "k = unat len - unat (i + 1)" "unat (i + 1) \<le> unat len" using Suc.hyps(2) ui il by simp_all
    from Suc.hyps(1) [OF this(1) rd(2) this(2) eq [OF True]] show ?thesis
      using True ne ln by (subst same_name.simps) (simp add: rd(1) cstring_at_def nth)
  next
    case False
    then show ?thesis using ne ln neq rd(2) by (subst same_name.simps) (simp add: rd(1) cstring_at_def nth)
  qed
qed

lemma entry_header_ok:
  assumes ok: "ok s" and wf: "node_wf content lim nd" and le: "unat off + 8 \<le> unat (size_low (data nd))"
  shows "\<exists>s1. bio_read_u32 (node_io d nd) off s = Inr (le32 (bytes_at (node_byte content nd) (unat off) 4), s1) \<and> ok s1"
    and "\<exists>s1. bio_read_u16 (node_io d nd) (off + 4) s = Inr (le16 (bytes_at (node_byte content nd) (unat off + 4) 2), s1) \<and> ok s1"
    and "\<exists>s1. bio_read_u8 (node_io d nd) (off + 6) s = Inr (node_byte content nd (unat off + 6), s1) \<and> ok s1"
proof -
  note nd = node_device [OF wf]
  have "unat (size_low (data nd)) < 2 ^ 32" by (rule unat_u32_less)
  then have u: "unat (off + 4) = unat off + 4" "unat (off + 6) = unat off + 6" using le by (simp_all add: unat_plus_no_wrap)
  show "\<exists>s1. bio_read_u32 (node_io d nd) off s = Inr (le32 (bytes_at (node_byte content nd) (unat off) 4), s1) \<and> ok s1"
    using block_device.read_u32_ok [OF nd ok, of off] le by simp
  show "\<exists>s1. bio_read_u16 (node_io d nd) (off + 4) s = Inr (le16 (bytes_at (node_byte content nd) (unat off + 4) 2), s1) \<and> ok s1"
    using block_device.read_u16_ok [OF nd ok, of "off + 4"] le by (simp add: u)
  show "\<exists>s1. bio_read_u8 (node_io d nd) (off + 6) s = Inr (node_byte content nd (unat off + 6), s1) \<and> ok s1"
    using block_device.read_u8_ok [OF nd ok, of "off + 6"] le by (simp add: u)
qed

lemma find_one_loop_ok:
  assumes wf: "node_wf content lim nd" and nm: "0 \<notin> set name"
  shows "ok s \<Longrightarrow> dir_parse (node_byte content nd) (unat (size_low (data nd))) (unat off) = Some es \<Longrightarrow>
    unat (size_low (data nd)) \<le> n + unat off \<Longrightarrow>
    \<exists>s1. ok s1 \<and> find_one_loop n d fs nd name off s =
      (case List.find (\<lambda>(i, nm'). nm' = name) es of None \<Rightarrow> Inr (None, s1) | Some (i, _) \<Rightarrow> get_node d fs i s1)"
proof (induction n arbitrary: off s es)
  case 0
  have "es = []" using 0(2,3) by (subst (asm) dir_parse.simps) (simp split: if_splits)
  moreover have "\<not> off < size_low (data nd)" using 0(3) by (simp add: word_less_nat_alt)
  ultimately show ?case using 0(1) by (subst find_one_loop.simps) auto
next
  case (Suc n)
  let ?c = "node_byte content nd" and ?sz = "unat (size_low (data nd))" and ?o = "unat off"
  show ?case
  proof (cases "?o < ?sz")
    case False
    then have "es = []" using Suc.prems(2) by (subst (asm) dir_parse.simps) (simp split: if_splits)
    moreover have "\<not> off < size_low (data nd)" using False by (simp add: word_less_nat_alt)
    ultimately show ?thesis using Suc.prems(1) by (subst find_one_loop.simps) auto
  next
    case True
    let ?rl = "le16 (bytes_at ?c (?o + 4) 2)" and ?nl = "?c (?o + 6)"
    let ?nm = "bytes_at ?c (?o + 8) (unat ?nl)"
    obtain es' where es: "es = (le32 (bytes_at ?c ?o 4), ?nm) # es'" "dir_parse ?c ?sz (?o + unat ?rl) = Some es'"
      "0 < unat ?rl" "?o + unat ?rl \<le> ?sz" "?o + 8 + unat ?nl \<le> ?sz" "0 \<notin> set ?nm"
      using dir_parse_step [OF Suc.prems(2) True] by metis
    have le: "?o + 8 \<le> ?sz" using es(5) by linarith
    obtain s1 where s1: "bio_read_u32 (node_io d nd) off s = Inr (le32 (bytes_at ?c ?o 4), s1)" "ok s1"
      using entry_header_ok(1) [OF Suc.prems(1) wf le] by blast
    obtain s2 where s2: "bio_read_u16 (node_io d nd) (off + 4) s1 = Inr (?rl, s2)" "ok s2"
      using entry_header_ok(2) [OF s1(2) wf le] by blast
    obtain s3 where s3: "bio_read_u8 (node_io d nd) (off + 6) s2 = Inr (?nl, s3)" "ok s3"
      using entry_header_ok(3) [OF s2(2) wf le] by blast
    obtain s4 where s4: "same_name d nd off ?nl name 0 s3 = Inr (name = ?nm, s4)" "ok s4"
      using same_name_ok [OF s3(2) wf es(5) refl nm es(6), of 0] by auto
    have "unat (size_low (data nd)) < 2 ^ 32" by (rule unat_u32_less)
    then have uo: "unat (off + ucast ?rl) = ?o + unat ?rl" using es(4) by (subst unat_plus_no_wrap) (simp_all add: unat_ucast_u16)
    have lt: "off < size_low (data nd)" using True by (simp add: word_less_nat_alt)
    have step: "find_one_loop (Suc n) d fs nd name off s =
        (if name = ?nm then get_node d fs (le32 (bytes_at ?c ?o 4)) s4 else find_one_loop n d fs nd name (off + ucast ?rl) s4)"
      by (subst find_one_loop.simps) (simp add: lt s1(1) s2(1) s3(1) s4(1))
    show ?thesis
    proof (cases "name = ?nm")
      case True
      then show ?thesis using step s4(2) es(1) by auto
    next
      case False
      have "?sz \<le> n + unat (off + ucast ?rl)" using Suc.prems(3) es(3) uo by linarith
      from Suc.IH [OF s4(2) _ this, of es'] es(2) uo show ?thesis using step False es(1) by auto
    qed
  qed
qed

lemma find_one_ok:
  assumes N: "readable content lim fs N" "nd \<in> N" "is_dir (data nd)" and ok: "ok s" and nm: "0 \<notin> set name"
    and n: "unat (size_low (data nd)) \<le> n"
  shows "\<exists>s1. find_one n d fs nd name s = Inr (lookup content fs nd name, s1) \<and> ok s1 \<and>
    (\<forall>nx. lookup content fs nd name = Some nx \<longrightarrow> nx \<in> N)"
proof -
  obtain es where es: "dir_list content nd = Some es"
    "\<And>i nm. (i, nm) \<in> set es \<Longrightarrow> i = 0 \<or> inode_ok fs lim i \<and> node_at content fs i \<in> N"
    using N by (fastforce simp: readable_def)
  have wf: "node_wf content lim nd" using N by (simp add: readable_def)
  obtain s1 where s1: "ok s1" "find_one n d fs nd name s =
      (case List.find (\<lambda>(i, nm'). nm' = name) es of None \<Rightarrow> Inr (None, s1) | Some (i, _) \<Rightarrow> get_node d fs i s1)"
    using find_one_loop_ok [OF wf nm ok, of 0 es n fs] es(1) n by (auto simp: find_one_def dir_list_def)
  show ?thesis
  proof (cases "List.find (\<lambda>(i, nm'). nm' = name) es")
    case None
    then show ?thesis using s1 es(1) by (simp add: lookup_def)
  next
    case (Some e)
    obtain i nm' where e: "e = (i, nm')" by (cases e)
    have "(i, nm') \<in> set es" using Some e by (auto simp: find_Some_iff) (metis nth_mem)
    then consider "i = 0" | "inode_ok fs lim i" "node_at content fs i \<in> N" using es(2) by blast
    then show ?thesis
    proof cases
      case 1
      then show ?thesis using s1 es(1) Some e by (simp add: lookup_def get_node_def)
    next
      case 2
      then have "i \<noteq> 0" by (simp add: inode_ok_def)
      then show ?thesis using s1 es(1) Some e 2 get_node_ok [OF s1(1) 2(1)] by (auto simp: lookup_def)
    qed
  qed
qed

lemma link_path_ok:
  assumes N: "readable content lim fs N" "nx \<in> N" "is_symlink (data nx)" and ok: "ok s"
  shows "\<exists>s1 q. get_symbol d nx s = Inr (symbol_of content nx, s1) \<and> ok s1 \<and>
    link_string (symbol_of content nx) 0 = Inr (bytes_str (symbol_of content nx)) \<and>
    path_of (bytes_str (symbol_of content nx)) = Inr q \<and> path_ok q \<and>
    path_names q = components (bytes_str (symbol_of content nx)) \<and> c_string (bytes_str (symbol_of content nx))"
proof -
  have wf: "node_wf content lim nx" and sz: "size_low (data nx) < 2 ^ 30" and z: "0 \<notin> set (symbol_of content nx)"
    using N by (auto simp: readable_def)
  have "length (symbol_of content nx) \<le> unat (size_low (data nx))" by (auto simp: symbol_of_def)
  then have "length (bytes_str (symbol_of content nx)) < 2 ^ 30" using sz by (simp add: bytes_str_def word_less_nat_alt)
  from path_of_spec [OF this] show ?thesis
    using get_symbol_ok [OF ok wf N(3)] link_string_ok [OF z] bytes_str_c_string [OF z] by (auto simp: components_def)
qed

lemma find_loop_ok:
  assumes N: "readable content lim fs N" "root fs = Some rt" "rt \<in> N" and n: "\<And>x. x \<in> N \<Longrightarrow> unat (size_low (data x)) \<le> n"
  shows "path_ok path \<Longrightarrow> \<forall>nm\<in>set (path_names path). c_string nm \<Longrightarrow> nd \<in> N \<Longrightarrow> ok s \<Longrightarrow>
    \<exists>s1. find_loop n d fs (\<lambda>_. 0) path count (Some nd) s = Inr (resolve content fs rt (path_names path) count nd, s1) \<and> ok s1"
proof (induction "(count, path)" arbitrary: count path nd s
    rule: wf_induct_rule [OF wf_measures [of "[\<lambda>(c, p). 100 - c, \<lambda>(c, p). length (pa_items p)]"]])
  case 1
  note IH = 1(1) and p = 1(2,3) and nd = 1(4) and ok = 1(5)
  show ?case
  proof (cases "path_names path")
    case Nil
    then show ?thesis using path_remove_names [OF p(1)] ok by (subst find_loop.simps) (simp add: resolve.simps)
  next
    case (Cons nm rest)
    obtain cur q where q: "path_remove path = (Some cur, q)" "ps_get cur = nm" "path_names q = rest" "path_ok q"
      "length (pa_items q) < length (pa_items path)"
      using path_remove_names [OF p(1)] Cons by auto
    have cs: "c_string nm" "\<forall>x\<in>set (path_names q). c_string x" using p(2) Cons q(3) by auto
    have IHq: "\<exists>s1. find_loop n d fs (\<lambda>_. 0) q count' (Some x) s' = Inr (resolve content fs rt rest count' x, s1) \<and> ok s1"
      if "x \<in> N" "ok s'" "count' = count \<or> count' = count + 1 \<and> count < 100" for x s' count'
    proof -
      have "100 - count' < 100 - count \<or> 100 - count' = 100 - count" using that(3) by linarith
      then show ?thesis using IH [of count' q x s'] that(1,2) q cs(2) by auto
    qed
    consider (many) "count \<ge> 100" | (rt) "count < 100" "nm \<noteq> [] \<and> hd nm = CHR ''/''"
      | (nodir) "count < 100" "\<not> (nm \<noteq> [] \<and> hd nm = CHR ''/'')" "\<not> is_dir (data nd)"
      | (dir) "count < 100" "\<not> (nm \<noteq> [] \<and> hd nm = CHR ''/'')" "is_dir (data nd)" by linarith
    then show ?thesis
    proof cases
      case many
      then show ?thesis using ok Cons q(1) by (subst find_loop.simps) (simp add: resolve.simps)
    next
      case rt
      then show ?thesis using IHq [OF N(3) ok, of count] Cons q(1,2) N(2)
        by (subst find_loop.simps) (auto simp: resolve.simps Let_def)
    next
      case nodir
      then show ?thesis using ok Cons q(1,2) by (subst find_loop.simps) (auto simp: resolve.simps Let_def)
    next
      case dir
      obtain s1 where s1: "find_one n d fs nd (str_bytes nm) s = Inr (lookup content fs nd (str_bytes nm), s1)" "ok s1"
        "\<And>nx. lookup content fs nd (str_bytes nm) = Some nx \<Longrightarrow> nx \<in> N"
        using find_one_ok [OF N(1) nd dir(3) ok str_bytes_c_string [OF cs(1)] n [OF nd]] by blast
      show ?thesis
      proof (cases "lookup content fs nd (str_bytes nm)")
        case None
        then show ?thesis using dir Cons q(1,2) s1 by (subst find_loop.simps) (auto simp: resolve.simps Let_def)
      next
        case (Some nx)
        have nx: "nx \<in> N" using s1(3) Some by blast
        have em: "path_isEmpty q \<longleftrightarrow> rest = []" using q(3) by (auto simp: path_isEmpty_def path_names_def)
        show ?thesis
        proof (cases "rest \<noteq> [] \<and> is_symlink (data nx)")
          case False
          then show ?thesis
            using dir Cons q(1,2) s1 Some em IHq [OF nx s1(2), of "if is_symlink (data nx) then count + 1 else count"]
            by (subst find_loop.simps) (auto simp: resolve.simps Let_def)
        next
          case True
          obtain s2 q' where g: "get_symbol d nx s1 = Inr (symbol_of content nx, s2)" "ok s2"
            "link_string (symbol_of content nx) 0 = Inr (bytes_str (symbol_of content nx))"
            "path_of (bytes_str (symbol_of content nx)) = Inr q'" "path_ok q'"
            "path_names q' = components (bytes_str (symbol_of content nx))" "c_string (bytes_str (symbol_of content nx))"
            using link_path_ok [OF N(1) nx _ s1(2)] True by blast
          have ne: "pa_items q \<noteq> []" using True q(3) by (auto simp: path_names_def)
          note mn = merge_names [OF g(5), of q]
          have "\<forall>x\<in>set (path_names (merge_symbolic_link q q')). c_string x"
            using cs(2) components_c_string [OF g(7)] g(6) by (auto simp: mn(1))
          then obtain s3 where "find_loop n d fs (\<lambda>_. 0) (merge_symbolic_link q q') (count + 1) (Some nd) s2 =
              Inr (resolve content fs rt (path_names (merge_symbolic_link q q')) (count + 1) nd, s3)" "ok s3"
            using IH [of "count + 1" "merge_symbolic_link q q'" nd s2] mn(2) [OF q(4) ne] nd g(2)
              diff_less_mono2 [of count "count + 1" 100] dir(1) by auto
          then show ?thesis using dir Cons q(1,2,3) s1 Some em True g mn(1)
            by (subst find_loop.simps) (auto simp: resolve.simps Let_def)
        qed
      qed
    qed
  qed
qed

lemma ext2_find_ok:
  assumes N: "readable content lim fs N" "root fs = Some rt" "rt \<in> N" "nd \<in> N"
    and n: "\<And>x. x \<in> N \<Longrightarrow> unat (size_low (data x)) \<le> n"
    and nm: "c_string name" "length name < 2 ^ 30" and ok: "ok s"
  shows "\<exists>s1. ext2_find n d fs (\<lambda>_. 0) (Some nd) name s = Inr (resolve content fs rt (components name) 0 nd, s1) \<and> ok s1"
proof -
  obtain p where p: "path_of name = Inr p" "path_ok p" "path_names p = components name"
    using path_of_spec [OF nm(2)] by (auto simp: components_def)
  have "\<forall>x\<in>set (path_names p). c_string x" using components_c_string [OF nm(1)] p(3) by auto
  from find_loop_ok [OF N(1-3) n p(2) this N(4) ok] show ?thesis using p by (simp add: ext2_find_def)
qed

section \<open>Walking a directory\<close>

lemma entry_name_ok:
  fixes nl :: u8
  assumes ok: "ok s" and wf: "node_wf content lim nd" and le: "unat off + 8 + unat nl \<le> unat (size_low (data nd))"
  shows "\<exists>s1. bio_read_all (node_io d nd) (off + 8) (ucast nl) s =
    Inr ((uint nl, bytes_at (node_byte content nd) (unat off + 8) (unat nl)), s1) \<and> ok s1"
proof -
  have "unat (size_low (data nd)) < 2 ^ 32" by (rule unat_u32_less)
  then have u: "unat (off + 8) = unat off + 8" using le by (simp add: unat_plus_no_wrap)
  have "uint (ucast nl :: u32) = uint nl" using unat_ucast_u8 [of nl] by (simp only: uint_nat)
  then show ?thesis
    using block_device.read_all_inside [OF node_device [OF wf] ok, of "off + 8" "ucast nl"] le by (simp add: u unat_ucast_u8)
qed

lemma entries_loop_ok:
  assumes wf: "node_wf content lim nd"
  shows "ok s \<Longrightarrow> dir_parse (node_byte content nd) (unat (size_low (data nd))) (unat off) = Some es \<Longrightarrow>
    unat (size_low (data nd)) \<le> n + unat off \<Longrightarrow>
    \<exists>s1. ok s1 \<and> entries_loop n d nd work off w s = (case run_entries work es w of (out, w1) \<Rightarrow> Inr (out, w1, s1))"
proof (induction n arbitrary: off s es w)
  case 0
  have "es = []" using 0(2,3) by (subst (asm) dir_parse.simps) (simp split: if_splits)
  moreover have "\<not> off < size_low (data nd)" using 0(3) by (simp add: word_less_nat_alt)
  ultimately show ?case using 0(1) by (subst entries_loop.simps) auto
next
  case (Suc n)
  let ?c = "node_byte content nd" and ?sz = "unat (size_low (data nd))" and ?o = "unat off"
  show ?case
  proof (cases "?o < ?sz")
    case False
    then have "es = []" using Suc.prems(2) by (subst (asm) dir_parse.simps) (simp split: if_splits)
    moreover have "\<not> off < size_low (data nd)" using False by (simp add: word_less_nat_alt)
    ultimately show ?thesis using Suc.prems(1) by (subst entries_loop.simps) auto
  next
    case True
    let ?rl = "le16 (bytes_at ?c (?o + 4) 2)" and ?nl = "?c (?o + 6)"
    let ?nm = "bytes_at ?c (?o + 8) (unat ?nl)" and ?i = "le32 (bytes_at ?c ?o 4)"
    obtain es' where es: "es = (?i, ?nm) # es'" "dir_parse ?c ?sz (?o + unat ?rl) = Some es'"
      "0 < unat ?rl" "?o + unat ?rl \<le> ?sz" "?o + 8 + unat ?nl \<le> ?sz"
      using dir_parse_step [OF Suc.prems(2) True] by metis
    have le: "?o + 8 \<le> ?sz" using es(5) by linarith
    obtain s1 where s1: "bio_read_u32 (node_io d nd) off s = Inr (?i, s1)" "ok s1"
      using entry_header_ok(1) [OF Suc.prems(1) wf le] by blast
    obtain s2 where s2: "bio_read_u16 (node_io d nd) (off + 4) s1 = Inr (?rl, s2)" "ok s2"
      using entry_header_ok(2) [OF s1(2) wf le] by blast
    obtain s3 where s3: "bio_read_u8 (node_io d nd) (off + 6) s2 = Inr (?nl, s3)" "ok s3"
      using entry_header_ok(3) [OF s2(2) wf le] by blast
    obtain s4 where s4: "bio_read_all (node_io d nd) (off + 8) (ucast ?nl) s3 = Inr ((uint ?nl, ?nm), s4)" "ok s4"
      using entry_name_ok [OF s3(2) wf es(5)] by blast
    have "unat (size_low (data nd)) < 2 ^ 32" by (rule unat_u32_less)
    then have uo: "unat (off + ucast ?rl) = ?o + unat ?rl" using es(4) by (subst unat_plus_no_wrap) (simp_all add: unat_ucast_u16)
    have lt: "off < size_low (data nd)" using True by (simp add: word_less_nat_alt)
    obtain out w1 where wk: "work ?i ?nm ?nl w = (out, w1)" by (cases "work ?i ?nm ?nl w")
    have step: "entries_loop (Suc n) d nd work off w s =
        (if out \<noteq> 0 then Inr (out, w1, s4) else entries_loop n d nd work (off + ucast ?rl) w1 s4)"
      by (subst entries_loop.simps) (simp add: lt s1(1) s2(1) s3(1) s4(1) wk)
    have "?sz \<le> n + unat (off + ucast ?rl)" using Suc.prems(3) es(3) uo by linarith
    from Suc.IH [OF s4(2) _ this, of es' w1] es(2) uo show ?thesis using step s4(2) es(1) wk by auto
  qed
qed

lemma entry_count_ok:
  assumes "node_wf content lim nd" "is_dir (data nd)" "dir_list content nd = Some es" "unat (size_low (data nd)) \<le> n" "ok s"
  shows "\<exists>s1. entry_count n d nd s = Inr (of_nat (length es), s1) \<and> ok s1"
proof -
  have "run_entries (\<lambda>_ _ _ c. (0, c + 1)) es c = (0, c + of_nat (length es))" for c :: u32
    by (induction es arbitrary: c) auto
  then show ?thesis
    using entries_loop_ok [OF assms(1,5), of 0 es n "\<lambda>_ _ _ c. (0, c + 1)" "0 :: u32"] assms
    by (auto simp: entry_count_def entries_def dir_list_def)
qed

end

section \<open>The mount\<close>

definition group_table :: "u32 \<Rightarrow> u32" where "group_table bsize = (1024 div bsize + 1) * bsize"

text \<open>What a disk with the given content mounts as, but for the root.\<close>

definition mounted :: "(nat \<Rightarrow> u8) \<Rightarrow> ext2" where
  "mounted content =
     (let sb = super_block_of (bytes_at content 1024 140);
          bsize = push_bit (unat (log_block_size sb + 10)) 1;
          groups = (blocks_count sb + blocks_per_group sb - 1) div blocks_per_group sb in
      \<lparr>root = None, blockSize = bsize, numberOfNodes = inodes_count sb, numberOfBlocks = blocks_count sb,
       iNodeSize = ucast (inode_size sb), nGroups = groups,
       iNodeTables = map (\<lambda>i. inode_table (block_group_of (bytes_at content (unat (group_table bsize) + 32 * i) 32))) [0 ..< unat groups],
       iNodesPerGroup = inodes_per_group sb\<rparr>)"

definition mountable :: "(nat \<Rightarrow> u8) \<Rightarrow> nat \<Rightarrow> bool" where
  "mountable content lim \<longleftrightarrow>
     (let sb = super_block_of (bytes_at content 1024 140); fs = mounted content in
      log_block_size sb + 10 < 32 \<and> blocks_per_group sb \<noteq> 0 \<and> nGroups fs * blocks_per_group sb \<ge> blocks_count sb \<and>
      unat (group_table (blockSize fs)) + 32 * unat (nGroups fs) \<le> lim \<and> inode_ok fs lim 2)"

context cached_device
begin

lemma mount_ok:
  assumes ok: "okd dev" and lim: "lim \<le> dlim" "lim \<le> 996 * unat (block_size d)" "1164 \<le> dlim" and m: "mountable content lim"
  shows "\<exists>c. ext2_mount d dev = Inr ((mounted content)\<lparr>root := Some (node_at content (mounted content) 2)\<rparr>, c) \<and>
    resident c \<and> cached_right d content c \<and> okd (cdev c)"
proof -
  let ?sb = "super_block_of (bytes_at content 1024 140)" and ?fs = "mounted content"
  have sb: "\<exists>dev1. bio_read_bytes d 1024 sizeof_super_block dev = Inr (bytes_at content 1024 140, dev1) \<and> okd dev1"
    using read_bytes_ok [OF ok, of 1024 140] lim(3) by (simp add: sizeof_super_block_def)
  then obtain dev1 where dev1: "bio_read_bytes d 1024 sizeof_super_block dev = Inr (bytes_at content 1024 140, dev1)" "okd dev1" by blast
  have f: "blockSize ?fs = push_bit (unat (log_block_size ?sb + 10)) 1"
    "nGroups ?fs = (blocks_count ?sb + blocks_per_group ?sb - 1) div blocks_per_group ?sb"
    by (simp_all add: mounted_def Let_def)
  have c: "log_block_size ?sb + 10 < 32" "blocks_per_group ?sb \<noteq> 0" "nGroups ?fs * blocks_per_group ?sb \<ge> blocks_count ?sb"
    "unat (group_table (blockSize ?fs)) + 32 * unat (nGroups ?fs) \<le> lim" "inode_ok ?fs lim 2"
    using m by (simp_all add: mountable_def Let_def)
  have okc: "resident (cache_new dev1) \<and> cached_right d content (cache_new dev1) \<and> okd (cdev (cache_new dev1))"
  proof -
    have "cdev (cache_new dev1) = dev1" by (simp add: cache_new_def)
    then show ?thesis using resident_new cache_new_inv [of d content dev1] dev1(2) by (simp add: cache_inv_def)
  qed
  have "dlim < 2 ^ 32" using lim_le unat_u32_less [of "size_in_bytes d"] by (rule le_less_trans)
  then have us: "unat (sizeof_block_group * nGroups ?fs) = 32 * unat (nGroups ?fs)"
    using c(4) lim(1) by (subst unat_times_no_wrap) (simp_all add: sizeof_block_group_def)
  obtain c1 where c1: "bio_read_all (cache_io d) (group_table (blockSize ?fs)) (sizeof_block_group * nGroups ?fs) (cache_new dev1) =
      Inr ((uint (sizeof_block_group * nGroups ?fs), bytes_at content (unat (group_table (blockSize ?fs))) (32 * unat (nGroups ?fs))), c1)"
    "resident c1 \<and> cached_right d content c1 \<and> okd (cdev c1)"
    using cache.read_all_inside [OF okc, of "group_table (blockSize ?fs)" "sizeof_block_group * nGroups ?fs"] c(4) lim
    by (auto simp: us)
  have it: "iNodeTables ?fs = map (\<lambda>i. inode_table (block_group_of (bytes_at content (unat (group_table (blockSize ?fs)) + 32 * i) 32)))
      [0 ..< unat (nGroups ?fs)]" by (simp add: mounted_def Let_def)
  have tb: "map (\<lambda>i. inode_table (block_group_of (take 32 (drop (32 * i) (bytes_at content (unat (group_table (blockSize ?fs))) (32 * unat (nGroups ?fs)))))))
      [0 ..< unat (nGroups ?fs)] = iNodeTables ?fs"
    unfolding it by (intro map_cong refl) (simp add: bytes_at_slice)
  have "inode_ok ?fs (min dlim (996 * unat (block_size d))) 2" using c(5) lim by (auto simp: inode_ok_def)
  from cache.get_node_ok [OF c1(2) this] obtain c2 where
    c2: "get_node (cache_io d) ?fs 2 c1 = Inr (Some (node_at content ?fs 2), c2)" "resident c2 \<and> cached_right d content c2 \<and> okd (cdev c2)"
    by blast
  have fs: "\<lparr>root = None, blockSize = blockSize ?fs, numberOfNodes = inodes_count ?sb, numberOfBlocks = blocks_count ?sb,
      iNodeSize = ucast (inode_size ?sb), nGroups = nGroups ?fs, iNodeTables = iNodeTables ?fs, iNodesPerGroup = inodes_per_group ?sb\<rparr> = ?fs"
    by (simp add: mounted_def Let_def)
  have "ext2_mount d dev = Inr (?fs\<lparr>root := Some (node_at content ?fs 2)\<rparr>, c2)"
    unfolding ext2_mount_def Let_def
    by (simp only: dev1(1) bindR.simps prod.case shift_left_def c(1-3) f [symmetric] if_True if_False assertR_True
        group_table_def [symmetric] c1(1) tb fs c2(1) simp_thms)
  then show ?thesis using c2(2) by blast
qed

end

section \<open>Properties\<close>

text \<open>
  (mount_correct) Mounting reads the super block from byte 1024 of the disk and the block group table from the block after the
  one that holds it, takes every parameter from its field, and loads i-node 2 as the root.
\<close>

theorem mount_correct:
  assumes "hw_ready hw fuel (latency_ms s)" "mountable (disk_byte hw (drive s)) disk_limit"
  shows "\<exists>c. ext2_mount (ide_io hw fuel) s =
      Inr ((mounted (disk_byte hw (drive s)))\<lparr>root := Some (node_at (disk_byte hw (drive s)) (mounted (disk_byte hw (drive s))) 2)\<rparr>, c) \<and>
    cache_small hw fuel c \<and> drive (cdev c) = drive s"
  using ide_cache.mount_ok [of hw fuel "drive s" s disk_limit] assms
  by (auto simp: ide_ok_def ide_io_def sector_size_def cache_small_def cache_ready_def cache_inv_def resident_def)


text \<open>
  (entry_count_correct) \<open>entry_count\<close> of a well-formed directory is the number of its entries.
\<close>

theorem entry_count_correct:
  assumes "cache_small hw fuel c" "node_wf (disk_byte hw (drive (cdev c))) disk_limit nd" "is_dir (data nd)"
    and "dir_list (disk_byte hw (drive (cdev c))) nd = Some es" "unat (size_low (data nd)) \<le> n"
  shows "\<exists>c'. entry_count n (cache_io (ide_io hw fuel)) nd c = Inr (of_nat (length es), c') \<and> cache_small hw fuel c'"
  using block_device.entry_count_ok [OF ide_cache_device assms(2-5)] assms(1) by blast

subsection \<open>A small disk image\<close>

text \<open>
  One block group, the i-node table in block 3, and a root directory in block 4 whose only entry is the
  name \<open>.\<close> for itself.
\<close>

definition image_bytes :: "(nat \<times> u8) list" where
  "image_bytes =
     [(1024, 8), (1028, 100), (1056, 100), (1064, 8), (1112, 128), (2056, 3),
      (3201, 0x40), (3204, 12), (3240, 4), (4096, 2), (4100, 12), (4102, 1), (4104, 46)]"

definition disk_image :: "nat \<Rightarrow> u8" where
  "disk_image a = (case map_of image_bytes a of None \<Rightarrow> 0 | Some b \<Rightarrow> b)"

definition image_disk :: ide_hw where
  "image_disk = ramp_disk\<lparr>hw_words := (\<lambda>p c b i. le32 (bytes_at disk_image (unat b * 512 + 4 * i) 4))\<rparr>"

lemma image_disk_ready: "hw_ready image_disk 1 0"
  using ramp_disk_ready by (simp add: hw_ready_def image_disk_def)

lemma word_bytes_le32: "length bs = 4 \<Longrightarrow> word_bytes (le32 bs) = bs"
proof -
  assume "length bs = 4"
  then obtain a b c d where bs: "bs = [a, b, c, d]" by (auto simp: length_Suc_conv numeral_eq_Suc)
  have v: "unat a < 256" "unat b < 256" "unat c < 256" "unat d < 256"
    using unsigned_less [where 'a = nat, of a] unsigned_less [where 'a = nat, of b]
      unsigned_less [where 'a = nat, of c] unsigned_less [where 'a = nat, of d] by simp_all
  let ?n = "unat a + 256 * (unat b + 256 * (unat c + 256 * unat d))"
  have n: "?n < 2 ^ 32" using v by simp
  have "le32 bs = of_nat ?n" by (simp add: bs le32_def)
  then have u: "unat (le32 bs) = ?n" by (simp only: unat_of_nat_u32 [OF n])
  have k: "(ucast (drop_bit (8 * k) (le32 bs)) :: u8) = of_nat (?n div 256 ^ k)" for k
  proof -
    have "unat (drop_bit (8 * k) (le32 bs)) = ?n div 256 ^ k"
      using n by (simp only: unsigned_drop_bit_eq u) (simp add: drop_bit_eq_div power_mult take_bit_nat_eq_self)
    then show ?thesis by (metis of_nat_unat)
  qed
  have e: "(of_nat (unat x + 256 * m) :: u8) = x" for x m
  proof (rule unsigned_word_eqI)
    show "unat (of_nat (unat x + 256 * m) :: u8) = unat x"
      using unsigned_less [where 'a = nat, of x] by (simp only: unat_of_nat) simp
  qed
  have dv: "?n div 256 ^ 1 = unat b + 256 * (unat c + 256 * unat d)" "?n div 256 ^ 2 = unat c + 256 * unat d"
    "?n div 256 ^ 3 = unat d + 256 * 0" using v by simp_all
  have "ucast (drop_bit (8 * 0) (le32 bs)) = a" "ucast (drop_bit (8 * 1) (le32 bs)) = b"
    "ucast (drop_bit (8 * 2) (le32 bs)) = c" "ucast (drop_bit (8 * 3) (le32 bs)) = d"
    unfolding k dv by (simp_all only: e power_0 div_by_1)
  then show ?thesis by (simp add: word_bytes_def bs)
qed

lemma disk_byte_words:
  assumes "hw_words hw = (\<lambda>p c b i. le32 (bytes_at f (unat b * 512 + 4 * i) 4))" "a < 2 ^ 32"
  shows "disk_byte hw dr a = f a"
proof -
  have e: "a div 512 * 512 + 4 * (a mod 512 div 4) + a mod 4 = a"
  proof -
    have "a mod 4 = a mod 512 mod 4" by (simp add: mod_mod_cancel)
    then have "4 * (a mod 512 div 4) + a mod 4 = a mod 512" using mult_div_mod_eq [of 4 "a mod 512"] by simp
    then show ?thesis using div_mult_mod_eq [of a 512] by linarith
  qed
  have "a div 512 < 2 ^ 32" using assms(2) by linarith
  then have "unat (of_nat (a div 512) :: u32) = a div 512" by simp
  then have "disk_byte hw dr a = bytes_at f (a div 512 * 512 + 4 * (a mod 512 div 4)) 4 ! (a mod 4)"
    by (simp add: disk_byte_def assms(1) word_bytes_le32)
  also have "\<dots> = f (a div 512 * 512 + 4 * (a mod 512 div 4) + a mod 4)" by (simp add: bytes_at_def)
  finally show ?thesis by (simp only: e)
qed

lemma disk_byte_image: "a < 2 ^ 32 \<Longrightarrow> disk_byte image_disk dr a = disk_image a"
  by (rule disk_byte_words) (simp_all add: image_disk_def)

lemma bytes_at_image: "a + n \<le> 2 ^ 32 \<Longrightarrow> bytes_at (disk_byte image_disk dr) a n = bytes_at disk_image a n"
  unfolding bytes_at_def by (rule map_cong) (auto intro!: disk_byte_image)

definition image_sb :: super_block where "image_sb = super_block_of (bytes_at disk_image 1024 140)"

definition image_fs :: ext2 where
  "image_fs = \<lparr>root = None, blockSize = 1024, numberOfNodes = 8, numberOfBlocks = 100, iNodeSize = 128, nGroups = 1,
     iNodeTables = [3], iNodesPerGroup = 8\<rparr>"

lemma u_at_bytes:
  "i + 4 \<le> n \<Longrightarrow> u32_at (bytes_at c a n) i = le32 (bytes_at c (a + i) 4)"
  "i + 2 \<le> n \<Longrightarrow> u16_at (bytes_at c a n) i = le16 (bytes_at c (a + i) 2)"
  using bytes_at_slice [of i 4 n c a] bytes_at_slice [of i 2 n c a]
  by (auto simp: u32_at_def u16_at_def le32_def le16_def)

lemma image_sb_fields:
  "inodes_count image_sb = 8" "blocks_count image_sb = 100" "log_block_size image_sb = 0" "blocks_per_group image_sb = 100"
  "inodes_per_group image_sb = 8" "inode_size image_sb = 128"
  by (simp_all add: image_sb_def super_block_of_def u_at_bytes)
    (simp_all add: bytes_at_def le32_def le16_def upt_rec disk_image_def image_bytes_def)

lemma image_mounted: "mounted (disk_byte image_disk dr) = image_fs"
proof -
  have t: "inode_table (block_group_of (bytes_at disk_image 2048 32)) = 3"
    by (simp add: block_group_of_def u_at_bytes) (simp add: bytes_at_def le32_def upt_rec disk_image_def image_bytes_def)
  show ?thesis
    by (simp add: mounted_def Let_def bytes_at_image image_sb_def [symmetric] image_sb_fields image_fs_def group_table_def t)
qed

definition image_root :: node where "image_root = node_at (disk_byte image_disk 1) image_fs 2"

lemma image_inode: "inode_ok image_fs disk_limit 2" "inode_offset image_fs 2 = 3200"
  by (simp_all add: inode_ok_def inode_offset_def image_fs_def word_le_nat_alt)

lemma image_mountable: "mountable (disk_byte image_disk 1) disk_limit"
  using image_inode(1)
  by (simp add: mountable_def Let_def image_mounted bytes_at_image image_sb_def [symmetric] image_sb_fields)
    (simp add: image_fs_def group_table_def word_less_nat_alt word_le_nat_alt)

lemma image_root_fields:
  "mode (data image_root) = 0x4000" "size_low (data image_root) = 12" "n_block_size image_root = 1024"
  "length (direct (data image_root)) = 12" "direct (data image_root) ! 0 = 4"
  by (simp_all add: image_root_def node_at_def image_inode bytes_at_image node_data_of_def u_at_bytes)
    (simp_all add: bytes_at_def le32_def le16_def upt_rec disk_image_def image_bytes_def image_fs_def)

lemma image_root_dir: "is_dir (data image_root)" "\<not> is_symlink (data image_root)"
  by (simp_all add: is_dir_def is_symlink_def get_type_def image_root_fields drop_bit_eq_div)

lemma image_root_wf: "node_wf (disk_byte image_disk 1) disk_limit image_root"
proof -
  have "p = 0 \<or> unat p * 1024 + 1024 \<le> disk_limit"
    if "l * 1024 < (12 :: nat)" "p \<in> set (ref_path (disk_byte image_disk 1) image_root l)" for l p
  proof -
    have "l = 0" using that(1) by linarith
    then show ?thesis using that(2) by (simp add: ref_path_def Let_def image_root_fields)
  qed
  then show ?thesis by (simp add: node_wf_def image_root_fields Let_def)
qed

lemma image_root_byte: "a < 1024 \<Longrightarrow> node_byte (disk_byte image_disk 1) image_root a = disk_image (4096 + a)"
  by (simp add: node_byte_def block_ref_def ref_path_def image_root_fields Let_def disk_byte_image)

lemma image_root_list: "dir_list (disk_byte image_disk 1) image_root = Some [(2, [46])]"
proof -
  have e: "bytes_at (node_byte (disk_byte image_disk 1) image_root) a n = bytes_at disk_image (4096 + a) n" if "a + n \<le> 1024" for a n
    unfolding bytes_at_def using that by (intro nth_equalityI) (auto simp: image_root_byte add.assoc)
  have v: "bytes_at disk_image 4096 4 = [2, 0, 0, 0]" "bytes_at disk_image 4100 2 = [12, 0]" "disk_image 4102 = 1" "bytes_at disk_image 4104 (Suc 0) = [46]"
    by (simp_all add: bytes_at_def upt_rec disk_image_def image_bytes_def)
  show ?thesis
    by (simp add: dir_list_def image_root_fields dir_parse.simps e image_root_byte v Let_def le16_def le32_def)
qed

lemma image_readable: "readable (disk_byte image_disk 1) disk_limit (image_fs\<lparr>root := Some image_root\<rparr>) {image_root}"
proof -
  have "inode_ok (image_fs\<lparr>root := Some image_root\<rparr>) disk_limit 2"
    "node_at (disk_byte image_disk 1) (image_fs\<lparr>root := Some image_root\<rparr>) 2 = image_root"
    using image_inode(1) by (simp_all add: inode_ok_def inode_offset_def node_at_def image_root_def)
  then show ?thesis using image_root_wf image_root_dir image_root_list by (simp add: readable_def)
qed

theorem mount_correct_witness:
  "\<exists>c. ext2_mount (ide_io image_disk 1) (ide_new 1 0) = Inr (image_fs\<lparr>root := Some image_root\<rparr>, c)"
  using mount_correct [of image_disk 1 "ide_new 1 0"] image_disk_ready image_mountable
  by (auto simp: ide_new_def image_mounted image_root_def)

lemma image_cache: "cache_small image_disk 1 (cache_new (ide_new 1 0))" "drive (cdev (cache_new (ide_new 1 0))) = 1"
proof -
  show "cache_small image_disk 1 (cache_new (ide_new 1 0))"
    using cache_new_ready resident_new image_disk_ready by (simp add: cache_small_def ide_new_def)
qed (simp add: cache_new_def ide_new_def)


theorem entry_count_correct_witness:
  "\<exists>c'. entry_count 12 (cache_io (ide_io image_disk 1)) image_root (cache_new (ide_new 1 0)) = Inr (1, c')"
  using entry_count_correct [OF image_cache(1), of image_root "[(2, [46])]" 12] image_root_wf image_root_dir(1) image_root_list
    image_root_fields(2) by (auto simp: image_cache(2))

end
