(* ===== verification/Threads.thy ===== *)
theory Threads
  imports KQueue
begin

text \<open>
  The scheduler, \<open>kernel/threads.h\<close> and \<open>kernel/threads.cc\<close>: the sleep queue of a core, \<open>block\<close>, the helper thread
  of a core with the requests it runs, \<open>yield\<close>, \<open>sleep\<close>, \<open>stop\<close>, \<open>reap\<close> and the creation of a thread, with the clock of \<open>pit.cc\<close>.

  A thread is the address of its TCB; its fields \<open>next\<close> and \<open>at_jiffies\<close> are stores. Where a core stands is \<open>s_pc\<close>. Every
  operation on a queue that cores share, and every section in which a core works on its own data, is one step, and
  the steps of any number of cores interleave in any order.
  The requests are those of this file; the one of \<open>Semaphore::down\<close> is modelled with the semaphore. Of the reaper's
  \<open>BlockingQueue\<close> the queue is modelled; its semaphore, on which the reaper thread waits, is not.
\<close>

section \<open>State\<close>

text \<open>The lambdas that \<open>yield\<close>, \<open>sleep\<close> and \<open>stop\<close> pass to \<open>block\<close>.\<close>

datatype request = AddReady u32 | AddSleep u32 u32 | AddReaper u32

fun req_tcb :: "request \<Rightarrow> u32" where
  "req_tcb (AddReady t) = t"
| "req_tcb (AddSleep t sec) = t"
| "req_tcb (AddReaper t) = t"

text \<open>
  Where a core is. \<open>Run\<close>: it runs the thread \<open>active_thread\<close>; \<open>Reaping p\<close>: that thread is in the loop of \<open>reap\<close>, with the rest of the
  list at \<open>p\<close>; the others are places of the helper. \<open>Wake b\<close>: in \<open>wakeup\<close>, before the request if \<open>b\<close>, else in the loop that waits for a
  thread; \<open>Move b p\<close>: there, with the removed thread \<open>p\<close>; \<open>DoRequest\<close>: at the request; \<open>Pick\<close>: at the ready queue;
  \<open>Got p\<close>: with the next thread.
\<close>

datatype core_pc = Run | Reaping u32 | Wake bool | Move bool u32 | DoRequest | Pick | Got u32

record sched =
  s_next :: links
  s_at :: "u32 \<Rightarrow> u32"
  s_jiffies :: u32
  s_pc :: "u32 \<Rightarrow> core_pc"
  help_requests :: "u32 \<Rightarrow> request option"
  active_thread :: "u32 \<Rightarrow> u32"
  sleep_queues :: "u32 \<Rightarrow> u32"
  ready_queue :: queue
  reaper_queue :: queue

definition go :: "u32 \<Rightarrow> core_pc \<Rightarrow> sched \<Rightarrow> sched" where
  "go c p s = s\<lparr>s_pc := (s_pc s)(c := p)\<rparr>"

definition in_helper_thread :: "u32 \<Rightarrow> sched \<Rightarrow> bool" where
  "in_helper_thread c s \<longleftrightarrow> active_thread s c = 0"

section \<open>The sleep queue\<close>

text \<open>The search of \<open>SleepQueue::add\<close>: \<open>pprev\<close> is the element whose \<open>next\<close> is to be changed, 0 for \<open>first\<close>. The result is
  \<open>pprev\<close> and the pointer found there.\<close>

partial_function (option) sq_search :: "(u32 \<Rightarrow> u32) \<Rightarrow> links \<Rightarrow> u32 \<Rightarrow> u32 \<Rightarrow> u32 \<Rightarrow> (u32 \<times> u32) option" where
  "sq_search at nx key pprev p =
     (if p \<noteq> 0 \<and> at p \<le> key then sq_search at nx key p (nx p) else Some (pprev, p))"

definition secondsToJiffies :: "u32 \<Rightarrow> u32 \<Rightarrow> u32" where
  "secondsToJiffies jps secs = jps * secs"

definition sq_add :: "u32 \<Rightarrow> u32 \<Rightarrow> u32 \<Rightarrow> u32 \<Rightarrow> sched \<Rightarrow> sched res" where
  "sq_add jps c tcb after_seconds s =
     bindR (assertR (tcb \<noteq> 0) ''tcb != nullptr'') (\<lambda>_.
     bindR (assertR (in_helper_thread c s) ''in_helper_thread'') (\<lambda>_.
       let at1 = (s_at s)(tcb := s_jiffies s + secondsToJiffies jps after_seconds) in
       case sq_search at1 (s_next s) (at1 tcb) 0 (sleep_queues s c) of
         None \<Rightarrow> Inl NoFuel
       | Some (pprev, p) \<Rightarrow>
           let nx1 = (s_next s)(tcb := p) in
           Inr (if pprev = 0 then s\<lparr>s_at := at1, s_next := nx1, sleep_queues := (sleep_queues s)(c := tcb)\<rparr>
                else s\<lparr>s_at := at1, s_next := nx1(pprev := tcb)\<rparr>)))"

definition sq_remove :: "u32 \<Rightarrow> sched \<Rightarrow> (u32 \<times> sched) res" where
  "sq_remove c s =
     bindR (assertR (in_helper_thread c s) ''in_helper_thread'') (\<lambda>_.
       let p = sleep_queues s c in
       if p = 0 \<or> s_at s p > s_jiffies s then Inr (0, s)
       else Inr (p, s\<lparr>sleep_queues := (sleep_queues s)(c := s_next s p), s_next := (s_next s)(p := 0)\<rparr>))"

section \<open>Queues that cores share\<close>

definition ready_add :: "u32 \<Rightarrow> sched \<Rightarrow> sched res" where
  "ready_add t s = bindR (q_add (s_next s) (ready_queue s) t) (\<lambda>(nx', q'). Inr (s\<lparr>s_next := nx', ready_queue := q'\<rparr>))"

definition ready_remove :: "sched \<Rightarrow> u32 \<times> sched" where
  "ready_remove s = (let (t, q') = q_remove (s_next s) (ready_queue s) in (t, s\<lparr>ready_queue := q'\<rparr>))"

definition reaper_add :: "u32 \<Rightarrow> sched \<Rightarrow> sched res" where
  "reaper_add t s =
     bindR (assertR (t \<noteq> 0) ''p != nullptr'') (\<lambda>_.
     bindR (q_add (s_next s) (reaper_queue s) t) (\<lambda>(nx', q'). Inr (s\<lparr>s_next := nx', reaper_queue := q'\<rparr>)))"

definition reaper_remove :: "sched \<Rightarrow> u32 \<times> sched" where
  "reaper_remove s = (let (t, q') = q_remove (s_next s) (reaper_queue s) in (t, s\<lparr>reaper_queue := q'\<rparr>))"

section \<open>Threads\<close>

definition block :: "u32 \<Rightarrow> (u32 \<Rightarrow> request) \<Rightarrow> sched \<Rightarrow> sched res" where
  "block c w s =
     (let tcb = active_thread s c in
      bindR (assertR (tcb \<noteq> 0) ''tcb != nullptr'') (\<lambda>_.
        Inr (go c (Wake True) (s\<lparr>active_thread := (active_thread s)(c := 0), help_requests := (help_requests s)(c := Some (w tcb))\<rparr>))))"

text \<open>\<open>yield\<close>, \<open>sleep\<close> and \<open>stop\<close> behind their call of \<open>reap\<close>; \<open>stop\<close> without a thread becomes the helper.\<close>

definition yield :: "u32 \<Rightarrow> sched \<Rightarrow> sched res" where
  "yield c s = (if q_isEmpty (ready_queue s) then Inr s else block c AddReady s)"

definition sleep :: "u32 \<Rightarrow> u32 \<Rightarrow> sched \<Rightarrow> sched res" where
  "sleep c sec s = block c (\<lambda>tcb. AddSleep tcb sec) s"

definition stop :: "u32 \<Rightarrow> sched \<Rightarrow> sched res" where
  "stop c s = (if active_thread s c = 0 then Inr (go c (Wake True) s) else block c AddReaper s)"

definition thread :: "u32 \<Rightarrow> sched \<Rightarrow> sched res" where
  "thread tcb s = ready_add tcb s"

text \<open>\<open>reap\<close>: taking the list, and one turn of its loop. \<open>keep\<close> tells whether the parent of the thread waits; the second result is
  the thread that is deleted, if any.\<close>

definition reap_start :: "u32 \<Rightarrow> sched \<Rightarrow> sched" where
  "reap_start c s = (let (p, q') = q_remove_all (reaper_queue s) in go c (Reaping p) (s\<lparr>reaper_queue := q'\<rparr>))"

definition reap_turn :: "u32 \<Rightarrow> u32 \<Rightarrow> bool \<Rightarrow> sched \<Rightarrow> (sched \<times> u32 option) res" where
  "reap_turn c p keep s =
     (if p = 0 then Inr (go c Run s, None)
      else let nxt = s_next s p in
        if keep then bindR (reaper_add p s) (\<lambda>s1. Inr (go c (Reaping nxt) s1, None))
        else Inr (go c (Reaping nxt) s, Some p))"

section \<open>The helper\<close>

definition wakeup_remove :: "u32 \<Rightarrow> bool \<Rightarrow> sched \<Rightarrow> sched res" where
  "wakeup_remove c b s =
     bindR (sq_remove c s) (\<lambda>(p, s1). Inr (go c (if p \<noteq> 0 then Move b p else if b then DoRequest else Pick) s1))"

definition wakeup_add :: "u32 \<Rightarrow> bool \<Rightarrow> u32 \<Rightarrow> sched \<Rightarrow> sched res" where
  "wakeup_add c b p s = bindR (ready_add p s) (\<lambda>s1. Inr (go c (Wake b) s1))"

fun request_doit :: "u32 \<Rightarrow> u32 \<Rightarrow> request \<Rightarrow> sched \<Rightarrow> sched res" where
  "request_doit jps c (AddReady t) s = ready_add t s"
| "request_doit jps c (AddSleep t sec) s = sq_add jps c t sec s"
| "request_doit jps c (AddReaper t) s = reaper_add t s"

definition helper_request :: "u32 \<Rightarrow> u32 \<Rightarrow> sched \<Rightarrow> sched res" where
  "helper_request jps c s =
     (case help_requests s c of
        None \<Rightarrow> Inr (go c Pick s)
      | Some r \<Rightarrow> bindR (request_doit jps c r (s\<lparr>help_requests := (help_requests s)(c := None)\<rparr>)) (\<lambda>s1. Inr (go c Pick s1)))"

definition helper_pick :: "u32 \<Rightarrow> sched \<Rightarrow> sched" where
  "helper_pick c s = (let (nxt, s1) = ready_remove s in go c (if nxt = 0 then Wake False else Got nxt) s1)"

definition helper_switch :: "u32 \<Rightarrow> u32 \<Rightarrow> sched \<Rightarrow> sched" where
  "helper_switch c nxt s = go c Run (s\<lparr>active_thread := (active_thread s)(c := nxt)\<rparr>)"

definition apitHandler :: "u32 \<Rightarrow> sched \<Rightarrow> sched" where
  "apitHandler c s = (if c = 0 then s\<lparr>s_jiffies := s_jiffies s + 1\<rparr> else s)"

text \<open>At the boot every core calls \<open>stop\<close> without a thread.\<close>

definition sched_init :: sched where
  "sched_init = \<lparr>s_next = \<lambda>_. 0, s_at = \<lambda>_. 0, s_jiffies = 0, s_pc = \<lambda>_. Wake True, help_requests = \<lambda>_. None,
     active_thread = \<lambda>_. 0, sleep_queues = \<lambda>_. 0, ready_queue = q_new, reaper_queue = q_new\<rparr>"

text \<open>The steps. The set is that of the threads that have been created and not deleted; a thread is created at an address
  where none is.\<close>

inductive sched_step :: "u32 \<Rightarrow> sched \<times> u32 set \<Rightarrow> sched \<times> u32 set \<Rightarrow> bool" for jps where
  create: "t \<noteq> 0 \<Longrightarrow> t \<notin> A \<Longrightarrow> thread t s = Inr s' \<Longrightarrow> sched_step jps (s, A) (s', insert t A)"
| tick: "sched_step jps (s, A) (apitHandler c s, A)"
| r_yield: "s_pc s c = Run \<Longrightarrow> yield c s = Inr s' \<Longrightarrow> sched_step jps (s, A) (s', A)"
| r_sleep: "s_pc s c = Run \<Longrightarrow> sleep c sec s = Inr s' \<Longrightarrow> sched_step jps (s, A) (s', A)"
| r_stop: "s_pc s c = Run \<Longrightarrow> stop c s = Inr s' \<Longrightarrow> sched_step jps (s, A) (s', A)"
| r_reap: "s_pc s c = Run \<Longrightarrow> sched_step jps (s, A) (reap_start c s, A)"
| r_turn: "s_pc s c = Reaping p \<Longrightarrow> reap_turn c p keep s = Inr (s', del) \<Longrightarrow> sched_step jps (s, A) (s', A - set_option del)"
| r_reaper: "s_pc s c = Run \<Longrightarrow> reaper_remove s = (t, s') \<Longrightarrow> t \<noteq> 0 \<Longrightarrow> sched_step jps (s, A) (s', A - {t})"
| h_wake: "s_pc s c = Wake b \<Longrightarrow> wakeup_remove c b s = Inr s' \<Longrightarrow> sched_step jps (s, A) (s', A)"
| h_move: "s_pc s c = Move b p \<Longrightarrow> wakeup_add c b p s = Inr s' \<Longrightarrow> sched_step jps (s, A) (s', A)"
| h_request: "s_pc s c = DoRequest \<Longrightarrow> helper_request jps c s = Inr s' \<Longrightarrow> sched_step jps (s, A) (s', A)"
| h_pick: "s_pc s c = Pick \<Longrightarrow> sched_step jps (s, A) (helper_pick c s, A)"
| h_switch: "s_pc s c = Got p \<Longrightarrow> sched_step jps (s, A) (helper_switch c p s, A)"

inductive sched_reach :: "u32 \<Rightarrow> sched \<times> u32 set \<Rightarrow> bool" for jps where
  reach_init: "sched_reach jps (sched_init, {})"
| reach_step: "sched_reach jps x \<Longrightarrow> sched_step jps x y \<Longrightarrow> sched_reach jps y"

section \<open>Where the threads are\<close>

datatype place = Ready | Reaper | Sleeping u32 | Chain u32 | Active u32 | Pending u32 | Held u32

definition nz :: "u32 \<Rightarrow> u32 list" where
  "nz t = (if t = 0 then [] else [t])"

fun in_hand :: "core_pc \<Rightarrow> u32" where
  "in_hand (Move b p) = p"
| "in_hand (Got p) = p"
| "in_hand _ = 0"

fun reap_list :: "core_pc \<Rightarrow> u32" where
  "reap_list (Reaping p) = p"
| "reap_list _ = 0"

definition req_list :: "request option \<Rightarrow> u32 list" where
  "req_list r = (case r of None \<Rightarrow> [] | Some r \<Rightarrow> [req_tcb r])"

text \<open>No thread is at two places or twice at one.\<close>

definition apart :: "(place \<Rightarrow> u32 list) \<Rightarrow> bool" where
  "apart L \<longleftrightarrow> (\<forall>p. distinct (L p) \<and> 0 \<notin> set (L p)) \<and> (\<forall>p q. p \<noteq> q \<longrightarrow> set (L p) \<inter> set (L q) = {})"

definition everyone :: "(place \<Rightarrow> u32 list) \<Rightarrow> u32 set" where
  "everyone L = (\<Union>p. set (L p))"

fun pc_ok :: "core_pc \<Rightarrow> bool \<Rightarrow> bool \<Rightarrow> bool" where
  "pc_ok Run act req \<longleftrightarrow> act \<and> \<not> req"
| "pc_ok (Reaping p) act req \<longleftrightarrow> act \<and> \<not> req"
| "pc_ok (Wake b) act req \<longleftrightarrow> \<not> act \<and> (req \<longrightarrow> b)"
| "pc_ok (Move b p) act req \<longleftrightarrow> \<not> act \<and> (req \<longrightarrow> b) \<and> p \<noteq> 0"
| "pc_ok DoRequest act req \<longleftrightarrow> \<not> act"
| "pc_ok Pick act req \<longleftrightarrow> \<not> act \<and> \<not> req"
| "pc_ok (Got p) act req \<longleftrightarrow> \<not> act \<and> \<not> req \<and> p \<noteq> 0"

text \<open>The representation of the places; a sleep queue is sorted by the time of waking up.\<close>

fun place_ok :: "sched \<Rightarrow> place \<Rightarrow> u32 list \<Rightarrow> bool" where
  "place_ok s Ready xs \<longleftrightarrow> queue_rep (s_next s) (ready_queue s) xs"
| "place_ok s Reaper xs \<longleftrightarrow> queue_rep (s_next s) (reaper_queue s) xs"
| "place_ok s (Sleeping c) xs \<longleftrightarrow> chain (s_next s) (sleep_queues s c) xs \<and> sorted (map (s_at s) xs)"
| "place_ok s (Chain c) xs \<longleftrightarrow> chain (s_next s) (reap_list (s_pc s c)) xs"
| "place_ok s (Active c) xs \<longleftrightarrow> xs = nz (active_thread s c)"
| "place_ok s (Pending c) xs \<longleftrightarrow> xs = req_list (help_requests s c)"
| "place_ok s (Held c) xs \<longleftrightarrow> xs = nz (in_hand (s_pc s c))"

definition pcs_ok :: "sched \<Rightarrow> bool" where
  "pcs_ok s \<longleftrightarrow> (\<forall>c. pc_ok (s_pc s c) (active_thread s c \<noteq> 0) (help_requests s c \<noteq> None))"

definition sched_rep :: "sched \<Rightarrow> (place \<Rightarrow> u32 list) \<Rightarrow> bool" where
  "sched_rep s L \<longleftrightarrow> (\<forall>p. place_ok s p (L p)) \<and> pcs_ok s"

definition sched_inv :: "sched \<times> u32 set \<Rightarrow> bool" where
  "sched_inv x \<longleftrightarrow> (\<exists>L. sched_rep (fst x) L \<and> apart L \<and> everyone L = snd x)"

lemma apartD:
  assumes "apart L"
  shows "distinct (L p)" "0 \<notin> set (L p)" "p \<noteq> q \<Longrightarrow> set (L p) \<inter> set (L q) = {}" "t \<in> set (L p) \<Longrightarrow> t \<in> set (L q) \<Longrightarrow> p = q"
  using assms unfolding apart_def by blast+

text \<open>Changing two places.\<close>

lemma UN_two_places:
  assumes "set (f p) \<union> set (f q) = set (g p) \<union> set (g q)" "\<And>r. r \<noteq> p \<Longrightarrow> r \<noteq> q \<Longrightarrow> f r = g r"
  shows "(\<Union>r. set (f r)) = (\<Union>r. set (g r))"
proof -
  have u: "(\<Union>r. set (h r)) = (set (h p) \<union> set (h q)) \<union> (\<Union>r \<in> - {p, q}. set (h r))" for h by blast
  have "(\<Union>r \<in> - {p, q}. set (f r)) = (\<Union>r \<in> - {p, q}. set (g r))" using assms(2) by simp
  then show ?thesis unfolding u [of f] u [of g] using assms(1) by simp
qed

lemma apart_move:
  assumes "apart L" "p \<noteq> q" "distinct (xs @ ys)" "set (xs @ ys) = set (L p) \<union> set (L q)"
  shows "apart (L(p := xs, q := ys))" "everyone (L(p := xs, q := ys)) = everyone L"
proof -
  let ?L = "L(p := xs, q := ys)"
  have sub: "set (?L r) \<subseteq> (if r \<in> {p, q} then set (L p) \<union> set (L q) else set (L r))" for r using assms(2,4) by auto
  have "0 \<notin> set (?L r)" for r using sub [of r] apartD(2) [OF assms(1)] by (auto split: if_splits)
  moreover have "distinct (?L r)" for r using assms(3) apartD(1) [OF assms(1)] by simp
  moreover have "set (?L a) \<inter> set (?L b) = {}" if "a \<noteq> b" for a b
  proof (cases "{a, b} = {p, q}")
    case True
    then show ?thesis using assms(2,3) that by (auto simp: doubleton_eq_iff)
  next
    case False
    then have "(if a \<in> {p, q} then set (L p) \<union> set (L q) else set (L a)) \<inter> (if b \<in> {p, q} then set (L p) \<union> set (L q) else set (L b)) = {}"
      using that apartD(3) [OF assms(1)] by (auto simp: Int_Un_distrib Int_Un_distrib2)
    then show ?thesis using sub [of a] sub [of b] by blast
  qed
  ultimately show "apart ?L" unfolding apart_def by blast
  have "set (?L p) \<union> set (?L q) = set (L p) \<union> set (L q)" "\<And>r. r \<noteq> p \<Longrightarrow> r \<noteq> q \<Longrightarrow> ?L r = L r" using assms(2,4) by auto
  then show "everyone ?L = everyone L" unfolding everyone_def by (rule UN_two_places)
qed

lemma apart_put:
  assumes "apart L" "t \<noteq> 0" "t \<notin> everyone L" "set xs = insert t (set (L p))" "distinct xs"
  shows "apart (L(p := xs))" "everyone (L(p := xs)) = insert t (everyone L)"
  using assms unfolding apart_def everyone_def by (auto split: if_splits)

lemma apart_drop:
  assumes "apart L" "t \<in> set (L p)" "set xs = set (L p) - {t}" "distinct xs"
  shows "apart (L(p := xs))" "everyone (L(p := xs)) = everyone L - {t}"
  using assms apartD(4) [OF assms(1)] unfolding apart_def everyone_def by (auto split: if_splits)

text \<open>The fields that a place depends on, apart from those of its threads.\<close>

fun same_root :: "sched \<Rightarrow> sched \<Rightarrow> place \<Rightarrow> bool" where
  "same_root s s' Ready \<longleftrightarrow> ready_queue s' = ready_queue s"
| "same_root s s' Reaper \<longleftrightarrow> reaper_queue s' = reaper_queue s"
| "same_root s s' (Sleeping c) \<longleftrightarrow> sleep_queues s' c = sleep_queues s c"
| "same_root s s' (Chain c) \<longleftrightarrow> reap_list (s_pc s' c) = reap_list (s_pc s c)"
| "same_root s s' (Active c) \<longleftrightarrow> active_thread s' c = active_thread s c"
| "same_root s s' (Pending c) \<longleftrightarrow> help_requests s' c = help_requests s c"
| "same_root s s' (Held c) \<longleftrightarrow> in_hand (s_pc s' c) = in_hand (s_pc s c)"

definition same_tcbs :: "sched \<Rightarrow> sched \<Rightarrow> u32 set \<Rightarrow> bool" where
  "same_tcbs s s' T \<longleftrightarrow> (\<forall>x \<in> T. s_next s' x = s_next s x \<and> s_at s' x = s_at s x)"

lemma place_ok_frame:
  assumes "place_ok s p xs" "same_root s s' p" "same_tcbs s s' (set xs)"
  shows "place_ok s' p xs"
proof -
  have n: "s_next s' x = s_next s x" "s_at s' x = s_at s x" if "x \<in> set xs" for x using assms(3) that by (simp_all add: same_tcbs_def)
  then have m: "map (s_at s') xs = map (s_at s) xs" by simp
  show ?thesis using assms(1,2)
    by (cases p) (auto simp: m n intro: queue_rep_frame chain_frame)
qed

lemma sched_move:
  assumes "sched_rep s L" "apart L" "p \<noteq> q" "distinct (xs @ ys)" "set (xs @ ys) = set (L p) \<union> set (L q)"
    "place_ok s' p xs" "place_ok s' q ys" "same_tcbs s s' (- (set (L p) \<union> set (L q)))"
    "\<And>r. r \<noteq> p \<Longrightarrow> r \<noteq> q \<Longrightarrow> same_root s s' r" "pcs_ok s'"
  shows "sched_inv (s', everyone L)"
proof -
  let ?L = "L(p := xs, q := ys)"
  have "place_ok s' r (?L r)" for r
  proof (cases "r = p \<or> r = q")
    case True
    then show ?thesis using assms(3,6,7) by auto
  next
    case False
    then have "set (L r) \<subseteq> - (set (L p) \<union> set (L q))" using apartD(3) [OF assms(2)] by blast
    then have "same_tcbs s s' (set (L r))" using assms(8) by (auto simp: same_tcbs_def)
    then show ?thesis using False assms(1,9) place_ok_frame [of s r "L r" s'] by (simp add: sched_rep_def)
  qed
  then have "sched_rep s' ?L" using assms(10) by (simp add: sched_rep_def)
  then show ?thesis using apart_move [OF assms(2-5)] unfolding sched_inv_def fst_conv snd_conv by blast
qed

text \<open>A step that moves no thread.\<close>

lemma sched_same:
  assumes "sched_rep s L" "apart L" "same_tcbs s s' UNIV" "\<And>r. same_root s s' r" "pcs_ok s'"
  shows "sched_inv (s', everyone L)"
proof -
  have "place_ok s' r (L r)" for r
    using assms(1,3) by (intro place_ok_frame [OF _ assms(4)]) (auto simp: sched_rep_def same_tcbs_def)
  then have "sched_rep s' L" using assms(5) by (simp add: sched_rep_def)
  then show ?thesis using assms(2) unfolding sched_inv_def fst_conv snd_conv by blast
qed

lemma sched_put:
  assumes "sched_rep s L" "apart L" "t \<noteq> 0" "t \<notin> everyone L" "set xs = insert t (set (L p))" "distinct xs"
    "place_ok s' p xs" "same_tcbs s s' (- insert t (set (L p)))" "\<And>r. r \<noteq> p \<Longrightarrow> same_root s s' r" "pcs_ok s'"
  shows "sched_inv (s', insert t (everyone L))"
proof -
  have "place_ok s' r ((L(p := xs)) r)" for r
  proof (cases "r = p")
    case False
    then have "set (L r) \<subseteq> - insert t (set (L p))" using apartD(3) [OF assms(2)] assms(4) unfolding everyone_def by blast
    then have "same_tcbs s s' (set (L r))" using assms(8) by (auto simp: same_tcbs_def)
    then show ?thesis using False assms(1,9) place_ok_frame [of s r "L r" s'] by (simp add: sched_rep_def)
  qed (simp add: assms(7))
  then have "sched_rep s' (L(p := xs))" using assms(10) by (simp add: sched_rep_def)
  then show ?thesis using apart_put [OF assms(2-6)] unfolding sched_inv_def fst_conv snd_conv by blast
qed

lemma sched_drop:
  assumes "sched_rep s L" "apart L" "L p = t # xs" "place_ok s' p xs" "same_tcbs s s' UNIV"
    "\<And>r. r \<noteq> p \<Longrightarrow> same_root s s' r" "pcs_ok s'"
  shows "sched_inv (s', everyone L - {t})"
proof -
  have "place_ok s' r ((L(p := xs)) r)" for r
  proof (cases "r = p")
    case False
    then show ?thesis using assms(1,5,6) place_ok_frame [of s r "L r" s'] by (simp add: sched_rep_def same_tcbs_def)
  qed (simp add: assms(4))
  then have "sched_rep s' (L(p := xs))" using assms(7) by (simp add: sched_rep_def)
  moreover have "t \<in> set (L p)" "set xs = set (L p) - {t}" "distinct xs" using assms(3) apartD(1) [OF assms(2), of p] by auto
  ultimately show ?thesis using apart_drop [OF assms(2), of t p xs] unfolding sched_inv_def fst_conv snd_conv by blast
qed

lemma pcs_okD: "pcs_ok s \<Longrightarrow> pc_ok (s_pc s c) (active_thread s c \<noteq> 0) (help_requests s c \<noteq> None)"
  by (simp add: pcs_ok_def)

lemma sched_repD:
  assumes "sched_rep s L"
  shows "queue_rep (s_next s) (ready_queue s) (L Ready)" "queue_rep (s_next s) (reaper_queue s) (L Reaper)"
    "chain (s_next s) (sleep_queues s c) (L (Sleeping c))" "sorted (map (s_at s) (L (Sleeping c)))"
    "chain (s_next s) (reap_list (s_pc s c)) (L (Chain c))" "L (Active c) = nz (active_thread s c)"
    "L (Pending c) = req_list (help_requests s c)" "L (Held c) = nz (in_hand (s_pc s c))" "pcs_ok s"
proof -
  have a: "place_ok s p (L p)" for p using assms by (simp add: sched_rep_def)
  show "queue_rep (s_next s) (ready_queue s) (L Ready)" "queue_rep (s_next s) (reaper_queue s) (L Reaper)"
    "chain (s_next s) (sleep_queues s c) (L (Sleeping c))" "sorted (map (s_at s) (L (Sleeping c)))"
    "chain (s_next s) (reap_list (s_pc s c)) (L (Chain c))" "L (Active c) = nz (active_thread s c)"
    "L (Pending c) = req_list (help_requests s c)" "L (Held c) = nz (in_hand (s_pc s c))"
    using a [of Ready] a [of Reaper] a [of "Sleeping c"] a [of "Chain c"] a [of "Active c"] a [of "Pending c"] a [of "Held c"]
    by simp_all
  show "pcs_ok s" using assms by (simp add: sched_rep_def)
qed

section \<open>The sleep queue as a sorted list\<close>

lemma sq_search_spec:
  "chain nx p xs \<Longrightarrow> sq_search at nx key pprev p =
     Some (let ys = takeWhile (\<lambda>x. at x \<le> key) xs; zs = dropWhile (\<lambda>x. at x \<le> key) xs
           in (if ys = [] then pprev else last ys, if zs = [] then 0 else hd zs))"
proof (induction xs arbitrary: p pprev)
  case Nil
  then show ?case by (simp add: sq_search.simps [of _ _ _ _ 0] Let_def)
next
  case (Cons x xs)
  then show ?case
    by (subst sq_search.simps) (auto simp: Let_def)
qed

lemma chain_insert:
  "chain nx p (ys @ zs) \<Longrightarrow> distinct (ys @ zs) \<Longrightarrow> t \<notin> set (ys @ zs) \<Longrightarrow> t \<noteq> 0 \<Longrightarrow> ys \<noteq> [] \<Longrightarrow>
    chain (nx(t := if zs = [] then 0 else hd zs, last ys := t)) p (ys @ t # zs)"
proof (induction ys arbitrary: p)
  case (Cons y ys)
  show ?case
  proof (cases "ys = []")
    case True
    have z: "chain nx (nx y) zs" using Cons.prems(1) True by simp
    then have "nx y = (if zs = [] then 0 else hd zs)" by (rule chain_first)
    moreover have "chain (nx(t := if zs = [] then 0 else hd zs, y := t)) (nx y) zs"
      using Cons.prems True by (intro chain_frame [OF z]) auto
    ultimately show ?thesis using Cons.prems True by (cases zs) (simp_all add: fun_upd_def)
  next
    case False
    have "y \<noteq> last ys" using Cons.prems(2) False by auto
    then show ?thesis using Cons.IH [of "nx y"] Cons.prems False by auto
  qed
qed simp

lemma chain_insert_first:
  assumes "chain nx p zs" "t \<notin> set zs" "t \<noteq> 0"
  shows "chain (nx(t := p)) t (t # zs)"
  using assms by (auto intro: chain_frame [OF assms(1)])

lemma sorted_insert:
  assumes "sorted (map at xs)" "at t = key"
  shows "sorted (map at (takeWhile (\<lambda>x. at x \<le> key) xs @ t # dropWhile (\<lambda>x. at x \<le> key) xs))"
  using assms(1)
proof (induction xs)
  case (Cons x xs)
  then show ?case
    using assms(2) set_takeWhileD [of _ "\<lambda>x. at x \<le> key" xs] set_dropWhileD [of _ "\<lambda>x. at x \<le> key" xs] by auto
qed simp

lemma sorted_map_upd: "t \<notin> set xs \<Longrightarrow> map (f(t := v)) xs = map f xs"
  by (induction xs) auto

text \<open>The effect of \<open>add\<close> on the list of the sleeping threads of a core.\<close>

definition sleep_insert :: "(u32 \<Rightarrow> u32) \<Rightarrow> u32 \<Rightarrow> u32 list \<Rightarrow> u32 list" where
  "sleep_insert at t xs = takeWhile (\<lambda>x. at x \<le> at t) xs @ t # dropWhile (\<lambda>x. at x \<le> at t) xs"

lemma sleep_insert_set: "set (sleep_insert at t xs) = insert t (set xs)" "distinct (t # xs) \<Longrightarrow> distinct (sleep_insert at t xs)"
proof -
  let ?P = "\<lambda>x. at x \<le> at t"
  have "set (takeWhile ?P xs) \<union> set (dropWhile ?P xs) = set xs" by (simp only: set_append [symmetric] takeWhile_dropWhile_id)
  then show "set (sleep_insert at t xs) = insert t (set xs)" unfolding sleep_insert_def by simp
  assume d: "distinct (t # xs)"
  have "distinct (takeWhile ?P xs @ dropWhile ?P xs)" using d by (simp only: takeWhile_dropWhile_id distinct.simps)
  then have "distinct (takeWhile ?P xs)" "distinct (dropWhile ?P xs)" "set (takeWhile ?P xs) \<inter> set (dropWhile ?P xs) = {}"
    by (simp_all only: distinct_append)
  then show "distinct (sleep_insert at t xs)"
    using d set_takeWhileD [of t ?P xs] set_dropWhileD [of t ?P xs] unfolding sleep_insert_def by auto
qed

lemma sq_add_rep:
  assumes "chain (s_next s) (sleep_queues s c) xs" "sorted (map (s_at s) xs)" "distinct xs" "t \<notin> set xs" "t \<noteq> 0" "active_thread s c = 0"
  shows "\<exists>s'. sq_add jps c t sec s = Inr s' \<and> s_at s' = (s_at s)(t := s_jiffies s + jps * sec) \<and>
    place_ok s' (Sleeping c) (sleep_insert (s_at s') t xs) \<and>
    (\<forall>x. x \<notin> insert t (set xs) \<longrightarrow> s_next s' x = s_next s x) \<and>
    s' = s\<lparr>s_at := s_at s', s_next := s_next s', sleep_queues := (sleep_queues s)(c := sleep_queues s' c)\<rparr>"
proof -
  define at1 where "at1 = (s_at s)(t := s_jiffies s + jps * sec)"
  let ?P = "\<lambda>x. at1 x \<le> at1 t"
  let ?ys = "takeWhile ?P xs" and ?zs = "dropWhile ?P xs"
  let ?p = "if ?zs = [] then 0 else hd ?zs"
  have ch: "chain (s_next s) (sleep_queues s c) (?ys @ ?zs)" "distinct (?ys @ ?zs)" "t \<notin> set (?ys @ ?zs)"
    using assms(1,3,4) by simp_all
  have srt: "sorted (map at1 (sleep_insert at1 t xs))"
    using assms(2,4) unfolding sleep_insert_def by (intro sorted_insert) (simp_all add: at1_def sorted_map_upd)
  have search: "sq_search at1 (s_next s) (at1 t) 0 (sleep_queues s c) = Some (if ?ys = [] then 0 else last ?ys, ?p)"
    using sq_search_spec [OF assms(1), of at1 "at1 t" 0] by (simp add: Let_def)
  show ?thesis
  proof (cases "?ys = []")
    case True
    let ?s = "s\<lparr>s_at := at1, s_next := (s_next s)(t := ?p), sleep_queues := (sleep_queues s)(c := t)\<rparr>"
    have z: "?zs = xs" using True takeWhile_dropWhile_id [of ?P xs] by simp
    then have p: "?p = sleep_queues s c" using chain_first [OF assms(1)] by simp
    have "chain ((s_next s)(t := ?p)) t (t # xs)" unfolding p by (rule chain_insert_first [OF assms(1,4,5)])
    then have "place_ok ?s (Sleeping c) (sleep_insert (s_at ?s) t xs)"
      using srt True z by (simp add: sleep_insert_def)
    moreover have "sq_add jps c t sec s = Inr ?s"
      unfolding sq_add_def secondsToJiffies_def at1_def [symmetric] Let_def search using True assms(5,6) by (simp add: in_helper_thread_def)
    ultimately show ?thesis by (intro exI [of _ ?s]) (simp add: at1_def)
  next
    case False
    let ?s = "s\<lparr>s_at := at1, s_next := (s_next s)(t := ?p, last ?ys := t)\<rparr>"
    have "last ?ys \<in> set ?ys" using False by (rule last_in_set)
    then have l: "last ?ys \<in> set xs" by (rule set_takeWhileD [THEN conjunct1])
    then have nz: "last ?ys \<noteq> 0" using chain_nonzero [OF assms(1)] by auto
    have "chain ((s_next s)(t := ?p, last ?ys := t)) (sleep_queues s c) (?ys @ t # ?zs)"
      using chain_insert [OF ch assms(5) False] by simp
    then have "place_ok ?s (Sleeping c) (sleep_insert (s_at ?s) t xs)" using srt by (simp add: sleep_insert_def)
    moreover have "sq_add jps c t sec s = Inr ?s"
      unfolding sq_add_def secondsToJiffies_def at1_def [symmetric] Let_def search using False nz assms(5,6) by (simp add: in_helper_thread_def)
    ultimately show ?thesis using l by (intro exI [of _ ?s]) (auto simp: at1_def)
  qed
qed

lemma sq_remove_rep:
  assumes "chain (s_next s) (sleep_queues s c) xs" "active_thread s c = 0"
  obtains (none) "sq_remove c s = Inr (0, s)" "xs = [] \<or> s_at s (hd xs) > s_jiffies s"
  | (some) x ys where "xs = x # ys" "x \<noteq> 0" "s_at s x \<le> s_jiffies s"
      "sq_remove c s = Inr (x, s\<lparr>sleep_queues := (sleep_queues s)(c := s_next s x), s_next := (s_next s)(x := 0)\<rparr>)"
proof (cases xs)
  case Nil
  then show ?thesis using that(1) assms by (simp add: sq_remove_def in_helper_thread_def)
next
  case (Cons x ys)
  then show ?thesis using that(1) that(2) [of x ys] assms
    by (cases "s_at s x > s_jiffies s") (simp_all add: sq_remove_def in_helper_thread_def Let_def)
qed

section \<open>The steps keep the invariant\<close>

lemma go_fields [simp]:
  "s_next (go c p s) = s_next s" "s_at (go c p s) = s_at s" "s_jiffies (go c p s) = s_jiffies s" "s_pc (go c p s) = (s_pc s)(c := p)"
  "help_requests (go c p s) = help_requests s" "active_thread (go c p s) = active_thread s" "sleep_queues (go c p s) = sleep_queues s"
  "ready_queue (go c p s) = ready_queue s" "reaper_queue (go c p s) = reaper_queue s"
  by (simp_all add: go_def)

lemma pcs_upd:
  assumes "pcs_ok s" "pc_ok (s_pc s' c) (active_thread s' c \<noteq> 0) (help_requests s' c \<noteq> None)"
    "\<And>d. d \<noteq> c \<Longrightarrow> s_pc s' d = s_pc s d \<and> active_thread s' d = active_thread s d \<and> help_requests s' d = help_requests s d"
  shows "pcs_ok s'"
  unfolding pcs_ok_def
proof
  fix d
  show "pc_ok (s_pc s' d) (active_thread s' d \<noteq> 0) (help_requests s' d \<noteq> None)"
    using assms by (cases "d = c") (simp_all add: pcs_ok_def)
qed

lemma chain_null: "chain nx 0 xs \<longleftrightarrow> xs = []"
  by (cases xs) auto

text \<open>The state of a core at a place of its code.\<close>

lemma at_pc:
  assumes "sched_rep s L"
  shows "s_pc s c = Run \<Longrightarrow> active_thread s c \<noteq> 0 \<and> help_requests s c = None \<and> L (Active c) = [active_thread s c] \<and> L (Pending c) = [] \<and> L (Chain c) = [] \<and> L (Held c) = []"
    "s_pc s c = Reaping p \<Longrightarrow> active_thread s c \<noteq> 0 \<and> help_requests s c = None \<and> chain (s_next s) p (L (Chain c)) \<and> L (Held c) = []"
    "s_pc s c = Wake b \<Longrightarrow> active_thread s c = 0 \<and> L (Chain c) = [] \<and> L (Held c) = [] \<and> (help_requests s c \<noteq> None \<longrightarrow> b)"
    "s_pc s c = Move b p \<Longrightarrow> active_thread s c = 0 \<and> L (Chain c) = [] \<and> L (Held c) = [p] \<and> p \<noteq> 0 \<and> (help_requests s c \<noteq> None \<longrightarrow> b)"
    "s_pc s c = DoRequest \<Longrightarrow> active_thread s c = 0 \<and> L (Chain c) = [] \<and> L (Held c) = []"
    "s_pc s c = Pick \<Longrightarrow> active_thread s c = 0 \<and> help_requests s c = None \<and> L (Chain c) = [] \<and> L (Held c) = []"
    "s_pc s c = Got p \<Longrightarrow> active_thread s c = 0 \<and> help_requests s c = None \<and> L (Chain c) = [] \<and> L (Held c) = [p] \<and> p \<noteq> 0 \<and> L (Active c) = []"
  using sched_repD(5-8) [OF assms, of c] pcs_okD [OF sched_repD(9) [OF assms], of c]
  by (auto simp: nz_def req_list_def chain_null split: if_splits)

lemma same_tcbs_refl: "s_next s' = s_next s \<Longrightarrow> s_at s' = s_at s \<Longrightarrow> same_tcbs s s' T"
  by (simp add: same_tcbs_def)

lemma block_inv:
  assumes "sched_rep s L" "apart L" "s_pc s c = Run" "\<And>t. req_tcb (w t) = t"
  shows "\<exists>s'. block c w s = Inr s' \<and> sched_inv (s', everyone L)"
proof -
  note a = at_pc(1) [OF assms(1,3)]
  let ?t = "active_thread s c"
  let ?s = "go c (Wake True) (s\<lparr>active_thread := (active_thread s)(c := 0), help_requests := (help_requests s)(c := Some (w ?t))\<rparr>)"
  have "sched_inv (?s, everyone L)"
  proof (rule sched_move [OF assms(1,2), of "Active c" "Pending c" "[]" "[?t]"])
    show "same_root s ?s r" if "r \<noteq> Active c" "r \<noteq> Pending c" for r using that assms(3) by (cases r) auto
    show "pcs_ok ?s" by (rule pcs_upd [OF sched_repD(9) [OF assms(1)], where c = c]) simp_all
  qed (use a assms(4) in \<open>simp_all add: nz_def req_list_def same_tcbs_refl\<close>)
  moreover have "block c w s = Inr ?s" using a by (simp add: block_def Let_def)
  ultimately show ?thesis by blast
qed

lemma pc_only:
  assumes "sched_rep s L" "apart L" "in_hand p = in_hand (s_pc s c)" "reap_list p = reap_list (s_pc s c)"
    "pc_ok p (active_thread s c \<noteq> 0) (help_requests s c \<noteq> None)"
  shows "sched_inv (go c p s, everyone L)"
proof (rule sched_same [OF assms(1,2)])
  show "same_root s (go c p s) r" for r using assms(3,4) by (cases r) auto
  show "pcs_ok (go c p s)" by (rule pcs_upd [OF sched_repD(9) [OF assms(1)], where c = c]) (use assms(5) in simp_all)
qed (simp add: same_tcbs_refl)

lemma reap_start_inv:
  assumes "sched_rep s L" "apart L" "s_pc s c = Run"
  shows "sched_inv (reap_start c s, everyone L)"
proof -
  note a = at_pc(1) [OF assms(1,3)]
  obtain p q' where q: "q_remove_all (reaper_queue s) = (p, q')" by fastforce
  have r: "chain (s_next s) p (L Reaper) \<and> queue_rep (s_next s) q' []"
    using q_remove_all_rep [OF sched_repD(2) [OF assms(1)] q] .
  let ?s = "go c (Reaping p) (s\<lparr>reaper_queue := q'\<rparr>)"
  have "sched_inv (?s, everyone L)"
  proof (rule sched_move [OF assms(1,2), of Reaper "Chain c" "[]" "L Reaper"])
    show "same_root s ?s r" if "r \<noteq> Reaper" "r \<noteq> Chain c" for r using that assms(3) by (cases r) auto
    show "pcs_ok ?s" by (rule pcs_upd [OF sched_repD(9) [OF assms(1)], where c = c]) (use a in simp_all)
  qed (use a r apartD(1) [OF assms(2)] in \<open>simp_all add: same_tcbs_refl\<close>)
  then show ?thesis using q by (simp add: reap_start_def)
qed

text \<open>Adding to the end of a shared queue.\<close>

lemma ready_add_eq:
  assumes "sched_rep s L" "t \<noteq> 0" "t \<notin> set (L Ready)"
  obtains nx' q' where "ready_add t s = Inr (s\<lparr>s_next := nx', ready_queue := q'\<rparr>)" "queue_rep nx' q' (L Ready @ [t])"
    "\<And>x. x \<notin> insert t (set (L Ready)) \<Longrightarrow> nx' x = s_next s x"
  using q_add_rep [OF sched_repD(1) [OF assms(1)] assms(2,3)] that by (auto simp: ready_add_def)

lemma reaper_add_eq:
  assumes "sched_rep s L" "t \<noteq> 0" "t \<notin> set (L Reaper)"
  obtains nx' q' where "reaper_add t s = Inr (s\<lparr>s_next := nx', reaper_queue := q'\<rparr>)" "queue_rep nx' q' (L Reaper @ [t])"
    "\<And>x. x \<notin> insert t (set (L Reaper)) \<Longrightarrow> nx' x = s_next s x"
  using q_add_rep [OF sched_repD(2) [OF assms(1)] assms(2,3)] assms(2) that by (auto simp: reaper_add_def)

lemma thread_inv:
  assumes "sched_rep s L" "apart L" "t \<noteq> 0" "t \<notin> everyone L"
  shows "\<exists>s'. thread t s = Inr s' \<and> sched_inv (s', insert t (everyone L))"
proof -
  have n: "t \<notin> set (L Ready)" using assms(4) by (auto simp: everyone_def)
  obtain nx' q' where q: "ready_add t s = Inr (s\<lparr>s_next := nx', ready_queue := q'\<rparr>)" "queue_rep nx' q' (L Ready @ [t])"
    "\<And>x. x \<notin> insert t (set (L Ready)) \<Longrightarrow> nx' x = s_next s x" by (rule ready_add_eq [OF assms(1,3) n]) blast
  let ?s = "s\<lparr>s_next := nx', ready_queue := q'\<rparr>"
  have "sched_inv (?s, insert t (everyone L))"
  proof (rule sched_put [OF assms, of "L Ready @ [t]" Ready])
    show "same_root s ?s r" if "r \<noteq> Ready" for r using that by (cases r) auto
    show "pcs_ok ?s" using sched_repD(9) [OF assms(1)] by (simp add: pcs_ok_def)
    show "same_tcbs s ?s (- insert t (set (L Ready)))" using q(3) by (simp add: same_tcbs_def)
  qed (use q(2) n apartD(1) [OF assms(2)] in auto)
  then show ?thesis using q(1) by (simp add: thread_def)
qed

text \<open>From a place that one core owns to the ready queue or to the reaper's queue, once the place is cleared.\<close>

lemma to_ready:
  assumes "sched_rep s L" "apart L" "L p = t # ts" "p \<noteq> Ready" "p \<noteq> Reaper"
    "place_ok s1 p ts" "ready_queue s1 = ready_queue s" "s_next s1 = s_next s" "s_at s1 = s_at s"
    "\<And>r. r \<noteq> p \<Longrightarrow> same_root s s1 r" "pcs_ok s1"
  shows "\<exists>s'. ready_add t s1 = Inr s' \<and> s_pc s' = s_pc s1 \<and> active_thread s' = active_thread s1 \<and> help_requests s' = help_requests s1 \<and>
    sched_inv (s', everyone L)"
proof -
  have t: "t \<in> set (L p)" "t \<noteq> 0" using assms(3) apartD(2) [OF assms(2), of p] by auto
  have n: "t \<notin> set (L Ready)" using t(1) assms(4) apartD(4) [OF assms(2)] by blast
  obtain nx' q' where q: "q_add (s_next s) (ready_queue s) t = Inr (nx', q')" "queue_rep nx' q' (L Ready @ [t])"
    "\<forall>x. x \<notin> set (L Ready) \<union> {t} \<longrightarrow> nx' x = s_next s x" using q_add_rep [OF sched_repD(1) [OF assms(1)] t(2) n] by blast
  let ?s = "s1\<lparr>s_next := nx', ready_queue := q'\<rparr>"
  have d: "distinct (t # ts)" "set (t # ts) \<inter> set (L Ready) = {}"
    using apartD(1) [OF assms(2), of p] apartD(3) [OF assms(2,4)] assms(3) by auto
  have "sched_inv (?s, everyone L)"
  proof (rule sched_move [OF assms(1,2,4), of ts "L Ready @ [t]"])
    have "same_tcbs s1 ?s (set ts)" using d q(3) assms(8) by (auto simp: same_tcbs_def)
    moreover have "same_root s1 ?s p" using assms(4,5) by (cases p) auto
    ultimately show "place_ok ?s p ts" using place_ok_frame [OF assms(6)] by blast
    show "same_root s ?s r" if "r \<noteq> p" "r \<noteq> Ready" for r using that assms(10) [of r] by (cases r) auto
    show "pcs_ok ?s" using assms(11) by (simp add: pcs_ok_def)
    show "same_tcbs s ?s (- (set (L p) \<union> set (L Ready)))" using q(3) assms(3,9) by (auto simp: same_tcbs_def)
  qed (use q(2) d assms(3) apartD(1) [OF assms(2), of Ready] in auto)
  moreover have "ready_add t s1 = Inr ?s" using q(1) assms(7,8) by (simp add: ready_add_def)
  ultimately show ?thesis by (intro exI [of _ ?s]) simp
qed

lemma to_reaper:
  assumes "sched_rep s L" "apart L" "L p = t # ts" "p \<noteq> Ready" "p \<noteq> Reaper"
    "place_ok s1 p ts" "reaper_queue s1 = reaper_queue s" "s_next s1 = s_next s" "s_at s1 = s_at s"
    "\<And>r. r \<noteq> p \<Longrightarrow> same_root s s1 r" "pcs_ok s1"
  shows "\<exists>s'. reaper_add t s1 = Inr s' \<and> s_pc s' = s_pc s1 \<and> active_thread s' = active_thread s1 \<and> help_requests s' = help_requests s1 \<and>
    sched_inv (s', everyone L)"
proof -
  have t: "t \<in> set (L p)" "t \<noteq> 0" using assms(3) apartD(2) [OF assms(2), of p] by auto
  have n: "t \<notin> set (L Reaper)" using t(1) assms(5) apartD(4) [OF assms(2)] by blast
  obtain nx' q' where q: "q_add (s_next s) (reaper_queue s) t = Inr (nx', q')" "queue_rep nx' q' (L Reaper @ [t])"
    "\<forall>x. x \<notin> set (L Reaper) \<union> {t} \<longrightarrow> nx' x = s_next s x" using q_add_rep [OF sched_repD(2) [OF assms(1)] t(2) n] by blast
  let ?s = "s1\<lparr>s_next := nx', reaper_queue := q'\<rparr>"
  have d: "distinct (t # ts)" "set (t # ts) \<inter> set (L Reaper) = {}"
    using apartD(1) [OF assms(2), of p] apartD(3) [OF assms(2,5)] assms(3) by auto
  have "sched_inv (?s, everyone L)"
  proof (rule sched_move [OF assms(1,2,5), of ts "L Reaper @ [t]"])
    have "same_tcbs s1 ?s (set ts)" using d q(3) assms(8) by (auto simp: same_tcbs_def)
    moreover have "same_root s1 ?s p" using assms(4,5) by (cases p) auto
    ultimately show "place_ok ?s p ts" using place_ok_frame [OF assms(6)] by blast
    show "same_root s ?s r" if "r \<noteq> p" "r \<noteq> Reaper" for r using that assms(10) [of r] by (cases r) auto
    show "pcs_ok ?s" using assms(11) by (simp add: pcs_ok_def)
    show "same_tcbs s ?s (- (set (L p) \<union> set (L Reaper)))" using q(3) assms(3,9) by (auto simp: same_tcbs_def)
  qed (use q(2) d assms(3) apartD(1) [OF assms(2), of Reaper] in auto)
  moreover have "reaper_add t s1 = Inr ?s" using q(1) t(2) assms(7,8) by (simp add: reaper_add_def)
  ultimately show ?thesis by (intro exI [of _ ?s]) simp
qed

lemma add_go:
  "ready_add t (go c p s) = mapR (go c p) (ready_add t s)" "reaper_add t (go c p s) = mapR (go c p) (reaper_add t s)"
  by (cases "q_add (s_next s) (ready_queue s) t"; cases "q_add (s_next s) (reaper_queue s) t"; cases "t = 0";
      auto simp: ready_add_def reaper_add_def go_def)+

lemma reap_turn_inv:
  assumes "sched_rep s L" "apart L" "s_pc s c = Reaping p"
  shows "\<exists>s' del. reap_turn c p keep s = Inr (s', del) \<and> sched_inv (s', everyone L - set_option del)"
proof (cases "L (Chain c)")
  case Nil
  note a = at_pc(2) [OF assms(1,3)]
  then have "p = 0" using Nil by simp
  then show ?thesis using a pc_only [OF assms(1,2), of Run c] assms(3) by (simp add: reap_turn_def)
next
  case (Cons x xs)
  note a = at_pc(2) [OF assms(1,3)]
  have p: "p = x" "x \<noteq> 0" "chain (s_next s) (s_next s x) xs" using a Cons by auto
  let ?s = "go c (Reaping (s_next s x)) s"
  have k: "place_ok ?s (Chain c) xs" using p(3) by simp
  have root: "same_root s ?s r" if "r \<noteq> Chain c" for r using that assms(3) by (cases r) auto
  have ok: "pcs_ok ?s" by (rule pcs_upd [OF sched_repD(9) [OF assms(1)], where c = c]) (use a in simp_all)
  show ?thesis
  proof (cases keep)
    case True
    have "\<exists>s'. reaper_add x ?s = Inr s' \<and> s_pc s' = s_pc ?s \<and> active_thread s' = active_thread ?s \<and> help_requests s' = help_requests ?s \<and>
        sched_inv (s', everyone L)"
      by (rule to_reaper [OF assms(1,2) Cons _ _ k]) (use root ok in simp_all)
    then obtain s' where s': "reaper_add x ?s = Inr s'" "sched_inv (s', everyone L)" by blast
    have "reap_turn c p keep s = mapR (\<lambda>s1. (s1, None)) (reaper_add x ?s)"
      using True p by (simp add: reap_turn_def add_go mapR_bindR bindR_assoc)
    then show ?thesis using s' by simp
  next
    case False
    have "sched_inv (?s, everyone L - {x})"
      by (rule sched_drop [OF assms(1,2) Cons k]) (use root ok in \<open>simp_all add: same_tcbs_refl\<close>)
    then show ?thesis using False p by (simp add: reap_turn_def)
  qed
qed

lemma reaper_remove_inv:
  assumes "sched_rep s L" "apart L" "reaper_remove s = (t, s')" "t \<noteq> 0"
  shows "sched_inv (s', everyone L - {t})"
proof (rule kq.deq_cases [OF sched_repD(2) [OF assms(1)]])
  assume "q_remove (s_next s) (reaper_queue s) = (0, reaper_queue s)"
  then show ?thesis using assms(3,4) by (simp add: reaper_remove_def)
next
  fix x ys q'
  assume q: "L Reaper = x # ys" "q_remove (s_next s) (reaper_queue s) = (x, q')" "queue_rep (s_next s) q' ys"
  then have s': "s' = s\<lparr>reaper_queue := q'\<rparr>" "t = x" using assms(3) by (simp_all add: reaper_remove_def)
  have root: "same_root s s' r" if "r \<noteq> Reaper" for r using that s' by (cases r) auto
  have "pcs_ok s'" using sched_repD(9) [OF assms(1)] s' by (simp add: pcs_ok_def)
  then show ?thesis unfolding s'(2)
    by (intro sched_drop [OF assms(1,2) q(1)] root) (use q(3) s'(1) in \<open>simp_all add: same_tcbs_refl\<close>)
qed

lemma wakeup_remove_inv:
  assumes "sched_rep s L" "apart L" "s_pc s c = Wake b"
  shows "\<exists>s'. wakeup_remove c b s = Inr s' \<and> sched_inv (s', everyone L)"
proof -
  note a = at_pc(3) [OF assms(1,3)]
  have act: "active_thread s c = 0" using a by simp
  show ?thesis using sched_repD(3) [OF assms(1), of c] act
  proof (cases rule: sq_remove_rep)
    case none
    have "sched_inv (go c (if b then DoRequest else Pick) s, everyone L)"
      using a assms(3) by (intro pc_only [OF assms(1,2)]) auto
    then show ?thesis using none(1) by (simp add: wakeup_remove_def)
  next
    case (some x ys)
    let ?s = "go c (Move b x) (s\<lparr>sleep_queues := (sleep_queues s)(c := s_next s x), s_next := (s_next s)(x := 0)\<rparr>)"
    have ch: "chain (s_next s) (s_next s x) ys" "x \<notin> set ys"
      using sched_repD(3) [OF assms(1), of c] apartD(1) [OF assms(2), of "Sleeping c"] some(1) by auto
    have "sched_inv (?s, everyone L)"
    proof (rule sched_move [OF assms(1,2), of "Sleeping c" "Held c" ys "[x]"])
      show "place_ok ?s (Sleeping c) ys"
        using ch sched_repD(4) [OF assms(1), of c] some(1) by (auto intro: chain_frame)
      show "same_root s ?s r" if "r \<noteq> Sleeping c" "r \<noteq> Held c" for r using that assms(3) by (cases r) auto
      show "pcs_ok ?s" by (rule pcs_upd [OF sched_repD(9) [OF assms(1)], where c = c]) (use a some in auto)
    qed (use a some ch apartD(1) [OF assms(2), of "Sleeping c"] in \<open>auto simp: same_tcbs_def nz_def\<close>)
    then show ?thesis using some by (simp add: wakeup_remove_def)
  qed
qed

lemma wakeup_add_inv:
  assumes "sched_rep s L" "apart L" "s_pc s c = Move b p"
  shows "\<exists>s'. wakeup_add c b p s = Inr s' \<and> sched_inv (s', everyone L)"
proof -
  note a = at_pc(4) [OF assms(1,3)]
  let ?s = "go c (Wake b) s"
  have "\<exists>s'. ready_add p ?s = Inr s' \<and> s_pc s' = s_pc ?s \<and> active_thread s' = active_thread ?s \<and> help_requests s' = help_requests ?s \<and>
      sched_inv (s', everyone L)"
  proof (rule to_ready [OF assms(1,2), of "Held c" p "[]"])
    show "same_root s ?s r" if "r \<noteq> Held c" for r using that assms(3) by (cases r) auto
    show "pcs_ok ?s" by (rule pcs_upd [OF sched_repD(9) [OF assms(1)], where c = c]) (use a in auto)
  qed (use a in \<open>simp_all add: nz_def\<close>)
  moreover have "wakeup_add c b p s = ready_add p ?s" by (simp add: wakeup_add_def add_go mapR_bindR)
  ultimately show ?thesis by auto
qed

lemma request_go: "request_doit jps c r (go d p s) = mapR (go d p) (request_doit jps c r s)"
proof (cases r)
  case (AddSleep t sec)
  let ?at = "(s_at s)(t := s_jiffies s + secondsToJiffies jps sec)"
  show ?thesis unfolding AddSleep
    by (cases "sq_search ?at (s_next s) (?at t) 0 (sleep_queues s c)"; cases "t = 0"; cases "active_thread s c = 0")
      (auto simp: sq_add_def go_def Let_def in_helper_thread_def split: prod.splits)
qed (simp_all add: add_go)

lemma helper_request_inv:
  assumes "sched_rep s L" "apart L" "s_pc s c = DoRequest"
  shows "\<exists>s'. helper_request jps c s = Inr s' \<and> sched_inv (s', everyone L)"
proof (cases "help_requests s c")
  case None
  then show ?thesis using at_pc(5) [OF assms(1,3)] pc_only [OF assms(1,2), of Pick c] assms(3) by (simp add: helper_request_def)
next
  case (Some r)
  note a = at_pc(5) [OF assms(1,3)]
  let ?s = "go c Pick (s\<lparr>help_requests := (help_requests s)(c := None)\<rparr>)"
  have h: "helper_request jps c s = request_doit jps c r ?s"
    using Some by (simp add: helper_request_def request_go mapR_bindR)
  have L: "L (Pending c) = [req_tcb r]" using sched_repD(7) [OF assms(1), of c] Some by (simp add: req_list_def)
  have k: "place_ok ?s (Pending c) []" by (simp add: req_list_def)
  have root: "same_root s ?s q" if "q \<noteq> Pending c" for q using that assms(3) by (cases q) auto
  have ok: "pcs_ok ?s" by (rule pcs_upd [OF sched_repD(9) [OF assms(1)], where c = c]) (use a in auto)
  show ?thesis
  proof (cases r)
    case (AddReady t)
    have "\<exists>s'. ready_add t ?s = Inr s' \<and> s_pc s' = s_pc ?s \<and> active_thread s' = active_thread ?s \<and> help_requests s' = help_requests ?s \<and>
        sched_inv (s', everyone L)"
      by (rule to_ready [OF assms(1,2) _ _ _ k]) (use L AddReady root ok in simp_all)
    then show ?thesis using h AddReady by auto
  next
    case (AddReaper t)
    have "\<exists>s'. reaper_add t ?s = Inr s' \<and> s_pc s' = s_pc ?s \<and> active_thread s' = active_thread ?s \<and> help_requests s' = help_requests ?s \<and>
        sched_inv (s', everyone L)"
      by (rule to_reaper [OF assms(1,2) _ _ _ k]) (use L AddReaper root ok in simp_all)
    then show ?thesis using h AddReaper by auto
  next
    case (AddSleep t sec)
    let ?xs = "L (Sleeping c)"
    have t: "t \<in> set (L (Pending c))" using L AddSleep by simp
    have n: "t \<notin> set ?xs" "t \<noteq> 0" "distinct ?xs"
      using t apartD(2) [OF assms(2), of "Pending c"] apartD(1) [OF assms(2)] apartD(4) [OF assms(2) t, of "Sleeping c"] by auto
    obtain s' where s': "sq_add jps c t sec ?s = Inr s'" "s_at s' = (s_at ?s)(t := s_jiffies ?s + jps * sec)"
      "place_ok s' (Sleeping c) (sleep_insert (s_at s') t ?xs)" "\<forall>x. x \<notin> insert t (set ?xs) \<longrightarrow> s_next s' x = s_next ?s x"
      "s' = ?s\<lparr>s_at := s_at s', s_next := s_next s', sleep_queues := (sleep_queues ?s)(c := sleep_queues s' c)\<rparr>"
      using sq_add_rep [of ?s c ?xs t jps sec] sched_repD(3,4) [OF assms(1), of c] n a by auto
    have f: "ready_queue s' = ready_queue s" "reaper_queue s' = reaper_queue s" "s_pc s' = s_pc ?s" "active_thread s' = active_thread s"
      "help_requests s' = help_requests ?s" "\<And>d. d \<noteq> c \<Longrightarrow> sleep_queues s' d = sleep_queues s d"
      by (subst s'(5), simp)+
    have "sched_inv (s', everyone L)"
    proof (rule sched_move [OF assms(1,2), of "Pending c" "Sleeping c" "[]" "sleep_insert (s_at s') t ?xs"])
      show "same_root s s' q" if "q \<noteq> Pending c" "q \<noteq> Sleeping c" for q using that root [of q] f by (cases q) auto
      show "pcs_ok s'" using ok f by (simp add: pcs_ok_def)
      show "same_tcbs s s' (- (set (L (Pending c)) \<union> set ?xs))" using s'(2,4) L AddSleep by (auto simp: same_tcbs_def)
    qed (use s'(3) L AddSleep f n in \<open>auto simp: sleep_insert_set req_list_def\<close>)
    then show ?thesis using h AddSleep s'(1) by simp
  qed
qed

lemma helper_pick_inv:
  assumes "sched_rep s L" "apart L" "s_pc s c = Pick"
  shows "sched_inv (helper_pick c s, everyone L)"
proof (rule kq.deq_cases [OF sched_repD(1) [OF assms(1)]])
  note a = at_pc(6) [OF assms(1,3)]
  assume "q_remove (s_next s) (ready_queue s) = (0, ready_queue s)"
  then have "helper_pick c s = go c (Wake False) s" by (simp add: helper_pick_def ready_remove_def)
  then show ?thesis using a pc_only [OF assms(1,2), of "Wake False" c] assms(3) by simp
next
  note a = at_pc(6) [OF assms(1,3)]
  fix x ys q'
  assume q: "L Ready = x # ys" "x \<noteq> 0" "q_remove (s_next s) (ready_queue s) = (x, q')" "queue_rep (s_next s) q' ys"
  let ?s = "go c (Got x) (s\<lparr>ready_queue := q'\<rparr>)"
  have "sched_inv (?s, everyone L)"
  proof (rule sched_move [OF assms(1,2), of Ready "Held c" ys "[x]"])
    show "same_root s ?s r" if "r \<noteq> Ready" "r \<noteq> Held c" for r using that assms(3) by (cases r) auto
    show "pcs_ok ?s" by (rule pcs_upd [OF sched_repD(9) [OF assms(1)], where c = c]) (use a q in auto)
  qed (use a q apartD(1) [OF assms(2), of Ready] in \<open>auto simp: same_tcbs_refl nz_def\<close>)
  then show ?thesis using q by (simp add: helper_pick_def ready_remove_def)
qed

lemma helper_switch_inv:
  assumes "sched_rep s L" "apart L" "s_pc s c = Got p"
  shows "sched_inv (helper_switch c p s, everyone L)"
proof -
  note a = at_pc(7) [OF assms(1,3)]
  let ?s = "go c Run (s\<lparr>active_thread := (active_thread s)(c := p)\<rparr>)"
  have "sched_inv (?s, everyone L)"
  proof (rule sched_move [OF assms(1,2), of "Held c" "Active c" "[]" "[p]"])
    show "same_root s ?s r" if "r \<noteq> Held c" "r \<noteq> Active c" for r using that assms(3) by (cases r) auto
    show "pcs_ok ?s" by (rule pcs_upd [OF sched_repD(9) [OF assms(1)], where c = c]) (use a in auto)
  qed (use a in \<open>auto simp: same_tcbs_refl nz_def\<close>)
  then show ?thesis by (simp add: helper_switch_def)
qed

lemma ops_inv:
  assumes "sched_inv (s, A)"
  shows "s_pc s c = Run \<Longrightarrow> \<exists>s'. yield c s = Inr s' \<and> sched_inv (s', A)"
    "s_pc s c = Run \<Longrightarrow> \<exists>s'. sleep c sec s = Inr s' \<and> sched_inv (s', A)"
    "s_pc s c = Run \<Longrightarrow> \<exists>s'. stop c s = Inr s' \<and> sched_inv (s', A)"
    "s_pc s c = Reaping p \<Longrightarrow> \<exists>s' del. reap_turn c p keep s = Inr (s', del) \<and> sched_inv (s', A - set_option del)"
    "s_pc s c = Wake b \<Longrightarrow> \<exists>s'. wakeup_remove c b s = Inr s' \<and> sched_inv (s', A)"
    "s_pc s c = Move b p \<Longrightarrow> \<exists>s'. wakeup_add c b p s = Inr s' \<and> sched_inv (s', A)"
    "s_pc s c = DoRequest \<Longrightarrow> \<exists>s'. helper_request jps c s = Inr s' \<and> sched_inv (s', A)"
    "t \<noteq> 0 \<Longrightarrow> t \<notin> A \<Longrightarrow> \<exists>s'. thread t s = Inr s' \<and> sched_inv (s', insert t A)"
proof -
  obtain L where L: "sched_rep s L" "apart L" "everyone L = A" using assms by (auto simp: sched_inv_def)
  note b = block_inv [OF L(1,2), unfolded L(3)]
  show "\<exists>s'. yield c s = Inr s' \<and> sched_inv (s', A)" if "s_pc s c = Run"
    using b [OF that, of AddReady] assms by (auto simp: yield_def)
  show "\<exists>s'. sleep c sec s = Inr s' \<and> sched_inv (s', A)" if "s_pc s c = Run"
    using b [OF that, of "\<lambda>tcb. AddSleep tcb sec"] by (simp add: sleep_def)
  show "\<exists>s'. stop c s = Inr s' \<and> sched_inv (s', A)" if "s_pc s c = Run"
    using b [OF that, of AddReaper] at_pc(1) [OF L(1) that] by (simp add: stop_def)
  show "\<exists>s' del. reap_turn c p keep s = Inr (s', del) \<and> sched_inv (s', A - set_option del)" if "s_pc s c = Reaping p"
    using reap_turn_inv [OF L(1,2) that] L(3) by simp
  show "\<exists>s'. wakeup_remove c b s = Inr s' \<and> sched_inv (s', A)" if "s_pc s c = Wake b"
    using wakeup_remove_inv [OF L(1,2) that] L(3) by simp
  show "\<exists>s'. wakeup_add c b p s = Inr s' \<and> sched_inv (s', A)" if "s_pc s c = Move b p"
    using wakeup_add_inv [OF L(1,2) that] L(3) by simp
  show "\<exists>s'. helper_request jps c s = Inr s' \<and> sched_inv (s', A)" if "s_pc s c = DoRequest"
    using helper_request_inv [OF L(1,2) that] L(3) by simp
  show "\<exists>s'. thread t s = Inr s' \<and> sched_inv (s', insert t A)" if "t \<noteq> 0" "t \<notin> A"
    using thread_inv [OF L(1,2) that(1)] that(2) L(3) by simp
qed

lemma sched_step_inv:
  assumes "sched_step jps x y" "sched_inv x"
  shows "sched_inv y"
  using assms
proof (induction rule: sched_step.induct)
  case (create t A s s') then show ?case using ops_inv(8) [of s A t] by auto
next
  case (tick s A c)
  then obtain L where L: "sched_rep s L" "apart L" "everyone L = A" by (auto simp: sched_inv_def)
  have "same_root s (apitHandler c s) r" for r by (cases r) (auto simp: apitHandler_def)
  moreover have "pcs_ok (apitHandler c s)" using sched_repD(9) [OF L(1)] by (simp add: pcs_ok_def apitHandler_def)
  ultimately show ?case
    using sched_same [OF L(1,2), of "apitHandler c s"] L(3) by (simp add: same_tcbs_def apitHandler_def)
next
  case (r_yield s c s' A) then show ?case using ops_inv(1) [of s A c] by simp
next
  case (r_sleep s c sec s' A) then show ?case using ops_inv(2) [of s A c sec] by simp
next
  case (r_stop s c s' A) then show ?case using ops_inv(3) [of s A c] by simp
next
  case (r_reap s c A) then show ?case using reap_start_inv by (fastforce simp: sched_inv_def)
next
  case (r_turn s c p keep s' del A) then show ?case using ops_inv(4) [of s A c p keep] by simp
next
  case (r_reaper s c t s' A) then show ?case using reaper_remove_inv by (fastforce simp: sched_inv_def)
next
  case (h_wake s c b s' A) then show ?case using ops_inv(5) [of s A c b] by simp
next
  case (h_move s c b p s' A) then show ?case using ops_inv(6) [of s A c b p] by simp
next
  case (h_request s c s' A) then show ?case using ops_inv(7) [of s A c jps] by simp
next
  case (h_pick s c A) then show ?case using helper_pick_inv by (fastforce simp: sched_inv_def)
next
  case (h_switch s c p A) then show ?case using helper_switch_inv by (fastforce simp: sched_inv_def)
qed

lemma sched_reach_inv: "sched_reach jps x \<Longrightarrow> sched_inv x"
proof (induction rule: sched_reach.induct)
  case reach_init
  have "place_ok sched_init p []" for p
    by (cases p) (simp_all add: sched_init_def queue_rep_new nz_def req_list_def)
  then have "sched_rep sched_init (\<lambda>_. [])" by (simp add: sched_rep_def pcs_ok_def sched_init_def)
  moreover have "apart (\<lambda>_. [])" "everyone (\<lambda>_. []) = {}" by (simp_all add: apart_def everyone_def)
  ultimately show ?case unfolding sched_inv_def fst_conv snd_conv by blast
next
  case (reach_step x y) then show ?case using sched_step_inv by blast
qed

section \<open>Properties\<close>

text \<open>A run of one core up to its first thread.\<close>

definition demo_sched :: "core_pc \<Rightarrow> queue \<Rightarrow> u32 \<Rightarrow> sched" where
  "demo_sched p q t = sched_init\<lparr>s_next := (\<lambda>_. 0)(4 := 0), s_pc := (\<lambda>_. Wake True)(1 := p), ready_queue := q, active_thread := (\<lambda>_. 0)(1 := t)\<rparr>"

lemma demo_reach: "sched_reach 100 (demo_sched Run q_new 4, {4})"
proof -
  let ?q = "\<lparr>q_first = 4, q_last = 4\<rparr>"
  have "thread 4 sched_init = Inr (demo_sched (Wake True) ?q 0)"
    by (simp add: thread_def ready_add_def q_add_def demo_sched_def sched_init_def q_new_def fun_eq_iff)
  then have 1: "sched_reach 100 (demo_sched (Wake True) ?q 0, {4})"
    using reach_step [OF reach_init create [of 4 "{}" sched_init]] by simp
  have "wakeup_remove 1 True (demo_sched (Wake True) ?q 0) = Inr (demo_sched DoRequest ?q 0)"
    by (simp add: wakeup_remove_def sq_remove_def in_helper_thread_def demo_sched_def sched_init_def go_def)
  then have 2: "sched_reach 100 (demo_sched DoRequest ?q 0, {4})"
    by (intro reach_step [OF 1] h_wake [where c = 1 and b = True]) (simp add: demo_sched_def)
  have "helper_request 100 1 (demo_sched DoRequest ?q 0) = Inr (demo_sched Pick ?q 0)"
    by (simp add: helper_request_def demo_sched_def sched_init_def go_def)
  then have 3: "sched_reach 100 (demo_sched Pick ?q 0, {4})"
    by (intro reach_step [OF 2] h_request [where c = 1]) (simp add: demo_sched_def)
  have "helper_pick 1 (demo_sched Pick ?q 0) = demo_sched (Got 4) q_new 0"
    by (simp add: helper_pick_def ready_remove_def q_remove_def demo_sched_def sched_init_def go_def q_new_def)
  then have 4: "sched_reach 100 (demo_sched (Got 4) q_new 0, {4})"
    using reach_step [OF 3 h_pick [where c = 1]] by (simp add: demo_sched_def)
  have "helper_switch 1 4 (demo_sched (Got 4) q_new 0) = demo_sched Run q_new 4"
    by (simp add: helper_switch_def demo_sched_def sched_init_def go_def)
  then show ?thesis
    using reach_step [OF 4 h_switch [where c = 1 and p = 4]] by (simp add: demo_sched_def)
qed

text \<open>(C7:sched_exclusive) No thread ever runs on two cores, and a thread that runs is in none of the queues: in every reachable state the
  threads that were created and not deleted are exactly those at the places of \<open>sched_rep\<close>, each at one place and once, so no thread is lost.\<close>

theorem sched_exclusive:
  assumes "sched_reach jps (s, A)"
  shows "(\<forall>c d. active_thread s c \<noteq> 0 \<longrightarrow> active_thread s c = active_thread s d \<longrightarrow> c = d) \<and>
    (\<exists>L. sched_rep s L \<and> (\<forall>t. t \<in> A \<longleftrightarrow> (\<exists>p. t \<in> set (L p))) \<and>
      (\<forall>p. distinct (L p)) \<and> (\<forall>t p q. t \<in> set (L p) \<longrightarrow> t \<in> set (L q) \<longrightarrow> p = q) \<and> (\<forall>c. L (Active c) = nz (active_thread s c)))"
proof -
  obtain L where L: "sched_rep s L" "apart L" "everyone L = A"
    using sched_reach_inv [OF assms] by (auto simp: sched_inv_def)
  have act: "L (Active c) = nz (active_thread s c)" for c using sched_repD(6) [OF L(1)] .
  have uniq: "p = q" if "t \<in> set (L p)" "t \<in> set (L q)" for t p q using apartD(4) [OF L(2) that] .
  have "c = d" if "active_thread s c \<noteq> 0" "active_thread s c = active_thread s d" for c d
    using uniq [of "active_thread s c" "Active c" "Active d"] that by (simp add: act nz_def)
  moreover have "t \<in> A \<longleftrightarrow> (\<exists>p. t \<in> set (L p))" for t using L(3) by (auto simp: everyone_def)
  ultimately show ?thesis using L(1) act uniq apartD(1) [OF L(2)] by (intro conjI exI [of _ L]) blast+
qed

theorem sched_exclusive_witness:
  "{d. active_thread (demo_sched Run q_new 4) d = 4} = {1}"
proof -
  have a: "active_thread (demo_sched Run q_new 4) 1 = 4" by (simp add: demo_sched_def)
  have "active_thread (demo_sched Run q_new 4) c \<noteq> 0 \<longrightarrow>
      active_thread (demo_sched Run q_new 4) c = active_thread (demo_sched Run q_new 4) d \<longrightarrow> c = d" for c d
    using sched_exclusive [OF demo_reach, THEN conjunct1] by blast
  from this [of 1] show ?thesis using a by auto
qed



text \<open>(sleep_order) In every reachable state the sleep queue of a core is sorted by waking time. A helper's \<open>remove\<close> gives the sleeping thread that is due
  first, if one is due; it gives none only if none is due. \<open>add\<close> puts a thread behind those due no later, with the time now plus its seconds.\<close>

theorem sleep_order:
  assumes "sched_reach jps (s, A)" "active_thread s c = 0"
  shows "\<exists>xs. chain (s_next s) (sleep_queues s c) xs \<and> sorted (map (s_at s) xs) \<and>
    (\<exists>t s'. sq_remove c s = Inr (t, s') \<and>
      (t = 0 \<longrightarrow> (\<forall>x \<in> set xs. s_at s x > s_jiffies s)) \<and>
      (t \<noteq> 0 \<longrightarrow> s_at s t \<le> s_jiffies s \<and> t \<in> set xs \<and> (\<forall>x \<in> set xs. s_at s t \<le> s_at s x))) \<and>
    (\<forall>t sec. t \<noteq> 0 \<longrightarrow> t \<notin> set xs \<longrightarrow> (\<exists>s'. sq_add jps c t sec s = Inr s' \<and> s_at s' t = s_jiffies s + jps * sec \<and>
      chain (s_next s') (sleep_queues s' c) (sleep_insert (s_at s') t xs) \<and> sorted (map (s_at s') (sleep_insert (s_at s') t xs))))"
proof -
  obtain L where L: "sched_rep s L" "apart L" using sched_reach_inv [OF assms(1)] by (auto simp: sched_inv_def)
  let ?xs = "L (Sleeping c)"
  have xs: "chain (s_next s) (sleep_queues s c) ?xs" "sorted (map (s_at s) ?xs)" "distinct ?xs"
    using sched_repD(3,4) [OF L(1)] apartD(1) [OF L(2)] by blast+
  have rem: "\<exists>t s'. sq_remove c s = Inr (t, s') \<and> (t = 0 \<longrightarrow> (\<forall>x \<in> set ?xs. s_at s x > s_jiffies s)) \<and>
      (t \<noteq> 0 \<longrightarrow> s_at s t \<le> s_jiffies s \<and> t \<in> set ?xs \<and> (\<forall>x \<in> set ?xs. s_at s t \<le> s_at s x))"
    using xs(1) assms(2)
  proof (cases rule: sq_remove_rep)
    case none
    then show ?thesis using xs(2) by (cases ?xs) auto
  next
    case (some x ys)
    then show ?thesis using xs(2) by auto
  qed
  have add: "\<exists>s'. sq_add jps c t sec s = Inr s' \<and> s_at s' t = s_jiffies s + jps * sec \<and>
      chain (s_next s') (sleep_queues s' c) (sleep_insert (s_at s') t ?xs) \<and> sorted (map (s_at s') (sleep_insert (s_at s') t ?xs))"
    if "t \<noteq> 0" "t \<notin> set ?xs" for t sec
    using sq_add_rep [OF xs that(2,1) assms(2), of jps sec] by force
  show ?thesis using xs(1,2) rem add by (intro exI [of _ ?xs]) blast
qed

theorem sleep_order_witness: "\<exists>t s'. sq_remove 2 (demo_sched Run q_new 4) = Inr (t, s')"
proof -
  have "active_thread (demo_sched Run q_new 4) 2 = 0" by (simp add: demo_sched_def)
  from sleep_order [OF demo_reach this] show ?thesis by blast
qed

end
