(* ===== verification/Switch.thy ===== *)
theory Switch
  imports Spin
begin

text \<open>
  Threads on a processor: \<open>context_switch\<close> of \<open>kernel/context.S\<close>, instruction by instruction, and the stack that the constructor \<open>TCBWithWork\<close> of \<open>kernel/threads.h\<close>
  builds for a new thread, so that the switch to it looks like the return of a switch.

  Memory is a function from the addresses of words to words; the stack pointer is a multiple of 4.
\<close>

section \<open>The processor\<close>

record cpu =
  ebx :: u32
  esi :: u32
  edi :: u32
  ebp :: u32
  esp :: u32
  cr2 :: u32
  cr3 :: u32
  eflags :: u32
  eip :: u32
  words :: "u32 \<Rightarrow> u32"

definition push :: "u32 \<Rightarrow> cpu \<Rightarrow> cpu" where
  "push v s = s\<lparr>esp := esp s - 4, words := (words s)(esp s - 4 := v)\<rparr>"

definition pop :: "cpu \<Rightarrow> u32 \<times> cpu" where
  "pop s = (words s (esp s), s\<lparr>esp := esp s + 4\<rparr>)"

section \<open>The switch\<close>

definition switch_save :: "cpu \<Rightarrow> cpu" where
  "switch_save s0 =
     (let eax = words s0 (esp s0 + 4);
          s1 = push (ebx s0) s0;
          s2 = push (esi s1) s1;
          s3 = push (edi s2) s2;
          s4 = push (ebp s3) s3;
          s5 = s4\<lparr>ebx := cr3 s4\<rparr>;
          s6 = push (ebx s5) s5;
          s7 = s6\<lparr>ebx := cr2 s6\<rparr>;
          s8 = push (ebx s7) s7;
          s9 = push (eflags s8) s8
      in s9\<lparr>words := (words s9)(eax := esp s9)\<rparr>)"

definition switch_load :: "u32 \<Rightarrow> cpu \<Rightarrow> cpu" where
  "switch_load edx s0 =
     (let s1 = s0\<lparr>eflags := cli (eflags s0)\<rparr>;
          s2 = s1\<lparr>esp := words s1 edx\<rparr>;
          (f, s3) = pop s2; s4 = s3\<lparr>eflags := f\<rparr>;
          (b1, s5) = pop s4; s6 = s5\<lparr>ebx := b1, cr2 := b1\<rparr>;
          (b2, s7) = pop s6; s8 = s7\<lparr>ebx := b2, cr3 := b2\<rparr>;
          (p, s9) = pop s8; s10 = s9\<lparr>ebp := p\<rparr>;
          (d, s11) = pop s10; s12 = s11\<lparr>edi := d\<rparr>;
          (i, s13) = pop s12; s14 = s13\<lparr>esi := i\<rparr>;
          (b, s15) = pop s14; s16 = s15\<lparr>ebx := b\<rparr>;
          (r, s17) = pop s16
      in s17\<lparr>eip := r\<rparr>)"

text \<open>The arguments \<open>from\<close> and \<open>to\<close> are above the return address on the stack of the caller.\<close>

definition context_switch :: "cpu \<Rightarrow> cpu" where
  "context_switch s = switch_load (words s (esp s + 8)) (switch_save s)"

section \<open>New threads\<close>

definition STACK_WORDS :: nat where "STACK_WORDS = 2048"

definition stack_slot :: "u32 \<Rightarrow> nat \<Rightarrow> u32" where
  "stack_slot stack i = stack + 4 * of_nat i"

definition tcb_push :: "u32 \<Rightarrow> u32 \<Rightarrow> nat \<times> (u32 \<Rightarrow> u32) \<Rightarrow> nat \<times> (u32 \<Rightarrow> u32)" where
  "tcb_push stack v p = (case p of (stack_index, m) \<Rightarrow> (stack_index - 1, m(stack_slot stack stack_index := v)))"

text \<open>The array \<open>stack\<close> of the new control block is at \<open>stack\<close>, its save area at \<open>area\<close>.\<close>

definition TCBWithWork_stack :: "u32 \<Rightarrow> u32 \<Rightarrow> u32 \<Rightarrow> u32 \<Rightarrow> (u32 \<Rightarrow> u32) \<Rightarrow> (u32 \<Rightarrow> u32)" where
  "TCBWithWork_stack stack area thread_entry pd m =
     (let p0 = (STACK_WORDS - 1, m);
          p1 = tcb_push stack thread_entry p0;
          p2 = tcb_push stack 0 p1;
          p3 = tcb_push stack 0 p2;
          p4 = tcb_push stack 0 p3;
          p5 = tcb_push stack 0 p4;
          p6 = tcb_push stack pd p5;
          p7 = tcb_push stack 0 p6;
          (stack_index, m8) = tcb_push stack 0x200 p7
      in m8(area := stack_slot stack (stack_index + 1)))"

definition interruptEsp :: "u32 \<Rightarrow> u32" where
  "interruptEsp stack = stack_slot stack (STACK_WORDS - 1)"

lemma stack_slot_eq [simp]: "i < 2049 \<Longrightarrow> j < 2049 \<Longrightarrow> stack_slot stack i = stack_slot stack j \<longleftrightarrow> i = j"
proof -
  assume ij: "i < 2049" "j < 2049"
  have "unat (4 * of_nat i :: u32) = 4 * i" "unat (4 * of_nat j :: u32) = 4 * j"
    using ij by (subst unat_times_no_wrap; simp)+
  then have "(4 * of_nat i :: u32) = 4 * of_nat j \<longleftrightarrow> i = j" by (metis mult_cancel1 zero_neq_numeral)
  then show ?thesis by (simp add: stack_slot_def)
qed

section \<open>What the switch does\<close>

text \<open>The seven words that a saved thread has below its return address, from the saved stack pointer up.\<close>

definition saved_frame :: "(u32 \<Rightarrow> u32) \<Rightarrow> u32 \<Rightarrow> u32 list" where
  "saved_frame m sp = map (\<lambda>k. m (sp + 4 * of_nat k)) [0 ..< 8]"

lemma saved_frame_conv:
  "saved_frame m sp = [m sp, m (sp + 4), m (sp + 8), m (sp + 12), m (sp + 16), m (sp + 20), m (sp + 24), m (sp + 28)]"
  by (simp add: saved_frame_def upt_rec)

text \<open>Loading takes the registers from there.\<close>

lemma switch_load_frame:
  assumes "saved_frame (words s) (words s area) = [f, c2, c3, p, d, i, b, r]"
  shows "switch_load area s = s\<lparr>eflags := f, cr2 := c2, cr3 := c3, ebp := p, edi := d, esi := i, ebx := b, eip := r, esp := words s area + 32\<rparr>"
  using assms by (auto simp: switch_load_def pop_def saved_frame_conv Let_def add.commute)

text \<open>Saving writes them there, whatever the values are, when the save area is not on the stack.\<close>

lemma switch_save_frame:
  assumes "words s (esp s + 4) = area" "\<forall>k<8. area \<noteq> esp s - 28 + 4 * of_nat k"
  shows "words (switch_save s) area = esp s - 28"
    "saved_frame (words (switch_save s)) (esp s - 28) = [eflags s, cr2 s, cr3 s, ebp s, edi s, esi s, ebx s, words s (esp s)]"
    "\<And>a. a \<noteq> area \<Longrightarrow> (\<forall>k<7. a \<noteq> esp s - 28 + 4 * of_nat k) \<Longrightarrow> words (switch_save s) a = words s a"
proof -
  show w: "words (switch_save s) area = esp s - 28" by (simp add: switch_save_def push_def Let_def assms(1))
  have ar: "area \<noteq> esp s - 28" "area \<noteq> esp s - 24" "area \<noteq> esp s - 20" "area \<noteq> esp s - 16" "area \<noteq> esp s - 12" "area \<noteq> esp s - 8" "area \<noteq> esp s - 4" "area \<noteq> esp s"
    using assms(2) [rule_format, of 0] assms(2) [rule_format, of 1] assms(2) [rule_format, of 2] assms(2) [rule_format, of 3]
      assms(2) [rule_format, of 4] assms(2) [rule_format, of 5] assms(2) [rule_format, of 6] assms(2) [rule_format, of 7] by simp_all
  then show "saved_frame (words (switch_save s)) (esp s - 28) = [eflags s, cr2 s, cr3 s, ebp s, edi s, esi s, ebx s, words s (esp s)]"
    by (auto simp: saved_frame_conv switch_save_def push_def Let_def assms(1))
  show "words (switch_save s) a = words s a" if "a \<noteq> area" "\<forall>k<7. a \<noteq> esp s - 28 + 4 * of_nat k" for a
    using that(1) that(2) [rule_format, of 0] that(2) [rule_format, of 1] that(2) [rule_format, of 2] that(2) [rule_format, of 3]
      that(2) [rule_format, of 4] that(2) [rule_format, of 5] that(2) [rule_format, of 6]
    by (simp add: switch_save_def push_def Let_def assms(1))
qed

text \<open>
  (C19:switch_roundtrip) A thread that has been switched away from is resumed by a later switch to it, in whatever state the processor is then, exactly where it was: with its registers, flags (and so its
  interrupt state), page directory and stack, at the return address of its call. It is enough that its save area and the eight words at the top of its stack have been left alone.
\<close>

theorem switch_roundtrip:
  assumes "words s (esp s + 4) = area" "\<forall>k<8. area \<noteq> esp s - 28 + 4 * of_nat k"
    and "words t (esp t + 8) = area"
    and "words (switch_save t) area = words (switch_save s) area"
    and "\<forall>k<8. words (switch_save t) (esp s - 28 + 4 * of_nat k) = words (switch_save s) (esp s - 28 + 4 * of_nat k)"
  shows "let r = context_switch t in
    ebx r = ebx s \<and> esi r = esi s \<and> edi r = edi s \<and> ebp r = ebp s \<and> esp r = esp s + 4 \<and> eflags r = eflags s \<and> cr2 r = cr2 s \<and> cr3 r = cr3 s \<and>
    eip r = words s (esp s) \<and> words r = words (switch_save t)"
proof -
  note f = switch_save_frame [OF assms(1,2)]
  have "saved_frame (words (switch_save t)) (words (switch_save t) area) = [eflags s, cr2 s, cr3 s, ebp s, edi s, esi s, ebx s, words s (esp s)]"
  proof -
    have "saved_frame (words (switch_save t)) (esp s - 28) = saved_frame (words (switch_save s)) (esp s - 28)"
      unfolding saved_frame_def using assms(5) by (intro map_cong) auto
    then show ?thesis using f(1,2) assms(4) by simp
  qed
  from switch_load_frame [OF this] show ?thesis using f(1) assms(3,4) by (simp add: context_switch_def Let_def)
qed


text \<open>The witness: thread \<open>A\<close> switches to \<open>B\<close>, which runs and switches back.\<close>

lemma slot_unat: "unat x + 32 < 2 ^ 32 \<Longrightarrow> k < 8 \<Longrightarrow> unat ((x :: u32) + 4 * of_nat k) = unat x + 4 * k"
proof -
  assume a: "unat x + 32 < 2 ^ 32" "k < 8"
  then have "unat (4 * of_nat k :: u32) = 4 * k" by (subst unat_times_no_wrap) simp_all
  then show ?thesis using a by (subst unat_plus_no_wrap) simp_all
qed

definition demo_A :: cpu where
  "demo_A = \<lparr>ebx = 1, esi = 2, edi = 3, ebp = 4, esp = 0x8000, cr2 = 5, cr3 = 0x1000, eflags = 0x202, eip = 0,
     words = (\<lambda>_. 0)(0x8000 := 0x100123, 0x8004 := 0x500, 0x8008 := 0x600)\<rparr>"

definition demo_B :: cpu where
  "demo_B = \<lparr>ebx = 7, esi = 7, edi = 7, ebp = 7, esp = 0x9000, cr2 = 7, cr3 = 0x2000, eflags = 0x2, eip = 0,
     words = (words (switch_save demo_A))(0x9000 := 0x100456, 0x9004 := 0x600, 0x9008 := 0x500)\<rparr>"

theorem switch_roundtrip_witness: "ebx (context_switch demo_B) = 1 \<and> eflags (context_switch demo_B) = 0x202 \<and> eip (context_switch demo_B) = 0x100123"
proof -
  have A: "words demo_A (esp demo_A + 4) = 0x500" "esp demo_A - 28 = 0x7FE4" and B: "words demo_B (esp demo_B + 8) = 0x500" "words demo_B (esp demo_B + 4) = 0x600" "esp demo_B - 28 = 0x8FE4"
    by (simp_all add: demo_A_def demo_B_def)
  have low: "unat (0x7FE4 + 4 * of_nat k :: u32) = 0x7FE4 + 4 * k" "unat (0x8FE4 + 4 * of_nat k :: u32) = 0x8FE4 + 4 * k" if "k < 8" for k
    using slot_unat [of "0x7FE4" k] slot_unat [of "0x8FE4" k] that by simp_all
  have nA: "\<forall>k<8. 0x500 \<noteq> esp demo_A - 28 + 4 * of_nat k" and nB: "\<forall>k<8. 0x600 \<noteq> esp demo_B - 28 + 4 * of_nat k"
    unfolding A B by (auto simp: word_unat_eq_iff low)
  have same: "words (switch_save demo_B) a = words (switch_save demo_A) a" if a: "unat a < 0x8004" "a \<noteq> 0x600" for a
  proof -
    have "a \<noteq> 0x8FE4 + 4 * of_nat k" if "k < 7" for k using a(1) low(2) [of k] that by auto
    then have "words (switch_save demo_B) a = words demo_B a" by (intro switch_save_frame(3) [OF B(2) nB a(2)]) (simp add: B)
    also have "\<dots> = words (switch_save demo_A) a" using a(1) by (auto simp: demo_B_def)
    finally show ?thesis .
  qed
  have "\<forall>k<8. words (switch_save demo_B) (esp demo_A - 28 + 4 * of_nat k) = words (switch_save demo_A) (esp demo_A - 28 + 4 * of_nat k)"
    unfolding A by (intro allI impI same) (auto simp: word_unat_eq_iff low)
  then show ?thesis
    using switch_roundtrip [OF A(1) nA B(1) same [of "0x500"]] by (simp add: Let_def) (simp add: demo_A_def)
qed

text \<open>
  (new_thread_starts) The first switch to a new thread enters \<open>thread_entry\<close> with interrupts enabled, which its first assertion asks for, with the page directory of the thread and an empty stack; and an
  interrupt that comes from the thread's user program uses this stack from below the return address.
\<close>

theorem new_thread_starts:
  assumes "words t (esp t + 8) = area" "\<forall>i<2048. area \<noteq> stack_slot stack i"
    and "\<forall>a \<in> insert area (stack_slot stack ` {2040 ..< 2048}). words (switch_save t) a = TCBWithWork_stack stack area thread_entry pd m a"
  shows "let r = context_switch t in
    eip r = thread_entry \<and> \<not> isDisabled (eflags r) \<and> cr3 r = pd \<and> esp r = stack_slot stack 2048 \<and> interruptEsp stack = esp r - 4 \<and> words r = words (switch_save t)"
proof -
  let ?m = "TCBWithWork_stack stack area thread_entry pd m"
  have sl: "stack_slot stack i \<noteq> area" if "i < 2048" for i using assms(2) that by auto
  have e: "?m = (m(stack_slot stack 2047 := thread_entry, stack_slot stack 2046 := 0, stack_slot stack 2045 := 0, stack_slot stack 2044 := 0,
      stack_slot stack 2043 := 0, stack_slot stack 2042 := pd, stack_slot stack 2041 := 0, stack_slot stack 2040 := 0x200, area := stack_slot stack 2040))"
    by (simp add: TCBWithWork_stack_def tcb_push_def STACK_WORDS_def Let_def)
  have w: "words (switch_save t) area = stack_slot stack 2040" using assms(3) by (simp add: e)
  have "saved_frame (words (switch_save t)) (stack_slot stack 2040) = map (\<lambda>k. ?m (stack_slot stack (2040 + k))) [0 ..< 8]"
  proof -
    have "stack_slot stack 2040 + 4 * of_nat k = stack_slot stack (2040 + k)" for k by (simp add: stack_slot_def algebra_simps)
    moreover have "words (switch_save t) (stack_slot stack (2040 + k)) = ?m (stack_slot stack (2040 + k))" if "k < 8" for k
      using assms(3) that by auto
    ultimately show ?thesis unfolding saved_frame_def by (intro map_cong) auto
  qed
  also have "\<dots> = [0x200, 0, pd, 0, 0, 0, 0, thread_entry]"
    by (simp add: upt_rec e sl)
  finally have "saved_frame (words (switch_save t)) (words (switch_save t) area) = [0x200, 0, pd, 0, 0, 0, 0, thread_entry]" unfolding w .
  from switch_load_frame [OF this] show ?thesis
    by (simp add: context_switch_def assms(1) w Let_def isDisabled_def stack_slot_def interruptEsp_def STACK_WORDS_def)
qed


definition demo_C :: cpu where
  "demo_C = demo_A\<lparr>words := (TCBWithWork_stack 0x10000 0x600 0x100789 0x3000 (words demo_A))\<rparr>"

theorem new_thread_starts_witness: "eip (context_switch demo_C) = 0x100789 \<and> cr3 (context_switch demo_C) = 0x3000"
proof -
  have u: "unat (stack_slot 0x10000 i) = 0x10000 + 4 * i" if "i < 2048" for i
  proof -
    have "unat (4 * of_nat i :: u32) = 4 * i" using that by (subst unat_times_no_wrap) simp_all
    then show ?thesis unfolding stack_slot_def using that by (subst unat_plus_no_wrap) simp_all
  qed
  then have s: "\<forall>i<2048. 0x600 \<noteq> stack_slot 0x10000 i" by (auto simp: word_unat_eq_iff)
  have C: "words demo_C (esp demo_C + 4) = 0x500" "words demo_C (esp demo_C + 8) = 0x600" "esp demo_C - 28 = 0x7FE4"
    by (simp_all add: demo_C_def demo_A_def TCBWithWork_stack_def tcb_push_def STACK_WORDS_def stack_slot_def Let_def)
  have low: "unat (0x7FE4 + 4 * of_nat k :: u32) = 0x7FE4 + 4 * k" if "k < 8" for k using slot_unat [of "0x7FE4" k] that by simp
  have n: "\<forall>k<8. 0x500 \<noteq> esp demo_C - 28 + 4 * of_nat k" unfolding C by (auto simp: word_unat_eq_iff low)
  have "words (switch_save demo_C) a = TCBWithWork_stack 0x10000 0x600 0x100789 0x3000 (words demo_A) a"
    if a: "a \<in> insert 0x600 (stack_slot 0x10000 ` {2040 ..< 2048})" for a
  proof -
    have r: "unat a = 0x600 \<or> 0x10000 \<le> unat a" using a u by auto
    then have "a \<noteq> 0x500" "a \<noteq> 0x7FE4 + 4 * of_nat k" if "k < 7" for k using low [of k] that by (auto simp: word_unat_eq_iff)
    then have "words (switch_save demo_C) a = words demo_C a" using r by (intro switch_save_frame(3) [OF C(1) n]) (auto simp: C)
    then show ?thesis by (simp add: demo_C_def)
  qed
  then have "\<forall>a \<in> insert 0x600 (stack_slot 0x10000 ` {2040 ..< 2048}).
      words (switch_save demo_C) a = TCBWithWork_stack 0x10000 0x600 0x100789 0x3000 (words demo_A) a" by blast
  from new_thread_starts [OF C(2) s this] show ?thesis by (simp add: Let_def)
qed

end
