(* ===== verification/KString.thy ===== *)
theory KString
  imports Prelude
begin

text \<open>
  The strings of \<open>kernel/utils.h\<close>: immutable representations (\<open>StringImpl\<close> and its subclasses) that share their parts, and
  the operations of \<open>String\<close> that build them. A representation is never changed and lives as long as someone
  points to it, so it is a value. \<open>length\<close> is a constant member, computed in the constructor with the
  wrap-around of \<open>size_t\<close>; \<open>si_length\<close> computes the same number. \<open>content\<close> is the text that a representation stands for.
  What \<open>malloc\<close> answers is the parameter \<open>ok\<close> of the operations that copy characters.
\<close>

section \<open>Representations\<close>

datatype string_impl =
    EmptyString
  | Simple u32 "string option"
  | Concat string_impl string_impl
  | Replace string_impl char char
  | Slice string_impl u32 u32

fun si_length :: "string_impl \<Rightarrow> u32" where
  "si_length EmptyString = 0"
| "si_length (Simple n b) = n"
| "si_length (Concat l r) = si_length l + si_length r"
| "si_length (Replace b from to) = si_length b"
| "si_length (Slice b from to) = to - from + 1"

fun si_at :: "string_impl \<Rightarrow> u32 \<Rightarrow> char res" where
  "si_at EmptyString i = Inl (Panic ''EmptyString::at'')"
| "si_at (Simple n b) i =
     bindR (assertR (i < n) ''index < length'') (\<lambda>_.
       case b of Some cs \<Rightarrow> if unat i < length cs then Inr (cs ! unat i) else Inl (Undef ''buffer'')
               | None \<Rightarrow> Inl (Undef ''null buffer''))"
| "si_at (Concat l r) i =
     bindR (assertR (i < si_length (Concat l r)) ''index < length'') (\<lambda>_.
       if i < si_length l then si_at l i else si_at r (i - si_length l))"
| "si_at (Replace b from to) i =
     bindR (assertR (i < si_length b) ''index < length'') (\<lambda>_.
       bindR (si_at b i) (\<lambda>ch. Inr (if ch = from then to else ch)))"
| "si_at (Slice b from to) i =
     bindR (assertR (i < to - from + 1) ''index < length'') (\<lambda>_. si_at b (i + from))"

text \<open>\<open>dup\<close> copies \<open>len\<close> characters of what \<open>from\<close> points to.\<close>

definition dup :: "bool \<Rightarrow> string \<Rightarrow> u32 \<Rightarrow> string option res" where
  "dup ok from len =
     (if len \<noteq> 0 then
        bindR (assertR ok ''p != nullptr'') (\<lambda>_.
          if unat len \<le> length from then Inr (Some (take (unat len) from)) else Inl (Undef ''memcpy''))
      else Inr None)"

definition simple_new :: "bool \<Rightarrow> string \<Rightarrow> u32 \<Rightarrow> string_impl res" where
  "simple_new ok cs len = mapR (Simple len) (dup ok cs len)"

definition slice_new :: "string_impl \<Rightarrow> u32 \<Rightarrow> u32 \<Rightarrow> string_impl res" where
  "slice_new b from to =
     bindR (assertR (to - from + 1 \<le> si_length b) ''length <= base->length'') (\<lambda>_.
     bindR (assertR (from \<le> si_length b) ''from <= base->length'') (\<lambda>_.
     bindR (assertR (to \<le> si_length b) ''to <= base->length'') (\<lambda>_. Inr (Slice b from to))))"

text \<open>The loop of \<open>toC\<close> from index \<open>i\<close> on, \<open>n\<close> steps before the end, and the buffers of \<open>buffer.h\<close>, whose constructor clears them and asserts that they are not empty.\<close>

fun toC_loop :: "nat \<Rightarrow> string_impl \<Rightarrow> u32 \<Rightarrow> string \<Rightarrow> string res" where
  "toC_loop 0 s i d = Inr d"
| "toC_loop (Suc n) s i d =
     bindR (si_at s i) (\<lambda>c. if unat i < length d then toC_loop n s (i + 1) (d[unat i := c]) else Inl (Undef ''buffer''))"

definition buffer_new :: "u32 \<Rightarrow> string res" where
  "buffer_new size' = bindR (assertR (size' \<noteq> 0) ''data != nullptr'') (\<lambda>_. Inr (replicate (unat size') (CHR 0x00)))"

definition toC :: "string_impl \<Rightarrow> string res" where
  "toC s =
     bindR (buffer_new (si_length s + 1)) (\<lambda>buffer.
     bindR (toC_loop (unat (si_length s)) s 0 buffer) (\<lambda>d.
       Inr (d[unat (si_length s) := CHR 0x00])))"

section \<open>Operations of \<open>String\<close>\<close>

definition str_empty :: string_impl where
  "str_empty = EmptyString"

text \<open>\<open>cs\<close> is the text before the terminating NUL, which \<open>strlen\<close> counts.\<close>

definition str_of_C :: "bool \<Rightarrow> string \<Rightarrow> string_impl res" where
  "str_of_C ok cs = simple_new ok cs (of_nat (length cs))"

definition str_plus :: "string_impl \<Rightarrow> string_impl \<Rightarrow> string_impl" where
  "str_plus s t = (if si_length s = 0 then t else if si_length t = 0 then s else Concat s t)"

definition str_plus_C :: "bool \<Rightarrow> string_impl \<Rightarrow> string \<Rightarrow> string_impl res" where
  "str_plus_C ok s cs = bindR (str_of_C ok cs) (\<lambda>t. Inr (str_plus s t))"

definition str_replace :: "string_impl \<Rightarrow> char \<Rightarrow> char \<Rightarrow> string_impl" where
  "str_replace s from to = (if from = to then s else Replace s from to)"

definition str_slice :: "string_impl \<Rightarrow> u32 \<Rightarrow> u32 \<Rightarrow> string_impl res" where
  "str_slice s from to =
     (if from = 0 \<and> to = si_length s - 1 then Inr s
      else if from > to then simple_new True '''' 0
      else slice_new s from to)"

text \<open>The loops of \<open>drop_while\<close> and \<open>keep_while\<close>, \<open>n\<close> steps before the end.\<close>

fun drop_loop :: "nat \<Rightarrow> (char \<Rightarrow> bool) \<Rightarrow> string_impl \<Rightarrow> u32 \<Rightarrow> string_impl res" where
  "drop_loop 0 work s i = Inr EmptyString"
| "drop_loop (Suc n) work s i =
     bindR (si_at s i) (\<lambda>ch. if \<not> work ch then str_slice s i (si_length s - 1) else drop_loop n work s (i + 1))"

definition str_drop_while :: "(char \<Rightarrow> bool) \<Rightarrow> string_impl \<Rightarrow> string_impl res" where
  "str_drop_while work s = drop_loop (unat (si_length s)) work s 0"

fun keep_loop :: "nat \<Rightarrow> (char \<Rightarrow> bool) \<Rightarrow> string_impl \<Rightarrow> u32 \<Rightarrow> string_impl res" where
  "keep_loop 0 work s i = Inr s"
| "keep_loop (Suc n) work s i =
     bindR (si_at s i) (\<lambda>ch.
       if \<not> work ch then (if i = 0 then Inr EmptyString else str_slice s 0 (i - 1)) else keep_loop n work s (i + 1))"

definition str_keep_while :: "(char \<Rightarrow> bool) \<Rightarrow> string_impl \<Rightarrow> string_impl res" where
  "str_keep_while work s = keep_loop (unat (si_length s)) work s 0"

definition str_starts_with :: "string_impl \<Rightarrow> char \<Rightarrow> bool res" where
  "str_starts_with s c = (if si_length s > 0 then mapR (\<lambda>ch. ch = c) (si_at s 0) else Inr False)"

section \<open>Well-formed representations\<close>

fun content :: "string_impl \<Rightarrow> string" where
  "content EmptyString = []"
| "content (Simple n b) = (case b of None \<Rightarrow> [] | Some cs \<Rightarrow> cs)"
| "content (Concat l r) = content l @ content r"
| "content (Replace b from to) = map (\<lambda>c. if c = from then to else c) (content b)"
| "content (Slice b from to) = take (unat to + 1 - unat from) (drop (unat from) (content b))"

fun wf_string :: "string_impl \<Rightarrow> bool" where
  "wf_string EmptyString \<longleftrightarrow> True"
| "wf_string (Simple n b) \<longleftrightarrow> (case b of None \<Rightarrow> n = 0 | Some cs \<Rightarrow> length cs = unat n \<and> n \<noteq> 0)"
| "wf_string (Concat l r) \<longleftrightarrow> wf_string l \<and> wf_string r \<and> unat (si_length l) + unat (si_length r) < 2 ^ 32"
| "wf_string (Replace b from to) \<longleftrightarrow> wf_string b"
| "wf_string (Slice b from to) \<longleftrightarrow> wf_string b \<and> from \<le> to \<and> to < si_length b"

lemma slice_length: "from \<le> to \<Longrightarrow> to < (n :: u32) \<Longrightarrow> unat (to - from + 1) = unat to - unat from + 1"
proof -
  assume a: "from \<le> to" "to < n"
  have "unat to - unat from + 1 < 2 ^ 32"
    using a(2) unat_u32_less [of n] by (simp add: word_less_nat_alt del: unat_u32_less)
  then show ?thesis using a(1) by (subst unat_plus_no_wrap) (simp_all add: unat_minus_no_wrap)
qed

lemma wf_length: "wf_string s \<Longrightarrow> length (content s) = unat (si_length s)"
proof (induction s)
  case (Concat l r)
  then show ?case by (simp add: unat_plus_no_wrap)
next
  case (Slice b f t)
  then have "unat (t - f + 1) = unat t - unat f + 1" by (intro slice_length [of f t "si_length b"]) simp_all
  then show ?case using Slice by (auto simp: word_less_nat_alt word_le_nat_alt)
qed (auto split: option.splits)

text \<open>\<open>at\<close> reads the content and fails beyond its end.\<close>

lemma si_at_content: "wf_string s \<Longrightarrow> i < si_length s \<Longrightarrow> si_at s i = Inr (content s ! unat i)"
proof (induction s arbitrary: i)
  case (Simple n b)
  then show ?case by (auto simp: bindR_assertR word_less_nat_alt split: option.splits)
next
  case (Concat l r)
  have s: "unat (si_length l + si_length r) = unat (si_length l) + unat (si_length r)"
    using Concat.prems(1) by (simp add: unat_plus_no_wrap)
  show ?case
  proof (cases "i < si_length l")
    case True
    then show ?thesis using Concat wf_length [of l] by (simp add: nth_append word_less_nat_alt)
  next
    case False
    then have d: "unat (i - si_length l) = unat i - unat (si_length l)" by (intro unat_minus_no_wrap) simp
    then have "i - si_length l < si_length r" using Concat.prems s False by (simp add: word_less_nat_alt)
    then show ?thesis using Concat d False wf_length [of l] by (simp add: nth_append word_less_nat_alt)
  qed
next
  case (Replace b c c')
  then show ?case using wf_length [of b] by (simp add: word_less_nat_alt)
next
  case (Slice b f t)
  have l: "unat (t - f + 1) = unat t - unat f + 1" using Slice.prems(1) by (intro slice_length [of f t "si_length b"]) simp_all
  have i: "unat i \<le> unat t - unat f" using Slice.prems(2) l by (simp add: word_less_nat_alt)
  have tt: "unat f \<le> unat t" "unat t < unat (si_length b)" using Slice.prems(1) by (simp_all add: word_less_nat_alt word_le_nat_alt)
  have s: "unat (i + f) = unat i + unat f"
    using i tt unat_u32_less [of "si_length b"] by (intro unat_plus_no_wrap) linarith
  then have "i + f < si_length b" using i tt by (simp add: word_less_nat_alt)
  then have "si_at b (i + f) = Inr (content b ! unat (i + f))" using Slice by simp
  then show ?case using Slice.prems(2) i s tt wf_length [of b] Slice.prems(1) by (simp add: add.commute)
qed simp

lemma si_at_beyond: "\<not> i < si_length s \<Longrightarrow> \<exists>e. si_at s i = Inl e"
  by (cases s) (simp_all add: bindR_assertR)

section \<open>What the operations build\<close>

lemma Suc_no_wrap: "i < (n :: u32) \<Longrightarrow> unat (i + 1) = Suc (unat i)"
  using unat_u32_less [of n] by (subst unat_plus_no_wrap) (simp_all add: word_less_nat_alt del: unat_u32_less)

lemma index_less: "unat i + Suc n = unat (si_length s) \<Longrightarrow> i < si_length s"
  by (simp add: word_less_nat_alt)

text \<open>Both scanning loops keep \<open>unat i + n\<close> at the length.\<close>

lemma scan_step:
  assumes "wf_string s" "unat i + Suc n = unat (si_length s)"
  shows "si_at s i = Inr (content s ! unat i)" "unat (i + 1) = Suc (unat i)"
    "drop (unat i) (content s) = content s ! unat i # drop (unat (i + 1)) (content s)"
proof -
  have i: "i < si_length s" using assms(2) by (rule index_less)
  show at: "si_at s i = Inr (content s ! unat i)" using assms(1) i by (rule si_at_content)
  show s: "unat (i + 1) = Suc (unat i)" using i by (rule Suc_no_wrap)
  show "drop (unat i) (content s) = content s ! unat i # drop (unat (i + 1)) (content s)"
    using assms wf_length [of s] s by (simp add: Cons_nth_drop_Suc)
qed

lemma str_slice_content:
  assumes "wf_string s" "from' \<le> to'" "to' < si_length s"
  shows "\<exists>s'. str_slice s from' to' = Inr s' \<and> wf_string s' \<and>
    content s' = take (unat to' + 1 - unat from') (drop (unat from') (content s))"
proof (cases "from' = 0 \<and> to' = si_length s - 1")
  case True
  moreover have "unat (si_length s - 1) + 1 = unat (si_length s)"
    using assms(3) by (subst unat_minus_no_wrap) (auto simp: word_less_nat_alt word_le_nat_alt)
  ultimately show ?thesis using assms wf_length [of s] by (auto simp: str_slice_def)
next
  case False
  have "unat (to' - from' + 1) = unat to' - unat from' + 1" using assms by (intro slice_length [of from' to' "si_length s"])
  then have "to' - from' + 1 \<le> si_length s" "from' \<le> si_length s" "to' \<le> si_length s"
    using assms by (simp_all add: word_less_nat_alt word_le_nat_alt)
  then have "str_slice s from' to' = Inr (Slice s from' to')"
    using False assms(2) by (auto simp: str_slice_def slice_new_def not_less)
  then show ?thesis using assms by simp
qed

lemma drop_loop_content:
  "wf_string s \<Longrightarrow> unat i + n = unat (si_length s) \<Longrightarrow>
    \<exists>s'. drop_loop n work s i = Inr s' \<and> wf_string s' \<and> content s' = dropWhile work (drop (unat i) (content s))"
proof (induction n arbitrary: i)
  case 0
  then show ?case using wf_length [of s] by simp
next
  case (Suc n)
  note st = scan_step [OF Suc.prems]
  show ?case
  proof (cases "work (content s ! unat i)")
    case True
    have "unat (i + 1) + n = unat (si_length s)" using Suc.prems(2) st(2) by simp
    then show ?thesis using Suc.IH [of "i + 1"] Suc.prems(1) st True by simp
  next
    case False
    have i: "i < si_length s" using Suc.prems(2) by (rule index_less)
    then have l: "unat (si_length s - 1) = unat (si_length s) - 1"
      by (subst unat_minus_no_wrap) (auto simp: word_less_nat_alt word_le_nat_alt)
    then have "i \<le> si_length s - 1" "si_length s - 1 < si_length s"
      using i by (simp_all add: word_less_nat_alt word_le_nat_alt)
    from str_slice_content [OF Suc.prems(1) this] obtain s' where s': "str_slice s i (si_length s - 1) = Inr s'" "wf_string s'"
        "content s' = take (unat (si_length s - 1) + 1 - unat i) (drop (unat i) (content s))" by blast
    moreover have "content s' = drop (unat i) (content s)" using s'(3) l wf_length [OF Suc.prems(1)] Suc.prems(2) by simp
    moreover have "dropWhile work (drop (unat i) (content s)) = drop (unat i) (content s)"
      using st(3) False by simp
    ultimately show ?thesis using st(1) False by simp
  qed
qed

lemma keep_loop_content:
  "wf_string s \<Longrightarrow> unat i + n = unat (si_length s) \<Longrightarrow> \<forall>c \<in> set (take (unat i) (content s)). work c \<Longrightarrow>
    \<exists>s'. keep_loop n work s i = Inr s' \<and> wf_string s' \<and> content s' = takeWhile work (content s)"
proof (induction n arbitrary: i)
  case 0
  then show ?case using wf_length [of s] by (simp add: takeWhile_eq_all_conv [THEN iffD2])
next
  case (Suc n)
  note st = scan_step [OF Suc.prems(1,2)]
  have i: "i < si_length s" using Suc.prems(2) by (rule index_less)
  show ?case
  proof (cases "work (content s ! unat i)")
    case True
    have "unat i < length (content s)" using i wf_length [OF Suc.prems(1)] by (simp add: word_less_nat_alt)
    then have "\<forall>c \<in> set (take (unat (i + 1)) (content s)). work c"
      using Suc.prems(3) True st(2) by (auto simp: take_Suc_conv_app_nth)
    moreover have "unat (i + 1) + n = unat (si_length s)" using Suc.prems(2) st(2) by simp
    ultimately show ?thesis using Suc.IH [of "i + 1"] Suc.prems(1) st True by simp
  next
    case False
    have t: "takeWhile work (content s) = take (unat i) (content s)"
    proof -
      have "content s = take (unat i) (content s) @ content s ! unat i # drop (unat (i + 1)) (content s)"
        using st(3) append_take_drop_id [of "unat i" "content s"] by simp
      then show ?thesis using Suc.prems(3) False by (metis takeWhile_append2 takeWhile.simps(2) append_Nil2)
    qed
    show ?thesis
    proof (cases "i = 0")
      case True
      then show ?thesis using st(1) False t by simp
    next
      case nz: False
      then have l: "unat (i - 1) = unat i - 1" "0 < unat i"
        by (simp_all add: unat_minus_one unat_gt_0)
      then have "(0 :: u32) \<le> i - 1" "i - 1 < si_length s" using i by (simp_all add: word_less_nat_alt)
      from str_slice_content [OF Suc.prems(1) this] obtain s' where "str_slice s 0 (i - 1) = Inr s'" "wf_string s'"
          "content s' = take (unat (i - 1) + 1 - unat (0 :: u32)) (drop (unat (0 :: u32)) (content s))" by blast
      then show ?thesis using st(1) False nz t l by simp
    qed
  qed
qed

lemma toC_loop_content:
  "wf_string s \<Longrightarrow> unat i + n = unat (si_length s) \<Longrightarrow> length d = Suc (unat (si_length s)) \<Longrightarrow> take (unat i) d = take (unat i) (content s) \<Longrightarrow>
    \<exists>d'. toC_loop n s i d = Inr d' \<and> length d' = length d \<and> take (unat (si_length s)) d' = content s"
proof (induction n arbitrary: i d)
  case 0
  then show ?case using wf_length [of s] by simp
next
  case (Suc n)
  note st = scan_step [OF Suc.prems(1,2)]
  let ?d = "d[unat i := content s ! unat i]"
  have l: "unat i < length d" "unat i < length (content s)" using Suc.prems(2,3) wf_length [OF Suc.prems(1)] by simp_all
  have "take (unat (i + 1)) ?d = take (unat (i + 1)) (content s)"
    using Suc.prems(4) l st(2) by (simp add: take_Suc_conv_app_nth)
  then have "\<exists>d'. toC_loop n s (i + 1) ?d = Inr d' \<and> length d' = length ?d \<and> take (unat (si_length s)) d' = content s"
    using Suc.prems st(2) by (intro Suc.IH) simp_all
  then show ?case using st(1) l by simp
qed

text \<open>(C40:string_content) A string answers for its content whatever its representation is: \<open>length\<close> is the number of its
  characters, \<open>at\<close> gives them and fails beyond the end, \<open>toC\<close> gives all of them with a terminating NUL if there is room for
  it, and every operation gives a well-formed representation of the text it promises: concatenation, replacement, the characters
  from one index to another, and the parts that \<open>dropWhile\<close> and \<open>takeWhile\<close> define.\<close>

theorem string_content:
  assumes "wf_string s"
  shows "length (content s) = unat (si_length s) \<and>
    (\<forall>i. if i < si_length s then si_at s i = Inr (content s ! unat i) else (\<exists>e. si_at s i = Inl e)) \<and>
    (si_length s \<noteq> - 1 \<longrightarrow> toC s = Inr (content s @ [CHR 0x00])) \<and>
    (\<forall>t. wf_string t \<longrightarrow> length (content s @ content t) < 2 ^ 32 \<longrightarrow>
      wf_string (str_plus s t) \<and> content (str_plus s t) = content s @ content t) \<and>
    (\<forall>a b. wf_string (str_replace s a b) \<and> content (str_replace s a b) = map (\<lambda>c. if c = a then b else c) (content s)) \<and>
    (\<forall>a b. a \<le> b \<longrightarrow> b < si_length s \<longrightarrow> (\<exists>s'. str_slice s a b = Inr s' \<and> wf_string s' \<and>
      content s' = take (unat b + 1 - unat a) (drop (unat a) (content s)))) \<and>
    (\<forall>p. \<exists>s'. str_drop_while p s = Inr s' \<and> wf_string s' \<and> content s' = dropWhile p (content s)) \<and>
    (\<forall>p. \<exists>s'. str_keep_while p s = Inr s' \<and> wf_string s' \<and> content s' = takeWhile p (content s))"
proof (intro conjI allI impI)
  note l = wf_length [OF assms]
  show "length (content s) = unat (si_length s)" by (fact l)
  show "if i < si_length s then si_at s i = Inr (content s ! unat i) else (\<exists>e. si_at s i = Inl e)" for i
    using si_at_content [OF assms, of i] si_at_beyond [of i s] by simp
  show "toC s = Inr (content s @ [CHR 0x00])" if "si_length s \<noteq> - 1"
  proof -
    have "si_length s + 1 \<noteq> 0" using that by (simp add: eq_neg_iff_add_eq_0)
    moreover from this have z: "unat (si_length s + 1) = Suc (unat (si_length s))" using unatSuc [of "si_length s"] by (simp add: add.commute)
    moreover obtain d' where d: "toC_loop (unat (si_length s)) s 0 (replicate (unat (si_length s + 1)) (CHR 0x00)) = Inr d'"
        "length d' = Suc (unat (si_length s))" "take (unat (si_length s)) d' = content s"
      using toC_loop_content [OF assms, of 0 "unat (si_length s)" "replicate (unat (si_length s + 1)) (CHR 0x00)"] z by auto
    moreover have "d'[unat (si_length s) := CHR 0x00] = content s @ [CHR 0x00]"
      using d(2,3) by (simp add: upd_conv_take_nth_drop)
    ultimately show ?thesis by (simp add: toC_def buffer_new_def)
  qed
  show "wf_string (str_plus s t)" "content (str_plus s t) = content s @ content t"
    if "wf_string t" "length (content s @ content t) < 2 ^ 32" for t
    using assms that l wf_length [OF that(1)] by (auto simp: str_plus_def)
  show "wf_string (str_replace s a b)" "content (str_replace s a b) = map (\<lambda>c. if c = a then b else c) (content s)" for a b
    using assms by (simp_all add: str_replace_def map_idI)
  show "\<exists>s'. str_slice s a b = Inr s' \<and> wf_string s' \<and> content s' = take (unat b + 1 - unat a) (drop (unat a) (content s))"
    if "a \<le> b" "b < si_length s" for a b using assms that by (rule str_slice_content)
  show "\<exists>s'. str_drop_while p s = Inr s' \<and> wf_string s' \<and> content s' = dropWhile p (content s)" for p
    using drop_loop_content [OF assms, of 0 _ p] by (simp add: str_drop_while_def)
  show "\<exists>s'. str_keep_while p s = Inr s' \<and> wf_string s' \<and> content s' = takeWhile p (content s)" for p
    using keep_loop_content [OF assms, of 0 _ p] by (simp add: str_keep_while_def)
qed

theorem string_content_witness:
  "toC (Concat (Simple 2 (Some ''ab'')) (Slice (Simple 3 (Some ''xyz'')) 1 2)) = Inr (''abyz'' @ [CHR 0x00])"
proof -
  let ?s = "Concat (Simple 2 (Some ''ab'')) (Slice (Simple 3 (Some ''xyz'')) 1 2)"
  have "wf_string ?s" "content ?s = ''abyz''" "si_length ?s \<noteq> - 1" by simp_all
  then show ?thesis using string_content [of ?s] by metis
qed

text \<open>(slice_end_unchecked) The assertions of \<open>Slice\<close> let the last index be the length itself. Such a slice has one character more than the text behind
  its first index, and reading that character fails.\<close>

theorem slice_end_unchecked:
  assumes "wf_string s" "0 < a" "a \<le> si_length s"
  shows "\<exists>s'. str_slice s a (si_length s) = Inr s' \<and> unat (si_length s') = length (drop (unat a) (content s)) + 1 \<and>
    (\<exists>e. si_at s' (si_length s - a) = Inl e)"
proof -
  have a: "unat a \<le> unat (si_length s)" "0 < unat a" using assms(2,3) by (simp_all add: word_le_nat_alt word_less_nat_alt)
  have d: "unat (si_length s - a) = unat (si_length s) - unat a" using assms(3) by (rule unat_minus_no_wrap)
  have l: "unat (si_length s - a + 1) = unat (si_length s) - unat a + 1"
    using a unat_u32_less [of "si_length s"] d by (subst unat_plus_no_wrap) (simp_all del: unat_u32_less)
  have "si_length s - a + 1 \<le> si_length s" using a l by (simp add: word_le_nat_alt)
  then have "str_slice s a (si_length s) = Inr (Slice s a (si_length s))"
    using assms(2,3) by (auto simp: str_slice_def slice_new_def not_less)
  moreover have "\<exists>e. si_at (Slice s a (si_length s)) (si_length s - a) = Inl e"
    using si_at_beyond [of "si_length s - a + a" s] by (simp add: bindR_assertR)
  ultimately show ?thesis using l wf_length [OF assms(1)] by simp
qed

theorem slice_end_unchecked_witness:
  "\<exists>s'. str_slice (Simple 2 (Some ''ab'')) 1 2 = Inr s' \<and> (\<exists>e. si_at s' 1 = Inl e)"
  using slice_end_unchecked [of "Simple 2 (Some ''ab'')" 1] by auto

end
