(* ===== verification/Loader.thy ===== *)
theory Loader
  imports VMM Ext2Find
begin

text \<open>
  Programs: the loader of \<open>kernel/elf.cc\<close> and the arguments that \<open>load_args\<close> of \<open>kernel/kernel.cc\<close> puts on the user stack.

  The memory of a process is a function from addresses to bytes. It stands for what the page directory of the process and the
  page fault handler give: a page that has not been touched reads as its area says, zero for an area without a
  file. Pages are therefore never missing here; what the handler does is the subject of \<open>VMM\<close>.
  A structure that is read from a file is decoded from its bytes, as in \<open>Ext2\<close>.
\<close>

section \<open>Memory of a process\<close>

type_synonym memory = "u32 \<Rightarrow> u8"

definition mem_write :: "memory \<Rightarrow> u32 \<Rightarrow> u8 list \<Rightarrow> memory" where
  "mem_write um a bs = (\<lambda>x. if unat (x - a) < length bs then bs ! unat (x - a) else um x)"

definition mem_bzero :: "memory \<Rightarrow> u32 \<Rightarrow> u32 \<Rightarrow> memory" where
  "mem_bzero um a n = (\<lambda>x. if x - a < n then 0 else um x)"

definition mem_store :: "memory \<Rightarrow> u32 \<Rightarrow> u32 \<Rightarrow> memory" where
  "mem_store um a w = mem_write um a (word_bytes w)"

definition mem_bytes :: "memory \<Rightarrow> u32 \<Rightarrow> nat \<Rightarrow> u8 list" where
  "mem_bytes um a n = map (\<lambda>i. um (a + of_nat i)) [0 ..< n]"

definition mem_load :: "memory \<Rightarrow> u32 \<Rightarrow> u32" where
  "mem_load um a = le32 (mem_bytes um a 4)"

text \<open>The characters before the NUL, as \<open>strlen\<close> and \<open>Path\<close> read them, with a bound.\<close>

fun mem_string :: "nat \<Rightarrow> memory \<Rightarrow> u32 \<Rightarrow> u8 list res" where
  "mem_string n um a =
     (if um a = 0 then Inr []
      else case n of 0 \<Rightarrow> Inl NoFuel | Suc n' \<Rightarrow> bindR (mem_string n' um (a + 1)) (\<lambda>r. Inr (um a # r)))"

declare mem_string.simps [simp del]

section \<open>The loader\<close>

record elf_header =
  magic :: "u8 list"
  entry :: u32
  phoff :: u32
  phentsize :: u16
  phnum :: u16

definition elf_header_of :: "u8 list \<Rightarrow> elf_header" where
  "elf_header_of bs = \<lparr>magic = take 4 bs, entry = u32_at bs 24, phoff = u32_at bs 28, phentsize = u16_at bs 42, phnum = u16_at bs 44\<rparr>"

definition sizeof_elf_header :: u32 where "sizeof_elf_header = 52"

record program_header =
  ph_type :: u32
  ph_offset :: u32
  vaddr :: u32
  filesz :: u32
  memsz :: u32

definition program_header_of :: "u8 list \<Rightarrow> program_header" where
  "program_header_of bs =
     \<lparr>ph_type = u32_at bs 0, ph_offset = u32_at bs 4, vaddr = u32_at bs 8, filesz = u32_at bs 16, memsz = u32_at bs 20\<rparr>"

definition sizeof_program_header :: u32 where "sizeof_program_header = 32"

text \<open>What happens to one header: the areas are made private to the process, and the bytes of the file are followed by zeros.\<close>

definition load_segment :: "'s blockio \<Rightarrow> program_header \<Rightarrow> vme \<Rightarrow> memory \<Rightarrow> 's \<Rightarrow> ((vme \<times> memory) \<times> 's) res" where
  "load_segment file phdr v um s =
     (if ph_type phdr = 1 then
        let p = vaddr phdr in
        if p < 0x80000000 \<or> p + memsz phdr \<ge> 0xf0000000 then Inl (Panic ''ELF P IN UNVALID SECTION'')
        else
          let v1 = (if p > 0x80000000 then snd (add_entry v (p - 0x80000000) 0 0 False) else v);
              v2 = snd (add_entry v1 (memsz phdr) 0 0 False) in
          bindR (bio_read_all file (ph_offset phdr) (filesz phdr) s) (\<lambda>((cnt', bytes), s1).
            Inr ((v2, mem_bzero (mem_write um p bytes) (p + filesz phdr) (memsz phdr - filesz phdr)), s1))
      else Inr ((v, um), s))"

text \<open>The loop over the headers, \<open>n\<close> of them left.\<close>

fun load_loop :: "nat \<Rightarrow> 's blockio \<Rightarrow> u32 \<Rightarrow> u16 \<Rightarrow> vme \<Rightarrow> memory \<Rightarrow> 's \<Rightarrow> ((vme \<times> memory) \<times> 's) res" where
  "load_loop 0 file hoff entsize v um s = Inr ((v, um), s)"
| "load_loop (Suc n) file hoff entsize v um s =
     bindR (bio_read_bytes file hoff sizeof_program_header s) (\<lambda>(bs, s1).
     bindR (load_segment file (program_header_of bs) v um s1) (\<lambda>((v1, um1), s2).
       load_loop n file (hoff + ucast entsize) entsize v1 um1 s2))"

definition elf_load :: "'s blockio \<Rightarrow> vme \<Rightarrow> memory \<Rightarrow> 's \<Rightarrow> ((u32 \<times> vme \<times> memory) \<times> 's) res" where
  "elf_load file v um s =
     bindR (bio_read_bytes file 0 sizeof_elf_header s) (\<lambda>(bs, s1).
     let hdr = elf_header_of bs in
     if magic hdr \<noteq> [0x7f, 0x45, 0x4c, 0x46] then Inl (Panic ''ELF NOT VALID'')
     else
       bindR (load_loop (unat (phnum hdr)) file (phoff hdr) (phentsize hdr) v um s1) (\<lambda>((v1, um1), s2).
         Inr ((entry hdr, v1, um1), s2)))"

section \<open>Arguments\<close>

definition arg_bytes :: "string \<Rightarrow> u8 list" where
  "arg_bytes a = str_bytes a @ [0]"

definition args_sum :: "string list \<Rightarrow> u32" where
  "args_sum argv = sum_list (map (\<lambda>a. of_nat (length (arg_bytes a))) argv)"

text \<open>The loop over the arguments from the \<open>i\<close>-th on.\<close>

fun args_loop :: "u32 \<Rightarrow> u32 \<Rightarrow> u32 \<Rightarrow> string list \<Rightarrow> memory \<Rightarrow> memory" where
  "args_loop esp i nx [] um = um"
| "args_loop esp i nx (a # argv) um =
     (let um1 = mem_store um (esp + 4 * (1 + 1 + i)) (esp + nx);
          len = of_nat (length (arg_bytes a));
          um2 = mem_write um1 (esp + nx) (arg_bytes a)
      in args_loop esp (i + 1) (nx + len) argv um2)"

text \<open>\<open>userEsp\<close> is a pointer to words, so the subtraction counts words.\<close>

definition load_args :: "u32 \<Rightarrow> string list \<Rightarrow> memory \<Rightarrow> u32 \<times> memory" where
  "load_args userEsp argv um =
     (let argc = of_nat (length argv);
          sum' = args_sum argv;
          nx = 4 * (argc + 1 + 1);
          esp = userEsp - 4 * ((sum' + nx + 15) div 16 * 16);
          um1 = mem_store um (esp + 4 * 0) argc;
          um2 = mem_store um1 (esp + 4 * 1) (esp + 8)
      in (esp, args_loop esp 0 nx argv um2))"

section \<open>Memory lemmas\<close>

text \<open>Addresses as distances from a base.\<close>

definition view :: "memory \<Rightarrow> u32 \<Rightarrow> nat \<Rightarrow> u8" where
  "view um e k = um (e + of_nat k)"

lemma distance: "k < 2 ^ 32 \<Longrightarrow> o' < 2 ^ 32 \<Longrightarrow> unat (e + of_nat k - (e + of_nat o') :: u32) = (if o' \<le> k then k - o' else 2 ^ 32 + k - o')"
proof -
  assume a: "k < 2 ^ 32" "o' < 2 ^ 32"
  have e: "e + of_nat k - (e + of_nat o') = (of_nat k - of_nat o' :: u32)" by simp
  show ?thesis
  proof (cases "o' \<le> k")
    case True
    then have "(of_nat k - of_nat o' :: u32) = of_nat (k - o')" by (simp add: of_nat_diff)
    moreover have "unat (of_nat (k - o') :: u32) = k - o'" using a by (intro unat_of_nat_u32) simp
    ultimately show ?thesis using True by (simp only: e if_True)
  next
    case False
    have "(of_nat (2 ^ 32) :: u32) = 0" by simp
    then have "(of_nat k - of_nat o' :: u32) = of_nat (2 ^ 32 + k - o')" using False a by (simp add: of_nat_diff)
    moreover have "unat (of_nat (2 ^ 32 + k - o') :: u32) = 2 ^ 32 + k - o'" using False by (intro unat_of_nat_u32) auto
    ultimately show ?thesis using False by (simp only: e if_False)
  qed
qed

lemma view_write:
  assumes "k < 2 ^ 32" "o' + length bs \<le> 2 ^ 32"
  shows "view (mem_write um (e + of_nat o') bs) e k = (if o' \<le> k \<and> k < o' + length bs then bs ! (k - o') else view um e k)"
proof (cases "bs = []")
  case False
  then have o': "o' < 2 ^ 32" using assms(2) by (cases bs) auto
  show ?thesis using distance [OF assms(1) o', of e] assms by (auto simp: view_def mem_write_def)
qed (auto simp: view_def mem_write_def)

lemma mem_bytes_view: "mem_bytes um (e + of_nat o') n = map (\<lambda>i. view um e (o' + i)) [0 ..< n]"
  by (simp add: mem_bytes_def view_def add.assoc)

lemma mem_write_same: "length bs < 2 ^ 32 \<Longrightarrow> mem_bytes (mem_write um a bs) a (length bs) = bs"
proof (rule nth_equalityI)
  fix i assume "length bs < 2 ^ 32" "i < length (mem_bytes (mem_write um a bs) a (length bs))"
  then have "unat (of_nat i :: u32) = i" "i < length bs" by (simp_all add: mem_bytes_def)
  then show "mem_bytes (mem_write um a bs) a (length bs) ! i = bs ! i" by (simp add: mem_bytes_def mem_write_def)
qed (simp add: mem_bytes_def)

lemma view_store:
  assumes "k < 2 ^ 32" "o' + 4 \<le> 2 ^ 32"
  shows "view (mem_store um (e + of_nat o') w) e k = (if o' \<le> k \<and> k < o' + 4 then word_bytes w ! (k - o') else view um e k)"
  using view_write [of k o' "word_bytes w" um e] assms by (simp add: mem_store_def word_bytes_def)

lemma mem_bytes_eqI:
  "length bs = n \<Longrightarrow> (\<And>m. m < n \<Longrightarrow> view um e (o' + m) = bs ! m) \<Longrightarrow> mem_bytes um (e + of_nat o') n = bs"
  unfolding mem_bytes_view by (rule nth_equalityI) simp_all

lemma mem_bytes_cong: "(\<And>i. i < n \<Longrightarrow> view um e (o' + i) = view um' e (o' + i)) \<Longrightarrow> mem_bytes um (e + of_nat o') n = mem_bytes um' (e + of_nat o') n"
  by (simp add: mem_bytes_view)

lemma le32_word_bytes: "le32 (word_bytes w) = w"
proof -
  have d: "drop_bit 8 w = w div 2 ^ 8" "drop_bit 16 w = w div 2 ^ 16" "drop_bit 24 w = w div 2 ^ 24" by (simp_all only: drop_bit_eq_div)
  have u: "unat (ucast x :: u8) = unat x mod 256" for x :: u32 by (simp add: unsigned_ucast_eq take_bit_eq_mod)
  have w: "unat w < 2 ^ 32" by (rule unat_u32_less)
  have "le_value (word_bytes w) = unat w mod 256 + 256 * (unat w div 2 ^ 8 mod 256 + 256 * (unat w div 2 ^ 16 mod 256 + 256 * (unat w div 2 ^ 24 mod 256)))"
    by (simp add: word_bytes_def u drop_bit_eq_div unat_div)
  also have "\<dots> = unat w"
  proof -
    have b: "unat w div 2 ^ 16 = unat w div 2 ^ 8 div 2 ^ 8" "unat w div 2 ^ 24 = unat w div 2 ^ 8 div 2 ^ 8 div 2 ^ 8"
      by (simp_all flip: div_mult2_eq)
    have "unat w div 2 ^ 8 div 2 ^ 8 div 2 ^ 8 < 256" using w by (simp flip: div_mult2_eq add: div_less_iff_less_mult)
    then have "unat w div 2 ^ 8 div 2 ^ 8 div 2 ^ 8 mod 256 = unat w div 2 ^ 8 div 2 ^ 8 div 2 ^ 8" by (rule mod_less)
    moreover have "x mod 256 + 256 * (x div 2 ^ 8) = x" for x :: nat by simp
    ultimately show ?thesis unfolding b by simp
  qed
  finally have "le_value (word_bytes w) = unat w" .
  moreover have "take 4 (word_bytes w) = word_bytes w" by (simp add: word_bytes_def)
  ultimately show ?thesis by (simp add: le32_def)
qed

lemma mem_load_bytes: "mem_bytes um a 4 = word_bytes w \<Longrightarrow> mem_load um a = w"
  by (simp add: mem_load_def le32_word_bytes)

lemma mem_string_ok:
  "mem_bytes um a (length bs + 1) = bs @ [0] \<Longrightarrow> 0 \<notin> set bs \<Longrightarrow> length bs \<le> n \<Longrightarrow> mem_string n um a = Inr bs"
proof (induction bs arbitrary: a n)
  case Nil
  then show ?case by (simp add: mem_bytes_def mem_string.simps [of n um a])
next
  case (Cons b bs)
  have m: "mem_bytes um a (Suc k) = um a # mem_bytes um (a + 1) k" for k
    by (simp add: mem_bytes_def upt_rec [of 0 "Suc k"] map_Suc_upt [symmetric] add.assoc del: upt_Suc)
  obtain n' where n': "n = Suc n'" using Cons.prems(3) by (cases n) auto
  have "um a = b" "mem_bytes um (a + 1) (length bs + 1) = bs @ [0]" using Cons.prems(1) by (simp_all add: m)
  then show ?case using Cons.IH [of "a + 1" n'] Cons.prems(2,3) n' by (subst mem_string.simps) auto
qed

section \<open>The argument stack\<close>

text \<open>Where the \<open>j\<close>-th argument starts, counted from the first.\<close>

definition arg_start :: "string list \<Rightarrow> nat \<Rightarrow> nat" where
  "arg_start argv j = sum_list (map (\<lambda>a. length (arg_bytes a)) (take j argv))"

lemma arg_start_simps [simp]: "arg_start argv 0 = 0" "arg_start (a # argv) (Suc j) = length (arg_bytes a) + arg_start argv j"
  by (simp_all add: arg_start_def)

lemma arg_start_le: "j \<le> length argv \<Longrightarrow> arg_start argv j \<le> arg_start argv (length argv)"
proof (induction argv arbitrary: j)
  case (Cons a argv)
  then show ?case by (cases j) auto
qed simp

lemma arg_start_next: "j < length argv \<Longrightarrow> arg_start argv j + length (arg_bytes (argv ! j)) = arg_start argv (Suc j)"
  by (simp add: arg_start_def take_Suc_conv_app_nth)

lemma args_loop_ok:
  assumes "8 + 4 * (i + length argv) \<le> nx" "nx + arg_start argv (length argv) \<le> 2 ^ 32"
  shows "(\<forall>k < 2 ^ 32. k < 8 + 4 * i \<or> nx + arg_start argv (length argv) \<le> k \<or> 8 + 4 * (i + length argv) \<le> k \<and> k < nx \<longrightarrow>
      view (args_loop e (of_nat i) (of_nat nx) argv um) e k = view um e k) \<and>
    (\<forall>j < length argv.
      mem_bytes (args_loop e (of_nat i) (of_nat nx) argv um) (e + of_nat (8 + 4 * (i + j))) 4 = word_bytes (e + of_nat (nx + arg_start argv j)) \<and>
      mem_bytes (args_loop e (of_nat i) (of_nat nx) argv um) (e + of_nat (nx + arg_start argv j)) (length (arg_bytes (argv ! j))) = arg_bytes (argv ! j))"
  using assms
proof (induction argv arbitrary: i nx um)
  case (Cons a argv)
  let ?len = "length (arg_bytes a)" and ?T = "arg_start argv (length argv)"
  let ?um1 = "mem_store um (e + of_nat (8 + 4 * i)) (e + of_nat nx)"
  let ?um2 = "mem_write ?um1 (e + of_nat nx) (arg_bytes a)"
  let ?r = "args_loop e (of_nat (Suc i)) (of_nat (nx + ?len)) argv ?um2"
  have r: "args_loop e (of_nat i) (of_nat nx) (a # argv) um = ?r"
    by (simp add: Let_def algebra_simps)
  have b: "8 + 4 * i + 4 \<le> nx" "nx + ?len + ?T \<le> 2 ^ 32" using Cons.prems by simp_all
  have v2: "view ?um2 e k = (if nx \<le> k \<and> k < nx + ?len then arg_bytes a ! (k - nx)
      else if 8 + 4 * i \<le> k \<and> k < 8 + 4 * i + 4 then word_bytes (e + of_nat nx) ! (k - (8 + 4 * i)) else view um e k)" if "k < 2 ^ 32" for k
    using view_write [OF that, of nx "arg_bytes a"] view_store [OF that, of "8 + 4 * i" um e "e + of_nat nx"] b by simp
  have ih: "\<forall>k < 2 ^ 32. k < 8 + 4 * Suc i \<or> nx + ?len + ?T \<le> k \<or> 8 + 4 * (Suc i + length argv) \<le> k \<and> k < nx + ?len \<longrightarrow>
      view ?r e k = view ?um2 e k"
    "\<forall>j < length argv. mem_bytes ?r (e + of_nat (8 + 4 * (Suc i + j))) 4 = word_bytes (e + of_nat (nx + ?len + arg_start argv j)) \<and>
      mem_bytes ?r (e + of_nat (nx + ?len + arg_start argv j)) (length (arg_bytes (argv ! j))) = arg_bytes (argv ! j)"
    using Cons.IH [of "Suc i" "nx + ?len" ?um2] Cons.prems by (simp_all add: add.assoc)
  have A: "view ?r e k = view um e k" if "k < 2 ^ 32" "k < 8 + 4 * i \<or> nx + ?len + ?T \<le> k \<or> 8 + 4 * (i + length (a # argv)) \<le> k \<and> k < nx" for k
  proof -
    have "k < 8 + 4 * Suc i \<or> nx + ?len + ?T \<le> k \<or> 8 + 4 * (Suc i + length argv) \<le> k \<and> k < nx + ?len" using that(2) by auto
    then have "view ?r e k = view ?um2 e k" using ih(1) that(1) by blast
    then show ?thesis using v2 [OF that(1)] that(2) b Cons.prems(1) by auto
  qed
  have B0: "mem_bytes ?r (e + of_nat (8 + 4 * i)) 4 = word_bytes (e + of_nat nx)"
  proof -
    have "view ?r e (8 + 4 * i + m) = word_bytes (e + of_nat nx) ! m" if "m < 4" for m
      using that b ih(1) [rule_format, of "8 + 4 * i + m"] v2 [of "8 + 4 * i + m"] by auto
    then show ?thesis by (intro mem_bytes_eqI) (simp add: word_bytes_def)
  qed
  have C0: "mem_bytes ?r (e + of_nat nx) ?len = arg_bytes a"
  proof (rule mem_bytes_eqI)
    fix m assume "m < ?len"
    then show "view ?r e (nx + m) = arg_bytes a ! m"
      using b Cons.prems(1) ih(1) [rule_format, of "nx + m"] v2 [of "nx + m"] by auto
  qed simp
  show ?case unfolding r
  proof (intro conjI allI impI)
    fix k assume "k < (2 :: nat) ^ 32" "k < 8 + 4 * i \<or> nx + arg_start (a # argv) (length (a # argv)) \<le> k \<or> 8 + 4 * (i + length (a # argv)) \<le> k \<and> k < nx"
    then show "view ?r e k = view um e k" by (intro A) (simp_all add: add.assoc)
  next
    fix j assume j: "j < length (a # argv)"
    show "mem_bytes ?r (e + of_nat (8 + 4 * (i + j))) 4 = word_bytes (e + of_nat (nx + arg_start (a # argv) j))"
      using B0 ih(2) j by (cases j) (simp_all add: add.assoc del: of_nat_add of_nat_mult)
    show "mem_bytes ?r (e + of_nat (nx + arg_start (a # argv) j)) (length (arg_bytes ((a # argv) ! j))) = arg_bytes ((a # argv) ! j)"
      using C0 ih(2) j by (cases j) (simp_all add: add.assoc del: of_nat_add of_nat_mult)
  qed
qed simp

text \<open>The number of bytes that \<open>load_args\<close> takes off the stack pointer.\<close>

definition args_room :: "string list \<Rightarrow> nat" where
  "args_room argv = 4 * ((arg_start argv (length argv) + 4 * (length argv + 2) + 15) div 16 * 16)"

lemma word_eqI_of_unat: "unat x = n \<Longrightarrow> x = (of_nat n :: u32)"
  by auto

lemma args_sum_eq: "args_sum argv = of_nat (arg_start argv (length argv))"
  unfolding args_sum_def by (induction argv) simp_all

lemma args_room_le: "arg_start argv (length argv) + 4 * (length argv + 2) \<le> args_room argv"
proof -
  let ?n = "arg_start argv (length argv) + 4 * (length argv + 2) + 15"
  have "?n < 16 * (?n div 16) + 16" using mod_less_divisor [of 16 ?n] div_mult_mod_eq [of ?n 16] by linarith
  then show ?thesis by (simp add: args_room_def)
qed

lemma load_args_esp:
  assumes "args_room argv \<le> unat esp"
  shows "fst (load_args esp argv um) = esp - of_nat (args_room argv)" "unat (fst (load_args esp argv um)) = unat esp - args_room argv"
proof -
  let ?n = "arg_start argv (length argv) + 4 * (length argv + 2) + 15"
  have lt: "args_room argv < 2 ^ 32" using assms unat_u32_less [of esp] by (rule le_less_trans)
  have "arg_start argv (length argv) + 4 * (length argv + 2) < 2 ^ 32 - 48"
  proof -
    have "64 * (?n div 16) < 2 ^ 32" using lt by (simp add: args_room_def)
    moreover have "?n < 16 * (?n div 16) + 16" using mod_less_divisor [of 16 ?n] div_mult_mod_eq [of ?n 16] by linarith
    ultimately show ?thesis by simp
  qed
  then have n: "?n < 2 ^ 32" by simp
  have "args_sum argv + 4 * (of_nat (length argv) + 1 + 1) + 15 = of_nat ?n" by (simp add: args_sum_eq algebra_simps)
  then have "unat ((args_sum argv + 4 * (of_nat (length argv) + 1 + 1) + 15) div 16) = ?n div 16"
    using n by (simp only: unat_div unat_of_nat_u32) simp
  then have "(args_sum argv + 4 * (of_nat (length argv) + 1 + 1) + 15) div 16 = of_nat (?n div 16)"
    using word_eqI_of_unat by blast
  then have "4 * ((args_sum argv + 4 * (of_nat (length argv) + 1 + 1) + 15) div 16 * 16) = of_nat (args_room argv)"
    by (simp add: args_room_def algebra_simps)
  then show f: "fst (load_args esp argv um) = esp - of_nat (args_room argv)" by (simp add: load_args_def Let_def)
  have u: "unat (of_nat (args_room argv) :: u32) = args_room argv" using lt by (rule unat_of_nat_u32)
  then have "of_nat (args_room argv) \<le> esp" using assms by (simp only: word_le_nat_alt)
  then show "unat (fst (load_args esp argv um)) = unat esp - args_room argv" by (simp only: f unat_minus_no_wrap u)
qed

text \<open>
  What \<open>load_args\<close> leaves in the memory \<open>r\<close> from the new stack pointer \<open>e\<close> on: the count and the vector's address in the first eight bytes, nothing changed behind its room, and for every argument
  an entry of the vector and the bytes it points to.
\<close>

definition args_laid :: "memory \<Rightarrow> string list \<Rightarrow> u32 \<Rightarrow> memory \<Rightarrow> bool" where
  "args_laid um argv e r \<longleftrightarrow>
     (\<forall>k<8. view r e k = (if 4 \<le> k then word_bytes (e + 8) ! (k - 4) else word_bytes (of_nat (length argv)) ! k)) \<and>
     (\<forall>k < 2 ^ 32. args_room argv \<le> k \<longrightarrow> view r e k = view um e k) \<and>
     (\<forall>j < length argv.
        mem_bytes r (e + of_nat (8 + 4 * j)) 4 = word_bytes (e + of_nat (8 + 4 * length argv + arg_start argv j)) \<and>
        mem_bytes r (e + of_nat (8 + 4 * length argv + arg_start argv j)) (length (arg_bytes (argv ! j))) = arg_bytes (argv ! j))"

lemma load_args_laid:
  assumes "args_room argv \<le> unat userEsp"
  shows "\<exists>e r. load_args userEsp argv um = (e, r) \<and> unat e + args_room argv = unat userEsp \<and> args_laid um argv e r"
proof -
  let ?S = "arg_start argv (length argv)" and ?nx = "8 + 4 * (0 + length argv)"
  define e where "e = fst (load_args userEsp argv um)"
  have ue: "unat e + args_room argv = unat userEsp" using load_args_esp(2) [OF assms, of um] assms by (simp add: e_def)
  have T: "args_room argv < 2 ^ 32" using assms unat_u32_less [of userEsp] by (rule le_less_trans)
  have room: "?nx + ?S \<le> args_room argv" using args_room_le [of argv] by simp
  define um2 where "um2 = mem_store (mem_store um (e + of_nat 0) (of_nat (length argv))) (e + of_nat 4) (e + 8)"
  define r where "r = args_loop e (of_nat 0) (of_nat ?nx) argv um2"
  have la: "load_args userEsp argv um = (e, r)"
    by (simp add: load_args_def Let_def e_def r_def um2_def algebra_simps)
  have v2: "view um2 e k = (if 4 \<le> k \<and> k < 8 then word_bytes (e + 8) ! (k - 4) else if k < 4 then word_bytes (of_nat (length argv)) ! k else view um e k)"
    if "k < 2 ^ 32" for k
    using view_store [OF that, of 4] view_store [OF that, of 0] by (simp add: um2_def)
  have le: "?nx + ?S \<le> 2 ^ 32" using room T by linarith
  note A = args_loop_ok [OF order_refl le, of e um2, THEN conjunct1, folded r_def, rule_format]
  note B = args_loop_ok [OF order_refl le, of e um2, THEN conjunct2, folded r_def, rule_format]
  have "view r e k = (if 4 \<le> k then word_bytes (e + 8) ! (k - 4) else word_bytes (of_nat (length argv)) ! k)" if "k < 8" for k
    using A [of k] v2 [of k] that by simp
  moreover have "view r e k = view um e k" if "k < 2 ^ 32" "args_room argv \<le> k" for k using A [of k] v2 [of k] that room by simp
  moreover have "mem_bytes r (e + of_nat (8 + 4 * j)) 4 = word_bytes (e + of_nat (8 + 4 * length argv + arg_start argv j)) \<and>
      mem_bytes r (e + of_nat (8 + 4 * length argv + arg_start argv j)) (length (arg_bytes (argv ! j))) = arg_bytes (argv ! j)"
    if "j < length argv" for j using B [OF that] by simp
  ultimately have "args_laid um argv e r" unfolding args_laid_def by blast
  then show ?thesis using la ue by blast
qed

lemma laid_count:
  assumes "args_laid um argv e r"
  shows "mem_load r e = of_nat (length argv)" "mem_load r (e + 4) = e + 8"
proof -
  have low: "view r e k = (if 4 \<le> k then word_bytes (e + 8) ! (k - 4) else word_bytes (of_nat (length argv)) ! k)" if "k < 8" for k
    using assms that by (simp add: args_laid_def)
  have "mem_bytes r (e + of_nat 0) 4 = word_bytes (of_nat (length argv))"
    by (rule mem_bytes_eqI) (simp_all add: low, simp add: word_bytes_def)
  moreover have "mem_bytes r (e + of_nat 4) 4 = word_bytes (e + 8)"
    by (rule mem_bytes_eqI) (simp_all add: low, simp add: word_bytes_def)
  ultimately show "mem_load r e = of_nat (length argv)" "mem_load r (e + 4) = e + 8" by (auto intro: mem_load_bytes)
qed

lemma unat_above: "unat e + o' < 2 ^ 32 \<Longrightarrow> unat (e + of_nat o' :: u32) = unat e + o'"
  by (simp add: unat_plus_no_wrap)

lemma laid_argument:
  fixes userEsp :: u32
  assumes "args_laid um argv e r" "unat e + args_room argv = unat userEsp" "j < length argv"
  shows "\<exists>p. mem_load r (e + 8 + 4 * of_nat j) = p \<and> unat e + 8 + 4 * length argv \<le> unat p \<and>
    unat p + length (arg_bytes (argv ! j)) \<le> unat userEsp \<and> mem_bytes r p (length (arg_bytes (argv ! j))) = arg_bytes (argv ! j)"
proof -
  let ?p = "8 + 4 * length argv + arg_start argv j"
  have s: "arg_start argv j + length (arg_bytes (argv ! j)) \<le> arg_start argv (length argv)"
    using arg_start_next [OF assms(3)] arg_start_le [of "Suc j" argv] assms(3) by simp
  moreover have "0 < length (arg_bytes (argv ! j))" by (simp add: arg_bytes_def)
  ultimately have le: "?p + length (arg_bytes (argv ! j)) \<le> args_room argv" using args_room_le [of argv] by simp
  then have "unat e + ?p < 2 ^ 32" using assms(2) unat_u32_less [of userEsp] \<open>0 < length (arg_bytes (argv ! j))\<close> by linarith
  then have u: "unat (e + of_nat ?p) = unat e + ?p" by (rule unat_above)
  have B: "mem_bytes r (e + of_nat (8 + 4 * j)) 4 = word_bytes (e + of_nat ?p)" "mem_bytes r (e + of_nat ?p) (length (arg_bytes (argv ! j))) = arg_bytes (argv ! j)"
    using assms(1,3) unfolding args_laid_def by blast+
  have "mem_load r (e + of_nat (8 + 4 * j)) = e + of_nat ?p" using B(1) by (rule mem_load_bytes)
  moreover have "e + of_nat (8 + 4 * j) = e + 8 + 4 * of_nat j" by simp
  moreover have "unat e + ?p + length (arg_bytes (argv ! j)) \<le> unat userEsp" using le assms(2) by linarith
  ultimately show ?thesis using B(2) u by (intro exI [of _ "e + of_nat ?p"]) (simp del: of_nat_add of_nat_mult)
qed

lemma laid_outside:
  fixes userEsp :: u32
  assumes "args_laid um argv e r" "unat e + args_room argv = unat userEsp" "\<not> (unat e \<le> unat x \<and> unat x < unat userEsp)"
  shows "r x = um x"
proof -
  define k where "k = unat (x - e)"
  have ex: "x = e + of_nat k" by (simp add: k_def)
  have k: "k < 2 ^ 32" unfolding k_def by (rule unat_u32_less)
  have "args_room argv \<le> k"
  proof (rule ccontr)
    assume n: "\<not> args_room argv \<le> k"
    then have "unat x = unat e + k" unfolding ex using assms(2) unat_u32_less [of userEsp] by (intro unat_above) linarith
    then show False using assms(2,3) n by simp
  qed
  then have "view r e k = view um e k" using assms(1) k by (simp add: args_laid_def)
  then show ?thesis by (simp add: view_def flip: ex)
qed

lemma laid_behind_vector:
  assumes "args_laid um argv e r" "argv \<noteq> []"
  shows "r (e + 8 + 4 * of_nat (length argv)) = hd (arg_bytes (hd argv))"
proof -
  let ?b = "mem_bytes r (e + of_nat (8 + 4 * length argv)) (length (arg_bytes (argv ! 0)))"
  have "?b = arg_bytes (argv ! 0)" using assms by (auto simp: args_laid_def)
  moreover have "arg_bytes (argv ! 0) \<noteq> []" by (simp add: arg_bytes_def)
  ultimately have "hd ?b = hd (arg_bytes (hd argv))" "0 < length (arg_bytes (argv ! 0))" using assms(2) by (simp_all add: hd_conv_nth)
  then show ?thesis by (simp add: mem_bytes_def hd_map upt_rec [of 0] add.assoc)
qed

text \<open>(C23:load_args_correct) \<open>load_args\<close> lowers the stack pointer by a multiple of 64 bytes and puts there the number of arguments, the address of the
  vector, the vector of the addresses of the arguments, and the arguments with their terminating NULs, all within the room it made; the memory outside
  is not changed. When there is an argument, the word behind the vector is not null but the beginning of the first argument.\<close>

theorem load_args_correct:
  assumes "args_room argv \<le> unat userEsp"
  shows "let r = load_args userEsp argv um; esp = fst r; um' = snd r in
    unat esp = unat userEsp - args_room argv \<and> 64 dvd args_room argv \<and>
    mem_load um' esp = of_nat (length argv) \<and> mem_load um' (esp + 4) = esp + 8 \<and>
    (\<forall>j < length argv. \<exists>p. mem_load um' (esp + 8 + 4 * of_nat j) = p \<and>
      unat esp + 8 + 4 * length argv \<le> unat p \<and> unat p + length (arg_bytes (argv ! j)) \<le> unat userEsp \<and>
      mem_bytes um' p (length (arg_bytes (argv ! j))) = arg_bytes (argv ! j)) \<and>
    (\<forall>x. \<not> (unat esp \<le> unat x \<and> unat x < unat userEsp) \<longrightarrow> um' x = um x) \<and>
    (argv \<noteq> [] \<longrightarrow> um' (esp + 8 + 4 * of_nat (length argv)) = hd (arg_bytes (hd argv)))"
proof -
  obtain e r where l: "load_args userEsp argv um = (e, r)" "unat e + args_room argv = unat userEsp" "args_laid um argv e r"
    using load_args_laid [OF assms] by blast
  have "64 dvd args_room argv"
    using dvd_triv_left [of 64 "(arg_start argv (length argv) + 4 * (length argv + 2) + 15) div 16"] by (simp add: args_room_def mult.assoc)
  then show ?thesis
    unfolding Let_def l(1) fst_conv snd_conv
    using l(2) laid_count [OF l(3)] laid_argument [OF l(3,2)] laid_outside [OF l(3,2)] laid_behind_vector [OF l(3)] by auto
qed

theorem load_args_correct_witness:
  "let r = load_args 0x10000 [''init''] (\<lambda>_. 7) in mem_load (snd r) (fst r) = 1 \<and> unat (fst r) = 65408 \<and> snd r 0 = 7 \<and>
     snd r (fst r + 12) = of_char CHR ''i''"
proof -
  have r: "args_room [''init''] = 128" by (simp add: args_room_def arg_start_def arg_bytes_def str_bytes_def)
  have u: "unat (0x10000 :: u32) = 65536" by simp
  let ?r = "load_args 0x10000 [''init''] (\<lambda>_. 7)"
  note t = load_args_correct [of "[''init'']" "0x10000" "\<lambda>_. 7", unfolded r u, simplified Let_def]
  have e: "unat (fst ?r) = 65408" using t by simp
  then have "snd ?r 0 = 7" using t by simp
  moreover have "snd ?r (fst ?r + 12) = of_char CHR ''i''" using t by (simp add: arg_bytes_def str_bytes_def add.assoc)
  ultimately show ?thesis using t e by (simp add: Let_def)
qed

section \<open>Loading a program\<close>

text \<open>The headers of a program in the content of its file, and the memory they describe.\<close>

definition elf_headers :: "(nat \<Rightarrow> u8) \<Rightarrow> program_header list" where
  "elf_headers f =
     (let hdr = elf_header_of (bytes_at f 0 52) in
      map (\<lambda>i. program_header_of (bytes_at f (unat (phoff hdr) + i * unat (phentsize hdr)) 32)) [0 ..< unat (phnum hdr)])"

definition segment_image :: "(nat \<Rightarrow> u8) \<Rightarrow> memory \<Rightarrow> program_header \<Rightarrow> memory" where
  "segment_image f um ph =
     (\<lambda>x. let d = unat x - unat (vaddr ph) in
        if ph_type ph = 1 \<and> vaddr ph \<le> x \<and> d < unat (memsz ph)
        then (if d < unat (filesz ph) then f (unat (ph_offset ph) + d) else 0) else um x)"

definition segment_areas :: "vme \<Rightarrow> program_header \<Rightarrow> vme" where
  "segment_areas v ph =
     (if ph_type ph = 1 then
        snd (add_entry (if vaddr ph > 0x80000000 then snd (add_entry v (vaddr ph - 0x80000000) 0 0 False) else v) (memsz ph) 0 0 False)
      else v)"

text \<open>A program whose headers and segments lie inside the file and whose segments lie inside the private part of memory.\<close>

definition segment_ok :: "nat \<Rightarrow> program_header \<Rightarrow> bool" where
  "segment_ok n ph \<longleftrightarrow> (ph_type ph = 1 \<longrightarrow> 0x80000000 \<le> unat (vaddr ph) \<and> unat (vaddr ph) + unat (memsz ph) < 0xf0000000 \<and>
     filesz ph \<le> memsz ph \<and> unat (ph_offset ph) + unat (filesz ph) \<le> n)"

definition program_ok :: "(nat \<Rightarrow> u8) \<Rightarrow> nat \<Rightarrow> bool" where
  "program_ok f n \<longleftrightarrow>
     (let hdr = elf_header_of (bytes_at f 0 52) in
      52 \<le> n \<and> n < 2 ^ 32 \<and> magic hdr = [0x7f, 0x45, 0x4c, 0x46] \<and>
      (\<forall>i < unat (phnum hdr). unat (phoff hdr) + i * unat (phentsize hdr) + 32 \<le> n)) \<and> (\<forall>ph \<in> set (elf_headers f). segment_ok n ph)"

lemma segment_bytes:
  assumes "segment_ok n ph" "ph_type ph = 1"
  shows "mem_bzero (mem_write um (vaddr ph) (bytes_at f (unat (ph_offset ph)) (unat (filesz ph)))) (vaddr ph + filesz ph) (memsz ph - filesz ph) =
    segment_image f um ph"
proof
  fix x :: u32
  have b: "unat (vaddr ph) + unat (memsz ph) < 0xf0000000" "unat (filesz ph) \<le> unat (memsz ph)"
    using assms by (simp_all add: segment_ok_def word_le_nat_alt)
  have u: "unat (vaddr ph + filesz ph) = unat (vaddr ph) + unat (filesz ph)" using b by (intro unat_plus_no_wrap) simp
  have m: "unat (memsz ph - filesz ph) = unat (memsz ph) - unat (filesz ph)"
    using b(2) by (intro unat_minus_no_wrap) (simp add: word_le_nat_alt)
  have w: "unat (x - a) = (if unat a \<le> unat x then unat x - unat a else 2 ^ 32 + unat x - unat a)" for a
  proof -
    have e: "0 + of_nat (unat y) = y" for y :: u32 by simp
    show ?thesis using distance [of "unat x" "unat a" 0, OF unat_u32_less unat_u32_less] unfolding e .
  qed
  show "mem_bzero (mem_write um (vaddr ph) (bytes_at f (unat (ph_offset ph)) (unat (filesz ph)))) (vaddr ph + filesz ph) (memsz ph - filesz ph) x =
      segment_image f um ph x"
    unfolding mem_bzero_def mem_write_def segment_image_def word_less_nat_alt word_le_nat_alt w u m Let_def
    using b assms(2) by (auto simp: bytes_at_def)
qed

context block_device
begin

lemma load_segment_ok:
  assumes "ok s" "segment_ok lim ph"
  shows "\<exists>s1. load_segment d ph v um s = Inr ((segment_areas v ph, segment_image content um ph), s1) \<and> ok s1"
proof (cases "ph_type ph = 1")
  case False
  then have "segment_image content um ph = um" by (simp add: segment_image_def)
  then show ?thesis using assms(1) False by (simp add: load_segment_def segment_areas_def)
next
  case True
  have b: "0x80000000 \<le> unat (vaddr ph)" "unat (vaddr ph) + unat (memsz ph) < 0xf0000000" "unat (ph_offset ph) + unat (filesz ph) \<le> lim"
    using assms(2) True by (simp_all add: segment_ok_def)
  have "unat (vaddr ph + memsz ph) = unat (vaddr ph) + unat (memsz ph)" using b(2) by (intro unat_plus_no_wrap) simp
  then have c: "\<not> (vaddr ph < 0x80000000 \<or> vaddr ph + memsz ph \<ge> 0xf0000000)"
    using b by (simp add: word_less_nat_alt word_le_nat_alt)
  obtain s1 where "bio_read_all d (ph_offset ph) (filesz ph) s =
      Inr ((uint (filesz ph), bytes_at content (unat (ph_offset ph)) (unat (filesz ph))), s1)" "ok s1"
    using read_all_inside [OF assms(1) b(3)] by blast
  then show ?thesis using True c segment_bytes [OF assms(2) True, of um content]
    by (simp add: load_segment_def Let_def segment_areas_def)
qed

lemma load_loop_ok:
  "ok s \<Longrightarrow> \<forall>i < n. unat hoff + i * unat es + 32 \<le> lim \<and> segment_ok lim (program_header_of (bytes_at content (unat hoff + i * unat es) 32)) \<Longrightarrow>
    lim < 2 ^ 32 \<Longrightarrow>
    \<exists>s1. load_loop n d hoff es v um s =
      (let hs = map (\<lambda>i. program_header_of (bytes_at content (unat hoff + i * unat es) 32)) [0 ..< n]
       in Inr ((fold (\<lambda>ph v. segment_areas v ph) hs v, fold (\<lambda>ph um. segment_image content um ph) hs um), s1)) \<and> ok s1"
proof (induction n arbitrary: hoff v um s)
  case 0
  then show ?case by simp
next
  case (Suc n)
  let ?ph = "program_header_of (bytes_at content (unat hoff) 32)"
  have 0: "unat hoff + unat (32 :: u32) \<le> lim" "segment_ok lim ?ph" using Suc.prems(2) [rule_format, of 0] by simp_all
  obtain s1 where s1: "bio_read_bytes d hoff sizeof_program_header s = Inr (bytes_at content (unat hoff) 32, s1)" "ok s1"
    using read_bytes_ok [OF Suc.prems(1) 0(1)] by (auto simp: sizeof_program_header_def)
  obtain s2 where s2: "load_segment d ?ph v um s1 = Inr ((segment_areas v ?ph, segment_image content um ?ph), s2)" "ok s2"
    using load_segment_ok [OF s1(2) 0(2)] by blast
  have u: "map (\<lambda>i. program_header_of (bytes_at content (unat (hoff + ucast es) + i * unat es) 32)) [0 ..< n] =
      map (\<lambda>i. program_header_of (bytes_at content (unat hoff + Suc i * unat es) 32)) [0 ..< n] \<and>
      (\<forall>i < n. unat (hoff + ucast es) + i * unat es + 32 \<le> lim \<and>
        segment_ok lim (program_header_of (bytes_at content (unat (hoff + ucast es) + i * unat es) 32)))"
  proof (cases n)
    case (Suc m)
    have "unat hoff + unat es + 32 \<le> lim" using Suc.prems(2) [rule_format, of 1] Suc by simp
    moreover have "unat (ucast es :: u32) = unat es" by (simp add: unsigned_ucast_eq take_bit_nat_eq_self_iff less_trans [OF unsigned_less])
    ultimately have e: "unat (hoff + ucast es) = unat hoff + unat es" using Suc.prems(3) by (simp add: unat_plus_no_wrap)
    then have "unat (hoff + ucast es) + i * unat es = unat hoff + Suc i * unat es" for i by simp
    then show ?thesis using Suc.prems(2) by (metis (no_types, lifting) Suc_less_eq map_eq_conv)
  qed simp
  obtain s3 where s3: "load_loop n d (hoff + ucast es) es (segment_areas v ?ph) (segment_image content um ?ph) s2 =
      (let hs = map (\<lambda>i. program_header_of (bytes_at content (unat hoff + Suc i * unat es) 32)) [0 ..< n]
       in Inr ((fold (\<lambda>ph v. segment_areas v ph) hs (segment_areas v ?ph), fold (\<lambda>ph um. segment_image content um ph) hs (segment_image content um ?ph)), s3))" "ok s3"
    using Suc.IH [OF s2(2) conjunct2 [OF u] Suc.prems(3)] conjunct1 [OF u] by metis
  have "map (\<lambda>i. program_header_of (bytes_at content (unat hoff + i * unat es) 32)) [0 ..< Suc n] =
      ?ph # map (\<lambda>i. program_header_of (bytes_at content (unat hoff + Suc i * unat es) 32)) [0 ..< n]"
    by (simp add: upt_rec [of 0 "Suc n"] map_Suc_upt [symmetric] comp_def del: upt_Suc)
  then show ?case using s1 s2 s3 by (simp add: Let_def del: upt_Suc)
qed

lemma elf_load_ok:
  assumes "ok s" "program_ok content lim"
  shows "\<exists>s1. elf_load d v um s =
    Inr ((entry (elf_header_of (bytes_at content 0 52)), fold (\<lambda>ph v. segment_areas v ph) (elf_headers content) v,
      fold (\<lambda>ph um. segment_image content um ph) (elf_headers content) um), s1) \<and> ok s1"
proof -
  let ?h = "elf_header_of (bytes_at content 0 52)"
  have p: "52 \<le> lim" "lim < 2 ^ 32" "magic ?h = [0x7f, 0x45, 0x4c, 0x46]" "\<forall>i < unat (phnum ?h). unat (phoff ?h) + i * unat (phentsize ?h) + 32 \<le> lim"
    "\<forall>ph \<in> set (elf_headers content). segment_ok lim ph" using assms(2) by (simp_all add: program_ok_def Let_def)
  obtain s1 where s1: "bio_read_bytes d 0 sizeof_elf_header s = Inr (bytes_at content 0 52, s1)" "ok s1"
    using read_bytes_ok [OF assms(1), of 0 52] p(1) by (auto simp: sizeof_elf_header_def)
  have "\<forall>i < unat (phnum ?h). unat (phoff ?h) + i * unat (phentsize ?h) + 32 \<le> lim \<and>
      segment_ok lim (program_header_of (bytes_at content (unat (phoff ?h) + i * unat (phentsize ?h)) 32))"
    using p(4,5) by (simp add: elf_headers_def Let_def)
  from load_loop_ok [OF s1(2) this p(2), of v um] show ?thesis
    using s1(1) p(3) by (auto simp: elf_load_def Let_def elf_headers_def)
qed

end

section \<open>Properties of the loader\<close>

text \<open>
  (elf_load_correct) Loading a program from a file, through its i-node, the buffer cache and the disk driver, returns the entry point of
  its header. For every header of type 1, in their order, the address space gets the areas of the segment,
  and memory gets the bytes of the file at the address of the segment, followed by zeros up to
  its size in memory; nothing else changes. It takes headers and segments inside the file, and segments inside the private part of memory.
\<close>

theorem elf_load_correct:
  assumes "cache_small hw fuel c" "node_wf (disk_byte hw (drive (cdev c))) disk_limit nd"
    and "program_ok (node_byte (disk_byte hw (drive (cdev c))) nd) (unat (size_low (data nd)))"
  shows "let f = node_byte (disk_byte hw (drive (cdev c))) nd in
    \<exists>c'. elf_load (node_io (cache_io (ide_io hw fuel)) nd) v um c =
      Inr ((entry (elf_header_of (bytes_at f 0 52)), fold (\<lambda>ph v. segment_areas v ph) (elf_headers f) v,
        fold (\<lambda>ph um. segment_image f um ph) (elf_headers f) um), c') \<and> cache_small hw fuel c'"
  using block_device.elf_load_ok [OF block_device.node_device [OF ide_cache_device assms(2)] _ assms(3), where s = c and v = v and um = um] assms(1)
  by (auto simp: Let_def)

text \<open>
  A file of 100 bytes in block 2 of a disk: a header, one program header at 52 for a segment of 8 bytes in the file and 12 in
  memory at the start of the private part, and its bytes at 84.
\<close>

definition program_bytes :: "(nat \<times> u8) list" where
  "program_bytes =
     [(2048, 0x7f), (2049, 0x45), (2050, 0x4c), (2051, 0x46), (2075, 0x80), (2076, 52), (2090, 32), (2092, 1),
      (2100, 1), (2104, 84), (2111, 0x80), (2116, 8), (2120, 12), (2132, 0x90), (2139, 0xc3)]"

definition program_image :: "nat \<Rightarrow> u8" where
  "program_image a = (case map_of program_bytes a of None \<Rightarrow> 0 | Some b \<Rightarrow> b)"

definition program_disk :: ide_hw where
  "program_disk = ramp_disk\<lparr>hw_words := (\<lambda>p c b i. le32 (bytes_at program_image (unat b * 512 + 4 * i) 4))\<rparr>"

definition program_file :: node where
  "program_file = \<lparr>number = 7,
     data = (node_data_of (replicate 128 0))\<lparr>size_low := 100, direct := [2, 0, 0, 0, 0, 0, 0, 0, 0, 0, 0, 0]\<rparr>,
     n_block_size = 1024\<rparr>"

lemma program_file_wf: "node_wf content disk_limit program_file"
proof -
  have "p = 0 \<or> unat p * 1024 + 1024 \<le> disk_limit" if "l * 1024 < (100 :: nat)" "p \<in> set (ref_path content program_file l)" for l p
  proof -
    have "l = 0" using that(1) by linarith
    then show ?thesis using that(2) by (simp add: ref_path_def program_file_def Let_def)
  qed
  then show ?thesis by (simp add: node_wf_def program_file_def Let_def)
qed

lemma program_byte: "a < 1024 \<Longrightarrow> node_byte (disk_byte program_disk 1) program_file a = program_image (2048 + a)"
  by (simp add: node_byte_def block_ref_def ref_path_def program_file_def Let_def disk_byte_words program_disk_def)

lemma bytes_at_program: "a + n \<le> 1024 \<Longrightarrow> bytes_at (node_byte (disk_byte program_disk 1) program_file) a n = bytes_at program_image (2048 + a) n"
  unfolding bytes_at_def by (intro nth_equalityI) (auto simp: program_byte add.assoc)

lemma program_header_values:
  "elf_header_of (bytes_at program_image 2048 52) = \<lparr>magic = [0x7f, 0x45, 0x4c, 0x46], entry = 0x80000000, phoff = 52, phentsize = 32, phnum = 1\<rparr>"
  "program_header_of (bytes_at program_image 2100 32) = \<lparr>ph_type = 1, ph_offset = 84, vaddr = 0x80000000, filesz = 8, memsz = 12\<rparr>"
  by (simp_all add: elf_header_of_def program_header_of_def u_at_bytes bytes_at_slice [of 0, simplified])
    (simp_all add: bytes_at_def le32_def le16_def upt_rec program_image_def program_bytes_def)

lemma program_headers: "elf_headers (node_byte (disk_byte program_disk 1) program_file) =
    [\<lparr>ph_type = 1, ph_offset = 84, vaddr = 0x80000000, filesz = 8, memsz = 12\<rparr>]"
  by (simp add: elf_headers_def bytes_at_program program_header_values)

lemma program_program: "program_ok (node_byte (disk_byte program_disk 1) program_file) 100"
  unfolding program_ok_def program_headers by (simp add: bytes_at_program program_header_values segment_ok_def word_le_nat_alt)

theorem elf_load_correct_witness:
  "\<exists>v um c'. elf_load (node_io (cache_io (ide_io program_disk 1)) program_file) (vme_new 0x80000000 0xF0000000) (\<lambda>_. 7) (cache_new (ide_new 1 0)) =
      Inr ((0x80000000, v, um), c') \<and>
    um 0x80000000 = 0x90 \<and> um 0x80000007 = 0xc3 \<and> um 0x80000008 = 0 \<and> um 0x8000000c = 7"
proof -
  have "hw_ready program_disk 1 0" using ramp_disk_ready by (simp add: hw_ready_def program_disk_def)
  then have c: "cache_small program_disk 1 (cache_new (ide_new 1 0))"
    using cache_new_ready resident_new by (simp add: cache_small_def ide_new_def)
  have d: "drive (cdev (cache_new (ide_new 1 0))) = 1" by (simp add: cache_new_def ide_new_def)
  have s: "size_low (data program_file) = 100" by (simp add: program_file_def)
  note t = elf_load_correct [OF c program_file_wf, of "vme_new 0x80000000 0xF0000000" "\<lambda>_. 7", unfolded d s Let_def]
  show ?thesis
    using t program_program
    by (simp add: bytes_at_program program_header_values program_headers segment_image_def program_byte program_image_def program_bytes_def
      word_le_nat_alt) (auto simp: program_byte program_image_def program_bytes_def)
qed

end
