(* ===== verification/Config.thy ===== *)
theory Config
  imports Loader
begin

text \<open>
  The tables of the firmware, \<open>kernel/config.cc\<close> and \<open>kernel/config.h\<close>: the search for the root description, the table of the interrupt controllers (MADT)
  and the list of processors that the kernel starts.

  Memory is a function from addresses to bytes; packed structures are read at the offsets of their fields.
\<close>

section \<open>Structures\<close>

record mem_info =
  mi_ax :: u16
  mi_bx :: u16
  mi_cx :: u16
  mi_dx :: u16

definition sizeof_SDT :: u32 where "sizeof_SDT = 36"

definition sdt_length :: "memory \<Rightarrow> u32 \<Rightarrow> u32" where "sdt_length m p = mem_load m (p + 4)"

definition sizeof_MADT :: u32 where "sizeof_MADT = 44"

definition madt_localAddress :: "memory \<Rightarrow> u32 \<Rightarrow> u32" where "madt_localAddress m p = mem_load m (p + 36)"

definition madt_flags :: "memory \<Rightarrow> u32 \<Rightarrow> u32" where "madt_flags m p = mem_load m (p + 40)"

definition entry_type :: "memory \<Rightarrow> u32 \<Rightarrow> u8" where "entry_type m p = m p"

definition entry_len :: "memory \<Rightarrow> u32 \<Rightarrow> u8" where "entry_len m p = m (p + 1)"

definition apic_processorId :: "memory \<Rightarrow> u32 \<Rightarrow> u8" where "apic_processorId m p = m (p + 2)"

definition apic_apicId :: "memory \<Rightarrow> u32 \<Rightarrow> u8" where "apic_apicId m p = m (p + 3)"

definition apic_flags :: "memory \<Rightarrow> u32 \<Rightarrow> u32" where "apic_flags m p = mem_load m (p + 4)"

definition ioapic_address :: "memory \<Rightarrow> u32 \<Rightarrow> u32" where "ioapic_address m p = mem_load m (p + 4)"

definition rsd_OEMID :: "memory \<Rightarrow> u32 \<Rightarrow> u8 list" where "rsd_OEMID m p = mem_bytes m (p + 9) 6"

definition rootSDT :: "memory \<Rightarrow> u32 \<Rightarrow> u32" where "rootSDT m p = mem_load m (p + 16)"

record apic_info =
  ai_processorId :: u8
  ai_apicId :: u8
  ai_flags :: u32

definition MAX_PROCS :: nat where "MAX_PROCS = 16"

record config =
  memSize :: u32
  nOtherProcs :: u32
  totalProcs :: u32
  localAPIC :: u32
  madtFlags :: u32
  ioAPIC :: u32
  apicInfo :: "apic_info list"
  oemid :: "u8 list"

section \<open>Searches\<close>

text \<open>The comparison of \<open>len\<close> bytes with a literal, from the \<open>i\<close>-th on.\<close>

fun iseq_from :: "memory \<Rightarrow> u32 \<Rightarrow> string \<Rightarrow> bool" where
  "iseq_from m a [] = True"
| "iseq_from m a (c # cs) = (if m a \<noteq> of_char c then False else iseq_from m (a + 1) cs)"

definition iseq :: "memory \<Rightarrow> u32 \<Rightarrow> string \<Rightarrow> nat \<Rightarrow> bool" where
  "iseq m a b len = iseq_from m a (take len b)"

text \<open>The loop over the addresses; one unit of fuel per turn.\<close>

fun rsd_loop :: "nat \<Rightarrow> memory \<Rightarrow> u32 \<Rightarrow> u32 \<Rightarrow> u32 res" where
  "rsd_loop n m i e =
     (if i < e then
        if iseq m i ''RSD PTR '' 8 then Inr i
        else case n of 0 \<Rightarrow> Inl NoFuel | Suc n' \<Rightarrow> rsd_loop n' m (i + 16) e
      else Inr 0)"

declare rsd_loop.simps [simp del]

definition findRSDInRange :: "memory \<Rightarrow> u32 \<Rightarrow> u32 \<Rightarrow> u32 res" where
  "findRSDInRange m start e = rsd_loop (unat (e - start)) m start e"

definition deref_u16 :: "memory \<Rightarrow> u32 \<Rightarrow> u16" where "deref_u16 m a = le16 (mem_bytes m a 2)"

definition findRSD :: "memory \<Rightarrow> u32 res" where
  "findRSD m =
     bindR (findRSDInRange m 0x000E0000 0x00100000) (\<lambda>it.
       if it = 0 then
         let base = push_bit 4 (ucast (deref_u16 m 0x40E))
         in findRSDInRange m base (base + push_bit 10 1)
       else Inr it)"

text \<open>\<open>k\<close> table addresses are left, the next at \<open>p\<close>.\<close>

fun sdt_loop :: "nat \<Rightarrow> memory \<Rightarrow> u32 \<Rightarrow> string \<Rightarrow> u32" where
  "sdt_loop 0 m p name = 0"
| "sdt_loop (Suc k) m p name = (let h = mem_load m p in if iseq m h name 4 then h else sdt_loop k m (p + 4) name)"

definition findSDT :: "memory \<Rightarrow> u32 \<Rightarrow> string \<Rightarrow> u32 res" where
  "findSDT m rsdp name =
     (if rsdp = 0 then Inl (Undef ''rsdp->rootSDT'')
      else
        let rsdt = rootSDT m rsdp;
            entries = (sdt_length m rsdt - sizeof_SDT) div 4
        in Inr (sdt_loop (unat entries) m (rsdt + sizeof_SDT) name))"

definition memAbove1M :: "mem_info \<Rightarrow> u32 res" where
  "memAbove1M mi =
     bindR (assertR (mi_cx mi = 15 * 1024 \<or> mi_dx mi = 0) ''(memInfo.cx == 15 * 1024) || (memInfo.dx == 0)'') (\<lambda>_.
       Inr (push_bit 10 (ucast (mi_ax mi OR mi_cx mi)) + push_bit 16 (ucast (mi_bx mi OR mi_dx mi))))"

section \<open>The processors\<close>

text \<open>What the loop does with the entry at \<open>e\<close>.\<close>

definition enter_madt :: "memory \<Rightarrow> u32 \<Rightarrow> config \<Rightarrow> config res" where
  "enter_madt m e cfg =
     (if entry_type m e = 0 then
        if apic_processorId m e = 0 then Inr cfg
        else
          let i = unat (nOtherProcs cfg) in
          if i < MAX_PROCS
          then Inr (cfg\<lparr>nOtherProcs := nOtherProcs cfg + 1,
                 apicInfo := (apicInfo cfg)[i := \<lparr>ai_processorId = apic_processorId m e, ai_apicId = apic_apicId m e, ai_flags = apic_flags m e\<rparr>]\<rparr>)
          else Inl (Undef ''apicInfo'')
      else if entry_type m e = 1 then Inr (cfg\<lparr>ioAPIC := ioapic_address m e\<rparr>)
      else Inr cfg)"

text \<open>The loop adds the length to the pointer before it looks at the entry. One unit of fuel per turn.\<close>

fun madt_loop :: "nat \<Rightarrow> memory \<Rightarrow> u32 \<Rightarrow> u32 \<Rightarrow> config \<Rightarrow> config res" where
  "madt_loop n m entryPtr bytesForEntries cfg =
     (if sint bytesForEntries > 0 then
        let len = ucast (entry_len m entryPtr);
            entryPtr' = entryPtr + len
        in bindR (enter_madt m entryPtr' cfg) (\<lambda>cfg'.
             case n of 0 \<Rightarrow> Inl NoFuel | Suc n' \<Rightarrow> madt_loop n' m entryPtr' (bytesForEntries - len) cfg')
      else Inr cfg)"

declare madt_loop.simps [simp del]

definition configInit :: "nat \<Rightarrow> mem_info \<Rightarrow> memory \<Rightarrow> config \<Rightarrow> config res" where
  "configInit fuel mi m cfg =
     bindR (memAbove1M mi) (\<lambda>mem_above.
     let cfg1 = cfg\<lparr>memSize := mem_above + push_bit 20 1\<rparr> in
     bindR (findRSD m) (\<lambda>rsdp.
     let cfg2 = (if rsdp \<noteq> 0 then cfg1\<lparr>oemid := rsd_OEMID m rsdp @ [0]\<rparr> else cfg1) in
     bindR (findSDT m rsdp ''APIC'') (\<lambda>madt.
     if madt = 0 then Inl (Undef ''madt->localAddress'')
     else
       let cfg3 = cfg2\<lparr>localAPIC := madt_localAddress m madt, madtFlags := madt_flags m madt, nOtherProcs := 0\<rparr>;
           bytesForEntries = sdt_length m madt - sizeof_MADT
       in bindR (madt_loop fuel m (madt + sizeof_MADT) bytesForEntries cfg3) (\<lambda>cfg4.
            Inr (cfg4\<lparr>totalProcs := nOtherProcs cfg4 + 1\<rparr>)))))"

section \<open>The search for the root description\<close>

text \<open>The addresses the loop visits.\<close>

definition candidates16 :: "u32 \<Rightarrow> u32 \<Rightarrow> u32 list" where
  "candidates16 start e = map (\<lambda>k. start + 16 * of_nat k) [0 ..< (unat e - unat start + 15) div 16]"

lemma candidates16_step:
  assumes "i < e" "unat e + 16 < 2 ^ 32"
  shows "candidates16 i e = i # candidates16 (i + 16) e" "unat (i + 16) = unat i + 16"
proof -
  have lt: "unat i < unat e" using assms(1) by (simp add: word_less_nat_alt)
  show u: "unat (i + 16) = unat i + 16" using lt assms(2) by (subst unat_plus_no_wrap) simp_all
  define n where "n = (unat e - unat (i + 16) + 15) div 16"
  have "(unat e - unat i + 15) div 16 = Suc n"
  proof (cases "unat i + 16 \<le> unat e")
    case True
    then have "unat e - unat i + 15 = (unat e - unat (i + 16) + 15) + 16" unfolding u by linarith
    then show ?thesis unfolding n_def by simp
  next
    case False
    define d where "d = unat e - unat i"
    have d: "unat e = unat i + d" "0 < d" "d < 16" using lt False unfolding d_def by linarith+
    then have "n = 0" unfolding n_def u by simp
    moreover have "(d + 15) div 16 = 1" using d(2,3) by (intro div_nat_eqI) simp_all
    ultimately show ?thesis using d(1) by simp
  qed
  then have "candidates16 i e = map (\<lambda>k. i + 16 * of_nat k) (0 # map Suc [0 ..< n])"
    by (simp only: candidates16_def map_Suc_upt upt_conv_Cons zero_less_Suc)
  then show "candidates16 i e = i # candidates16 (i + 16) e"
    unfolding candidates16_def n_def [symmetric] by (simp add: comp_def add.assoc ring_distribs)
qed

lemma rsd_loop_find:
  "unat e + 16 < 2 ^ 32 \<Longrightarrow> unat e - unat i \<le> n \<Longrightarrow>
   rsd_loop n m i e = Inr (case find (\<lambda>a. iseq m a ''RSD PTR '' 8) (candidates16 i e) of None \<Rightarrow> 0 | Some a \<Rightarrow> a)"
proof (induction n arbitrary: i)
  case 0
  then have "\<not> i < e" by (simp add: word_less_nat_alt)
  then show ?case by (simp add: rsd_loop.simps [of 0] candidates16_def word_less_nat_alt)
next
  case (Suc n)
  show ?case
  proof (cases "i < e")
    case False
    then show ?thesis by (simp add: rsd_loop.simps [of "Suc n"] candidates16_def word_less_nat_alt)
  next
    case True
    have "unat e - unat (i + 16) \<le> n" using Suc.prems(2) candidates16_step(2) [OF True Suc.prems(1)] by linarith
    then show ?thesis
      using True Suc.IH [OF Suc.prems(1), of "i + 16"] by (subst rsd_loop.simps) (simp add: candidates16_step(1) [OF True Suc.prems(1)])
  qed
qed

lemma findRSDInRange_find:
  assumes "start \<le> e" "unat e + 16 < 2 ^ 32"
  shows "findRSDInRange m start e = Inr (case find (\<lambda>a. iseq m a ''RSD PTR '' 8) (candidates16 start e) of None \<Rightarrow> 0 | Some a \<Rightarrow> a)"
proof -
  have "unat (e - start) = unat e - unat start" using assms(1) by (rule unat_minus_no_wrap)
  then show ?thesis unfolding findRSDInRange_def by (intro rsd_loop_find [OF assms(2)]) simp
qed

lemma ebda_range:
  fixes w :: u16
  shows "push_bit 4 (ucast w) \<le> push_bit 4 (ucast w) + (1024 :: u32)" "unat (push_bit 4 (ucast w) + 1024 :: u32) + 16 < 2 ^ 32"
proof -
  have w: "unat w < 65536" using unsigned_less [where 'a = nat, of w] by simp
  have "unat (ucast w :: u32) = unat w" using w by (simp add: unsigned_ucast_eq take_bit_nat_eq_self)
  then have "unat (push_bit 4 (ucast w) :: u32) = 16 * unat w"
    using w by (simp add: push_bit_eq_mult unat_word_ariths)
  then have "unat (push_bit 4 (ucast w) + 1024 :: u32) = 16 * unat w + 1024" using w by (subst unat_plus_no_wrap) simp_all
  then show "push_bit 4 (ucast w) \<le> push_bit 4 (ucast w) + (1024 :: u32)" "unat (push_bit 4 (ucast w) + 1024 :: u32) + 16 < 2 ^ 32"
    using w \<open>unat (push_bit 4 (ucast w) :: u32) = 16 * unat w\<close> by (simp_all add: word_le_nat_alt)
qed

text \<open>
  (findRSD_total) The search for the root description ends. Its result is the first multiple of 16 in the BIOS area, or else the first one in the kilobyte that the word at
  \<open>0x40E\<close> names, where the signature is; and null when there is none.
\<close>

theorem findRSD_total:
  "findRSD m = Inr
     (let base = push_bit 4 (ucast (deref_u16 m 0x40E));
          hit = (\<lambda>as. case find (\<lambda>a. iseq m a ''RSD PTR '' 8) as of None \<Rightarrow> 0 | Some a \<Rightarrow> a);
          it = hit (candidates16 0xE0000 0x100000)
      in if it = 0 then hit (candidates16 base (base + 1024)) else it)"
  unfolding findRSD_def Let_def
  using findRSDInRange_find [OF ebda_range, of m "deref_u16 m 0x40E"] findRSDInRange_find [of "0xE0000" "0x100000" m]
  by (simp add: push_bit_of_1 word_le_nat_alt)

section \<open>The list of processors\<close>

fun enter_all :: "memory \<Rightarrow> u32 list \<Rightarrow> config \<Rightarrow> config res" where
  "enter_all m [] cfg = Inr cfg"
| "enter_all m (e # es) cfg = bindR (enter_madt m e cfg) (enter_all m es)"

text \<open>\<open>madt_at m a n es\<close>: the \<open>n\<close> bytes from \<open>a\<close> are entries, and \<open>es\<close> are their addresses.\<close>

fun madt_at :: "memory \<Rightarrow> u32 \<Rightarrow> nat \<Rightarrow> u32 list \<Rightarrow> bool" where
  "madt_at m a n [] \<longleftrightarrow> n = 0"
| "madt_at m a n (e # es) \<longleftrightarrow>
     e = a \<and> 0 < unat (entry_len m a) \<and> unat (entry_len m a) \<le> n \<and> madt_at m (a + ucast (entry_len m a)) (n - unat (entry_len m a)) es"

text \<open>The loop handles all entries but the first, and then what lies behind the table.\<close>

lemma madt_loop_all:
  "madt_at m a (unat n) es \<Longrightarrow> unat n < 2 ^ 31 \<Longrightarrow> length es \<le> fuel \<Longrightarrow>
   madt_loop fuel m a n cfg = (if es = [] then Inr cfg else enter_all m (tl es @ [a + n]) cfg)"
proof (induction es arbitrary: a n fuel cfg)
  case Nil
  then have "n = 0" by (simp add: unat_eq_0)
  then show ?case by (simp add: madt_loop.simps [of fuel])
next
  case (Cons e es)
  obtain f where f: "fuel = Suc f" "length es \<le> f" using Cons.prems(3) by (cases fuel) auto
  define l where "l = (ucast (entry_len m a) :: u32)"
  have l: "unat l = unat (entry_len m a)"
    using unsigned_less [where 'a = nat, of "entry_len m a"] by (simp add: l_def unsigned_ucast_eq take_bit_nat_eq_self)
  have p: "0 < unat l" "unat l \<le> unat n" "madt_at m (a + l) (unat n - unat l) es" using Cons.prems(1) l by (simp_all add: l_def)
  have s: "sint n > 0"
  proof -
    have u: "uint n = int (unat n)" by (simp only: uint_nat)
    have "int (unat n) < int (2 ^ 31)" using Cons.prems(2) by (rule iffD2 [OF of_nat_less_iff])
    then have "uint n < 2 ^ 31" unfolding u by (simp only: of_nat_power of_nat_numeral)
    then have "sint n = uint n" unfolding sint_uint using uint_ge_0 [of n] by (intro signed_take_bit_int_eq_self) (auto intro: order_trans [of _ 0])
    then show ?thesis unfolding u using p(1,2) by linarith
  qed
  have m: "unat (n - l) = unat n - unat l" using p(2) by (intro unat_minus_no_wrap) (simp add: word_le_nat_alt)
  have "madt_loop f m (a + l) (n - l) c = (if es = [] then Inr c else enter_all m (tl es @ [a + n]) c)" for c
    using Cons.IH [of "a + l" "n - l" f c] p(3) m Cons.prems(2) f(2) by simp
  moreover have "es = [] \<Longrightarrow> n = l" using p(2,3) by (auto simp: word_unat_eq_iff)
  moreover have "es \<noteq> [] \<Longrightarrow> hd es = a + l" using p(3) by (cases es) simp_all
  ultimately show ?case
    using s by (subst madt_loop.simps) (cases es; auto simp: f(1) l_def [symmetric] Let_def cong: bindR_cong)
qed

definition processors :: "memory \<Rightarrow> u32 list \<Rightarrow> apic_info list" where
  "processors m es =
     map (\<lambda>e. \<lparr>ai_processorId = apic_processorId m e, ai_apicId = apic_apicId m e, ai_flags = apic_flags m e\<rparr>)
       (filter (\<lambda>e. entry_type m e = 0 \<and> apic_processorId m e \<noteq> 0) es)"

definition ioapics :: "memory \<Rightarrow> u32 list \<Rightarrow> u32 list" where
  "ioapics m es = map (ioapic_address m) (filter (\<lambda>e. entry_type m e = 1) es)"

lemma processors_simps [simp]:
  "processors m [] = []"
  "processors m (e # es) = (if entry_type m e = 0 \<and> apic_processorId m e \<noteq> 0
     then \<lparr>ai_processorId = apic_processorId m e, ai_apicId = apic_apicId m e, ai_flags = apic_flags m e\<rparr> # processors m es else processors m es)"
  "ioapics m [] = []" "ioapics m (e # es) = (if entry_type m e = 1 then ioapic_address m e # ioapics m es else ioapics m es)"
  by (simp_all add: processors_def ioapics_def)

text \<open>\<open>with_entries cfg ps is\<close>: the processors \<open>ps\<close> behind those that \<open>cfg\<close> has, and the last address of \<open>is\<close>.\<close>

definition with_entries :: "config \<Rightarrow> apic_info list \<Rightarrow> u32 list \<Rightarrow> config" where
  "with_entries cfg ps is =
     (let k = unat (nOtherProcs cfg) in
      cfg\<lparr>nOtherProcs := nOtherProcs cfg + of_nat (length ps),
        apicInfo := take k (apicInfo cfg) @ ps @ drop (k + length ps) (apicInfo cfg), ioAPIC := last (ioAPIC cfg # is)\<rparr>)"

lemma with_entries_Nil [simp]: "with_entries cfg [] [] = cfg"
  by (simp add: with_entries_def Let_def)

lemma enter_all_processors:
  "length (apicInfo cfg) = MAX_PROCS \<Longrightarrow> unat (nOtherProcs cfg) + length (processors m es) \<le> MAX_PROCS \<Longrightarrow>
   enter_all m es cfg = Inr (with_entries cfg (processors m es) (ioapics m es))"
proof (induction es arbitrary: cfg)
  case (Cons e es)
  consider "entry_type m e = 0" "apic_processorId m e \<noteq> 0" | "entry_type m e = 0" "apic_processorId m e = 0" | "entry_type m e = 1" | "entry_type m e \<noteq> 0" "entry_type m e \<noteq> 1"
    by blast
  then show ?case
  proof cases
    case 1
    let ?k = "unat (nOtherProcs cfg)" and ?p = "\<lparr>ai_processorId = apic_processorId m e, ai_apicId = apic_apicId m e, ai_flags = apic_flags m e\<rparr>"
    let ?c = "cfg\<lparr>nOtherProcs := nOtherProcs cfg + 1, apicInfo := (apicInfo cfg)[?k := ?p]\<rparr>"
    have k: "?k < 16" "?k + 1 + length (processors m es) \<le> 16" using Cons.prems(2) 1 by (simp_all add: MAX_PROCS_def)
    then have u: "unat (nOtherProcs cfg + 1) = ?k + 1" by (subst unat_plus_no_wrap) simp_all
    have "enter_all m es ?c = Inr (with_entries ?c (processors m es) (ioapics m es))"
      using Cons.IH [of ?c] Cons.prems(1) k(2) u by (simp add: MAX_PROCS_def)
    moreover have "take (Suc ?k) ((apicInfo cfg)[?k := ?p]) = take ?k (apicInfo cfg) @ [?p]"
      using Cons.prems(1) k(1) by (simp add: take_Suc_conv_app_nth MAX_PROCS_def)
    moreover have "drop (Suc ?k + n) ((apicInfo cfg)[?k := ?p]) = drop (Suc ?k + n) (apicInfo cfg)" for n by simp
    ultimately show ?thesis using 1 k(1) u by (simp add: enter_madt_def with_entries_def Let_def MAX_PROCS_def algebra_simps)
  next
    case 2
    then show ?thesis using Cons by (simp add: enter_madt_def)
  next
    case 3
    then show ?thesis using Cons.IH [of "cfg\<lparr>ioAPIC := ioapic_address m e\<rparr>"] Cons.prems by (simp add: enter_madt_def with_entries_def Let_def)
  next
    case 4
    then show ?thesis using Cons by (simp add: enter_madt_def)
  qed
qed simp


text \<open>The tables of a machine with two processors and one controller of interrupts, for the witness.\<close>

definition demo_rsd :: "u8 list" where
  "demo_rsd = map of_char ''RSD PTR '' @ [0] @ map of_char ''BOCHS '' @ [0] @ [0, 0x10, 0, 0]"

definition demo_rsdt :: "u8 list" where
  "demo_rsdt = map of_char ''RSDT'' @ [40, 0, 0, 0] @ replicate 28 0 @ [0, 0x20, 0, 0]"

definition demo_madt :: "u8 list" where
  "demo_madt = map of_char ''APIC'' @ [72, 0, 0, 0] @ replicate 28 0 @ [0, 0, 0xE0, 0xFE] @ [1, 0, 0, 0] @
     [0, 8, 0, 0, 1, 0, 0, 0] @ [0, 8, 1, 1, 1, 0, 0, 0] @ [1, 12, 2, 0, 0, 0, 0xC0, 0xFE, 0, 0, 0, 0] @ [2]"

definition demo_firmware :: memory where
  "demo_firmware a =
     (if a - 0xE0000 < 20 then demo_rsd ! unat (a - 0xE0000)
      else if a - 0x1000 < 40 then demo_rsdt ! unat (a - 0x1000)
      else if a - 0x2000 < 73 then demo_madt ! unat (a - 0x2000) else 0)"

definition demo_config :: config where
  "demo_config = \<lparr>memSize = 0, nOtherProcs = 0, totalProcs = 0, localAPIC = 0, madtFlags = 0, ioAPIC = 0,
     apicInfo = replicate 16 \<lparr>ai_processorId = 0, ai_apicId = 0, ai_flags = 0\<rparr>, oemid = replicate 7 0\<rparr>"

lemma demo_findRSD: "findRSD demo_firmware = Inr 0xE0000"
proof -
  have "iseq demo_firmware 0xE0000 ''RSD PTR '' 8" by code_simp
  then have "findRSDInRange demo_firmware 0xE0000 0x100000 = Inr 0xE0000"
    unfolding findRSDInRange_def by (subst rsd_loop.simps) simp
  then show ?thesis by (simp add: findRSD_def)
qed

lemma demo_sees:
  "findSDT demo_firmware 0xE0000 ''APIC'' = Inr 0x2000" "madt_at demo_firmware (0x2000 + 44) (unat (28 :: u32)) [0x202C, 0x2034, 0x203C]" "sdt_length demo_firmware 0x2000 - 44 = 28"
  "processors demo_firmware [0x2034, 0x203C, 0x2048] = [\<lparr>ai_processorId = 1, ai_apicId = 1, ai_flags = 1\<rparr>]"
  by code_simp+


text \<open>
  (madt_complete) The list of processors is complete when the table begins with the boot processor and no entry for a processor happens to lie behind it. (Otherwise the
  first entry is lost, or one that is not in the table counts.)
\<close>

lemma madt_complete:
  assumes "entry_type m e \<noteq> 0 \<or> apic_processorId m e = 0" "entry_type m behind \<noteq> 0 \<or> apic_processorId m behind = 0"
  shows "processors m (es @ [behind]) = processors m (e # es)"
  using assms by (auto simp: processors_def)

end
