(* ===== verification/Hardware.thy ===== *)
theory Hardware
  imports Snprintf PhysMem
begin

text \<open>
  The devices and tables of a processor that the kernel programs: interrupt gates (\<open>kernel/idt.cc\<close>), the registers of the local interrupt controller
  (\<open>kernel/smp.h\<close>, \<open>kernel/smp.cc\<close>), the timers (\<open>kernel/pit.cc\<close>), the serial port (\<open>kernel/u8250.cc\<close>) and the debug output over it (\<open>kernel/debug.cc\<close>).

  A device is what it answers: the accesses so far are a log, and the answer to the \<open>n\<close>-th access, if it is a read, is a parameter. Loops that wait for a device are
  partial functions, which return when the device gives the awaited answer.
\<close>

section \<open>Accesses\<close>

datatype hw_op = OutB u32 u8 | InB u32 | RegWrite u32 u32 | RegRead u32 | RdMsr u32 | WrMsr u32 "64 word"

record machine =
  hw_log :: "hw_op list"
  hw_answers :: "nat \<Rightarrow> 64 word"

definition hw_do :: "hw_op \<Rightarrow> machine \<Rightarrow> machine" where
  "hw_do a h = h\<lparr>hw_log := hw_log h @ [a]\<rparr>"

definition hw_read :: "hw_op \<Rightarrow> machine \<Rightarrow> 64 word \<times> machine" where
  "hw_read a h = (hw_answers h (length (hw_log h)), hw_do a h)"

definition outb :: "u32 \<Rightarrow> u32 \<Rightarrow> machine \<Rightarrow> machine" where
  "outb p v h = hw_do (OutB p (ucast v)) h"

definition set_reg :: "u32 \<Rightarrow> u32 \<Rightarrow> machine \<Rightarrow> machine" where
  "set_reg a v h = hw_do (RegWrite a v) h"

definition inb :: "u32 \<Rightarrow> machine \<Rightarrow> u32 \<times> machine" where
  "inb p h = (let (x, h1) = hw_read (InB p) h in (ucast x AND 0xff, h1))"

definition get_reg :: "u32 \<Rightarrow> machine \<Rightarrow> u32 \<times> machine" where
  "get_reg a h = (let (x, h1) = hw_read (RegRead a) h in (ucast x, h1))"

text \<open>The loop \<open>while (!ok(read))\<close>; every turn reads once.\<close>

partial_function (option) poll :: "(machine \<Rightarrow> u32 \<times> machine) \<Rightarrow> (u32 \<Rightarrow> bool) \<Rightarrow> machine \<Rightarrow> machine option" where
  "poll rd ok h = (let (x, h1) = rd h in if ok x then Some h1 else poll rd ok h1)"

section \<open>Interrupt gates\<close>

definition gate_lo :: "u32 \<Rightarrow> u32 \<Rightarrow> u32" where
  "gate_lo kernelCS handler = push_bit 16 kernelCS + (handler AND 0xffff)"

definition idt_interrupt :: "u32 \<Rightarrow> (nat \<Rightarrow> u32) \<Rightarrow> nat \<Rightarrow> u32 \<Rightarrow> (nat \<Rightarrow> u32)" where
  "idt_interrupt kernelCS idt index handler =
     (let i0 = 2 * index; i1 = i0 + 1
      in idt(i0 := gate_lo kernelCS handler, i1 := (handler AND 0xffff0000) OR 0x8e00))"

definition idt_trap :: "u32 \<Rightarrow> (nat \<Rightarrow> u32) \<Rightarrow> nat \<Rightarrow> u32 \<Rightarrow> u32 \<Rightarrow> (nat \<Rightarrow> u32)" where
  "idt_trap kernelCS idt index handler dpl =
     (let i0 = 2 * index; i1 = i0 + 1
      in idt(i0 := gate_lo kernelCS handler, i1 := (handler AND 0xffff0000) OR 0x8f00 OR push_bit 13 dpl))"

definition SYS_init :: "u32 \<Rightarrow> u32 \<Rightarrow> (nat \<Rightarrow> u32) \<Rightarrow> (nat \<Rightarrow> u32)" where
  "SYS_init kernelCS entry idt = idt_trap kernelCS idt 48 entry 3"

section \<open>The local interrupt controller\<close>

definition lapic_id :: "u32 \<Rightarrow> u32" where "lapic_id localAPIC = localAPIC + 0x20"
definition eoi_reg :: "u32 \<Rightarrow> u32" where "eoi_reg localAPIC = localAPIC + 0xb0"
definition spurious :: "u32 \<Rightarrow> u32" where "spurious localAPIC = localAPIC + 0xf0"
definition icr_low :: "u32 \<Rightarrow> u32" where "icr_low localAPIC = localAPIC + 0x300"
definition icr_high :: "u32 \<Rightarrow> u32" where "icr_high localAPIC = localAPIC + 0x310"
definition apit_lvt_timer :: "u32 \<Rightarrow> u32" where "apit_lvt_timer localAPIC = localAPIC + 0x320"
definition apit_initial_count :: "u32 \<Rightarrow> u32" where "apit_initial_count localAPIC = localAPIC + 0x380"
definition apit_current_count :: "u32 \<Rightarrow> u32" where "apit_current_count localAPIC = localAPIC + 0x390"
definition apit_divide :: "u32 \<Rightarrow> u32" where "apit_divide localAPIC = localAPIC + 0x3e0"

definition smp_me :: "u32 \<Rightarrow> machine \<Rightarrow> u32 \<times> machine" where
  "smp_me localAPIC h = (let (x, h1) = get_reg (lapic_id localAPIC) h in (drop_bit 24 x, h1))"

definition smp_ipi :: "u32 \<Rightarrow> u32 \<Rightarrow> u32 \<Rightarrow> machine \<Rightarrow> machine option" where
  "smp_ipi localAPIC i num h =
     (let h1 = set_reg (icr_high localAPIC) (push_bit 24 i) h;
          h2 = set_reg (icr_low localAPIC) num h1
      in poll (get_reg (icr_low localAPIC)) (\<lambda>x. x AND push_bit 12 1 = 0) h2)"

definition smp_init :: "bool \<Rightarrow> u32 \<Rightarrow> u32 \<Rightarrow> u32 \<Rightarrow> (nat \<Rightarrow> u32) \<Rightarrow> machine \<Rightarrow> (nat \<Rightarrow> u32) \<times> machine" where
  "smp_init isFirst localAPIC kernelCS entry idt h =
     (let idt1 = (if isFirst then idt_interrupt kernelCS idt 0xff entry else idt);
          h1 = outb 0x21 0xff h;
          h2 = outb 0xa1 0xff h1;
          (msr, h3) = hw_read (RdMsr 0x1B) h2;
          h4 = hw_do (WrMsr 0x1B (msr OR push_bit 11 1)) h3
      in (idt1, set_reg (spurious localAPIC) 0x1ff h4))"

section \<open>Timers\<close>

definition PIT_FREQ :: u32 where "PIT_FREQ = 1193182"

definition APIT_vector :: u32 where "APIT_vector = 40"

record pit =
  jiffiesPerSecond :: u32
  apitCounter :: u32
  jiffies :: u32

partial_function (option) pit_loop :: "u32 \<Rightarrow> u32 \<Rightarrow> machine \<Rightarrow> machine option" where
  "pit_loop changes last_t h =
     (if changes < 40 then
        (let (x, h1) = inb 0x61 h; t = x AND 0x20
         in if t \<noteq> last_t then pit_loop (changes + 1) t h1 else pit_loop changes last_t h1)
      else Some h)"

definition pit_divider :: u32 where
  "pit_divider = (let d = PIT_FREQ div 20 in if d AND 0xffff \<noteq> d then 0xffff else d)"

text \<open>Up to the loop: the program of the two timers, and the first reading of the port.\<close>

definition pit_start :: "u32 \<Rightarrow> machine \<Rightarrow> u32 \<times> machine" where
  "pit_start localAPIC h =
     (let h1 = set_reg (apit_lvt_timer localAPIC) 0x00010000 h;
          h2 = set_reg (apit_divide localAPIC) 0x0000000B h1;
          d = pit_divider;
          h3 = set_reg (apit_initial_count localAPIC) 0xffffffff h2;
          h4 = outb 0x61 1 h3;
          h5 = outb 0x43 0xB6 h4;
          h6 = outb 0x42 d h5;
          h7 = outb 0x42 (drop_bit 8 d) h6;
          (x, h8) = inb 0x61 h7
      in (x AND 0x20, h8))"

definition calibrate :: "u32 \<Rightarrow> u32 \<Rightarrow> u32 \<Rightarrow> u32 \<Rightarrow> (nat \<Rightarrow> u32) \<Rightarrow> pit \<Rightarrow> machine \<Rightarrow> ((nat \<Rightarrow> u32) \<times> pit \<times> machine) option res" where
  "calibrate localAPIC hz kernelCS entry idt p h =
     (if hz = 0 then Inl (Undef ''diff / hz'')
      else
        let (last_t, h1) = pit_start localAPIC h in
        Inr (case pit_loop 0 last_t h1 of
            None \<Rightarrow> None
          | Some h2 \<Rightarrow>
              let (cur, h3) = get_reg (apit_current_count localAPIC) h2;
                  diff = 0xffffffff - cur;
                  h4 = outb 0x61 0 h3
              in Some (idt_interrupt kernelCS idt (unat APIT_vector) entry,
                   p\<lparr>apitCounter := diff div hz, jiffiesPerSecond := hz\<rparr>, h4)))"

definition pit_init :: "u32 \<Rightarrow> pit \<Rightarrow> machine \<Rightarrow> machine res" where
  "pit_init localAPIC p h =
     (if apitCounter p = 0 then Inl (Panic ''apiCounter == 0, did you call Pit::calibrate?'')
      else
        let h1 = set_reg (apit_divide localAPIC) 0x0000000B h;
            h2 = set_reg (apit_lvt_timer localAPIC) (push_bit 17 1 OR push_bit 16 0 OR APIT_vector) h1
        in Inr (set_reg (apit_initial_count localAPIC) (apitCounter p) h2))"

definition apitHandler :: "u32 \<Rightarrow> pit \<Rightarrow> machine \<Rightarrow> pit \<times> machine" where
  "apitHandler localAPIC p h =
     (let (i, h1) = smp_me localAPIC h;
          p1 = (if i = 0 then p\<lparr>jiffies := jiffies p + 1\<rparr> else p)
      in (p1, set_reg (eoi_reg localAPIC) 0 h1))"

section \<open>The serial port\<close>

definition u8250_put :: "char \<Rightarrow> machine \<Rightarrow> machine option" where
  "u8250_put c h =
     (case poll (inb (0x3F8 + 5)) (\<lambda>x. x AND 0x20 \<noteq> 0) h of None \<Rightarrow> None | Some h1 \<Rightarrow> Some (outb 0x3F8 (of_char c) h1))"

definition u8250_get :: "machine \<Rightarrow> (u8 \<times> machine) option" where
  "u8250_get h =
     (case poll (inb (0x3F8 + 5)) (\<lambda>x. x AND 0x01 \<noteq> 0) h of
        None \<Rightarrow> None | Some h1 \<Rightarrow> (let (x, h2) = inb 0x3F8 h1 in Some (ucast x, h2)))"

fun put_chars :: "string \<Rightarrow> machine \<Rightarrow> machine option" where
  "put_chars [] h = Some h"
| "put_chars (c # cs) h = (case u8250_put c h of None \<Rightarrow> None | Some h1 \<Rightarrow> put_chars cs h1)"

text \<open>
  Debug output formats twice: once into nothing, which brings the arguments into memory before interrupts are disabled by the lock, and then to the sink.
\<close>

definition debug_vprintf :: "bool \<Rightarrow> ('f \<Rightarrow> nat \<Rightarrow> bool \<times> u32 \<times> u32) \<Rightarrow> string \<Rightarrow> 'f arg list \<Rightarrow> machine \<Rightarrow> machine option res" where
  "debug_vprintf sink fsplit fmt ap h =
     (if sink then
        bindR (vsnprintf fsplit 1000 fmt ap) (\<lambda>_. bindR (vsnprintf fsplit 1000 fmt ap) (\<lambda>s. Inr (put_chars s h)))
      else Inr (Some h))"

section \<open>Waiting\<close>

lemma hw_do_simps [simp]:
  "hw_answers (hw_do a h) = hw_answers h" "hw_log (hw_do a h) = hw_log h @ [a]"
  by (simp_all add: hw_do_def)

text \<open>A wait returns after the first answer that is accepted.\<close>

lemma poll_returns:
  assumes rd: "\<And>h. rd h = (f (hw_answers h (length (hw_log h))), hw_do a h)"
  shows "ok (f (hw_answers h (length (hw_log h) + n))) \<Longrightarrow> (\<forall>k<n. \<not> ok (f (hw_answers h (length (hw_log h) + k)))) \<Longrightarrow>
    poll rd ok h = Some (h\<lparr>hw_log := hw_log h @ replicate (Suc n) a\<rparr>)"
proof (induction n arbitrary: h)
  case 0
  then show ?case by (subst poll.simps) (simp add: rd hw_do_def)
next
  case (Suc n)
  have "\<not> ok (f (hw_answers h (length (hw_log h))))" using Suc.prems(2) by (metis add_0_right zero_less_Suc)
  moreover have "poll rd ok (hw_do a h) = Some (hw_do a h\<lparr>hw_log := hw_log (hw_do a h) @ replicate (Suc n) a\<rparr>)"
    using Suc.prems by (intro Suc.IH) auto
  ultimately show ?case by (subst poll.simps) (simp add: rd hw_do_def)
qed

lemma poll_ex:
  assumes rd: "\<And>h. rd h = (f (hw_answers h (length (hw_log h))), hw_do a h)" and ex: "\<exists>m \<ge> length (hw_log h). ok (f (hw_answers h m))"
  shows "\<exists>n. poll rd ok h = Some (h\<lparr>hw_log := hw_log h @ replicate (Suc n) a\<rparr>)"
proof -
  obtain m where "ok (f (hw_answers h (length (hw_log h) + m)))" using ex by (auto dest: le_Suc_ex)
  then have "ok (f (hw_answers h (length (hw_log h) + (LEAST m. ok (f (hw_answers h (length (hw_log h) + m)))))))" by (rule LeastI)
  moreover have "\<forall>k<(LEAST m. ok (f (hw_answers h (length (hw_log h) + m)))). \<not> ok (f (hw_answers h (length (hw_log h) + k)))"
    using not_less_Least by blast
  ultimately show ?thesis using poll_returns [OF rd] by blast
qed

lemma inb_rd: "inb p h = ((\<lambda>x. ucast x AND 0xff) (hw_answers h (length (hw_log h))), hw_do (InB p) h)"
  by (simp add: inb_def hw_read_def)

lemma get_reg_rd: "get_reg a h = (ucast (hw_answers h (length (hw_log h))), hw_do (RegRead a) h)"
  by (simp add: get_reg_def hw_read_def)

section \<open>Gates read back\<close>

text \<open>What the processor takes from the two words of a gate.\<close>

definition gate_offset :: "u32 \<Rightarrow> u32 \<Rightarrow> u32" where "gate_offset w0 w1 = (w1 AND 0xffff0000) OR (w0 AND 0xffff)"

definition gate_selector :: "u32 \<Rightarrow> u32" where "gate_selector w0 = drop_bit 16 w0"

definition gate_type :: "u32 \<Rightarrow> u32" where "gate_type w1 = take_bit 4 (drop_bit 8 w1)"

definition gate_dpl :: "u32 \<Rightarrow> u32" where "gate_dpl w1 = take_bit 2 (drop_bit 13 w1)"

definition gate_present :: "u32 \<Rightarrow> bool" where "gate_present w1 \<longleftrightarrow> bit w1 15"

lemma bit_low16 [simp]: "bit (0xffff :: int) n \<longleftrightarrow> n < 16"
  using bit_mask_iff [where 'a = int, of 16 n] by (simp add: mask_eq_exp_minus_1)

lemma halves: "(x AND 0xffff0000) OR (x AND 0xffff) = (x :: u32)"
proof -
  have "(0xffff0000 :: u32) = NOT 0xffff" by simp
  then show ?thesis by (simp only:) (rule bit_word_eqI, auto simp: bit_simps)
qed

lemma gate_lo_or: "gate_lo k h = push_bit 16 k OR (h AND 0xffff)"
  unfolding gate_lo_def by (rule disjunctive_add) (auto simp: bit_simps)

lemma take_bit_small: "unat x < 2 ^ n \<Longrightarrow> take_bit n (x :: u32) = x"
  by (simp add: word_unat_eq_iff unsigned_take_bit_eq take_bit_nat_eq_self)

lemma gate_words:
  fixes h :: u32
  assumes "kernelCS < 0x10000" "dpl < 4"
  defines "w0 \<equiv> gate_lo kernelCS h"
  shows "gate_selector w0 = kernelCS"
    and "gate_offset w0 ((h AND 0xffff0000) OR 0x8f00 OR push_bit 13 dpl) = h" "gate_offset w0 ((h AND 0xffff0000) OR 0x8e00) = h"
    and "gate_dpl ((h AND 0xffff0000) OR 0x8f00 OR push_bit 13 dpl) = dpl" "gate_dpl ((h AND 0xffff0000) OR 0x8e00) = 0"
    and "gate_type ((h AND 0xffff0000) OR 0x8f00 OR push_bit 13 dpl) = 0xf" "gate_type ((h AND 0xffff0000) OR 0x8e00) = 0xe"
    and "gate_present ((h AND 0xffff0000) OR 0x8f00 OR push_bit 13 dpl)" "gate_present ((h AND 0xffff0000) OR 0x8e00)"
proof -
  have k: "take_bit 16 kernelCS = kernelCS" "take_bit 2 dpl = dpl" using assms(1,2) by (intro take_bit_small; simp add: word_less_nat_alt)+
  have kb: "bit kernelCS n \<Longrightarrow> n < 16" "bit dpl n \<Longrightarrow> n < 2" for n using k by (metis bit_take_bit_iff)+
  show "gate_selector w0 = kernelCS"
    unfolding gate_selector_def w0_def gate_lo_or
    by (rule bit_word_eqI) (auto simp: bit_simps dest: kb(1))
  have lo: "w0 AND 0xffff = h AND 0xffff" unfolding w0_def gate_lo_or by (rule bit_word_eqI) (auto simp: bit_simps)
  have "push_bit 13 dpl AND 0xffff0000 = 0"
  proof -
    have "(0xffff0000 :: u32) = NOT 0xffff" by simp
    then show ?thesis by (simp only:) (rule bit_word_eqI, auto simp: bit_simps dest: kb(2))
  qed
  then have "((h AND 0xffff0000) OR 0x8f00 OR push_bit 13 dpl) AND 0xffff0000 = h AND 0xffff0000"
    "((h AND 0xffff0000) OR 0x8e00) AND 0xffff0000 = h AND 0xffff0000" by (simp_all add: bit.conj_disj_distrib2 and.assoc)
  then show "gate_offset w0 ((h AND 0xffff0000) OR 0x8f00 OR push_bit 13 dpl) = h" "gate_offset w0 ((h AND 0xffff0000) OR 0x8e00) = h"
    unfolding gate_offset_def lo by (simp_all only: halves)
  have d: "take_bit 2 (drop_bit 13 (push_bit 13 dpl)) = dpl"
    by (rule bit_word_eqI) (auto simp: bit_simps dest: kb(2))
  show "gate_dpl ((h AND 0xffff0000) OR 0x8f00 OR push_bit 13 dpl) = dpl" "gate_dpl ((h AND 0xffff0000) OR 0x8e00) = 0"
    unfolding gate_dpl_def by (simp_all add: drop_bit_or drop_bit_and take_bit_or take_bit_and d)
  have t: "take_bit 4 (drop_bit 8 (push_bit 13 dpl)) = 0"
    by (rule bit_word_eqI) (auto simp: bit_simps)
  show "gate_type ((h AND 0xffff0000) OR 0x8f00 OR push_bit 13 dpl) = 0xf" "gate_type ((h AND 0xffff0000) OR 0x8e00) = 0xe"
    unfolding gate_type_def by (simp_all add: drop_bit_or drop_bit_and take_bit_or take_bit_and t)
  show "gate_present ((h AND 0xffff0000) OR 0x8f00 OR push_bit 13 dpl)" "gate_present ((h AND 0xffff0000) OR 0x8e00)"
    unfolding gate_present_def by (simp_all add: bit_or_iff bit_and_iff)
qed


text \<open>
  (gates_read_back) A gate that \<open>IDT::interrupt\<close> or \<open>IDT::trap\<close> stores makes the processor enter the kernel code segment at the handler, with interrupts off or on, for callers of the
  given privilege; the other gates stay. The gate of the system calls is open to user programs.
\<close>

theorem gates_read_back:
  assumes "kernelCS < 0x10000" "dpl < 4"
  shows "let t1 = idt_interrupt kernelCS idt i handler; t2 = idt_trap kernelCS idt i handler dpl in
    gate_selector (t1 (2 * i)) = kernelCS \<and> gate_offset (t1 (2 * i)) (t1 (2 * i + 1)) = handler \<and>
      gate_present (t1 (2 * i + 1)) \<and> gate_type (t1 (2 * i + 1)) = 0xe \<and> gate_dpl (t1 (2 * i + 1)) = 0 \<and>
    gate_selector (t2 (2 * i)) = kernelCS \<and> gate_offset (t2 (2 * i)) (t2 (2 * i + 1)) = handler \<and>
      gate_present (t2 (2 * i + 1)) \<and> gate_type (t2 (2 * i + 1)) = 0xf \<and> gate_dpl (t2 (2 * i + 1)) = dpl \<and>
    (\<forall>j. j \<noteq> i \<longrightarrow> t1 (2 * j) = idt (2 * j) \<and> t1 (2 * j + 1) = idt (2 * j + 1) \<and> t2 (2 * j) = idt (2 * j) \<and> t2 (2 * j + 1) = idt (2 * j + 1)) \<and>
    gate_dpl (SYS_init kernelCS handler idt 97) = 3"
proof -
  have odd: "2 * j \<noteq> Suc (2 * k)" for j k :: nat by presburger
  have "(3 :: u32) < 4" by simp
  note s = gate_words(4) [OF assms(1) this, of handler]
  show ?thesis
    using gate_words [OF assms(1,2), of handler] odd s
    unfolding idt_interrupt_def idt_trap_def SYS_init_def Let_def by simp
qed

theorem gates_read_back_witness:
  "gate_offset (idt_trap 8 (\<lambda>_. 0) 48 0x123456 3 96) (idt_trap 8 (\<lambda>_. 0) 48 0x123456 3 97) = 0x123456"
  using gates_read_back [where kernelCS = 8 and dpl = 3 and idt = "\<lambda>_. 0" and i = 48 and handler = "0x123456"] by (simp add: Let_def)

section \<open>The output of the serial port\<close>

text \<open>The bytes the kernel has sent, and a port that becomes ready again and again.\<close>

definition sent :: "hw_op list \<Rightarrow> u8 list" where
  "sent ops = concat (map (\<lambda>a. case a of OutB p v \<Rightarrow> (if p = 0x3F8 then [v] else []) | _ \<Rightarrow> []) ops)"

definition uart_live :: "(nat \<Rightarrow> 64 word) \<Rightarrow> bool" where
  "uart_live ans \<longleftrightarrow> (\<forall>n. \<exists>m\<ge>n. bit (ans m) 5)"

lemma sent_simps [simp]:
  "sent [] = []" "sent (OutB p v # r) = (if p = 0x3F8 then v # sent r else sent r)" "sent (InB p # r) = sent r"
  "sent (xs @ ys) = sent xs @ sent ys"
  by (simp_all add: sent_def)

lemma sent_replicate [simp]: "sent (replicate n (InB p)) = []"
  by (induction n) simp_all

lemma bit5: "(ucast (x :: 64 word) AND 0xff :: u32) AND 0x20 \<noteq> 0 \<longleftrightarrow> bit x 5"
proof -
  have "y AND 0x20 = 0 \<longleftrightarrow> \<not> bit y 5" for y :: u32 using and_exp_eq_0_iff_not_bit [of y 5] by simp
  then show ?thesis by (simp add: bit_simps)
qed

lemma u8250_put_sends:
  assumes "uart_live (hw_answers h)"
  shows "\<exists>h'. u8250_put c h = Some h' \<and> hw_answers h' = hw_answers h \<and> sent (hw_log h') = sent (hw_log h) @ [of_char c]"
proof -
  have "\<exists>m \<ge> length (hw_log h). (ucast (hw_answers h m) AND 0xff :: u32) AND 0x20 \<noteq> 0"
    using assms unfolding bit5 by (simp add: uart_live_def)
  then have "\<exists>n. poll (inb (0x3F8 + 5)) (\<lambda>x. x AND 0x20 \<noteq> 0) h = Some (h\<lparr>hw_log := hw_log h @ replicate (Suc n) (InB (0x3F8 + 5))\<rparr>)"
    by (intro poll_ex [where f = "\<lambda>x. ucast x AND 0xff"] inb_rd)
  then obtain n where p: "poll (inb (0x3F8 + 5)) (\<lambda>x. x AND 0x20 \<noteq> 0) h = Some (h\<lparr>hw_log := hw_log h @ replicate (Suc n) (InB (0x3F8 + 5))\<rparr>)" ..
  have "(ucast (of_char c :: u32) :: u8) = of_char c" by (simp add: of_char_def unsigned_ucast_eq)
  then show ?thesis unfolding u8250_put_def p by (simp add: outb_def hw_do_def)
qed

lemma put_chars_sends:
  "uart_live (hw_answers h) \<Longrightarrow> \<exists>h'. put_chars cs h = Some h' \<and> hw_answers h' = hw_answers h \<and> sent (hw_log h') = sent (hw_log h) @ map of_char cs"
proof (induction cs arbitrary: h)
  case (Cons c cs)
  obtain h1 where h1: "u8250_put c h = Some h1" "hw_answers h1 = hw_answers h" "sent (hw_log h1) = sent (hw_log h) @ [of_char c]"
    using u8250_put_sends [OF Cons.prems] by blast
  show ?case using Cons.IH [of h1] Cons.prems h1 by simp
qed simp

text \<open>
  (debug_output_sends) A message of the kernel is sent completely and in order: when the port becomes ready again and again, printing a format of ordinary characters and directives ends
  and has sent exactly the texts of its pieces (when they are no longer than 1000 characters).
\<close>

theorem debug_output_sends:
  assumes "\<forall>x \<in> set xs. wf_piece 1000 x" "length (concat (map (piece_text 1000) xs)) \<le> 1000" "uart_live (hw_answers h)"
  shows "\<exists>h'. debug_vprintf True fsplit (concat (map piece_chars xs)) (concat (map piece_args xs) @ rest) h = Inr (Some h') \<and>
    sent (hw_log h') = sent (hw_log h) @ map of_char (concat (map (piece_text 1000) xs))"
proof -
  have "vsnprintf fsplit 1000 (concat (map piece_chars xs)) (concat (map piece_args xs) @ rest) = Inr (concat (map (piece_text 1000) xs))"
    using vsnprintf_out [OF assms(1), of fsplit rest] emit_all [of 0 "map (piece_text 1000) xs" 1000] assms(2) by simp
  then show ?thesis using put_chars_sends [OF assms(3), of "concat (map (piece_text 1000) xs)"] by (auto simp: debug_vprintf_def)
qed

theorem debug_output_sends_witness:
  "\<exists>h'. debug_vprintf True fsplit_none ''%d!'' [ANum 42] \<lparr>hw_log = [], hw_answers = \<lambda>_. - 1\<rparr> = Inr (Some h') \<and>
    sent (hw_log h') = [52, 50, 33]"
proof -
  let ?xs = "[Dir (Directive [] [] None None CHR ''d'') [ANum 42], Lit CHR ''!''] :: unit piece list"
  have "\<forall>x \<in> set ?xs. wf_piece 1000 x" by (simp add: wf_directive_def conv_chars_def prec_of_def number_of_def directive_text_def num_text_def)
  moreover have t: "concat (map (piece_text 1000) ?xs) = ''42!''" by code_simp
  moreover have "uart_live (\<lambda>_. - 1)" by (auto simp: uart_live_def)
  ultimately show ?thesis
    using debug_output_sends [of ?xs "\<lparr>hw_log = [], hw_answers = \<lambda>_. - 1\<rparr>" fsplit_none "[]"] by (simp add: directive_chars_def)
qed

section \<open>Calibration\<close>

fun flips :: "bool list \<Rightarrow> nat" where
  "flips (x # y # r) = (if x \<noteq> y then 1 else 0) + flips (y # r)"
| "flips _ = 0"

text \<open>The answers of the port from the \<open>a\<close>-th access on, \<open>n\<close> of them; and a timer that runs.\<close>

definition levels :: "(nat \<Rightarrow> 64 word) \<Rightarrow> nat \<Rightarrow> nat \<Rightarrow> bool list" where
  "levels ans a n = map (\<lambda>j. bit (ans (a + j)) 5) [0 ..< n]"

definition pit_live :: "(nat \<Rightarrow> 64 word) \<Rightarrow> bool" where
  "pit_live ans \<longleftrightarrow> (\<forall>n b. \<exists>m\<ge>n. bit (ans m) 5 = b)"

lemma levels_add: "levels ans a (m + n) = levels ans a m @ levels ans (a + m) n"
  by (induction n) (simp_all add: levels_def add.assoc)

lemma flips_same: "flips (b # replicate m b @ r) = flips (b # r)"
  by (induction m) simp_all

definition t_of :: "bool \<Rightarrow> u32" where "t_of b = (if b then 0x20 else 0)"

lemma and_0x20: "(ucast (x :: 64 word) AND 0xff :: u32) AND 0x20 = t_of (bit x 5)"
proof -
  have "y AND 0x20 = t_of (bit y 5)" for y :: u32
  proof -
    have e: "(0x20 :: u32) = push_bit 5 1" by simp
    show ?thesis unfolding t_of_def e by (rule bit_word_eqI) (auto simp: bit_simps bit_1_iff simp del: push_bit_of_1 push_bit_numeral)
  qed
  then show ?thesis by (simp add: and.assoc bit_simps)
qed

text \<open>Until the next change.\<close>

lemma pit_loop_phase:
  assumes "c < 40"
  shows "(\<forall>j<m. bit (hw_answers h (length (hw_log h) + j)) 5 = b) \<Longrightarrow> bit (hw_answers h (length (hw_log h) + m)) 5 \<noteq> b \<Longrightarrow>
    pit_loop c (t_of b) h = pit_loop (c + 1) (t_of (\<not> b)) (h\<lparr>hw_log := hw_log h @ replicate (Suc m) (InB 0x61)\<rparr>)"
proof (induction m arbitrary: h)
  case 0
  have t: "t_of x = t_of y \<longleftrightarrow> x = y" for x y by (simp add: t_of_def)
  have "bit (hw_answers h (length (hw_log h))) 5 = (\<not> b)" using 0 by auto
  then show ?case using assms by (subst pit_loop.simps) (simp add: inb_rd and_0x20 t Let_def hw_do_def)
next
  case (Suc m)
  have "bit (hw_answers h (length (hw_log h))) 5 = b" using Suc.prems(1) by (metis add_0_right zero_less_Suc)
  then have "pit_loop c (t_of b) h = pit_loop c (t_of b) (hw_do (InB 0x61) h)"
    using assms by (subst pit_loop.simps) (simp add: inb_rd and_0x20 Let_def)
  also have "\<dots> = pit_loop (c + 1) (t_of (\<not> b)) ((hw_do (InB 0x61) h)\<lparr>hw_log := hw_log (hw_do (InB 0x61) h) @ replicate (Suc m) (InB 0x61)\<rparr>)"
    using Suc.prems by (intro Suc.IH) auto
  finally show ?case by (simp add: hw_do_def)
qed

lemma next_change:
  assumes "pit_live ans"
  obtains m where "\<forall>j<m. bit (ans (a + j)) 5 = b" "bit (ans (a + m)) 5 \<noteq> b"
proof -
  obtain m where "m \<ge> a" "bit (ans m) 5 = (\<not> b)" using assms by (auto simp: pit_live_def)
  then have "bit (ans (a + (m - a))) 5 \<noteq> b" by simp
  then have "bit (ans (a + (LEAST k. bit (ans (a + k)) 5 \<noteq> b))) 5 \<noteq> b" by (rule LeastI)
  moreover have "\<forall>j<(LEAST k. bit (ans (a + k)) 5 \<noteq> b). bit (ans (a + j)) 5 = b" using not_less_Least by blast
  ultimately show thesis using that by blast
qed

lemma levels_phase:
  "(\<forall>j<m. bit (ans (a + j)) 5 = b) \<Longrightarrow> bit (ans (a + m)) 5 \<noteq> b \<Longrightarrow>
   levels ans a (Suc m + n) = replicate m b @ (\<not> b) # levels ans (a + Suc m) n"
  unfolding levels_add by (auto simp: levels_def list_eq_iff_nth_eq nth_append less_Suc_eq)

text \<open>The loop reads until the level has changed as often as is missing from 40, and no longer.\<close>

lemma pit_loop_counts:
  "unat c + k = 40 \<Longrightarrow> pit_live (hw_answers h) \<Longrightarrow>
   \<exists>n. pit_loop c (t_of b) h = Some (h\<lparr>hw_log := hw_log h @ replicate n (InB 0x61)\<rparr>) \<and>
     flips (b # levels (hw_answers h) (length (hw_log h)) n) = k \<and>
     (\<forall>n'<n. flips (b # levels (hw_answers h) (length (hw_log h)) n') < k)"
proof (induction k arbitrary: c b h)
  case 0
  then have "\<not> c < 40" by (simp add: word_less_nat_alt)
  then show ?case by (intro exI [of _ 0]) (simp add: pit_loop.simps [of c] levels_def)
next
  case (Suc k)
  have c: "c < 40" "unat (c + 1) + k = 40" using Suc.prems(1) by (simp_all add: word_less_nat_alt unat_plus_no_wrap)
  define a where "a = length (hw_log h)"
  obtain m where m: "\<forall>j<m. bit (hw_answers h (a + j)) 5 = b" "bit (hw_answers h (a + m)) 5 \<noteq> b"
    using next_change [OF Suc.prems(2)] by blast
  let ?h = "h\<lparr>hw_log := hw_log h @ replicate (Suc m) (InB 0x61)\<rparr>"
  have "\<exists>n. pit_loop (c + 1) (t_of (\<not> b)) ?h = Some (?h\<lparr>hw_log := hw_log ?h @ replicate n (InB 0x61)\<rparr>) \<and>
     flips ((\<not> b) # levels (hw_answers ?h) (length (hw_log ?h)) n) = k \<and>
     (\<forall>n'<n. flips ((\<not> b) # levels (hw_answers ?h) (length (hw_log ?h)) n') < k)"
    using Suc.prems(2) by (intro Suc.IH c(2)) simp
  then obtain n where n: "pit_loop (c + 1) (t_of (\<not> b)) ?h = Some (?h\<lparr>hw_log := hw_log ?h @ replicate n (InB 0x61)\<rparr>)"
    "flips ((\<not> b) # levels (hw_answers h) (a + Suc m) n) = k" "\<forall>n'<n. flips ((\<not> b) # levels (hw_answers h) (a + Suc m) n') < k"
    by (auto simp: a_def)
  have "pit_loop c (t_of b) h = Some (h\<lparr>hw_log := hw_log h @ replicate (Suc m + n) (InB 0x61)\<rparr>)"
    using pit_loop_phase [OF c(1), of m h b] m n(1) by (simp add: a_def replicate_add)
  moreover have "flips (b # levels (hw_answers h) a (Suc m + n)) = Suc k"
    using levels_phase [OF m, of n] n(2) by (simp only: flips_same append.assoc) (simp add: flips_same)
  moreover have "flips (b # levels (hw_answers h) a n') < Suc k" if "n' < Suc m + n" for n'
  proof (cases "n' \<le> m")
    case True
    then have "levels (hw_answers h) a n' = replicate n' b @ []" using m(1) by (auto simp: levels_def list_eq_iff_nth_eq)
    then show ?thesis by (simp only: flips_same) simp
  next
    case False
    then obtain i where i: "n' = Suc m + i" by (metis Suc_leI le_Suc_ex not_le)
    then have "flips ((\<not> b) # levels (hw_answers h) (a + Suc m) i) < k" using n(3) that by simp
    then show ?thesis using levels_phase [OF m, of i] by (simp add: i flips_same)
  qed
  ultimately show ?case unfolding a_def by blast
qed

definition pit_program :: "u32 \<Rightarrow> hw_op list" where
  "pit_program localAPIC =
     [RegWrite (apit_lvt_timer localAPIC) 0x10000, RegWrite (apit_divide localAPIC) 0xB, RegWrite (apit_initial_count localAPIC) 0xffffffff,
      OutB 0x61 1, OutB 0x43 0xB6, OutB 0x42 0x0B, OutB 0x42 0xE9]"

lemma pit_start_log:
  "pit_start localAPIC h =
     (t_of (bit (hw_answers h (length (hw_log h) + 7)) 5), h\<lparr>hw_log := hw_log h @ pit_program localAPIC @ [InB 0x61]\<rparr>)"
  by (simp add: pit_start_def Let_def set_reg_def outb_def inb_rd and_0x20 pit_divider_def PIT_FREQ_def hw_do_def pit_program_def drop_bit_eq_div unsigned_ucast_eq)
    (simp add: eval_nat_numeral)

text \<open>
  (calibrate_correct) The calibration of the timer ends when the old timer's output keeps changing. From the start of the counter to the reading of it the output has changed exactly 40 times, which is the
  second the divider 59659 stands for, and no later reading was needed; the reload value is the count of that second divided by the frequency, and both timers were programmed as described.
\<close>

theorem calibrate_correct:
  assumes "hz \<noteq> 0" "pit_live (hw_answers h)"
  shows "\<exists>n. let a = length (hw_log h) + 7; cur = ucast (hw_answers h (a + Suc n)) in
    flips (levels (hw_answers h) a (Suc n)) = 40 \<and> (\<forall>n'<n. flips (levels (hw_answers h) a (Suc n')) < 40) \<and>
    calibrate localAPIC hz kernelCS entry idt p h =
      Inr (Some (idt_interrupt kernelCS idt 40 entry, p\<lparr>apitCounter := (0xffffffff - cur) div hz, jiffiesPerSecond := hz\<rparr>,
        h\<lparr>hw_log := hw_log h @ pit_program localAPIC @ replicate (Suc n) (InB 0x61) @ [RegRead (apit_current_count localAPIC), OutB 0x61 0]\<rparr>))"
proof -
  define a where "a = length (hw_log h) + 7"
  define b where "b = bit (hw_answers h a) 5"
  let ?h = "h\<lparr>hw_log := hw_log h @ pit_program localAPIC @ [InB 0x61]\<rparr>"
  have len: "length (hw_log ?h) = Suc a" by (simp add: pit_program_def a_def)
  have "\<exists>n. pit_loop 0 (t_of b) ?h = Some (?h\<lparr>hw_log := hw_log ?h @ replicate n (InB 0x61)\<rparr>) \<and>
     flips (b # levels (hw_answers ?h) (length (hw_log ?h)) n) = 40 \<and> (\<forall>n'<n. flips (b # levels (hw_answers ?h) (length (hw_log ?h)) n') < 40)"
    using assms(2) by (intro pit_loop_counts) simp_all
  then obtain n where n: "pit_loop 0 (t_of b) ?h = Some (?h\<lparr>hw_log := hw_log ?h @ replicate n (InB 0x61)\<rparr>)"
    "flips (b # levels (hw_answers h) (Suc a) n) = 40" "\<forall>n'<n. flips (b # levels (hw_answers h) (Suc a) n') < 40" unfolding len by auto
  have len2: "length (hw_log h) + (length (pit_program localAPIC) + m) = a + m" for m by (simp add: pit_program_def a_def)
  have lv: "levels (hw_answers h) a (Suc m) = b # levels (hw_answers h) (Suc a) m" for m
    using levels_add [of "hw_answers h" a 1 m] by (simp add: levels_def b_def)
  have "calibrate localAPIC hz kernelCS entry idt p h =
      Inr (Some (idt_interrupt kernelCS idt 40 entry, p\<lparr>apitCounter := (0xffffffff - ucast (hw_answers h (a + Suc n))) div hz, jiffiesPerSecond := hz\<rparr>,
        h\<lparr>hw_log := hw_log h @ pit_program localAPIC @ replicate (Suc n) (InB 0x61) @ [RegRead (apit_current_count localAPIC), OutB 0x61 0]\<rparr>))"
    using assms(1) n(1)
    by (simp add: len2 calibrate_def pit_start_log a_def [symmetric] b_def [symmetric] get_reg_rd Let_def outb_def hw_do_def APIT_vector_def replicate_app_Cons_same)
  then show ?thesis using n(2,3) unfolding a_def [symmetric] Let_def lv by blast
qed

theorem calibrate_correct_witness:
  "\<exists>idt p h. calibrate 0xFEE00000 1000 8 0x123456 (\<lambda>_. 0) \<lparr>jiffiesPerSecond = 0, apitCounter = 0, jiffies = 0\<rparr>
     \<lparr>hw_log = [], hw_answers = \<lambda>n. if even n then 0x20 else 0\<rparr> = Inr (Some (idt, p, h))"
proof -
  let ?ans = "\<lambda>n. if even n then 0x20 else (0 :: 64 word)"
  have "bit (?ans n) 5 = even n" for n :: nat by (simp add: bit_iff_odd_drop_bit drop_bit_eq_div)
  moreover have "\<exists>m\<ge>n. even m = b" for n :: nat and b by (cases "even n = b") (auto intro: exI [of _ n] exI [of _ "Suc n"])
  ultimately have "pit_live ?ans" by (simp only: pit_live_def) blast
  then show ?thesis
    using calibrate_correct [of 1000 "\<lparr>hw_log = [], hw_answers = ?ans\<rparr>" "0xFEE00000" 8 "0x123456" "\<lambda>_. 0" "\<lparr>jiffiesPerSecond = 0, apitCounter = 0, jiffies = 0\<rparr>"]
    unfolding Let_def by auto
qed

section \<open>Messages between processors\<close>

text \<open>
  A message is addressed first; then the command is written, and the sender waits until it is delivered.
\<close>

lemma smp_ipi_delivers:
  assumes "\<exists>m \<ge> length (hw_log h) + 2. \<not> bit (hw_answers h m) 12"
  shows "\<exists>n. smp_ipi localAPIC i num h = Some (h\<lparr>hw_log := hw_log h @ [RegWrite (icr_high localAPIC) (push_bit 24 i), RegWrite (icr_low localAPIC) num] @
    replicate (Suc n) (RegRead (icr_low localAPIC))\<rparr>)"
proof -
  let ?h = "set_reg (icr_low localAPIC) num (set_reg (icr_high localAPIC) (push_bit 24 i) h)"
  have b: "(ucast (x :: 64 word) :: u32) AND push_bit 12 1 = 0 \<longleftrightarrow> \<not> bit x 12" for x
    using and_exp_eq_0_iff_not_bit [of "ucast x :: u32" 12] by (simp add: bit_simps push_bit_of_1)
  have "\<exists>m \<ge> length (hw_log ?h). (ucast (hw_answers ?h m) :: u32) AND push_bit 12 1 = 0"
    using assms unfolding b by (simp add: set_reg_def)
  then have "\<exists>n. poll (get_reg (icr_low localAPIC)) (\<lambda>x. x AND push_bit 12 1 = 0) ?h = Some (?h\<lparr>hw_log := hw_log ?h @ replicate (Suc n) (RegRead (icr_low localAPIC))\<rparr>)"
    by (intro poll_ex [where f = ucast] get_reg_rd)
  then show ?thesis by (simp add: smp_ipi_def Let_def set_reg_def hw_do_def)
qed

text \<open>The start-up command names the page of the entry: it fits into the eight bits of the command when the entry is a page of the first megabyte.\<close>

lemma startup_vector:
  assumes "is_frame eip" "unat eip < 2 ^ 20"
  shows "push_bit 12 ((0x4600 OR drop_bit 12 eip) AND 0xff) = eip" "(0x4600 OR drop_bit 12 eip) AND 0xff00 = 0x4600"
proof -
  have e: "unat (drop_bit 12 eip) = unat eip div 4096" by (simp add: drop_bit_eq_div unat_div)
  then have t: "take_bit 8 (drop_bit 12 eip) = drop_bit 12 eip" using assms(2) by (intro take_bit_small) simp
  then have v: "bit (drop_bit 12 eip) n \<Longrightarrow> n < 8" for n using t by (metis bit_take_bit_iff)
  then have v': "bit eip (12 + n) \<Longrightarrow> n < 8" for n by (simp add: bit_drop_bit_eq)
  have "(0x4600 OR drop_bit 12 eip) AND 0xff = drop_bit 12 eip AND 0xff" by (simp add: bit.conj_disj_distrib2)
  also have "\<dots> = drop_bit 12 eip"
  proof -
    have "(0xff :: u32) = mask 8" by (simp add: mask_eq_exp_minus_1)
    then show ?thesis using t by (simp only: take_bit_eq_mask)
  qed
  finally have "push_bit 12 ((0x4600 OR drop_bit 12 eip) AND 0xff) = push_bit 12 (drop_bit 12 eip)" by simp
  also have "\<dots> = eip"
  proof (rule word_unat_eq_iff [THEN iffD2])
    obtain k where k: "unat eip = 4096 * k" using assms(1) by (auto simp: is_frame_def)
    then show "unat (push_bit 12 (drop_bit 12 eip)) = unat eip" using e assms(2) by (simp add: push_bit_eq_mult unat_word_ariths)
  qed
  finally show "push_bit 12 ((0x4600 OR drop_bit 12 eip) AND 0xff) = eip" .
  have "drop_bit 12 eip AND 0xff00 = 0"
  proof -
    have m: "(0xff00 :: u32) = push_bit 8 0xff" by simp
    show ?thesis unfolding m by (rule bit_word_eqI) (auto simp: bit_simps dest: v' simp del: push_bit_numeral)
  qed
  then show "(0x4600 OR drop_bit 12 eip) AND 0xff00 = 0x4600" by (simp add: bit.conj_disj_distrib2)
qed

end
