(* ===== verification/Debug.thy ===== *)
theory Debug
  imports Hardware
begin

text \<open>
  Messages, checks, panics and the end of the machine, \<open>kernel/debug.cc\<close> and \<open>kernel/debug.h\<close>, over the serial port of \<open>Hardware\<close>. The state is that of the class \<open>Debug\<close> and the machine.
  A result \<open>None\<close> means that the port never becomes ready; the operations that do not return end in a loop, and the state after \<open>n\<close> turns of it is their result. The lock around a message is
  the one of \<open>Spin\<close>.
\<close>

section \<open>Definitions\<close>

record debug =
  sink :: bool
  checks :: u32
  shutdown_called :: bool
  debugAll :: bool
  showed_checks :: bool

type_synonym dstate = "debug \<times> machine"

definition thenD :: "dstate option res \<Rightarrow> (dstate \<Rightarrow> dstate option res) \<Rightarrow> dstate option res" where
  "thenD m f = bindR m (\<lambda>x. case x of None \<Rightarrow> Inr None | Some s \<Rightarrow> f s)"

definition debug_init :: "dstate \<Rightarrow> dstate" where
  "debug_init s = ((fst s)\<lparr>sink := True\<rparr>, snd s)"

definition debug_printf :: "('f \<Rightarrow> nat \<Rightarrow> bool \<times> u32 \<times> u32) \<Rightarrow> string \<Rightarrow> 'f arg list \<Rightarrow> dstate \<Rightarrow> dstate option res" where
  "debug_printf fsplit fmt ap s = mapR (map_option (\<lambda>h. (fst s, h))) (debug_vprintf (sink (fst s)) fsplit fmt ap (snd s))"

text \<open>The loop that asks the emulator to exit, after \<open>n\<close> turns.\<close>

definition exit_loop :: "nat \<Rightarrow> dstate \<Rightarrow> dstate" where
  "exit_loop n s = ((fst s)\<lparr>shutdown_called := True\<rparr>, (outb 0xf4 0 ^^ n) (snd s))"

definition debug_shutdown :: "nat \<Rightarrow> ('f \<Rightarrow> nat \<Rightarrow> bool \<times> u32 \<times> u32) \<Rightarrow> u32 \<Rightarrow> dstate \<Rightarrow> dstate option res" where
  "debug_shutdown n fsplit localAPIC s =
     (let showed = showed_checks (fst s);
          s1 = ((fst s)\<lparr>showed_checks := True\<rparr>, snd s)
      in thenD (if \<not> showed \<and> checks (fst s1) > 0 then debug_printf fsplit (''*** passed %d checks'' @ [char_of (10 :: nat)]) [ANum (checks (fst s1))] s1
                else Inr (Some s1)) (\<lambda>s2.
         let (i, h) = smp_me localAPIC (snd s2) in
         thenD (debug_printf fsplit (''shutdown'' @ [char_of (10 :: nat)]) [ANum i] (fst s2, h)) (\<lambda>s3. Inr (Some (exit_loop n s3)))))"

definition debug_vpanic :: "nat \<Rightarrow> ('f \<Rightarrow> nat \<Rightarrow> bool \<times> u32 \<times> u32) \<Rightarrow> u32 \<Rightarrow> string \<Rightarrow> 'f arg list \<Rightarrow> dstate \<Rightarrow> dstate option res" where
  "debug_vpanic n fsplit localAPIC fmt ap s =
     thenD (debug_printf fsplit fmt ap s) (\<lambda>s1.
       let (i, h) = smp_me localAPIC (snd s1) in
       thenD (debug_printf fsplit (''| processor %d halting'' @ [char_of (10 :: nat)]) [ANum i] (fst s1, h)) (\<lambda>s2. Inr (Some (exit_loop n s2))))"

definition debug_check :: "nat \<Rightarrow> ('f \<Rightarrow> nat \<Rightarrow> bool \<times> u32 \<times> u32) \<Rightarrow> u32 \<Rightarrow> bool \<Rightarrow> string \<Rightarrow> string \<Rightarrow> u32 \<Rightarrow> dstate \<Rightarrow> dstate option res" where
  "debug_check n fsplit localAPIC invariant invariant_text file line s =
     (let s1 = ((fst s)\<lparr>checks := checks (fst s) + 1\<rparr>, snd s) in
      if \<not> invariant
      then debug_vpanic n fsplit localAPIC (''*** Check [%s] failed at %s:%d'' @ [char_of (10 :: nat)]) [AStr (Some invariant_text), AStr (Some file), ANum line] s1
      else Inr (Some s1))"

definition debug_assert :: "nat \<Rightarrow> ('f \<Rightarrow> nat \<Rightarrow> bool \<times> u32 \<times> u32) \<Rightarrow> u32 \<Rightarrow> bool \<Rightarrow> string \<Rightarrow> string \<Rightarrow> u32 \<Rightarrow> dstate \<Rightarrow> dstate option res" where
  "debug_assert n fsplit localAPIC invariant invariant_text file line s =
     (if \<not> invariant
      then debug_vpanic n fsplit localAPIC (''*** Assertion [%s] failed at %s:%d'' @ [char_of (10 :: nat)]) [AStr (Some invariant_text), AStr (Some file), ANum line] s
      else Inr (Some s))"

definition debug_missing :: "nat \<Rightarrow> ('f \<Rightarrow> nat \<Rightarrow> bool \<times> u32 \<times> u32) \<Rightarrow> u32 \<Rightarrow> string \<Rightarrow> u32 \<Rightarrow> dstate \<Rightarrow> dstate option res" where
  "debug_missing n fsplit localAPIC file line s =
     debug_vpanic n fsplit localAPIC (''*** Missing code at %s:%d'' @ [char_of (10 :: nat)]) [AStr (Some file), ANum line] s"

text \<open>An instance of the class: \<open>what\<close> and its \<open>flag\<close>.\<close>

definition vdebug :: "('f \<Rightarrow> nat \<Rightarrow> bool \<times> u32 \<times> u32) \<Rightarrow> string \<Rightarrow> bool \<Rightarrow> string \<Rightarrow> 'f arg list \<Rightarrow> dstate \<Rightarrow> dstate option res" where
  "vdebug fsplit what flag fmt ap s =
     (if debugAll (fst s) \<or> flag
      then thenD (debug_printf fsplit ''[%s] '' [AStr (Some what)] s) (\<lambda>s1.
           thenD (debug_printf fsplit fmt ap s1) (\<lambda>s2. debug_printf fsplit [char_of (10 :: nat)] [] s2))
      else Inr (Some s))"

section \<open>Messages\<close>

text \<open>The pieces of these formats.\<close>

definition lits :: "string \<Rightarrow> 'f piece list" where
  "lits cs = map Lit cs"

definition str_piece :: "string \<Rightarrow> 'f piece" where
  "str_piece cs = Dir (Directive [] [] None None CHR ''s'') [AStr (Some cs)]"

definition num_piece :: "u32 \<Rightarrow> 'f piece" where
  "num_piece v = Dir (Directive [] [] None None CHR ''d'') [ANum v]"

definition decimal :: "u32 \<Rightarrow> string" where
  "decimal v = int_text v 10 0 (- 1) {}"

lemma lits_simps [simp]:
  "concat (map piece_chars (lits cs)) = cs" "concat (map piece_args (lits cs)) = []" "concat (map (piece_text m) (lits cs)) = cs"
  by (induction cs) (simp_all add: lits_def)

lemma lits_wf [simp]: "(\<forall>x \<in> set (lits cs). wf_piece m x) \<longleftrightarrow> CHR ''%'' \<notin> set cs"
  by (auto simp: lits_def)

lemma piece_simps [simp]:
  "piece_chars (str_piece cs) = ''%s''" "piece_args (str_piece cs) = [AStr (Some cs)]" "wf_piece m (str_piece cs)"
  "piece_chars (num_piece v) = ''%d''" "piece_args (num_piece v) = [ANum v]" "wf_piece m (num_piece v)" "piece_text m (num_piece v) = decimal v"
  by (simp_all add: str_piece_def num_piece_def directive_chars_def wf_directive_def conv_chars_def directive_text_def num_text_def prec_of_def number_of_def
      decimal_def)

lemma str_piece_text [simp]: "int (length cs) \<le> m \<Longrightarrow> piece_text m (str_piece cs) = cs"
  by (simp add: str_piece_def directive_text_def prec_of_def number_of_def str_text_def Let_def)

lemma debug_printf_sends:
  assumes "sink (fst s)" "uart_live (hw_answers (snd s))" "\<forall>x \<in> set xs. wf_piece 1000 x" "length (concat (map (piece_text 1000) xs)) \<le> 1000"
    and "fmt = concat (map piece_chars xs)" "ap = concat (map piece_args xs) @ rest"
  shows "\<exists>h. debug_printf fsplit fmt ap s = Inr (Some (fst s, h)) \<and> hw_answers h = hw_answers (snd s) \<and>
    sent (hw_log h) = sent (hw_log (snd s)) @ map of_char (concat (map (piece_text 1000) xs))"
proof -
  have "vsnprintf fsplit 1000 fmt ap = Inr (concat (map (piece_text 1000) xs))"
    using vsnprintf_out [OF assms(3), of fsplit rest] emit_all [of 0 "map (piece_text 1000) xs" 1000] assms(4-6) by simp
  then show ?thesis
    using put_chars_sends [OF assms(2), of "concat (map (piece_text 1000) xs)"] assms(1) by (auto simp: debug_printf_def debug_vprintf_def)
qed

text \<open>(C-x)\<close>

lemma exit_loop_log: "hw_log ((outb 0xf4 0 ^^ n) h) = hw_log h @ replicate n (OutB 0xf4 0)"
  by (induction n) (simp_all add: outb_def replicate_append_same)

lemma sent_exit [simp]: "sent (replicate n (OutB 0xf4 0)) = []"
  by (induction n) simp_all

lemma smp_me_answers: "smp_me a h = (i, h') \<Longrightarrow> hw_answers h' = hw_answers h \<and> sent (hw_log h') = sent (hw_log h)"
  by (auto simp: smp_me_def get_reg_rd Let_def sent_def)

lemma decimal_length: "length (decimal v) \<le> 20"
proof -
  have c: "length (convert_loop n caps b u) \<le> n" for n caps b u by (induction n arbitrary: u) auto
  have d: "length (show_base False 10 (unat u)) \<le> 19" for u :: u32
  proof -
    have "length (converted False 10 u) \<le> 19" using c [of 20 False 10 u] by (simp add: converted_def Let_def)
    then show ?thesis using arg_cong [OF converted_show [of 10 False u], of length] by simp
  qed
  have "length (int_digits v 10 {}) \<le> 19" using d [of v] d [of "- v"] by (simp add: int_digits_def DP_F_UP_def DP_F_UNSIGNED_def flip: unat_minus_sint)
  moreover have "length (int_sign v {}) \<le> 1" by (simp add: int_sign_def sign_chars_def)
  ultimately show ?thesis by (simp add: decimal_def int_text_def Let_def)
qed

text \<open>A panic prints its message, then who halts, and goes on to ask for the exit.\<close>

lemma vpanic_sends:
  assumes "sink (fst s)" "uart_live (hw_answers (snd s))" "\<forall>x \<in> set xs. wf_piece 1000 x" "length (concat (map (piece_text 1000) xs)) \<le> 1000"
  shows "\<exists>s' i log. debug_vpanic n fsplit localAPIC (concat (map piece_chars xs)) (concat (map piece_args xs)) s = Inr (Some s') \<and>
    shutdown_called (fst s') \<and> hw_log (snd s') = log @ replicate n (OutB 0xf4 0) \<and>
    sent log = sent (hw_log (snd s)) @ map of_char (concat (map (piece_text 1000) xs) @ ''| processor '' @ decimal i @ '' halting'' @ [char_of (10 :: nat)])"
proof -
  obtain h1 where h1: "debug_printf fsplit (concat (map piece_chars xs)) (concat (map piece_args xs)) s = Inr (Some (fst s, h1))"
    "hw_answers h1 = hw_answers (snd s)" "sent (hw_log h1) = sent (hw_log (snd s)) @ map of_char (concat (map (piece_text 1000) xs))"
    using debug_printf_sends [OF assms refl, of "concat (map piece_args xs)" "[]" fsplit] by auto
  obtain i h2 where h2: "smp_me localAPIC h1 = (i, h2)" by (cases "smp_me localAPIC h1")
  note a2 = smp_me_answers [OF h2]
  let ?ys = "lits ''| processor '' @ num_piece i # lits ('' halting'' @ [char_of (10 :: nat)]) :: 'a piece list"
  have w: "\<forall>y \<in> set ?ys. wf_piece 1000 y" by (simp add: ball_Un char_of_def)
  have t: "concat (map (piece_text 1000) ?ys) = ''| processor '' @ decimal i @ '' halting'' @ [char_of (10 :: nat)]" by simp
  have l: "length (concat (map (piece_text 1000) ?ys)) \<le> 1000" unfolding t using decimal_length [of i] by simp
  have "\<exists>h3. debug_printf fsplit (''| processor %d halting'' @ [char_of (10 :: nat)]) [ANum i] (fst s, h2) = Inr (Some (fst s, h3)) \<and>
      sent (hw_log h3) = sent (hw_log h2) @ map of_char (concat (map (piece_text 1000) ?ys))"
    using debug_printf_sends [of "(fst s, h2)" ?ys _ _ "[]" fsplit, OF _ _ w l refl refl] assms(1,2) a2 h1(2) by auto
  then obtain h3 where h3: "debug_printf fsplit (''| processor %d halting'' @ [char_of (10 :: nat)]) [ANum i] (fst s, h2) = Inr (Some (fst s, h3))"
    "sent (hw_log h3) = sent (hw_log h2) @ map of_char (''| processor '' @ decimal i @ '' halting'' @ [char_of (10 :: nat)])" unfolding t by blast
  let ?s = "exit_loop n (fst s, h3)"
  have "debug_vpanic n fsplit localAPIC (concat (map piece_chars xs)) (concat (map piece_args xs)) s = Inr (Some ?s)"
    by (simp add: debug_vpanic_def thenD_def h1(1) h2 h3(1) [simplified])
  moreover have "shutdown_called (fst ?s)" "hw_log (snd ?s) = hw_log h3 @ replicate n (OutB 0xf4 0)" by (simp_all add: exit_loop_def exit_loop_log)
  moreover have "sent (hw_log h3) = sent (hw_log (snd s)) @ map of_char (concat (map (piece_text 1000) xs) @ ''| processor '' @ decimal i @ '' halting'' @ [char_of (10 :: nat)])"
    using h3(2) a2 h1(3) by simp
  ultimately show ?thesis by blast
qed



end
