(* ===== verification/Start.thy ===== *)
theory Start
  imports Prelude
begin

text \<open>
  The start of the kernel, \<open>kernel/init.cc\<close>: \<open>kernelInit\<close> as the interleaved steps of all processors. Processor 0 does the shared initialisation, starts the others one after the other
  with messages, and all of them meet; the last one starts the thread of \<open>kernelMain\<close>. Busy waiting is no step.
\<close>

section \<open>Operations\<close>

text \<open>The array \<open>stacks\<close> begins at \<open>base\<close>; a stack has 4096 words and is used from its end.\<close>

definition Stack_BYTES :: u32 where "Stack_BYTES = 4096"

definition sizeof_Stack :: u32 where "sizeof_Stack = Stack_BYTES * 4"

definition pickKernelStack :: "u32 \<Rightarrow> bool \<Rightarrow> u32 \<Rightarrow> u32" where
  "pickKernelStack base smpInitDone me = base + (if smpInitDone then me else 0) * sizeof_Stack + Stack_BYTES * 4"

text \<open>What processor 0 does before it starts the others: lines 84 to 117.\<close>

datatype init_step =
  ConfigInit | HeapInit | NewUart | PhysMemInit | VmmGlobalInit | CrtInit | SmpInit | SmpInitDone | IdtInit | PitCalibrate | SysInit

definition init_steps :: "init_step list" where
  "init_steps = [ConfigInit, HeapInit, NewUart, PhysMemInit, VmmGlobalInit, CrtInit, SmpInit, SmpInitDone, IdtInit, PitCalibrate, SysInit]"

text \<open>
  Where a processor is. \<open>Off\<close>: it waits for the start message; \<open>Entered\<close>: at the beginning of \<open>kernelInit\<close>, on its stack; \<open>Shared xs\<close>: the initialisation \<open>xs\<close> is left;
  \<open>Starting k\<close>, \<open>Reset k\<close>, \<open>Waiting k\<close>: at the head of the loop, between the two messages, and in the inner loop for processor \<open>k\<close>;
  \<open>ApSmpInit\<close>: after it has counted itself in \<open>running\<close>; \<open>Ordered m\<close>: with \<open>myOrder = m\<close>; \<open>Stopped\<close>: in \<open>stop()\<close>, where it runs threads.
\<close>

datatype core_pc =
    Off | Entered | Shared "init_step list" | Starting nat | Reset nat | Waiting nat
  | ApSmpInit | PerCoreInit | PitInit | LoadTss | EnableInterrupts | Arrive | Ordered u32 | Stopped

record boot_sys =
  b_pc :: "nat \<Rightarrow> core_pc"
  b_stack :: "nat \<Rightarrow> u32"
  b_log :: "init_step list"
  b_smpInitDone :: bool
  b_running :: u32
  b_howManyAreHere :: u32
  b_mains :: nat

text \<open>The part that every processor does alone.\<close>

fun next_pc :: "core_pc \<Rightarrow> core_pc option" where
  "next_pc ApSmpInit = Some PerCoreInit"
| "next_pc PerCoreInit = Some PitInit"
| "next_pc PitInit = Some LoadTss"
| "next_pc LoadTss = Some EnableInterrupts"
| "next_pc EnableInterrupts = Some Arrive"
| "next_pc _ = None"

definition move :: "boot_sys \<Rightarrow> nat \<Rightarrow> core_pc \<Rightarrow> boot_sys" where
  "move s c p = s\<lparr>b_pc := (b_pc s)(c := p)\<rparr>"

inductive boot_step :: "u32 \<Rightarrow> nat \<Rightarrow> boot_sys \<Rightarrow> boot_sys \<Rightarrow> bool" for base totalProcs where
  enter_first: "b_pc s c = Entered \<Longrightarrow> \<not> b_smpInitDone s \<Longrightarrow> boot_step base totalProcs s (move s c (Shared init_steps))"
| enter_other: "b_pc s c = Entered \<Longrightarrow> b_smpInitDone s \<Longrightarrow>
    boot_step base totalProcs s ((move s c ApSmpInit)\<lparr>b_running := b_running s + 1\<rparr>)"
| shared: "b_pc s c = Shared (x # xs) \<Longrightarrow>
    boot_step base totalProcs s ((move s c (Shared xs))\<lparr>b_log := b_log s @ [x], b_smpInitDone := b_smpInitDone s \<or> x = SmpInitDone\<rparr>)"
| shared_end: "b_pc s c = Shared [] \<Longrightarrow> boot_step base totalProcs s ((move s c (Starting 1))\<lparr>b_running := b_running s + 1\<rparr>)"
| ipi_init: "b_pc s c = Starting k \<Longrightarrow> k < totalProcs \<Longrightarrow> boot_step base totalProcs s (move s c (Reset k))"
| ipi_start: "b_pc s c = Reset k \<Longrightarrow>
    boot_step base totalProcs s ((move (move s k Entered) c (Waiting k))\<lparr>b_stack := (b_stack s)(k := pickKernelStack base (b_smpInitDone s) (of_nat k))\<rparr>)"
| wait_end: "b_pc s c = Waiting k \<Longrightarrow> k < unat (b_running s) \<Longrightarrow> boot_step base totalProcs s (move s c (Starting (k + 1)))"
| start_end: "b_pc s c = Starting k \<Longrightarrow> \<not> k < totalProcs \<Longrightarrow> boot_step base totalProcs s (move s c PerCoreInit)"
| alone: "next_pc (b_pc s c) = Some p \<Longrightarrow> boot_step base totalProcs s (move s c p)"
| arrive: "b_pc s c = Arrive \<Longrightarrow>
    boot_step base totalProcs s ((move s c (Ordered (b_howManyAreHere s + 1)))\<lparr>b_howManyAreHere := b_howManyAreHere s + 1\<rparr>)"
| last_order: "b_pc s c = Ordered m \<Longrightarrow>
    boot_step base totalProcs s ((move s c Stopped)\<lparr>b_mains := b_mains s + (if m = of_nat totalProcs then 1 else 0)\<rparr>)"

text \<open>Processor 0 is on the stack it picked before anything was initialised.\<close>

definition boot_start :: "u32 \<Rightarrow> boot_sys" where
  "boot_start base = \<lparr>b_pc = (\<lambda>_. Off)(0 := Entered), b_stack = (\<lambda>_. 0)(0 := pickKernelStack base False 0), b_log = [],
     b_smpInitDone = False, b_running = 0, b_howManyAreHere = 0, b_mains = 0\<rparr>"

inductive boot_reach :: "u32 \<Rightarrow> nat \<Rightarrow> boot_sys \<Rightarrow> bool" for base totalProcs where
  init: "boot_reach base totalProcs (boot_start base)"
| step: "boot_reach base totalProcs s \<Longrightarrow> boot_step base totalProcs s t \<Longrightarrow> boot_reach base totalProcs t"

section \<open>Invariant\<close>

fun started :: "core_pc \<Rightarrow> bool" where
  "started Off = False" | "started Entered = False" | "started (Shared xs) = False" | "started _ = True"

fun arrived :: "core_pc \<Rightarrow> bool" where
  "arrived (Ordered m) = True" | "arrived Stopped = True" | "arrived _ = False"

fun leader_pc :: "core_pc \<Rightarrow> bool" where
  "leader_pc (Shared xs) = True" | "leader_pc (Starting k) = True" | "leader_pc (Reset k) = True" | "leader_pc (Waiting k) = True" | "leader_pc _ = False"

definition count :: "nat \<Rightarrow> (nat \<Rightarrow> core_pc) \<Rightarrow> (core_pc \<Rightarrow> bool) \<Rightarrow> nat" where
  "count n f P = (\<Sum>c<n. if P (f c) then 1 else 0)"

text \<open>The counters.\<close>

definition counted :: "nat \<Rightarrow> boot_sys \<Rightarrow> bool" where
  "counted n s \<longleftrightarrow> unat (b_running s) = count n (b_pc s) started \<and> unat (b_howManyAreHere s) = count n (b_pc s) arrived \<and>
     (\<forall>c m. b_pc s c = Ordered m \<longrightarrow> m \<le> b_howManyAreHere s) \<and>
     count n (b_pc s) (\<lambda>p. p = Ordered (of_nat n)) + b_mains s = (if unat (b_howManyAreHere s) = n then 1 else 0)"

text \<open>What the position of processor 0 says of the others.\<close>

definition others_off :: "(nat \<Rightarrow> core_pc) \<Rightarrow> nat \<Rightarrow> bool" where
  "others_off f k \<longleftrightarrow> (\<forall>c. 0 < c \<longrightarrow> k \<le> c \<longrightarrow> f c = Off)"

definition all_started :: "(nat \<Rightarrow> core_pc) \<Rightarrow> nat \<Rightarrow> bool" where
  "all_started f k \<longleftrightarrow> (\<forall>c. 0 < c \<longrightarrow> c < k \<longrightarrow> started (f c) \<and> \<not> leader_pc (f c))"

fun led :: "nat \<Rightarrow> boot_sys \<Rightarrow> core_pc \<Rightarrow> bool" where
  "led n s Off = False"
| "led n s Entered \<longleftrightarrow> \<not> b_smpInitDone s \<and> b_log s = [] \<and> others_off (b_pc s) 1"
| "led n s (Shared xs) \<longleftrightarrow> b_log s @ xs = init_steps \<and> (b_smpInitDone s \<longleftrightarrow> SmpInitDone \<in> set (b_log s)) \<and> others_off (b_pc s) 1"
| "led n s (Starting k) \<longleftrightarrow> b_smpInitDone s \<and> b_log s = init_steps \<and> 1 \<le> k \<and> k \<le> n \<and> all_started (b_pc s) k \<and> others_off (b_pc s) k"
| "led n s (Reset k) \<longleftrightarrow> b_smpInitDone s \<and> b_log s = init_steps \<and> 1 \<le> k \<and> k < n \<and> all_started (b_pc s) k \<and> others_off (b_pc s) k"
| "led n s (Waiting k) \<longleftrightarrow> b_smpInitDone s \<and> b_log s = init_steps \<and> 1 \<le> k \<and> k < n \<and> all_started (b_pc s) k \<and>
     (b_pc s k = Entered \<or> started (b_pc s k)) \<and> \<not> leader_pc (b_pc s k) \<and> others_off (b_pc s) (k + 1)"
| "led n s _ \<longleftrightarrow> b_smpInitDone s \<and> b_log s = init_steps \<and> all_started (b_pc s) n \<and> others_off (b_pc s) n"

definition boot_inv :: "u32 \<Rightarrow> nat \<Rightarrow> boot_sys \<Rightarrow> bool" where
  "boot_inv base n s \<longleftrightarrow> counted n s \<and> led n s (b_pc s 0) \<and> (\<forall>c. b_pc s c \<noteq> Off \<longrightarrow> b_stack s c = pickKernelStack base True (of_nat c))"

lemma count_upd: "c < n \<Longrightarrow> count n (f(c := p)) P + (if P (f c) then 1 else 0) = count n f P + (if P p then 1 else 0)"
  unfolding count_def by (simp add: sum.remove [where x = c and A = "{..<n}"])

lemma count_same: "c < n \<Longrightarrow> P p = P (f c) \<Longrightarrow> count n (f(c := p)) P = count n f P"
  using count_upd [of c n f p P] by (simp split: if_splits)

lemma count_in: "c < n \<Longrightarrow> \<not> P (f c) \<Longrightarrow> P p \<Longrightarrow> count n (f(c := p)) P = Suc (count n f P)"
  using count_upd [of c n f p P] by simp

lemma count_le: "count n f P \<le> n"
  unfolding count_def by (induction n) (auto intro: le_SucI)

lemma count_less: "c < n \<Longrightarrow> \<not> P (f c) \<Longrightarrow> count n f P < n"
  using count_in [of c n "\<lambda>p. P p \<or> p = Stopped \<and> f c = Stopped" f] count_upd [of c n f]
  unfolding count_def
proof -
  assume c: "c < n" "\<not> P (f c)"
  have "(\<Sum>c<n. if P (f c) then 1 else 0) < (\<Sum>c<n. 1 :: nat)" by (rule sum_strict_mono_ex1) (use c in auto)
  then show "(\<Sum>c<n. if P (f c) then 1 else 0) < n" by simp
qed

lemma count_below: "(\<And>d. k \<le> d \<Longrightarrow> \<not> P (f d)) \<Longrightarrow> count n f P \<le> k"
proof (induction n)
  case (Suc n)
  have "count (Suc n) f P = count n f P + (if P (f n) then 1 else 0)" by (simp add: count_def)
  moreover have "P (f n) \<Longrightarrow> n < k" using Suc.prems [of n] by (auto simp: not_less [symmetric])
  ultimately show ?case using Suc count_le [of n f P] by (cases "P (f n)") auto
qed (simp add: count_def)

lemma count_pos: "c < n \<Longrightarrow> P (f c) \<Longrightarrow> 0 < count n f P"
  unfolding count_def by (simp add: sum.remove [where x = c and A = "{..<n}"])

lemma count_full: "count n f P = n \<Longrightarrow> c < n \<Longrightarrow> P (f c)"
  using count_less [of c n P f] by auto

text \<open>A processor other than 0 that runs.\<close>

lemma led_running:
  assumes "led n s (b_pc s 0)" "0 < c" "b_pc s c \<noteq> Off"
  shows "b_smpInitDone s" "b_log s = init_steps" "\<not> leader_pc (b_pc s c)" "c < n" "\<not> started (b_pc s c) \<Longrightarrow> b_pc s c = Entered \<and> b_pc s 0 = Waiting c"
proof -
  have off: False if "others_off (b_pc s) k" "k \<le> c" for k using that assms(2,3) by (auto simp: others_off_def)
  have on: "started (b_pc s c) \<and> \<not> leader_pc (b_pc s c)" if "all_started (b_pc s) k" "c < k" for k using that assms(2) by (auto simp: all_started_def)
  have "b_smpInitDone s \<and> b_log s = init_steps \<and> \<not> leader_pc (b_pc s c) \<and> c < n \<and> (started (b_pc s c) \<or> b_pc s c = Entered \<and> b_pc s 0 = Waiting c)"
  proof (cases "b_pc s 0")
    case (Waiting k)
    then show ?thesis using assms(1) off [of "k + 1"] on [of k] by (cases c k rule: linorder_cases) auto
  next
    case (Starting k)
    then show ?thesis using assms(1) off [of k] on [of k] by (cases "c < k") auto
  next
    case (Reset k)
    then show ?thesis using assms(1) off [of k] on [of k] by (cases "c < k") auto
  qed (use assms(1,2) off [of 1] off [of n] on [of n] in \<open>(cases "c < n"; simp)+\<close>)
  then show "b_smpInitDone s" "b_log s = init_steps" "\<not> leader_pc (b_pc s c)" "c < n" "\<not> started (b_pc s c) \<Longrightarrow> b_pc s c = Entered \<and> b_pc s 0 = Waiting c" by auto
qed

lemma led_bound: "led n s (b_pc s 0) \<Longrightarrow> 1 \<le> n \<Longrightarrow> b_pc s c \<noteq> Off \<Longrightarrow> c < n"
  using led_running(4) [of n s c] by (cases "c = 0") auto

lemma led_leader: "led n s (b_pc s 0) \<Longrightarrow> leader_pc (b_pc s c) \<Longrightarrow> c = 0"
  using led_running(3) [of n s c] by (cases "c = 0"; cases "b_pc s c") auto

text \<open>A step of another processor leaves processor 0 where it is.\<close>

lemma led_other:
  assumes l: "led n s (b_pc s 0)" and c: "0 < c" "b_pc s c \<noteq> Off" and p: "started p" "\<not> leader_pc p"
  shows "led n (s\<lparr>b_pc := (b_pc s)(c := p), b_running := r, b_howManyAreHere := h, b_mains := m\<rparr>) (b_pc s 0)"
proof -
  have off: "others_off ((b_pc s)(c := p)) k" if "others_off (b_pc s) k" for k
    using that c by (auto simp: others_off_def)
  have on: "all_started ((b_pc s)(c := p)) k" if "all_started (b_pc s) k" for k
    using that p by (auto simp: all_started_def)
  show ?thesis using l p off on by (cases "b_pc s 0") auto
qed

lemma others_off_0 [simp]: "others_off (f(0 := p)) k = others_off f k"
  by (simp add: others_off_def)

lemma all_started_0 [simp]: "all_started (f(0 := p)) k = all_started f k"
  by (simp add: all_started_def)

lemma all_started_Suc: "0 < k \<Longrightarrow> all_started f (Suc k) \<longleftrightarrow> all_started f k \<and> started (f k) \<and> \<not> leader_pc (f k)"
  by (auto simp: all_started_def less_Suc_eq)

lemma count_zero: "(\<And>c. c < n \<Longrightarrow> \<not> P (f c)) \<Longrightarrow> count n f P = 0"
  by (simp add: count_def)

lemma counted_move:
  assumes "counted n s" "c < n" "started p = started (b_pc s c)" "arrived p = arrived (b_pc s c)" "\<And>m. p \<noteq> Ordered m" "\<And>m. b_pc s c \<noteq> Ordered m"
  shows "counted n (move s c p)"
  using assms by (auto simp: counted_def count_same move_def split: if_splits)

lemma counted_fields [simp]:
  "counted n (s\<lparr>b_log := lg\<rparr>) = counted n s" "counted n (s\<lparr>b_smpInitDone := d\<rparr>) = counted n s" "counted n (s\<lparr>b_stack := st\<rparr>) = counted n s"
  "counted n (s\<lparr>b_pc := f, b_log := lg, b_smpInitDone := d\<rparr>) = counted n (s\<lparr>b_pc := f\<rparr>)"
  by (simp_all add: counted_def)

lemma counted_started:
  assumes "counted n s" "n < 2 ^ 32" "c < n" "\<not> started (b_pc s c)" "started p" "\<not> arrived p" "\<not> arrived (b_pc s c)"
  shows "counted n (s\<lparr>b_pc := (b_pc s)(c := p), b_running := b_running s + 1\<rparr>)"
proof -
  have o: "p \<noteq> Ordered m" "b_pc s c \<noteq> Ordered m" for m using assms(6,7) by auto
  have "count n (b_pc s) started < n" using count_less [of c n started "b_pc s"] assms(3,4) by simp
  then have "unat (b_running s + 1) = unat (b_running s) + 1" using assms(1,2) by (subst unat_plus_no_wrap) (auto simp: counted_def)
  then show ?thesis using assms o by (auto simp: counted_def count_same count_in split: if_splits)
qed

lemma counted_arrive:
  assumes "counted n s" "n < 2 ^ 32" "c < n" "b_pc s c = Arrive"
  shows "counted n (s\<lparr>b_pc := (b_pc s)(c := Ordered (b_howManyAreHere s + 1)), b_howManyAreHere := b_howManyAreHere s + 1\<rparr>)"
proof -
  let ?h = "b_howManyAreHere s" and ?f = "b_pc s" and ?p = "Ordered (b_howManyAreHere s + 1)"
  have lt: "unat ?h < n" using count_less [OF assms(3), of arrived ?f] assms(1,4) by (simp add: counted_def)
  then have u: "unat (?h + 1) = unat ?h + 1" using assms(2) by (subst unat_plus_no_wrap) auto
  have "\<not> (?f d = Ordered (of_nat n))" for d
  proof
    assume d: "?f d = Ordered (of_nat n)"
    then have "of_nat n \<le> ?h" using assms(1) by (simp add: counted_def)
    then show False using lt assms(2) by (simp add: word_le_nat_alt)
  qed
  then have z: "count n ?f (\<lambda>p. p = Ordered (of_nat n)) = 0" by (intro count_zero) simp
  have e: "?h + 1 = of_nat n \<longleftrightarrow> unat ?h + 1 = n"
  proof -
    have "?h + 1 = of_nat n \<longleftrightarrow> unat (?h + 1) = unat (of_nat n :: u32)" by (rule word_unat_eq_iff)
    then show ?thesis using u assms(2) by simp
  qed
  have "count n (?f(c := ?p)) (\<lambda>p. p = Ordered (of_nat n)) = (if unat ?h + 1 = n then 1 else 0)"
    using count_upd [OF assms(3), of ?f ?p "\<lambda>p. p = Ordered (of_nat n)"] z e assms(4) by simp
  moreover have "b_mains s = 0" using assms(1) lt by (simp add: counted_def)
  moreover have "m \<le> ?h + 1" if "(?f(c := ?p)) d = Ordered m" for d m
  proof (cases "d = c")
    case False
    then have "m \<le> ?h" using that assms(1) by (simp add: counted_def)
    then show ?thesis using u by (simp add: word_le_nat_alt)
  qed (use that in simp)
  ultimately show ?thesis
    using assms u by (auto simp: counted_def count_same count_in)
qed

lemma counted_order:
  assumes "counted n s" "c < n" "b_pc s c = Ordered m"
  shows "counted n (s\<lparr>b_pc := (b_pc s)(c := Stopped), b_mains := b_mains s + (if m = of_nat n then 1 else 0)\<rparr>)"
proof -
  have "count n ((b_pc s)(c := Stopped)) (\<lambda>p. p = Ordered (of_nat n)) + (if m = of_nat n then 1 else 0) = count n (b_pc s) (\<lambda>p. p = Ordered (of_nat n))"
    using count_upd [OF assms(2), of "b_pc s" Stopped "\<lambda>p. p = Ordered (of_nat n)"] assms(3) by (simp split: if_splits)
  then show ?thesis using assms by (auto simp: counted_def count_same split: if_splits)
qed

lemma boot_inv_start: "1 \<le> n \<Longrightarrow> boot_inv base n (boot_start base)"
  by (auto simp: boot_inv_def boot_start_def counted_def others_off_def count_zero pickKernelStack_def)

lemma next_pc_classes:
  assumes "next_pc p = Some q"
  shows "started p \<and> started q \<and> \<not> arrived p \<and> \<not> arrived q \<and> \<not> leader_pc p \<and> \<not> leader_pc q \<and> p \<noteq> Off \<and> led n s q = led n s p"
  using assms by (cases p) auto

text \<open>What is left to show of a step of processor \<open>c\<close>.\<close>

lemma boot_invI:
  assumes "boot_inv base n s" "counted n t" "led n t (b_pc t 0)" "b_stack t = b_stack s" "\<And>d. b_pc t d \<noteq> Off \<Longrightarrow> b_pc s d \<noteq> Off"
  shows "boot_inv base n t"
  using assms by (auto simp: boot_inv_def)

lemma boot_inv_step:
  assumes inv: "boot_inv base n s" and n: "1 \<le> n" "n < 2 ^ 32" and st: "boot_step base n s t"
  shows "boot_inv base n t"
proof -
  have C: "counted n s" and L: "led n s (b_pc s 0)" using inv by (simp_all add: boot_inv_def)
  have lt: "c < n" if "b_pc s c \<noteq> Off" for c using led_bound [OF L n(1) that] .
  have lead: "c = 0" if "leader_pc (b_pc s c)" for c using led_leader [OF L that] .
  show ?thesis
    using st
  proof cases
    case (enter_first c)
    then have c: "c = 0" using led_running(1) [OF L, of c] by auto
    have "counted n (move s c (Shared init_steps))"
      using enter_first(1,2) lt [of c] counted_move [OF C, where c = c and p = "Shared init_steps"] by simp
    then show ?thesis
      using enter_first c L by (intro boot_invI [OF inv]) (auto simp: move_def split: if_splits)
  next
    case (enter_other c)
    then have "c \<noteq> 0" using L by (auto intro: ccontr)
    then show ?thesis
      using enter_other lt [of c] led_other [OF L, where c = c and p = ApSmpInit and r = "b_running s + 1" and h = "b_howManyAreHere s" and m = "b_mains s"] counted_started [OF C n(2), of c ApSmpInit]
      by (intro boot_invI [OF inv]) (auto simp: move_def split: if_splits)
  next
    case (shared c x xs)
    then have "c = 0" using lead [of c] by simp
    then show ?thesis
      using shared lt [of c] L counted_move [OF C, where c = c and p = "Shared xs"]
      by (intro boot_invI [OF inv]) (auto simp: move_def split: if_splits)
  next
    case (shared_end c)
    then have c: "c = 0" using lead [of c] by simp
    have "b_log s = init_steps" using L shared_end c by simp
    then show ?thesis
      using shared_end c lt [of c] L n(1) counted_started [OF C n(2), of c "Starting 1"]
      by (intro boot_invI [OF inv]) (auto simp: move_def all_started_def init_steps_def split: if_splits)
  next
    case (ipi_init c k)
    then have "c = 0" using lead [of c] by simp
    then show ?thesis
      using ipi_init lt [of c] L counted_move [OF C, where c = c and p = "Reset k"]
      by (intro boot_invI [OF inv]) (auto simp: move_def split: if_splits)
  next
    case (wait_end c k)
    then have c: "c = 0" using lead [of c] by simp
    have w: "1 \<le> k" "k < n" "all_started (b_pc s) k" "b_pc s k = Entered \<or> started (b_pc s k)" "\<not> leader_pc (b_pc s k)" "others_off (b_pc s) (k + 1)"
      "b_smpInitDone s" "b_log s = init_steps" using L wait_end c by simp_all
    have "started (b_pc s k)"
    proof (rule ccontr)
      assume ns: "\<not> started (b_pc s k)"
      have "\<not> started (b_pc s d)" if "k \<le> d" for d
        using ns w(1,6) that by (cases "d = k") (auto simp: others_off_def)
      then have "count n (b_pc s) started \<le> k"
        by (rule count_below)
      then show False using wait_end(3) C by (simp add: counted_def)
    qed
    then have "all_started (b_pc s) (k + 1)" using w(1,3,5) by (simp add: all_started_Suc)
    then show ?thesis
      using wait_end c lt [of c] w(2,6-8) counted_move [OF C, where c = c and p = "Starting (k + 1)"]
      by (intro boot_invI [OF inv]) (auto simp: move_def split: if_splits)
  next
    case (start_end c k)
    then have "c = 0" using lead [of c] by simp
    then show ?thesis
      using start_end lt [of c] L counted_move [OF C, where c = c and p = PerCoreInit]
      by (intro boot_invI [OF inv]) (auto simp: move_def split: if_splits)
  next
    case (alone c p)
    note q = next_pc_classes [OF alone(2), of n s]
    have m: "counted n (move s c p)"
      by (rule counted_move [OF C lt]) (use q in auto)
    have "led n (move s c p) (b_pc (move s c p) 0)"
    proof (cases "c = 0")
      case True
      have "led n (move s c p) (b_pc s 0)" using L q True by (cases "b_pc s 0") (simp_all add: move_def)
      then show ?thesis using next_pc_classes [OF alone(2), of n "move s c p"] True by (simp add: move_def)
    next
      case False
      then show ?thesis using led_other [OF L, where c = c and p = p and r = "b_running s" and h = "b_howManyAreHere s" and m = "b_mains s"] q by (simp add: move_def)
    qed
    then show ?thesis using m q alone(1) by (intro boot_invI [OF inv]) (auto simp: move_def split: if_splits)
  next
    case (ipi_start c k)
    then have c: "c = 0" using lead [of c] by simp
    have w: "1 \<le> k" "k < n" "all_started (b_pc s) k" "others_off (b_pc s) k" "b_smpInitDone s" "b_log s = init_steps" using L ipi_start c by simp_all
    then have k: "b_pc s k = Off" "k \<noteq> 0" by (auto simp: others_off_def)
    let ?f = "(b_pc s)(k := Entered, 0 := Waiting k)"
    have f: "all_started ?f k" "others_off ?f (k + 1)" using w(3,4) by (auto simp: all_started_def others_off_def)
    have cnt: "count n ?f P = count n (b_pc s) P" if "P Entered = P Off" "P (Waiting k) = P (Reset k)" for P
      using that count_same [of k n P Entered "b_pc s"] count_same [of 0 n P "Waiting k" "(b_pc s)(k := Entered)"] k w(2) n(1) ipi_start(2) c by simp
    have "counted n (s\<lparr>b_pc := ?f, b_stack := st\<rparr>)" for st using C by (auto simp: counted_def cnt split: if_splits)
    then show ?thesis
      using ipi_start inv f w k c by (auto simp: boot_inv_def move_def)
  next
    case (arrive c)
    have m: "counted n t" using counted_arrive [OF C n(2) lt] arrive by (simp add: move_def)
    have "led n t (b_pc t 0)"
    proof (cases "c = 0")
      case True
      then show ?thesis using L arrive by (simp add: move_def)
    next
      case False
      then show ?thesis
        using led_other [OF L, where c = c and p = "Ordered (b_howManyAreHere s + 1)" and r = "b_running s" and h = "b_howManyAreHere s + 1" and m = "b_mains s"] arrive by (simp add: move_def)
    qed
    then show ?thesis using m arrive by (intro boot_invI [OF inv]) (auto simp: move_def split: if_splits)
  next
    case (last_order c m)
    have k: "counted n t" using counted_order [OF C lt] last_order by (simp add: move_def)
    have "led n t (b_pc t 0)"
    proof (cases "c = 0")
      case True
      then show ?thesis using L last_order by (simp add: move_def)
    next
      case False
      then show ?thesis
        using led_other [OF L, where c = c and p = Stopped and r = "b_running s" and h = "b_howManyAreHere s" and m = "b_mains s + (if m = of_nat n then 1 else 0)"] last_order by (simp add: move_def)
    qed
    then show ?thesis using k last_order by (intro boot_invI [OF inv]) (auto simp: move_def split: if_splits)
  qed
qed

lemma boot_reach_inv: "boot_reach base n s \<Longrightarrow> 1 \<le> n \<Longrightarrow> n < 2 ^ 32 \<Longrightarrow> boot_inv base n s"
  by (induction rule: boot_reach.induct) (auto intro: boot_inv_start boot_inv_step)

section \<open>The start ends\<close>

fun rank :: "nat \<Rightarrow> core_pc \<Rightarrow> nat" where
  "rank n Stopped = 0"
| "rank n (Ordered m) = 1"
| "rank n Arrive = 2"
| "rank n EnableInterrupts = 3"
| "rank n LoadTss = 4"
| "rank n PitInit = 5"
| "rank n PerCoreInit = 6"
| "rank n ApSmpInit = 7"
| "rank n (Starting k) = 7 + 3 * (n - k)"
| "rank n (Reset k) = 6 + 3 * (n - k)"
| "rank n (Waiting k) = 5 + 3 * (n - k)"
| "rank n (Shared xs) = 8 + 3 * n + length xs"
| "rank n Entered = 9 + 3 * n + length init_steps"
| "rank n Off = 10 + 3 * n + length init_steps"

definition boot_work :: "nat \<Rightarrow> boot_sys \<Rightarrow> nat" where
  "boot_work n s = (\<Sum>c<n. rank n (b_pc s c))"

lemma work_upd: "c < n \<Longrightarrow> rank n p < rank n (f c) \<Longrightarrow> (\<Sum>d<n. rank n ((f(c := p)) d)) < (\<Sum>d<n. rank n (f d))"
  by (simp add: sum.remove [where x = c and A = "{..<n}"])

lemma next_pc_rank: "next_pc p = Some q \<Longrightarrow> rank n q < rank n p"
  by (cases p) auto

lemma boot_step_work:
  assumes inv: "boot_inv base n s" and n: "1 \<le> n" and st: "boot_step base n s t"
  shows "boot_work n t < boot_work n s"
proof -
  have L: "led n s (b_pc s 0)" using inv by (simp add: boot_inv_def)
  have lt: "c < n" if "b_pc s c \<noteq> Off" for c using led_bound [OF L n that] .
  have lead: "c = 0" if "leader_pc (b_pc s c)" for c using led_leader [OF L that] .
  have one: "boot_work n t < boot_work n s" if "b_pc t = (b_pc s)(c := p)" "b_pc s c \<noteq> Off" "rank n p < rank n (b_pc s c)" for c p
    unfolding boot_work_def that(1) using lt [OF that(2)] that(3) by (rule work_upd)
  show ?thesis
    using st
  proof cases
    case (ipi_start c k)
    then have c: "c = 0" using lead [of c] by simp
    then have k: "1 \<le> k" "k < n" "b_pc s k = Off" using L ipi_start by (auto simp: others_off_def)
    let ?f = "(b_pc s)(k := Entered)"
    have "(\<Sum>d<n. rank n ((?f(0 := Waiting k)) d)) < (\<Sum>d<n. rank n (?f d))" using k ipi_start(2) c by (intro work_upd) auto
    also have "\<dots> < (\<Sum>d<n. rank n (b_pc s d))" using k by (intro work_upd) auto
    finally show ?thesis using ipi_start c by (simp add: boot_work_def move_def)
  next
    case (wait_end c k)
    then have "k < n" using lead [of c] L by simp
    then show ?thesis using wait_end by (intro one [of c]) (auto simp: move_def)
  next
    case (alone c p)
    then show ?thesis using next_pc_rank [OF alone(2), of n] next_pc_classes [OF alone(2)] by (intro one [of c]) (auto simp: move_def)
  next
    case (shared_end c)
    then show ?thesis using n by (intro one [of c]) (auto simp: move_def)
  qed (use one in \<open>auto simp: move_def\<close>)
qed

text \<open>No processor but a waiting one is ever stuck.\<close>

definition has_step :: "u32 \<Rightarrow> nat \<Rightarrow> boot_sys \<Rightarrow> bool" where
  "has_step base n s \<longleftrightarrow> (\<exists>t. boot_step base n s t)"

lemma local_progress:
  "b_pc s c \<notin> {Off, Stopped} \<Longrightarrow> (\<And>k. b_pc s c \<noteq> Waiting k) \<Longrightarrow> has_step base n s"
proof (cases "b_pc s c")
  case Entered
  then show ?thesis unfolding has_step_def using boot_step.enter_first boot_step.enter_other by (cases "b_smpInitDone s") blast+
next
  case (Shared xs)
  then show ?thesis unfolding has_step_def using boot_step.shared boot_step.shared_end by (cases xs) blast+
next
  case (Starting k)
  then show ?thesis unfolding has_step_def using boot_step.ipi_init boot_step.start_end by (cases "k < n") blast+
next
  case (Reset k)
  then show ?thesis unfolding has_step_def using boot_step.ipi_start by blast
next
  case Arrive
  then show ?thesis unfolding has_step_def using boot_step.arrive by blast
next
  case (Ordered m)
  then show ?thesis unfolding has_step_def using boot_step.last_order by blast
qed (use boot_step.alone [of s c] in \<open>auto simp: has_step_def\<close>)

lemma boot_progress:
  assumes inv: "boot_inv base n s" and n: "1 \<le> n"
  shows "has_step base n s \<or> (\<forall>c<n. b_pc s c = Stopped) \<and> b_mains s = 1"
proof (cases "\<exists>c. b_pc s c \<notin> {Off, Stopped} \<and> (\<forall>k. b_pc s c \<noteq> Waiting k)")
  case True
  then show ?thesis using local_progress by blast
next
  case False
  then have stop: "b_pc s c = Off \<or> b_pc s c = Stopped \<or> (\<exists>k. b_pc s c = Waiting k)" for c by blast
  have L: "led n s (b_pc s 0)" and C: "counted n s" using inv by (simp_all add: boot_inv_def)
  show ?thesis
  proof (cases "\<exists>k. b_pc s 0 = Waiting k")
    case True
    then obtain k where k: "b_pc s 0 = Waiting k" by blast
    have w: "k < n" "all_started (b_pc s) k" "b_pc s k = Entered \<or> started (b_pc s k)" using L k by simp_all
    then have "started (b_pc s d)" if "d < Suc k" for d
      using that stop [of k] k by (cases "d = k"; cases "d = 0") (auto simp: all_started_def)
    then have "(\<Sum>d<Suc k. if started (b_pc s d) then 1 else 0) = (Suc k :: nat)" by simp
    moreover have "(\<Sum>d<Suc k. if started (b_pc s d) then 1 else 0) \<le> count n (b_pc s) started"
      unfolding count_def using w(1) by (intro sum_mono2) auto
    ultimately have "k < unat (b_running s)" using C by (simp add: counted_def)
    then show ?thesis using boot_step.wait_end [OF k] by (auto simp: has_step_def)
  next
    case False
    then have z: "b_pc s 0 = Stopped" using stop [of 0] L by auto
    then have "all_started (b_pc s) n" using L by simp
    then have a: "started (b_pc s c) \<and> \<not> leader_pc (b_pc s c)" if "c < n" "c \<noteq> 0" for c using that by (simp add: all_started_def)
    have st: "b_pc s c = Stopped" if "c < n" for c
      using stop [of c] z a [OF that] by (cases "c = 0") auto
    then have "count n (b_pc s) arrived = n" "count n (b_pc s) (\<lambda>p. p = Ordered (of_nat n)) = 0" by (simp_all add: count_def)
    then show ?thesis using st C by (simp add: counted_def)
  qed
qed

text \<open>Every run can be continued to its end.\<close>

lemma boot_completes:
  "boot_reach base n s \<Longrightarrow> 1 \<le> n \<Longrightarrow> n < 2 ^ 32 \<Longrightarrow> \<exists>t. boot_reach base n t \<and> (\<forall>c<n. b_pc t c = Stopped) \<and> b_mains t = 1"
proof (induction "boot_work n s" arbitrary: s rule: less_induct)
  case less
  have inv: "boot_inv base n s" using boot_reach_inv [OF less.prems] .
  show ?case
  proof (cases "has_step base n s")
    case True
    then obtain t where t: "boot_step base n s t" by (auto simp: has_step_def)
    show ?thesis
      using less.hyps [OF boot_step_work [OF inv less.prems(2) t] boot_reach.step [OF less.prems(1) t]] less.prems by blast
  next
    case False
    then show ?thesis using boot_progress [OF inv less.prems(2)] less.prems(1) by blast
  qed
qed

section \<open>Properties\<close>

definition stack_area :: "boot_sys \<Rightarrow> nat \<Rightarrow> u32 set" where
  "stack_area s c = {a. unat (b_stack s c) \<le> unat a + 16384 \<and> unat a < unat (b_stack s c)}"

lemma stack_top:
  assumes "unat base + 16384 * 16 < 2 ^ 32" "c < 16"
  shows "unat (pickKernelStack base True (of_nat c)) = unat base + 16384 * (c + 1)"
proof -
  have p: "unat (of_nat c * sizeof_Stack) = c * 16384"
    using assms(2) unat_times_no_wrap [of "of_nat c" sizeof_Stack] by (simp add: sizeof_Stack_def Stack_BYTES_def)
  have "unat (base + of_nat c * sizeof_Stack) = unat base + c * 16384" using assms p by (subst unat_plus_no_wrap) simp_all
  then show ?thesis using assms unfolding pickKernelStack_def by (subst unat_plus_no_wrap) (simp_all add: Stack_BYTES_def)
qed

text \<open>
  (C17:boot_one_main) In every interleaving: at most one thread of \<open>kernelMain\<close> is started, and only when every processor has initialised itself; no processor but the first runs before the shared
  initialisation is complete; no two processors are on the same stack.
\<close>

theorem boot_one_main:
  assumes "boot_reach base n s" "1 \<le> n" "n \<le> 16" "unat base + 16384 * 16 < 2 ^ 32"
  shows "b_mains s \<le> 1 \<and> (b_mains s = 1 \<longrightarrow> b_log s = init_steps \<and> (\<forall>c<n. arrived (b_pc s c))) \<and>
    (\<forall>c. 0 < c \<longrightarrow> b_pc s c \<noteq> Off \<longrightarrow> c < n \<and> b_log s = init_steps) \<and>
    (\<forall>c d. b_pc s c \<noteq> Off \<longrightarrow> b_pc s d \<noteq> Off \<longrightarrow> c \<noteq> d \<longrightarrow> stack_area s c \<inter> stack_area s d = {})"
proof -
  have inv: "boot_inv base n s" using boot_reach_inv [OF assms(1,2)] assms(3) by simp
  have L: "led n s (b_pc s 0)" and C: "counted n s" using inv by (simp_all add: boot_inv_def)
  have one: "b_mains s \<le> 1" "b_mains s = 1 \<Longrightarrow> unat (b_howManyAreHere s) = n" using C by (auto simp: counted_def split: if_splits)
  have all: "arrived (b_pc s c)" if "b_mains s = 1" "c < n" for c
    using count_full [of n "b_pc s" arrived] one(2) [OF that(1)] C that(2) by (simp add: counted_def)
  have log: "b_log s = init_steps" if "b_mains s = 1" using all [OF that, of 0] L assms(2) by (cases "b_pc s 0") auto
  have st: "unat (b_stack s c) = unat base + 16384 * (c + 1)" if "b_pc s c \<noteq> Off" for c
    using inv that stack_top [OF assms(4), of c] led_bound [OF L assms(2) that] assms(3) by (simp add: boot_inv_def)
  have "stack_area s c \<inter> stack_area s d = {}" if "b_pc s c \<noteq> Off" "b_pc s d \<noteq> Off" "c \<noteq> d" for c d
  proof -
    have "unat (b_stack s c) + 16384 \<le> unat (b_stack s d) \<or> unat (b_stack s d) + 16384 \<le> unat (b_stack s c)"
      using that(3) by (simp add: st [OF that(1)] st [OF that(2)]) linarith
    then show ?thesis by (auto simp: stack_area_def)
  qed
  then show ?thesis using one(1) all log led_running(2,4) [OF L] by blast
qed

theorem boot_one_main_witness:
  "\<exists>s. boot_reach 0x200000 2 s \<and> b_mains s = 1 \<and> b_log s = init_steps \<and> stack_area s 0 \<inter> stack_area s 1 = {}"
proof -
  obtain s where s: "boot_reach 0x200000 2 s" "\<forall>c<2. b_pc s c = Stopped" "b_mains s = 1"
    using boot_completes [OF boot_reach.init, of 2] by auto
  have "b_pc s 0 \<noteq> Off" "b_pc s 1 \<noteq> Off" using s(2) by auto
  then have "b_log s = init_steps \<and> stack_area s 0 \<inter> stack_area s 1 = {}" using boot_one_main [OF s(1)] s(3) by simp
  then show ?thesis using s(1,3) by blast
qed

text \<open>
  (C33:boot_ends) The start ends: in every reachable state some processor can make a step, or all have stopped and the thread of \<open>kernelMain\<close> has been started, once; and every step reduces the work that is left.
\<close>

theorem boot_ends:
  assumes "boot_reach base n s" "1 \<le> n" "n \<le> 16"
  shows "((\<exists>t. boot_step base n s t) \<or> (\<forall>c<n. b_pc s c = Stopped) \<and> b_mains s = 1) \<and> (\<forall>t. boot_step base n s t \<longrightarrow> boot_work n t < boot_work n s)"
proof -
  have inv: "boot_inv base n s" using boot_reach_inv [OF assms(1,2)] assms(3) by simp
  show ?thesis using boot_progress [OF inv assms(2)] boot_step_work [OF inv assms(2)] by (auto simp: has_step_def)
qed


theorem boot_ends_witness: "\<exists>t. boot_step 0x200000 2 (boot_start 0x200000) t"
proof -
  have "b_pc (boot_start 0x200000) 0 \<noteq> Stopped" by (simp add: boot_start_def)
  then show ?thesis using boot_ends [OF boot_reach.init, of 2 "0x200000"] by fastforce
qed

end
