(* ===== verification/Buffers.thy ===== *)
theory Buffers
  imports KQueue "HOL-Library.Multiset"
begin

text \<open>
  The clients of the semaphore: the bounded buffer \<open>BB\<close> of \<open>kernel/bb.h\<close>, \<open>Barrier\<close> of \<open>kernel/barrier.h\<close>, \<open>Promise\<close> of \<open>kernel/promise.h\<close> and
  \<open>BlockingQueue\<close> of \<open>kernel/blocking_queue.h\<close>.

  A semaphore is its 64-bit count: \<open>down\<close> takes a unit and is possible only while there is one, \<open>up\<close> gives one. That is what
  \<open>sem_refines_counter\<close> of \<open>Sema\<close> shows of the implementation. A critical section of a spin lock is one step, and so is an atomic access.
  Threads in the middle of an operation are a multiset of their places, so there are any number of them; the lists
  \<open>puts\<close>, \<open>gets\<close> and \<open>results\<close> record what happened and do not influence it.
\<close>

section \<open>Counting\<close>

type_synonym sem_count = "64 word"

definition count_down :: "sem_count \<Rightarrow> sem_count option" where
  "count_down n = (if n > 0 then Some (n - 1) else None)"

definition count_up :: "sem_count \<Rightarrow> sem_count" where
  "count_up n = n + 1"

lemma count_down_Some: "count_down n = Some m \<longleftrightarrow> unat n = Suc (unat m)"
proof -
  have "unat n = Suc (unat (n - 1))" if "n \<noteq> 0" using that by (simp add: unat_minus_one unat_eq_0 [symmetric])
  moreover have "m = n - 1" if "unat n = Suc (unat m)"
  proof -
    have "n = of_nat (unat n)" by simp
    also have "\<dots> = m + 1" unfolding that by simp
    finally show ?thesis by simp
  qed
  ultimately show ?thesis by (auto simp: count_down_def word_gt_0 unat_eq_0 [symmetric])
qed

lemma count_down_possible: "(\<exists>m. count_down n = Some m) \<longleftrightarrow> 0 < unat n"
  by (auto simp: count_down_def word_gt_0 unat_gt_0)

lemma unat_count_up: "unat n + 1 < 2 ^ 64 \<Longrightarrow> unat (count_up n) = Suc (unat n)"
  by (simp add: count_up_def unat_word_ariths(1))

abbreviation number_of :: "('p \<Rightarrow> bool) \<Rightarrow> 'p multiset \<Rightarrow> nat" where
  "number_of P M \<equiv> size (filter_mset P M)"

declare filter_diff_mset [simp del]

lemma number_of_remove: "p \<in># M \<Longrightarrow> number_of P (M - {#p#}) = (if P p then number_of P M - 1 else number_of P M)"
  by (auto simp: filter_diff_mset size_Diff_singleton)

lemma number_of_pos: "p \<in># M \<Longrightarrow> P p \<Longrightarrow> 0 < number_of P M"
  by (auto simp: nonempty_has_size [symmetric] dest!: multi_member_split)

section \<open>The bounded buffer\<close>

record 'a bb =
  bb_data :: "'a list"
  bb_n :: u32
  n_empty :: sem_count
  n_full :: sem_count
  bb_front :: u32
  bb_back :: u32

definition bb_new :: "'a \<Rightarrow> u32 \<Rightarrow> 'a bb" where
  "bb_new d n = \<lparr>bb_data = replicate (unat n) d, bb_n = n, n_empty = ucast n, n_full = 0, bb_front = 0, bb_back = 0\<rparr>"

text \<open>The critical sections of \<open>put\<close> and \<open>get\<close>.\<close>

definition put_section :: "'a bb \<Rightarrow> 'a \<Rightarrow> 'a bb res" where
  "put_section b v =
     (if unat (bb_back b) < length (bb_data b)
      then Inr (b\<lparr>bb_data := (bb_data b)[unat (bb_back b) := v], bb_back := (bb_back b + 1) mod bb_n b\<rparr>)
      else Inl (Undef ''data[back]''))"

definition get_section :: "'a bb \<Rightarrow> ('a \<times> 'a bb) res" where
  "get_section b =
     (if unat (bb_front b) < length (bb_data b)
      then Inr (bb_data b ! unat (bb_front b), b\<lparr>bb_front := (bb_front b + 1) mod bb_n b\<rparr>)
      else Inl (Undef ''data[front]''))"

text \<open>
  \<open>PutDown v\<close>: past \<open>n_empty.down()\<close> with \<open>v\<close> to store; \<open>PutStored\<close>: before \<open>n_full.up()\<close>; \<open>GetDown\<close>: past \<open>n_full.down()\<close>;
  \<open>GetTaken v\<close>: before \<open>n_empty.up()\<close> with \<open>v\<close> to return.
\<close>

datatype 'a bb_pc = PutDown 'a | PutStored | GetDown | GetTaken 'a

record 'a bb_sys =
  bs_bb :: "'a bb"
  bs_active :: "'a bb_pc multiset"
  bs_puts :: "'a list"
  bs_gets :: "'a list"

inductive bb_step :: "'a bb_sys \<Rightarrow> 'a bb_sys \<Rightarrow> bool" where
  put_down: "count_down (n_empty (bs_bb s)) = Some k \<Longrightarrow>
    bb_step s (s\<lparr>bs_bb := (bs_bb s)\<lparr>n_empty := k\<rparr>, bs_active := add_mset (PutDown v) (bs_active s)\<rparr>)"
| put_store: "PutDown v \<in># bs_active s \<Longrightarrow> put_section (bs_bb s) v = Inr b \<Longrightarrow>
    bb_step s (s\<lparr>bs_bb := b, bs_active := add_mset PutStored (bs_active s - {#PutDown v#}), bs_puts := bs_puts s @ [v]\<rparr>)"
| put_up: "PutStored \<in># bs_active s \<Longrightarrow>
    bb_step s (s\<lparr>bs_bb := (bs_bb s)\<lparr>n_full := count_up (n_full (bs_bb s))\<rparr>, bs_active := bs_active s - {#PutStored#}\<rparr>)"
| get_down: "count_down (n_full (bs_bb s)) = Some k \<Longrightarrow>
    bb_step s (s\<lparr>bs_bb := (bs_bb s)\<lparr>n_full := k\<rparr>, bs_active := add_mset GetDown (bs_active s)\<rparr>)"
| get_take: "GetDown \<in># bs_active s \<Longrightarrow> get_section (bs_bb s) = Inr (v, b) \<Longrightarrow>
    bb_step s (s\<lparr>bs_bb := b, bs_active := add_mset (GetTaken v) (bs_active s - {#GetDown#}), bs_gets := bs_gets s @ [v]\<rparr>)"
| get_up: "GetTaken v \<in># bs_active s \<Longrightarrow>
    bb_step s (s\<lparr>bs_bb := (bs_bb s)\<lparr>n_empty := count_up (n_empty (bs_bb s))\<rparr>, bs_active := bs_active s - {#GetTaken v#}\<rparr>)"

definition bb_init :: "'a \<Rightarrow> u32 \<Rightarrow> 'a bb_sys" where
  "bb_init d n = \<lparr>bs_bb = bb_new d n, bs_active = {#}, bs_puts = [], bs_gets = []\<rparr>"

inductive bb_reach :: "'a \<Rightarrow> u32 \<Rightarrow> 'a bb_sys \<Rightarrow> bool" for d n where
  bb_start: "bb_reach d n (bb_init d n)"
| bb_next: "bb_reach d n s \<Longrightarrow> bb_step s s' \<Longrightarrow> bb_reach d n s'"

subsection \<open>Invariant\<close>

text \<open>The number of stored values and the values themselves, oldest first.\<close>

definition bb_used :: "'a bb_sys \<Rightarrow> nat" where
  "bb_used s = unat (n_full (bs_bb s)) + number_of (\<lambda>p. p = PutStored) (bs_active s) + number_of (\<lambda>p. p = GetDown) (bs_active s)"

definition ring :: "'a list \<Rightarrow> nat \<Rightarrow> nat \<Rightarrow> 'a list" where
  "ring xs f k = map (\<lambda>i. xs ! ((f + i) mod length xs)) [0 ..< k]"

definition bb_content :: "'a bb_sys \<Rightarrow> 'a list" where
  "bb_content s = ring (bb_data (bs_bb s)) (unat (bb_front (bs_bb s))) (bb_used s)"

fun is_put_down :: "'a bb_pc \<Rightarrow> bool" where "is_put_down (PutDown v) = True" | "is_put_down _ = False"
fun is_get_taken :: "'a bb_pc \<Rightarrow> bool" where "is_get_taken (GetTaken v) = True" | "is_get_taken _ = False"

definition bb_inv :: "u32 \<Rightarrow> 'a bb_sys \<Rightarrow> bool" where
  "bb_inv n s \<longleftrightarrow>
     (let b = bs_bb s in
      length (bb_data b) = unat n \<and> bb_n b = n \<and> (n \<noteq> 0 \<longrightarrow> bb_front b < n) \<and>
      unat (bb_back b) = (unat (bb_front b) + bb_used s) mod unat n \<and>
      unat (n_empty b) + number_of is_put_down (bs_active s) + bb_used s + number_of is_get_taken (bs_active s) = unat n \<and>
      bs_puts s = bs_gets s @ bb_content s)"

lemma ring_0 [simp]: "ring xs f 0 = []" by (simp add: ring_def)
lemma length_ring [simp]: "length (ring xs f k) = k" by (simp add: ring_def)

lemma ring_store:
  assumes "k < length xs"
  shows "ring (xs[(f + k) mod length xs := v]) f (Suc k) = ring xs f k @ [v]"
proof -
  have "xs[(f + k) mod length xs := v] ! ((f + i) mod length xs) = xs ! ((f + i) mod length xs)" if "i < k" for i
  proof (rule nth_list_update_neq, rule notI, drule sym)
    assume "(f + i) mod length xs = (f + k) mod length xs"
    then have "length xs dvd (f + k) - (f + i)" using that by (metis add_left_mono less_imp_le mod_eq_dvd_iff_nat)
    then have "length xs dvd k - i" by simp
    then have "length xs \<le> k - i" using that by (intro dvd_imp_le) simp_all
    then show False using assms by linarith
  qed
  moreover have "(f + k) mod length xs < length xs" using assms by (intro mod_less_divisor) linarith
  ultimately show ?thesis by (simp add: ring_def)
qed

lemma ring_take: "ring xs f (Suc k) = xs ! (f mod length xs) # ring xs (Suc f mod length xs) k"
  by (simp add: ring_def upt_rec [of 0 "Suc k"] map_Suc_upt [symmetric] mod_add_left_eq del: upt_Suc)

lemma unat_next: "x < n \<Longrightarrow> unat ((x + 1) mod n :: u32) = Suc (unat x) mod unat n"
proof -
  assume "x < n"
  then have "unat x + 1 < 2 ^ 32" using unat_u32_less [of n] by (simp add: word_less_nat_alt)
  then show ?thesis by (simp add: unat_mod unat_plus_no_wrap)
qed

text \<open>How each kind of step changes the numbers of places.\<close>

lemmas count_simps = bb_used_def number_of_remove count_down_Some

lemma bb_inv_init: "bb_inv n (bb_init d n)"
proof -
  have "unat n < 2 ^ 64" by (rule order_less_trans [OF unat_u32_less]) simp
  then have "unat (ucast n :: sem_count) = unat n" by (simp only: unsigned_ucast_eq) (simp add: take_bit_nat_eq_self)
  then show ?thesis by (simp add: bb_inv_def bb_init_def bb_new_def bb_used_def bb_content_def Let_def word_gt_0)
qed

lemma bb_used_less: "bb_inv n s \<Longrightarrow> PutDown v \<in># bs_active s \<Longrightarrow> bb_used s < unat n"
  using number_of_pos [of "PutDown v" "bs_active s" is_put_down] by (simp add: bb_inv_def Let_def)

lemma bb_used_pos: "GetDown \<in># bs_active s \<Longrightarrow> 0 < bb_used s"
  using number_of_pos [of GetDown "bs_active s" "\<lambda>p. p = GetDown"] by (simp add: bb_used_def)

lemma bb_counts_small: "bb_inv n s \<Longrightarrow> unat (n_full (bs_bb s)) + unat (n_empty (bs_bb s)) + number_of is_get_taken (bs_active s) +
    number_of (\<lambda>p. p = PutStored) (bs_active s) < 2 ^ 32"
  using unat_u32_less [of n] by (simp add: bb_inv_def bb_used_def Let_def)

lemma put_section_ok:
  assumes "bb_inv n s" "PutDown v \<in># bs_active s"
  shows "\<exists>b. put_section (bs_bb s) v = Inr b \<and> bb_data b = (bb_data (bs_bb s))[unat (bb_back (bs_bb s)) := v] \<and>
    bb_n b = bb_n (bs_bb s) \<and> n_empty b = n_empty (bs_bb s) \<and> n_full b = n_full (bs_bb s) \<and> bb_front b = bb_front (bs_bb s) \<and>
    unat (bb_back b) = (unat (bb_front b) + Suc (bb_used s)) mod unat n"
proof -
  let ?b = "bs_bb s"
  have n: "0 < unat n" using bb_used_less [OF assms] by simp
  have i: "length (bb_data ?b) = unat n" "bb_n ?b = n" "unat (bb_back ?b) = (unat (bb_front ?b) + bb_used s) mod unat n"
    using assms(1) by (simp_all add: bb_inv_def Let_def)
  then have lt: "unat (bb_back ?b) < unat n" using n by simp
  then have "unat ((bb_back ?b + 1) mod n) = Suc (unat (bb_back ?b)) mod unat n" by (intro unat_next) (simp add: word_less_nat_alt)
  then show ?thesis using lt i by (simp add: put_section_def mod_Suc_eq)
qed

lemma get_section_ok:
  assumes "bb_inv n s" "GetDown \<in># bs_active s"
  shows "\<exists>b. get_section (bs_bb s) = Inr (hd (bb_content s), b) \<and> bb_data b = bb_data (bs_bb s) \<and>
    bb_n b = bb_n (bs_bb s) \<and> n_empty b = n_empty (bs_bb s) \<and> n_full b = n_full (bs_bb s) \<and> bb_back b = bb_back (bs_bb s) \<and>
    bb_front b < n \<and> unat (bb_front b) = Suc (unat (bb_front (bs_bb s))) mod unat n"
proof -
  let ?b = "bs_bb s"
  obtain k where k: "bb_used s = Suc k" using bb_used_pos [OF assms(2)] by (auto simp: gr0_conv_Suc)
  have i: "length (bb_data ?b) = unat n" "bb_n ?b = n" "n \<noteq> 0 \<longrightarrow> bb_front ?b < n" "bb_used s \<le> unat n"
    using assms(1) by (simp_all add: bb_inv_def Let_def)
  then have n: "n \<noteq> 0" using k by auto
  then have f: "bb_front ?b < n" using i by simp
  then have "hd (bb_content s) = bb_data ?b ! unat (bb_front ?b)" using i(1) by (simp add: bb_content_def k ring_take word_less_nat_alt)
  moreover have "(bb_front ?b + 1) mod n < n" using n by (simp add: word_less_nat_alt unat_mod unat_gt_0)
  ultimately show ?thesis using f i unat_next [OF f] by (simp add: get_section_def word_less_nat_alt)
qed

lemma bb_inv_step:
  assumes "bb_inv n s" "bb_step s s'" shows "bb_inv n s'"
  using assms(2)
proof cases
  case (put_down k v)
  then show ?thesis using assms(1) by (simp add: bb_inv_def bb_content_def count_simps Let_def)
next
  case (put_store v b)
  note m = bb_used_less [OF assms(1) put_store(2)]
  obtain b' where b': "put_section (bs_bb s) v = Inr b'" "bb_data b' = (bb_data (bs_bb s))[unat (bb_back (bs_bb s)) := v]"
    "bb_n b' = bb_n (bs_bb s)" "n_empty b' = n_empty (bs_bb s)" "n_full b' = n_full (bs_bb s)" "bb_front b' = bb_front (bs_bb s)"
    "unat (bb_back b') = (unat (bb_front b') + Suc (bb_used s)) mod unat n" using put_section_ok [OF assms(1) put_store(2)] by blast
  have u: "bb_used s' = Suc (bb_used s)" using put_store b' by (simp add: count_simps)
  have i: "length (bb_data (bs_bb s)) = unat n" "unat (bb_back (bs_bb s)) = (unat (bb_front (bs_bb s)) + bb_used s) mod unat n"
    using assms(1) by (simp_all add: bb_inv_def Let_def)
  have "bb_content s' = bb_content s @ [v]" using ring_store [of "bb_used s" "bb_data (bs_bb s)" "unat (bb_front (bs_bb s))" v] m i u put_store b'
    by (simp add: bb_content_def)
  then show ?thesis using assms(1) m put_store b' u number_of_pos [OF put_store(2), of is_put_down]
    by (auto simp: bb_inv_def number_of_remove size_Diff_singleton Let_def)
next
  case put_up
  have "bb_used s' = bb_used s"
    using put_up bb_counts_small [OF assms(1)] number_of_pos [OF put_up(2), of "\<lambda>p. p = PutStored"] by (simp add: count_simps unat_count_up)
  then show ?thesis using assms(1) put_up by (simp add: bb_inv_def bb_content_def number_of_remove Let_def)
next
  case (get_down k)
  then show ?thesis using assms(1) by (simp add: bb_inv_def bb_content_def count_simps Let_def)
next
  case (get_take v b)
  obtain k where k: "bb_used s = Suc k" using bb_used_pos [OF get_take(2)] by (auto simp: gr0_conv_Suc)
  obtain b' where b': "get_section (bs_bb s) = Inr (hd (bb_content s), b')" "bb_data b' = bb_data (bs_bb s)"
    "bb_n b' = bb_n (bs_bb s)" "n_empty b' = n_empty (bs_bb s)" "n_full b' = n_full (bs_bb s)" "bb_back b' = bb_back (bs_bb s)"
    "bb_front b' < n" "unat (bb_front b') = Suc (unat (bb_front (bs_bb s))) mod unat n" using get_section_ok [OF assms(1) get_take(2)] by blast
  have u: "bb_used s' = k" using get_take b' k number_of_pos [OF get_take(2), of "\<lambda>p. p = GetDown"] by (simp add: count_simps)
  have i: "length (bb_data (bs_bb s)) = unat n" using assms(1) by (simp add: bb_inv_def Let_def)
  have "bb_content s = hd (bb_content s) # bb_content s'" using u k get_take b' i by (simp add: bb_content_def ring_take)
  moreover have "(unat (bb_front b') + k) mod unat n = (unat (bb_front (bs_bb s)) + Suc k) mod unat n"
    unfolding b'(8) by (simp add: mod_add_left_eq)
  ultimately show ?thesis using assms(1) get_take b' u k by (auto simp: bb_inv_def number_of_remove Let_def)
next
  case (get_up v)
  then show ?thesis using assms(1) bb_counts_small [OF assms(1)] number_of_pos [OF get_up(2), of is_get_taken]
    by (simp add: bb_inv_def bb_content_def count_simps unat_count_up Let_def)
qed

lemma bb_reach_inv: "bb_reach d n s \<Longrightarrow> bb_inv n s"
  by (induction rule: bb_reach.induct) (auto intro: bb_inv_init bb_inv_step)

subsection \<open>Properties\<close>

text \<open>
  (C31:bounded_buffer_fifo) The values that \<open>get\<close> has taken are, in order, the first of those that \<open>put\<close> has stored; what is in between fits
  the buffer. With no thread in the middle of an operation, \<open>n_full\<close> counts it and \<open>n_empty\<close> the rest, so
  \<open>put\<close> blocks exactly when the buffer is full and \<open>get\<close> when it is empty. No access leaves the array.
\<close>

theorem bounded_buffer_fifo:
  assumes "bb_reach d n s"
  shows "\<exists>q. bs_puts s = bs_gets s @ q \<and> length q \<le> unat n \<and>
    (bs_active s = {#} \<longrightarrow> unat (n_full (bs_bb s)) = length q \<and> unat (n_empty (bs_bb s)) = unat n - length q) \<and>
    (\<forall>v. PutDown v \<in># bs_active s \<longrightarrow> (\<exists>b. put_section (bs_bb s) v = Inr b)) \<and>
    (GetDown \<in># bs_active s \<longrightarrow> (\<exists>b. get_section (bs_bb s) = Inr (hd q, b)))"
proof -
  have i: "bb_inv n s" using assms by (rule bb_reach_inv)
  have l: "length (bb_content s) = bb_used s" by (simp add: bb_content_def)
  have q: "bs_puts s = bs_gets s @ bb_content s" "length (bb_content s) \<le> unat n"
    "bs_active s = {#} \<Longrightarrow> unat (n_full (bs_bb s)) = length (bb_content s) \<and> unat (n_empty (bs_bb s)) = unat n - length (bb_content s)"
    using i by (auto simp: bb_inv_def bb_used_def l Let_def)
  have "\<exists>b. put_section (bs_bb s) v = Inr b" if "PutDown v \<in># bs_active s" for v using put_section_ok [OF i that] by blast
  moreover have "\<exists>b. get_section (bs_bb s) = Inr (hd (bb_content s), b)" if "GetDown \<in># bs_active s"
    using get_section_ok [OF i that] by blast
  ultimately show ?thesis using q by blast
qed

theorem bounded_buffer_fifo_witness:
  "\<exists>s :: nat bb_sys. bb_reach 0 1 s \<and> bs_puts s = [5] \<and> bs_gets s = [] \<and> n_empty (bs_bb s) = 0 \<and> length (bs_puts s) \<le> unat (1 :: u32)"
proof -
  define b0 :: "nat bb" where "b0 = bb_new 0 1"
  define s0 where "s0 = \<lparr>bs_bb = b0, bs_active = {#}, bs_puts = [], bs_gets = []\<rparr>"
  define s1 where "s1 = \<lparr>bs_bb = b0\<lparr>n_empty := 0\<rparr>, bs_active = {#PutDown 5#}, bs_puts = [], bs_gets = []\<rparr>"
  define s2 where "s2 = \<lparr>bs_bb = b0\<lparr>n_empty := 0, bb_data := [5]\<rparr>, bs_active = {#PutStored#}, bs_puts = [5], bs_gets = []\<rparr>"
  have b0: "count_down (n_empty b0) = Some 0" "put_section (b0\<lparr>n_empty := 0\<rparr>) 5 = Inr (b0\<lparr>n_empty := 0, bb_data := [5]\<rparr>)"
    by (simp_all add: b0_def bb_new_def count_down_def put_section_def)
  have "bb_reach 0 1 s0" using bb_start [of 0 1] by (simp add: bb_init_def s0_def b0_def)
  moreover have "bb_step s0 s1" using bb_step.put_down [of s0 0 5] b0 by (simp add: s0_def s1_def)
  moreover have "bb_step s1 s2" using bb_step.put_store [of 5 s1] b0 by (simp add: s1_def s2_def)
  ultimately have r: "bb_reach 0 1 s2" by (meson bb_next)
  then have "length (bs_puts s2) \<le> unat (1 :: u32)" using bounded_buffer_fifo [OF r] by (auto simp: s2_def)
  with r show ?thesis by (intro exI [of _ s2]) (simp add: s2_def)
qed

text \<open>
  (bounded_buffer_progress) A thread past its first \<open>down\<close> is never stuck: it can take its next step.
\<close>

theorem bounded_buffer_progress:
  assumes "bb_reach d n s" "p \<in># bs_active s"
  shows "\<exists>s'. bb_step s s' \<and> count (bs_active s') p < count (bs_active s) p"
proof -
  have i: "bb_inv n s" using assms(1) by (rule bb_reach_inv)
  have c: "0 < count (bs_active s) p" using assms(2) by simp
  show ?thesis
  proof (cases p)
    case (PutDown v)
    then obtain b where "put_section (bs_bb s) v = Inr b" using put_section_ok [OF i] assms(2) by blast
    from bb_step.put_store [OF _ this] assms(2) PutDown c show ?thesis by (intro exI conjI) auto
  next
    case PutStored
    with bb_step.put_up [of s] assms(2) c show ?thesis by (intro exI conjI) auto
  next
    case GetDown
    then obtain b where "get_section (bs_bb s) = Inr (hd (bb_content s), b)" using get_section_ok [OF i] assms(2) by blast
    from bb_step.get_take [OF _ this] assms(2) GetDown c show ?thesis by (intro exI conjI) auto
  next
    case (GetTaken v)
    with bb_step.get_up [of v s] assms(2) c show ?thesis by (intro exI conjI) auto
  qed
qed

section \<open>The barrier\<close>

record barrier =
  bar_n :: u32
  bar_ready :: sem_count

definition barrier_new :: "u32 \<Rightarrow> barrier" where
  "barrier_new n = \<lparr>bar_n = n, bar_ready = 0\<rparr>"

text \<open>\<open>n.add_fetch(-1)\<close>: the new value says who opens the barrier.\<close>

definition barrier_arrive :: "barrier \<Rightarrow> bool \<times> barrier" where
  "barrier_arrive b = (let n' = bar_n b - 1 in (n' = 0, b\<lparr>bar_n := n'\<rparr>))"

datatype bar_pc = Last | WaitReady | PassOn

record bar_sys =
  br_bar :: barrier
  br_active :: "bar_pc multiset"
  br_arrived :: nat
  br_passed :: nat

inductive bar_step :: "bar_sys \<Rightarrow> bar_sys \<Rightarrow> bool" where
  arrive: "barrier_arrive (br_bar s) = (l, b) \<Longrightarrow>
    bar_step s (s\<lparr>br_bar := b, br_active := add_mset (if l then Last else WaitReady) (br_active s), br_arrived := Suc (br_arrived s)\<rparr>)"
| open_it: "Last \<in># br_active s \<Longrightarrow>
    bar_step s (s\<lparr>br_bar := (br_bar s)\<lparr>bar_ready := count_up (bar_ready (br_bar s))\<rparr>, br_active := br_active s - {#Last#}, br_passed := Suc (br_passed s)\<rparr>)"
| wake: "WaitReady \<in># br_active s \<Longrightarrow> count_down (bar_ready (br_bar s)) = Some k \<Longrightarrow>
    bar_step s (s\<lparr>br_bar := (br_bar s)\<lparr>bar_ready := k\<rparr>, br_active := add_mset PassOn (br_active s - {#WaitReady#})\<rparr>)"
| pass_on: "PassOn \<in># br_active s \<Longrightarrow>
    bar_step s (s\<lparr>br_bar := (br_bar s)\<lparr>bar_ready := count_up (bar_ready (br_bar s))\<rparr>, br_active := br_active s - {#PassOn#}, br_passed := Suc (br_passed s)\<rparr>)"

definition bar_init :: "u32 \<Rightarrow> bar_sys" where
  "bar_init n = \<lparr>br_bar = barrier_new n, br_active = {#}, br_arrived = 0, br_passed = 0\<rparr>"

inductive bar_reach :: "u32 \<Rightarrow> bar_sys \<Rightarrow> bool" for n where
  bar_start: "bar_reach n (bar_init n)"
| bar_next: "bar_reach n s \<Longrightarrow> bar_step s s' \<Longrightarrow> bar_reach n s'"

text \<open>After the \<open>n\<close>-th arrival there is one unit, which wanders from thread to thread.\<close>

definition bar_unit :: "bar_sys \<Rightarrow> nat" where
  "bar_unit s = unat (bar_ready (br_bar s)) + number_of (\<lambda>p. p = Last) (br_active s) + number_of (\<lambda>p. p = PassOn) (br_active s)"

definition bar_inv :: "u32 \<Rightarrow> bar_sys \<Rightarrow> bool" where
  "bar_inv n s \<longleftrightarrow>
     bar_n (br_bar s) = n - of_nat (br_arrived s) \<and> size (br_active s) + br_passed s = br_arrived s \<and>
     bar_unit s = (if unat n \<le> br_arrived s then 1 else 0) \<and> (0 < br_passed s \<longrightarrow> unat n \<le> br_arrived s)"

lemma bar_unit_le: "bar_inv n s \<Longrightarrow> br_arrived s < 2 ^ 32 \<Longrightarrow> bar_unit s \<le> 1"
  by (simp add: bar_inv_def)

text \<open>A step that is no arrival keeps the unit.\<close>

lemma bar_inv_keep:
  assumes "bar_inv n s" "bar_n (br_bar s') = bar_n (br_bar s)" "br_arrived s' = br_arrived s" "bar_unit s' = bar_unit s" "0 < bar_unit s"
    "size (br_active s') + br_passed s' = size (br_active s) + br_passed s"
  shows "bar_inv n s'"
  using assms by (simp add: bar_inv_def split: if_splits)

lemma bar_inv_step:
  assumes "n \<noteq> 0" "bar_inv n s" "br_arrived s' < 2 ^ 32" "bar_step s s'" shows "bar_inv n s'"
  using assms(4)
proof cases
  case (arrive l b)
  have a: "Suc (br_arrived s) < 2 ^ 32" using arrive assms(3) by simp
  have n: "bar_n (br_bar s) = n - of_nat (br_arrived s)" using assms(2) by (simp add: bar_inv_def)
  have "l = fst (barrier_arrive (br_bar s))" "b = snd (barrier_arrive (br_bar s))" by (simp_all only: arrive(2) fst_conv snd_conv)
  then have l: "l = (bar_n (br_bar s) - 1 = 0)" and b': "b = (br_bar s)\<lparr>bar_n := bar_n (br_bar s) - 1\<rparr>"
    by (simp_all only: barrier_arrive_def Let_def fst_conv snd_conv)
  have b: "bar_n b = bar_n (br_bar s) - 1" "bar_ready b = bar_ready (br_bar s)" unfolding b' by simp_all
  have m: "bar_n (br_bar s) - 1 = n - of_nat (Suc (br_arrived s))" unfolding n by simp
  have "n - of_nat (Suc (br_arrived s)) = 0 \<longleftrightarrow> n = of_nat (Suc (br_arrived s))" by (rule right_minus_eq)
  also have "\<dots> \<longleftrightarrow> unat n = Suc (br_arrived s)" using unat_of_nat_u32 [OF a] by (metis of_nat_unat ucast_id)
  finally have l': "l \<longleftrightarrow> unat n = Suc (br_arrived s)" unfolding l m .
  have u: "bar_unit s' = bar_unit s + (if l then 1 else 0)" "br_arrived s' = Suc (br_arrived s)" "br_passed s' = br_passed s"
    "size (br_active s') = Suc (size (br_active s))" "bar_n (br_bar s') = n - of_nat (Suc (br_arrived s))"
    using arrive b m by (simp_all add: bar_unit_def del: of_nat_Suc)
  show ?thesis using assms(2) l' unfolding bar_inv_def u by (auto simp del: of_nat_Suc split: if_splits)
next
  case open_it
  have p: "0 < number_of (\<lambda>p. p = Last) (br_active s)" by (rule number_of_pos [OF open_it(2)]) simp
  have z: "size (br_active s) = Suc (size (br_active s - {#Last#}))" using open_it(2) by (simp add: size_Suc_Diff1)
  have u: "bar_unit s \<le> 1" using bar_unit_le [OF assms(2)] assms(3) open_it by simp
  have "bar_unit s' = bar_unit s" using open_it p u by (simp add: bar_unit_def number_of_remove unat_count_up)
  then show ?thesis using open_it z p by (intro bar_inv_keep [OF assms(2)]) (simp_all add: bar_unit_def)
next
  case (wake k)
  have z: "size (br_active s) = Suc (size (br_active s - {#WaitReady#}))" using wake(2) by (simp add: size_Suc_Diff1)
  have "bar_unit s' = bar_unit s" using wake by (simp add: bar_unit_def number_of_remove count_down_Some)
  then show ?thesis using wake z by (intro bar_inv_keep [OF assms(2)]) (simp_all add: bar_unit_def count_down_Some)
next
  case pass_on
  have p: "0 < number_of (\<lambda>p. p = PassOn) (br_active s)" by (rule number_of_pos [OF pass_on(2)]) simp
  have z: "size (br_active s) = Suc (size (br_active s - {#PassOn#}))" using pass_on(2) by (simp add: size_Suc_Diff1)
  have u: "bar_unit s \<le> 1" using bar_unit_le [OF assms(2)] assms(3) pass_on by simp
  have "bar_unit s' = bar_unit s" using pass_on p u by (simp add: bar_unit_def number_of_remove unat_count_up)
  then show ?thesis using pass_on z p by (intro bar_inv_keep [OF assms(2)]) (simp_all add: bar_unit_def)
qed

lemma bar_arrived_mono: "bar_step s s' \<Longrightarrow> br_arrived s \<le> br_arrived s'"
  by (induction rule: bar_step.induct) simp_all

lemma bar_reach_inv: "bar_reach n s \<Longrightarrow> n \<noteq> 0 \<Longrightarrow> br_arrived s < 2 ^ 32 \<Longrightarrow> bar_inv n s"
proof (induction rule: bar_reach.induct)
  case bar_start
  then show ?case by (simp add: bar_inv_def bar_init_def barrier_new_def bar_unit_def unat_eq_0)
next
  case (bar_next s s')
  from bar_arrived_mono [OF bar_next.hyps(2)] bar_next.prems(2) have "br_arrived s < 2 ^ 32" by (rule le_less_trans)
  then show ?case using bar_inv_step bar_next by blast
qed

text \<open>One of the threads inside can always go on, and each of its steps brings the barrier nearer to empty.\<close>

definition bar_measure :: "bar_sys \<Rightarrow> nat" where
  "bar_measure s = size (br_active s) + number_of (\<lambda>p. p = WaitReady) (br_active s)"

lemma bar_can_go:
  assumes "bar_inv n s" "unat n \<le> br_arrived s" "br_active s \<noteq> {#}"
  shows "\<exists>s'. bar_step s s' \<and> bar_measure s' < bar_measure s \<and> br_arrived s' = br_arrived s"
proof -
  have u: "bar_unit s = 1" using assms(1,2) by (simp add: bar_inv_def)
  obtain p where p: "p \<in># br_active s" using assms(3) by auto
  have z: "size (br_active s) = Suc (size (br_active s - {#q#}))" if "q \<in># br_active s" for q using that by (simp add: size_Suc_Diff1)
  consider (l) "Last \<in># br_active s" | (o) "PassOn \<in># br_active s" | (w) "Last \<notin># br_active s" "PassOn \<notin># br_active s"
    "WaitReady \<in># br_active s" using p by (cases p) auto
  then show ?thesis
  proof cases
    case l
    show ?thesis by (intro exI conjI, rule bar_step.open_it [OF l]) (use z [OF l] l in \<open>auto simp: bar_measure_def number_of_remove\<close>)
  next
    case o
    show ?thesis by (intro exI conjI, rule bar_step.pass_on [OF o]) (use z [OF o] o in \<open>auto simp: bar_measure_def number_of_remove\<close>)
  next
    case w
    then have "number_of (\<lambda>p. p = Last) (br_active s) = 0" "number_of (\<lambda>p. p = PassOn) (br_active s) = 0" by auto
    then have "0 < unat (bar_ready (br_bar s))" using u unfolding bar_unit_def by linarith
    then obtain k where k: "count_down (bar_ready (br_bar s)) = Some k" using count_down_possible by blast
    have n: "0 < number_of (\<lambda>p. p = WaitReady) (br_active s)" by (rule number_of_pos [OF w(3)]) simp
    show ?thesis
      by (intro exI conjI, rule bar_step.wake [OF w(3) k]) (use z [OF w(3)] n w(3) in \<open>auto simp: bar_measure_def number_of_remove\<close>)
  qed
qed

lemma bar_empties:
  assumes "n \<noteq> 0" "bar_reach n s" "unat n \<le> br_arrived s" "br_arrived s < 2 ^ 32"
  shows "\<exists>s'. bar_step\<^sup>*\<^sup>* s s' \<and> br_active s' = {#} \<and> br_arrived s' = br_arrived s \<and> br_passed s' = br_arrived s"
  using assms(2-4)
proof (induction "bar_measure s" arbitrary: s rule: less_induct)
  case less
  have i: "bar_inv n s" using bar_reach_inv [OF less.prems(1) assms(1) less.prems(3)] .
  show ?case
  proof (cases "br_active s = {#}")
    case True
    then show ?thesis using i by (intro exI [of _ s]) (simp add: bar_inv_def)
  next
    case False
    obtain t where t: "bar_step s t" "bar_measure t < bar_measure s" "br_arrived t = br_arrived s"
      using bar_can_go [OF i less.prems(2) False] by blast
    have "bar_reach n t" using bar_next less.prems(1) t(1) by blast
    then obtain s' where s': "bar_step\<^sup>*\<^sup>* t s'" "br_active s' = {#}" "br_arrived s' = br_arrived s" "br_passed s' = br_arrived s"
      using less.hyps [of t] t less.prems by auto
    have "bar_step\<^sup>*\<^sup>* s s'" using t(1) s'(1) by (rule converse_rtranclp_into_rtranclp)
    then show ?thesis using s' by blast
  qed
qed

text \<open>
  (C34:barrier_correct) No thread leaves the barrier before the \<open>n\<close>-th has arrived, and then all leave: whatever happened so far,
  the threads inside can all pass, one after another.
\<close>

theorem barrier_correct:
  assumes "n \<noteq> 0" "bar_reach n s" "br_arrived s < 2 ^ 32"
  shows "(0 < br_passed s \<longrightarrow> unat n \<le> br_arrived s) \<and> size (br_active s) + br_passed s = br_arrived s \<and>
    (unat n \<le> br_arrived s \<longrightarrow>
      (\<exists>s'. bar_step\<^sup>*\<^sup>* s s' \<and> br_active s' = {#} \<and> br_arrived s' = br_arrived s \<and> br_passed s' = br_arrived s))"
  using bar_reach_inv [OF assms(2,1,3)] bar_empties [OF assms(1,2) _ assms(3)] by (simp add: bar_inv_def)

theorem barrier_correct_witness:
  "\<exists>s'. bar_step\<^sup>*\<^sup>* (bar_init 1) s' \<and> br_passed s' = 1 \<and> br_active s' = {#}"
proof -
  have "bar_step (bar_init 1) ((bar_init 1)\<lparr>br_bar := \<lparr>bar_n = 0, bar_ready = 0\<rparr>, br_active := {#Last#}, br_arrived := 1\<rparr>)"
    using bar_step.arrive [of "bar_init 1" True "\<lparr>bar_n = 0, bar_ready = 0\<rparr>"] by (simp add: bar_init_def barrier_new_def barrier_arrive_def)
  moreover from this have "bar_reach 1 ((bar_init 1)\<lparr>br_bar := \<lparr>bar_n = 0, bar_ready = 0\<rparr>, br_active := {#Last#}, br_arrived := 1\<rparr>)"
    using bar_start bar_next by blast
  ultimately show ?thesis using barrier_correct [of 1 "(bar_init 1)\<lparr>br_bar := \<lparr>bar_n = 0, bar_ready = 0\<rparr>, br_active := {#Last#}, br_arrived := 1\<rparr>"]
    by (auto intro: converse_rtranclp_into_rtranclp)
qed

section \<open>The promise\<close>

record 'a promise =
  pr_sem :: sem_count
  pr_value :: 'a

definition promise_new :: "'a \<Rightarrow> 'a promise" where
  "promise_new d = \<lparr>pr_sem = 0, pr_value = d\<rparr>"

datatype pr_pc = SetStored | GotDown | GotUp

record 'a pr_sys =
  pr_pr :: "'a promise"
  pr_active :: "pr_pc multiset"
  pr_sets :: "'a list"
  pr_results :: "'a list"

text \<open>\<open>set\<close> stores the value and then gives a unit; \<open>get\<close> takes a unit, gives it back and then reads the value.\<close>

inductive pr_step :: "'a pr_sys \<Rightarrow> 'a pr_sys \<Rightarrow> bool" where
  set_store: "pr_step s (s\<lparr>pr_pr := (pr_pr s)\<lparr>pr_value := v\<rparr>, pr_active := add_mset SetStored (pr_active s), pr_sets := pr_sets s @ [v]\<rparr>)"
| set_up: "SetStored \<in># pr_active s \<Longrightarrow>
    pr_step s (s\<lparr>pr_pr := (pr_pr s)\<lparr>pr_sem := count_up (pr_sem (pr_pr s))\<rparr>, pr_active := pr_active s - {#SetStored#}\<rparr>)"
| get_down: "count_down (pr_sem (pr_pr s)) = Some k \<Longrightarrow>
    pr_step s (s\<lparr>pr_pr := (pr_pr s)\<lparr>pr_sem := k\<rparr>, pr_active := add_mset GotDown (pr_active s)\<rparr>)"
| get_up: "GotDown \<in># pr_active s \<Longrightarrow>
    pr_step s (s\<lparr>pr_pr := (pr_pr s)\<lparr>pr_sem := count_up (pr_sem (pr_pr s))\<rparr>, pr_active := add_mset GotUp (pr_active s - {#GotDown#})\<rparr>)"
| get_read: "GotUp \<in># pr_active s \<Longrightarrow>
    pr_step s (s\<lparr>pr_active := pr_active s - {#GotUp#}, pr_results := pr_results s @ [pr_value (pr_pr s)]\<rparr>)"

definition pr_init :: "'a \<Rightarrow> 'a pr_sys" where
  "pr_init d = \<lparr>pr_pr = promise_new d, pr_active = {#}, pr_sets = [], pr_results = []\<rparr>"

inductive pr_reach :: "'a \<Rightarrow> 'a pr_sys \<Rightarrow> bool" for d where
  pr_start: "pr_reach d (pr_init d)"
| pr_next: "pr_reach d s \<Longrightarrow> pr_step s s' \<Longrightarrow> pr_reach d s'"

definition pr_unit :: "'a pr_sys \<Rightarrow> nat" where
  "pr_unit s = unat (pr_sem (pr_pr s)) + number_of (\<lambda>p. p = SetStored) (pr_active s) + number_of (\<lambda>p. p = GotDown) (pr_active s)"

definition pr_inv :: "'a pr_sys \<Rightarrow> bool" where
  "pr_inv s \<longleftrightarrow> pr_unit s = length (pr_sets s) \<and> (pr_sets s \<noteq> [] \<longrightarrow> pr_value (pr_pr s) = last (pr_sets s)) \<and>
     set (pr_results s) \<subseteq> set (pr_sets s) \<and> (pr_sets s = [] \<longrightarrow> pr_active s = {#})"

lemma pr_inv_step:
  assumes "pr_inv s" "length (pr_sets s') < 2 ^ 64" "pr_step s s'" shows "pr_inv s'"
  using assms(3)
proof cases
  case (set_store v)
  then have "pr_unit s' = Suc (pr_unit s)" by (simp add: pr_unit_def)
  then show ?thesis using assms(1) set_store by (auto simp: pr_inv_def)
next
  case set_up
  have p: "0 < number_of (\<lambda>p. p = SetStored) (pr_active s)" by (rule number_of_pos [OF set_up(2)]) simp
  have "pr_unit s < 2 ^ 64" using assms(1,2) set_up by (simp add: pr_inv_def)
  then have "pr_unit s' = pr_unit s" using set_up p by (simp add: pr_unit_def number_of_remove unat_count_up)
  then show ?thesis using assms(1) set_up by (auto simp: pr_inv_def)
next
  case (get_down k)
  then have u: "pr_unit s' = pr_unit s" by (simp add: pr_unit_def count_down_Some)
  have "0 < pr_unit s" using get_down by (simp add: pr_unit_def count_down_Some)
  then show ?thesis using assms(1) get_down u by (auto simp: pr_inv_def)
next
  case get_up
  have p: "0 < number_of (\<lambda>p. p = GotDown) (pr_active s)" by (rule number_of_pos [OF get_up(2)]) simp
  have "pr_unit s < 2 ^ 64" using assms(1,2) get_up by (simp add: pr_inv_def)
  then have "pr_unit s' = pr_unit s" using get_up p by (simp add: pr_unit_def number_of_remove unat_count_up)
  then show ?thesis using assms(1) get_up by (auto simp: pr_inv_def)
next
  case get_read
  then have "pr_unit s' = pr_unit s" by (simp add: pr_unit_def number_of_remove)
  then show ?thesis using assms(1) get_read by (auto simp: pr_inv_def)
qed

lemma pr_sets_mono: "pr_step s s' \<Longrightarrow> length (pr_sets s) \<le> length (pr_sets s')"
  by (induction rule: pr_step.induct) simp_all

lemma pr_reach_inv: "pr_reach d s \<Longrightarrow> length (pr_sets s) < 2 ^ 64 \<Longrightarrow> pr_inv s"
proof (induction rule: pr_reach.induct)
  case pr_start
  then show ?case by (simp add: pr_inv_def pr_init_def promise_new_def pr_unit_def)
next
  case (pr_next s s')
  from pr_sets_mono [OF pr_next.hyps(2)] pr_next.prems have "length (pr_sets s) < 2 ^ 64" by (rule le_less_trans)
  then show ?case using pr_inv_step pr_next by blast
qed

text \<open>
  (promise_get_set) No \<open>get\<close> returns before \<open>set\<close> has stored a value. After one \<open>set\<close>, every \<open>get\<close> returns its value, and \<open>get\<close> can always
  go on once no thread is in the middle of an operation, however many threads have called it before.
\<close>

theorem promise_get_set:
  assumes "pr_reach d s"
  shows "(pr_sets s = [] \<longrightarrow> pr_results s = [] \<and> count_down (pr_sem (pr_pr s)) = None) \<and>
    (\<forall>v. pr_sets s = [v] \<longrightarrow> set (pr_results s) \<subseteq> {v} \<and> pr_value (pr_pr s) = v \<and>
      (pr_active s = {#} \<longrightarrow> count_down (pr_sem (pr_pr s)) = Some 0))"
proof -
  have "pr_inv s" if "length (pr_sets s) \<le> 1" using pr_reach_inv [OF assms] that by simp
  then have i: "pr_sets s = [] \<Longrightarrow> pr_inv s" "pr_sets s = [v] \<Longrightarrow> pr_inv s" for v by simp_all
  have 0: "count_down n = None \<longleftrightarrow> unat n = 0" for n using count_down_possible [of n] by auto
  show ?thesis using i by (auto simp: pr_inv_def pr_unit_def 0 count_down_Some)
qed

theorem promise_get_set_witness:
  "\<exists>s. pr_reach (0 :: nat) s \<and> pr_sets s = [7] \<and> set (pr_results s) \<subseteq> {7}"
proof -
  define s0 where "s0 = pr_init (0 :: nat)"
  define s where "s = s0\<lparr>pr_pr := (pr_pr s0)\<lparr>pr_value := 7\<rparr>, pr_active := add_mset SetStored (pr_active s0), pr_sets := pr_sets s0 @ [7]\<rparr>"
  have r: "pr_reach 0 s" unfolding s_def s0_def by (rule pr_next [OF pr_start pr_step.set_store])
  have "pr_sets s = [7]" by (simp add: s_def s0_def pr_init_def)
  then show ?thesis using r promise_get_set [OF r] by blast
qed

section \<open>The blocking queue\<close>

text \<open>\<open>add\<close> puts the element into the queue and gives a unit; \<open>remove\<close> takes a unit and tries the queue until it has an element.\<close>

definition bq_add :: "links \<Rightarrow> queue \<Rightarrow> u32 \<Rightarrow> (links \<times> queue) res" where
  "bq_add nx q p = bindR (assertR (p \<noteq> 0) ''p != nullptr'') (\<lambda>_. q_add nx q p)"

datatype bq_pc = Added | Trying

record bq_sys =
  bq_next :: links
  bq_data :: queue
  bq_n :: sem_count
  bq_active :: "bq_pc multiset"
  bq_adds :: nat

text \<open>The callers of \<open>add\<close> pass elements that are in no queue.\<close>

inductive bq_step :: "bq_sys \<Rightarrow> bq_sys \<Rightarrow> bool" where
  add_put: "\<forall>xs. queue_rep (bq_next s) (bq_data s) xs \<longrightarrow> p \<notin> set xs \<Longrightarrow> bq_add (bq_next s) (bq_data s) p = Inr (nx, q) \<Longrightarrow>
    bq_step s (s\<lparr>bq_next := nx, bq_data := q, bq_active := add_mset Added (bq_active s), bq_adds := Suc (bq_adds s)\<rparr>)"
| add_up: "Added \<in># bq_active s \<Longrightarrow> bq_step s (s\<lparr>bq_n := count_up (bq_n s), bq_active := bq_active s - {#Added#}\<rparr>)"
| remove_down: "count_down (bq_n s) = Some k \<Longrightarrow> bq_step s (s\<lparr>bq_n := k, bq_active := add_mset Trying (bq_active s)\<rparr>)"
| remove_try: "Trying \<in># bq_active s \<Longrightarrow> q_remove (bq_next s) (bq_data s) = (p, q) \<Longrightarrow>
    bq_step s (s\<lparr>bq_data := q, bq_active := bq_active s - {#Trying#}\<rparr>)"
| remove_all: "q_remove_all (bq_data s) = (p, q) \<Longrightarrow> bq_step s (s\<lparr>bq_data := q\<rparr>)"

definition bq_init :: bq_sys where
  "bq_init = \<lparr>bq_next = \<lambda>_. 0, bq_data = q_new, bq_n = 0, bq_active = {#}, bq_adds = 0\<rparr>"

inductive bq_reach :: "bq_sys \<Rightarrow> bool" where
  bq_start: "bq_reach bq_init"
| bq_go: "bq_reach s \<Longrightarrow> bq_step s s' \<Longrightarrow> bq_reach s'"

definition bq_unit :: "bq_sys \<Rightarrow> nat" where
  "bq_unit s = unat (bq_n s) + number_of (\<lambda>p. p = Added) (bq_active s) + number_of (\<lambda>p. p = Trying) (bq_active s)"

definition bq_inv :: "bq_sys \<Rightarrow> bool" where
  "bq_inv s \<longleftrightarrow> (\<exists>xs. queue_rep (bq_next s) (bq_data s) xs \<and> length xs \<le> bq_unit s) \<and> bq_unit s \<le> bq_adds s"

lemma bq_inv_step:
  assumes "bq_inv s" "bq_adds s' < 2 ^ 64" "bq_step s s'" shows "bq_inv s'"
proof -
  obtain xs where xs: "queue_rep (bq_next s) (bq_data s) xs" "length xs \<le> bq_unit s" "bq_unit s \<le> bq_adds s"
    using assms(1) by (auto simp: bq_inv_def)
  show ?thesis
    using assms(3)
  proof cases
    case (add_put p nx q)
    have "p \<noteq> 0" "q_add (bq_next s) (bq_data s) p = Inr (nx, q)" using add_put(3) by (auto simp: bq_add_def bindR_assertR split: if_splits)
    moreover have "p \<notin> set xs" using add_put(2) xs(1) by blast
    ultimately have "queue_rep nx q (xs @ [p])" using kq.enq_law [OF xs(1)] by fastforce
    moreover have "bq_unit s' = Suc (bq_unit s)" using add_put by (simp add: bq_unit_def)
    ultimately show ?thesis using xs add_put(1) unfolding bq_inv_def by (intro conjI exI [of _ "xs @ [p]"]) auto
  next
    case add_up
    have p: "0 < number_of (\<lambda>p. p = Added) (bq_active s)" by (rule number_of_pos [OF add_up(2)]) simp
    have "bq_unit s < 2 ^ 64" using xs(3) assms(2) add_up by simp
    then have "bq_unit s' = bq_unit s" using add_up p by (simp add: bq_unit_def number_of_remove unat_count_up)
    then show ?thesis using xs add_up by (auto simp: bq_inv_def)
  next
    case (remove_down k)
    then have "bq_unit s' = bq_unit s" by (simp add: bq_unit_def count_down_Some)
    then show ?thesis using xs remove_down by (auto simp: bq_inv_def)
  next
    case (remove_try p q)
    have p: "0 < number_of (\<lambda>p. p = Trying) (bq_active s)" by (rule number_of_pos [OF remove_try(2)]) simp
    have u: "bq_unit s = Suc (bq_unit s')" using remove_try p by (simp add: bq_unit_def number_of_remove)
    show ?thesis
      using xs(1)
    proof (cases rule: kq.deq_cases)
      case empty
      then show ?thesis using xs remove_try u by (auto simp: bq_inv_def)
    next
      case (elem x ys q')
      then show ?thesis using xs remove_try u by (auto simp: bq_inv_def)
    qed
  next
    case (remove_all p q)
    have "queue_rep (bq_next s) q []" using q_remove_all_rep [OF xs(1) remove_all(2)] by simp
    then show ?thesis using xs remove_all by (auto simp: bq_inv_def bq_unit_def)
  qed
qed

lemma bq_adds_mono: "bq_step s s' \<Longrightarrow> bq_adds s \<le> bq_adds s'"
  by (induction rule: bq_step.induct) simp_all

lemma bq_reach_inv: "bq_reach s \<Longrightarrow> bq_adds s < 2 ^ 64 \<Longrightarrow> bq_inv s"
proof (induction rule: bq_reach.induct)
  case bq_start
  have "queue_rep (\<lambda>_. 0) q_new []" by (rule queue_rep_new)
  then show ?case by (auto simp: bq_inv_def bq_init_def bq_unit_def)
next
  case (bq_go s s')
  from bq_adds_mono [OF bq_go.hyps(2)] bq_go.prems have "bq_adds s < 2 ^ 64" by (rule le_less_trans)
  then show ?case using bq_inv_step bq_go by blast
qed

text \<open>
  (blocking_queue_not_stuck) While the queue holds an element and no thread is in the middle of an operation, a thread in \<open>remove\<close> gets a unit and an element; no
  wake-up is lost, also after \<open>remove_all\<close>, which leaves units behind.
\<close>

theorem blocking_queue_not_stuck:
  assumes "bq_reach s" "bq_adds s < 2 ^ 64" "bq_active s = {#}" "\<not> q_isEmpty (bq_data s)"
  shows "\<exists>k p q. count_down (bq_n s) = Some k \<and> q_remove (bq_next s) (bq_data s) = (p, q) \<and> p \<noteq> 0"
proof -
  obtain xs where xs: "queue_rep (bq_next s) (bq_data s) xs" "length xs \<le> unat (bq_n s)"
    using bq_reach_inv [OF assms(1,2)] assms(3) by (auto simp: bq_inv_def bq_unit_def)
  have "xs \<noteq> []" using xs(1) assms(4) by (auto simp: queue_rep_def q_isEmpty_def)
  then have "0 < unat (bq_n s)" using xs(2) by (cases xs) auto
  then obtain k where "count_down (bq_n s) = Some k" using count_down_possible by blast
  moreover have "\<exists>p q. q_remove (bq_next s) (bq_data s) = (p, q) \<and> p \<noteq> 0"
    using xs(1) \<open>xs \<noteq> []\<close> by (cases rule: kq.deq_cases) auto
  ultimately show ?thesis by blast
qed

end
