(* ===== verification/Process.thy ===== *)
theory Process
  imports Loader Buffers
begin

text \<open>
  Processes, \<open>kernel/processes.h\<close> and \<open>kernel/processes.cc\<close>, and the state that system calls work on.

  Objects behind strong pointers live in stores; a pointer is a \<open>handle\<close>, 0 is the null pointer. An object that no pointer
  names any more stays in its store, where nothing can reach it: its release is the subject of \<open>SharedPtr\<close>. A semaphore is its count, as in \<open>Buffers\<close>.
  Memory is a function of addresses, as in \<open>Loader\<close>. The addresses of the private part, from \<open>0x80000000\<close> to \<open>0xf0000000\<close>, belong to the
  running thread; all others, the kernel below and the shared part above, are common to all threads.
\<close>

section \<open>Objects\<close>

type_synonym handle = nat

text \<open>What \<open>StrongPtr<Node>\<close> points to: a console or a node of the file system.\<close>

datatype fnode = Stdin | Stdout | Stderr | File node

record open_file =
  of_node :: "fnode option"
  of_offset :: u32

definition open_file_new :: "fnode option \<Rightarrow> open_file" where
  "open_file_new nd = \<lparr>of_node = nd, of_offset = 0\<rparr>"

definition PCB_ARR_SIZE :: nat where "PCB_ARR_SIZE = 100"

datatype PCB_State = RUNNING | WAITING | ZOMBIE | TERMINATED

record pcb =
  pcb_id :: u32
  cwd :: "node option"
  parent :: handle
  children :: "handle list"
  fdt :: "handle list"
  sdt :: "handle list"
  parent_promise :: handle
  children_promises :: "handle list"
  pcb_state :: PCB_State
  exit_status :: u32

record tcb =
  t_pcb :: handle
  t_vme :: vme
  t_um :: memory
  t_jiffies :: u32
  t_pc :: u32
  t_sp :: u32

record 's world =
  pcbs :: "handle \<rightharpoonup> pcb"
  files :: "handle \<rightharpoonup> open_file"
  sems :: "handle \<rightharpoonup> sem_count"
  promises :: "handle \<rightharpoonup> u32 promise"
  fresh :: handle
  me :: tcb
  spawned :: "tcb list"
  shared_vme :: vme
  common :: memory
  dev :: 's
  console :: "u8 list"

section \<open>Memory and stores\<close>

definition private_address :: "u32 \<Rightarrow> bool" where
  "private_address x \<longleftrightarrow> 0x80000000 \<le> x \<and> x < 0xf0000000"

definition mem :: "'s world \<Rightarrow> memory" where
  "mem w = (\<lambda>x. if private_address x then t_um (me w) x else common w x)"

definition set_mem :: "memory \<Rightarrow> 's world \<Rightarrow> 's world" where
  "set_mem m w = w\<lparr>me := (me w)\<lparr>t_um := m\<rparr>, common := (\<lambda>x. if private_address x then common w x else m x)\<rparr>"

definition my_pcb :: "'s world \<Rightarrow> pcb" where
  "my_pcb w = the (pcbs w (t_pcb (me w)))"

definition put_pcb :: "handle \<Rightarrow> pcb \<Rightarrow> 's world \<Rightarrow> 's world" where
  "put_pcb h p w = w\<lparr>pcbs := (pcbs w)(h \<mapsto> p)\<rparr>"

definition put_my_pcb :: "pcb \<Rightarrow> 's world \<Rightarrow> 's world" where
  "put_my_pcb p w = put_pcb (t_pcb (me w)) p w"

definition put_file :: "handle \<Rightarrow> open_file \<Rightarrow> 's world \<Rightarrow> 's world" where
  "put_file h f w = w\<lparr>files := (files w)(h \<mapsto> f)\<rparr>"

definition put_sem :: "handle \<Rightarrow> sem_count \<Rightarrow> 's world \<Rightarrow> 's world" where
  "put_sem h n w = w\<lparr>sems := (sems w)(h \<mapsto> n)\<rparr>"

definition put_promise :: "handle \<Rightarrow> u32 promise \<Rightarrow> 's world \<Rightarrow> 's world" where
  "put_promise h p w = w\<lparr>promises := (promises w)(h \<mapsto> p)\<rparr>"

text \<open>\<open>StrongPtr<T>::make\<close>.\<close>

definition make_file :: "open_file \<Rightarrow> 's world \<Rightarrow> handle \<times> 's world" where
  "make_file f w = (fresh w, (put_file (fresh w) f w)\<lparr>fresh := Suc (fresh w)\<rparr>)"

definition make_sem :: "u32 \<Rightarrow> 's world \<Rightarrow> handle \<times> 's world" where
  "make_sem n w = (fresh w, (put_sem (fresh w) (ucast n) w)\<lparr>fresh := Suc (fresh w)\<rparr>)"

definition make_promise :: "'s world \<Rightarrow> handle \<times> 's world" where
  "make_promise w = (fresh w, (put_promise (fresh w) (promise_new 0) w)\<lparr>fresh := Suc (fresh w)\<rparr>)"

text \<open>The constructor of a process: it opens the three consoles.\<close>

definition pcb_new :: "u32 \<Rightarrow> 's world \<Rightarrow> pcb \<times> 's world" where
  "pcb_new i w =
     (let (f0, w0) = make_file (open_file_new (Some Stdin)) w;
          (f1, w1) = make_file (open_file_new (Some Stdout)) w0;
          (f2, w2) = make_file (open_file_new (Some Stderr)) w1
      in (\<lparr>pcb_id = i, cwd = None, parent = 0, children = replicate PCB_ARR_SIZE 0,
           fdt = [f0, f1, f2] @ replicate (PCB_ARR_SIZE - 3) 0, sdt = replicate PCB_ARR_SIZE 0, parent_promise = 0,
           children_promises = replicate PCB_ARR_SIZE 0, pcb_state = RUNNING, exit_status = 0\<rparr>, w2))"

definition make_pcb :: "u32 \<Rightarrow> 's world \<Rightarrow> handle \<times> 's world" where
  "make_pcb i w = (let (p, w1) = pcb_new i w in (fresh w1, (put_pcb (fresh w1) p w1)\<lparr>fresh := Suc (fresh w1)\<rparr>))"

section \<open>Duplication\<close>

text \<open>
  The loop of \<open>duplicate\<close> reads \<open>children[PCB_ARR_SIZE]\<close>, one past the array; the word there is the first of \<open>fdt\<close>. \<open>k\<close> is the number of turns that
  remain until \<open>child_idx\<close> reaches the size of the array.
\<close>

definition children_at :: "pcb \<Rightarrow> nat \<Rightarrow> handle" where
  "children_at p i = (children p @ fdt p) ! i"

definition set_children_at :: "nat \<Rightarrow> handle \<Rightarrow> pcb \<Rightarrow> pcb" where
  "set_children_at i h p =
     (if i < PCB_ARR_SIZE then p\<lparr>children := (children p)[i := h]\<rparr> else p\<lparr>fdt := (fdt p)[i - PCB_ARR_SIZE := h]\<rparr>)"

fun child_slot :: "nat \<Rightarrow> pcb \<Rightarrow> nat \<Rightarrow> nat" where
  "child_slot 0 p child_idx = child_idx"
| "child_slot (Suc k) p child_idx = (if children_at p PCB_ARR_SIZE = 0 then child_slot k p (Suc child_idx) else child_idx)"

definition pcb_duplicate :: "handle \<Rightarrow> 's world \<Rightarrow> (handle \<times> 's world) res" where
  "pcb_duplicate parent_h w =
     (let parent_pcb = the (pcbs w parent_h);
          child_idx = child_slot PCB_ARR_SIZE parent_pcb 0;
          (child_h, w1) = make_pcb (of_nat child_idx) w;
          parent1 = set_children_at child_idx child_h parent_pcb;
          w2 = put_pcb parent_h parent1 w1
      in bindR (assertR (unat (pcb_id (the (pcbs w2 child_h))) < PCB_ARR_SIZE) ''child_pcb->pcb_id < PCB_ARR_SIZE'') (\<lambda>_.
         let child = the (pcbs w2 child_h)
         in Inr (child_h, put_pcb child_h (child\<lparr>cwd := cwd parent1, parent := parent_h, fdt := fdt parent1, sdt := sdt parent1\<rparr>) w2)))"

section \<open>Well-formed states\<close>

definition handles_in :: "(handle \<rightharpoonup> 'a) \<Rightarrow> handle list \<Rightarrow> bool" where
  "handles_in m hs \<longleftrightarrow> length hs = PCB_ARR_SIZE \<and> set hs \<subseteq> insert 0 (dom m)"

definition pcb_ok :: "'s world \<Rightarrow> pcb \<Rightarrow> bool" where
  "pcb_ok w p \<longleftrightarrow> handles_in (pcbs w) (children p) \<and> handles_in (files w) (fdt p) \<and> handles_in (sems w) (sdt p) \<and>
     handles_in (promises w) (children_promises p) \<and> parent p \<in> insert 0 (dom (pcbs w)) \<and> parent_promise p \<in> insert 0 (dom (promises w))"

definition world_ok :: "'s world \<Rightarrow> bool" where
  "world_ok w \<longleftrightarrow>
     (\<forall>h p. pcbs w h = Some p \<longrightarrow> pcb_ok w p) \<and> t_pcb (me w) \<in> dom (pcbs w) \<and> (\<forall>t \<in> set (spawned w). t_pcb t \<in> dom (pcbs w)) \<and>
     dom (pcbs w) \<union> dom (files w) \<union> dom (sems w) \<union> dom (promises w) \<subseteq> {0 <..< fresh w} \<and> 0 < fresh w"

text \<open>The part of the state that this depends on.\<close>

definition same_objects :: "'s world \<Rightarrow> 's world \<Rightarrow> bool" where
  "same_objects w w' \<longleftrightarrow> pcbs w' = pcbs w \<and> dom (files w') = dom (files w) \<and> dom (sems w') = dom (sems w) \<and>
     dom (promises w') = dom (promises w) \<and> fresh w' = fresh w \<and> t_pcb (me w') = t_pcb (me w) \<and> spawned w' = spawned w"

lemma pcb_ok_cong:
  "pcb_ok w p \<Longrightarrow> dom (pcbs w) \<subseteq> dom (pcbs w') \<Longrightarrow> dom (files w) \<subseteq> dom (files w') \<Longrightarrow> dom (sems w) \<subseteq> dom (sems w') \<Longrightarrow>
   dom (promises w) \<subseteq> dom (promises w') \<Longrightarrow> pcb_ok w' p"
  unfolding pcb_ok_def handles_in_def by blast

lemma world_ok_same: "world_ok w \<Longrightarrow> same_objects w w' \<Longrightarrow> world_ok w'"
  unfolding world_ok_def same_objects_def by (metis pcb_ok_cong subset_refl)

lemma world_ok_put_pcb: "world_ok w \<Longrightarrow> pcb_ok w p \<Longrightarrow> h \<in> dom (pcbs w) \<Longrightarrow> world_ok (put_pcb h p w)"
  unfolding world_ok_def put_pcb_def
  by (auto simp: insert_absorb dom_def split: if_splits intro: pcb_ok_cong [of w])

lemma my_pcb_ok: "world_ok w \<Longrightarrow> pcb_ok w (my_pcb w)"
  unfolding world_ok_def my_pcb_def by (metis domD option.sel)

lemma world_ok_put_my_pcb: "world_ok w \<Longrightarrow> pcb_ok w p \<Longrightarrow> world_ok (put_my_pcb p w)"
  unfolding put_my_pcb_def by (rule world_ok_put_pcb) (auto simp: world_ok_def)

lemma handles_in_update: "handles_in m hs \<Longrightarrow> h \<in> insert 0 (dom m) \<Longrightarrow> handles_in m (hs[i := h])"
  unfolding handles_in_def using set_update_subset_insert [of hs i h] by auto

lemma handles_in_nth: "handles_in m hs \<Longrightarrow> i < PCB_ARR_SIZE \<Longrightarrow> hs ! i \<noteq> 0 \<Longrightarrow> \<exists>x. m (hs ! i) = Some x"
  unfolding handles_in_def by (metis domD insertE nth_mem subsetD)

text \<open>Allocation: the new object is known, and nothing else changes.\<close>

definition extends :: "'s world \<Rightarrow> 's world \<Rightarrow> bool" where
  "extends w w' \<longleftrightarrow> pcbs w \<subseteq>\<^sub>m pcbs w' \<and> files w \<subseteq>\<^sub>m files w' \<and> sems w \<subseteq>\<^sub>m sems w' \<and> promises w \<subseteq>\<^sub>m promises w' \<and>
     me w' = me w \<and> spawned w' = spawned w \<and> shared_vme w' = shared_vme w \<and> common w' = common w \<and> dev w' = dev w \<and> console w' = console w"

lemma extends_refl [simp]: "extends w w" by (simp add: extends_def)

lemma extends_trans: "extends w w1 \<Longrightarrow> extends w1 w2 \<Longrightarrow> extends w w2"
  unfolding extends_def using map_le_trans by (metis (no_types, lifting))

lemma extends_dom:
  assumes "extends w w'"
  shows "dom (pcbs w) \<subseteq> dom (pcbs w')" "dom (files w) \<subseteq> dom (files w')" "dom (sems w) \<subseteq> dom (sems w')" "dom (promises w) \<subseteq> dom (promises w')"
  using assms by (simp_all add: extends_def map_le_implies_dom_le)

lemma extends_pcb_ok: "extends w w' \<Longrightarrow> pcb_ok w p \<Longrightarrow> pcb_ok w' p"
  using pcb_ok_cong [of w p w'] extends_dom by blast

lemma fresh_unused:
  assumes "world_ok w"
  shows "pcbs w (fresh w) = None" "files w (fresh w) = None" "sems w (fresh w) = None" "promises w (fresh w) = None" "0 < fresh w"
proof -
  have d: "dom (pcbs w) \<union> dom (files w) \<union> dom (sems w) \<union> dom (promises w) \<subseteq> {0 <..< fresh w}" using assms by (simp add: world_ok_def)
  have "fresh w \<notin> dom (pcbs w) \<union> dom (files w) \<union> dom (sems w) \<union> dom (promises w)" using subsetD [OF d, of "fresh w"] by auto
  then show "pcbs w (fresh w) = None" "files w (fresh w) = None" "sems w (fresh w) = None" "promises w (fresh w) = None" by (auto simp: domIff)
  show "0 < fresh w" using assms by (simp add: world_ok_def)
qed

lemma map_le_fresh: "m a = None \<Longrightarrow> m \<subseteq>\<^sub>m m(a \<mapsto> b)"
  by (auto simp: map_le_def domIff)

lemma world_ok_insert:
  assumes "world_ok w" "extends w w'" "fresh w' = Suc (fresh w)" "\<forall>h p. pcbs w' h = Some p \<longrightarrow> pcbs w h = Some p \<or> pcb_ok w' p"
    "dom (pcbs w') \<union> dom (files w') \<union> dom (sems w') \<union> dom (promises w') \<subseteq>
      insert (fresh w) (dom (pcbs w) \<union> dom (files w) \<union> dom (sems w) \<union> dom (promises w))"
  shows "world_ok w'"
proof -
  have "pcb_ok w' p" if "pcbs w' h = Some p" for h p
    using assms(1,4) that extends_pcb_ok [OF assms(2)] unfolding world_ok_def by blast
  moreover have "dom (pcbs w) \<subseteq> dom (pcbs w')" using assms(2) by (rule extends_dom)
  moreover have "me w' = me w" "spawned w' = spawned w" using assms(2) by (simp_all add: extends_def)
  moreover have "dom (pcbs w') \<union> dom (files w') \<union> dom (sems w') \<union> dom (promises w') \<subseteq> {0 <..< fresh w'}"
  proof -
    have "dom (pcbs w) \<union> dom (files w) \<union> dom (sems w) \<union> dom (promises w) \<subseteq> {0 <..< fresh w}" "0 < fresh w"
      using assms(1) by (simp_all add: world_ok_def)
    then have "insert (fresh w) (dom (pcbs w) \<union> dom (files w) \<union> dom (sems w) \<union> dom (promises w)) \<subseteq> {0 <..< fresh w'}"
      unfolding assms(3) by fastforce
    then show ?thesis using assms(5) by (rule subset_trans [rotated])
  qed
  moreover have "t_pcb (me w) \<in> dom (pcbs w)" "\<forall>t \<in> set (spawned w). t_pcb t \<in> dom (pcbs w)" using assms(1) by (simp_all add: world_ok_def)
  ultimately show ?thesis unfolding world_ok_def using assms(3) by (auto simp del: dom_fun_upd simp: subset_iff)
qed

lemma make_file_ok:
  assumes "world_ok w" "make_file f w = (h, w')"
  shows "world_ok w'" "extends w w'" "files w' = (files w)(h \<mapsto> f)" "h = fresh w" "h \<noteq> 0" "pcbs w' = pcbs w" "sems w' = sems w"
    "promises w' = promises w" "fresh w' = Suc (fresh w)"
proof -
  have e: "w' = (put_file (fresh w) f w)\<lparr>fresh := Suc (fresh w)\<rparr>" "h = fresh w" using assms(2) by (auto simp: make_file_def)
  show x: "extends w w'" using fresh_unused [OF assms(1)] by (simp add: e extends_def put_file_def map_le_fresh)
  show "world_ok w'" by (rule world_ok_insert [OF assms(1) x]) (auto simp: e put_file_def)
  show "files w' = (files w)(h \<mapsto> f)" "h = fresh w" "h \<noteq> 0" "pcbs w' = pcbs w" "sems w' = sems w" "promises w' = promises w" "fresh w' = Suc (fresh w)"
    using fresh_unused(5) [OF assms(1)] by (simp_all add: e put_file_def)
qed

lemma make_sem_ok:
  assumes "world_ok w" "make_sem n w = (h, w')"
  shows "world_ok w'" "extends w w'" "sems w' = (sems w)(h \<mapsto> ucast n)" "h = fresh w" "h \<noteq> 0" "pcbs w' = pcbs w" "files w' = files w"
    "promises w' = promises w" "fresh w' = Suc (fresh w)"
proof -
  have e: "w' = (put_sem (fresh w) (ucast n) w)\<lparr>fresh := Suc (fresh w)\<rparr>" "h = fresh w" using assms(2) by (auto simp: make_sem_def)
  show x: "extends w w'" using fresh_unused [OF assms(1)] by (simp add: e extends_def put_sem_def map_le_fresh)
  show "world_ok w'" by (rule world_ok_insert [OF assms(1) x]) (auto simp: e put_sem_def)
  show "sems w' = (sems w)(h \<mapsto> ucast n)" "h = fresh w" "h \<noteq> 0" "pcbs w' = pcbs w" "files w' = files w" "promises w' = promises w" "fresh w' = Suc (fresh w)"
    using fresh_unused(5) [OF assms(1)] by (simp_all add: e put_sem_def)
qed

lemma make_promise_ok:
  assumes "world_ok w" "make_promise w = (h, w')"
  shows "world_ok w'" "extends w w'" "promises w' = (promises w)(h \<mapsto> promise_new 0)" "h = fresh w" "h \<noteq> 0" "pcbs w' = pcbs w" "files w' = files w"
    "sems w' = sems w" "fresh w' = Suc (fresh w)"
proof -
  have e: "w' = (put_promise (fresh w) (promise_new 0) w)\<lparr>fresh := Suc (fresh w)\<rparr>" "h = fresh w" using assms(2) by (auto simp: make_promise_def)
  show x: "extends w w'" using fresh_unused [OF assms(1)] by (simp add: e extends_def put_promise_def map_le_fresh)
  show "world_ok w'" by (rule world_ok_insert [OF assms(1) x]) (auto simp: e put_promise_def)
  show "promises w' = (promises w)(h \<mapsto> promise_new 0)" "h = fresh w" "h \<noteq> 0" "pcbs w' = pcbs w" "files w' = files w" "sems w' = sems w" "fresh w' = Suc (fresh w)"
    using fresh_unused(5) [OF assms(1)] by (simp_all add: e put_promise_def)
qed

lemma make_pcb_ok:
  assumes "world_ok w" "make_pcb i w = (h, w')"
  shows "world_ok w'" "extends w w'" "h = Suc (Suc (Suc (fresh w)))" "\<exists>p. pcbs w' = (pcbs w)(h \<mapsto> p) \<and> pcb_id p = i \<and> pcb_ok w' p \<and>
      children p = replicate PCB_ARR_SIZE 0 \<and> children_promises p = replicate PCB_ARR_SIZE 0 \<and> parent_promise p = 0 \<and> cwd p = None"
    "h \<noteq> 0" "sems w' = sems w" "promises w' = promises w" "pcbs w h = None"
proof -
  obtain f0 w0 where m0: "make_file (open_file_new (Some Stdin)) w = (f0, w0)" by (cases "make_file (open_file_new (Some Stdin)) w")
  obtain f1 w1 where m1: "make_file (open_file_new (Some Stdout)) w0 = (f1, w1)" by (cases "make_file (open_file_new (Some Stdout)) w0")
  obtain f2 w2 where m2: "make_file (open_file_new (Some Stderr)) w1 = (f2, w2)" by (cases "make_file (open_file_new (Some Stderr)) w1")
  note a = make_file_ok [OF assms(1) m0] and b = make_file_ok [OF make_file_ok(1) [OF assms(1) m0] m1]
  note c = make_file_ok [OF b(1) m2]
  obtain p where p: "pcb_new i w = (p, w2)" "fdt p = [f0, f1, f2] @ replicate (PCB_ARR_SIZE - 3) 0" "children p = replicate PCB_ARR_SIZE 0"
      "sdt p = replicate PCB_ARR_SIZE 0" "children_promises p = replicate PCB_ARR_SIZE 0" "parent p = 0" "parent_promise p = 0" "pcb_id p = i" "cwd p = None"
    by (simp add: pcb_new_def m0 m1 m2)
  have e: "h = fresh w2" "w' = (put_pcb h p w2)\<lparr>fresh := Suc (fresh w2)\<rparr>" using assms(2) by (auto simp: make_pcb_def p(1))
  have n: "pcbs w2 h = None" "0 < h" using fresh_unused [OF c(1)] by (simp_all add: e(1))
  have x2: "extends w2 w'" using n by (simp add: e(2) extends_def put_pcb_def map_le_fresh)
  have ok: "pcb_ok w' p"
    using p a b c by (auto simp: pcb_ok_def handles_in_def e(2) put_pcb_def PCB_ARR_SIZE_def)
  show "world_ok w'" by (rule world_ok_insert [OF c(1) x2]) (use ok in \<open>auto simp: e put_pcb_def split: if_splits\<close>)
  show "extends w w'" using a(2) b(2) c(2) x2 extends_trans by blast
  show "h = Suc (Suc (Suc (fresh w)))" "h \<noteq> 0" "sems w' = sems w" "promises w' = promises w" "pcbs w h = None"
    using a b c n by (simp_all add: e put_pcb_def)
  show "\<exists>p. pcbs w' = (pcbs w)(h \<mapsto> p) \<and> pcb_id p = i \<and> pcb_ok w' p \<and>
      children p = replicate PCB_ARR_SIZE 0 \<and> children_promises p = replicate PCB_ARR_SIZE 0 \<and> parent_promise p = 0 \<and> cwd p = None"
    using p ok a b c by (intro exI [of _ p]) (simp add: e(2) put_pcb_def)
qed

section \<open>Which slot a child gets\<close>

lemma child_slot_loop: "child_slot k p i = (if children_at p PCB_ARR_SIZE = 0 then i + k else i)"
  by (induction k arbitrary: i) auto

lemma children_at_end: "length (children p) = PCB_ARR_SIZE \<Longrightarrow> children_at p PCB_ARR_SIZE = fdt p ! 0"
  by (simp add: children_at_def nth_append)

lemma assertR_size: "assertR (unat (of_nat PCB_ARR_SIZE :: u32) < PCB_ARR_SIZE) e = Inl (AssertFail e)" "0 < PCB_ARR_SIZE"
  by (simp_all add: PCB_ARR_SIZE_def)

text \<open>
  \<open>duplicate\<close> never looks at the slots: with a descriptor 0 the child always gets slot 0, without one the assertion fails.
\<close>

lemma pcb_duplicate_cases:
  assumes "world_ok w" "pcbs w h = Some p"
  shows "fdt p ! 0 = 0 \<Longrightarrow> pcb_duplicate h w = Inl (AssertFail ''child_pcb->pcb_id < PCB_ARR_SIZE'')"
    "fdt p ! 0 \<noteq> 0 \<Longrightarrow> \<exists>ch w' c. pcb_duplicate h w = Inr (ch, w') \<and> pcbs w ch = None \<and> ch \<noteq> 0 \<and>
      pcbs w' = (pcbs w)(h \<mapsto> p\<lparr>children := (children p)[0 := ch]\<rparr>, ch \<mapsto> c) \<and>
      pcb_id c = 0 \<and> cwd c = cwd p \<and> parent c = h \<and> fdt c = fdt p \<and> sdt c = sdt p \<and> parent_promise c = 0 \<and>
      children c = replicate PCB_ARR_SIZE 0 \<and> children_promises c = replicate PCB_ARR_SIZE 0 \<and>
      world_ok w' \<and> files w \<subseteq>\<^sub>m files w' \<and> sems w' = sems w \<and> promises w' = promises w \<and> me w' = me w \<and> spawned w' = spawned w \<and>
      shared_vme w' = shared_vme w \<and> common w' = common w \<and> dev w' = dev w \<and> console w' = console w"
proof -
  have p: "pcb_ok w p" using assms by (auto simp: world_ok_def)
  then have l: "length (children p) = PCB_ARR_SIZE" "length (fdt p) = PCB_ARR_SIZE" by (simp_all add: pcb_ok_def handles_in_def)
  let ?i = "child_slot PCB_ARR_SIZE p 0"
  obtain ch w1 where m: "make_pcb (of_nat ?i) w = (ch, w1)" by (cases "make_pcb (of_nat ?i) w")
  note k = make_pcb_ok [OF assms(1) m]
  obtain c where c: "pcbs w1 = (pcbs w)(ch \<mapsto> c)" "pcb_id c = of_nat ?i" "pcb_ok w1 c" "children c = replicate PCB_ARR_SIZE 0"
    "children_promises c = replicate PCB_ARR_SIZE 0" "parent_promise c = 0" "cwd c = None" using k(4) by blast
  have ne: "ch \<noteq> h" using k(8) assms(2) by auto
  have i: "?i = (if fdt p ! 0 = 0 then PCB_ARR_SIZE else 0)" by (simp add: child_slot_loop children_at_end l)
  {
    assume "fdt p ! 0 = 0"
    then show "pcb_duplicate h w = Inl (AssertFail ''child_pcb->pcb_id < PCB_ARR_SIZE'')"
      using m c ne i by (simp add: pcb_duplicate_def assms(2) put_pcb_def Let_def assertR_size)
  next
    assume z: "fdt p ! 0 \<noteq> 0"
    let ?p = "p\<lparr>children := (children p)[0 := ch]\<rparr>"
    let ?c = "c\<lparr>cwd := cwd p, parent := h, fdt := fdt p, sdt := sdt p\<rparr>"
    let ?w = "put_pcb ch ?c (put_pcb h ?p w1)"
    have d: "pcb_duplicate h w = Inr (ch, ?w)"
      using m c ne z i by (simp add: pcb_duplicate_def assms(2) put_pcb_def set_children_at_def Let_def assertR_size)
    have ok1: "pcb_ok w1 p" using extends_pcb_ok [OF k(2) p] .
    then have "pcb_ok w1 ?p" using handles_in_update [of "pcbs w1" "children p" ch 0] c(1) by (simp add: pcb_ok_def)
    then have w1: "world_ok (put_pcb h ?p w1)" using k(1) assms(2) c(1) by (intro world_ok_put_pcb) auto
    have "pcb_ok w1 ?c" using ok1 c(3) assms(2) c(1) by (auto simp: pcb_ok_def)
    then have "pcb_ok (put_pcb h ?p w1) ?c" by (rule pcb_ok_cong) (auto simp: put_pcb_def)
    then have "world_ok ?w" by (rule world_ok_put_pcb [OF w1]) (simp add: put_pcb_def c(1) ne)
    then show "\<exists>ch w' c. pcb_duplicate h w = Inr (ch, w') \<and> pcbs w ch = None \<and> ch \<noteq> 0 \<and>
      pcbs w' = (pcbs w)(h \<mapsto> p\<lparr>children := (children p)[0 := ch]\<rparr>, ch \<mapsto> c) \<and>
      pcb_id c = 0 \<and> cwd c = cwd p \<and> parent c = h \<and> fdt c = fdt p \<and> sdt c = sdt p \<and> parent_promise c = 0 \<and>
      children c = replicate PCB_ARR_SIZE 0 \<and> children_promises c = replicate PCB_ARR_SIZE 0 \<and>
      world_ok w' \<and> files w \<subseteq>\<^sub>m files w' \<and> sems w' = sems w \<and> promises w' = promises w \<and> me w' = me w \<and> spawned w' = spawned w \<and>
      shared_vme w' = shared_vme w \<and> common w' = common w \<and> dev w' = dev w \<and> console w' = console w"
      using d k c i z ne by (intro exI [of _ ch] exI [of _ ?w] exI [of _ ?c]) (auto simp: put_pcb_def extends_def)
  }
qed

end
