(* ===== verification/Vga.thy ===== *)
theory Vga
  imports Prelude
begin

text \<open>
  The graphics demonstration, \<open>kernel/vga.cc\<close> and \<open>kernel/vga.h\<close>: the mode registers, the pixels and the pictures of \<open>vga_test\<close>.

  The screen is the memory at \<open>VGA_ADDRESS\<close>, a function from 16-bit offsets, since \<open>vga_plot_pixel\<close> computes an \<open>unsigned short\<close>. Coordinates are
  \<open>int\<close>s of the program; the theorems are about coordinates on the screen, where nothing overflows. The accesses to
  the ports of the card are a log, and what a port returns is an argument of the definitions.
\<close>

section \<open>Pixels and pictures\<close>

type_synonym screen = "u16 \<Rightarrow> u8"

definition vga_plot_pixel :: "int \<Rightarrow> int \<Rightarrow> u16 \<Rightarrow> screen \<Rightarrow> screen" where
  "vga_plot_pixel x y color scr = (let offset = of_int (x + 320 * y) in scr(offset := ucast color))"

definition draw_rectangle :: "int \<Rightarrow> int \<Rightarrow> int \<Rightarrow> int \<Rightarrow> u16 \<Rightarrow> screen \<Rightarrow> screen" where
  "draw_rectangle x y width height color =
     fold (\<lambda>i. fold (\<lambda>j. vga_plot_pixel (x + int i) (y + int j) color) [0 ..< nat height]) [0 ..< nat width]"

definition COLOR_PURPLE :: u16 where "COLOR_PURPLE = 0xf"
definition COLOR_BLACK :: u16 where "COLOR_BLACK = 0"

definition happy_face :: "(int \<times> int) list" where
  "happy_face = [(0, 0), (10, 0), (0, 8), (1, 9), (2, 10), (3, 10), (4, 10), (5, 10), (6, 10), (7, 10), (8, 10), (9, 9), (10, 8)]"

definition draw_happy_face :: "int \<Rightarrow> int \<Rightarrow> screen \<Rightarrow> screen" where
  "draw_happy_face x y = fold (\<lambda>(dx, dy). vga_plot_pixel (x + dx) (y + dy) COLOR_PURPLE) happy_face"

definition vga_clear_screen :: "screen \<Rightarrow> screen" where
  "vga_clear_screen = fold (\<lambda>i. fold (\<lambda>j. vga_plot_pixel (int i) (int j) COLOR_BLACK) [0 ..< 200]) [0 ..< 320]"

definition image_at :: "u16 list \<Rightarrow> int \<Rightarrow> u16 res" where
  "image_at img i = (if 0 \<le> i \<and> nat i < length img then Inr (img ! nat i) else Inl (Undef ''image''))"

text \<open>A loop over \<open>[0 ..< n]\<close> whose body may fail.\<close>

fun foldR :: "(nat \<Rightarrow> 's \<Rightarrow> 's res) \<Rightarrow> nat list \<Rightarrow> 's \<Rightarrow> 's res" where
  "foldR f [] s = Inr s"
| "foldR f (i # is) s = bindR (f i s) (foldR f is)"

text \<open>\<open>off\<close> is the position of the pointer \<open>image\<close> in its array.\<close>

definition draw_image :: "u16 list \<Rightarrow> int \<Rightarrow> int \<Rightarrow> int \<Rightarrow> int \<Rightarrow> int \<Rightarrow> int \<Rightarrow> screen \<Rightarrow> screen res" where
  "draw_image img off x y width height scale =
     foldR (\<lambda>cur_height. foldR (\<lambda>cur_width scr.
       bindR (image_at img (off + width * int cur_height + int cur_width)) (\<lambda>color.
         Inr (draw_rectangle (x + int cur_width * scale) (y + int cur_height * scale) scale scale color scr)))
       [0 ..< nat width]) [0 ..< nat height]"

text \<open>The loop over the frames, with the screens it shows while it pauses.\<close>

fun animation_loop :: "nat list \<Rightarrow> u16 list \<Rightarrow> int \<Rightarrow> int \<Rightarrow> int \<Rightarrow> int \<Rightarrow> int \<Rightarrow> screen \<Rightarrow> (screen list \<times> screen) res" where
  "animation_loop [] img x y width height scale scr = Inr ([], scr)"
| "animation_loop (cur_frame # fs) img x y width height scale scr =
     bindR (draw_image img (int cur_frame * width * height) x y width height scale (vga_clear_screen scr)) (\<lambda>scr1.
     bindR (animation_loop fs img x y width height scale scr1) (\<lambda>(shown, scr2). Inr (scr1 # shown, scr2)))"

definition draw_animation :: "u16 list \<Rightarrow> int \<Rightarrow> int \<Rightarrow> int \<Rightarrow> int \<Rightarrow> int \<Rightarrow> int \<Rightarrow> screen \<Rightarrow> (screen list \<times> screen) res" where
  "draw_animation img x y width height scale num_frames = animation_loop [0 ..< nat num_frames] img x y width height scale"

section \<open>Mode registers\<close>

datatype port_op = PortOut u32 u32 | PortIn u32

definition VGA_AC_INDEX :: u32 where "VGA_AC_INDEX = 0x3C0"
definition VGA_AC_WRITE :: u32 where "VGA_AC_WRITE = 0x3C0"
definition VGA_INSTAT_READ :: u32 where "VGA_INSTAT_READ = 0x3DA"
definition VGA_MISC_WRITE :: u32 where "VGA_MISC_WRITE = 0x3C2"
definition VGA_CRTC_INDEX :: u32 where "VGA_CRTC_INDEX = 0x3D4"
definition VGA_CRTC_DATA :: u32 where "VGA_CRTC_DATA = 0x3D5"
definition VGA_GC_INDEX :: u32 where "VGA_GC_INDEX = 0x3CE"
definition VGA_GC_DATA :: u32 where "VGA_GC_DATA = 0x3CF"
definition VGA_SEQ_INDEX :: u32 where "VGA_SEQ_INDEX = 0x3C4"
definition VGA_SEQ_DATA :: u32 where "VGA_SEQ_DATA = 0x3C5"

definition VGA_NUM_AC_REGS :: nat where "VGA_NUM_AC_REGS = 21"
definition VGA_NUM_CRTC_REGS :: nat where "VGA_NUM_CRTC_REGS = 25"
definition VGA_NUM_GC_REGS :: nat where "VGA_NUM_GC_REGS = 9"
definition VGA_NUM_SEQ_REGS :: nat where "VGA_NUM_SEQ_REGS = 5"

text \<open>
  The ports: the accesses so far, and what the \<open>n\<close>-th access returns if it is a read.
\<close>

record ports =
  answer :: "nat \<Rightarrow> u8"
  accesses :: "port_op list"

definition vga_outb :: "u32 \<Rightarrow> u32 \<Rightarrow> ports \<Rightarrow> ports" where
  "vga_outb p v io = io\<lparr>accesses := accesses io @ [PortOut p (v AND 0xff)]\<rparr>"

definition vga_inb :: "u32 \<Rightarrow> ports \<Rightarrow> u32 \<times> ports" where
  "vga_inb p io = (ucast (answer io (length (accesses io))), io\<lparr>accesses := accesses io @ [PortIn p]\<rparr>)"

definition reg_at :: "u8 list \<Rightarrow> nat \<Rightarrow> u8 res" where
  "reg_at regs i = (if i < length regs then Inr (regs ! i) else Inl (Undef ''regs''))"

definition reg_set :: "u8 list \<Rightarrow> nat \<Rightarrow> u8 \<Rightarrow> u8 list res" where
  "reg_set regs i v = (if i < length regs then Inr (regs[i := v]) else Inl (Undef ''regs''))"

text \<open>The loops that write \<open>n\<close> registers from position \<open>p\<close>, through an index and a data port.\<close>

definition write_group :: "u32 \<Rightarrow> u32 \<Rightarrow> u8 list \<Rightarrow> nat \<Rightarrow> nat \<Rightarrow> ports \<Rightarrow> ports res" where
  "write_group index data regs p n =
     foldR (\<lambda>i io. bindR (reg_at regs (p + i)) (\<lambda>v. Inr (vga_outb data (ucast v) (vga_outb index (of_nat i) io)))) [0 ..< n]"

definition write_ac_group :: "u8 list \<Rightarrow> nat \<Rightarrow> nat \<Rightarrow> ports \<Rightarrow> ports res" where
  "write_ac_group regs p n =
     foldR (\<lambda>i io. bindR (reg_at regs (p + i)) (\<lambda>v.
       Inr (vga_outb VGA_AC_WRITE (ucast v) (vga_outb VGA_AC_INDEX (of_nat i) (snd (vga_inb VGA_INSTAT_READ io)))))) [0 ..< n]"

text \<open>The position \<open>p\<close> is that of the pointer \<open>regs\<close>, which the code advances. The table is changed on the way.\<close>

definition write_regs :: "u8 list \<Rightarrow> ports \<Rightarrow> (u8 list \<times> ports) res" where
  "write_regs regs io =
     bindR (reg_at regs 0) (\<lambda>misc.
     let io1 = vga_outb VGA_MISC_WRITE (ucast misc) io in
     bindR (write_group VGA_SEQ_INDEX VGA_SEQ_DATA regs 1 VGA_NUM_SEQ_REGS io1) (\<lambda>io2.
     let p = 1 + VGA_NUM_SEQ_REGS;
         (a, io3) = vga_inb VGA_CRTC_DATA (vga_outb VGA_CRTC_INDEX 0x03 io2);
         io4 = vga_outb VGA_CRTC_DATA (a OR 0x80) io3;
         (b, io5) = vga_inb VGA_CRTC_DATA (vga_outb VGA_CRTC_INDEX 0x11 io4);
         io6 = vga_outb VGA_CRTC_DATA (b AND NOT 0x80) io5 in
     bindR (reg_at regs (p + 0x03)) (\<lambda>r3.
     bindR (reg_set regs (p + 0x03) (r3 OR 0x80)) (\<lambda>regs1.
     bindR (reg_at regs1 (p + 0x11)) (\<lambda>r11.
     bindR (reg_set regs1 (p + 0x11) (r11 AND NOT 0x80)) (\<lambda>regs2.
     bindR (write_group VGA_CRTC_INDEX VGA_CRTC_DATA regs2 p VGA_NUM_CRTC_REGS io6) (\<lambda>io7.
     let q = p + VGA_NUM_CRTC_REGS in
     bindR (write_group VGA_GC_INDEX VGA_GC_DATA regs2 q VGA_NUM_GC_REGS io7) (\<lambda>io8.
     bindR (write_ac_group regs2 (q + VGA_NUM_GC_REGS) VGA_NUM_AC_REGS io8) (\<lambda>io9.
     let io10 = snd (vga_inb VGA_INSTAT_READ io9) in
       Inr (regs2, vga_outb VGA_AC_INDEX 0x20 io10))))))))))"

definition g_320x200x256 :: "u8 list" where
  "g_320x200x256 = [
    0x63,
    0x03, 0x01, 0x0f, 0x00, 0x0e,
    0x5f, 0x4f, 0x50, 0x82, 0x54, 0x80, 0xbf, 0x1f,
    0x00, 0x41, 0x00, 0x00, 0x00, 0x00, 0x00, 0x00,
    0x9c, 0x0e, 0x8f, 0x28, 0x40, 0x96, 0xb9, 0xa3,
    0xff,
    0x00, 0x00, 0x00, 0x00, 0x00, 0x40, 0x05, 0x0f,
    0xff,
    0x00, 0x01, 0x02, 0x03, 0x04, 0x05, 0x06, 0x07,
    0x08, 0x09, 0x0a, 0x0b, 0x0c, 0x0d, 0x0e, 0x0f,
    0x41, 0x00, 0x0f, 0x00, 0x00
  ]"

section \<open>The demonstration\<close>

abbreviation (input) bl :: u16 where "bl \<equiv> 0"
abbreviation (input) wh :: u16 where "wh \<equiv> 7"

definition frame_1 :: "u16 list" where
  "frame_1 = [
    bl, bl, bl, bl, bl, bl, bl, bl,
    bl, bl, bl, bl, bl, bl, bl, wh,
    bl, bl, bl, bl, bl, bl, bl, wh,
    bl, bl, bl, bl, bl, bl, bl, wh,
    bl, bl, bl, bl, bl, bl, bl, bl,
    bl, bl, bl, bl, bl, bl, bl, wh,
    bl, bl, bl, bl, bl, bl, bl, bl,
    bl, bl, bl, bl, bl, bl, bl, bl,
    bl, bl, bl, bl, bl, bl, bl, bl,
    bl, bl, bl, bl, bl, bl, bl, bl,
    bl, bl, bl, bl, bl, wh, wh, wh,
    bl, bl, bl, bl, bl, wh, wh, wh,
    bl, bl, bl, bl, bl, wh, wh, wh,
    bl, bl, bl, bl, bl, bl, wh, wh,
    bl, bl, bl, bl, bl, bl, wh, wh,
    bl, bl, bl, bl, bl, wh, wh, wh,
    bl, bl, bl, bl, bl, wh, wh, wh,
    bl, bl, bl, bl, bl, bl, wh, wh,
    bl, bl, bl, bl, bl, bl, bl, wh,
    bl, bl, bl, bl, bl, bl, bl, wh,
    bl, bl, bl, bl, bl, bl, wh, wh,
    bl, bl, bl, bl, bl, bl, wh, wh,
    bl, bl, bl, bl, bl, bl, bl, wh,
    bl, bl, bl, bl, bl, bl, bl, wh,
    bl, bl, bl, bl, bl, bl, bl, bl,
    wh, bl, bl, bl, bl, bl, wh, wh,
    bl, bl, bl, bl, bl, bl, wh, wh,
    bl, bl, bl, bl, bl, bl, bl, wh,
    bl, bl, bl, bl, bl, bl, bl, wh,
    bl, bl, bl, bl, bl, bl, bl, bl,
    wh, bl, bl, bl, bl, bl, wh, wh,
    wh, bl, bl, bl, bl, bl, wh, wh,
    wh, bl, bl, bl, bl, bl, bl, wh,
    wh, bl, bl, bl, bl, bl, bl, wh,
    bl, bl, bl, bl, bl, bl, bl, bl,
    wh, wh, bl, bl, bl, bl, bl, wh,
    wh, wh, bl, bl, bl, bl, wh, wh,
    wh, wh, bl, bl, bl, bl, bl, wh,
    wh, bl, bl, bl, bl, bl, bl, wh,
    wh, bl, bl, bl, bl, bl, bl, bl,
    wh, wh, bl, bl, bl, bl, bl, wh,
    wh, wh, wh, bl, bl, bl, bl, wh,
    wh, wh, bl, bl, bl, bl, bl, wh,
    wh, wh, bl, bl, bl, bl, bl, bl,
    wh, bl, bl, bl, bl, bl, bl, bl,
    wh, wh, wh, bl, bl, bl, bl, wh,
    wh, wh, wh, bl, bl, bl, bl, wh,
    wh, wh, wh, bl, bl, bl, bl, wh,
    wh, wh, bl, bl, bl, bl, bl, bl,
    wh, wh, bl, bl, bl, bl, bl, bl,
    wh, wh, wh, bl, bl, bl, bl, wh,
    wh, wh, wh, bl, bl, bl, wh, wh,
    wh, wh, wh, bl, bl, bl, bl, wh,
    wh, wh, wh, bl, bl, bl, bl, bl,
    wh, wh, bl, bl, bl, bl, bl, bl,
    wh, wh, wh, bl, bl, bl, bl, wh,
    wh, wh, wh, bl, bl, bl, wh, wh,
    wh, wh, wh, bl, bl, bl, bl, wh,
    wh, wh, wh, bl, bl, bl, bl, wh,
    wh, wh, bl, bl, bl, bl, bl, wh,
    wh, wh, wh, bl, bl, bl, wh, wh,
    wh, wh, wh, bl, bl, bl, wh, wh,
    wh, wh, wh, bl, bl, bl, wh, wh,
    wh, wh, bl, bl, bl, bl, bl, wh,
    wh, wh, bl, bl, bl, bl, bl, wh,
    wh, wh, wh, bl, bl, bl, wh, wh,
    wh, wh, wh, bl, bl, bl, wh, wh,
    wh, wh, wh, bl, bl, bl, wh, wh,
    wh, wh, bl, bl, bl, bl, wh, wh,
    wh, wh, bl, bl, bl, bl, bl, wh,
    wh, wh, wh, bl, bl, bl, wh, wh,
    wh, wh, wh, bl, bl, wh, wh, wh,
    wh, wh, bl, bl, bl, bl, wh, wh,
    wh, wh, bl, bl, bl, bl, wh, wh,
    wh, wh, bl, bl, bl, bl, wh, wh,
    wh, wh, wh, bl, bl, bl, wh, wh,
    wh, wh, wh, bl, bl, wh, wh, wh,
    wh, wh, bl, bl, bl, wh, wh, wh,
    wh, wh, bl, bl, bl, bl, wh, wh,
    wh, bl, bl, bl, bl, bl, wh, wh,
    wh, wh, bl, bl, bl, wh, wh, wh,
    wh, wh, wh, bl, bl, wh, wh, wh,
    wh, wh, bl, bl, bl, wh, wh, wh,
    wh, wh, bl, bl, bl, bl, wh, wh,
    wh, bl, bl, bl, bl, bl, wh, wh,
    wh, wh, bl, bl, bl, wh, wh, wh,
    wh, wh, wh, bl, bl, wh, wh, wh,
    wh, wh, bl, bl, bl, wh, wh, wh,
    wh, wh, bl, bl, bl, wh, wh, wh,
    wh, bl, bl, bl, bl, bl, wh, wh,
    wh, wh, bl, bl, bl, wh, wh, wh,
    wh, wh, wh, bl, bl, wh, wh, wh,
    wh, wh, bl, bl, bl, wh, wh, wh,
    wh, wh, bl, bl, bl, wh, wh, wh,
    wh, bl, bl, bl, bl, wh, wh, wh,
    wh, wh, bl, bl, bl, wh, wh, wh,
    wh, wh, bl, bl, wh, wh, wh, wh,
    wh, wh, bl, bl, bl, wh, wh, wh,
    wh, wh, bl, bl, bl, wh, wh, wh,
    wh, bl, bl, bl, bl, wh, wh, wh,
    wh, wh, bl, bl, bl, wh, wh, wh,
    wh, wh, bl, bl, wh, wh, wh, wh,
    wh, wh, bl, bl, bl, wh, wh, wh,
    wh, wh, bl, bl, bl, wh, wh, wh,
    wh, wh, bl, bl, bl, wh, wh, wh,
    wh, wh, wh, bl, bl, wh, wh, wh,
    wh, wh, wh, bl, wh, wh, wh, wh,
    wh, wh, bl, bl, bl, wh, wh, wh,
    wh, wh, bl, bl, bl, wh, wh, wh,
    wh, wh, bl, bl, bl, bl, wh, wh,
    wh, wh, wh, bl, bl, wh, wh, wh,
    wh, wh, wh, bl, bl, wh, wh, wh,
    wh, wh, wh, bl, bl, wh, wh, wh,
    wh, wh, bl, bl, bl, wh, wh, wh,
    wh, wh, bl, bl, bl, bl, wh, wh,
    wh, wh, wh, bl, bl, wh, wh, wh,
    wh, wh, wh, bl, bl, wh, wh, wh,
    wh, wh, wh, bl, bl, wh, wh, wh,
    wh, wh, bl, bl, bl, bl, wh, wh,
    wh, wh, bl, bl, bl, bl, wh, wh,
    wh, wh, wh, bl, bl, wh, wh, wh,
    wh, wh, wh, bl, bl, wh, wh, wh,
    wh, wh, wh, bl, bl, wh, wh, wh,
    wh, wh, wh, bl, bl, bl, wh, wh,
    wh, wh, wh, bl, bl, bl, wh, wh,
    wh, wh, wh, bl, bl, wh, wh, wh,
    wh, wh, wh, bl, bl, wh, wh, wh,
    wh, wh, wh, bl, bl, wh, wh, wh,
    wh, wh, wh, bl, bl, bl, wh, wh,
    wh, wh, wh, bl, bl, bl, wh, wh,
    wh, wh, wh, bl, bl, wh, wh, wh,
    wh, wh, wh, bl, bl, wh, wh, wh,
    wh, wh, wh, bl, bl, wh, wh, wh,
    wh, wh, wh, bl, bl, bl, wh, wh,
    wh, wh, wh, bl, bl, bl, wh, wh,
    wh, wh, wh, bl, bl, wh, wh, wh,
    wh, wh, wh, wh, bl, wh, wh, wh,
    wh, wh, wh, bl, bl, wh, wh, wh,
    wh, wh, wh, bl, bl, bl, wh, wh,
    wh, wh, wh, bl, bl, bl, wh, wh,
    wh, wh, wh, bl, bl, wh, wh, wh,
    wh, wh, wh, wh, bl, wh, wh, wh,
    wh, wh, wh, bl, bl, wh, wh, wh,
    wh, wh, wh, bl, bl, bl, wh, wh,
    wh, wh, wh, bl, bl, bl, wh, wh,
    wh, wh, wh, bl, bl, wh, wh, wh,
    wh, wh, wh, wh, bl, wh, wh, wh,
    wh, wh, wh, bl, bl, wh, wh, wh,
    wh, wh, wh, bl, bl, bl, wh, wh,
    wh, wh, wh, bl, bl, bl, wh, wh
  ]"

text \<open>\<open>vga_test\<close> ends in an endless loop: the result is what it has shown until then.\<close>

definition vga_test :: "ports \<Rightarrow> screen \<Rightarrow> (ports \<times> screen list \<times> screen) res" where
  "vga_test io scr =
     bindR (write_regs g_320x200x256 io) (\<lambda>(regs, io1).
     bindR (draw_animation frame_1 0 0 8 5 40 30 (vga_clear_screen scr)) (\<lambda>(shown, scr1). Inr (io1, shown, scr1)))"

section \<open>Pixels on the screen\<close>

definition scr_at :: "screen \<Rightarrow> int \<Rightarrow> int \<Rightarrow> u8" where
  "scr_at scr x y = scr (of_int (x + 320 * y))"

definition on_screen :: "int \<Rightarrow> int \<Rightarrow> bool" where
  "on_screen x y \<longleftrightarrow> 0 \<le> x \<and> x < 320 \<and> 0 \<le> y \<and> y < 200"

text \<open>A box with its corner at \<open>x\<close>, \<open>y\<close>.\<close>

definition in_box :: "int \<Rightarrow> int \<Rightarrow> int \<Rightarrow> int \<Rightarrow> int \<Rightarrow> int \<Rightarrow> bool" where
  "in_box x y width height px py \<longleftrightarrow> x \<le> px \<and> px < x + width \<and> y \<le> py \<and> py < y + height"

lemma offset_inj:
  assumes "on_screen x y" "on_screen x' y'"
  shows "(of_int (x + 320 * y) :: u16) = of_int (x' + 320 * y') \<longleftrightarrow> x = x' \<and> y = y'"
proof -
  have u: "uint (of_int (a + 320 * b) :: u16) = a + 320 * b" if "on_screen a b" for a b
    unfolding uint_word_of_int using that by (simp add: on_screen_def)
  have r: "(a + 320 * b) mod 320 = a" if "on_screen a b" for a b using that by (simp add: on_screen_def)
  have "x = x'" if "x + 320 * y = x' + 320 * y'" using r [OF assms(1)] r [OF assms(2)] unfolding that by simp
  then have "x + 320 * y = x' + 320 * y' \<longleftrightarrow> x = x' \<and> y = y'" by auto
  then show ?thesis using u [OF assms(1)] u [OF assms(2)] by metis
qed

lemma scr_at_plot:
  "on_screen x y \<Longrightarrow> on_screen px py \<Longrightarrow> scr_at (vga_plot_pixel x y c scr) px py = (if px = x \<and> py = y then ucast c else scr_at scr px py)"
  using offset_inj [of px py x y] by (simp add: scr_at_def vga_plot_pixel_def Let_def)

lemma scr_at_column:
  assumes "0 \<le> x" "x < 320" "0 \<le> y" "y + int m \<le> 200" "on_screen px py"
  shows "scr_at (fold (\<lambda>j. vga_plot_pixel x (y + int j) c) [0 ..< m] scr) px py =
    (if px = x \<and> y \<le> py \<and> py < y + int m then ucast c else scr_at scr px py)"
  using assms(4)
proof (induction m)
  case (Suc m)
  have "on_screen x (y + int m)" using assms Suc.prems by (simp add: on_screen_def)
  then show ?case using Suc assms(5) by (auto simp: scr_at_plot)
qed auto

lemma scr_at_rectangle:
  assumes "0 \<le> x" "0 \<le> width" "x + width \<le> 320" "0 \<le> y" "0 \<le> height" "y + height \<le> 200" "on_screen px py"
  shows "scr_at (draw_rectangle x y width height c scr) px py = (if in_box x y width height px py then ucast c else scr_at scr px py)"
proof -
  have "scr_at (fold (\<lambda>i. fold (\<lambda>j. vga_plot_pixel (x + int i) (y + int j) c) [0 ..< nat height]) [0 ..< n] scr) px py =
      (if in_box x y (int n) height px py then ucast c else scr_at scr px py)" if "int n \<le> width" for n
    using that
  proof (induction n)
    case (Suc n)
    have "x + int n < 320" "y + int (nat height) \<le> 200" using assms Suc.prems by simp_all
    then show ?case using Suc assms by (auto simp: in_box_def scr_at_column)
  qed (auto simp: in_box_def)
  from this [of "nat width"] assms(2) show ?thesis by (simp add: draw_rectangle_def)
qed

lemma clear_screen_rectangle: "vga_clear_screen = draw_rectangle 0 0 320 200 COLOR_BLACK"
  by (simp add: vga_clear_screen_def draw_rectangle_def)

lemma foldR_append: "foldR f (is @ js) s = bindR (foldR f is s) (foldR f js)"
  by (induction "is" arbitrary: s) (simp_all add: bindR_assoc cong: bindR_cong)

section \<open>Pictures\<close>

text \<open>The reference: what a picture shows at a pixel, and what lies under it outside the picture.\<close>

definition picture :: "u16 list \<Rightarrow> int \<Rightarrow> int \<Rightarrow> int \<Rightarrow> int \<Rightarrow> int \<Rightarrow> int \<Rightarrow> screen \<Rightarrow> int \<Rightarrow> int \<Rightarrow> u8" where
  "picture img off x y width height scale scr px py =
     (if in_box x y (width * scale) (height * scale) px py
      then ucast (img ! nat (off + width * ((py - y) div scale) + (px - x) div scale)) else scr_at scr px py)"

lemma div_in_step: "0 < s \<Longrightarrow> k * s \<le> d \<Longrightarrow> d < k * s + s \<Longrightarrow> d div s = (k :: int)"
  by (rule int_div_pos_eq [where r = "d - k * s"]) (simp_all add: mult.commute)

lemma in_box_grow:
  "0 \<le> s \<Longrightarrow> in_box (x + int k * s) y s h px py \<Longrightarrow> in_box x y (int (Suc k) * s) h px py"
  "0 \<le> s \<Longrightarrow> in_box x (y + int k * s) w s px py \<Longrightarrow> in_box x y w (int (Suc k) * s) px py"
proof -
  assume "0 \<le> s"
  then have m: "0 \<le> int k * s" "int (Suc k) * s = int k * s + s" by (simp_all add: algebra_simps)
  show "in_box (x + int k * s) y s h px py \<Longrightarrow> in_box x y (int (Suc k) * s) h px py"
    using m(1) unfolding in_box_def m(2) by linarith
  show "in_box x (y + int k * s) w s px py \<Longrightarrow> in_box x y w (int (Suc k) * s) px py"
    using m(1) unfolding in_box_def m(2) by linarith
qed

lemma image_at_ok: "0 \<le> i \<Longrightarrow> i < int (length img) \<Longrightarrow> image_at img i = Inr (img ! nat i)"
  by (simp add: image_at_def nat_less_iff)

lemma picture_row:
  assumes "0 \<le> x" "0 < scale" "0 \<le> y" "0 \<le> off" "off + int w + int k \<le> int (length img)" "x + int k * scale \<le> 320" "y + scale \<le> 200"
  shows "\<exists>scr1. foldR (\<lambda>cur_width scr. bindR (image_at img (off + int w + int cur_width)) (\<lambda>color.
        Inr (draw_rectangle (x + int cur_width * scale) y scale scale color scr))) [0 ..< k] scr = Inr scr1 \<and>
      (\<forall>px py. on_screen px py \<longrightarrow> scr_at scr1 px py =
        (if in_box x y (int k * scale) scale px py then ucast (img ! nat (off + int w + (px - x) div scale)) else scr_at scr px py))"
  using assms(5,6)
proof (induction k)
  case 0
  then show ?case by (auto simp: in_box_def)
next
  case (Suc k)
  have p: "x + int k * scale + scale \<le> 320" using Suc.prems(2) by (simp add: algebra_simps)
  then obtain scr1 where s: "foldR (\<lambda>cur_width scr. bindR (image_at img (off + int w + int cur_width)) (\<lambda>color.
        Inr (draw_rectangle (x + int cur_width * scale) y scale scale color scr))) [0 ..< k] scr = Inr scr1"
    and v: "\<And>px py. on_screen px py \<Longrightarrow> scr_at scr1 px py =
        (if in_box x y (int k * scale) scale px py then ucast (img ! nat (off + int w + (px - x) div scale)) else scr_at scr px py)"
    using Suc.IH Suc.prems(1) assms(2) by force
  have g: "image_at img (off + int w + int k) = Inr (img ! nat (off + int w + int k))"
    using Suc.prems(1) assms(4) by (intro image_at_ok) simp_all
  let ?s = "draw_rectangle (x + int k * scale) y scale scale (img ! nat (off + int w + int k)) scr1"
  have "scr_at ?s px py = (if in_box x y (int (Suc k) * scale) scale px py then ucast (img ! nat (off + int w + (px - x) div scale)) else scr_at scr px py)"
    if o: "on_screen px py" for px py
  proof (cases "in_box (x + int k * scale) y scale scale px py")
    case True
    have "(px - x) div scale = int k" using True assms(2) by (intro div_in_step) (auto simp: in_box_def)
    moreover have "in_box x y (int (Suc k) * scale) scale px py"
      using True assms(2) by (intro in_box_grow) simp_all
    moreover have "0 \<le> int k * scale" using assms(2) by simp
    ultimately show ?thesis using True scr_at_rectangle [of "x + int k * scale" scale y scale px py] assms p o by simp
  next
    case False
    then have "in_box x y (int (Suc k) * scale) scale px py \<longleftrightarrow> in_box x y (int k * scale) scale px py"
      using assms(2) by (auto simp: in_box_def algebra_simps)
    moreover have "0 \<le> int k * scale" using assms(2) by simp
    ultimately show ?thesis using False scr_at_rectangle [of "x + int k * scale" scale y scale px py] assms p o v [OF o] by simp
  qed
  then show ?case using s g by (simp add: foldR_append)
qed

lemma draw_image_ok:
  assumes "0 \<le> x" "0 < scale" "0 \<le> y" "0 \<le> off" "0 \<le> width" "0 \<le> height"
    and "off + width * height \<le> int (length img)" "x + width * scale \<le> 320" "y + height * scale \<le> 200"
  shows "\<exists>scr1. draw_image img off x y width height scale scr = Inr scr1 \<and>
    (\<forall>px py. on_screen px py \<longrightarrow> scr_at scr1 px py = picture img off x y width height scale scr px py)"
proof -
  let ?row = "\<lambda>cur_height. foldR (\<lambda>cur_width scr.
       bindR (image_at img (off + width * int cur_height + int cur_width)) (\<lambda>color.
         Inr (draw_rectangle (x + int cur_width * scale) (y + int cur_height * scale) scale scale color scr))) [0 ..< nat width]"
  have "\<exists>scr1. foldR ?row [0 ..< m] scr = Inr scr1 \<and>
    (\<forall>px py. on_screen px py \<longrightarrow> scr_at scr1 px py = picture img off x y width (int m) scale scr px py)" if "int m \<le> height" for m
    using that
  proof (induction m)
    case 0
    then show ?case by (auto simp: picture_def in_box_def)
  next
    case (Suc m)
    obtain scr1 where s: "foldR ?row [0 ..< m] scr = Inr scr1"
      and v: "\<And>px py. on_screen px py \<Longrightarrow> scr_at scr1 px py = picture img off x y width (int m) scale scr px py" using Suc by force
    have m0: "0 \<le> int m * scale" using assms(2) by simp
    have "int (Suc m) * scale \<le> height * scale" using Suc.prems assms(2) by (intro mult_right_mono) simp_all
    then have ys: "y + int m * scale + scale \<le> 200" using assms(9) by (simp add: algebra_simps)
    have "width * int (Suc m) \<le> width * height" using Suc.prems assms(5) by (intro mult_left_mono) simp_all
    then have ws: "off + width * int m + width \<le> int (length img)" using assms(7) by (simp add: algebra_simps)
    have w0: "0 \<le> width * int m" using assms(5) by simp
    obtain scr2 where s2: "?row m scr1 = Inr scr2"
      and v2: "\<And>px py. on_screen px py \<Longrightarrow> scr_at scr2 px py =
        (if in_box x (y + int m * scale) (width * scale) scale px py then ucast (img ! nat (off + width * int m + (px - x) div scale)) else scr_at scr1 px py)"
      using picture_row [of x scale "y + int m * scale" off "nat (width * int m)" "nat width" img scr1] assms ys ws w0 m0 by auto
    have "scr_at scr2 px py = picture img off x y width (int (Suc m)) scale scr px py" if o: "on_screen px py" for px py
    proof (cases "in_box x (y + int m * scale) (width * scale) scale px py")
      case True
      have "(py - y) div scale = int m" using True assms(2) by (intro div_in_step) (auto simp: in_box_def)
      moreover have "in_box x y (width * scale) (int (Suc m) * scale) px py" using True assms(2) by (intro in_box_grow) simp_all
      ultimately show ?thesis using True v2 [OF o] by (simp add: picture_def)
    next
      case False
      then have "in_box x y (width * scale) (int (Suc m) * scale) px py \<longleftrightarrow> in_box x y (width * scale) (int m * scale) px py"
        using assms(2) by (auto simp: in_box_def algebra_simps)
      then show ?thesis using False v2 [OF o] v [OF o] by (simp add: picture_def)
    qed
    then show ?case using s s2 by (simp add: foldR_append)
  qed
  from this [of "nat height"] assms(6) show ?thesis by (simp add: draw_image_def)
qed

lemma scr_at_clear: "on_screen px py \<Longrightarrow> scr_at (vga_clear_screen scr) px py = 0"
  using scr_at_rectangle [of 0 320 0 200 px py COLOR_BLACK scr] by (simp add: clear_screen_rectangle in_box_def on_screen_def COLOR_BLACK_def)

section \<open>Properties\<close>

text \<open>
  (draw_image_correct) Drawing a picture with loops over its cells and over the pixels of every cell is the same as computing each pixel from the cell
  it lies in: inside the scaled picture a pixel shows its cell, outside it is unchanged. It takes a picture that lies inside its array and
  on the screen.
\<close>

theorem draw_image_correct:
  assumes "0 \<le> x" "0 < scale" "0 \<le> y" "0 \<le> off" "0 \<le> width" "0 \<le> height"
    and "off + width * height \<le> int (length img)" "x + width * scale \<le> 320" "y + height * scale \<le> 200"
  shows "\<exists>scr1. draw_image img off x y width height scale scr = Inr scr1 \<and>
    (\<forall>px py. on_screen px py \<longrightarrow> scr_at scr1 px py = picture img off x y width height scale scr px py)"
  using assms by (rule draw_image_ok)

theorem draw_image_correct_witness:
  "\<exists>scr1. draw_image [1, 2] 0 10 10 2 1 20 (\<lambda>_. 9) = Inr scr1 \<and> scr_at scr1 10 10 = 1 \<and> scr_at scr1 49 29 = 2 \<and> scr_at scr1 50 10 = 9"
proof -
  obtain scr1 where s: "draw_image [1, 2] 0 10 10 2 1 20 (\<lambda>_. 9) = Inr scr1"
    and v: "\<forall>px py. on_screen px py \<longrightarrow> scr_at scr1 px py = picture [1, 2] 0 10 10 2 1 20 (\<lambda>_. 9) px py"
    using draw_image_correct [of 10 20 10 0 2 1 "[1, 2]" "\<lambda>_. 9"] by auto
  show ?thesis using s v [rule_format, of 10 10] v [rule_format, of 49 29] v [rule_format, of 50 10]
    by (simp add: on_screen_def picture_def in_box_def scr_at_def)
qed

lemma animation_loop_ok:
  assumes "0 \<le> x" "0 < scale" "0 \<le> y" "0 \<le> width" "0 \<le> height" "x + width * scale \<le> 320" "y + height * scale \<le> 200"
    and "\<forall>k \<in> set ks. (int k + 1) * width * height \<le> int (length img)"
  shows "\<exists>shown scr1. animation_loop ks img x y width height scale scr = Inr (shown, scr1) \<and> length shown = length ks \<and>
    (\<forall>i px py. i < length ks \<longrightarrow> on_screen px py \<longrightarrow>
      scr_at (shown ! i) px py = picture img (int (ks ! i) * width * height) x y width height scale (\<lambda>_. 0) px py)"
  using assms(8)
proof (induction ks arbitrary: scr)
  case (Cons k ks)
  have "int k * width * height + width * height \<le> int (length img)" using Cons.prems by (simp add: algebra_simps)
  moreover have "0 \<le> int k * width * height" using assms by simp
  ultimately obtain scr1 where s: "draw_image img (int k * width * height) x y width height scale (vga_clear_screen scr) = Inr scr1"
    "\<And>px py. on_screen px py \<Longrightarrow> scr_at scr1 px py = picture img (int k * width * height) x y width height scale (vga_clear_screen scr) px py"
    using draw_image_ok [of x scale y "int k * width * height" width height img "vga_clear_screen scr"] assms by blast
  have p: "picture img off x y width height scale (vga_clear_screen scr) px py = picture img off x y width height scale (\<lambda>_. 0) px py"
    if "on_screen px py" for off px py using scr_at_clear [OF that] by (simp add: picture_def scr_at_def)
  obtain shown scr2 where r: "animation_loop ks img x y width height scale scr1 = Inr (shown, scr2)" "length shown = length ks"
    "\<And>i px py. i < length ks \<Longrightarrow> on_screen px py \<Longrightarrow>
      scr_at (shown ! i) px py = picture img (int (ks ! i) * width * height) x y width height scale (\<lambda>_. 0) px py"
    using Cons.IH [of scr1] Cons.prems by auto
  show ?case using s r p by (auto simp: nth_Cons split: nat.split)
qed simp

lemma length_frame_1: "length frame_1 = 1200"
  by (simp add: frame_1_def)

lemma write_group_ok:
  "p + n \<le> length regs \<Longrightarrow> write_group index data regs p n io =
    Inr (io\<lparr>accesses := accesses io @ concat (map (\<lambda>i. [PortOut index (of_nat i AND 0xff), PortOut data (ucast (regs ! (p + i)) AND 0xff)]) [0 ..< n])\<rparr>)"
proof (induction n)
  case (Suc n)
  then show ?case by (simp add: write_group_def foldR_append reg_at_def vga_outb_def)
qed (simp add: write_group_def)

lemma write_ac_group_ok:
  "p + n \<le> length regs \<Longrightarrow> write_ac_group regs p n io =
    Inr (io\<lparr>accesses := accesses io @ concat (map (\<lambda>i. [PortIn VGA_INSTAT_READ, PortOut VGA_AC_INDEX (of_nat i AND 0xff),
      PortOut VGA_AC_WRITE (ucast (regs ! (p + i)) AND 0xff)]) [0 ..< n])\<rparr>)"
proof (induction n)
  case (Suc n)
  then show ?case by (simp add: write_ac_group_def foldR_append reg_at_def vga_outb_def vga_inb_def)
qed (simp add: write_ac_group_def)

lemma length_table: "length g_320x200x256 = 61"
  by (simp add: g_320x200x256_def)

lemma write_regs_returns: "length regs = 61 \<Longrightarrow> \<exists>regs' io'. write_regs regs io = Inr (regs', io')"
  by (simp add: write_regs_def reg_at_def reg_set_def write_group_ok write_ac_group_ok Let_def VGA_NUM_SEQ_REGS_def VGA_NUM_CRTC_REGS_def
      VGA_NUM_GC_REGS_def VGA_NUM_AC_REGS_def vga_inb_def)

text \<open>
  (vga_test_shows) The demonstration accesses no cell outside its array and shows 30 screens; in the \<open>k\<close>-th, the pixel at \<open>x\<close>, \<open>y\<close> is the cell in
  column \<open>x div 40\<close> and row \<open>y div 40\<close> of the \<open>k\<close>-th frame.
\<close>

theorem vga_test_shows:
  "\<exists>io1 shown scr1. vga_test io scr = Inr (io1, shown, scr1) \<and> length shown = 30 \<and>
    (\<forall>k x y. k < 30 \<longrightarrow> on_screen x y \<longrightarrow>
      scr_at (shown ! k) x y = ucast (frame_1 ! (40 * k + 8 * nat (y div 40) + nat (x div 40))))"
proof -
  obtain regs io1 where w: "write_regs g_320x200x256 io = Inr (regs, io1)" using write_regs_returns [OF length_table] by blast
  have "\<forall>k \<in> set [0 ..< 30]. (int k + 1) * 8 * 5 \<le> int (length frame_1)" by (simp add: length_frame_1)
  then obtain shown scr1 where a: "animation_loop [0 ..< 30] frame_1 0 0 8 5 40 (vga_clear_screen scr) = Inr (shown, scr1)" "length shown = 30"
    "\<And>k x y. k < 30 \<Longrightarrow> on_screen x y \<Longrightarrow> scr_at (shown ! k) x y = picture frame_1 (int k * 8 * 5) 0 0 8 5 40 (\<lambda>_. 0) x y"
    using animation_loop_ok [of 0 40 0 8 5 "[0 ..< 30]" frame_1 "vga_clear_screen scr"] by auto
  have "picture frame_1 (int k * 8 * 5) 0 0 8 5 40 (\<lambda>_. 0) x y = ucast (frame_1 ! (40 * k + 8 * nat (y div 40) + nat (x div 40)))"
    if o: "on_screen x y" for k x y
  proof -
    have "0 \<le> y div 40" "0 \<le> x div 40" using o by (simp_all add: on_screen_def pos_imp_zdiv_nonneg_iff)
    then have "nat (int k * 8 * 5 + 8 * (y div 40) + x div 40) = 40 * k + 8 * nat (y div 40) + nat (x div 40)"
      by (simp add: nat_eq_iff)
    then show ?thesis using o by (simp add: picture_def in_box_def on_screen_def)
  qed
  then show ?thesis using w a by (auto simp: vga_test_def draw_animation_def)
qed

end
