(* ===== verification/Syscall.thy ===== *)
theory Syscall
  imports Process Vga
begin

text \<open>
  System calls, \<open>kernel/sys.cc\<close>: what each call does for the running thread, and the dispatcher.

  A call gives an outcome and the new state. \<open>Blocked\<close>: the thread waits for a unit of a semaphore, and the call goes on as if made later, when there is one;
  \<open>Stopped\<close>: the thread has ended; \<open>ToUser\<close>: it continues in another program at an entry point with a stack; \<open>Halted\<close>: the machine has been
  shut down; \<open>Showing\<close>: the endless graphics demonstration. The environment holds the mounted file system, its device,
  the bound for loops over user strings and directories, the bytes on the stack that \<open>find\<close> parses, the addresses of nodes, and the graphics card.

  Memory that a call allocates is always there: exhaustion of frames is the subject of \<open>PhysMem\<close> and \<open>VMM\<close>. The pages of a mapped file are
  read by the page fault handler (\<open>VMM\<close>), so \<open>naive_mmap\<close> only enters the area.
\<close>

section \<open>Outcomes and environment\<close>

datatype outcome = Ret u32 | Blocked | Stopped | Halted | ToUser u32 u32 | Showing "screen list"

record 's env =
  e_fs :: ext2
  e_io :: "'s blockio"
  e_bound :: nat
  e_junk :: "nat \<Rightarrow> u8"
  e_address :: "fnode \<Rightarrow> u32"
  e_ports :: ports
  e_screen :: screen

type_synonym 's call = "'s world \<Rightarrow> (outcome \<times> 's world) res"

definition address_valid :: "u32 \<Rightarrow> u32 \<Rightarrow> bool" where
  "address_valid addr sz \<longleftrightarrow> addr \<ge> 0x80000000 \<and> addr + sz \<le> 0xFFFFFFFF"

definition user_string :: "'s env \<Rightarrow> memory \<Rightarrow> u32 \<Rightarrow> string res" where
  "user_string env m p = bindR (mem_string (e_bound env) m p) (\<lambda>bs. Inr (bytes_str bs))"

definition find_node :: "'s env \<Rightarrow> node option \<Rightarrow> string \<Rightarrow> 's \<Rightarrow> (node option \<times> 's) res" where
  "find_node env nd path d = ext2_find (e_bound env) (e_io env) (e_fs env) (e_junk env) nd path d"

section \<open>Files\<close>

text \<open>The virtual functions of the consoles and of the nodes of the file system.\<close>

definition fnode_read_all :: "'s env \<Rightarrow> fnode \<Rightarrow> u32 \<Rightarrow> u32 \<Rightarrow> 's \<Rightarrow> ((int \<times> u8 list) \<times> 's) res" where
  "fnode_read_all env nd off n d =
     (case nd of File nd' \<Rightarrow> bio_read_all (node_io (e_io env) nd') off n d | _ \<Rightarrow> Inr ((0, []), d))"

definition fnode_write :: "'s env \<Rightarrow> fnode \<Rightarrow> u32 \<Rightarrow> int \<Rightarrow> u8 list \<Rightarrow> int \<times> u8 list" where
  "fnode_write env nd off n buf =
     (case nd of Stdout \<Rightarrow> (n, buf) | Stderr \<Rightarrow> (n, buf) | Stdin \<Rightarrow> (- 1, []) | File nd' \<Rightarrow> (bio_write (node_io (e_io env) nd') off n buf, []))"

definition fnode_size :: "fnode \<Rightarrow> u32" where
  "fnode_size nd = (case nd of File nd' \<Rightarrow> size_low (data nd') | _ \<Rightarrow> 0)"

definition sys_read :: "'s env \<Rightarrow> u32 \<Rightarrow> u32 \<Rightarrow> u32 \<Rightarrow> 's call" where
  "sys_read env fd buf nbyte w =
     (if \<not> address_valid buf nbyte \<or> unat fd \<ge> PCB_ARR_SIZE then Inr (Ret (- 1), w)
      else
        let h = fdt (my_pcb w) ! unat fd in
        if h = 0 then Inr (Ret (- 1), w)
        else
          let f = the (files w h) in
          case of_node f of None \<Rightarrow> Inr (Ret (- 1), w)
          | Some nd \<Rightarrow>
              bindR (fnode_read_all env nd (of_offset f) nbyte (dev w)) (\<lambda>((cnt, bytes), d).
                let bytes_read = of_int cnt;
                    w1 = set_mem (mem_write (mem w) buf bytes) (w\<lparr>dev := d\<rparr>)
                in Inr (Ret bytes_read, put_file h (f\<lparr>of_offset := of_offset f + bytes_read\<rparr>) w1)))"

definition sys_write :: "'s env \<Rightarrow> u32 \<Rightarrow> u32 \<Rightarrow> u32 \<Rightarrow> 's call" where
  "sys_write env fd buf nbyte w =
     (if sint nbyte < 0 \<or> \<not> address_valid buf nbyte \<or> unat fd \<ge> PCB_ARR_SIZE then Inr (Ret (- 1), w)
      else
        let h = fdt (my_pcb w) ! unat fd in
        if h = 0 then Inr (Ret (- 1), w)
        else
          let f = the (files w h) in
          case of_node f of None \<Rightarrow> Inr (Ret (- 1), w)
          | Some nd \<Rightarrow>
              let (cnt, printed) = fnode_write env nd (of_offset f) (sint nbyte) (mem_bytes (mem w) buf (unat nbyte));
                  bytes_written = of_int cnt
              in Inr (Ret bytes_written,
                   put_file h (f\<lparr>of_offset := of_offset f + bytes_written\<rparr>) (w\<lparr>console := console w @ printed\<rparr>)))"

fun first_null :: "handle list \<Rightarrow> nat" where
  "first_null [] = 0"
| "first_null (h # hs) = (if h = 0 then 0 else Suc (first_null hs))"

definition sys_open :: "'s env \<Rightarrow> u32 \<Rightarrow> 's call" where
  "sys_open env path w =
     (let w0 = (if cwd (my_pcb w) = None then put_my_pcb ((my_pcb w)\<lparr>cwd := root (e_fs env)\<rparr>) w else w) in
      bindR (user_string env (mem w0) path) (\<lambda>str.
      bindR (find_node env (cwd (my_pcb w0)) str (dev w0)) (\<lambda>(new_node, d).
      let (new_open_file, w1) = make_file (open_file_new (map_option File new_node)) (w0\<lparr>dev := d\<rparr>);
          i = first_null (fdt (my_pcb w1))
      in if i < PCB_ARR_SIZE
         then Inr (Ret (of_nat i), put_my_pcb ((my_pcb w1)\<lparr>fdt := (fdt (my_pcb w1))[i := new_open_file]\<rparr>) w1)
         else Inr (Ret (- 1), w1))))"

definition sys_len :: "u32 \<Rightarrow> 's call" where
  "sys_len fd w =
     (if unat fd \<ge> PCB_ARR_SIZE then Inr (Ret (- 1), w)
      else
        let h = fdt (my_pcb w) ! unat fd in
        if h = 0 then Inr (Ret (- 1), w)
        else case of_node (the (files w h)) of
          None \<Rightarrow> Inl (AssertFail ''ptr != nullptr'')
        | Some nd \<Rightarrow> Inr (Ret (fnode_size nd), w))"

definition sys_close :: "u32 \<Rightarrow> 's call" where
  "sys_close fd w =
     (let p = my_pcb w; i = unat fd in
      if i < PCB_ARR_SIZE then Inr (Ret 0, put_my_pcb (p\<lparr>fdt := (fdt p)[i := 0]\<rparr>) w)
      else if i < PCB_ARR_SIZE * 2 then Inr (Ret 0, put_my_pcb (p\<lparr>sdt := (sdt p)[i - PCB_ARR_SIZE := 0]\<rparr>) w)
      else if i < PCB_ARR_SIZE * 3
      then Inr (Ret 0, put_my_pcb (p\<lparr>children := (children p)[i - PCB_ARR_SIZE * 2 := 0],
             children_promises := (children_promises p)[i - PCB_ARR_SIZE * 2 := 0]\<rparr>) w)
      else Inr (Ret (- 1), w))"

definition sys_seek :: "u32 \<Rightarrow> u32 \<Rightarrow> 's call" where
  "sys_seek fd off w =
     (if unat fd \<ge> PCB_ARR_SIZE then Inr (Ret (- 1), w)
      else
        let h = fdt (my_pcb w) ! unat fd in
        if h = 0 then Inr (Ret (- 1), w)
        else Inr (Ret off, put_file h ((the (files w h))\<lparr>of_offset := off\<rparr>) w))"

definition sys_chdir :: "'s env \<Rightarrow> u32 \<Rightarrow> 's call" where
  "sys_chdir env path w =
     (let nd = (if cwd (my_pcb w) = None then root (e_fs env) else cwd (my_pcb w)) in
      bindR (user_string env (mem w) path) (\<lambda>str.
      bindR (find_node env nd str (dev w)) (\<lambda>(new_node, d).
      let w1 = w\<lparr>dev := d\<rparr> in
      if new_node = None then Inr (Ret (- 1), w1)
      else Inr (Ret 0, put_my_pcb ((my_pcb w1)\<lparr>cwd := new_node\<rparr>) w1))))"

section \<open>Processes\<close>

text \<open>\<open>pc\<close> and \<open>sp\<close> are \<open>frame[0]\<close> and \<open>frame[3]\<close>. The new thread enters user mode there with the memory and the areas of its parent.\<close>

definition sys_fork :: "u32 \<Rightarrow> u32 \<Rightarrow> 's call" where
  "sys_fork pc sp w =
     (let parent_h = t_pcb (me w); parent_jiffies = t_jiffies (me w) in
      bindR (pcb_duplicate parent_h w) (\<lambda>(child_h, w1).
      let child_vme = vme_duplicate (t_vme (me w1));
          i = unat (pcb_id (the (pcbs w1 child_h)));
          (pr, w2) = make_promise w1;
          p = my_pcb w2;
          w3 = put_my_pcb (p\<lparr>children_promises := (children_promises p)[i := pr]\<rparr>) w2;
          w4 = put_pcb child_h ((the (pcbs w3 child_h))\<lparr>parent_promise := children_promises (my_pcb w3) ! i\<rparr>) w3;
          child = \<lparr>t_pcb = child_h, t_vme = child_vme, t_um = t_um (me w4), t_jiffies = parent_jiffies, t_pc = pc, t_sp = sp\<rparr>
      in Inr (Ret (pcb_id (the (pcbs w4 child_h)) + of_nat PCB_ARR_SIZE * 2), w4\<lparr>spawned := spawned w4 @ [child]\<rparr>)))"

definition sys_exit :: "u32 \<Rightarrow> 's call" where
  "sys_exit rc w =
     (let h = parent_promise (my_pcb w) in
      if h \<noteq> 0 then
        let pr = the (promises w h)
        in Inr (Stopped, put_promise h \<lparr>pr_sem = count_up (pr_sem pr), pr_value = rc\<rparr> w)
      else Inr (Stopped, w))"

definition sys_wait :: "u32 \<Rightarrow> u32 \<Rightarrow> 's call" where
  "sys_wait i status w =
     (let p = my_pcb w in
      if unat i \<ge> PCB_ARR_SIZE \<or> children_promises p ! unat i = 0 then Inr (Ret (- 1), w)
      else
        let h = children_promises p ! unat i; pr = the (promises w h) in
        case count_down (pr_sem pr) of
          None \<Rightarrow> Inr (Blocked, w)
        | Some k \<Rightarrow>
            let w1 = put_promise h (pr\<lparr>pr_sem := count_up k\<rparr>) w;
                w2 = set_mem (mem_store (mem w1) status (pr_value pr)) w1
            in Inr (Ret 0, put_my_pcb (p\<lparr>children_promises := (children_promises p)[unat i := 0],
                 children := (children p)[unat i := 0]\<rparr>) w2))"

text \<open>The loop that checks the arguments, with the strings that the next loop copies. \<open>None\<close>: an argument is not valid.\<close>

fun exec_args :: "nat \<Rightarrow> 's env \<Rightarrow> memory \<Rightarrow> u32 \<Rightarrow> u32 \<Rightarrow> string list option res" where
  "exec_args n env m argv argc =
     (let p = mem_load m (argv + 4 * argc) in
      if p = 0 then Inr (Some [])
      else if p < 0x80000000 then Inr None
      else bindR (user_string env m p) (\<lambda>str.
        if p + of_nat (length str) \<ge> 0xF0000000 then Inr None
        else case n of 0 \<Rightarrow> Inl NoFuel
          | Suc n' \<Rightarrow> bindR (exec_args n' env m argv (argc + 1)) (\<lambda>r. Inr (map_option ((#) str) r))))"

declare exec_args.simps [simp del]

definition stack_size :: u32 where "stack_size = 134217728"

definition clear_private :: "memory \<Rightarrow> memory" where
  "clear_private m = (\<lambda>x. if private_address x then 0 else m x)"

text \<open>From the point where the old address space is cleared.\<close>

definition exec_program :: "'s env \<Rightarrow> node \<Rightarrow> string list \<Rightarrow> 's call" where
  "exec_program env new_program k_argv w =
     (let w1 = set_mem (clear_private (mem w)) w in
      bindR (elf_load (node_io (e_io env) new_program) (vme_new 0x80000000 0xF0000000) (mem w1) (dev w1)) (\<lambda>((e, v, m), d).
      let (stack_start, v', sh) = naive_mmap v (shared_vme w1) stack_size False 0 0 False;
          userEsp = stack_start + stack_size - 16;
          (userEsp', m') = load_args userEsp k_argv m
      in Inr (ToUser e userEsp', set_mem m' (w1\<lparr>dev := d, me := (me w1)\<lparr>t_vme := v'\<rparr>, shared_vme := sh\<rparr>))))"

definition sys_execl :: "'s env \<Rightarrow> u32 \<Rightarrow> u32 \<Rightarrow> 's call" where
  "sys_execl env path argv w =
     (let nd = (if cwd (my_pcb w) = None then root (e_fs env) else cwd (my_pcb w)) in
      bindR (user_string env (mem w) path) (\<lambda>str.
      bindR (find_node env nd str (dev w)) (\<lambda>(new_program, d).
      let w1 = w\<lparr>dev := d\<rparr> in
      case new_program of None \<Rightarrow> Inr (Ret (- 1), w1)
      | Some prog \<Rightarrow>
          bindR (exec_args (e_bound env) env (mem w1) argv 0) (\<lambda>args.
          case args of None \<Rightarrow> Inr (Ret (- 1), w1) | Some k_argv \<Rightarrow> exec_program env prog k_argv w1))))"

section \<open>Semaphores and memory\<close>

definition sys_sem :: "u32 \<Rightarrow> 's call" where
  "sys_sem initial w =
     (let i = first_null (sdt (my_pcb w)) in
      if i = PCB_ARR_SIZE then Inr (Ret (- 1), w)
      else
        let (h, w1) = make_sem initial w; p = my_pcb w1
        in Inr (Ret (of_nat i + of_nat PCB_ARR_SIZE), put_my_pcb (p\<lparr>sdt := (sdt p)[i := h]\<rparr>) w1))"

definition sys_up :: "u32 \<Rightarrow> 's call" where
  "sys_up i w =
     (if unat i \<ge> PCB_ARR_SIZE \<or> sdt (my_pcb w) ! unat i = 0 then Inr (Ret (- 1), w)
      else let h = sdt (my_pcb w) ! unat i in Inr (Ret 0, put_sem h (count_up (the (sems w h))) w))"

definition sys_down :: "u32 \<Rightarrow> 's call" where
  "sys_down i w =
     (if unat i \<ge> PCB_ARR_SIZE \<or> sdt (my_pcb w) ! unat i = 0 then Inr (Ret (- 1), w)
      else
        let h = sdt (my_pcb w) ! unat i in
        case count_down (the (sems w h)) of
          None \<Rightarrow> Inr (Blocked, w)
        | Some k \<Rightarrow> Inr (Ret 0, put_sem h k w))"

definition sys_naive_mmap :: "'s env \<Rightarrow> u32 \<Rightarrow> bool \<Rightarrow> u32 \<Rightarrow> u32 \<Rightarrow> 's call" where
  "sys_naive_mmap env sz is_shared fd off w =
     (if unat fd \<ge> PCB_ARR_SIZE then Inl (Undef ''fdt[file]'')
      else
        let h = fdt (my_pcb w) ! unat fd;
            nd = (if h = 0 then None else of_node (the (files w h)));
            addr = (case nd of None \<Rightarrow> 0 | Some x \<Rightarrow> e_address env x);
            (va, own, sh) = naive_mmap (t_vme (me w)) (shared_vme w) sz is_shared addr off True
        in Inr (Ret va, w\<lparr>me := (me w)\<lparr>t_vme := own\<rparr>, shared_vme := sh\<rparr>))"

text \<open>The frames of an area that goes are given back; its addresses read as zero when they are used again.\<close>

definition sys_naive_unmap :: "u32 \<Rightarrow> 's call" where
  "sys_naive_unmap p w =
     (if p < 0xF0000000 then
        (case remove_entry (t_vme (me w)) p True of
           (None, v) \<Rightarrow> Inr (Ret 0, w\<lparr>me := (me w)\<lparr>t_vme := v\<rparr>\<rparr>)
         | (Some e, v) \<Rightarrow> Inr (Ret 0, set_mem (mem_bzero (mem w) (e_start e) (e_num_pages e * FRAME_SIZE)) (w\<lparr>me := (me w)\<lparr>t_vme := v\<rparr>\<rparr>)))
      else Inr (Ret 0, w))"

section \<open>The dispatcher\<close>

definition user_arg :: "'s world \<Rightarrow> u32 \<Rightarrow> u32 \<Rightarrow> u32" where
  "user_arg w user_sp i = mem_load (mem w) (user_sp + 4 * i)"

definition sysHandler :: "'s env \<Rightarrow> u32 \<Rightarrow> u32 \<Rightarrow> u32 \<Rightarrow> 's call" where
  "sysHandler env eax pc user_sp w =
     (let arg = user_arg w user_sp; n = of_nat PCB_ARR_SIZE in
      if user_sp < 0x80000000 \<or> user_sp \<ge> 0xF0000000 then sys_exit (- 1) w
      else if eax = 0 then sys_exit (arg 1) w
      else if eax = 1 then sys_write env (arg 1) (arg 2) (arg 3) w
      else if eax = 2 then sys_fork pc user_sp w
      else if eax = 3 then sys_sem (arg 1) w
      else if eax = 4 then sys_up (arg 1 - n) w
      else if eax = 5 then sys_down (arg 1 - n) w
      else if eax = 6 then sys_close (arg 1) w
      else if eax = 7 then Inr (Halted, w)
      else if eax = 8 then sys_wait (arg 1 - n * 2) (arg 2) w
      else if eax = 9 then sys_execl env (arg 1) (user_sp + 8) w
      else if eax = 10 then sys_open env (arg 1) w
      else if eax = 11 then sys_len (arg 1) w
      else if eax = 12 then sys_read env (arg 1) (arg 2) (arg 3) w
      else if eax = 13 then sys_seek (arg 1) (arg 2) w
      else if eax = 100 then sys_chdir env (arg 1) w
      else if eax = 101 then sys_naive_mmap env (arg 1) (arg 2 \<noteq> 0) (arg 3) (arg 4) w
      else if eax = 102 then sys_naive_unmap (arg 1) w
      else if eax = 103 then bindR (vga_test (e_ports env) (e_screen env)) (\<lambda>(io, shown, scr). Inr (Showing shown, w))
      else Inr (Ret (- 1), w))"

section \<open>Every call keeps the state well formed\<close>

lemma mem_set_mem [simp]: "mem (set_mem m w) = m"
  by (auto simp: mem_def set_mem_def)

lemmas put_defs = put_my_pcb_def put_pcb_def put_file_def put_sem_def put_promise_def set_mem_def

lemma same_objects_simps [intro]:
  "same_objects w (w\<lparr>dev := d\<rparr>)" "same_objects w (w\<lparr>console := c\<rparr>)" "same_objects w (set_mem m w)"
  "same_objects w (w\<lparr>me := (me w)\<lparr>t_vme := v\<rparr>, shared_vme := sh\<rparr>)" "same_objects w (w\<lparr>me := (me w)\<lparr>t_vme := v\<rparr>\<rparr>)"
  "h \<in> dom (files w) \<Longrightarrow> same_objects w (put_file h f w)" "h \<in> dom (sems w) \<Longrightarrow> same_objects w (put_sem h n w)"
  "h \<in> dom (promises w) \<Longrightarrow> same_objects w (put_promise h p w)"
  "h \<in> dom (files w) \<Longrightarrow> same_objects w (put_file h f (set_mem m (w\<lparr>dev := d\<rparr>)))"
  "h \<in> dom (files w) \<Longrightarrow> same_objects w (put_file h f (w\<lparr>console := c\<rparr>))"
  by (auto simp: same_objects_def put_defs)

lemma same_objects_trans: "same_objects w w1 \<Longrightarrow> same_objects w1 w2 \<Longrightarrow> same_objects w w2"
  by (simp add: same_objects_def)

lemma same_objects_refl [intro]: "same_objects w w"
  by (simp add: same_objects_def)

lemma my_pcb_simps [simp]:
  "my_pcb (put_my_pcb p w) = p" "my_pcb (set_mem m w) = my_pcb w" "my_pcb (w\<lparr>dev := d\<rparr>) = my_pcb w" "my_pcb (put_file h f w) = my_pcb w"
  "my_pcb (put_sem h n w) = my_pcb w" "my_pcb (put_promise h q w) = my_pcb w" "my_pcb (w\<lparr>console := c\<rparr>) = my_pcb w"
  by (simp_all add: my_pcb_def put_defs)

lemma my_handle:
  assumes "world_ok w" "i < PCB_ARR_SIZE"
  shows "fdt (my_pcb w) ! i \<noteq> 0 \<Longrightarrow> fdt (my_pcb w) ! i \<in> dom (files w)" "sdt (my_pcb w) ! i \<noteq> 0 \<Longrightarrow> sdt (my_pcb w) ! i \<in> dom (sems w)"
    "children_promises (my_pcb w) ! i \<noteq> 0 \<Longrightarrow> children_promises (my_pcb w) ! i \<in> dom (promises w)"
  using my_pcb_ok [OF assms(1)] handles_in_nth [OF _ assms(2)] unfolding pcb_ok_def by blast+

lemma my_parent_promise: "world_ok w \<Longrightarrow> parent_promise (my_pcb w) \<noteq> 0 \<Longrightarrow> parent_promise (my_pcb w) \<in> dom (promises w)"
  using my_pcb_ok [of w] by (simp add: pcb_ok_def)

lemma sys_read_types: "world_ok w \<Longrightarrow> sys_read env fd buf n w = Inr (out, w') \<Longrightarrow> same_objects w w'"
  using my_handle(1) [of w "unat fd"]
  by (auto simp: sys_read_def bindR_Inr_conv Let_def split: if_splits option.splits)

lemma sys_write_types: "world_ok w \<Longrightarrow> sys_write env fd buf n w = Inr (out, w') \<Longrightarrow> same_objects w w'"
  using my_handle(1) [of w "unat fd"]
  by (auto simp: sys_write_def Let_def split: if_splits option.splits prod.splits)

lemma first_null_nth: "first_null hs < length hs \<Longrightarrow> hs ! first_null hs = 0 \<and> (\<forall>j < first_null hs. hs ! j \<noteq> 0)"
  by (induction hs) (auto simp: less_Suc_eq_0_disj)

lemma first_null_le: "first_null hs \<le> length hs"
  by (induction hs) auto

lemma world_ok_cwd: "world_ok w \<Longrightarrow> world_ok (put_my_pcb ((my_pcb w)\<lparr>cwd := nd\<rparr>) w)"
  using my_pcb_ok [of w] by (intro world_ok_put_my_pcb) (simp_all add: pcb_ok_def)

lemma sys_open_types:
  assumes "world_ok w" "sys_open env path w = Inr (out, w')" shows "world_ok w'"
proof -
  define w0 where "w0 = (if cwd (my_pcb w) = None then put_my_pcb ((my_pcb w)\<lparr>cwd := root (e_fs env)\<rparr>) w else w)"
  have ok0: "world_ok w0" using world_ok_cwd [OF assms(1)] assms(1) by (simp add: w0_def)
  obtain str nd d where f: "user_string env (mem w0) path = Inr str" "find_node env (cwd (my_pcb w0)) str (dev w0) = Inr (nd, d)"
    using assms(2) by (auto simp: sys_open_def w0_def [symmetric] Let_def bindR_Inr_conv)
  obtain h w1 where m: "make_file (open_file_new (map_option File nd)) (w0\<lparr>dev := d\<rparr>) = (h, w1)"
    by (cases "make_file (open_file_new (map_option File nd)) (w0\<lparr>dev := d\<rparr>)")
  have okd: "world_ok (w0\<lparr>dev := d\<rparr>)" using ok0 by (rule world_ok_same) blast
  note k = make_file_ok [OF okd m]
  have "world_ok (put_my_pcb ((my_pcb w1)\<lparr>fdt := (fdt (my_pcb w1))[i := h]\<rparr>) w1)" for i
    using my_pcb_ok [OF k(1)] handles_in_update [of "files w1" "fdt (my_pcb w1)" h i] k(3)
    by (intro world_ok_put_my_pcb [OF k(1)]) (simp add: pcb_ok_def)
  then show ?thesis using assms(2) k(1) f m by (auto simp: sys_open_def w0_def [symmetric] Let_def split: if_splits)
qed

lemma handles_in_clear: "handles_in m hs \<Longrightarrow> handles_in m (hs[i := 0])"
  by (rule handles_in_update) auto

lemma sys_close_types: "world_ok w \<Longrightarrow> sys_close fd w = Inr (out, w') \<Longrightarrow> world_ok w'"
  using my_pcb_ok [of w]
  by (auto simp: sys_close_def Let_def pcb_ok_def handles_in_clear split: if_splits intro!: world_ok_put_my_pcb)

lemma sys_seek_types: "world_ok w \<Longrightarrow> sys_seek fd off w = Inr (out, w') \<Longrightarrow> same_objects w w'"
  using my_handle(1) [of w "unat fd"] by (auto simp: sys_seek_def Let_def split: if_splits)

lemma sys_chdir_types:
  assumes "world_ok w" "sys_chdir env path w = Inr (out, w')" shows "world_ok w'"
proof -
  have "world_ok (w\<lparr>dev := d\<rparr>)" for d using assms(1) by (rule world_ok_same) blast
  then show ?thesis using assms world_ok_cwd [of "w\<lparr>dev := d\<rparr>" for d]
    by (auto simp: sys_chdir_def Let_def bindR_Inr_conv split: if_splits)
qed

lemma sys_exit_types: "world_ok w \<Longrightarrow> sys_exit rc w = Inr (out, w') \<Longrightarrow> same_objects w w'"
  using my_parent_promise [of w] by (auto simp: sys_exit_def Let_def split: if_splits)

lemma sys_wait_types:
  assumes "world_ok w" "sys_wait i status w = Inr (out, w')" shows "world_ok w'"
proof (cases "unat i \<ge> PCB_ARR_SIZE \<or> children_promises (my_pcb w) ! unat i = 0 \<or>
    count_down (pr_sem (the (promises w (children_promises (my_pcb w) ! unat i)))) = None")
  case True
  then show ?thesis using assms by (auto simp: sys_wait_def Let_def split: if_splits)
next
  case False
  let ?p = "my_pcb w" and ?h = "children_promises (my_pcb w) ! unat i"
  obtain k where k: "count_down (pr_sem (the (promises w ?h))) = Some k" using False by auto
  define w2 where "w2 = set_mem (mem_store (mem (put_promise ?h ((the (promises w ?h))\<lparr>pr_sem := count_up k\<rparr>) w)) status
      (pr_value (the (promises w ?h)))) (put_promise ?h ((the (promises w ?h))\<lparr>pr_sem := count_up k\<rparr>) w)"
  have "same_objects w w2" using my_handle(3) [OF assms(1), of "unat i"] False unfolding w2_def
    by (intro same_objects_trans [OF same_objects_simps(8) same_objects_simps(3)]) auto
  then have ok2: "world_ok w2" using assms(1) world_ok_same by blast
  have e: "my_pcb w2 = ?p" by (simp add: w2_def)
  have "world_ok (put_my_pcb (?p\<lparr>children_promises := (children_promises ?p)[unat i := 0], children := (children ?p)[unat i := 0]\<rparr>) w2)"
    using my_pcb_ok [OF ok2] by (intro world_ok_put_my_pcb [OF ok2]) (simp add: pcb_ok_def e handles_in_clear)
  then show ?thesis using assms(2) False k by (auto simp: sys_wait_def Let_def w2_def)
qed

lemma my_pcb_me: "pcbs w' = pcbs w \<Longrightarrow> me w' = me w \<Longrightarrow> my_pcb w' = my_pcb w"
  by (simp add: my_pcb_def)

lemma make_sem_my_pcb: "make_sem n w = (h, w') \<Longrightarrow> my_pcb w' = my_pcb w"
  by (auto simp: make_sem_def put_sem_def my_pcb_def)

lemma make_file_my_pcb: "make_file f w = (h, w') \<Longrightarrow> my_pcb w' = my_pcb w"
  by (auto simp: make_file_def put_file_def my_pcb_def)

lemma make_promise_my_pcb: "make_promise w = (h, w') \<Longrightarrow> my_pcb w' = my_pcb w"
  by (auto simp: make_promise_def put_promise_def my_pcb_def)

lemma sys_sem_types:
  assumes "world_ok w" "sys_sem n w = Inr (out, w')" shows "world_ok w'"
proof -
  obtain h w1 where m: "make_sem n w = (h, w1)" by (cases "make_sem n w")
  note k = make_sem_ok [OF assms(1) m]
  have "world_ok (put_my_pcb ((my_pcb w1)\<lparr>sdt := (sdt (my_pcb w1))[i := h]\<rparr>) w1)" for i
    using my_pcb_ok [OF k(1)] handles_in_update [of "sems w1" "sdt (my_pcb w1)" h i] k(3)
    by (intro world_ok_put_my_pcb [OF k(1)]) (simp add: pcb_ok_def)
  then show ?thesis using assms m by (auto simp: sys_sem_def Let_def split: if_splits)
qed

lemma sys_up_types: "world_ok w \<Longrightarrow> sys_up i w = Inr (out, w') \<Longrightarrow> same_objects w w'"
  using my_handle(2) [of w "unat i"] by (auto simp: sys_up_def Let_def split: if_splits)

lemma sys_down_types: "world_ok w \<Longrightarrow> sys_down i w = Inr (out, w') \<Longrightarrow> same_objects w w'"
  using my_handle(2) [of w "unat i"] by (auto simp: sys_down_def Let_def split: if_splits option.splits)

lemma sys_naive_mmap_types: "sys_naive_mmap env sz sh fd off w = Inr (out, w') \<Longrightarrow> same_objects w w'"
  by (auto simp: sys_naive_mmap_def Let_def split: if_splits prod.splits)

lemma sys_naive_unmap_types: "sys_naive_unmap p w = Inr (out, w') \<Longrightarrow> same_objects w w'"
  by (auto simp: sys_naive_unmap_def split: if_splits prod.splits option.splits intro!: same_objects_trans [OF same_objects_simps(5) same_objects_simps(3)])

lemma exec_program_types:
  assumes "exec_program env prog args w = Inr (out, w')" shows "same_objects w w'"
proof -
  define w1 where "w1 = set_mem (clear_private (mem w)) w"
  obtain e v m d where l: "elf_load (node_io (e_io env) prog) (vme_new 0x80000000 0xF0000000) (mem w1) (dev w1) = Inr ((e, v, m), d)"
    using assms by (auto simp: exec_program_def w1_def [symmetric] Let_def bindR_Inr_conv)
  obtain va v' sh where n: "naive_mmap v (shared_vme w1) stack_size False 0 0 False = (va, v', sh)"
    by (cases "naive_mmap v (shared_vme w1) stack_size False 0 0 False") auto
  obtain esp m' where a: "load_args (va + stack_size - 16) args m = (esp, m')" by (cases "load_args (va + stack_size - 16) args m") auto
  have "w' = set_mem m' (w1\<lparr>dev := d, me := (me w1)\<lparr>t_vme := v'\<rparr>, shared_vme := sh\<rparr>)"
    using assms by (simp add: exec_program_def w1_def [symmetric] Let_def l n a)
  then show ?thesis by (simp add: same_objects_def w1_def set_mem_def)
qed

lemma sys_execl_types: "sys_execl env path argv w = Inr (out, w') \<Longrightarrow> same_objects w w'"
proof -
  assume a: "sys_execl env path argv w = Inr (out, w')"
  have e: "same_objects w w2" if "exec_program env prog args (w\<lparr>dev := d\<rparr>) = Inr (o', w2)" for prog args d o' w2
    using exec_program_types [OF that] same_objects_simps(1) [of w d] by (simp add: same_objects_def)
  show ?thesis using a same_objects_simps(1) [of w]
    by (auto simp: sys_execl_def Let_def bindR_Inr_conv split: option.split_asm dest: e)
qed

lemma sys_len_same: "sys_len fd w = Inr (out, w') \<Longrightarrow> w' = w"
  by (auto simp: sys_len_def Let_def split: if_splits option.splits)

text \<open>What \<open>fork\<close> does: the child's slot is 0, whatever was there.\<close>

lemma sys_fork_ok:
  assumes "world_ok w" "fdt (my_pcb w) ! 0 \<noteq> 0"
  shows "\<exists>ch pr c w'. sys_fork pc sp w = Inr (Ret 200, w') \<and> world_ok w' \<and> pcbs w ch = None \<and> promises w pr = None \<and> ch \<noteq> 0 \<and> pr \<noteq> 0 \<and>
    my_pcb w' = (my_pcb w)\<lparr>children := (children (my_pcb w))[0 := ch], children_promises := (children_promises (my_pcb w))[0 := pr]\<rparr> \<and>
    pcbs w' ch = Some c \<and> pcb_id c = 0 \<and> cwd c = cwd (my_pcb w) \<and> parent c = t_pcb (me w) \<and> fdt c = fdt (my_pcb w) \<and> sdt c = sdt (my_pcb w) \<and>
    parent_promise c = pr \<and> promises w' = (promises w)(pr \<mapsto> promise_new 0) \<and> files w \<subseteq>\<^sub>m files w' \<and> sems w' = sems w \<and>
    me w' = me w \<and> common w' = common w \<and> dev w' = dev w \<and> console w' = console w \<and> shared_vme w' = shared_vme w \<and>
    spawned w' = spawned w @ [\<lparr>t_pcb = ch, t_vme = vme_duplicate (t_vme (me w)), t_um = t_um (me w), t_jiffies = t_jiffies (me w), t_pc = pc, t_sp = sp\<rparr>] \<and>
    (\<forall>x. x \<noteq> ch \<longrightarrow> x \<noteq> t_pcb (me w) \<longrightarrow> pcbs w' x = pcbs w x)"
proof -
  let ?h = "t_pcb (me w)" and ?p = "my_pcb w"
  have ph: "pcbs w ?h = Some ?p" using assms(1) by (auto simp: world_ok_def my_pcb_def)
  obtain ch w1 c where d: "pcb_duplicate ?h w = Inr (ch, w1)" "pcbs w ch = None" "ch \<noteq> 0"
      "pcbs w1 = (pcbs w)(?h \<mapsto> ?p\<lparr>children := (children ?p)[0 := ch]\<rparr>, ch \<mapsto> c)" "pcb_id c = 0" "cwd c = cwd ?p" "parent c = ?h" "fdt c = fdt ?p" "sdt c = sdt ?p"
      "world_ok w1" "files w \<subseteq>\<^sub>m files w1" "sems w1 = sems w" "promises w1 = promises w" "me w1 = me w" "spawned w1 = spawned w"
      "shared_vme w1 = shared_vme w" "common w1 = common w" "dev w1 = dev w" "console w1 = console w"
    using pcb_duplicate_cases(2) [OF assms(1) ph assms(2)] by blast
  have ne: "ch \<noteq> ?h" using d(2) ph by auto
  obtain pr w2 where m: "make_promise w1 = (pr, w2)" by (cases "make_promise w1")
  note k = make_promise_ok [OF d(10) m]
  have x: "me w2 = me w" "spawned w2 = spawned w" "shared_vme w2 = shared_vme w" "common w2 = common w" "dev w2 = dev w" "console w2 = console w"
    using k(2) d by (simp_all add: extends_def)
  have p2: "my_pcb w2 = ?p\<lparr>children := (children ?p)[0 := ch]\<rparr>" using ne by (simp add: my_pcb_def k(6) x d(4))
  let ?q = "?p\<lparr>children := (children ?p)[0 := ch], children_promises := (children_promises ?p)[0 := pr]\<rparr>"
  define w3 where "w3 = put_my_pcb ?q w2"
  have ok2: "pcb_ok w2 (my_pcb w2)" by (rule my_pcb_ok [OF k(1)])
  have "pcb_ok w2 ?q" using ok2 handles_in_update [of "promises w2" "children_promises ?p" pr 0] k(3) by (simp add: pcb_ok_def p2)
  then have ok3: "world_ok w3" unfolding w3_def by (rule world_ok_put_my_pcb [OF k(1)])
  have c3: "pcbs w3 ch = Some c" using ne by (simp add: w3_def put_defs k(6) d(4) x)
  have l: "length (children_promises ?p) = PCB_ARR_SIZE" using my_pcb_ok [OF assms(1)] by (simp add: pcb_ok_def handles_in_def)
  let ?c = "c\<lparr>parent_promise := pr\<rparr>"
  define w4 where "w4 = put_pcb ch ?c w3"
  have "pcb_ok w3 c" using ok3 c3 by (simp add: world_ok_def)
  then have "pcb_ok w3 ?c" using k(3) by (simp add: pcb_ok_def w3_def put_defs)
  then have ok4: "world_ok w4" unfolding w4_def using c3 by (intro world_ok_put_pcb [OF ok3]) auto
  let ?t = "\<lparr>t_pcb = ch, t_vme = vme_duplicate (t_vme (me w)), t_um = t_um (me w), t_jiffies = t_jiffies (me w), t_pc = pc, t_sp = sp\<rparr>"
  let ?w = "w4\<lparr>spawned := spawned w4 @ [?t]\<rparr>"
  have "sys_fork pc sp w = Inr (Ret 200, ?w)"
  proof -
    have c1: "the (pcbs w1 ch) = c" by (simp add: d(4))
    have e3: "put_my_pcb ((my_pcb w2)\<lparr>children_promises := (children_promises (my_pcb w2))[unat (pcb_id (the (pcbs w1 ch))) := pr]\<rparr>) w2 = w3"
      by (simp add: w3_def p2 c1 d(5))
    have n: "children_promises (my_pcb w3) ! unat (pcb_id (the (pcbs w1 ch))) = pr"
      using l by (simp add: c1 d(5) w3_def PCB_ARR_SIZE_def)
    have e4: "put_pcb ch ((the (pcbs w3 ch))\<lparr>parent_promise := children_promises (my_pcb w3) ! unat (pcb_id (the (pcbs w1 ch)))\<rparr>) w3 = w4"
      unfolding n by (simp add: c3 w4_def)
    have t: "me w4 = me w" "the (pcbs w4 ch) = ?c" by (simp_all add: w4_def w3_def put_defs x)
    show ?thesis
      by (simp only: sys_fork_def Let_def d(1) bindR.simps prod.case m e3 e4 t) (simp add: d(5,14) PCB_ARR_SIZE_def)
  qed
  moreover have "world_ok ?w"
    using ok4 c3 unfolding world_ok_def by (auto simp: w4_def put_pcb_def pcb_ok_def)
  moreover have "my_pcb ?w = ?q" using ne by (simp add: my_pcb_def w4_def w3_def put_defs x)
  moreover have "promises w pr = None" using k(4) fresh_unused(4) [OF d(10)] d(13) by simp
  ultimately show ?thesis using d k x
    by (intro exI [of _ ch] exI [of _ pr] exI [of _ ?c] exI [of _ ?w]) (simp add: w4_def w3_def put_defs)
qed

lemma sys_fork_types: "world_ok w \<Longrightarrow> sys_fork pc sp w = Inr (out, w') \<Longrightarrow> world_ok w'"
proof (cases "fdt (my_pcb w) ! 0 = 0")
  case True
  moreover assume "world_ok w" "sys_fork pc sp w = Inr (out, w')"
  moreover from this have "pcbs w (t_pcb (me w)) = Some (my_pcb w)" by (auto simp: world_ok_def my_pcb_def)
  ultimately show ?thesis using pcb_duplicate_cases(1) [of w "t_pcb (me w)" "my_pcb w"] by (simp add: sys_fork_def)
next
  case False
  assume "world_ok w" "sys_fork pc sp w = Inr (out, w')"
  then show ?thesis using sys_fork_ok [of w pc sp] False by auto
qed

section \<open>Properties\<close>

text \<open>
  (C1:sys_types) Every system call that returns keeps the state well formed: the tables of every process keep their length of 100, and every descriptor,
  semaphore, child, parent and promise in them is null or names an object that exists and has the right type.
\<close>

theorem sys_types:
  assumes "world_ok w" "sysHandler env eax pc user_sp w = Inr (out, w')"
  shows "world_ok w'"
proof -
  note s = world_ok_same [OF assms(1)]
  show ?thesis
    using assms unfolding sysHandler_def Let_def
    by (auto simp: bindR_Inr_conv split: if_splits
        dest: s [OF sys_read_types [OF assms(1)]] s [OF sys_write_types [OF assms(1)]] s [OF sys_seek_types [OF assms(1)]]
          s [OF sys_exit_types [OF assms(1)]] s [OF sys_up_types [OF assms(1)]] s [OF sys_down_types [OF assms(1)]] s [OF sys_naive_mmap_types]
          s [OF sys_naive_unmap_types] s [OF sys_execl_types] sys_open_types [OF assms(1)] sys_close_types [OF assms(1)]
          sys_chdir_types [OF assms(1)] sys_wait_types [OF assms(1)] sys_sem_types [OF assms(1)] sys_fork_types [OF assms(1)] sys_len_same)
qed

subsection \<open>Reading and writing\<close>

lemma put_file_simps [simp]:
  "mem (put_file h f w) = mem w" "files (put_file h f w) = (files w)(h \<mapsto> f)" "pcbs (put_file h f w) = pcbs w" "dev (put_file h f w) = dev w"
  "files (set_mem m w) = files w" "pcbs (set_mem m w) = pcbs w" "dev (set_mem m w) = dev w" "console (put_file h f w) = console w"
  "console (set_mem m w) = console w" "mem (w\<lparr>dev := d\<rparr>) = mem w" "mem (w\<lparr>console := c\<rparr>) = mem w" "mem (put_my_pcb p w) = mem w" "dev (put_my_pcb p w) = dev w" "files (put_my_pcb p w) = files w"
  "fresh (put_my_pcb p w) = fresh w" "me (put_my_pcb p w) = me w" "me (put_file h f w) = me w" "sems (put_my_pcb p w) = sems w"
  "promises (put_my_pcb p w) = promises w" "promises (set_mem m w) = promises w" "sems (set_mem m w) = sems w"
  by (simp_all add: mem_def put_defs cong: if_cong)

lemma mem_write_other: "length bs \<le> unat (x - a) \<Longrightarrow> mem_write m a bs x = m x"
  by (simp add: mem_write_def)

lemma mem_write_Nil [simp]: "mem_write m a [] = m"
  by (simp add: mem_write_def)

lemma sys_read_ok:
  assumes "e_io env = cache_io (ide_io hw fuel)" "cache_small hw fuel (dev w)"
    and "unat fd < PCB_ARR_SIZE" "fdt (my_pcb w) ! unat fd = h" "h \<noteq> 0" "files w h = Some \<lparr>of_node = Some (File nd), of_offset = off\<rparr>"
    and "node_wf (disk_byte hw (drive (cdev (dev w)))) disk_limit nd" "off \<le> size_low (data nd)" "address_valid buf n"
  shows "\<exists>w'. let k = min (unat n) (unat (size_low (data nd)) - unat off) in
    sys_read env fd buf n w = Inr (Ret (of_nat k), w') \<and>
    mem_bytes (mem w') buf k = bytes_at (node_byte (disk_byte hw (drive (cdev (dev w)))) nd) (unat off) k \<and>
    (\<forall>x. k \<le> unat (x - buf) \<longrightarrow> mem w' x = mem w x) \<and>
    files w' = (files w)(h \<mapsto> \<lparr>of_node = Some (File nd), of_offset = off + of_nat k\<rparr>) \<and> pcbs w' = pcbs w \<and> t_pcb (me w') = t_pcb (me w) \<and> console w' = console w \<and>
    cache_small hw fuel (dev w') \<and> drive (cdev (dev w')) = drive (cdev (dev w))"
proof -
  let ?k = "min (unat n) (unat (size_low (data nd)) - unat off)"
  let ?bs = "bytes_at (node_byte (disk_byte hw (drive (cdev (dev w)))) nd) (unat off) ?k"
  have "unat off + ?k \<le> unat (size_low (data nd))" using assms(8) by (simp add: word_le_nat_alt)
  then obtain d where d: "bio_read_all (node_io (cache_io (ide_io hw fuel)) nd) off n (dev w) = Inr ((int ?k, ?bs), d)" "cache_small hw fuel d" "drive (cdev d) = drive (cdev (dev w))"
    using block_device.read_all_ok [OF block_device.node_device [OF ide_cache_device assms(7)], where s = "dev w" and offset = off and n = n] assms(2,8)
    by (auto simp: node_io_def)
  let ?w = "put_file h \<lparr>of_node = Some (File nd), of_offset = off + of_nat ?k\<rparr> (set_mem (mem_write (mem w) buf ?bs) (w\<lparr>dev := d\<rparr>))"
  have r: "sys_read env fd buf n w = Inr (Ret (of_nat ?k), ?w)"
    using assms(3-6,9) by (simp add: sys_read_def fnode_read_all_def assms(1) d(1) Let_def)
  have tp: "t_pcb (me (set_mem m x)) = t_pcb (me x)" for m and x :: "ide cache world" by (simp add: set_mem_def)
  have k: "?k < 2 ^ 32" using unat_u32_less [of n] by linarith
  then have "mem_bytes (mem_write (mem w) buf ?bs) buf ?k = ?bs" using mem_write_same [of ?bs "mem w" buf] by simp
  moreover have "mem_write (mem w) buf ?bs x = mem w x" if "?k \<le> unat (x - buf)" for x
    using that by (intro mem_write_other) (simp only: length_bytes_at)
  ultimately show ?thesis using r d(2,3) by (intro exI [of _ ?w]) (simp add: Let_def tp)
qed


text \<open>A first process with its consoles.\<close>

definition no_process :: "'s \<Rightarrow> 's world" where
  "no_process d = \<lparr>pcbs = Map.empty, files = Map.empty, sems = Map.empty, promises = Map.empty, fresh = 1,
     me = \<lparr>t_pcb = 4, t_vme = vme_new 0x80000000 0xF0000000, t_um = \<lambda>_. 0, t_jiffies = 0, t_pc = 0, t_sp = 0\<rparr>,
     spawned = [], shared_vme = vme_new 0xF0000000 0xFFFFFFFF, common = \<lambda>_. 0, dev = d, console = []\<rparr>"

definition first_process :: "'s \<Rightarrow> 's world" where
  "first_process d = snd (make_pcb 0 (no_process d))"

definition first_pcb :: pcb where
  "first_pcb = \<lparr>pcb_id = 0, cwd = None, parent = 0, children = replicate 100 0, fdt = 1 # 2 # 3 # replicate 97 0, sdt = replicate 100 0,
     parent_promise = 0, children_promises = replicate 100 0, pcb_state = RUNNING, exit_status = 0\<rparr>"

lemma small_numbers: "Suc (Suc 0) = 2" "Suc 2 = 3" "Suc 3 = 4" "Suc 4 = 5"
  by simp_all

lemma first_process_fields:
  "pcbs (first_process d) = [4 \<mapsto> first_pcb]" "my_pcb (first_process d) = first_pcb" "dev (first_process d) = d" "mem (first_process d) = (\<lambda>_. 0)"
  "files (first_process d) = [1 \<mapsto> open_file_new (Some Stdin), 2 \<mapsto> open_file_new (Some Stdout), 3 \<mapsto> open_file_new (Some Stderr)]"
  "sems (first_process d) = Map.empty" "promises (first_process d) = Map.empty" "fresh (first_process d) = 5" "spawned (first_process d) = []"
  "t_pcb (me (first_process d)) = 4" "console (first_process d) = []"
  by (simp_all add: first_process_def make_pcb_def pcb_new_def make_file_def no_process_def put_defs my_pcb_def first_pcb_def PCB_ARR_SIZE_def mem_def
      small_numbers cong: if_cong)

lemma first_process_ok: "world_ok (first_process d)"
  by (auto simp: world_ok_def first_process_fields pcb_ok_def handles_in_def first_pcb_def PCB_ARR_SIZE_def)

definition demo_env :: "ide_hw \<Rightarrow> ext2 \<Rightarrow> ide cache env" where
  "demo_env hw fs = \<lparr>e_fs = fs, e_io = cache_io (ide_io hw 1), e_bound = 100, e_junk = \<lambda>_. 0, e_address = \<lambda>_. 1, e_ports = \<lparr>answer = \<lambda>_. 0, accesses = []\<rparr>,
     e_screen = \<lambda>_. 0\<rparr>"

lemma ramp_cache: "cache_small ramp_disk 1 (cache_new (ide_new 1 0))"
  using cache_new_ready resident_new ramp_disk_ready by (simp add: cache_small_def ide_new_def)


theorem sys_types_witness:
  "\<exists>w'. sysHandler (demo_env ramp_disk image_fs) 3 0 0x90000000 (first_process (cache_new (ide_new 1 0))) = Inr (Ret 100, w') \<and> world_ok w'"
proof -
  have z: "first_null (replicate 100 0) = 0" by code_simp
  obtain w' where w': "sysHandler (demo_env ramp_disk image_fs) 3 0 0x90000000 (first_process (cache_new (ide_new 1 0))) = Inr (Ret 100, w')"
    by (simp add: sysHandler_def sys_sem_def Let_def first_process_fields first_pcb_def z PCB_ARR_SIZE_def word_le_nat_alt word_less_nat_alt make_sem_def)
  then show ?thesis using sys_types [OF first_process_ok w'] by blast
qed

lemma read_all_past_end:
  "n \<noteq> 0 \<Longrightarrow> size_in_bytes d < off \<Longrightarrow> bio_read_all d off n s = Inr ((- 1, []), s)"
  by (simp add: bio_read_all_def read_all_loop.simps [of d off n] bio_read_def Let_def)

lemma bytes_str_word [simp]: "length (bytes_str bs) = length bs"
  by (simp add: bytes_str_def)

text \<open>
  (failing_io_moves_offset) \<open>read\<close> with the offset behind the end of a file and every \<open>write\<close> to a file fail with -1, change no memory and print nothing, but
  they still add their result to the offset of the descriptor: it moves one byte back.
\<close>

theorem failing_io_moves_offset:
  assumes "unat fd < PCB_ARR_SIZE" "fdt (my_pcb w) ! unat fd = h" "h \<noteq> 0" "files w h = Some \<lparr>of_node = Some (File nd), of_offset = off\<rparr>"
    and "address_valid buf n" "n \<noteq> 0" "size_low (data nd) < off"
  shows "\<exists>w1 w2. sys_read env fd buf n w = Inr (Ret (- 1), w1) \<and> files w1 = (files w)(h \<mapsto> \<lparr>of_node = Some (File nd), of_offset = off - 1\<rparr>) \<and>
    mem w1 = mem w \<and> pcbs w1 = pcbs w \<and> dev w1 = dev w \<and>
    sys_write env fd buf n w = Inr (Ret (- 1), w2) \<and> console w2 = console w \<and> mem w2 = mem w \<and> pcbs w2 = pcbs w \<and> dev w2 = dev w \<and>
    (0 \<le> sint n \<longrightarrow> files w2 = (files w)(h \<mapsto> \<lparr>of_node = Some (File nd), of_offset = off - 1\<rparr>))"
proof -
  have r: "bio_read_all (node_io (e_io env) nd) off n (dev w) = Inr ((- 1, []), dev w)"
    using assms(6,7) by (intro read_all_past_end) (simp_all add: node_io_def)
  let ?f = "\<lparr>of_node = Some (File nd), of_offset = off - 1\<rparr>"
  let ?w1 = "put_file h ?f (set_mem (mem w) (w\<lparr>dev := dev w\<rparr>))" and ?w2 = "put_file h ?f (w\<lparr>console := console w @ []\<rparr>)"
  have 1: "sys_read env fd buf n w = Inr (Ret (- 1), ?w1)"
    using assms(1-5) by (simp add: sys_read_def fnode_read_all_def r Let_def)
  have 2: "sys_write env fd buf n w = Inr (Ret (- 1), if 0 \<le> sint n then ?w2 else w)"
    using assms(1-5) by (simp add: sys_write_def fnode_write_def bio_write_def Let_def not_less)
  show ?thesis
    by (rule exI [of _ ?w1], rule exI [of _ "if 0 \<le> sint n then ?w2 else w"]) (use 1 2 in \<open>simp\<close>)
qed

theorem failing_io_moves_offset_witness:
  "\<exists>w w1. sys_read (demo_env ramp_disk image_fs) 2 0x90000000 6 w = Inr (Ret (- 1), w1) \<and>
     files w 3 = Some \<lparr>of_node = Some (File holed_file), of_offset = 1200\<rparr> \<and> files w1 3 = Some \<lparr>of_node = Some (File holed_file), of_offset = 1199\<rparr>"
proof -
  define w where "w = put_file 3 \<lparr>of_node = Some (File holed_file), of_offset = 1200\<rparr> (first_process (cache_new (ide_new 1 0)))"
  have w: "fdt (my_pcb w) ! 2 = 3" "files w 3 = Some \<lparr>of_node = Some (File holed_file), of_offset = 1200\<rparr>"
    by (simp_all add: w_def first_process_fields first_pcb_def)
  have s: "size_low (data holed_file) = 1100" by (simp add: holed_file_def)
  have "\<exists>w1. sys_read (demo_env ramp_disk image_fs) 2 0x90000000 6 w = Inr (Ret (- 1), w1) \<and>
      files w1 3 = Some \<lparr>of_node = Some (File holed_file), of_offset = 1199\<rparr>"
    using failing_io_moves_offset [where env = "demo_env ramp_disk image_fs" and w = w and fd = 2 and h = 3 and nd = holed_file and
        off = 1200 and buf = "0x90000000" and n = 6] w
    by (auto simp: s PCB_ARR_SIZE_def address_valid_def word_less_nat_alt)
  then show ?thesis using w(2) by blast
qed

text \<open>
  (sys_write_console) \<open>write\<close> on the standard output prints the bytes of the buffer and returns their number.
\<close>

theorem sys_write_console:
  assumes "unat fd < PCB_ARR_SIZE" "fdt (my_pcb w) ! unat fd = h" "h \<noteq> 0" "files w h = Some \<lparr>of_node = Some nd, of_offset = off\<rparr>" "nd \<in> {Stdout, Stderr}"
    and "address_valid buf n" "0 \<le> sint n"
  shows "\<exists>w'. sys_write env fd buf n w = Inr (Ret n, w') \<and> console w' = console w @ mem_bytes (mem w) buf (unat n) \<and> mem w' = mem w \<and> pcbs w' = pcbs w"
proof -
  have "(of_int (sint n) :: u32) = n" by simp
  then show ?thesis using assms by (auto simp: sys_write_def fnode_write_def Let_def not_less)
qed

subsection \<open>Opening and closing\<close>

text \<open>The state after a successful \<open>open\<close>.\<close>

lemma sys_open_ok:
  assumes "world_ok w" "user_string env (mem w) path = Inr str"
    "find_node env (if cwd (my_pcb w) = None then root (e_fs env) else cwd (my_pcb w)) str (dev w) = Inr (nd, d)"
  shows "let i = first_null (fdt (my_pcb w)); h = fresh w;
      p = (my_pcb w)\<lparr>cwd := (if cwd (my_pcb w) = None then root (e_fs env) else cwd (my_pcb w))\<rparr> in
    \<exists>w'. sys_open env path w = Inr (Ret (if i < PCB_ARR_SIZE then of_nat i else - 1), w') \<and>
      my_pcb w' = (if i < PCB_ARR_SIZE then p\<lparr>fdt := (fdt p)[i := h]\<rparr> else p) \<and>
      files w' = (files w)(h \<mapsto> open_file_new (map_option File nd)) \<and> files w h = None \<and> h \<noteq> 0 \<and> mem w' = mem w \<and> dev w' = d \<and> t_pcb (me w') = t_pcb (me w)"
proof -
  let ?p = "(my_pcb w)\<lparr>cwd := (if cwd (my_pcb w) = None then root (e_fs env) else cwd (my_pcb w))\<rparr>"
  define w0 where "w0 = (if cwd (my_pcb w) = None then put_my_pcb ((my_pcb w)\<lparr>cwd := root (e_fs env)\<rparr>) w else w)"
  have p0: "my_pcb w0 = ?p" by (simp add: w0_def)
  have s0: "mem w0 = mem w" "dev w0 = dev w" "files w0 = files w" "fresh w0 = fresh w" "t_pcb (me w0) = t_pcb (me w)" by (simp_all add: w0_def)
  have ok0: "world_ok w0" using world_ok_cwd [OF assms(1)] assms(1) by (simp add: w0_def)
  obtain h w1 where m: "make_file (open_file_new (map_option File nd)) (w0\<lparr>dev := d\<rparr>) = (h, w1)"
    by (cases "make_file (open_file_new (map_option File nd)) (w0\<lparr>dev := d\<rparr>)")
  have okd: "world_ok (w0\<lparr>dev := d\<rparr>)" using ok0 by (rule world_ok_same) blast
  note k = make_file_ok [OF okd m]
  have p1: "my_pcb w1 = ?p" using make_file_my_pcb [OF m] p0 by simp
  have "mem w1 = mem w0" using k(2) by (simp add: extends_def mem_def cong: if_cong)
  then have x: "mem w1 = mem w" "dev w1 = d" "t_pcb (me w1) = t_pcb (me w)" using k(2) s0 by (simp_all add: extends_def)
  have "files w (fresh w) = None" using fresh_unused(2) [OF assms(1)] .
  moreover have "sys_open env path w = (let i = first_null (fdt (my_pcb w)) in
      if i < PCB_ARR_SIZE then Inr (Ret (of_nat i), put_my_pcb (?p\<lparr>fdt := (fdt ?p)[i := h]\<rparr>) w1) else Inr (Ret (- 1), w1))"
    using assms(2,3) by (simp add: sys_open_def w0_def [symmetric] Let_def p0 s0 m p1)
  ultimately show ?thesis using k x p1 s0 by (simp add: Let_def)
qed


text \<open>The path of one name that does not exist, in user memory.\<close>

definition path_world :: "ide cache \<Rightarrow> ide cache world" where
  "path_world d = set_mem (mem_write (\<lambda>_. 0) 0x80000000 [120, 0]) (first_process d)"

lemma path_world_opens:
  fixes w :: "ide cache world" and env :: "ide cache env"
  assumes "w = path_world (cache_new (ide_new 1 0))" "env = demo_env image_disk (image_fs\<lparr>root := Some image_root\<rparr>)"
  shows "world_ok w" "mem_bytes (mem w) 0x80000000 (length [120 :: u8] + 1) = [120] @ [0]" "my_pcb w = first_pcb" "dev w = cache_new (ide_new 1 0)"
    "first_null (fdt first_pcb) = 3" "bytes_str [120] = ''x''"
    "resolve (disk_byte image_disk 1) (e_fs env) image_root (components (bytes_str [120])) 0 image_root = None"
    "readable (disk_byte image_disk (drive (cdev (dev w)))) disk_limit (e_fs env) {image_root}" "cache_small image_disk 1 (dev w)"
    "e_io env = cache_io (ide_io image_disk 1)" "e_junk env = (\<lambda>_. 0)" "root (e_fs env) = Some image_root" "e_bound env = 100"
proof -
  let ?fs = "image_fs\<lparr>root := Some image_root\<rparr>" and ?c = "disk_byte image_disk 1"
  show "world_ok w" unfolding assms path_world_def by (rule world_ok_same [OF first_process_ok]) blast
  show "mem_bytes (mem w) 0x80000000 (length [120 :: u8] + 1) = [120] @ [0]"
    by (simp add: assms path_world_def mem_bytes_def mem_write_def upt_rec)
  show e: "e_io env = cache_io (ide_io image_disk 1)" "e_junk env = (\<lambda>_. 0)" "root (e_fs env) = Some image_root" "e_bound env = 100"
    by (simp_all add: assms demo_env_def)
  show p: "my_pcb w = first_pcb" "dev w = cache_new (ide_new 1 0)" by (simp_all add: assms path_world_def first_process_fields)
  have "first_null (replicate k 0) = 0" for k by (cases k) simp_all
  then show "first_null (fdt first_pcb) = 3" by (simp add: first_pcb_def)
  show b: "bytes_str [120] = ''x''" by code_simp
  have "lookup ?c ?fs image_root (str_bytes ''x'') = None" by (simp add: lookup_def image_root_list str_bytes_def)
  then show "resolve ?c (e_fs env) image_root (components (bytes_str [120])) 0 image_root = None"
    using image_root_dir by (simp add: assms demo_env_def b components_def segments_def resolve.simps)
  show "readable (disk_byte image_disk (drive (cdev (dev w)))) disk_limit (e_fs env) {image_root}" "cache_small image_disk 1 (dev w)"
    using image_readable image_cache by (simp_all add: p(2) assms(2) demo_env_def)
qed


text \<open>
  (open_close_roundtrip) \<open>close\<close> of the descriptor that \<open>open\<close> returned brings the descriptors back to what they were, and the next \<open>open\<close> returns it again.
\<close>

theorem open_close_roundtrip:
  assumes "world_ok w" "sys_open env path w = Inr (Ret fd, w1)" "fd \<noteq> - 1" "sys_close fd w1 = Inr (r, w2)"
  shows "r = Ret 0 \<and> fdt (my_pcb w2) = fdt (my_pcb w) \<and> first_null (fdt (my_pcb w2)) = unat fd \<and> fdt (my_pcb w1) ! unat fd \<noteq> 0 \<and>
    (\<forall>h. files w h \<noteq> None \<longrightarrow> files w2 h = files w h)"
proof -
  let ?i = "first_null (fdt (my_pcb w))"
  obtain str nd d where f: "user_string env (mem w) path = Inr str"
      "find_node env (if cwd (my_pcb w) = None then root (e_fs env) else cwd (my_pcb w)) str (dev w) = Inr (nd, d)"
    using assms(2) by (auto simp: sys_open_def Let_def bindR_Inr_conv split: if_splits)
  have w1: "fd = (if ?i < PCB_ARR_SIZE then of_nat ?i else - 1)" "?i < PCB_ARR_SIZE \<Longrightarrow> fdt (my_pcb w1) = (fdt (my_pcb w))[?i := fresh w]"
    "files w1 = (files w)(fresh w \<mapsto> open_file_new (map_option File nd))" "files w (fresh w) = None" "fresh w \<noteq> 0"
    using sys_open_ok [OF assms(1) f] assms(2) by (auto simp: Let_def split: if_splits)
  have i: "?i < PCB_ARR_SIZE" using w1(1) assms(3) by (auto split: if_splits)
  have l: "length (fdt (my_pcb w)) = PCB_ARR_SIZE" using my_pcb_ok [OF assms(1)] by (simp add: pcb_ok_def handles_in_def)
  have u: "unat fd = ?i" using i w1(1) by (simp add: PCB_ARR_SIZE_def take_bit_nat_eq_self unat_of_nat)
  have "(fdt (my_pcb w))[?i := 0] = fdt (my_pcb w)" using first_null_nth [of "fdt (my_pcb w)"] i l by (metis list_update_id)
  then have "fdt (my_pcb w2) = fdt (my_pcb w)" "r = Ret 0" "files w2 = files w1" using assms(4) i w1(2) by (auto simp: sys_close_def u Let_def)
  then show ?thesis using u i l w1 by auto
qed

theorem open_close_roundtrip_witness:
  "\<exists>env w1 w2. sys_open env 0x80000000 (path_world (cache_new (ide_new 1 0))) = Inr (Ret 3, w1) \<and> sys_close 3 w1 = Inr (Ret 0, w2) \<and>
     fdt (my_pcb w2) = fdt first_pcb"
proof -
  let ?env = "demo_env image_disk (image_fs\<lparr>root := Some image_root\<rparr>)" and ?w = "path_world (cache_new (ide_new 1 0))"
  note o = path_world_opens [OF refl refl]
  have str: "user_string ?env (mem ?w) 0x80000000 = Inr (bytes_str [120])" using mem_string_ok [OF o(2)] by (simp add: user_string_def o(13))
  obtain d where "ext2_find 100 (cache_io (ide_io image_disk 1)) (e_fs ?env) (\<lambda>_. 0) (Some image_root) (bytes_str [120]) (dev ?w) = Inr (None, d)"
    using block_device.ext2_find_ok [OF ide_cache_device o(8,12), of image_root 100 "bytes_str [120]" 1 "dev ?w"] o(6,7,9) image_root_fields(2)
    by (auto simp: image_cache(2) o(4) c_string_def)
  then have f: "find_node ?env (if cwd (my_pcb ?w) = None then root (e_fs ?env) else cwd (my_pcb ?w)) (bytes_str [120]) (dev ?w) = Inr (None, d)"
    by (simp add: find_node_def o(3,10-13) first_pcb_def)
  obtain w1 where w1: "sys_open ?env 0x80000000 ?w = Inr (Ret 3, w1)" "fdt (my_pcb w1) ! 3 \<noteq> 0"
    using sys_open_ok [OF o(1) str f] unfolding Let_def o(3,5) by (auto simp: PCB_ARR_SIZE_def first_pcb_def)
  then obtain w2 where w2: "sys_close 3 w1 = Inr (Ret 0, w2)" by (simp add: sys_close_def Let_def PCB_ARR_SIZE_def)
  show ?thesis using open_close_roundtrip [OF o(1) w1(1) _ w2] w1(1) w2 by (auto simp: o(3))
qed

end
