(* ===== verification/SysProcess.thy ===== *)
theory SysProcess
  imports Syscall
begin

text \<open>
  What the system calls for processes and semaphores promise together: \<open>fork\<close>, \<open>exit\<close> and \<open>wait\<close>, the semaphores, \<open>execl\<close>, and the calls that do nothing.
  A thread runs when it is the field \<open>me\<close> of the state.
\<close>

section \<open>Fork, exit and wait\<close>

definition switch_to :: "tcb \<Rightarrow> 's world \<Rightarrow> 's world" where
  "switch_to t w = w\<lparr>me := t\<rparr>"

lemma mem_load_store [simp]: "mem_load (mem_store m a v) a = v"
proof -
  have "length (word_bytes v) = 4" by (simp add: word_bytes_def)
  then show ?thesis using mem_write_same [of "word_bytes v" m a] by (intro mem_load_bytes) (simp add: mem_store_def)
qed

lemma sys_exit_promise:
  assumes "parent_promise (my_pcb w) = h" "h \<noteq> 0" "promises w h = Some pr"
  shows "sys_exit rc w = Inr (Stopped, put_promise h \<lparr>pr_sem = count_up (pr_sem pr), pr_value = rc\<rparr> w)"
  using assms by (simp add: sys_exit_def Let_def)

lemma sys_wait_done:
  assumes "unat i < PCB_ARR_SIZE" "children_promises (my_pcb w) ! unat i = h" "h \<noteq> 0" "promises w h = Some pr" "count_down (pr_sem pr) = Some k"
  shows "\<exists>w'. sys_wait i status w = Inr (Ret 0, w') \<and> mem w' = mem_store (mem w) status (pr_value pr) \<and>
    my_pcb w' = (my_pcb w)\<lparr>children_promises := (children_promises (my_pcb w))[unat i := 0], children := (children (my_pcb w))[unat i := 0]\<rparr>"
  using assms by (simp add: sys_wait_def Let_def mem_def put_defs my_pcb_def cong: if_cong)

lemma sys_wait_blocks:
  "unat i < PCB_ARR_SIZE \<Longrightarrow> children_promises (my_pcb w) ! unat i = h \<Longrightarrow> h \<noteq> 0 \<Longrightarrow> promises w h = Some (promise_new 0) \<Longrightarrow>
   sys_wait i status w = Inr (Blocked, w)"
  by (simp add: sys_wait_def promise_new_def count_down_def Let_def)

lemma sys_wait_null: "unat i \<ge> PCB_ARR_SIZE \<or> children_promises (my_pcb w) ! unat i = 0 \<Longrightarrow> sys_wait i status w = Inr (Ret (- 1), w)"
  by (auto simp: sys_wait_def Let_def)

lemma fork_child:
  assumes "world_ok w" "fdt (my_pcb w) ! 0 \<noteq> 0" "sys_fork pc sp w = Inr (out, w1)"
  shows "\<exists>c pr. out = Ret 200 \<and> world_ok w1 \<and> spawned w1 = spawned w @ [c] \<and> t_pc c = pc \<and> t_sp c = sp \<and> t_um c = t_um (me w) \<and>
    t_pcb c \<noteq> t_pcb (me w) \<and> me w1 = me w \<and> mem w1 = mem w \<and> fdt (my_pcb w1) = fdt (my_pcb w) \<and>
    fdt (my_pcb (switch_to c w1)) = fdt (my_pcb w) \<and> sdt (my_pcb (switch_to c w1)) = sdt (my_pcb w) \<and> cwd (my_pcb (switch_to c w1)) = cwd (my_pcb w) \<and>
    parent_promise (my_pcb (switch_to c w1)) = pr \<and> pr \<noteq> 0 \<and> children_promises (my_pcb w1) ! 0 = pr \<and>
    promises w pr = None \<and> promises w1 pr = Some (promise_new 0) \<and> promises w \<subseteq>\<^sub>m promises w1 \<and>
    length (children_promises (my_pcb w1)) = PCB_ARR_SIZE"
proof -
  obtain ch pr c w' where f: "sys_fork pc sp w = Inr (Ret 200, w')" "world_ok w'" "pcbs w ch = None" "promises w pr = None" "pr \<noteq> 0"
    "my_pcb w' = (my_pcb w)\<lparr>children := (children (my_pcb w))[0 := ch], children_promises := (children_promises (my_pcb w))[0 := pr]\<rparr>"
    "pcbs w' ch = Some c" "cwd c = cwd (my_pcb w)" "fdt c = fdt (my_pcb w)" "sdt c = sdt (my_pcb w)"
    "parent_promise c = pr" "promises w' = (promises w)(pr \<mapsto> promise_new 0)"
    "me w' = me w" "common w' = common w"
    "spawned w' = spawned w @ [\<lparr>t_pcb = ch, t_vme = vme_duplicate (t_vme (me w)), t_um = t_um (me w), t_jiffies = t_jiffies (me w), t_pc = pc, t_sp = sp\<rparr>]"
    using sys_fork_ok [OF assms(1,2), of pc sp] by blast
  have "t_pcb (me w) \<in> dom (pcbs w)" using assms(1) by (simp add: world_ok_def)
  then have ne: "ch \<noteq> t_pcb (me w)" using f(3) by auto
  have l: "length (children_promises (my_pcb w)) = PCB_ARR_SIZE" using my_pcb_ok [OF assms(1)] by (simp add: pcb_ok_def handles_in_def)
  have w1: "w1 = w'" "out = Ret 200" using assms(3) f(1) by simp_all
  have m: "mem w' = mem w" using f(13,14) by (simp add: mem_def cong: if_cong)
  let ?t = "\<lparr>t_pcb = ch, t_vme = vme_duplicate (t_vme (me w)), t_um = t_um (me w), t_jiffies = t_jiffies (me w), t_pc = pc, t_sp = sp\<rparr>"
  have p: "my_pcb (switch_to ?t w') = c" by (simp add: my_pcb_def switch_to_def f(7))
  show ?thesis unfolding w1
    by (intro exI [of _ ?t] exI [of _ pr]) (use f ne l m p in \<open>auto simp: map_le_fresh PCB_ARR_SIZE_def\<close>)
qed

text \<open>
  (C4:fork_exit_wait) \<open>fork\<close> returns 200 and starts a thread with the memory, the descriptors and the semaphores of its parent. Until the child exits, \<open>wait\<close> for it
  blocks. After the child has called \<open>exit\<close>, \<open>wait\<close> stores the exit code where the parent asks for it and
  forgets the child, so that a second \<open>wait\<close> fails.
\<close>

theorem fork_exit_wait:
  assumes "world_ok w" "fdt (my_pcb w) ! 0 \<noteq> 0" "sys_fork pc sp w = Inr (out, w1)"
  shows "\<exists>c w2 w3. out = Ret 200 \<and> spawned w1 = spawned w @ [c] \<and> t_um c = t_um (me w) \<and> fdt (my_pcb (switch_to c w1)) = fdt (my_pcb w) \<and>
    sdt (my_pcb (switch_to c w1)) = sdt (my_pcb w) \<and>
    sys_wait 0 status w1 = Inr (Blocked, w1) \<and>
    sys_exit rc (switch_to c w1) = Inr (Stopped, w2) \<and>
    sys_wait 0 status (switch_to (me w1) w2) = Inr (Ret 0, w3) \<and> mem_load (mem w3) status = rc \<and>
    sys_wait 0 status w3 = Inr (Ret (- 1), w3)"
proof -
  obtain c pr where f: "out = Ret 200" "spawned w1 = spawned w @ [c]" "t_um c = t_um (me w)" "t_pcb c \<noteq> t_pcb (me w)" "me w1 = me w"
    "fdt (my_pcb (switch_to c w1)) = fdt (my_pcb w)" "sdt (my_pcb (switch_to c w1)) = sdt (my_pcb w)"
    "parent_promise (my_pcb (switch_to c w1)) = pr" "pr \<noteq> 0" "children_promises (my_pcb w1) ! 0 = pr" "promises w1 pr = Some (promise_new 0)"
    "length (children_promises (my_pcb w1)) = PCB_ARR_SIZE"
    using fork_child [OF assms] by blast
  let ?pr = "\<lparr>pr_sem = count_up 0, pr_value = rc\<rparr>"
  let ?w2 = "put_promise pr ?pr (switch_to c w1)"
  have b: "sys_wait 0 status w1 = Inr (Blocked, w1)" using sys_wait_blocks [of 0 w1 pr status] f by (simp add: PCB_ARR_SIZE_def)
  have e: "sys_exit rc (switch_to c w1) = Inr (Stopped, ?w2)"
    using sys_exit_promise [OF f(8,9), of "promise_new 0" rc] f(11) by (simp add: switch_to_def promise_new_def)
  let ?v = "switch_to (me w1) ?w2"
  have p: "my_pcb ?v = my_pcb w1" by (simp add: my_pcb_def switch_to_def put_promise_def)
  have d: "promises ?v pr = Some ?pr" "count_down (pr_sem ?pr) = Some 0" by (simp_all add: switch_to_def put_promise_def count_up_def count_down_def)
  obtain w3 where w3: "sys_wait 0 status ?v = Inr (Ret 0, w3)" "mem w3 = mem_store (mem ?v) status rc"
      "my_pcb w3 = (my_pcb w1)\<lparr>children_promises := (children_promises (my_pcb w1))[0 := 0], children := (children (my_pcb w1))[0 := 0]\<rparr>"
    using sys_wait_done [of 0 ?v pr ?pr 0 status] f(9,10) d p by (auto simp: PCB_ARR_SIZE_def)
  have "sys_wait 0 status w3 = Inr (Ret (- 1), w3)" using sys_wait_null [of 0 w3 status] w3(3) f(12) by (simp add: PCB_ARR_SIZE_def)
  then show ?thesis using f b e w3 by (intro exI [of _ c] exI [of _ ?w2] exI [of _ w3]) simp
qed

lemma first_pcb_stdin: "fdt (my_pcb (first_process d)) ! 0 \<noteq> 0"
  by (simp add: first_process_fields first_pcb_def)

theorem fork_exit_wait_witness:
  "\<exists>w1 c w2 w3. sys_fork 0x80000000 0x90000000 (first_process ()) = Inr (Ret 200, w1) \<and> sys_exit 42 (switch_to c w1) = Inr (Stopped, w2) \<and>
     sys_wait 0 0xA0000000 (switch_to (me w1) w2) = Inr (Ret 0, w3) \<and> mem_load (mem w3) 0xA0000000 = 42"
proof -
  obtain w1 where w1: "sys_fork 0x80000000 0x90000000 (first_process ()) = Inr (Ret 200, w1)"
    using sys_fork_ok [OF first_process_ok [of "()"] first_pcb_stdin [of "()"], of "0x80000000" "0x90000000"] by blast
  show ?thesis using fork_exit_wait [OF first_process_ok first_pcb_stdin w1, of "0xA0000000" 42] w1 by blast
qed

text \<open>
  (second_fork_loses_child) Every child gets slot 0. After a second \<open>fork\<close> the promise of the first child is gone: although that child has exited, \<open>wait\<close> with the
  number that both calls of \<open>fork\<close> returned blocks.
\<close>

theorem second_fork_loses_child:
  assumes "world_ok w" "fdt (my_pcb w) ! 0 \<noteq> 0" "sys_fork pc sp w = Inr (out, w1)" "sys_fork pc sp w1 = Inr (out', w2)"
  shows "\<exists>c w3. out = Ret 200 \<and> out' = Ret 200 \<and> spawned w1 = spawned w @ [c] \<and> sys_exit rc (switch_to c w2) = Inr (Stopped, w3) \<and>
    sys_wait 0 status (switch_to (me w2) w3) = Inr (Blocked, switch_to (me w2) w3)"
proof -
  obtain c pr where f: "out = Ret 200" "spawned w1 = spawned w @ [c]" "t_pcb c \<noteq> t_pcb (me w)" "me w1 = me w" "world_ok w1"
    "fdt (my_pcb w1) = fdt (my_pcb w)" "parent_promise (my_pcb (switch_to c w1)) = pr" "pr \<noteq> 0" "promises w1 pr = Some (promise_new 0)"
    using fork_child [OF assms(1-3)] by blast
  have s: "fdt (my_pcb w1) ! 0 \<noteq> 0" using assms(2) f(6) by simp
  obtain c2 pr2 where g: "out' = Ret 200" "me w2 = me w1" "pr2 \<noteq> 0" "children_promises (my_pcb w2) ! 0 = pr2"
    "promises w1 pr2 = None" "promises w2 pr2 = Some (promise_new 0)" "promises w1 \<subseteq>\<^sub>m promises w2"
    using fork_child [OF f(5) s assms(4)] by blast
  have "t_pcb c \<in> dom (pcbs w1)" using f(2,5) by (simp add: world_ok_def)
  then obtain q where q: "pcbs w1 (t_pcb c) = Some q" by blast
  have "pcbs w2 (t_pcb c) = Some q"
  proof -
    obtain ch w' where h: "sys_fork pc sp w1 = Inr (Ret 200, w')" "pcbs w1 ch = None"
        "\<forall>x. x \<noteq> ch \<longrightarrow> x \<noteq> t_pcb (me w1) \<longrightarrow> pcbs w' x = pcbs w1 x"
      using sys_fork_ok [OF f(5) s, of pc sp] by blast
    show ?thesis using h(3) [rule_format, of "t_pcb c"] h(1,2) q f(3,4) assms(4) by (cases "t_pcb c = ch") auto
  qed
  then have pp: "parent_promise (my_pcb (switch_to c w2)) = pr" using f(7) q by (simp add: my_pcb_def switch_to_def)
  have pr: "promises w2 pr = Some (promise_new 0)" "pr \<noteq> pr2" using g(5,7) f(9) by (metis domI map_le_def, auto)
  let ?pr = "\<lparr>pr_sem = count_up 0, pr_value = rc\<rparr>"
  let ?w3 = "put_promise pr ?pr (switch_to c w2)"
  have e: "sys_exit rc (switch_to c w2) = Inr (Stopped, ?w3)"
    using sys_exit_promise [OF pp f(8), of "promise_new 0" rc] pr(1) by (simp add: switch_to_def promise_new_def)
  let ?v = "switch_to (me w2) ?w3"
  have "my_pcb ?v = my_pcb w2" by (simp add: my_pcb_def switch_to_def put_promise_def)
  moreover have "promises ?v pr2 = Some (promise_new 0)" using g(6) pr(2) by (simp add: switch_to_def put_promise_def)
  ultimately have "sys_wait 0 status ?v = Inr (Blocked, ?v)" using g(3,4) by (intro sys_wait_blocks) (simp_all add: PCB_ARR_SIZE_def)
  then show ?thesis using f(1,2) g(1) e by (intro exI [of _ c] exI [of _ ?w3]) simp
qed

theorem second_fork_loses_child_witness:
  "\<exists>w1 w2 c w3. sys_fork 0x80000000 0x90000000 (first_process ()) = Inr (Ret 200, w1) \<and> sys_fork 0x80000000 0x90000000 w1 = Inr (Ret 200, w2) \<and>
     sys_exit 42 (switch_to c w2) = Inr (Stopped, w3) \<and> sys_wait 0 0xA0000000 (switch_to (me w2) w3) = Inr (Blocked, switch_to (me w2) w3)"
proof -
  note ok = first_process_ok [of "()"] first_pcb_stdin [of "()"]
  obtain w1 where w1: "sys_fork 0x80000000 0x90000000 (first_process ()) = Inr (Ret 200, w1)" using sys_fork_ok [OF ok, of "0x80000000" "0x90000000"] by blast
  have k: "world_ok w1" "fdt (my_pcb w1) ! 0 \<noteq> 0" using fork_child [OF ok w1] ok(2) by auto
  obtain w2 where w2: "sys_fork 0x80000000 0x90000000 w1 = Inr (Ret 200, w2)" using sys_fork_ok [OF k, of "0x80000000" "0x90000000"] by blast
  show ?thesis using second_fork_loses_child [OF ok w1 w2, of 42 "0xA0000000"] w1 w2 by blast
qed

section \<open>Semaphores\<close>

fun repeat_down :: "nat \<Rightarrow> u32 \<Rightarrow> 's world \<Rightarrow> 's world option" where
  "repeat_down 0 i w = Some w"
| "repeat_down (Suc k) i w = (case sys_down i w of Inr (Ret r, w') \<Rightarrow> if r = 0 then repeat_down k i w' else None | _ \<Rightarrow> None)"

text \<open>\<open>holds_sem w i n\<close>: descriptor \<open>i\<close> is a semaphore with \<open>n\<close> units.\<close>

definition holds_sem :: "'s world \<Rightarrow> u32 \<Rightarrow> nat \<Rightarrow> bool" where
  "holds_sem w i n \<longleftrightarrow> unat i < PCB_ARR_SIZE \<and> sdt (my_pcb w) ! unat i \<noteq> 0 \<and> (\<exists>c. sems w (sdt (my_pcb w) ! unat i) = Some c \<and> unat c = n)"

lemma sem_file_simps [simp]: "sems (put_sem h n w) = (sems w)(h \<mapsto> n)"
  by (simp add: put_sem_def)

lemma sys_down_ok:
  assumes "holds_sem w i n"
  shows "n = 0 \<Longrightarrow> sys_down i w = Inr (Blocked, w)" "0 < n \<Longrightarrow> \<exists>w'. sys_down i w = Inr (Ret 0, w') \<and> holds_sem w' i (n - 1) \<and> my_pcb w' = my_pcb w"
proof -
  let ?h = "sdt (my_pcb w) ! unat i"
  obtain c where c: "sems w ?h = Some c" "unat c = n" "unat i < PCB_ARR_SIZE" "?h \<noteq> 0" using assms by (auto simp: holds_sem_def)
  show "sys_down i w = Inr (Blocked, w)" if "n = 0"
  proof -
    have "count_down c = None" using c(2) that count_down_possible [of c] by (metis less_irrefl not_None_eq)
    then show ?thesis using c by (simp add: sys_down_def Let_def)
  qed
  show "\<exists>w'. sys_down i w = Inr (Ret 0, w') \<and> holds_sem w' i (n - 1) \<and> my_pcb w' = my_pcb w" if pos: "0 < n"
  proof -
    obtain k where k: "count_down c = Some k" using count_down_possible [of c] pos c(2) by auto
    then have "unat k = n - 1" using c(2) count_down_Some [of c k] by simp
    then show ?thesis using c k by (intro exI [of _ "put_sem ?h k w"]) (simp add: sys_down_def holds_sem_def Let_def)
  qed
qed

lemma sys_up_ok:
  assumes "holds_sem w i n" "n + 1 < 2 ^ 64"
  shows "\<exists>w'. sys_up i w = Inr (Ret 0, w') \<and> holds_sem w' i (n + 1) \<and> my_pcb w' = my_pcb w"
proof -
  let ?h = "sdt (my_pcb w) ! unat i"
  obtain c where c: "sems w ?h = Some c" "unat c = n" "unat i < PCB_ARR_SIZE" "?h \<noteq> 0" using assms by (auto simp: holds_sem_def)
  then have "unat (count_up c) = n + 1" using unat_count_up [of c] assms(2) by simp
  then show ?thesis using c by (intro exI [of _ "put_sem ?h (count_up c) w"]) (simp add: sys_up_def holds_sem_def Let_def)
qed

lemma repeat_down_ok: "holds_sem w i n \<Longrightarrow> k \<le> n \<Longrightarrow> \<exists>w'. repeat_down k i w = Some w' \<and> holds_sem w' i (n - k)"
proof (induction k arbitrary: w n)
  case (Suc k)
  then obtain w1 where "sys_down i w = Inr (Ret 0, w1)" "holds_sem w1 i (n - 1)" using sys_down_ok(2) [of w i n] by auto
  then show ?case using Suc.IH [of w1 "n - 1"] Suc.prems(2) by simp
qed auto

text \<open>
  (sem_counts) \<open>sem\<close> gives the number of the lowest free slot plus 100. From the new semaphore, exactly as many \<open>down\<close>s succeed as it was created with; the
  next one blocks and changes nothing, and after one \<open>up\<close> it succeeds.
\<close>

theorem sem_counts:
  assumes "world_ok w" "first_null (sdt (my_pcb w)) < PCB_ARR_SIZE" "sys_sem n w = Inr (out, w1)"
  shows "let i = of_nat (first_null (sdt (my_pcb w))) in out = Ret (i + 100) \<and>
    (\<exists>w2 w3 w4. repeat_down (unat n) i w1 = Some w2 \<and> sys_down i w2 = Inr (Blocked, w2) \<and>
       sys_up i w2 = Inr (Ret 0, w3) \<and> sys_down i w3 = Inr (Ret 0, w4))"
proof -
  let ?j = "first_null (sdt (my_pcb w))"
  obtain h w0 where m: "make_sem n w = (h, w0)" by (cases "make_sem n w")
  note k = make_sem_ok [OF assms(1) m]
  have p: "my_pcb w0 = my_pcb w" by (rule make_sem_my_pcb [OF m])
  have u: "unat (of_nat ?j :: u32) = ?j" using assms(2) by (intro unat_of_nat_u32) (simp add: PCB_ARR_SIZE_def)
  have l: "length (sdt (my_pcb w)) = PCB_ARR_SIZE" using my_pcb_ok [OF assms(1)] by (simp add: pcb_ok_def handles_in_def)
  have w1: "w1 = put_my_pcb ((my_pcb w)\<lparr>sdt := (sdt (my_pcb w))[?j := h]\<rparr>) w0" "out = Ret (of_nat ?j + 100)"
    using assms(2,3) m p by (simp_all add: sys_sem_def Let_def PCB_ARR_SIZE_def split: if_splits)
  have "unat n < 2 ^ 64" by (rule order_less_trans [OF unat_u32_less]) simp
  then have "unat (ucast n :: sem_count) = unat n" by (simp only: unsigned_ucast_eq) (simp add: take_bit_nat_eq_self)
  then have s: "holds_sem w1 (of_nat ?j) (unat n)" using assms(2) k(3,5) l by (simp add: holds_sem_def u w1(1))
  obtain w2 where w2: "repeat_down (unat n) (of_nat ?j) w1 = Some w2" "holds_sem w2 (of_nat ?j) 0" using repeat_down_ok [OF s order_refl] by auto
  obtain w3 where w3: "sys_up (of_nat ?j) w2 = Inr (Ret 0, w3)" "holds_sem w3 (of_nat ?j) (0 + 1)" using sys_up_ok [OF w2(2)] by auto
  obtain w4 where "sys_down (of_nat ?j) w3 = Inr (Ret 0, w4)" using sys_down_ok(2) [OF w3(2)] by auto
  then show ?thesis using w1(2) w2 w3 sys_down_ok(1) [OF w2(2)] by (auto simp: Let_def)
qed

theorem sem_counts_witness:
  "\<exists>w1 w2. sys_sem 2 (first_process ()) = Inr (Ret 100, w1) \<and> repeat_down 2 0 w1 = Some w2 \<and> sys_down 0 w2 = Inr (Blocked, w2)"
proof -
  have "first_null (replicate k 0) = 0" for k by (cases k) simp_all
  then have f: "first_null (sdt (my_pcb (first_process ()))) = 0" by (simp add: first_process_fields first_pcb_def)
  obtain out w1 where w1: "sys_sem 2 (first_process ()) = Inr (out, w1)"
    by (cases "make_sem 2 (first_process ())") (simp add: sys_sem_def f PCB_ARR_SIZE_def Let_def)
  have l: "first_null (sdt (my_pcb (first_process ()))) < PCB_ARR_SIZE" by (simp add: f PCB_ARR_SIZE_def)
  show ?thesis using sem_counts [OF first_process_ok l w1] w1 by (auto simp: Let_def f)
qed

section \<open>Calls without effect\<close>

definition call_numbers :: "u32 list" where
  "call_numbers = [0, 1, 2, 3, 4, 5, 6, 7, 8, 9, 10, 11, 12, 13, 100, 101, 102, 103]"

text \<open>
  (sysHandler_guards) A number that no call has returns -1 and changes nothing. A stack pointer outside the private part of memory ends the thread before
  anything is read from the stack, and reports -1 to its parent.
\<close>

theorem sysHandler_guards:
  "(user_sp < 0x80000000 \<or> 0xF0000000 \<le> user_sp \<longrightarrow> sysHandler env eax pc user_sp w = sys_exit (- 1) w) \<and>
   (0x80000000 \<le> user_sp \<and> user_sp < 0xF0000000 \<and> eax \<notin> set call_numbers \<longrightarrow> sysHandler env eax pc user_sp w = Inr (Ret (- 1), w))"
  by (auto simp: sysHandler_def call_numbers_def not_less not_le Let_def)

theorem sysHandler_guards_witness:
  "sysHandler (demo_env ramp_disk image_fs) 418 0 0x90000000 (first_process (cache_new (ide_new 1 0))) = Inr (Ret (- 1), first_process (cache_new (ide_new 1 0)))"
proof -
  have "(418 :: u32) \<notin> set call_numbers" by (simp add: call_numbers_def)
  then show ?thesis using sysHandler_guards [of "0x90000000" "demo_env ramp_disk image_fs" 418 0 "first_process (cache_new (ide_new 1 0))"]
    by (simp add: word_le_nat_alt word_less_nat_alt)
qed

text \<open>
  (address_valid_lower_bound) The check of user buffers tests only their first byte: the second comparison always holds, so a buffer may
  reach past the end of the address space.
\<close>

theorem address_valid_lower_bound: "address_valid addr sz \<longleftrightarrow> 0x80000000 \<le> addr"
proof -
  have "(0xFFFFFFFF :: u32) = - 1" by simp
  then have "addr + sz \<le> 0xFFFFFFFF" by (simp only: word_order.extremum)
  then show ?thesis by (simp add: address_valid_def)
qed

text \<open>
  (wait_writes_kernel_memory) \<open>wait\<close> does not check its second argument: with an address below the private part, the exit code of the child overwrites memory that all threads and
  the kernel share.
\<close>

theorem wait_writes_kernel_memory:
  assumes "unat i < PCB_ARR_SIZE" "children_promises (my_pcb w) ! unat i = h" "h \<noteq> 0" "promises w h = Some pr" "count_down (pr_sem pr) = Some k"
    and "status < 0x80000000"
  shows "\<exists>w'. sys_wait i status w = Inr (Ret 0, w') \<and> common w' status = ucast (pr_value pr)"
proof -
  obtain w' where w': "sys_wait i status w = Inr (Ret 0, w')" "mem w' = mem_store (mem w) status (pr_value pr)"
    using sys_wait_done [OF assms(1-5), of status] by blast
  have "\<not> private_address status" using assms(6) by (auto simp: private_address_def)
  then have "common w' status = mem w' status" by (simp add: mem_def)
  then show ?thesis using w' by (simp add: mem_store_def mem_write_def word_bytes_def)
qed

section \<open>Executing a program\<close>

text \<open>The argument pointers from the \<open>i\<close>-th on, with the strings they point to.\<close>

fun args_in :: "memory \<Rightarrow> u32 \<Rightarrow> u32 \<Rightarrow> string list \<Rightarrow> bool" where
  "args_in m argv i [] \<longleftrightarrow> mem_load m (argv + 4 * i) = 0"
| "args_in m argv i (a # args) \<longleftrightarrow>
     (let p = mem_load m (argv + 4 * i) in 0x80000000 \<le> unat p \<and> unat p + length a < 0xF0000000 \<and> c_string a \<and>
        mem_bytes m p (length a + 1) = arg_bytes a \<and> args_in m argv (i + 1) args)"

lemma bytes_str_str_bytes: "bytes_str (str_bytes a) = a"
proof -
  have "char_of (unat (of_char c :: u8)) = c" for c :: char
  proof -
    have "(of_char c :: u8) = of_nat (of_char c)" by (simp add: of_nat_of_char)
    then have "unat (of_char c :: u8) = of_char c" by (simp only: unat_of_nat) simp
    then show ?thesis by simp
  qed
  then show ?thesis by (simp add: bytes_str_def str_bytes_def comp_def)
qed

lemma exec_args_ok:
  "args_in m argv i args \<Longrightarrow> length args \<le> n \<Longrightarrow> \<forall>a \<in> set args. length a \<le> e_bound env \<Longrightarrow> exec_args n env m argv i = Inr (Some args)"
proof (induction args arbitrary: i n)
  case Nil
  then show ?case by (simp add: exec_args.simps [of n])
next
  case (Cons a args)
  define p where "p = mem_load m (argv + 4 * i)"
  have a: "0x80000000 \<le> unat p" "unat p + length a < 0xF0000000" "c_string a" "mem_bytes m p (length a + 1) = arg_bytes a"
    "args_in m argv (i + 1) args" using Cons.prems(1) by (simp_all add: p_def Let_def)
  obtain n' where n: "n = Suc n'" "length args \<le> n'" using Cons.prems(2) by (cases n) auto
  have z: "0 \<notin> set (str_bytes a)" using a(3) by (auto simp: c_string_def str_bytes_def of_char_u8_eq_0)
  have l: "length (str_bytes a) = length a" by (simp add: str_bytes_def)
  have "mem_bytes m p (length (str_bytes a) + 1) = str_bytes a @ [0]" using a(4) by (simp add: l arg_bytes_def)
  then have s: "user_string env m p = Inr a"
    using mem_string_ok [of m p "str_bytes a" "e_bound env"] z Cons.prems(3) by (simp add: user_string_def l bytes_str_str_bytes)
  have "unat p + unat (of_nat (length a) :: u32) < 0xF0000000" using a(2) unat_of_nat_u32 [of "length a"] by simp
  then have "\<not> p + of_nat (length a) \<ge> 0xF0000000" using unat_plus_no_wrap [of p "of_nat (length a)"] by (simp add: word_le_nat_alt)
  moreover have "p \<noteq> 0" "\<not> p < 0x80000000" using a(1) by (auto simp: word_less_nat_alt)
  moreover have "exec_args n' env m argv (i + 1) = Inr (Some args)" using Cons.IH [OF a(5) n(2)] Cons.prems(3) by simp
  ultimately show ?case using s by (subst exec_args.simps) (simp add: p_def [symmetric] n(1) Let_def)
qed


subsection \<open>A disk with a program\<close>

text \<open>The disk of \<open>Ext2Find\<close> with a second name \<open>x\<close> in its root: i-node 3, with the program of \<open>Loader\<close> in block 5.\<close>

definition exec_bytes :: "(nat \<times> u8) list" where
  "exec_bytes =
     [(3201, 0x40), (3204, 24), (3240, 4), (3329, 0x80), (3332, 100), (3368, 5),
      (4096, 2), (4100, 12), (4102, 1), (4104, 46), (4108, 3), (4112, 12), (4114, 1), (4116, 120)] @
     map (\<lambda>(a, b). (a + 3072, b)) program_bytes"

definition exec_image :: "nat \<Rightarrow> u8" where
  "exec_image a = (case map_of exec_bytes a of None \<Rightarrow> 0 | Some b \<Rightarrow> b)"

definition exec_disk :: ide_hw where
  "exec_disk = ramp_disk\<lparr>hw_words := (\<lambda>p c b i. le32 (bytes_at exec_image (unat b * 512 + 4 * i) 4))\<rparr>"

lemma exec_byte: "a < 2 ^ 32 \<Longrightarrow> disk_byte exec_disk dr a = exec_image a"
  by (rule disk_byte_words) (simp_all add: exec_disk_def)

lemma bytes_at_exec: "a + n \<le> 2 ^ 32 \<Longrightarrow> bytes_at (disk_byte exec_disk dr) a n = bytes_at exec_image a n"
  unfolding bytes_at_def by (rule map_cong) (auto intro!: exec_byte)

definition exec_root :: node where "exec_root = node_at (disk_byte exec_disk 1) image_fs 2"
definition exec_prog :: node where "exec_prog = node_at (disk_byte exec_disk 1) image_fs 3"

lemma exec_offsets: "inode_ok image_fs disk_limit 3" "inode_offset image_fs 3 = 3328"
  by (simp_all add: inode_ok_def inode_offset_def image_fs_def word_le_nat_alt)

lemma exec_fields:
  "mode (data exec_root) = 0x4000" "size_low (data exec_root) = 24" "n_block_size exec_root = 1024"
  "length (direct (data exec_root)) = 12" "direct (data exec_root) ! 0 = 4"
  "mode (data exec_prog) = 0x8000" "size_low (data exec_prog) = 100" "n_block_size exec_prog = 1024"
  "length (direct (data exec_prog)) = 12" "direct (data exec_prog) ! 0 = 5"
  by (simp_all add: exec_root_def exec_prog_def node_at_def image_inode exec_offsets bytes_at_exec node_data_of_def u_at_bytes)
    (simp_all add: bytes_at_def le32_def le16_def upt_rec exec_image_def exec_bytes_def program_bytes_def image_fs_def)

lemma exec_types: "is_dir (data exec_root)" "\<not> is_symlink (data exec_root)" "\<not> is_dir (data exec_prog)" "\<not> is_symlink (data exec_prog)"
  by (simp_all add: is_dir_def is_symlink_def get_type_def exec_fields drop_bit_eq_div)

text \<open>A node of one block is well formed, and its bytes are those of the block.\<close>

lemma one_block_wf:
  assumes "n_block_size nd = 1024" "length (direct (data nd)) = 12" "unat (size_low (data nd)) \<le> 1024" "unat (direct (data nd) ! 0) * 1024 + 1024 \<le> lim"
  shows "node_wf c lim nd"
proof -
  have "p = 0 \<or> unat p * 1024 + 1024 \<le> lim" if "l * 1024 < unat (size_low (data nd))" "p \<in> set (ref_path c nd l)" for l p
  proof -
    have "l = 0" using that(1) assms(3) by linarith
    then show ?thesis using that(2) assms(4) by (simp add: ref_path_def Let_def)
  qed
  then show ?thesis using assms(1,2) by (simp add: node_wf_def Let_def)
qed

lemma one_block_byte:
  "n_block_size nd = 1024 \<Longrightarrow> direct (data nd) ! 0 = b \<Longrightarrow> b \<noteq> 0 \<Longrightarrow> a < 1024 \<Longrightarrow> node_byte c nd a = c (unat b * 1024 + a)"
  by (simp add: node_byte_def block_ref_def ref_path_def Let_def)

lemma exec_wf: "node_wf c disk_limit exec_root" "node_wf c disk_limit exec_prog"
  by (rule one_block_wf; simp add: exec_fields)+

lemma exec_node_bytes:
  "a < 1024 \<Longrightarrow> node_byte (disk_byte exec_disk 1) exec_root a = exec_image (4096 + a)"
  "a < 1024 \<Longrightarrow> node_byte (disk_byte exec_disk 1) exec_prog a = exec_image (5120 + a)"
  using one_block_byte [of exec_root 4 a] one_block_byte [of exec_prog 5 a] by (simp_all add: exec_fields exec_byte)

lemma bytes_at_exec_node:
  "a + n \<le> 1024 \<Longrightarrow> bytes_at (node_byte (disk_byte exec_disk 1) exec_root) a n = bytes_at exec_image (4096 + a) n"
  "a + n \<le> 1024 \<Longrightarrow> bytes_at (node_byte (disk_byte exec_disk 1) exec_prog) a n = bytes_at exec_image (5120 + a) n"
  unfolding bytes_at_def by (intro nth_equalityI; auto simp: exec_node_bytes add.assoc)+

lemma exec_list: "dir_list (disk_byte exec_disk 1) exec_root = Some [(2, [46]), (3, [120])]"
proof -
  have v: "bytes_at exec_image 4096 4 = [2, 0, 0, 0]" "bytes_at exec_image 4100 2 = [12, 0]" "exec_image 4102 = 1" "bytes_at exec_image 4104 (Suc 0) = [46]"
    "bytes_at exec_image 4108 4 = [3, 0, 0, 0]" "bytes_at exec_image 4112 2 = [12, 0]" "exec_image 4114 = 1" "bytes_at exec_image 4116 (Suc 0) = [120]"
    by (simp_all add: bytes_at_def upt_rec exec_image_def exec_bytes_def program_bytes_def)
  show ?thesis
    by (simp add: dir_list_def exec_fields dir_parse.simps bytes_at_exec_node exec_node_bytes v Let_def le16_def le32_def)
qed

lemma exec_readable: "readable (disk_byte exec_disk 1) disk_limit (image_fs\<lparr>root := Some exec_root\<rparr>) {exec_root, exec_prog}"
proof -
  have "inode_ok (image_fs\<lparr>root := Some exec_root\<rparr>) disk_limit i \<longleftrightarrow> inode_ok image_fs disk_limit i"
    "node_at (disk_byte exec_disk 1) (image_fs\<lparr>root := Some exec_root\<rparr>) i = node_at (disk_byte exec_disk 1) image_fs i" for i
    by (simp_all add: inode_ok_def inode_offset_def node_at_def)
  then show ?thesis using image_inode(1) exec_offsets(1) exec_wf exec_types exec_list by (simp add: readable_def exec_root_def exec_prog_def)
qed

lemma exec_resolve:
  "resolve (disk_byte exec_disk 1) (image_fs\<lparr>root := Some exec_root\<rparr>) exec_root (components ''x'') 0 exec_root = Some exec_prog"
proof -
  have "lookup (disk_byte exec_disk 1) (image_fs\<lparr>root := Some exec_root\<rparr>) exec_root (str_bytes ''x'') = Some exec_prog"
    by (simp add: lookup_def exec_list str_bytes_def) (simp add: exec_prog_def node_at_def inode_offset_def)
  then show ?thesis using exec_types by (simp add: components_def segments_def resolve.simps)
qed

lemma exec_program_ok:
  "elf_header_of (bytes_at (node_byte (disk_byte exec_disk 1) exec_prog) 0 52) =
    \<lparr>magic = [0x7f, 0x45, 0x4c, 0x46], entry = 0x80000000, phoff = 52, phentsize = 32, phnum = 1\<rparr>"
  "program_ok (node_byte (disk_byte exec_disk 1) exec_prog) 100"
proof -
  have h: "elf_header_of (bytes_at exec_image 5120 52) = \<lparr>magic = [0x7f, 0x45, 0x4c, 0x46], entry = 0x80000000, phoff = 52, phentsize = 32, phnum = 1\<rparr>"
    and p: "program_header_of (bytes_at exec_image 5172 32) = \<lparr>ph_type = 1, ph_offset = 84, vaddr = 0x80000000, filesz = 8, memsz = 12\<rparr>"
    by (simp_all add: elf_header_of_def program_header_of_def u_at_bytes bytes_at_slice [of 0, simplified])
      (simp_all add: bytes_at_def le32_def le16_def upt_rec exec_image_def exec_bytes_def program_bytes_def)
  show hd: "elf_header_of (bytes_at (node_byte (disk_byte exec_disk 1) exec_prog) 0 52) =
      \<lparr>magic = [0x7f, 0x45, 0x4c, 0x46], entry = 0x80000000, phoff = 52, phentsize = 32, phnum = 1\<rparr>"
    by (simp add: bytes_at_exec_node h)
  have "elf_headers (node_byte (disk_byte exec_disk 1) exec_prog) = [\<lparr>ph_type = 1, ph_offset = 84, vaddr = 0x80000000, filesz = 8, memsz = 12\<rparr>]"
    by (simp add: elf_headers_def hd) (simp add: bytes_at_exec_node p)
  then show "program_ok (node_byte (disk_byte exec_disk 1) exec_prog) 100"
    unfolding program_ok_def hd by (simp add: segment_ok_def word_le_nat_alt)
qed

text \<open>User memory with the path, and a vector of one argument that is the same string.\<close>

definition exec_world :: "ide cache world" where
  "exec_world = set_mem (mem_write (mem_write (\<lambda>_. 0) 0x80000000 [120, 0]) 0x90000000 [0, 0, 0, 0x80]) (first_process (cache_new (ide_new 1 0)))"


end
