(* ===== verification/Boot.thy ===== *)
theory Boot
  imports SysProcess
begin

text \<open>
  The start of the first user program, \<open>kernelMain\<close> of \<open>kernel/kernel.cc\<close>: it mounts the file system of the second disk, finds \<open>/sbin/init\<close>, loads it, makes a stack and enters it.

  The address space and the memory are those of the thread that runs \<open>kernelMain\<close>. The result says where the processor enters user mode.
\<close>

definition kernelMain ::
  "ide_hw \<Rightarrow> nat \<Rightarrow> nat \<Rightarrow> (nat \<Rightarrow> u8) \<Rightarrow> vme \<Rightarrow> memory \<Rightarrow> (((u32 \<times> u32) \<times> ext2 \<times> vme \<times> memory) \<times> ide cache) res" where
  "kernelMain hw fuel bound junk v um =
     bindR (ext2_mount (ide_io hw fuel) (ide_new 1 0)) (\<lambda>(fs, c).
     bindR (ext2_find bound (cache_io (ide_io hw fuel)) fs junk (root fs) ''/sbin/init'' c) (\<lambda>(init, c1).
     case init of
       None \<Rightarrow> Inl (AssertFail ''ptr != nullptr'')
     | Some prog \<Rightarrow>
         bindR (elf_load (node_io (cache_io (ide_io hw fuel)) prog) v um c1) (\<lambda>((e, v1, um1), c2).
         let (stack_start, v2) = add_entry v1 stack_size 0 0 False;
             userEsp = stack_start + stack_size - 16;
             (esp, um2) = load_args userEsp [''init''] um1
         in bindR (assertR (esp mod 16 = 0) ''userEsp % 16 == 0'') (\<lambda>_. Inr (((e, esp), fs, v2, um2), c2)))))"

section \<open>Alignment\<close>

definition aligned_vme :: "vme \<Rightarrow> bool" where
  "aligned_vme v \<longleftrightarrow> 4096 dvd v_avail v \<and> (\<forall>f \<in> set (v_free_entries v). 4096 dvd f_start f)"

lemma dvd_unat_word: "4096 dvd unat (x :: u32) \<Longrightarrow> 4096 dvd x"
proof -
  assume "4096 dvd unat x"
  then obtain k where k: "unat x = 4096 * k" by (rule dvdE)
  have "x = of_nat (unat x)" by simp
  also have "\<dots> = 4096 * of_nat k" by (simp only: k of_nat_mult of_nat_numeral)
  finally have "x = 4096 * of_nat k" .
  then show ?thesis by (rule dvdI)
qed

lemma vme_ok_aligned: "vme_ok lo v \<Longrightarrow> aligned_vme v"
  by (auto simp: aligned_vme_def vme_ok_def frees_ok_def flo_def intro!: dvd_unat_word)

lemma take_free_aligned:
  "take_free n fs = (va, fs') \<Longrightarrow> \<forall>f \<in> set fs. 4096 dvd f_start f \<Longrightarrow> 4096 dvd va \<and> (\<forall>f \<in> set fs'. 4096 dvd f_start f)"
  by (induction n fs arbitrary: va fs' rule: take_free.induct) (auto simp: Let_def FRAME_SIZE_def split: if_splits prod.splits)

lemma add_entry_aligned:
  assumes "aligned_vme v" "add_entry v sz nd off user = (va, v')"
  shows "4096 dvd va \<and> aligned_vme v'"
proof -
  obtain va0 fs where t: "take_free (required_pages sz) (v_free_entries v) = (va0, fs)" by (cases "take_free (required_pages sz) (v_free_entries v)")
  show ?thesis
    using assms take_free_aligned [OF t] by (auto simp: aligned_vme_def add_entry_def t Let_def FRAME_SIZE_def split: if_splits)
qed

lemma segment_areas_aligned: "aligned_vme v \<Longrightarrow> aligned_vme (segment_areas v ph)"
  using add_entry_aligned by (auto simp: segment_areas_def) (metis prod.collapse)+

lemma areas_aligned: "aligned_vme v \<Longrightarrow> aligned_vme (fold (\<lambda>ph v. segment_areas v ph) hs v)"
  by (induction hs arbitrary: v) (auto simp: segment_areas_aligned)

lemma word_dvd_mod: "16 dvd (x :: u32) \<Longrightarrow> x mod 16 = 0"
proof -
  assume "16 dvd x"
  then obtain k where "x = 16 * k" by (rule dvdE)
  then have "x = push_bit 4 k" by (simp add: push_bit_eq_mult mult.commute)
  then have "take_bit 4 x = 0" by (simp add: take_bit_push_bit)
  then show ?thesis by (simp add: take_bit_eq_mod)
qed

lemma stack_aligned:
  assumes "4096 dvd va"
  shows "fst (load_args (va + stack_size - 16) args um) mod 16 = 0"
proof -
  have "(4096 :: u32) = 16 * 256" by simp
  then have "16 dvd va" using assms dvd_trans [of 16 4096 va] by (metis dvd_triv_left)
  moreover have "(stack_size :: u32) = 16 * 8388608" by (simp add: stack_size_def)
  then have "16 dvd stack_size" by (metis dvd_triv_left)
  ultimately have "16 dvd va + stack_size - 16 - 4 * (q * 16)" for q by (intro dvd_diff dvd_add dvd_mult) simp_all
  then show ?thesis by (intro word_dvd_mod) (simp add: load_args_def Let_def)
qed

section \<open>From the disk to user mode\<close>


subsection \<open>A disk to start from\<close>

text \<open>
  The disk of \<open>Ext2Find\<close> with a directory \<open>sbin\<close> (i-node 3, block 5) in its root, and in it the program of \<open>Loader\<close> under the name \<open>init\<close> (i-node 4, block 6).
\<close>

definition boot_bytes :: "(nat \<times> u8) list" where
  "boot_bytes =
     [(1024, 8), (1028, 100), (1056, 100), (1064, 8), (1112, 128), (2056, 3),
      (3201, 0x40), (3204, 27), (3240, 4), (3329, 0x40), (3332, 12), (3368, 5), (3457, 0x80), (3460, 100), (3496, 6),
      (4096, 2), (4100, 12), (4102, 1), (4104, 46), (4108, 3), (4112, 15), (4114, 4), (4116, 115), (4117, 98), (4118, 105), (4119, 110),
      (5120, 4), (5124, 12), (5126, 4), (5128, 105), (5129, 110), (5130, 105), (5131, 116)] @
     map (\<lambda>(a, b). (a + 4096, b)) program_bytes"

definition boot_image :: "nat \<Rightarrow> u8" where
  "boot_image a = (case map_of boot_bytes a of None \<Rightarrow> 0 | Some b \<Rightarrow> b)"

definition boot_disk :: ide_hw where
  "boot_disk = ramp_disk\<lparr>hw_words := (\<lambda>p c b i. le32 (bytes_at boot_image (unat b * 512 + 4 * i) 4))\<rparr>"

lemma boot_byte: "a < 2 ^ 32 \<Longrightarrow> disk_byte boot_disk dr a = boot_image a"
  by (rule disk_byte_words) (simp_all add: boot_disk_def)

lemma bytes_at_boot: "a + n \<le> 2 ^ 32 \<Longrightarrow> bytes_at (disk_byte boot_disk dr) a n = bytes_at boot_image a n"
  unfolding bytes_at_def by (rule map_cong) (auto intro!: boot_byte)

definition boot_node :: "u32 \<Rightarrow> node" where "boot_node i = node_at (disk_byte boot_disk 1) image_fs i"

lemma boot_sb_fields:
  "inodes_count (super_block_of (bytes_at boot_image 1024 140)) = 8" "blocks_count (super_block_of (bytes_at boot_image 1024 140)) = 100"
  "log_block_size (super_block_of (bytes_at boot_image 1024 140)) = 0" "blocks_per_group (super_block_of (bytes_at boot_image 1024 140)) = 100"
  "inodes_per_group (super_block_of (bytes_at boot_image 1024 140)) = 8" "inode_size (super_block_of (bytes_at boot_image 1024 140)) = 128"
  by (simp_all add: super_block_of_def u_at_bytes)
    (simp_all add: bytes_at_def le32_def le16_def upt_rec boot_image_def boot_bytes_def program_bytes_def)

lemma boot_mounted: "mounted (disk_byte boot_disk dr) = image_fs"
proof -
  have t: "inode_table (block_group_of (bytes_at boot_image 2048 32)) = 3"
    by (simp add: block_group_of_def u_at_bytes) (simp add: bytes_at_def le32_def upt_rec boot_image_def boot_bytes_def program_bytes_def)
  show ?thesis
    by (simp add: mounted_def Let_def bytes_at_boot boot_sb_fields image_fs_def group_table_def t)
qed

lemma boot_mountable: "mountable (disk_byte boot_disk 1) disk_limit"
  using image_inode(1)
  by (simp add: mountable_def Let_def boot_mounted bytes_at_boot boot_sb_fields)
    (simp add: image_fs_def group_table_def word_less_nat_alt word_le_nat_alt)

lemma boot_inodes: "inode_ok image_fs disk_limit 3" "inode_ok image_fs disk_limit 4" "inode_offset image_fs 3 = 3328" "inode_offset image_fs 4 = 3456"
  by (simp_all add: inode_ok_def inode_offset_def image_fs_def word_le_nat_alt)

lemma boot_fields:
  "n_block_size (boot_node i) = 1024"
  "mode (data (boot_node 2)) = 0x4000" "size_low (data (boot_node 2)) = 27" "length (direct (data (boot_node 2))) = 12" "direct (data (boot_node 2)) ! 0 = 4"
  "mode (data (boot_node 3)) = 0x4000" "size_low (data (boot_node 3)) = 12" "length (direct (data (boot_node 3))) = 12" "direct (data (boot_node 3)) ! 0 = 5"
  "mode (data (boot_node 4)) = 0x8000" "size_low (data (boot_node 4)) = 100" "length (direct (data (boot_node 4))) = 12" "direct (data (boot_node 4)) ! 0 = 6"
  by (simp_all add: boot_node_def node_at_def image_inode boot_inodes bytes_at_boot node_data_of_def u_at_bytes)
    (simp_all add: bytes_at_def le32_def le16_def upt_rec boot_image_def boot_bytes_def program_bytes_def image_fs_def)

lemma boot_types:
  "is_dir (data (boot_node 2))" "is_dir (data (boot_node 3))" "\<not> is_dir (data (boot_node 4))"
  "\<not> is_symlink (data (boot_node 2))" "\<not> is_symlink (data (boot_node 3))" "\<not> is_symlink (data (boot_node 4))"
  by (simp_all add: is_dir_def is_symlink_def get_type_def boot_fields drop_bit_eq_div)

lemma boot_wf: "node_wf c disk_limit (boot_node 2)" "node_wf c disk_limit (boot_node 3)" "node_wf c disk_limit (boot_node 4)"
  by (rule one_block_wf; simp add: boot_fields)+

lemma boot_node_bytes:
  "a < 1024 \<Longrightarrow> node_byte (disk_byte boot_disk 1) (boot_node 2) a = boot_image (4096 + a)"
  "a < 1024 \<Longrightarrow> node_byte (disk_byte boot_disk 1) (boot_node 3) a = boot_image (5120 + a)"
  "a < 1024 \<Longrightarrow> node_byte (disk_byte boot_disk 1) (boot_node 4) a = boot_image (6144 + a)"
  using one_block_byte [of "boot_node 2" 4 a] one_block_byte [of "boot_node 3" 5 a] one_block_byte [of "boot_node 4" 6 a] by (simp_all add: boot_fields boot_byte)

lemma bytes_at_boot_node:
  "a + n \<le> 1024 \<Longrightarrow> bytes_at (node_byte (disk_byte boot_disk 1) (boot_node 2)) a n = bytes_at boot_image (4096 + a) n"
  "a + n \<le> 1024 \<Longrightarrow> bytes_at (node_byte (disk_byte boot_disk 1) (boot_node 3)) a n = bytes_at boot_image (5120 + a) n"
  "a + n \<le> 1024 \<Longrightarrow> bytes_at (node_byte (disk_byte boot_disk 1) (boot_node 4)) a n = bytes_at boot_image (6144 + a) n"
  unfolding bytes_at_def by (intro nth_equalityI; auto simp: boot_node_bytes add.assoc)+

definition boot_fs :: ext2 where "boot_fs = image_fs\<lparr>root := Some (boot_node 2)\<rparr>"

lemma boot_lists:
  "dir_list (disk_byte boot_disk 1) (boot_node 2) = Some [(2, [46]), (3, [115, 98, 105, 110])]"
  "dir_list (disk_byte boot_disk 1) (boot_node 3) = Some [(4, [105, 110, 105, 116])]"
proof -
  have v: "bytes_at boot_image 4096 4 = [2, 0, 0, 0]" "bytes_at boot_image 4100 2 = [12, 0]" "boot_image 4102 = 1" "bytes_at boot_image 4104 (Suc 0) = [46]"
    "bytes_at boot_image 4108 4 = [3, 0, 0, 0]" "bytes_at boot_image 4112 2 = [15, 0]" "boot_image 4114 = 4" "bytes_at boot_image 4116 4 = [115, 98, 105, 110]"
    "bytes_at boot_image 5120 4 = [4, 0, 0, 0]" "bytes_at boot_image 5124 2 = [12, 0]" "boot_image 5126 = 4" "bytes_at boot_image 5128 4 = [105, 110, 105, 116]"
    by (simp_all add: bytes_at_def upt_rec boot_image_def boot_bytes_def program_bytes_def)
  show "dir_list (disk_byte boot_disk 1) (boot_node 2) = Some [(2, [46]), (3, [115, 98, 105, 110])]"
    by (simp add: dir_list_def boot_fields dir_parse.simps bytes_at_boot_node boot_node_bytes v Let_def le16_def le32_def)
  show "dir_list (disk_byte boot_disk 1) (boot_node 3) = Some [(4, [105, 110, 105, 116])]"
    by (simp add: dir_list_def boot_fields dir_parse.simps bytes_at_boot_node boot_node_bytes v Let_def le16_def le32_def)
qed

lemma boot_fs_nodes: "inode_ok boot_fs lim i \<longleftrightarrow> inode_ok image_fs lim i" "node_at (disk_byte boot_disk 1) boot_fs i = boot_node i"
  by (simp_all add: boot_fs_def boot_node_def inode_ok_def inode_offset_def node_at_def)

lemma boot_readable: "readable (disk_byte boot_disk 1) disk_limit boot_fs {boot_node 2, boot_node 3, boot_node 4}"
  using image_inode(1) boot_inodes(1,2) boot_wf boot_types boot_lists by (simp add: readable_def boot_fs_nodes)

lemma boot_resolve: "resolve (disk_byte boot_disk 1) boot_fs (boot_node 2) (components ''/sbin/init'') 0 (boot_node 2) = Some (boot_node 4)"
proof -
  have "lookup (disk_byte boot_disk 1) boot_fs (boot_node 2) (str_bytes ''sbin'') = Some (boot_node 3)"
    "lookup (disk_byte boot_disk 1) boot_fs (boot_node 3) (str_bytes ''init'') = Some (boot_node 4)"
    by (simp_all add: lookup_def boot_lists str_bytes_def boot_fs_nodes)
  then show ?thesis using boot_types by (simp add: components_def segments_def resolve.simps)
qed

lemma boot_program_ok:
  "elf_header_of (bytes_at (node_byte (disk_byte boot_disk 1) (boot_node 4)) 0 52) =
    \<lparr>magic = [0x7f, 0x45, 0x4c, 0x46], entry = 0x80000000, phoff = 52, phentsize = 32, phnum = 1\<rparr>"
  "program_ok (node_byte (disk_byte boot_disk 1) (boot_node 4)) 100"
proof -
  have h: "elf_header_of (bytes_at boot_image 6144 52) = \<lparr>magic = [0x7f, 0x45, 0x4c, 0x46], entry = 0x80000000, phoff = 52, phentsize = 32, phnum = 1\<rparr>"
    and p: "program_header_of (bytes_at boot_image 6196 32) = \<lparr>ph_type = 1, ph_offset = 84, vaddr = 0x80000000, filesz = 8, memsz = 12\<rparr>"
    by (simp_all add: elf_header_of_def program_header_of_def u_at_bytes bytes_at_slice [of 0, simplified])
      (simp_all add: bytes_at_def le32_def le16_def upt_rec boot_image_def boot_bytes_def program_bytes_def)
  show hd: "elf_header_of (bytes_at (node_byte (disk_byte boot_disk 1) (boot_node 4)) 0 52) =
      \<lparr>magic = [0x7f, 0x45, 0x4c, 0x46], entry = 0x80000000, phoff = 52, phentsize = 32, phnum = 1\<rparr>"
    by (simp add: bytes_at_boot_node h)
  have "elf_headers (node_byte (disk_byte boot_disk 1) (boot_node 4)) = [\<lparr>ph_type = 1, ph_offset = 84, vaddr = 0x80000000, filesz = 8, memsz = 12\<rparr>]"
    by (simp add: elf_headers_def hd) (simp add: bytes_at_boot_node p)
  then show "program_ok (node_byte (disk_byte boot_disk 1) (boot_node 4)) 100"
    unfolding program_ok_def hd by (simp add: segment_ok_def word_le_nat_alt)
qed


end
