(* ===== verification/UserPrintf.thy ===== *)
theory UserPrintf
  imports Syscall Snprintf
begin

text \<open>
  Output of the user programs: \<open>putchar\<close> and \<open>puts\<close> of \<open>my-test.dir/sbin/libc.c\<close>, and \<open>printf\<close> of \<open>my-test.dir/sbin/printf.c\<close>. The latter is the code of \<open>kernel/snprintf.cc\<close> with another sink:
  every character is one system call \<open>write\<close> to descriptor 1, made while the format is read. What does no output (the states of the format reader, the conversion of numbers to digits) is shared with
  \<open>Snprintf\<close>; what does is written out here over the world of the system calls.

  \<open>wr\<close> is the system call, as the stub of \<open>sys.S\<close> passes it on, and \<open>t\<close> the address of the variable of \<open>putchar\<close>, on the user stack. Strings and formats are values: they do not overlap this
  variable. The field \<open>out\<close> of the formatter's state is not used, since the characters go out at once.
\<close>

section \<open>Definitions\<close>

type_synonym 's ucall = "u32 \<Rightarrow> u32 \<Rightarrow> u32 \<Rightarrow> 's call"
type_synonym ('f, 's) prints = "(('f dopr_state) \<times> 's world) res"

definition call_result :: "(outcome \<times> 's world) res \<Rightarrow> (u32 \<times> 's world) res" where
  "call_result r = bindR r (\<lambda>(oc, w). case oc of Ret v \<Rightarrow> Inr (v, w) | _ \<Rightarrow> Inl (Undef ''the call does not return''))"

definition putchar :: "'s ucall \<Rightarrow> u32 \<Rightarrow> u8 \<Rightarrow> 's world \<Rightarrow> (u32 \<times> 's world) res" where
  "putchar wr t c w = call_result (wr 1 t 1 (set_mem ((mem w)(t := c)) w))"

text \<open>One unit of fuel per character of the string.\<close>

fun puts :: "nat \<Rightarrow> 's ucall \<Rightarrow> u32 \<Rightarrow> u32 \<Rightarrow> u32 \<Rightarrow> 's world \<Rightarrow> (u32 \<times> 's world) res" where
  "puts n wr t p written w =
     (let c = mem w p in
      if c \<noteq> 0 then
        bindR (putchar wr t c w) (\<lambda>(r, w1).
          if sint r < 0 then Inr (r, w1)
          else case n of 0 \<Rightarrow> Inl NoFuel | Suc n' \<Rightarrow> puts n' wr t (p + 1) (written + 1) w1)
      else bindR (putchar wr t 10 w) (\<lambda>(_, w1). Inr (written + 1, w1)))"

declare puts.simps [simp del]

definition u_outch :: "'s ucall \<Rightarrow> u32 \<Rightarrow> char \<Rightarrow> 'f dopr_state \<Rightarrow> 's world \<Rightarrow> ('f, 's) prints" where
  "u_outch wr t c p w = bindR (putchar wr t (of_char c) w) (\<lambda>(_, w1). Inr (p\<lparr>currlen := currlen p + 1\<rparr>, w1))"

text \<open>A loop that prints a sequence of characters.\<close>

fun u_outs :: "'s ucall \<Rightarrow> u32 \<Rightarrow> string \<Rightarrow> 'f dopr_state \<Rightarrow> 's world \<Rightarrow> ('f, 's) prints" where
  "u_outs wr t [] p w = Inr (p, w)"
| "u_outs wr t (c # cs) p w = bindR (u_outch wr t c p w) (\<lambda>(p1, w1). u_outs wr t cs p1 w1)"

function u_pad_left :: "'s ucall \<Rightarrow> u32 \<Rightarrow> int \<Rightarrow> int \<Rightarrow> int \<Rightarrow> 'f dopr_state \<Rightarrow> 's world \<Rightarrow> (int \<times> int \<times> 'f dopr_state \<times> 's world) res" where
  "u_pad_left wr t padlen k max' p w =
     (if padlen > 0 \<and> k < max' then
        case u_outch wr t CHR '' '' p w of Inl e \<Rightarrow> Inl e | Inr (p1, w1) \<Rightarrow> u_pad_left wr t (padlen - 1) (k + 1) max' p1 w1
      else Inr (padlen, k, p, w))"
  by pat_completeness auto
termination by (relation "measure (\<lambda>(wr, t, padlen, k, m, p, w). nat padlen)") auto

fun u_put_value :: "'s ucall \<Rightarrow> u32 \<Rightarrow> string \<Rightarrow> int \<Rightarrow> int \<Rightarrow> 'f dopr_state \<Rightarrow> 's world \<Rightarrow> (int \<times> 'f dopr_state \<times> 's world) res" where
  "u_put_value wr t [] k max' p w = Inr (k, p, w)"
| "u_put_value wr t (c # cs) k max' p w =
     (if k < max' then bindR (u_outch wr t c p w) (\<lambda>(p1, w1). u_put_value wr t cs (k + 1) max' p1 w1) else Inr (k, p, w))"

function u_pad_right :: "'s ucall \<Rightarrow> u32 \<Rightarrow> int \<Rightarrow> int \<Rightarrow> int \<Rightarrow> 'f dopr_state \<Rightarrow> 's world \<Rightarrow> ('f, 's) prints" where
  "u_pad_right wr t padlen k max' p w =
     (if padlen < 0 \<and> k < max' then
        case u_outch wr t CHR '' '' p w of Inl e \<Rightarrow> Inl e | Inr (p1, w1) \<Rightarrow> u_pad_right wr t (padlen + 1) (k + 1) max' p1 w1
      else Inr (p, w))"
  by pat_completeness auto
termination by (relation "measure (\<lambda>(wr, t, padlen, k, m, p, w). nat (- padlen))") auto

declare u_pad_left.simps [simp del] u_pad_right.simps [simp del]

definition u_fmtstr :: "'s ucall \<Rightarrow> u32 \<Rightarrow> string option \<Rightarrow> nat set \<Rightarrow> int \<Rightarrow> int \<Rightarrow> 'f dopr_state \<Rightarrow> 's world \<Rightarrow> ('f, 's) prints" where
  "u_fmtstr wr t strvalue fl min' max' p w =
     (let v = (case strvalue of None \<Rightarrow> ''<NULL>'' | Some s \<Rightarrow> s);
          padlen0 = min' - int (length v);
          padlen1 = (if padlen0 < 0 then 0 else padlen0);
          padlen2 = (if DP_F_MINUS \<in> fl then - padlen1 else padlen1)
      in bindR (u_pad_left wr t padlen2 0 max' p w) (\<lambda>(padlen3, cnt1, p1, w1).
         bindR (u_put_value wr t v cnt1 max' p1 w1) (\<lambda>(cnt2, p2, w2).
           u_pad_right wr t padlen3 cnt2 max' p2 w2)))"

definition u_fmtint :: "'s ucall \<Rightarrow> u32 \<Rightarrow> u32 \<Rightarrow> u32 \<Rightarrow> int \<Rightarrow> int \<Rightarrow> nat set \<Rightarrow> 'f dopr_state \<Rightarrow> 's world \<Rightarrow> ('f, 's) prints" where
  "u_fmtint wr t val base min' max0 fl p w =
     (let max' = (if max0 < 0 then 0 else max0);
          signed' = (DP_F_UNSIGNED \<notin> fl);
          uvalue = (if signed' \<and> sint val < 0 then - val else val);
          signvalue = (if signed' then sign_chars (sint val < 0) fl else '''');
          caps = (DP_F_UP \<in> fl);
          convert = converted caps base uvalue;
          place = int (length convert);
          zpadlen0 = max' - place;
          spadlen0 = min' - max max' place - int (length signvalue);
          zpadlen1 = (if zpadlen0 < 0 then 0 else zpadlen0);
          spadlen1 = (if spadlen0 < 0 then 0 else spadlen0);
          (zpadlen, spadlen2) = (if DP_F_ZERO \<in> fl then (max zpadlen1 spadlen1, 0) else (zpadlen1, spadlen1));
          spadlen = (if DP_F_MINUS \<in> fl then - spadlen2 else spadlen2)
      in bindR (u_outs wr t (replicate (nat spadlen) CHR '' '') p w) (\<lambda>(p1, w1).
         bindR (u_outs wr t signvalue p1 w1) (\<lambda>(p2, w2).
         bindR (u_outs wr t (replicate (nat zpadlen) CHR ''0'') p2 w2) (\<lambda>(p3, w3).
         bindR (u_outs wr t (rev convert) p3 w3) (\<lambda>(p4, w4).
           u_outs wr t (replicate (nat (- spadlen)) CHR '' '') p4 w4)))))"

definition u_fmtfp :: "'s ucall \<Rightarrow> u32 \<Rightarrow> ('f \<Rightarrow> nat \<Rightarrow> bool \<times> u32 \<times> u32) \<Rightarrow> 'f \<Rightarrow> int \<Rightarrow> int \<Rightarrow> nat set \<Rightarrow> 'f dopr_state \<Rightarrow> 's world \<Rightarrow> ('f, 's) prints" where
  "u_fmtfp wr t fsplit fvalue min' max0 fl p w =
     (let max1 = (if max0 < 0 then 6 else max0);
          max' = (if max1 > 9 then 9 else max1);
          (negative, intpart, fracpart) = fsplit fvalue (nat max');
          signvalue = sign_chars negative fl;
          iconvert = converted False 10 intpart;
          fconvert = converted False 10 fracpart;
          padlen0 = min' - int (length iconvert) - max' - 1 - int (length signvalue);
          zpadlen0 = max' - int (length fconvert);
          zpadlen = (if zpadlen0 < 0 then 0 else zpadlen0);
          padlen1 = (if padlen0 < 0 then 0 else padlen0);
          padlen2 = (if DP_F_MINUS \<in> fl then - padlen1 else padlen1);
          zero = (DP_F_ZERO \<in> fl \<and> padlen2 > 0);
          padlen3 = (if zero then (if signvalue \<noteq> '''' then padlen2 - 1 else padlen2) else padlen2);
          padlen4 = (if padlen3 > 0 then 0 else padlen3)
      in bindR (u_outs wr t (if zero then signvalue @ replicate (nat padlen3) CHR ''0'' else replicate (nat padlen3) CHR '' '' @ signvalue) p w) (\<lambda>(p1, w1).
         bindR (u_outs wr t (rev iconvert) p1 w1) (\<lambda>(p2, w2).
         bindR (u_outs wr t (if max' > 0 then CHR ''.'' # rev fconvert else '''') p2 w2) (\<lambda>(p3, w3).
         bindR (u_outs wr t (replicate (nat zpadlen) CHR ''0'') p3 w3) (\<lambda>(p4, w4).
           u_outs wr t (replicate (nat (- padlen4)) CHR '' '') p4 w4)))))"

definition u_conv_int :: "'s ucall \<Rightarrow> u32 \<Rightarrow> u32 \<Rightarrow> nat set \<Rightarrow> 'f dopr_state \<Rightarrow> 's world \<Rightarrow> ('f, 's) prints" where
  "u_conv_int wr t base fl p w =
     bindR (va_num p) (\<lambda>(v, p1).
       let p2 = p1\<lparr>flags := flags p1 \<union> fl\<rparr> in u_fmtint wr t v base (mn p2) (mx p2) (flags p2) p2 w)"

definition u_conv_fp :: "'s ucall \<Rightarrow> u32 \<Rightarrow> ('f \<Rightarrow> nat \<Rightarrow> bool \<times> u32 \<times> u32) \<Rightarrow> 'f dopr_state \<Rightarrow> 's world \<Rightarrow> ('f, 's) prints" where
  "u_conv_fp wr t fsplit p w = bindR (va_flt p) (\<lambda>(v, p1). u_fmtfp wr t fsplit v (mn p1) (mx p1) (flags p1) p1 w)"

definition u_conv_str :: "'s ucall \<Rightarrow> u32 \<Rightarrow> int \<Rightarrow> 'f dopr_state \<Rightarrow> 's world \<Rightarrow> ('f, 's) prints" where
  "u_conv_str wr t maxlen p w =
     bindR (va_str p) (\<lambda>(v, p1).
       let p2 = (if mx p1 < 0 then p1\<lparr>mx := maxlen\<rparr> else p1) in u_fmtstr wr t v (flags p2) (mn p2) (mx p2) p2 w)"

definition u_conv_switch :: "'s ucall \<Rightarrow> u32 \<Rightarrow> ('f \<Rightarrow> nat \<Rightarrow> bool \<times> u32 \<times> u32) \<Rightarrow> int \<Rightarrow> char \<Rightarrow> 'f dopr_state \<Rightarrow> 's world \<Rightarrow> ('f, 's) prints" where
  "u_conv_switch wr t fsplit maxlen ch p w =
           (if ch = CHR ''d'' \<or> ch = CHR ''i'' then u_conv_int wr t 10 {} p w
            else if ch = CHR ''o'' then u_conv_int wr t 8 {DP_F_UNSIGNED} p w
            else if ch = CHR ''u'' then u_conv_int wr t 10 {DP_F_UNSIGNED} p w
            else if ch = CHR ''X'' then u_conv_int wr t 16 {DP_F_UP, DP_F_UNSIGNED} p w
            else if ch = CHR ''x'' then u_conv_int wr t 16 {DP_F_UNSIGNED} p w
            else if ch = CHR ''f'' then u_conv_fp wr t fsplit p w
            else if ch \<in> {CHR ''E'', CHR ''e'', CHR ''G'', CHR ''g''} then bindR (va_flt p) (\<lambda>(_, p1). Inr (p1, w))
            else if ch = CHR ''c'' then bindR (va_num p) (\<lambda>(v, p1). u_outch wr t (char_of (unat v)) p1 w)
            else if ch = CHR ''s'' then u_conv_str wr t maxlen p w
            else if ch = CHR ''p'' then u_conv_int wr t 16 {} p w
            else if ch = CHR ''n'' then bindR (conv_n p) (\<lambda>p1. Inr (p1, w))
            else if ch = CHR ''%'' then u_outch wr t ch p w
            else if ch = CHR ''w'' then bindR (next_ch p) (\<lambda>p1. Inr (p1, w))
            else Inr (p, w))"

definition u_step_conv :: "'s ucall \<Rightarrow> u32 \<Rightarrow> ('f \<Rightarrow> nat \<Rightarrow> bool \<times> u32 \<times> u32) \<Rightarrow> int \<Rightarrow> char \<Rightarrow> 'f dopr_state \<Rightarrow> 's world \<Rightarrow> ('f, 's) prints" where
  "u_step_conv wr t fsplit maxlen ch p w =
     bindR (u_conv_switch wr t fsplit maxlen ch p w) (\<lambda>(p1, w1).
     bindR (next_ch p1) (\<lambda>p2.
       Inr (p2\<lparr>state := DP_S_DEFAULT, flags := {}, cflags := DP_C_NONE, mn := 0, mx := - 1\<rparr>, w1)))"

definition u_step_default :: "'s ucall \<Rightarrow> u32 \<Rightarrow> char \<Rightarrow> 'f dopr_state \<Rightarrow> 's world \<Rightarrow> ('f, 's) prints" where
  "u_step_default wr t ch p w =
     (if ch = CHR ''%'' then bindR (next_ch (p\<lparr>state := DP_S_FLAGS\<rparr>)) (\<lambda>p1. Inr (p1, w))
      else bindR (u_outch wr t ch p w) (\<lambda>(p1, w1). bindR (next_ch p1) (\<lambda>p2. Inr (p2, w1))))"

text \<open>The cases without output.\<close>

definition silent :: "'f dopr_state res \<Rightarrow> 's world \<Rightarrow> ('f, 's) prints" where
  "silent m w = bindR m (\<lambda>p. Inr (p, w))"

definition u_dopr_step :: "'s ucall \<Rightarrow> u32 \<Rightarrow> ('f \<Rightarrow> nat \<Rightarrow> bool \<times> u32 \<times> u32) \<Rightarrow> int \<Rightarrow> 'f dopr_state \<Rightarrow> 's world \<Rightarrow> ('f, 's) prints" where
  "u_dopr_step wr t fsplit maxlen p w =
     (case format p of
        [] \<Rightarrow> Inr (p\<lparr>state := DP_S_DONE\<rparr>, w)
      | ch # _ \<Rightarrow>
          if currlen p \<ge> maxlen then Inr (p\<lparr>state := DP_S_DONE\<rparr>, w)
          else (case state p of
              DP_S_DEFAULT \<Rightarrow> u_step_default wr t ch p w
            | DP_S_FLAGS \<Rightarrow> silent (step_flags ch p) w
            | DP_S_MIN \<Rightarrow> silent (step_min ch p) w
            | DP_S_DOT \<Rightarrow> silent (step_dot ch p) w
            | DP_S_MAX \<Rightarrow> silent (step_max ch p) w
            | DP_S_MOD \<Rightarrow> silent (step_mod ch p) w
            | DP_S_CONV \<Rightarrow> u_step_conv wr t fsplit maxlen ch p w
            | DP_S_DONE \<Rightarrow> Inr (p, w)))"

section \<open>The output of the loops\<close>

text \<open>All characters of a string, one call after the other.\<close>

fun put_all :: "'s ucall \<Rightarrow> u32 \<Rightarrow> string \<Rightarrow> 's world \<Rightarrow> 's world res" where
  "put_all wr t [] w = Inr w"
| "put_all wr t (c # cs) w = bindR (putchar wr t (of_char c) w) (\<lambda>(_, w1). put_all wr t cs w1)"

lemma put_all_append: "put_all wr t (cs @ ds) w = bindR (put_all wr t cs w) (put_all wr t ds)"
  by (induction cs arbitrary: w) (auto simp: bindR_assoc intro!: bindR_cong)

lemma u_outs_append: "bindR (u_outs wr t cs p w) (\<lambda>(p1, w1). u_outs wr t ds p1 w1) = u_outs wr t (cs @ ds) p w"
  by (induction cs arbitrary: p w) (auto simp: bindR_assoc intro!: bindR_cong)

lemma u_outs_eq: "u_outs wr t cs p w = bindR (put_all wr t cs w) (\<lambda>w1. Inr (p\<lparr>currlen := currlen p + int (length cs)\<rparr>, w1))"
proof (induction cs arbitrary: p w)
  case (Cons c cs)
  then show ?case by (auto simp: u_outch_def bindR_assoc add.assoc intro!: bindR_cong)
qed simp

lemma u_outs_append': "bindR (u_outs wr t cs p w) (\<lambda>x. u_outs wr t ds (fst x) (snd x)) = u_outs wr t (cs @ ds) p w"
  using u_outs_append [of wr t cs p w ds] by (simp add: split_def)

lemma u_outs_one: "u_outch wr t c p w = u_outs wr t [c] p w"
  by (cases "u_outch wr t c p w") auto

lemma u_pad_left_eq:
  "u_pad_left wr t padlen k m p w =
     (let n = nat (min padlen (m - k)) in bindR (u_outs wr t (replicate n CHR '' '') p w) (\<lambda>(p1, w1). Inr (padlen - int n, k + int n, p1, w1)))"
proof (induction wr t padlen k m p w rule: u_pad_left.induct)
  case (1 wr t padlen k m p w)
  show ?case
  proof (cases "padlen > 0 \<and> k < m")
    case True
    define n where "n = nat (min (padlen - 1) (m - (k + 1)))"
    have n: "nat (min padlen (m - k)) = Suc n" "\<And>x. padlen - 1 - x = padlen - (1 + x)" "\<And>x. k + 1 + x = k + (1 + x)"
      unfolding n_def using True by linarith+
    then show ?thesis using 1 [OF True] True
      by (subst u_pad_left.simps) (auto simp: Let_def n_def [symmetric] bindR_assoc intro!: bindR_cong split: sum.splits)
  next
    case False
    then show ?thesis by (subst u_pad_left.simps) (auto simp: Let_def)
  qed
qed

lemma u_put_value_eq:
  "u_put_value wr t cs k m p w =
     (let x = take (nat (m - k)) cs in bindR (u_outs wr t x p w) (\<lambda>(p1, w1). Inr (k + int (length x), p1, w1)))"
proof (induction cs arbitrary: k p w)
  case (Cons c cs)
  show ?case
  proof (cases "k < m")
    case True
    then have "nat (m - k) = Suc (nat (m - (k + 1)))" by simp
    then show ?thesis using Cons True by (auto simp: Let_def bindR_assoc intro!: bindR_cong)
  qed (simp add: Let_def)
qed (simp add: Let_def)

lemma u_pad_right_eq:
  "u_pad_right wr t padlen k m p w = u_outs wr t (replicate (nat (min (- padlen) (m - k))) CHR '' '') p w"
proof (induction wr t padlen k m p w rule: u_pad_right.induct)
  case (1 wr t padlen k m p w)
  show ?case
  proof (cases "padlen < 0 \<and> k < m")
    case True
    have "nat (min (- padlen) (m - k)) = Suc (nat (min (- (padlen + 1)) (m - (k + 1))))" using True by linarith
    then show ?thesis using 1 [OF True] True by (subst u_pad_right.simps) (auto split: sum.splits)
  next
    case False
    then show ?thesis by (subst u_pad_right.simps) auto
  qed
qed

section \<open>The reader of the kernel and the reader of the program\<close>

text \<open>
  \<open>follows\<close> relates an operation \<open>m\<close> of the kernel's formatter, from the state \<open>p\<close>, to one of the program's, \<open>u\<close>: the latter puts the characters that the former has added to \<open>out\<close>, one by one, and
  reaches the same state (\<open>x\<close> is its own field \<open>out\<close>); when the former fails, so does the latter.
\<close>

definition follows :: "'s ucall \<Rightarrow> u32 \<Rightarrow> string \<Rightarrow> 'f dopr_state \<Rightarrow> 'f dopr_state res \<Rightarrow> ('s world \<Rightarrow> ('f, 's) prints) \<Rightarrow> bool" where
  "follows wr t x p m u \<longleftrightarrow>
     (case m of
        Inl e \<Rightarrow> \<forall>w. \<exists>e'. u w = Inl e'
      | Inr p' \<Rightarrow> \<exists>cs. out p' = out p @ cs \<and> (\<forall>w. u w = bindR (put_all wr t cs w) (\<lambda>w'. Inr (p'\<lparr>out := x\<rparr>, w'))))"

lemma follows_bind:
  assumes "follows wr t x p m u" "\<And>p1. m = Inr p1 \<Longrightarrow> follows wr t x p1 (f p1) (g (p1\<lparr>out := x\<rparr>))"
  shows "follows wr t x p (bindR m f) (\<lambda>w. bindR (u w) (\<lambda>(q, w1). g q w1))"
proof (cases m)
  case (Inl e)
  have "\<exists>e'. bindR (u w) (\<lambda>(q, w1). g q w1) = Inl e'" for w
  proof -
    obtain e' where "u w = Inl e'" using assms(1) Inl by (auto simp: follows_def)
    then show ?thesis by simp
  qed
  then show ?thesis by (simp add: follows_def Inl)
next
  case (Inr p1)
  then obtain cs where cs: "out p1 = out p @ cs" "\<And>w. u w = bindR (put_all wr t cs w) (\<lambda>w'. Inr (p1\<lparr>out := x\<rparr>, w'))"
    using assms(1) by (auto simp: follows_def)
  have u: "bindR (u w) (\<lambda>(q, w1). g q w1) = bindR (put_all wr t cs w) (g (p1\<lparr>out := x\<rparr>))" for w by (simp add: cs(2) bindR_assoc)
  have f: "follows wr t x p1 (f p1) (g (p1\<lparr>out := x\<rparr>))" by (rule assms(2) [OF Inr])
  show ?thesis
  proof (cases "f p1")
    case (Inl e)
    have "\<exists>e'. bindR (put_all wr t cs w) (g (p1\<lparr>out := x\<rparr>)) = Inl e'" for w
      using f Inl by (cases "put_all wr t cs w") (auto simp: follows_def)
    then show ?thesis by (simp add: follows_def u Inr Inl)
  next
    case (Inr p2)
    then obtain ds where ds: "out p2 = out p1 @ ds" "\<And>w. g (p1\<lparr>out := x\<rparr>) w = bindR (put_all wr t ds w) (\<lambda>w'. Inr (p2\<lparr>out := x\<rparr>, w'))"
      using f by (auto simp: follows_def)
    have "g (p1\<lparr>out := x\<rparr>) = (\<lambda>w. bindR (put_all wr t ds w) (\<lambda>w'. Inr (p2\<lparr>out := x\<rparr>, w')))" by (intro ext ds(2))
    then have "out p2 = out p @ (cs @ ds) \<and> (\<forall>w. bindR (u w) (\<lambda>(q, w1). g q w1) = bindR (put_all wr t (cs @ ds) w) (\<lambda>w'. Inr (p2\<lparr>out := x\<rparr>, w')))"
      unfolding u by (simp add: cs(1) ds(1) put_all_append bindR_assoc)
    then show ?thesis using \<open>m = Inr p1\<close> Inr by (auto simp: follows_def)
  qed
qed

lemma follows_outs: "follows wr t x p (Inr (dopr_outs cs p)) (u_outs wr t cs (p\<lparr>out := x\<rparr>))"
  unfolding follows_def sum.case by (intro exI [of _ cs]) (auto simp: u_outs_eq dopr_outs_eq intro!: bindR_cong)

lemma follows_outch: "follows wr t x p (Inr (dopr_outch c p)) (u_outch wr t c (p\<lparr>out := x\<rparr>))"
proof -
  have "u_outch wr t c (p\<lparr>out := x\<rparr>) = u_outs wr t [c] (p\<lparr>out := x\<rparr>)" by (intro ext u_outs_one)
  then show ?thesis using follows_outs [of wr t x p "[c]"] by (simp add: dopr_outs_def)
qed

lemma follows_silent:
  assumes "m' = mapR (\<lambda>p'. p'\<lparr>out := x\<rparr>) m" "\<And>p'. m = Inr p' \<Longrightarrow> out p' = out p"
  shows "follows wr t x p m (silent m')"
  using assms by (cases m) (auto simp: follows_def silent_def intro!: exI [of _ "[]"])

lemma follows_ext: "follows wr t x p m u \<Longrightarrow> (\<And>w. u' w = u w) \<Longrightarrow> follows wr t x p m u'"
  by (simp add: follows_def split: sum.splits)

lemma follows_from: "follows wr t x p m u \<Longrightarrow> out p = out q \<Longrightarrow> follows wr t x q m u"
  by (simp add: follows_def split: sum.splits)

text \<open>What the three loops for a string put.\<close>

definition str_out :: "int \<Rightarrow> int \<Rightarrow> string \<Rightarrow> string" where
  "str_out padlen m v =
     (let a = nat (min padlen m); y = take (nat (m - int a)) v
      in replicate a CHR '' '' @ y @ replicate (nat (min (- (padlen - int a)) (m - (int a + int (length y))))) CHR '' '')"

lemma str_loops:
  "(case pad_left padlen 0 m p of (padlen3, k1, p1) \<Rightarrow> case put_value v k1 m p1 of (k2, p2) \<Rightarrow> pad_right padlen3 k2 m p2) = dopr_outs (str_out padlen m v) p"
  by (simp add: str_out_def pad_left_eq put_value_eq pad_right_eq Let_def dopr_outs_append)

lemma u_str_loops:
  "bindR (u_pad_left wr t padlen 0 m p w) (\<lambda>(padlen3, k1, p1, w1).
     bindR (u_put_value wr t v k1 m p1 w1) (\<lambda>(k2, p2, w2). u_pad_right wr t padlen3 k2 m p2 w2)) = u_outs wr t (str_out padlen m v) p w"
  by (simp add: str_out_def u_pad_left_eq u_put_value_eq u_pad_right_eq Let_def bindR_assoc split_def u_outs_append')

lemma follows_fmtstr: "follows wr t x p (Inr (fmtstr v fl m1 m2 p)) (u_fmtstr wr t v fl m1 m2 (p\<lparr>out := x\<rparr>))"
  unfolding fmtstr_def str_loops Let_def by (rule follows_ext [OF follows_outs]) (simp only: u_fmtstr_def u_str_loops Let_def)

lemma follows_fmtint: "follows wr t x p (Inr (fmtint v b m1 m2 fl p)) (u_fmtint wr t v b m1 m2 fl (p\<lparr>out := x\<rparr>))"
  unfolding fmtint_def Let_def comp_def case_prod_unfold dopr_outs_append
  by (rule follows_ext [OF follows_outs]) (simp only: u_fmtint_def Let_def case_prod_unfold u_outs_append' append_assoc)

lemma follows_fmtfp: "follows wr t x p (Inr (fmtfp fs v m1 m2 fl p)) (u_fmtfp wr t fs v m1 m2 fl (p\<lparr>out := x\<rparr>))"
proof -
  have i: "(if b then dopr_outs cs p else dopr_outs ds p) = dopr_outs (if b then cs else ds) p" for b cs ds by simp
  show ?thesis unfolding fmtfp_def Let_def comp_def case_prod_unfold i dopr_outs_append
    by (rule follows_ext [OF follows_outs]) (simp only: u_fmtfp_def Let_def case_prod_unfold u_outs_append' append_assoc)
qed

lemma va_out:
  "va_num (p\<lparr>out := x\<rparr>) = mapR (\<lambda>(v, q). (v, q\<lparr>out := x\<rparr>)) (va_num p)" "va_str (p\<lparr>out := x\<rparr>) = mapR (\<lambda>(v, q). (v, q\<lparr>out := x\<rparr>)) (va_str p)"
  "va_flt (p\<lparr>out := x\<rparr>) = mapR (\<lambda>(v, q). (v, q\<lparr>out := x\<rparr>)) (va_flt p)" "next_ch (p\<lparr>out := x\<rparr>) = mapR (\<lambda>q. q\<lparr>out := x\<rparr>) (next_ch p)"
  "va_num p = Inr (v, p') \<Longrightarrow> out p' = out p" "va_str p = Inr (s, p') \<Longrightarrow> out p' = out p" "va_flt p = Inr (f, p') \<Longrightarrow> out p' = out p"
  "next_ch p = Inr p' \<Longrightarrow> out p' = out p"
  by (auto simp: va_num_def va_str_def va_flt_def next_ch_def split: list.splits arg.splits)

lemma out_last:
  "p\<lparr>out := x, state := s\<rparr> = p\<lparr>state := s, out := x\<rparr>" "p\<lparr>out := x, flags := fl\<rparr> = p\<lparr>flags := fl, out := x\<rparr>"
  "p\<lparr>out := x, mx := m\<rparr> = p\<lparr>mx := m, out := x\<rparr>"
  by simp_all

text \<open>To fetch an argument is silent.\<close>

lemma follows_va:
  assumes "va' = mapR (\<lambda>(v, q). (v, q\<lparr>out := x\<rparr>)) va" "\<And>v q. va = Inr (v, q) \<Longrightarrow> out q = out p"
    and "\<And>v q. va = Inr (v, q) \<Longrightarrow> follows wr t x q (f v q) (g v (q\<lparr>out := x\<rparr>))"
  shows "follows wr t x p (bindR va (\<lambda>(v, q). f v q)) (\<lambda>w. bindR va' (\<lambda>(v, q). g v q w))"
proof (cases va)
  case (Inl e)
  then show ?thesis using assms(1) by (simp add: follows_def)
next
  case (Inr vq)
  obtain v q where vq: "va = Inr (v, q)" using Inr by (cases vq) simp
  have "follows wr t x p (f v q) (g v (q\<lparr>out := x\<rparr>))" using follows_from [OF assms(3)] assms(2) vq by blast
  then show ?thesis using assms(1) vq by simp
qed

lemma follows_next: "follows wr t x p (next_ch p) (\<lambda>w. bindR (next_ch (p\<lparr>out := x\<rparr>)) (\<lambda>q. Inr (q, w)))"
  using follows_silent [of "next_ch (p\<lparr>out := x\<rparr>)" x "next_ch p" p wr t] va_out(4,8) unfolding silent_def by blast

lemma follows_conv_int: "follows wr t x (p :: 'f dopr_state) (conv_int b fl p) (u_conv_int wr t b fl (p\<lparr>out := x\<rparr>))"
proof -
  have "follows wr t x p (conv_int b fl p)
      (\<lambda>w. bindR (va_num (p\<lparr>out := x\<rparr>)) (\<lambda>(v, q). (let p2 = q\<lparr>flags := flags q \<union> fl\<rparr> in u_fmtint wr t v b (mn p2) (mx p2) (flags p2) p2) w))"
    unfolding conv_int_def
  proof (rule follows_va [OF va_out(1)])
    fix v and q :: "'f dopr_state"
    let ?q = "q\<lparr>flags := flags q \<union> fl\<rparr>"
    have "follows wr t x q (Inr (fmtint v b (mn ?q) (mx ?q) (flags ?q) ?q)) (u_fmtint wr t v b (mn ?q) (mx ?q) (flags ?q) (?q\<lparr>out := x\<rparr>))"
      by (rule follows_from [OF follows_fmtint]) simp
    then show "follows wr t x q (let p2 = ?q in Inr (fmtint v b (mn p2) (mx p2) (flags p2) p2))
        (let p2 = (q\<lparr>out := x\<rparr>)\<lparr>flags := flags (q\<lparr>out := x\<rparr>) \<union> fl\<rparr> in u_fmtint wr t v b (mn p2) (mx p2) (flags p2) p2)"
      by (simp add: Let_def out_last)
  qed (rule va_out(5))
  then show ?thesis by (rule follows_ext) (simp add: u_conv_int_def Let_def)
qed

lemma follows_conv_fp: "follows wr t x (p :: 'f dopr_state) (conv_fp fs p) (u_conv_fp wr t fs (p\<lparr>out := x\<rparr>))"
proof -
  have "follows wr t x p (conv_fp fs p) (\<lambda>w. bindR (va_flt (p\<lparr>out := x\<rparr>)) (\<lambda>(v, q). u_fmtfp wr t fs v (mn q) (mx q) (flags q) q w))"
    unfolding conv_fp_def
  proof (rule follows_va [OF va_out(3)])
    fix v and q :: "'f dopr_state"
    show "follows wr t x q (Inr (fmtfp fs v (mn q) (mx q) (flags q) q))
        (u_fmtfp wr t fs v (mn (q\<lparr>out := x\<rparr>)) (mx (q\<lparr>out := x\<rparr>)) (flags (q\<lparr>out := x\<rparr>)) (q\<lparr>out := x\<rparr>))"
      using follows_fmtfp by simp
  qed (rule va_out(7))
  then show ?thesis by (rule follows_ext) (simp add: u_conv_fp_def)
qed

lemma follows_conv_str: "follows wr t x (p :: 'f dopr_state) (conv_str m p) (u_conv_str wr t m (p\<lparr>out := x\<rparr>))"
proof -
  have "follows wr t x p (conv_str m p)
      (\<lambda>w. bindR (va_str (p\<lparr>out := x\<rparr>)) (\<lambda>(v, q). (let p2 = (if mx q < 0 then q\<lparr>mx := m\<rparr> else q) in u_fmtstr wr t v (flags p2) (mn p2) (mx p2) p2) w))"
    unfolding conv_str_def
  proof (rule follows_va [OF va_out(2)])
    fix v and q :: "'f dopr_state"
    let ?q = "if mx q < 0 then q\<lparr>mx := m\<rparr> else q"
    have q: "(if mx (q\<lparr>out := x\<rparr>) < 0 then (q\<lparr>out := x\<rparr>)\<lparr>mx := m\<rparr> else (q\<lparr>out := x\<rparr>)) = ?q\<lparr>out := x\<rparr>" by simp
    have "follows wr t x q (Inr (fmtstr v (flags ?q) (mn ?q) (mx ?q) ?q)) (u_fmtstr wr t v (flags ?q) (mn ?q) (mx ?q) (?q\<lparr>out := x\<rparr>))"
      by (rule follows_from [OF follows_fmtstr]) simp
    then show "follows wr t x q (let p2 = ?q in Inr (fmtstr v (flags p2) (mn p2) (mx p2) p2))
        (let p2 = (if mx (q\<lparr>out := x\<rparr>) < 0 then (q\<lparr>out := x\<rparr>)\<lparr>mx := m\<rparr> else (q\<lparr>out := x\<rparr>)) in u_fmtstr wr t v (flags p2) (mn p2) (mx p2) p2)"
      unfolding q Let_def by simp
  qed (rule va_out(6))
  then show ?thesis by (rule follows_ext) (simp add: u_conv_str_def Let_def)
qed

lemma follows_n: "follows wr t x p (conv_n p) (\<lambda>w. bindR (conv_n (p\<lparr>out := x\<rparr>)) (\<lambda>q. Inr (q, w)))"
proof -
  have "follows wr t x p (conv_n p) (silent (conv_n (p\<lparr>out := x\<rparr>)))"
    by (rule follows_silent) (auto simp: conv_n_def va_num_def split: list.splits arg.splits)
  then show ?thesis by (simp add: silent_def [abs_def])
qed

lemma follows_flt: "follows wr t x p (bindR (va_flt p) (\<lambda>(_, p1). Inr p1)) (\<lambda>w. bindR (va_flt (p\<lparr>out := x\<rparr>)) (\<lambda>(_, p1). Inr (p1, w)))"
  by (rule follows_va [OF va_out(3) va_out(7)]) (auto simp: follows_def)

lemma follows_char:
  "follows wr t x p (bindR (va_num p) (\<lambda>(v, p1). Inr (dopr_outch (char_of (unat v)) p1)))
     (\<lambda>w. bindR (va_num (p\<lparr>out := x\<rparr>)) (\<lambda>(v, p1). u_outch wr t (char_of (unat v)) p1 w))"
  by (rule follows_va [OF va_out(1) va_out(5) follows_outch])

lemma follows_if:
  "follows wr t x p m1 u1 \<Longrightarrow> follows wr t x p m2 u2 \<Longrightarrow> follows wr t x p (if b then m1 else m2) (\<lambda>w. if b then u1 w else u2 w)"
  by (cases b) simp_all

lemma follows_done: "follows wr t x p (Inr p) (\<lambda>w. Inr (p\<lparr>out := x\<rparr>, w))"
  by (simp add: follows_def)

lemma follows_conv_switch: "follows wr t x p (conv_switch fs m ch p) (u_conv_switch wr t fs m ch (p\<lparr>out := x\<rparr>))"
proof -
  note rules = follows_if follows_conv_int follows_conv_fp follows_conv_str follows_n follows_flt follows_char follows_outch follows_next follows_done
  show ?thesis unfolding conv_switch_def u_conv_switch_def [abs_def] by (intro rules)
qed

lemma follows_step_conv: "follows wr t x p (step_conv fs m ch p) (u_step_conv wr t fs m ch (p\<lparr>out := x\<rparr>))"
  unfolding step_conv_def u_step_conv_def [abs_def]
proof (rule follows_bind [OF follows_conv_switch])
  fix p1
  let ?f = "\<lambda>p2. p2\<lparr>state := DP_S_DEFAULT, flags := {}, cflags := DP_C_NONE, mn := 0, mx := - 1\<rparr>"
  have "follows wr t x p1 (bindR (next_ch p1) (\<lambda>p2. Inr (?f p2))) (silent (bindR (next_ch (p1\<lparr>out := x\<rparr>)) (\<lambda>p2. Inr (?f p2))))"
    by (rule follows_silent) (auto simp: next_ch_def split: list.splits)
  then show "follows wr t x p1 (bindR (next_ch p1) (\<lambda>p2. Inr (?f p2))) (\<lambda>w1. bindR (next_ch (p1\<lparr>out := x\<rparr>)) (\<lambda>p2. Inr (?f p2, w1)))"
    by (rule follows_ext) (simp add: silent_def bindR_assoc)
qed

lemma follows_default: "follows wr t x p (step_default ch p) (u_step_default wr t ch (p\<lparr>out := x\<rparr>))"
proof (cases "ch = CHR ''%''")
  case True
  have "follows wr t x p (next_ch (p\<lparr>state := DP_S_FLAGS\<rparr>)) (\<lambda>w. bindR (next_ch (p\<lparr>state := DP_S_FLAGS, out := x\<rparr>)) (\<lambda>q. Inr (q, w)))"
    by (rule follows_from [OF follows_next]) simp
  then show ?thesis using True by (simp add: step_default_def u_step_default_def [abs_def] out_last)
next
  case False
  have "follows wr t x p (bindR (Inr (dopr_outch ch p)) next_ch)
      (\<lambda>w. bindR (u_outch wr t ch (p\<lparr>out := x\<rparr>) w) (\<lambda>(p1, w1). bindR (next_ch p1) (\<lambda>p2. Inr (p2, w1))))"
    by (rule follows_bind [OF follows_outch follows_next])
  then show ?thesis using False by (simp add: step_default_def u_step_default_def [abs_def])
qed

lemma follows_step: "follows wr t x p (dopr_step fs m p) (u_dopr_step wr t fs m (p\<lparr>out := x\<rparr>))"
proof (cases "format p = [] \<or> currlen p \<ge> m \<or> state p = DP_S_DONE")
  case True
  have "follows wr t x p (Inr (p\<lparr>state := s\<rparr>)) (\<lambda>w. Inr (p\<lparr>state := s, out := x\<rparr>, w))" for s
    by (rule follows_from [OF follows_done]) simp
  then show ?thesis using True follows_done [of wr t x p]
    by (cases "format p"; cases "currlen p \<ge> m") (auto simp: dopr_step_def u_dopr_step_def [abs_def] out_last)
next
  case False
  then obtain ch r where ch: "format p = ch # r" by (cases "format p") auto
  have s: "follows wr t x p (f p) (silent (f (p\<lparr>out := x\<rparr>)))" if "f \<in> {step_flags ch, step_min ch, step_dot ch, step_max ch, step_mod ch}" for f
    using that by (intro follows_silent)
      (auto simp: step_flags_def step_min_def step_dot_def step_max_def step_mod_def va_num_def next_ch_def split: list.splits arg.splits if_splits)
  show ?thesis using False ch s follows_default [of wr t x p ch] follows_step_conv [of wr t x p fs m ch]
    by (cases "state p") (simp_all add: dopr_step_def u_dopr_step_def [abs_def])
qed

lemma follows_fail: "follows wr t x p (Inl e) u \<Longrightarrow> \<exists>e'. u w = Inl e'"
  by (simp add: follows_def)

lemma u_dopr_step_result:
  assumes "u_dopr_step wr t fs m p w = Inr (q, w')"
  shows "\<exists>p'. dopr_step fs m p = Inr p' \<and> q = p'\<lparr>out := out p\<rparr>"
proof -
  have "follows wr t (out p) p (dopr_step fs m p) (u_dopr_step wr t fs m p)" using follows_step [of wr t "out p" p fs m] by simp
  then show ?thesis
    using assms follows_fail [of wr t "out p" p _ "u_dopr_step wr t fs m p" w] by (cases "dopr_step fs m p") (auto simp: follows_def bindR_Inr_conv)
qed

section \<open>printf\<close>

function u_dopr_loop :: "'s ucall \<Rightarrow> u32 \<Rightarrow> ('f \<Rightarrow> nat \<Rightarrow> bool \<times> u32 \<times> u32) \<Rightarrow> int \<Rightarrow> 'f dopr_state \<Rightarrow> 's world \<Rightarrow> ('f, 's) prints" where
  "u_dopr_loop wr t fsplit maxlen p w =
     (if state p = DP_S_DONE then Inr (p, w)
      else case u_dopr_step wr t fsplit maxlen p w of Inl e \<Rightarrow> Inl e | Inr (p1, w1) \<Rightarrow> u_dopr_loop wr t fsplit maxlen p1 w1)"
  by pat_completeness auto
termination
  by (relation "measures [\<lambda>(wr, t, fs, m, p, w). length (format p), \<lambda>(wr, t, fs, m, p, w). rank (state p)]")
    (auto dest!: u_dopr_step_result dest: dopr_step_decreases)

declare u_dopr_loop.simps [simp del]

definition u_dopr :: "'s ucall \<Rightarrow> u32 \<Rightarrow> ('f \<Rightarrow> nat \<Rightarrow> bool \<times> u32 \<times> u32) \<Rightarrow> int \<Rightarrow> string \<Rightarrow> 'f arg list \<Rightarrow> 's world \<Rightarrow> ('f, 's) prints" where
  "u_dopr wr t fsplit maxlen fmt ap w = u_dopr_loop wr t fsplit maxlen (dopr_start fmt ap) w"

definition u_vprintf :: "'s ucall \<Rightarrow> u32 \<Rightarrow> ('f \<Rightarrow> nat \<Rightarrow> bool \<times> u32 \<times> u32) \<Rightarrow> string \<Rightarrow> 'f arg list \<Rightarrow> 's world \<Rightarrow> (u32 \<times> 's world) res" where
  "u_vprintf wr t fsplit fmt ap w = bindR (u_dopr wr t fsplit 1000 fmt ap w) (\<lambda>(_, w1). Inr (1, w1))"

definition u_printf :: "'s ucall \<Rightarrow> u32 \<Rightarrow> ('f \<Rightarrow> nat \<Rightarrow> bool \<times> u32 \<times> u32) \<Rightarrow> string \<Rightarrow> 'f arg list \<Rightarrow> 's world \<Rightarrow> (u32 \<times> 's world) res" where
  "u_printf wr t fsplit fmt ap w = u_vprintf wr t fsplit fmt ap w"

lemma follows_loop: "follows wr t x p (dopr_loop fs m p) (u_dopr_loop wr t fs m (p\<lparr>out := x\<rparr>))"
proof (induction fs m p rule: dopr_loop.induct)
  case (1 fs m p)
  show ?case
  proof (cases "state p = DP_S_DONE")
    case True
    have "follows wr t x p (Inr p) (u_dopr_loop wr t fs m (p\<lparr>out := x\<rparr>))"
      by (rule follows_ext [OF follows_done]) (simp add: u_dopr_loop.simps [of wr t fs m "p\<lparr>out := x\<rparr>"] True)
    then show ?thesis using True by (simp add: dopr_loop.simps [of fs m p])
  next
    case False
    have b: "dopr_loop fs m p = bindR (dopr_step fs m p) (dopr_loop fs m)"
      using False by (subst dopr_loop.simps) (simp split: sum.splits)
    have "follows wr t x p (bindR (dopr_step fs m p) (dopr_loop fs m))
        (\<lambda>w. bindR (u_dopr_step wr t fs m (p\<lparr>out := x\<rparr>) w) (\<lambda>(q, w1). u_dopr_loop wr t fs m q w1))"
      by (rule follows_bind [OF follows_step 1 [OF False]])
    then show ?thesis unfolding b
      by (rule follows_ext) (use False in \<open>auto simp: u_dopr_loop.simps [of wr t fs m "p\<lparr>out := x\<rparr>"] split: sum.splits\<close>)
  qed
qed

lemma u_printf_put_all:
  "dopr fsplit 1000 fmt ap = Inr p \<Longrightarrow> u_printf wr t fsplit fmt ap w = bindR (put_all wr t (out p) w) (\<lambda>w'. Inr (1, w'))"
  "dopr fsplit 1000 fmt ap = Inl e \<Longrightarrow> \<exists>e'. u_printf wr t fsplit fmt ap w = Inl e'"
proof -
  have s: "(dopr_start fmt ap)\<lparr>out := []\<rparr> = dopr_start fmt ap" by (simp add: dopr_start_def)
  have f: "follows wr t [] (dopr_start fmt ap) (dopr fsplit 1000 fmt ap) (u_dopr_loop wr t fsplit 1000 (dopr_start fmt ap))"
    using follows_loop [of wr t "[]" "dopr_start fmt ap" fsplit 1000] unfolding s dopr_def .
  show "u_printf wr t fsplit fmt ap w = bindR (put_all wr t (out p) w) (\<lambda>w'. Inr (1, w'))" if "dopr fsplit 1000 fmt ap = Inr p"
    using f that by (auto simp: follows_def u_printf_def u_vprintf_def u_dopr_def bindR_assoc dopr_start_def)
  show "\<exists>e'. u_printf wr t fsplit fmt ap w = Inl e'" if "dopr fsplit 1000 fmt ap = Inl e"
  proof -
    have "\<exists>e'. u_dopr_loop wr t fsplit 1000 (dopr_start fmt ap) w = Inl e'" using follows_fail [OF f [unfolded that]] .
    then obtain e' where "u_dopr_loop wr t fsplit 1000 (dopr_start fmt ap) w = Inl e'" by blast
    then show ?thesis by (simp add: u_printf_def u_vprintf_def u_dopr_def)
  qed
qed

text \<open>
  (C21:printf_as_kernel) The program's \<open>printf\<close> puts, with one system call each, the characters that the kernel's formatter with the limit 1000 would hand to its sink, in the same order,
  whatever the calls do, and returns 1; where the kernel's formatter reads beyond its format or its arguments, so does the program's.
\<close>

theorem printf_as_kernel:
  "case dopr fsplit 1000 fmt ap of
     Inr p \<Rightarrow> u_printf wr t fsplit fmt ap w = bindR (put_all wr t (out p) w) (\<lambda>w'. Inr (1, w'))
   | Inl e \<Rightarrow> \<exists>e'. u_printf wr t fsplit fmt ap w = Inl e'"
  using u_printf_put_all by (auto split: sum.splits)

section \<open>On a console\<close>

lemma mem_bytes_Cons: "mem_bytes m a (Suc n) = m a # mem_bytes m (a + 1) n"
proof -
  have "map (\<lambda>i. m (a + of_nat i)) (map Suc [0 ..< n]) = map (\<lambda>i. m (a + 1 + of_nat i)) [0 ..< n]" by (simp add: add.assoc)
  then show ?thesis unfolding mem_bytes_def upt_conv_Cons [OF zero_less_Suc] map_Suc_upt by simp
qed

lemma mem_bytes_upd: "\<forall>i < n. a + of_nat i \<noteq> t \<Longrightarrow> mem_bytes (m(t := c)) a n = mem_bytes m a n"
  by (simp add: mem_bytes_def)

text \<open>\<open>good w\<close>: descriptor 1 prints in the state \<open>w\<close>.\<close>

locale console_writer =
  fixes wr :: "'s ucall" and t :: u32 and good :: "'s world \<Rightarrow> bool"
  assumes put_law: "good w \<Longrightarrow> \<exists>w'. wr 1 t 1 w = Inr (Ret 1, w') \<and> good w' \<and> console w' = console w @ [mem w t] \<and> mem w' = mem w"
    and good_mem: "good w \<Longrightarrow> good (set_mem ((mem w)(t := c)) w)"
begin

lemma putchar_prints:
  assumes "good w"
  shows "\<exists>w'. putchar wr t c w = Inr (1, w') \<and> good w' \<and> console w' = console w @ [c] \<and> mem w' = (mem w)(t := c)"
proof -
  have "console (set_mem m w) = console w" for m by (simp add: set_mem_def)
  then obtain w' where "wr 1 t 1 (set_mem ((mem w)(t := c)) w) = Inr (Ret 1, w')" "good w'" "console w' = console w @ [c]" "mem w' = (mem w)(t := c)"
    using put_law [OF good_mem [OF assms], of c] by auto
  then show ?thesis by (simp add: putchar_def call_result_def)
qed

lemma put_all_prints: "good w \<Longrightarrow> \<exists>w'. put_all wr t cs w = Inr w' \<and> good w' \<and> console w' = console w @ map of_char cs"
proof (induction cs arbitrary: w)
  case (Cons c cs)
  obtain w1 where w1: "putchar wr t (of_char c) w = Inr (1, w1)" "good w1" "console w1 = console w @ [of_char c]"
    using putchar_prints [OF Cons.prems] by blast
  then show ?case using Cons.IH [OF w1(2)] by auto
qed auto

lemma printf_prints:
  assumes "good w" "\<forall>x \<in> set xs. wf_piece 1000 x"
  shows "\<exists>w'. u_printf wr t fsplit (concat (map piece_chars xs)) (concat (map piece_args xs)) w = Inr (1, w') \<and> good w' \<and>
    console w' = console w @ map of_char (emit 1000 0 (map (piece_text 1000) xs))"
proof -
  obtain p where p: "dopr fsplit 1000 (concat (map piece_chars xs)) (concat (map piece_args xs)) = Inr p" "out p = emit 1000 0 (map (piece_text 1000) xs)"
    using vsnprintf_out [OF assms(2), of fsplit "[]"]
    by (cases "dopr fsplit 1000 (concat (map piece_chars xs)) (concat (map piece_args xs))") (auto simp: vsnprintf_def)
  obtain w' where "put_all wr t (out p) w = Inr w'" "good w'" "console w' = console w @ map of_char (out p)"
    using put_all_prints [OF assms(1)] by blast
  then show ?thesis using u_printf_put_all(1) [OF p(1), of wr t w] p(2) by simp
qed

lemma puts_prints:
  assumes "good w" "length cs \<le> n" "0 \<notin> set cs"
    and "mem_bytes (mem w) p (length cs + 1) = cs @ [0]" "\<forall>i \<le> length cs. p + of_nat i \<noteq> t"
  shows "\<exists>w'. puts n wr t p k w = Inr (k + of_nat (length cs) + 1, w') \<and> good w' \<and> console w' = console w @ cs @ [10]"
  using assms
proof (induction cs arbitrary: n w p k)
  case Nil
  obtain w1 where "putchar wr t 10 w = Inr (1, w1)" "good w1" "console w1 = console w @ [10]" using putchar_prints [OF Nil(1)] by blast
  then show ?case using Nil(4) by (subst puts.simps) (simp add: mem_bytes_def)
next
  case (Cons c cs)
  obtain w1 where w1: "putchar wr t c w = Inr (1, w1)" "good w1" "console w1 = console w @ [c]" "mem w1 = (mem w)(t := c)"
    using putchar_prints [OF Cons.prems(1)] by blast
  have c: "mem w p = c" "c \<noteq> 0" "mem_bytes (mem w) (p + 1) (length cs + 1) = cs @ [0]"
    using Cons.prems(3,4) by (simp_all add: mem_bytes_Cons)
  have t: "\<forall>i \<le> length cs. p + 1 + of_nat i \<noteq> t"
  proof (intro allI impI)
    fix i assume "i \<le> length cs"
    then have "p + of_nat (Suc i) \<noteq> t" using Cons.prems(5) by (simp del: of_nat_Suc)
    then show "p + 1 + of_nat i \<noteq> t" by (simp add: add.assoc)
  qed
  obtain n' where n: "n = Suc n'" using Cons.prems(2) by (cases n) simp_all
  have "mem_bytes (mem w1) (p + 1) (length cs + 1) = cs @ [0]" using t c(3) by (subst w1(4), subst mem_bytes_upd) auto
  then obtain w2 where "puts n' wr t (p + 1) (k + 1) w1 = Inr (k + 1 + of_nat (length cs) + 1, w2)" "good w2" "console w2 = console w1 @ cs @ [10]"
    using Cons.IH [OF w1(2), of n' "p + 1" "k + 1"] Cons.prems(2,3) n t by auto
  moreover have "\<not> sint (1 :: u32) < 0" by simp
  ultimately show ?case using c(1,2) n w1(1,3) by (subst puts.simps) (simp add: Let_def algebra_simps)
qed

end

text \<open>A world where descriptor 1 names a console, with the variable of \<open>putchar\<close> in the private part of the memory.\<close>

definition prints_on :: "u32 \<Rightarrow> 's world \<Rightarrow> bool" where
  "prints_on t w \<longleftrightarrow>
     0x80000000 \<le> t \<and> fdt (my_pcb w) ! 1 \<noteq> 0 \<and>
     (\<exists>cons off. files w (fdt (my_pcb w) ! 1) = Some \<lparr>of_node = Some cons, of_offset = off\<rparr> \<and> cons \<in> {Stdout, Stderr})"

lemma user_buffer_valid: "0x80000000 \<le> addr \<Longrightarrow> address_valid addr sz"
proof -
  have "x \<le> 0xFFFFFFFF" for x :: u32 using unat_u32_less [of x] by (simp add: word_le_nat_alt)
  then show "0x80000000 \<le> addr \<Longrightarrow> address_valid addr sz" unfolding address_valid_def by blast
qed

lemma user_write_console:
  assumes "0x80000000 \<le> buf" "k \<le> 100" "unat fd < PCB_ARR_SIZE" "fdt (my_pcb w) ! unat fd = h" "h \<noteq> 0"
    and "files w h = Some \<lparr>of_node = Some cons, of_offset = off\<rparr>" "cons \<in> {Stdout, Stderr}"
  shows "sys_write env fd buf (of_nat k) w =
    Inr (Ret (of_nat k), put_file h \<lparr>of_node = Some cons, of_offset = off + of_nat k\<rparr> (w\<lparr>console := console w @ mem_bytes (mem w) buf k\<rparr>))"
proof -
  have "sint (of_nat k :: u32) = int k" using assms(2) by (simp add: sint_uint uint_nat signed_take_bit_int_eq_self)
  moreover have "unat (of_nat k :: u32) = k" using assms(2) by simp
  ultimately show ?thesis using assms by (auto simp: sys_write_def fnode_write_def Let_def user_buffer_valid)
qed

lemma prints_on_law:
  assumes "prints_on t w"
  shows "\<exists>w'. sys_write env 1 t 1 w = Inr (Ret 1, w') \<and> prints_on t w' \<and> console w' = console w @ [mem w t] \<and> mem w' = mem w"
proof -
  let ?h = "fdt (my_pcb w) ! 1"
  obtain cons off where f: "files w ?h = Some \<lparr>of_node = Some cons, of_offset = off\<rparr>" "cons \<in> {Stdout, Stderr}"
    using assms by (auto simp: prints_on_def)
  let ?w = "put_file ?h \<lparr>of_node = Some cons, of_offset = off + 1\<rparr> (w\<lparr>console := console w @ mem_bytes (mem w) t 1\<rparr>)"
  have "sys_write env 1 t 1 w = Inr (Ret 1, ?w)"
    using user_write_console [OF _ _ _ _ _ f, of t 1 1 env] assms by (simp add: prints_on_def PCB_ARR_SIZE_def)
  moreover have "mem ?w = mem w" by (auto simp: mem_def put_file_def)
  moreover have p: "my_pcb ?w = my_pcb w" "files ?w ?h = Some \<lparr>of_node = Some cons, of_offset = off + 1\<rparr>" "console ?w = console w @ [mem w t]"
    by (simp_all add: my_pcb_def put_file_def mem_bytes_def)
  moreover have "prints_on t ?w" using assms f(2) p(2) unfolding prints_on_def p(1) by auto
  ultimately show ?thesis by blast
qed

lemma prints_on_mem: "prints_on t w \<Longrightarrow> prints_on t (set_mem m w)"
  by (simp add: prints_on_def set_mem_def my_pcb_def)

interpretation kernel_console: console_writer "sys_write env" t "prints_on t" for env t
  using prints_on_law prints_on_mem by unfold_locales

text \<open>
  (user_printf_prints) When descriptor 1 of a process names a console, \<open>printf\<close> of a format of characters and directives returns 1, and the console shows the text of the format: the texts of
  its pieces in order, up to the first that begins at character 1000 or later.
\<close>

theorem user_printf_prints:
  assumes "0x80000000 \<le> t" "fdt (my_pcb w) ! 1 = h" "h \<noteq> 0" "files w h = Some \<lparr>of_node = Some Stdout, of_offset = off\<rparr>"
    and "\<forall>x \<in> set xs. wf_piece 1000 x"
  shows "\<exists>w'. u_printf (sys_write env) t fsplit (concat (map piece_chars xs)) (concat (map piece_args xs)) w = Inr (1, w') \<and>
    console w' = console w @ map of_char (emit 1000 0 (map (piece_text 1000) xs))"
proof -
  have "prints_on t w" using assms(1-4) by (simp add: prints_on_def)
  from kernel_console.printf_prints [OF this assms(5)] show ?thesis by blast
qed

text \<open>
  (user_puts_prints) \<open>puts\<close> on a console prints the string at its argument and a newline and returns the number of characters printed, for a string that the variable of \<open>putchar\<close> does not
  overwrite.
\<close>

theorem user_puts_prints:
  assumes "0x80000000 \<le> t" "fdt (my_pcb w) ! 1 = h" "h \<noteq> 0" "files w h = Some \<lparr>of_node = Some Stdout, of_offset = off\<rparr>"
    and "mem_bytes (mem w) p (length cs + 1) = cs @ [0]" "0 \<notin> set cs" "\<forall>i \<le> length cs. p + of_nat i \<noteq> t"
  shows "\<exists>w'. puts (length cs) (sys_write env) t p 0 w = Inr (of_nat (length cs) + 1, w') \<and> console w' = console w @ cs @ [10]"
proof -
  have "prints_on t w" using assms(1-4) by (simp add: prints_on_def)
  from kernel_console.puts_prints [OF this order_refl assms(6,5,7), of env 0] show ?thesis by auto
qed

theorem user_printf_prints_witness:
  "\<exists>w'. u_printf (sys_write (demo_env ramp_disk image_fs)) 0xF0000000 fsplit_none ''n=%4d'' [ANum 42] (first_process (cache_new (ide_new 1 0))) = Inr (1, w') \<and>
     console w' = map of_char ''n=  42''"
proof -
  let ?w = "first_process (cache_new (ide_new 1 0))"
  let ?xs = "[Lit CHR ''n'', Lit CHR ''='', Dir (Directive [] ''4'' None None CHR ''d'') [ANum 42]] :: unit piece list"
  have n: "show_base False 10 42 = ''42''" by (simp add: show_base.simps digit_of_def)
  note d = directive_text_def num_text_def int_text_def int_sign_def int_digits_def sign_chars_def flag_of_def prec_of_def number_of_def char_to_int_def
    DP_F_MINUS_def DP_F_PLUS_def DP_F_SPACE_def DP_F_NUM_def DP_F_ZERO_def DP_F_UP_def DP_F_UNSIGNED_def Let_def
  have s: "\<not> sint (42 :: u32) < 0" by (simp add: sint_uint signed_take_bit_int_eq_self)
  have r: "replicate 2 c = [c, c]" for c :: char by (simp add: numeral_2_eq_2)
  have wf: "\<forall>x \<in> set ?xs. wf_piece 1000 x" by (simp add: d wf_directive_def flag_chars_def mod_chars_def conv_chars_def isdigit_def)
  have c: "concat (map piece_chars ?xs) = ''n=%4d''" "concat (map piece_args ?xs) = [ANum 42]" by (simp_all add: directive_chars_def)
  have "map (piece_text 1000) ?xs = [''n'', ''='', ''  42'']" using s r by (simp add: d n)
  then have e: "emit 1000 0 (map (piece_text 1000) ?xs) = ''n=  42''" by simp
  have "fdt (my_pcb ?w) ! 1 = 2" "(2 :: nat) \<noteq> 0" "files ?w 2 = Some \<lparr>of_node = Some Stdout, of_offset = 0\<rparr>" "console ?w = []"
    by (simp_all add: first_process_fields first_pcb_def open_file_new_def)
  then show ?thesis
    using user_printf_prints [of "0xF0000000" ?w 2 0 ?xs "demo_env ramp_disk image_fs" fsplit_none] wf unfolding c e by (simp add: word_le_nat_alt)
qed

theorem user_puts_prints_witness:
  "\<exists>w w'. puts 2 (sys_write (demo_env ramp_disk image_fs)) 0xF0000000 0x80000000 0 w = Inr (3, w') \<and> console w' = [111, 107, 10]"
proof -
  define w where "w = set_mem (mem_write (\<lambda>_. 0) 0x80000000 [111, 107, 0]) (first_process (cache_new (ide_new 1 0)))"
  have w: "fdt (my_pcb w) ! 1 = 2" "(2 :: nat) \<noteq> 0" "files w 2 = Some \<lparr>of_node = Some Stdout, of_offset = 0\<rparr>" "console w = []"
    by (simp_all add: w_def set_mem_def my_pcb_def first_process_fields [unfolded my_pcb_def] first_pcb_def open_file_new_def)
  have m: "mem_bytes (mem w) 0x80000000 (length [111, 107 :: u8] + 1) = [111, 107] @ [0]"
    using mem_write_same [of "[111, 107, 0]" "\<lambda>_. 0" "0x80000000"] by (simp add: w_def)
  have "i = 0 \<or> i = 1 \<or> i = 2" if "i \<le> length [111, 107 :: u8]" for i using that by auto
  then have "\<forall>i \<le> length [111, 107 :: u8]. (0x80000000 :: u32) + of_nat i \<noteq> 0xF0000000" by fastforce
  moreover have "length [111, 107 :: u8] = 2" "(0x80000000 :: u32) \<le> 0xF0000000" by (simp_all add: word_le_nat_alt)
  ultimately show ?thesis using user_puts_prints [OF _ w(1-3) m, of "0xF0000000" "demo_env ramp_disk image_fs"] w(4)
    by (auto simp: small_numbers)
qed

end
