(* ===== verification/UserLib.thy ===== *)
theory UserLib
  imports UserPrintf
begin

text \<open>
  The copy of a file to a console in the library of the user programs, \<open>my-test.dir/sbin/libc.c\<close>, over the system calls \<open>read\<close> and \<open>write\<close>.

  The calls are arguments: \<open>rd\<close> and \<open>wr\<close> take descriptor, buffer and size, as the stubs of \<open>sys.S\<close> pass them on. Local arrays are at fixed addresses of the user stack: \<open>t\<close> is
  the character of \<open>putchar\<close>, \<open>buf\<close> the buffer of \<open>cp\<close>, and \<open>file\<close> is \<open>__FILE__\<close>. One unit of fuel per turn of a loop.
\<close>

section \<open>Definitions\<close>

fun cp_write :: "nat \<Rightarrow> 's ucall \<Rightarrow> u32 \<Rightarrow> string \<Rightarrow> u32 \<Rightarrow> u32 \<Rightarrow> u32 \<Rightarrow> 's world \<Rightarrow> 's world res" where
  "cp_write k wr t file to ptr n w =
     (if sint n > 0 then
        bindR (call_result (wr to ptr n w)) (\<lambda>(m, w1).
          if sint m < 0
          then mapR snd (u_printf wr t fsplit_none (''*** %s:%d write error, fd = %d'' @ [char_of (10 :: nat)]) [AStr (Some file), ANum 34, ANum to] w1)
          else case k of 0 \<Rightarrow> Inl NoFuel | Suc k' \<Rightarrow> cp_write k' wr t file to (ptr + m) (n - m) w1)
      else Inr w)"

declare cp_write.simps [simp del]

fun cp :: "nat \<Rightarrow> 's ucall \<Rightarrow> 's ucall \<Rightarrow> u32 \<Rightarrow> string \<Rightarrow> u32 \<Rightarrow> u32 \<Rightarrow> u32 \<Rightarrow> 's world \<Rightarrow> 's world res" where
  "cp k rd wr t file buf src to w =
     bindR (call_result (rd src buf 100 w)) (\<lambda>(n, w1).
       if n = 0 then Inr w1
       else if sint n < 0
       then mapR snd (u_printf wr t fsplit_none (''*** %s:%d read error, fd = %d'' @ [char_of (10 :: nat)]) [AStr (Some file), ANum 27, ANum src] w1)
       else bindR (cp_write k wr t file to buf n w1) (\<lambda>w2.
              case k of 0 \<Rightarrow> Inl NoFuel | Suc k' \<Rightarrow> cp k' rd wr t file buf src to w2))"

declare cp.simps [simp del]

section \<open>What the calls have to promise\<close>

text \<open>
  \<open>good w\<close>: both descriptors work in the state \<open>w\<close>; \<open>rest w\<close>: the bytes that are still to be read.
\<close>

locale copying =
  fixes rd wr :: "'s ucall" and src to buf :: u32
    and good :: "'s world \<Rightarrow> bool" and rest :: "'s world \<Rightarrow> u8 list"
  assumes rd_law: "good w \<Longrightarrow> \<exists>w'. rd src buf 100 w = Inr (Ret (of_nat (min 100 (length (rest w)))), w') \<and> good w' \<and> rest w' = drop 100 (rest w) \<and>
      console w' = console w \<and> mem_bytes (mem w') buf (min 100 (length (rest w))) = take 100 (rest w)"
    and wr_law: "good w \<Longrightarrow> 0 < k \<Longrightarrow> k \<le> 100 \<Longrightarrow> \<exists>w'. wr to buf (of_nat k) w = Inr (Ret (of_nat k), w') \<and> good w' \<and> rest w' = rest w \<and>
      console w' = console w @ mem_bytes (mem w) buf k"
begin

lemma sint_small: "k \<le> 100 \<Longrightarrow> sint (of_nat k :: u32) = int k"
  by (simp add: sint_uint uint_nat signed_take_bit_int_eq_self)

lemma write_block:
  assumes "good w" "0 < k" "k \<le> 100"
  shows "\<exists>w'. cp_write (Suc n) wr t file to buf (of_nat k) w = Inr w' \<and> good w' \<and> rest w' = rest w \<and>
    console w' = console w @ mem_bytes (mem w) buf k"
proof -
  obtain w' where w': "wr to buf (of_nat k) w = Inr (Ret (of_nat k), w')" "good w'" "rest w' = rest w" "console w' = console w @ mem_bytes (mem w) buf k"
    using wr_law [OF assms] by blast
  have z: "cp_write n wr t file to p 0 w' = Inr w'" for n p by (subst cp_write.simps) simp
  have "cp_write (Suc n) wr t file to buf (of_nat k) w = Inr w'"
    using assms(2,3) w'(1) by (subst cp_write.simps) (simp add: sint_small call_result_def z)
  then show ?thesis using w'(2-4) by blast
qed

lemma cp_copies:
  "good w \<Longrightarrow> length (rest w) \<le> 100 * n \<Longrightarrow>
   \<exists>w'. cp n rd wr t file buf src to w = Inr w' \<and> good w' \<and> rest w' = [] \<and> console w' = console w @ rest w"
proof (induction n arbitrary: w)
  case 0
  obtain w1 where w1: "rd src buf 100 w = Inr (Ret 0, w1)" "good w1" "rest w1 = []" "console w1 = console w"
    using rd_law [OF 0(1)] 0(2) by auto
  then show ?case using 0(2) by (subst cp.simps) (simp add: call_result_def)
next
  case (Suc n)
  define k where "k = min 100 (length (rest w))"
  obtain w1 where w1: "rd src buf 100 w = Inr (Ret (of_nat k), w1)" "good w1" "rest w1 = drop 100 (rest w)" "console w1 = console w"
    "mem_bytes (mem w1) buf k = take 100 (rest w)" using rd_law [OF Suc.prems(1)] unfolding k_def by blast
  have k: "k \<le> 100" "(of_nat k :: u32) = 0 \<longleftrightarrow> k = 0" by (simp_all add: k_def word_unat_eq_iff)
  show ?case
  proof (cases "k = 0")
    case True
    then have "rest w = []" by (simp add: k_def min_def split: if_splits)
    then show ?thesis using w1 True by (subst cp.simps) (simp add: call_result_def)
  next
    case False
    then obtain w2 where w2: "cp_write (Suc n) wr t file to buf (of_nat k) w1 = Inr w2" "good w2" "rest w2 = rest w1"
      "console w2 = console w1 @ mem_bytes (mem w1) buf k" using write_block [OF w1(2) _ k(1)] by blast
    have "length (rest w2) \<le> 100 * n" using Suc.prems(2) by (simp add: w2(3) w1(3))
    from Suc.IH [OF w2(2) this] obtain w3 where w3: "cp n rd wr t file buf src to w2 = Inr w3" "good w3" "rest w3 = []"
      "console w3 = console w2 @ rest w2" by blast
    have "cp (Suc n) rd wr t file buf src to w = Inr w3"
      using False k w1(1) w2(1) w3(1) by (subst cp.simps) (simp add: call_result_def sint_small)
    moreover have "console w3 = console w @ rest w" using w3(4) w2(3,4) w1(3-5) by (simp add: append_take_drop_id)
    ultimately show ?thesis using w3(2,3) by blast
  qed
qed

end

section \<open>The calls of the kernel keep these promises\<close>

definition cp_good :: "ide cache env \<Rightarrow> ide_hw \<Rightarrow> nat \<Rightarrow> u32 \<Rightarrow> u32 \<Rightarrow> u32 \<Rightarrow> ide cache world \<Rightarrow> bool" where
  "cp_good env hw fuel src to buf w \<longleftrightarrow>
     e_io env = cache_io (ide_io hw fuel) \<and> cache_small hw fuel (dev w) \<and> 0x80000000 \<le> buf \<and> unat src < PCB_ARR_SIZE \<and> unat to < PCB_ARR_SIZE \<and>
     fdt (my_pcb w) ! unat src \<noteq> 0 \<and> fdt (my_pcb w) ! unat to \<noteq> 0 \<and>
     (\<exists>nd off cons off'. files w (fdt (my_pcb w) ! unat src) = Some \<lparr>of_node = Some (File nd), of_offset = off\<rparr> \<and>
        node_wf (disk_byte hw (drive (cdev (dev w)))) disk_limit nd \<and> off \<le> size_low (data nd) \<and>
        files w (fdt (my_pcb w) ! unat to) = Some \<lparr>of_node = Some cons, of_offset = off'\<rparr> \<and> cons \<in> {Stdout, Stderr})"

definition cp_rest :: "ide_hw \<Rightarrow> u32 \<Rightarrow> ide cache world \<Rightarrow> u8 list" where
  "cp_rest hw src w =
     (let f = the (files w (fdt (my_pcb w) ! unat src)) in
      case of_node f of
        Some (File nd) \<Rightarrow> bytes_at (node_byte (disk_byte hw (drive (cdev (dev w)))) nd) (unat (of_offset f)) (unat (size_low (data nd)) - unat (of_offset f))
      | _ \<Rightarrow> [])"

lemma bytes_at_split: "k \<le> n \<Longrightarrow> take k (bytes_at f a n) = bytes_at f a k \<and> drop k (bytes_at f a n) = bytes_at f (a + k) (n - k)"
proof -
  assume "k \<le> n"
  then have "bytes_at f a n = bytes_at f a k @ bytes_at f (a + k) (n - k)" using bytes_at_append [of f a k "n - k"] by simp
  then show ?thesis by simp
qed

lemma cp_read_law:
  assumes good: "cp_good env hw fuel src to buf w"
  shows "\<exists>w'. sys_read env src buf 100 w = Inr (Ret (of_nat (min 100 (length (cp_rest hw src w)))), w') \<and> cp_good env hw fuel src to buf w' \<and>
    cp_rest hw src w' = drop 100 (cp_rest hw src w) \<and> console w' = console w \<and>
    mem_bytes (mem w') buf (min 100 (length (cp_rest hw src w))) = take 100 (cp_rest hw src w)"
proof -
  let ?h = "fdt (my_pcb w) ! unat src" and ?ht = "fdt (my_pcb w) ! unat to"
  obtain nd off cons off' where g: "files w ?h = Some \<lparr>of_node = Some (File nd), of_offset = off\<rparr>"
    "node_wf (disk_byte hw (drive (cdev (dev w)))) disk_limit nd" "off \<le> size_low (data nd)" "files w ?ht = Some \<lparr>of_node = Some cons, of_offset = off'\<rparr>"
    "cons \<in> {Stdout, Stderr}" using good by (auto simp: cp_good_def)
  have c: "e_io env = cache_io (ide_io hw fuel)" "cache_small hw fuel (dev w)" "unat src < PCB_ARR_SIZE" "?h \<noteq> 0" "address_valid buf 100"
    using good by (auto simp: cp_good_def user_buffer_valid)
  let ?f = "node_byte (disk_byte hw (drive (cdev (dev w)))) nd" and ?n = "unat (size_low (data nd)) - unat off"
  define k where "k = min 100 ?n"
  have rest: "cp_rest hw src w = bytes_at ?f (unat off) ?n" by (simp add: cp_rest_def g(1))
  then have k': "min 100 (length (cp_rest hw src w)) = k" by (simp add: k_def)
  obtain w' where w': "sys_read env src buf 100 w = Inr (Ret (of_nat k), w')" "mem_bytes (mem w') buf k = bytes_at ?f (unat off) k"
    "files w' = (files w)(?h \<mapsto> \<lparr>of_node = Some (File nd), of_offset = off + of_nat k\<rparr>)" "pcbs w' = pcbs w" "t_pcb (me w') = t_pcb (me w)" "console w' = console w"
    "cache_small hw fuel (dev w')" "drive (cdev (dev w')) = drive (cdev (dev w))"
    using sys_read_ok [OF c(1,2,3) refl c(4) g(1,2,3) c(5)] by (auto simp: k_def Let_def)
  have p: "my_pcb w' = my_pcb w" by (simp add: my_pcb_def w'(4,5))
  have u: "unat (off + of_nat k) = unat off + k"
  proof -
    have "unat (of_nat k :: u32) = k" by (simp add: k_def)
    moreover have "unat off + k \<le> unat (size_low (data nd))" using g(3) by (simp add: k_def word_le_nat_alt)
    ultimately show ?thesis using unat_u32_less [of "size_low (data nd)"] by (subst unat_plus_no_wrap) linarith+
  qed
  have "?ht \<noteq> ?h" using g(1,4,5) by auto
  then have "cp_good env hw fuel src to buf w'"
    using good g w'(3,7,8) u unfolding cp_good_def p by (auto simp: word_le_nat_alt k_def)
  moreover have "cp_rest hw src w' = drop 100 (cp_rest hw src w)"
  proof -
    have "cp_rest hw src w' = bytes_at ?f (unat off + k) (?n - k)" by (simp add: cp_rest_def p w'(3,8) u)
    also have "\<dots> = drop 100 (bytes_at ?f (unat off) ?n)"
    proof (cases "?n \<le> 100")
      case True
      then show ?thesis by (simp add: k_def bytes_at_def)
    next
      case False
      then show ?thesis using bytes_at_split [of 100 ?n ?f "unat off"] by (simp add: k_def)
    qed
    finally show ?thesis by (simp add: rest)
  qed
  moreover have "take 100 (cp_rest hw src w) = bytes_at ?f (unat off) k"
    using bytes_at_split [of k ?n ?f "unat off"] by (cases "?n \<le> 100") (simp_all add: rest k_def)
  ultimately show ?thesis using w'(1,2,6) unfolding k' by (intro exI [of _ w']) simp
qed

lemma cp_write_law:
  assumes good: "cp_good env hw fuel src to buf w" and k: "0 < k" "k \<le> 100"
  shows "\<exists>w'. sys_write env to buf (of_nat k) w = Inr (Ret (of_nat k), w') \<and> cp_good env hw fuel src to buf w' \<and>
    cp_rest hw src w' = cp_rest hw src w \<and> console w' = console w @ mem_bytes (mem w) buf k"
proof -
  let ?h = "fdt (my_pcb w) ! unat src" and ?ht = "fdt (my_pcb w) ! unat to"
  obtain nd off cons off' where g: "files w ?h = Some \<lparr>of_node = Some (File nd), of_offset = off\<rparr>"
    "files w ?ht = Some \<lparr>of_node = Some cons, of_offset = off'\<rparr>" "cons \<in> {Stdout, Stderr}" using good by (auto simp: cp_good_def)
  let ?w = "put_file ?ht \<lparr>of_node = Some cons, of_offset = off' + of_nat k\<rparr> (w\<lparr>console := console w @ mem_bytes (mem w) buf k\<rparr>)"
  have r: "sys_write env to buf (of_nat k) w = Inr (Ret (of_nat k), ?w)"
    using good by (intro user_write_console [OF _ k(2) _ refl _ g(2,3)]) (auto simp: cp_good_def)
  have f: "my_pcb ?w = my_pcb w" "dev ?w = dev w" "files ?w = (files w)(?ht \<mapsto> \<lparr>of_node = Some cons, of_offset = off' + of_nat k\<rparr>)"
    "console ?w = console w @ mem_bytes (mem w) buf k" by (simp_all add: my_pcb_def put_file_def)
  have ne: "?h \<noteq> ?ht" using g by auto
  have "cp_good env hw fuel src to buf ?w" using good g ne unfolding cp_good_def f by auto
  moreover have "cp_rest hw src ?w = cp_rest hw src w" using ne unfolding cp_rest_def f by simp
  ultimately show ?thesis using r f(4) by blast
qed

interpretation kernel_copy: copying "sys_read env" "sys_write env" src to buf "cp_good env hw fuel src to buf" "cp_rest hw src" for env hw fuel src to buf
  using cp_read_law cp_write_law by unfold_locales



end
