(* ===== verification/Libk.thy ===== *)
theory Libk
  imports Prelude
begin

text \<open>
  Small library code of the kernel: the comparison of strings of \<open>kernel/libk.cc\<close>, the minimum of \<open>kernel/libk.h\<close> and the random numbers of \<open>kernel/random.h\<close>.
\<close>

section \<open>Strings\<close>

text \<open>\<open>K::streq\<close> on bytes in memory, from index \<open>i\<close> on; one unit of fuel per turn.\<close>

fun streq :: "nat \<Rightarrow> (u32 \<Rightarrow> u8) \<Rightarrow> u32 \<Rightarrow> u32 \<Rightarrow> u32 \<Rightarrow> bool option" where
  "streq n m a b i =
     (let x = m (a + i); y = m (b + i) in
      if x \<noteq> y then Some False
      else if x = 0 then Some True
      else case n of 0 \<Rightarrow> None | Suc n' \<Rightarrow> streq n' m a b (i + 1))"

declare streq.simps [simp del]

text \<open>\<open>c_string m a cs\<close>: the string \<open>cs\<close>, with its NUL, is at \<open>a\<close>.\<close>

fun c_string :: "(u32 \<Rightarrow> u8) \<Rightarrow> u32 \<Rightarrow> u8 list \<Rightarrow> bool" where
  "c_string m a [] \<longleftrightarrow> m a = 0"
| "c_string m a (c # cs) \<longleftrightarrow> m a = c \<and> c \<noteq> 0 \<and> c_string m (a + 1) cs"

lemma streq_from: "c_string m (a + i) xs \<Longrightarrow> c_string m (b + i) ys \<Longrightarrow> min (length xs) (length ys) \<le> n \<Longrightarrow> streq n m a b i = Some (xs = ys)"
proof (induction xs arbitrary: ys i n)
  case Nil
  then show ?case by (cases ys) (auto simp: streq.simps [of n m a b i] Let_def)
next
  case (Cons x xs)
  show ?case
  proof (cases ys)
    case Nil
    then show ?thesis using Cons.prems by (auto simp: streq.simps [of n m a b i] Let_def)
  next
    case (Cons y zs)
    then obtain n' where n: "n = Suc n'" using Cons.prems(3) by (cases n) auto
    have "streq n' m a b (i + 1) = Some (xs = zs)"
      using Cons.prems \<open>ys = y # zs\<close> n by (intro Cons.IH) (auto simp: algebra_simps)
    then show ?thesis using Cons.prems \<open>ys = y # zs\<close> n by (auto simp: streq.simps [of "Suc n'" m a b i] Let_def)
  qed
qed

text \<open>
  (streq_correct) \<open>K::streq\<close> returns, with one turn per character of the shorter string, and its result is whether the strings are equal.
\<close>

theorem streq_correct:
  assumes "c_string m a xs" "c_string m b ys"
  shows "streq (min (length xs) (length ys)) m a b 0 = Some (xs = ys)"
  using streq_from [of m a 0 xs b ys] assms by simp

theorem streq_correct_witness: "streq 1 (\<lambda>p. if p = 0 then 5 else if p = 4 then 5 else if p = 5 then 6 else 0) 0 4 0 = Some False"
  using streq_correct [of "\<lambda>p. if p = 0 then 5 else if p = 4 then 5 else if p = 5 then 6 else 0" 0 "[5]" 4 "[5, 6]"] by simp

section \<open>Minimum\<close>

text \<open>\<open>K::min\<close> of one argument and of several.\<close>

fun kmin :: "'a :: linorder \<Rightarrow> 'a list \<Rightarrow> 'a" where
  "kmin v [] = v"
| "kmin a (m # more) = (let rest = kmin m more in if a < rest then a else rest)"

lemma kmin_Min: "kmin a xs = Min (set (a # xs))"
proof (induction xs arbitrary: a)
  case (Cons x xs)
  have "Min (set (a # x # xs)) = min a (Min (set (x # xs)))" by (simp only: list.set(2) [of a]) (rule Min_insert, auto)
  moreover have "kmin a (x # xs) = min a (kmin x xs)" by (auto simp: Let_def min_def)
  ultimately show ?case by (simp only: Cons.IH)
qed simp

section \<open>Random numbers\<close>

record random =
  rw :: u32
  rz :: u32

definition random_new :: "u32 \<Rightarrow> random" where
  "random_new seed =
     (let w = seed; z = NOT seed;
          w' = (if w = 0 \<or> w = 0x464fffff then w + 1 else w);
          z' = (if z = 0 \<or> z = 0x9068ffff then z + 1 else z)
      in \<lparr>rw = w', rz = z'\<rparr>)"

text \<open>One half of the generator: multiply with carry.\<close>

definition mwc :: "u32 \<Rightarrow> u32 \<Rightarrow> u32" where
  "mwc k x = k * (x AND 65535) + drop_bit 16 x"

definition random_next :: "random \<Rightarrow> u32 \<times> random" where
  "random_next r =
     (let z = mwc 36969 (rz r); w = mwc 18000 (rw r) in (push_bit 16 z + w, \<lparr>rw = w, rz = z\<rparr>))"

lemma unat_mwc:
  assumes "unat k * 65535 + 65535 < 2 ^ 32"
  shows "unat (mwc k x) = unat k * (unat x mod 65536) + unat x div 65536"
proof -
  have lo: "unat (x AND 65535) = unat x mod 65536"
  proof -
    have "(65535 :: nat) = mask 16" by (simp add: mask_eq_exp_minus_1)
    then have "unat x AND 65535 = unat x mod 65536" by (simp only: flip: take_bit_eq_mask) (simp add: take_bit_eq_mod)
    then show ?thesis by (simp add: unsigned_and_eq)
  qed
  have hi: "unat (drop_bit 16 x) = unat x div 65536" by (simp add: drop_bit_eq_div unat_div)
  have "unat x < 2 ^ 32" by (rule unat_u32_less)
  then have "unat x div 65536 \<le> 65535" by (simp add: less_mult_imp_div_less)
  moreover have "unat k * (unat x mod 65536) \<le> unat k * 65535" by (intro mult_left_mono) simp_all
  ultimately have "unat k * (unat x mod 65536) + unat x div 65536 < 2 ^ 32" using assms by linarith
  then show ?thesis by (simp add: mwc_def unat_word_ariths lo hi)
qed

text \<open>The two values at which a half stays where it is.\<close>

lemma halves_word: "unat (x :: u32) = unat x div 65536 * 65536 + unat x mod 65536" "unat x mod 65536 < 65536" "unat x div 65536 < 65536"
  using unat_u32_less [of x] by simp_all

lemma mwc_fixed_nat:
  assumes "k * b + a = a * 65536 + b" "b < 65536" "coprime (k - 1) (65535 :: nat)" "0 < k"
  shows "a = 0 \<and> b = 0 \<or> a = k - 1 \<and> b = 65535"
proof -
  obtain j where j: "k = Suc j" using assms(4) by (cases k) auto
  have e: "j * b = a * 65535" using assms(1) j by simp
  then have "65535 dvd j * b" by simp
  then have "65535 dvd b" using assms(3) j by (simp add: coprime_dvd_mult_right_iff coprime_commute)
  then have "b = 0 \<or> b = 65535" using assms(2) by (auto elim!: dvdE)
  then show ?thesis using e j by auto
qed

lemma word_at_halves: "b < 65536 \<Longrightarrow> unat (x :: u32) = a * 65536 + b \<longleftrightarrow> unat x div 65536 = a \<and> unat x mod 65536 = b"
  using halves_word(1) [of x] by auto

lemma mwc_fixed:
  assumes "unat k * 65535 + 65535 < 2 ^ 32" "coprime (unat k - 1) (65535 :: nat)" "0 < unat k"
  shows "mwc k x = x \<longleftrightarrow> unat x = 0 \<or> unat x = (unat k - 1) * 65536 + 65535"
proof -
  define a where "a = unat x div 65536"
  define b where "b = unat x mod 65536"
  have x: "unat x = a * 65536 + b" "b < 65536" by (simp_all add: a_def b_def)
  have m: "unat (mwc k x) = unat k * b + a" unfolding a_def b_def by (rule unat_mwc [OF assms(1)])
  have "mwc k x = x \<longleftrightarrow> unat k * b + a = a * 65536 + b" unfolding word_unat_eq_iff m x(1) ..
  also have "\<dots> \<longleftrightarrow> a = 0 \<and> b = 0 \<or> a = unat k - 1 \<and> b = 65535"
  proof
    show "a = 0 \<and> b = 0 \<or> a = unat k - 1 \<and> b = 65535 \<Longrightarrow> unat k * b + a = a * 65536 + b"
      using assms(3) by (cases "unat k") auto
  qed (rule mwc_fixed_nat [OF _ x(2) assms(2,3)])
  also have "\<dots> \<longleftrightarrow> unat x = 0 \<or> unat x = (unat k - 1) * 65536 + 65535"
    using word_at_halves [of 65535 x "unat k - 1"] by (auto simp: a_def b_def)
  finally show ?thesis .
qed

lemma mwc_fixed_points: "mwc 18000 x = x \<longleftrightarrow> x = 0 \<or> x = 0x464fffff" "mwc 36969 x = x \<longleftrightarrow> x = 0 \<or> x = 0x9068ffff"
proof -
  have c: "coprime 17999 (65535 :: nat)" "coprime 36968 (65535 :: nat)" by (simp_all add: coprime_iff_gcd_eq_1 gcd_non_0_nat)
  show "mwc 18000 x = x \<longleftrightarrow> x = 0 \<or> x = 0x464fffff" using mwc_fixed [of 18000 x] c(1) by (simp add: word_unat_eq_iff [of x])
  show "mwc 36969 x = x \<longleftrightarrow> x = 0 \<or> x = 0x9068ffff" using mwc_fixed [of 36969 x] c(2) by (simp add: word_unat_eq_iff [of x])
qed

lemma mwc_reaches: "mwc 18000 x = 0x464fffff \<longleftrightarrow> x \<in> {0x464fffff, 0x8c9ffffe, 0xd2effffd}"
proof -
  define a where "a = unat x div 65536"
  define b where "b = unat x mod 65536"
  have x: "unat x = a * 65536 + b" "b < 65536" "a < 65536" unfolding a_def b_def using halves_word [of x] by simp_all
  have m: "unat (mwc 18000 x) = 18000 * b + a" unfolding a_def b_def using unat_mwc [of 18000 x] by simp
  have "18000 * b + a = 0x464fffff \<longleftrightarrow> a = 17999 \<and> b = 65535 \<or> a = 35999 \<and> b = 65534 \<or> a = 53999 \<and> b = 65533" (is "?l \<longleftrightarrow> ?r")
  proof
    assume l: ?l
    then have "b = 65535 \<or> b = 65534 \<or> b = 65533" using x(2,3) by linarith
    then show ?r using l by auto
  qed auto
  also have "\<dots> \<longleftrightarrow> unat x = 0x464fffff \<or> unat x = 0x8c9ffffe \<or> unat x = 0xd2effffd"
    using word_at_halves [of 65535 x 17999] word_at_halves [of 65534 x 35999] word_at_halves [of 65533 x 53999] by (simp add: a_def b_def)
  finally show ?thesis using m by (simp add: word_unat_eq_iff)
qed

text \<open>
  (random_seeds) The constructor avoids the values at which a half of the generator stands still. But three values of the first half lead to one of them: itself and two more, which the
  constructor lets pass, so with the seeds 0x8c9ffffe and 0xd2effffd the first half is constant from the first number on.
\<close>

theorem random_seeds:
  "mwc 18000 (rw (random_new seed)) \<noteq> rw (random_new seed) \<and> mwc 36969 (rz (random_new seed)) \<noteq> rz (random_new seed) \<and>
   (mwc 18000 x = 0x464fffff \<longleftrightarrow> x \<in> {0x464fffff, 0x8c9ffffe, 0xd2effffd}) \<and>
   rw (snd (random_next (random_new 0x8c9ffffe))) = 0x464fffff \<and> rw (snd (random_next (random_new 0xd2effffd))) = 0x464fffff"
proof (intro conjI)
  show "mwc 18000 (rw (random_new seed)) \<noteq> rw (random_new seed)" "mwc 36969 (rz (random_new seed)) \<noteq> rz (random_new seed)"
    unfolding mwc_fixed_points by (auto simp: random_new_def Let_def)
  show "mwc 18000 x = 0x464fffff \<longleftrightarrow> x \<in> {0x464fffff, 0x8c9ffffe, 0xd2effffd}" by (rule mwc_reaches)
  show "rw (snd (random_next (random_new 0x8c9ffffe))) = 0x464fffff" "rw (snd (random_next (random_new 0xd2effffd))) = 0x464fffff"
    by (simp_all add: random_next_def random_new_def Let_def mwc_reaches)
qed

end
