(* ===== verification/Spec2Isabelle.thy ===== *)
theory Spec2Isabelle
  imports UserHeap FloatSplit KQueue Spin Sema SharedPtr VMM VMMCopy Ext2Find Snprintf Threads Switch KString Config Debug Start Boot UserLib Libk
begin

text \<open>
  \<^bold>\<open>A verification library for the kernel\<close>

  The program is a small multi-core operating system kernel in C++ (directory \<open>kernel\<close>) with a few user programs in C
  (\<open>my-test.dir\<close>). Every theory translates one group of source files into executable definitions that keep the names, the
  machine integers and the control flow of the source, and proves what makes them correct. Panics, failed assertions,
  accesses that C++ leaves undefined and loops without end are values of the result type of \<open>Prelude\<close>.

  \<^bold>\<open>Parts and theories\<close>

  \<^item> \<open>Prelude\<close>: machine words, results (\<open>res\<close>, \<open>bindR\<close>, \<open>assertR\<close>), shared lemmas.
  \<^item> \<open>KHeap\<close> (\<open>heap.cc\<close>): the allocator with boundary tags on an array of words; locale \<open>allocator\<close> for its clients.
  \<^item> \<open>KQueue\<close> (\<open>queue.h\<close>): the intrusive queue over a shared store of \<open>next\<close> fields; locale \<open>fifo\<close>.
  \<^item> \<open>Spin\<close> (\<open>atomic.h\<close>, \<open>loop.h\<close>): interrupts and spin locks, one step per memory access of any number of cores; \<open>ISL\<close>, which keeps
    the flags with its caller, refines \<open>SpinLock\<close>.
  \<^item> \<open>Sema\<close> (\<open>semaphore.h\<close>, \<open>blocking_lock.h\<close>): semaphores over the queue, one step per critical section.
  \<^item> \<open>SharedPtr\<close> (\<open>shared.h\<close>): reference counts with their atomic operations as steps.
  \<^item> \<open>PhysMem\<close> (\<open>physmem.cc\<close>), \<open>VME\<close> (\<open>vme.cc\<close>), \<open>VMM\<close> (\<open>vmm.cc\<close>): frames, areas of an address space, page tables and the page fault
    handler; locales \<open>frame_source\<close> and \<open>address_space\<close>.
  \<^item> \<open>Path\<close> (\<open>path.h\<close>), \<open>BlockIO\<close> (\<open>block_io.h\<close>), \<open>IdeDisk\<close> (\<open>ide.cc\<close>), \<open>BlockList\<close> and \<open>BufCache\<close> (\<open>buffer_cache.h\<close>), \<open>Ext2\<close>, \<open>Ext2Node\<close> and \<open>Ext2Find\<close>
    (\<open>ext2.cc\<close>, \<open>ext2.h\<close>): the way from sectors to files. The locale \<open>block_device\<close> is the contract of \<open>BlockIO\<close>; the driver and the cache over any
    device are its instances, \<open>cached_device\<close> extends it, and the file system is proved over it.
  \<^item> \<open>VMMCopy\<close> (\<open>fork\<close> of \<open>sys.cc\<close>, \<open>TCB::~TCB\<close> of \<open>threads.cc\<close>): the copy and the release of an address space over the loops of \<open>VMM\<close>.
  \<^item> \<open>Snprintf\<close> (\<open>snprintf.cc\<close>): the format reader as a state machine, and the conversions; \<open>FloatSplit\<close>: the parts of a floating point number over the operations of its type.
  \<^item> \<open>Threads\<close> (\<open>threads.h\<close>, \<open>threads.cc\<close>): the scheduler as steps of the cores over the queue; \<open>Switch\<close> (\<open>context.S\<close>, \<open>TCBWithWork\<close> of \<open>threads.h\<close>): the
    switch between two threads by its instructions, and the stack a new thread is built with.
  \<^item> \<open>Config\<close> (\<open>config.cc\<close>): the tables of the firmware in memory, and the processors they list; \<open>Start\<close> (\<open>init.cc\<close>): the start of all processors as interleaved steps.
  \<^item> \<open>Hardware\<close> (\<open>idt.cc\<close>, \<open>smp.cc\<close>, \<open>pit.cc\<close>, \<open>u8250.cc\<close>): gates, interrupt controller, timers and serial port, as accesses to devices; \<open>Debug\<close> (\<open>debug.cc\<close>):
    messages, assertions and panics over the serial port.
  \<^item> \<open>Libk\<close> (\<open>libk.cc\<close>, \<open>libk.h\<close>, \<open>random.h\<close>): comparison of strings, minimum, random numbers.
  \<^item> \<open>KString\<close> (\<open>utils.h\<close>): the shared representations of strings.
  \<^item> \<open>Buffers\<close> (\<open>bb.h\<close>, \<open>barrier.h\<close>, \<open>promise.h\<close>, \<open>blocking_queue.h\<close>): the clients of the semaphore, one step per critical section or semaphore operation.
  \<^item> \<open>Loader\<close> (\<open>elf.cc\<close>, \<open>load_args\<close> of \<open>kernel.cc\<close>): programs from files into the memory of a process, and the arguments on its stack.
  \<^item> \<open>Process\<close> (\<open>processes.cc\<close>), \<open>Syscall\<close> (\<open>sys.cc\<close>): processes over stores of objects, every system call and the dispatcher; \<open>SysProcess\<close>: the calls that
    involve several processes or a program.
  \<^item> \<open>Boot\<close> (\<open>kernelMain\<close> of \<open>kernel.cc\<close>): from the disk to the first instruction of \<open>/sbin/init\<close>.
  \<^item> \<open>Vga\<close> (\<open>vga.cc\<close>): pixels, pictures, and the accesses to the registers of the graphics card.
  \<^item> \<open>UserHeap\<close> (\<open>heap.c\<close> of the user programs): first fit and \<open>realloc\<close> over the blocks of \<open>KHeap\<close>, a second instance of \<open>allocator\<close>.
  \<^item> \<open>UserPrintf\<close> (\<open>printf.c\<close>, \<open>putchar\<close> and \<open>puts\<close> of \<open>libc.c\<close>): the output of the programs, one system call per character; \<open>UserLib\<close> (\<open>cp\<close> of \<open>libc.c\<close>). The locales
    \<open>console_writer\<close> and \<open>copying\<close> say what they need of \<open>read\<close> and \<open>write\<close>; the calls of \<open>Syscall\<close> are their instances.

  The heap serves all of them. Threads hand their control blocks through the queues of the scheduler and of the semaphores;
  \<open>Sema\<close> and \<open>Threads\<close> use the interface \<open>fifo\<close>. A page fault takes a frame from \<open>PhysMem\<close>, finds the area in \<open>VME\<close>, reads the
  file through \<open>Ext2\<close> and enters the page into the tables of \<open>VMM\<close>. A system call runs over all of these: descriptors and promises of \<open>Process\<close>, paths and files of
  \<open>Ext2\<close>, areas of \<open>VME\<close>, the \<open>Loader\<close>. For the calls, memory is a function of addresses, the view that the page fault handler gives a process of its pages, and a
  semaphore is its count, the view that \<open>Sema\<close> justifies.

  \<^bold>\<open>What the lemmas show\<close>

  \<^item> Memory: blocks of the heap never overlap, and allocation and release keep its structure for every client that follows
    the contract; frames, areas and page tables do what their abstract descriptions (sets, interval maps, the table walk) say.
  \<^item> Concurrency, by rule induction over reachable states: mutual exclusion of spin and blocking locks, the bound and the wake-ups of semaphores,
    no use after release of reference-counted objects except in the one race shown, and that every thread is at one place
    of the scheduler and runs on at most one core.
  \<^item> Storage: a read through driver, cache and i-node returns the bytes of the disk or of the file; path resolution with symbolic links computes its specification;
    the buffer cache is coherent in every reachable state, and it fails its own assertion in a sequence shown here.
  \<^item> Processes: every system call keeps the tables of all processes well formed; \<open>read\<close>, \<open>open\<close>, \<open>execl\<close>, \<open>fork\<close> with \<open>exit\<close> and \<open>wait\<close>, and the start of the first
    program do what they promise, on every branch; where the code fails to (two children at a time, failing reads, missing files) the theorem says what happens instead.
  \<^item> Address spaces: a forked process sees the contents of its parent in frames of its own, and fails exactly for want of frames; the release gives back the tables but not the pages.
  \<^item> Start: in every interleaving the shared initialisation is done first and once, stacks of processors are disjoint, \<open>kernelMain\<close> starts once and after all have arrived, and the start ends.
    A switched thread comes back with its registers; a new one enters its function with interrupts enabled.
  \<^item> Devices: gates read back as they were stored; a failed assertion is reported completely before the machine stops; calibration ends when the timer runs.
  \<^item> User programs: \<open>printf\<close> puts the characters of the kernel's formatter, one call each; \<open>cp\<close> prints a file of any size through all layers down to the disk.
  \<^item> Buffers: order and capacity of the bounded buffer, the barrier and the promise in every interleaving. Pictures: the loops compute the pixel function.
  \<^item> Text: printed numbers read back; a format prints the texts of its pieces; the format loop ends; a fraction is rounded to its decimals with the carry; strings answer for their content.

  \<^bold>\<open>Bounds and fuel\<close>

  Loops that the source bounds by a counter recurse on that counter. The searches in linked structures (heap lists, buckets, sleep queues,
  path resolution) take fuel or are partial functions; the lemmas prove that from a well-formed state they return, with fuel
  for the number of elements, so \<open>NoFuel\<close> is never the result there. The table of the interrupt controllers takes one unit per entry, \<open>cp\<close> one per block of 100 bytes and \<open>puts\<close> one per character.
  Loops that wait for a device are partial functions, shown to return when the device answers. The format loop is a total function, and \<open>dopr_terminates\<close> bounds its turns.

  \<^bold>\<open>Parameters\<close>

  The disk drive (status, sectors), the answers of the other devices, the memory in which the firmware leaves its tables, the operations of the type \<open>long double\<close>, the junk on the stack that \<open>find\<close> parses
  and the success of \<open>malloc\<close> for string copies are arguments of the definitions that use them. System calls take an environment: the mounted file system and its
  cache, a bound for the strings of user memory, the answers of the ports. A call that has to wait ends in \<open>Blocked\<close> with the state unchanged; it is repeated when the thread runs again.

  \<^bold>\<open>Not modelled\<close>

  The other assembly (\<open>machine.S\<close>, the boot sector \<open>mbr.S\<close>, \<open>crt0.S\<close>, \<open>sys.S\<close>), whose instructions the theories use by their effect; the messages and the processor features at the start of
  \<open>kernelInit\<close>, the task state segment (\<open>tss.h\<close>) and the calls of global constructors (\<open>crti.cc\<close>); the test programs \<open>init.c\<close> and \<open>shell.c\<close>. The rounding errors of
  floating point operations: \<open>FloatSplit\<close> proves its theorem over exact ones. The TLB, caches and weak memory
  order are not modelled; steps of cores interleave sequentially. Two system calls of different threads do not interleave in \<open>Syscall\<close>. What is left of the sources is declarations, destructors that
  only release memory, and code that is commented out.
\<close>

end
